(* ===== verification/JsPrelude.thy ===== *)
theory JsPrelude
  imports Main
begin

text \<open>
  Shared vocabulary of the development: the operations of JavaScript's standard library
  that the sources use on strings and arrays (both are lists here), error values, and the
  generic list lemmas the component theories rely on.

  A JavaScript string is a list of code units.  The path and loader code only compares
  single code units with ASCII constants and copies slices, so those theories use HOL's
  \<^typ>\<open>string\<close>; the codec theories use lists of numbers.  Every function
  below is polymorphic in the element type, hence serves both.
\<close>

named_theorems js_defs \<open>unfolding rules for the JavaScript string primitives\<close>

section \<open>Errors\<close>

text \<open>An \<open>Error\<close> object: its optional \<open>code\<close> property and its message.\<close>

datatype js_error = JsError (err_code: "string option") (err_message: string)

type_synonym 'a result = "js_error + 'a"

section \<open>String and array primitives\<close>

text \<open>\<open>charCodeAt\<close> / \<open>s[i]\<close>: \<open>None\<close> stands for \<open>NaN\<close> / \<open>undefined\<close>
  outside the string, which compares unequal to every code unit.\<close>

definition char_at :: "'a list \<Rightarrow> int \<Rightarrow> 'a option" where
  "char_at s i = (if 0 \<le> i \<and> i < int (length s) then Some (s ! nat i) else None)"

text \<open>The clamping of a relative index in \<open>slice\<close> (ECMAScript: negative counts from
  the end, everything is clamped to the string).\<close>

definition slice_index :: "nat \<Rightarrow> int \<Rightarrow> nat" where
  "slice_index n i = (if i < 0 then nat (int n + i) else min n (nat i))"

definition js_slice :: "'a list \<Rightarrow> int \<Rightarrow> int \<Rightarrow> 'a list" where
  "js_slice s from to =
     (let a = slice_index (length s) from; b = slice_index (length s) to
      in take (b - a) (drop a s))"

definition js_slice_from :: "'a list \<Rightarrow> int \<Rightarrow> 'a list" where
  "js_slice_from s from = drop (slice_index (length s) from) s"

text \<open>\<open>indexOf\<close> and \<open>lastIndexOf\<close> of a single code unit; \<open>-1\<close> when absent.\<close>

fun index_of_from :: "int \<Rightarrow> 'a \<Rightarrow> 'a list \<Rightarrow> int" where
  "index_of_from i c [] = -1"
| "index_of_from i c (x # xs) = (if x = c then i else index_of_from (i + 1) c xs)"

definition index_of :: "'a list \<Rightarrow> 'a \<Rightarrow> int" where
  "index_of s c = index_of_from 0 c s"

fun last_index_of_from :: "int \<Rightarrow> int \<Rightarrow> 'a \<Rightarrow> 'a list \<Rightarrow> int" where
  "last_index_of_from i best c [] = best"
| "last_index_of_from i best c (x # xs) =
     last_index_of_from (i + 1) (if x = c then i else best) c xs"

definition last_index_of :: "'a list \<Rightarrow> 'a \<Rightarrow> int" where
  "last_index_of s c = last_index_of_from 0 (-1) c s"

text \<open>\<open>split\<close> at every code unit satisfying a predicate (one code unit for
  \<open>split('/')\<close>), and \<open>join\<close>.\<close>

fun split_acc :: "('a \<Rightarrow> bool) \<Rightarrow> 'a list \<Rightarrow> 'a list \<Rightarrow> 'a list list" where
  "split_acc P cur [] = [cur]"
| "split_acc P cur (c # cs) =
     (if P c then cur # split_acc P [] cs else split_acc P (cur @ [c]) cs)"

definition split_by :: "('a \<Rightarrow> bool) \<Rightarrow> 'a list \<Rightarrow> 'a list list" where
  "split_by P s = split_acc P [] s"

definition js_split :: "'a list \<Rightarrow> 'a \<Rightarrow> 'a list list" where
  "js_split s c = split_by (\<lambda>x. x = c) s"

fun js_join :: "'a list \<Rightarrow> 'a list list \<Rightarrow> 'a list" where
  "js_join sep [] = []"
| "js_join sep [x] = x"
| "js_join sep (x # y # ys) = x @ sep @ js_join sep (y # ys)"

definition starts_with :: "'a list \<Rightarrow> 'a list \<Rightarrow> bool" where
  "starts_with s p \<longleftrightarrow> take (length p) s = p"

definition ends_with :: "'a list \<Rightarrow> 'a list \<Rightarrow> bool" where
  "ends_with s p \<longleftrightarrow> length p \<le> length s \<and> drop (length s - length p) s = p"

section \<open>Counted loops\<close>

text \<open>\<open>for (let i = hi; i >= lo; --i)\<close> and \<open>for (let i = lo; i < hi; i++)\<close> over the
  loop's local variables.  The body answers whether it executed \<open>break\<close>; the upward
  loop also returns the final index, which the sources read after the loop.\<close>

function down_loop :: "(int \<Rightarrow> 's \<Rightarrow> bool \<times> 's) \<Rightarrow> int \<Rightarrow> int \<Rightarrow> 's \<Rightarrow> 's" where
  "down_loop body lo i s =
     (if i \<ge> lo then
        (case body i s of (brk, s') \<Rightarrow> if brk then s' else down_loop body lo (i - 1) s')
      else s)"
  by pat_completeness auto
termination
  by (relation "measure (\<lambda>(b, lo, i, s). nat (i - lo + 1))") auto

function up_loop :: "(int \<Rightarrow> 's \<Rightarrow> bool \<times> 's) \<Rightarrow> int \<Rightarrow> int \<Rightarrow> 's \<Rightarrow> int \<times> 's" where
  "up_loop body i hi s =
     (if i < hi then
        (case body i s of (brk, s') \<Rightarrow> if brk then (i, s') else up_loop body (i + 1) hi s')
      else (i, s))"
  by pat_completeness auto
termination
  by (relation "measure (\<lambda>(b, i, hi, s). nat (hi - i))") auto

declare down_loop.simps [simp del] up_loop.simps [simp del]

section \<open>Lemmas\<close>

subsection \<open>Counted loops\<close>

lemma down_loop_end [simp]: "i < lo \<Longrightarrow> down_loop body lo i s = s"
  by (simp add: down_loop.simps)

lemma down_loop_step:
  "i \<ge> lo \<Longrightarrow> body i s = (False, s') \<Longrightarrow> down_loop body lo i s = down_loop body lo (i - 1) s'"
  by (simp add: down_loop.simps)

lemma down_loop_break:
  "i \<ge> lo \<Longrightarrow> body i s = (True, s') \<Longrightarrow> down_loop body lo i s = s'"
  by (simp add: down_loop.simps)

text \<open>A run of iterations that all leave the variables alone is skipped.\<close>

lemma down_loop_skip:
  assumes "\<And>j. k < j \<Longrightarrow> j \<le> i \<Longrightarrow> body j s = (False, s)" "lo - 1 \<le> k" "k \<le> i"
  shows "down_loop body lo i s = down_loop body lo k s"
  using assms(1,3)
proof (induction "nat (i - k)" arbitrary: i)
  case (Suc n)
  then have "down_loop body lo i s = down_loop body lo (i - 1) s"
    using assms(2) by (intro down_loop_step) auto
  also have "\<dots> = down_loop body lo k s"
    using Suc.hyps(2) Suc.prems by (intro Suc.hyps(1)) auto
  finally show ?case .
qed simp

text \<open>A run of iterations without a \<open>break\<close> that keeps an invariant.\<close>

lemma down_loop_until:
  assumes "\<And>j s. k < j \<Longrightarrow> j \<le> i \<Longrightarrow> P j s \<Longrightarrow> \<exists>s'. body j s = (False, s') \<and> P (j - 1) s'"
    and "lo - 1 \<le> k" "k \<le> i" "P i s"
  shows "\<exists>s'. down_loop body lo i s = down_loop body lo k s' \<and> P k s'"
  using assms(1,3,4)
proof (induction "nat (i - k)" arbitrary: i s)
  case (Suc n)
  have "k < i" using Suc.hyps(2) by linarith
  then obtain s' where s': "body i s = (False, s')" "P (i - 1) s'"
    using Suc.prems(1) [of i s] Suc.prems(3) by auto
  then have "down_loop body lo i s = down_loop body lo (i - 1) s'"
    using assms(2) Suc.hyps(2) by (intro down_loop_step) auto
  moreover have "\<exists>s''. down_loop body lo (i - 1) s' = down_loop body lo k s'' \<and> P k s''"
    using Suc.hyps(2) Suc.prems s' by (intro Suc.hyps(1)) auto
  ultimately show ?case by simp
qed (auto intro: antisym)

lemma up_loop_end [simp]: "i \<ge> hi \<Longrightarrow> up_loop body i hi s = (i, s)"
  by (simp add: up_loop.simps)

lemma up_loop_step:
  "i < hi \<Longrightarrow> body i s = (False, s') \<Longrightarrow> up_loop body i hi s = up_loop body (i + 1) hi s'"
  by (simp add: up_loop.simps)

lemma up_loop_break:
  "i < hi \<Longrightarrow> body i s = (True, s') \<Longrightarrow> up_loop body i hi s = (i, s')"
  by (simp add: up_loop.simps)

subsection \<open>Slices\<close>

lemma slice_index_nat [simp]: "slice_index n (int i) = min n i"
  by (simp add: slice_index_def)

lemma slice_index_zero [simp]: "slice_index n 0 = 0"
  by (simp add: slice_index_def)

lemma js_slice_nat [simp]: "js_slice s (int a) (int b) = take (b - a) (drop a s)"
  by (cases "a \<le> length s") (auto simp: js_slice_def Let_def min_def)

lemma js_slice_zero [simp]: "js_slice s 0 (int b) = take b s"
  using js_slice_nat [of s 0 b] by simp

lemma js_slice_from_nat [simp]: "js_slice_from s (int a) = drop a s"
  by (cases "a \<le> length s") (auto simp: js_slice_from_def min_def)

lemma js_slice_0_numeral [simp]: "js_slice s 0 (numeral n) = take (numeral n) s"
  by (simp add: js_slice_def slice_index_def min_def)

lemma js_slice_from_5 [simp]: "js_slice_from s 5 = drop 5 s"
  using js_slice_from_nat [of s 5] by simp

lemma char_at_nat [simp]:
  "char_at s (int i) = (if i < length s then Some (s ! i) else None)"
  by (simp add: char_at_def)

lemma char_at_neg [simp]: "i < 0 \<Longrightarrow> char_at s i = None"
  by (simp add: char_at_def)

lemma char_at_zero [simp]: "char_at s 0 = (case s of [] \<Rightarrow> None | c # _ \<Rightarrow> Some c)"
  by (cases s) (auto simp: char_at_def)

lemma char_at_last: "s \<noteq> [] \<Longrightarrow> char_at s (int (length s) - 1) = Some (last s)"
  by (cases s rule: rev_cases) (auto simp: char_at_def nat_add_distrib)

lemma char_at_Cons: "0 \<le> k \<Longrightarrow> char_at (x # s) (1 + k) = char_at s k"
  by (simp add: char_at_def nat_add_distrib)

lemma char_at_eq_Some: "char_at s (int i) = Some c \<longleftrightarrow> i < length s \<and> s ! i = c"
  by simp

lemma js_slice_from_Cons: "0 \<le> k \<Longrightarrow> js_slice_from (x # s) (1 + k) = js_slice_from s k"
  by (simp add: js_slice_from_def slice_index_def nat_add_distrib)

lemma char_at_Cons_num [simp]:
  "char_at (x # s) (1 + int k) = char_at s (int k)" "char_at (x # s) 1 = char_at s 0"
  by (rule char_at_Cons, simp) (use char_at_Cons [of 0 x s] in simp)

lemma js_slice_from_Cons_num [simp]:
  "js_slice_from (x # s) (1 + int k) = drop k s" "js_slice_from (x # s) (2 + int k) = drop (Suc k) s"
  "js_slice_from (x # s) 1 = s" "js_slice_from (x # s) 2 = drop 1 s" "js_slice_from (x # s) 0 = x # s"
  by (simp_all add: js_slice_from_def slice_index_def nat_add_distrib min_def)

subsection \<open>Joining\<close>

lemma js_join_Cons: "xs \<noteq> [] \<Longrightarrow> js_join sep (x # xs) = x @ sep @ js_join sep xs"
  by (cases xs) auto

lemma js_join_append:
  "xs \<noteq> [] \<Longrightarrow> ys \<noteq> [] \<Longrightarrow>
   js_join sep (xs @ ys) = js_join sep xs @ sep @ js_join sep ys"
proof (induction xs)
  case (Cons x xs)
  then show ?case
    by (cases "xs = []") (auto simp: js_join_Cons)
qed simp

lemma js_join_snoc:
  "js_join sep (xs @ [y]) = (if xs = [] then y else js_join sep xs @ sep @ y)"
  by (auto simp: js_join_append)

lemma js_join_eq_Nil:
  "list_all (\<lambda>s. s \<noteq> []) xs \<Longrightarrow> js_join sep xs = [] \<longleftrightarrow> xs = []"
  by (cases xs rule: rev_cases) (auto simp: js_join_snoc)

lemma set_js_join: "set (js_join sep xs) \<subseteq> set sep \<union> \<Union> (set ` set xs)"
  by (induction sep xs rule: js_join.induct) auto

subsection \<open>Splitting\<close>

lemma split_acc_not_Nil [simp]: "split_acc P cur s \<noteq> []"
  by (induction P cur s rule: split_acc.induct) auto

lemma split_by_Nil [simp]: "split_by P [] = [[]]"
  by (simp add: split_by_def)

lemma split_acc_append_no_sep:
  "list_all (\<lambda>c. \<not> P c) s \<Longrightarrow> split_acc P cur (s @ t) = split_acc P (cur @ s) t"
  by (induction s arbitrary: cur) auto

lemma split_acc_no_sep:
  "list_all (\<lambda>c. \<not> P c) s \<Longrightarrow> split_acc P cur s = [cur @ s]"
  using split_acc_append_no_sep [of P s cur "[]"] by simp

lemma split_acc_prefix:
  "split_acc P cur s = (cur @ hd (split_acc P [] s)) # tl (split_acc P [] s)"
proof (induction s arbitrary: cur)
  case (Cons c s)
  show ?case
  proof (cases "P c")
    case False
    then show ?thesis
      using Cons [of "cur @ [c]"] Cons [of "[c]"] by simp
  qed simp
qed simp

lemma split_by_append_sep:
  "P c \<Longrightarrow> split_by P (s @ c # t) = split_by P s @ split_by P t"
proof -
  have "split_acc P cur (s @ c # t) = split_acc P cur s @ split_acc P [] t" if "P c" for cur
    using that by (induction s arbitrary: cur) auto
  then show "P c \<Longrightarrow> ?thesis" by (simp add: split_by_def)
qed

lemma split_by_join:
  assumes "P c" "xs \<noteq> []" "\<forall>x \<in> set xs. list_all (\<lambda>c. \<not> P c) x"
  shows "split_by P (js_join [c] xs) = xs"
  using assms
proof (induction "[c]" xs rule: js_join.induct)
  case (2 x)
  then show ?case by (simp add: split_by_def split_acc_no_sep)
next
  case (3 x y ys)
  then show ?case
    by (simp add: split_by_append_sep) (simp add: split_by_def split_acc_no_sep)
qed simp

lemma split_acc_seg_no_sep:
  "list_all (\<lambda>c. \<not> P c) cur \<Longrightarrow>
   \<forall>x \<in> set (split_acc P cur s). list_all (\<lambda>c. \<not> P c) x"
  by (induction P cur s rule: split_acc.induct) auto

lemma split_by_seg_no_sep: "x \<in> set (split_by P s) \<Longrightarrow> list_all (\<lambda>c. \<not> P c) x"
  using split_acc_seg_no_sep [of P "[]" s] by (simp add: split_by_def)

lemma join_split_acc:
  "js_join [c] (split_acc (\<lambda>x. x = c) cur s) = cur @ s"
  by (induction s arbitrary: cur) (auto simp: js_join_Cons)

lemma js_join_js_split [simp]: "js_join [c] (js_split s c) = s"
  by (simp add: js_split_def split_by_def join_split_acc)

subsection \<open>Last occurrences\<close>

lemma last_index_of_from_absent:
  "c \<notin> set s \<Longrightarrow> last_index_of_from i b c s = b"
  by (induction s arbitrary: i b) auto

lemma last_index_of_from_append:
  "last_index_of_from i b c (s @ t) =
   last_index_of_from (i + int (length s)) (last_index_of_from i b c s) c t"
  by (induction s arbitrary: i b) (auto simp: algebra_simps)

lemma last_index_of_absent: "c \<notin> set s \<Longrightarrow> last_index_of s c = -1"
  by (simp add: last_index_of_def last_index_of_from_absent)

lemma last_index_of_split:
  "c \<notin> set t \<Longrightarrow> last_index_of (s @ c # t) c = int (length s)"
  by (simp add: last_index_of_def last_index_of_from_append last_index_of_from_absent)

lemma last_index_of_cases:
  obtains (absent) "c \<notin> set s" "last_index_of s c = -1"
  | (present) a b where "s = a @ c # b" "c \<notin> set b" "last_index_of s c = int (length a)"
  by (metis last_index_of_absent last_index_of_split split_list_last)

end
