(* ===== verification/NodePath.thy ===== *)
theory NodePath
  imports JsPrelude
begin

text \<open>
  The \<open>path\<close> module (\<open>libjs-node/path.js\<close>), which the bundle loader and the CommonJS
  loader call for every filename they build: \<open>normalizeString\<close> (shared by both
  platforms) and the whole of \<open>path.posix\<close>.  The loops keep the indices and flags of
  the source.  The reference definitions at the segment level (\<open>norm_push\<close>,
  \<open>normalize_segs\<close>, \<open>relative_segs\<close>) say what a path means: a sequence of
  segments between separators, in which \<open>.\<close> is dropped and \<open>..\<close> pops.
\<close>

section \<open>Character classes\<close>

abbreviation (input) CHAR_DOT :: char where "CHAR_DOT \<equiv> CHR ''.''"
abbreviation (input) CHAR_FORWARD_SLASH :: char where "CHAR_FORWARD_SLASH \<equiv> CHR ''/''"
abbreviation (input) CHAR_BACKWARD_SLASH :: char where "CHAR_BACKWARD_SLASH \<equiv> CHR 0x5C"

definition isPathSeparator :: "char \<Rightarrow> bool" where
  "isPathSeparator code \<longleftrightarrow> code = CHAR_FORWARD_SLASH \<or> code = CHAR_BACKWARD_SLASH"

definition isPosixPathSeparator :: "char \<Rightarrow> bool" where
  "isPosixPathSeparator code \<longleftrightarrow> code = CHAR_FORWARD_SLASH"

section \<open>normalizeString\<close>

text \<open>The local variables of \<open>normalizeString\<close>.\<close>

record norm_state =
  res :: string
  lastSegmentLength :: int
  lastSlash :: int
  dots :: int
  code :: char

definition norm_init :: norm_state where
  "norm_init = \<lparr>res = [], lastSegmentLength = 0, lastSlash = -1, dots = 0, code = CHR 0x00\<rparr>"

text \<open>The test on the last two code units that decides whether the last segment of
  \<open>res\<close> is \<open>..\<close> (the condition of lines 110 to 112).\<close>

definition top_not_dotdot :: "string \<Rightarrow> int \<Rightarrow> bool" where
  "top_not_dotdot r lsl \<longleftrightarrow> length r < 2 \<or> lsl \<noteq> 2
     \<or> char_at r (int (length r) - 1) \<noteq> Some CHAR_DOT
     \<or> char_at r (int (length r) - 2) \<noteq> Some CHAR_DOT"

text \<open>The body of the loop, once \<open>code\<close> holds the code unit of this iteration.\<close>

definition normalizeString_body ::
  "string \<Rightarrow> bool \<Rightarrow> char \<Rightarrow> (char \<Rightarrow> bool) \<Rightarrow> int \<Rightarrow> norm_state \<Rightarrow> norm_state" where
  "normalizeString_body path allowAboveRoot separator isSep i s =
     (if isSep (code s) then
        if lastSlash s = i - 1 \<or> dots s = 1 then s\<lparr>lastSlash := i, dots := 0\<rparr>
        else if dots s = 2 then
          (let notDotDot = top_not_dotdot (res s) (lastSegmentLength s) in
           if notDotDot \<and> length (res s) > 2 then
             (let lastSlashIndex = int (length (res s)) - lastSegmentLength s - 1 in
              if lastSlashIndex = -1 then
                s\<lparr>res := [], lastSegmentLength := 0, lastSlash := i, dots := 0\<rparr>
              else
                (let r = js_slice (res s) 0 lastSlashIndex in
                 s\<lparr>res := r,
                    lastSegmentLength := int (length r) - 1 - last_index_of r separator,
                    lastSlash := i, dots := 0\<rparr>))
           else if notDotDot \<and> length (res s) \<noteq> 0 then
             s\<lparr>res := [], lastSegmentLength := 0, lastSlash := i, dots := 0\<rparr>
           else if allowAboveRoot then
             s\<lparr>res := res s @ (if length (res s) > 0 then separator # ''..'' else ''..''),
                lastSegmentLength := 2, lastSlash := i, dots := 0\<rparr>
           else s\<lparr>lastSlash := i, dots := 0\<rparr>)
        else
          s\<lparr>res := (if length (res s) > 0
                    then res s @ separator # js_slice path (lastSlash s + 1) i
                    else js_slice path (lastSlash s + 1) i),
             lastSegmentLength := i - lastSlash s - 1,
             lastSlash := i, dots := 0\<rparr>
      else if code s = CHAR_DOT \<and> dots s \<noteq> -1 then s\<lparr>dots := dots s + 1\<rparr>
      else s\<lparr>dots := -1\<rparr>)"

function normalizeString_loop ::
  "string \<Rightarrow> bool \<Rightarrow> char \<Rightarrow> (char \<Rightarrow> bool) \<Rightarrow> nat \<Rightarrow> norm_state \<Rightarrow> norm_state" where
  "normalizeString_loop path allowAboveRoot separator isSep i s =
     (if i \<le> length path then
        if i < length path then
          normalizeString_loop path allowAboveRoot separator isSep (Suc i)
            (normalizeString_body path allowAboveRoot separator isSep (int i)
               (s\<lparr>code := path ! i\<rparr>))
        else if isSep (code s) then s
        else
          normalizeString_loop path allowAboveRoot separator isSep (Suc i)
            (normalizeString_body path allowAboveRoot separator isSep (int i)
               (s\<lparr>code := CHAR_FORWARD_SLASH\<rparr>))
      else s)"
  by pat_completeness auto
termination
  by (relation "measure (\<lambda>(path, a, sep, f, i, s). Suc (length path) - i)") auto

declare normalizeString_loop.simps [simp del]

definition normalizeString :: "string \<Rightarrow> bool \<Rightarrow> char \<Rightarrow> (char \<Rightarrow> bool) \<Rightarrow> string" where
  "normalizeString path allowAboveRoot separator isSep =
     res (normalizeString_loop path allowAboveRoot separator isSep 0 norm_init)"

subsection \<open>The reference: a stack of segments\<close>

text \<open>The stack has its top first.\<close>

definition norm_push :: "bool \<Rightarrow> string list \<Rightarrow> string \<Rightarrow> string list" where
  "norm_push allow stk seg =
     (if seg = [] \<or> seg = ''.'' then stk
      else if seg = ''..'' then
        (case stk of
           [] \<Rightarrow> if allow then [''..''] else []
         | t # ts \<Rightarrow> if t \<noteq> ''..'' then ts else if allow then ''..'' # stk else stk)
      else seg # stk)"

definition normalize_segs :: "bool \<Rightarrow> string list \<Rightarrow> string list" where
  "normalize_segs allow segs = rev (foldl (norm_push allow) [] segs)"

subsection \<open>The loop computes the reference\<close>

text \<open>What the local variables mean when \<open>cur\<close> is the unfinished segment and
  \<open>stk\<close> the stack of finished ones.\<close>

definition dots_of :: "string \<Rightarrow> int" where
  "dots_of cur = (if list_all (\<lambda>c. c = CHAR_DOT) cur then int (length cur) else -1)"

definition seg_ok :: "(char \<Rightarrow> bool) \<Rightarrow> string \<Rightarrow> bool" where
  "seg_ok isSep t \<longleftrightarrow> t \<noteq> [] \<and> list_all (\<lambda>c. \<not> isSep c) t"

definition norm_rel ::
  "string \<Rightarrow> char \<Rightarrow> (char \<Rightarrow> bool) \<Rightarrow> nat \<Rightarrow> string list \<Rightarrow> string \<Rightarrow> norm_state \<Rightarrow> bool" where
  "norm_rel path sep isSep i stk cur s \<longleftrightarrow>
     res s = js_join [sep] (rev stk)
   \<and> lastSegmentLength s = (case stk of [] \<Rightarrow> 0 | t # _ \<Rightarrow> int (length t))
   \<and> lastSlash s = int i - int (length cur) - 1
   \<and> dots s = dots_of cur
   \<and> length cur \<le> i \<and> i \<le> length path \<and> cur = drop (i - length cur) (take i path)
   \<and> list_all (\<lambda>c. \<not> isSep c) cur
   \<and> list_all (seg_ok isSep) stk
   \<and> (isSep (code s) \<longrightarrow> cur = [])"

lemma norm_rel_init: "norm_rel path sep isSep 0 [] [] norm_init"
  by (simp add: norm_rel_def norm_init_def dots_of_def)

lemma dots_of_snoc:
  "dots_of (cur @ [c]) = (if c = CHAR_DOT \<and> dots_of cur \<noteq> -1 then dots_of cur + 1 else -1)"
  by (auto simp: dots_of_def)

lemma dots_of_2: "dots_of cur = 2 \<longleftrightarrow> cur = ''..''"
  by (auto simp: dots_of_def split: if_splits)
     (auto simp: numeral_2_eq_2 length_Suc_conv)

lemma dots_of_1: "dots_of cur = 1 \<longleftrightarrow> cur = ''.''"
  by (auto simp: dots_of_def length_Suc_conv split: if_splits)

text \<open>A code unit that is not a separator extends the unfinished segment.\<close>

lemma norm_body_char:
  assumes "norm_rel path sep isSep i stk cur s" "i < length path" "\<not> isSep (path ! i)"
  shows "norm_rel path sep isSep (Suc i) stk (cur @ [path ! i])
    (normalizeString_body path allow sep isSep (int i) (s\<lparr>code := path ! i\<rparr>))"
proof -
  have "drop (i - length cur) (take (Suc i) path) = cur @ [path ! i]"
    using assms by (auto simp: norm_rel_def take_Suc_conv_app_nth)
  then show ?thesis
    using assms by (auto simp: norm_rel_def normalizeString_body_def dots_of_snoc)
qed

lemma join_rev_Cons:
  "js_join [sep] (rev (t # ts)) = (if ts = [] then t else js_join [sep] (rev ts) @ sep # t)"
  by (simp add: js_join_snoc)

lemma char_at_append_two:
  "char_at (r @ [a, b]) (int (length (r @ [a, b])) - 1) = Some b"
  "char_at (r @ [a, b]) (int (length (r @ [a, b])) - 2) = Some a"
  by (simp_all add: char_at_def nth_append nat_add_distrib)

lemma top_not_dotdot_iff:
  assumes "list_all (seg_ok isSep) stk"
  shows "top_not_dotdot (js_join [sep] (rev stk))
           (case stk of [] \<Rightarrow> 0 | t # _ \<Rightarrow> int (length t))
         \<longleftrightarrow> (\<forall>ts. stk \<noteq> ''..'' # ts)"
proof (cases stk)
  case (Cons t ts)
  obtain r where r: "js_join [sep] (rev stk) = r @ t"
    unfolding Cons join_rev_Cons by (cases "ts = []") auto
  show ?thesis
  proof (cases "length t = 2")
    case True
    then obtain a b where "t = [a, b]"
      by (auto simp: numeral_2_eq_2 length_Suc_conv)
    with r Cons show ?thesis
      using char_at_append_two [of r a b] by (auto simp: top_not_dotdot_def)
  qed (auto simp: Cons top_not_dotdot_def)
qed (simp add: top_not_dotdot_def)

lemma join_length_gt_two:
  assumes "list_all (seg_ok isSep) (t # u # ts)"
  shows "length (js_join [sep] (rev (t # u # ts))) > 2"
proof -
  have "length (js_join [sep] (rev (u # ts))) > 0"
    using assms by (simp only: join_rev_Cons) (auto simp: seg_ok_def)
  moreover have "length t > 0" using assms by (simp add: seg_ok_def)
  moreover have "length (js_join [sep] (rev (t # u # ts)))
      = length (js_join [sep] (rev (u # ts))) + Suc (length t)"
    by (simp only: join_rev_Cons [of sep t]) simp
  ultimately show ?thesis by linarith
qed

lemma last_segment_length:
  assumes "list_all (seg_ok isSep) (t # ts)" "isSep sep"
  shows "int (length (js_join [sep] (rev (t # ts)))) - 1
           - last_index_of (js_join [sep] (rev (t # ts))) sep = int (length t)"
proof -
  have t: "sep \<notin> set t" using assms by (auto simp: seg_ok_def list_all_iff)
  show ?thesis
  proof (cases ts)
    case Nil
    with t show ?thesis by (simp add: last_index_of_absent)
  next
    case (Cons u us)
    then show ?thesis
      using last_index_of_split [OF t, of "js_join [sep] (rev ts)"]
      by (simp only: join_rev_Cons) simp
  qed
qed

text \<open>What the body leaves behind at a separator: the stack is \<open>stk\<close>, and a new
  segment starts.\<close>

definition seg_done :: "char \<Rightarrow> (char \<Rightarrow> bool) \<Rightarrow> nat \<Rightarrow> char \<Rightarrow> string list \<Rightarrow> norm_state \<Rightarrow> bool" where
  "seg_done sep isSep i c stk s \<longleftrightarrow>
     res s = js_join [sep] (rev stk)
   \<and> lastSegmentLength s = (case stk of [] \<Rightarrow> 0 | t # _ \<Rightarrow> int (length t))
   \<and> lastSlash s = int i \<and> dots s = 0 \<and> code s = c
   \<and> list_all (seg_ok isSep) stk"

lemma norm_body_skip:
  assumes "norm_rel path sep isSep i stk cur s" "isSep c" "cur = [] \<or> cur = ''.''"
  shows "seg_done sep isSep i c stk
    (normalizeString_body path allow sep isSep (int i) (s\<lparr>code := c\<rparr>))"
proof -
  have "lastSlash s = int i - int (length cur) - 1" "dots s = dots_of cur"
    using assms(1) by (simp_all add: norm_rel_def)
  with assms(3) have "lastSlash s = int i - 1 \<or> dots s = 1" by (auto simp: dots_of_def)
  with assms show ?thesis
    by (simp add: norm_rel_def normalizeString_body_def seg_done_def)
qed

lemma norm_body_dotdot_keep:
  assumes rel: "norm_rel path sep isSep i stk ''..'' s" and c: "isSep c" and dot: "\<not> isSep CHAR_DOT"
    and keep: "stk = [] \<or> hd stk = ''..''"
  shows "seg_done sep isSep i c (if allow then ''..'' # stk else stk)
    (normalizeString_body path allow sep isSep (int i) (s\<lparr>code := c\<rparr>))"
proof -
  have stk: "list_all (seg_ok isSep) stk" and r: "res s = js_join [sep] (rev stk)"
    and lsl: "lastSegmentLength s = (case stk of [] \<Rightarrow> 0 | t # _ \<Rightarrow> int (length t))"
    and d: "dots s = 2" and ls: "lastSlash s \<noteq> int i - 1"
    using rel by (auto simp: norm_rel_def dots_of_def)
  have "stk = [] \<or> \<not> top_not_dotdot (res s) (lastSegmentLength s)"
    using keep top_not_dotdot_iff [OF stk, of sep] unfolding r lsl by (cases stk) auto
  moreover have "(res s = []) = (stk = [])"
    using r js_join_eq_Nil [of "rev stk" "[sep]"] stk by (auto simp: seg_ok_def list_all_iff)
  ultimately show ?thesis
    using r lsl d ls c dot stk
    by (auto simp: normalizeString_body_def seg_done_def Let_def seg_ok_def js_join_snoc
        top_not_dotdot_def [of "[]"])
qed

lemma norm_body_pop:
  assumes rel: "norm_rel path sep isSep i (t # ts) ''..'' s" and c: "isSep c" and sep: "isSep sep"
    and t: "t \<noteq> ''..''"
  shows "seg_done sep isSep i c ts
    (normalizeString_body path allow sep isSep (int i) (s\<lparr>code := c\<rparr>))"
proof -
  have stk: "list_all (seg_ok isSep) (t # ts)" and r: "res s = js_join [sep] (rev (t # ts))"
    and lsl: "lastSegmentLength s = int (length t)"
    and d: "dots s = 2" and ls: "lastSlash s \<noteq> int i - 1"
    using rel by (auto simp: norm_rel_def dots_of_def)
  have tn: "top_not_dotdot (res s) (lastSegmentLength s)"
    using top_not_dotdot_iff [OF stk, of sep] t unfolding r lsl by simp
  show ?thesis
  proof (cases ts)
    case Nil
    with r lsl d ls c tn stk show ?thesis
      by (auto simp: normalizeString_body_def Let_def seg_done_def seg_ok_def)
  next
    case (Cons u us)
    let ?r = "js_join [sep] (rev ts)"
    have len: "length (res s) > 2"
      using join_length_gt_two [of isSep t u us sep] stk Cons r by simp
    have rr: "res s = ?r @ sep # t"
      using r Cons by (simp only: join_rev_Cons) simp
    have idx: "int (length (res s)) - lastSegmentLength s - 1 = int (length ?r)"
      using rr lsl by simp
    have "int (length ?r) - 1 - last_index_of ?r sep = int (length u)"
      using last_segment_length [of isSep u us sep] stk Cons sep by simp
    with tn d ls c len idx rr stk Cons show ?thesis
      by (simp add: normalizeString_body_def Let_def seg_done_def)
  qed
qed

lemma norm_body_name:
  assumes rel: "norm_rel path sep isSep i stk cur s" and c: "isSep c"
    and name: "cur \<noteq> []" "cur \<noteq> ''.''" "cur \<noteq> ''..''"
  shows "seg_done sep isSep i c (cur # stk)
    (normalizeString_body path allow sep isSep (int i) (s\<lparr>code := c\<rparr>))"
proof -
  have stk: "list_all (seg_ok isSep) stk" and r: "res s = js_join [sep] (rev stk)"
    and ls: "lastSlash s = int i - int (length cur) - 1" and d: "dots s = dots_of cur"
    and cur: "list_all (\<lambda>c. \<not> isSep c) cur" "length cur \<le> i" "i \<le> length path"
      "cur = drop (i - length cur) (take i path)"
    using rel by (auto simp: norm_rel_def)
  have "lastSlash s + 1 = int (i - length cur)" using ls cur by simp
  then have slice: "js_slice path (lastSlash s + 1) (int i) = cur"
    using cur by (simp only: js_slice_nat) (simp add: drop_take)
  have "dots s \<noteq> 1" "dots s \<noteq> 2" "lastSlash s \<noteq> int i - 1"
    using name d ls dots_of_1 dots_of_2 by auto
  moreover have "(res s = []) = (stk = [])"
    using r js_join_eq_Nil [of "rev stk" "[sep]"] stk by (auto simp: seg_ok_def list_all_iff)
  ultimately show ?thesis
    using c slice ls r stk cur name
    by (auto simp: normalizeString_body_def seg_done_def seg_ok_def js_join_snoc)
qed

lemma norm_body_sep:
  assumes rel: "norm_rel path sep isSep i stk cur s" and "isSep c" "isSep sep" "\<not> isSep CHAR_DOT"
  shows "seg_done sep isSep i c (norm_push allow stk cur)
    (normalizeString_body path allow sep isSep (int i) (s\<lparr>code := c\<rparr>))"
proof -
  consider "cur = [] \<or> cur = ''.''" | "cur = ''..''" "stk = [] \<or> hd stk = ''..''"
    | t ts where "cur = ''..''" "stk = t # ts" "t \<noteq> ''..''"
    | "cur \<noteq> []" "cur \<noteq> ''.''" "cur \<noteq> ''..''"
    by (cases stk) auto
  then show ?thesis
  proof cases
    case 1
    then show ?thesis using norm_body_skip [OF rel] assms by (auto simp: norm_push_def)
  next
    case 2
    then show ?thesis using norm_body_dotdot_keep [of path sep isSep i stk s c allow] assms
      by (cases stk) (auto simp: norm_push_def)
  next
    case 3
    then show ?thesis using norm_body_pop [of path sep isSep i _ _ s c allow] assms
      by (auto simp: norm_push_def)
  next
    case 4
    then show ?thesis using norm_body_name [OF rel] assms by (auto simp: norm_push_def)
  qed
qed

lemma seg_done_rel:
  "seg_done sep isSep i c stk s \<Longrightarrow> i < length path \<Longrightarrow> norm_rel path sep isSep (Suc i) stk [] s"
  by (auto simp: seg_done_def norm_rel_def dots_of_def)

lemma normalizeString_loop_correct:
  assumes "norm_rel path sep isSep i stk cur s" "isSep sep" "isSep CHAR_FORWARD_SLASH"
    "\<not> isSep CHAR_DOT"
  shows "res (normalizeString_loop path allow sep isSep i s) =
    js_join [sep] (rev (foldl (norm_push allow) stk (split_acc isSep cur (drop i path))))"
  using assms
proof (induction "length path - i" arbitrary: i stk cur s)
  case 0
  then have i: "i = length path" by (auto simp: norm_rel_def)
  show ?case
  proof (cases "isSep (code s)")
    case True
    then have "cur = []" "res s = js_join [sep] (rev stk)"
      using 0 by (auto simp: norm_rel_def)
    with True i show ?thesis
      by (simp add: normalizeString_loop.simps norm_push_def)
  next
    case False
    have "seg_done sep isSep i CHAR_FORWARD_SLASH (norm_push allow stk cur)
      (normalizeString_body path allow sep isSep (int i) (s\<lparr>code := CHAR_FORWARD_SLASH\<rparr>))"
      using norm_body_sep 0 by blast
    with False i show ?thesis
      by (simp add: normalizeString_loop.simps [of path allow sep isSep "length path" s]
          normalizeString_loop.simps [of path allow sep isSep "Suc (length path)"] seg_done_def)
  qed
next
  case (Suc n)
  then have i: "i < length path" by simp
  then have dr: "drop i path = path ! i # drop (Suc i) path" by (simp add: Cons_nth_drop_Suc)
  let ?s = "normalizeString_body path allow sep isSep (int i) (s\<lparr>code := path ! i\<rparr>)"
  have step: "normalizeString_loop path allow sep isSep i s =
      normalizeString_loop path allow sep isSep (Suc i) ?s"
    using i by (subst normalizeString_loop.simps) simp
  show ?case
  proof (cases "isSep (path ! i)")
    case True
    then have "norm_rel path sep isSep (Suc i) (norm_push allow stk cur) [] ?s"
      using norm_body_sep Suc.prems seg_done_rel i by blast
    with Suc.hyps True step dr Suc.prems show ?thesis by simp
  next
    case False
    then have "norm_rel path sep isSep (Suc i) stk (cur @ [path ! i]) ?s"
      using norm_body_char Suc.prems i by blast
    with Suc.hyps False step dr Suc.prems show ?thesis by simp
  qed
qed

theorem normalizeString_eq_segs:
  assumes "isSep sep" "isSep CHAR_FORWARD_SLASH" "\<not> isSep CHAR_DOT"
  shows "normalizeString path allow sep isSep =
    js_join [sep] (normalize_segs allow (split_by isSep path))"
  using normalizeString_loop_correct [OF norm_rel_init assms]
  by (simp add: normalizeString_def normalize_segs_def split_by_def)

section \<open>path.posix\<close>

text \<open>Every operation starts with \<open>validateString\<close>, which throws for a non-string
  argument; here the arguments are strings by type.  \<open>process.cwd()\<close> is native and is
  the argument \<open>cwd\<close>.\<close>

subsection \<open>resolve, normalize, isAbsolute, join\<close>

definition posix_isAbsolute :: "string \<Rightarrow> bool" where
  "posix_isAbsolute path \<longleftrightarrow> length path > 0 \<and> char_at path 0 = Some CHAR_FORWARD_SLASH"

text \<open>The arguments from the last to the first, until one is absolute.\<close>

fun posix_resolve_loop :: "string list \<Rightarrow> string \<Rightarrow> bool \<Rightarrow> string \<times> bool" where
  "posix_resolve_loop [] resolvedPath resolvedAbsolute = (resolvedPath, resolvedAbsolute)"
| "posix_resolve_loop (path # rest) resolvedPath resolvedAbsolute =
     (if resolvedAbsolute then (resolvedPath, resolvedAbsolute)
      else if length path = 0 then posix_resolve_loop rest resolvedPath resolvedAbsolute
      else posix_resolve_loop rest (path @ ''/'' @ resolvedPath)
             (char_at path 0 = Some CHAR_FORWARD_SLASH))"

definition posix_resolve :: "string \<Rightarrow> string list \<Rightarrow> string" where
  "posix_resolve cwd args =
     (if (args = [] \<or> args = [[]] \<or> args = [''.''])
         \<and> char_at cwd 0 = Some CHAR_FORWARD_SLASH then cwd
      else
        (let (rp, absolute) = posix_resolve_loop (rev args) [] False;
             (rp, absolute) =
               (if absolute then (rp, absolute)
                else (cwd @ ''/'' @ rp, char_at cwd 0 = Some CHAR_FORWARD_SLASH));
             rp = normalizeString rp (\<not> absolute) CHAR_FORWARD_SLASH isPosixPathSeparator
         in if absolute then ''/'' @ rp else if length rp > 0 then rp else ''.''))"

definition posix_normalize :: "string \<Rightarrow> string" where
  "posix_normalize path =
     (if length path = 0 then ''.''
      else
        (let isAbsolute = (char_at path 0 = Some CHAR_FORWARD_SLASH);
             trailingSeparator =
               (char_at path (int (length path) - 1) = Some CHAR_FORWARD_SLASH);
             p = normalizeString path (\<not> isAbsolute) CHAR_FORWARD_SLASH isPosixPathSeparator
         in if length p = 0 then
              (if isAbsolute then ''/'' else if trailingSeparator then ''./'' else ''.'')
            else
              (let p = (if trailingSeparator then p @ ''/'' else p)
               in if isAbsolute then ''/'' @ p else p)))"

definition posix_join :: "string list \<Rightarrow> string" where
  "posix_join args =
     (if length args = 0 then ''.''
      else
        (let path = filter (\<lambda>arg. length arg > 0) args
         in if length path = 0 then ''.'' else posix_normalize (js_join ''/'' path)))"

subsection \<open>relative\<close>

text \<open>The first loop finds the index where the paths differ and the last common separator
  before it; the second emits one \<open>..\<close> per remaining segment of \<open>from\<close>.\<close>

definition relative_scan :: "string \<Rightarrow> string \<Rightarrow> int \<Rightarrow> int \<times> int" where
  "relative_scan from to len =
     up_loop (\<lambda>i lastCommonSep.
        if char_at from (1 + i) \<noteq> char_at to (1 + i) then (True, lastCommonSep)
        else if char_at from (1 + i) = Some CHAR_FORWARD_SLASH then (False, i)
        else (False, lastCommonSep)) 0 len (-1)"

definition relative_ups :: "string \<Rightarrow> int \<Rightarrow> string" where
  "relative_ups from start =
     snd (up_loop (\<lambda>i out.
        if i = int (length from) \<or> char_at from i = Some CHAR_FORWARD_SLASH
        then (False, out @ (if length out = 0 then ''..'' else ''/..''))
        else (False, out)) start (int (length from) + 1) [])"

definition posix_relative :: "string \<Rightarrow> string \<Rightarrow> string \<Rightarrow> string" where
  "posix_relative cwd from to =
     (if from = to then []
      else
        (let from = posix_resolve cwd [from]; to = posix_resolve cwd [to] in
         if from = to then []
         else
           (let fromLen = int (length from) - 1;
                toLen = int (length to) - 1;
                len = (if fromLen < toLen then fromLen else toLen);
                (i, lastCommonSep) = relative_scan from to len
            in if i = len \<and> toLen > len \<and> char_at to (1 + i) = Some CHAR_FORWARD_SLASH
               then js_slice_from to (1 + i + 1)
               else if i = len \<and> toLen > len \<and> i = 0 then js_slice_from to (1 + i)
               else
                 (let lastCommonSep =
                    (if i = len \<and> \<not> toLen > len \<and> fromLen > len then
                       (if char_at from (1 + i) = Some CHAR_FORWARD_SLASH then i
                        else if i = 0 then 0 else lastCommonSep)
                     else lastCommonSep)
                  in relative_ups from (1 + lastCommonSep + 1)
                     @ js_slice_from to (1 + lastCommonSep)))))"

definition posix_toNamespacedPath :: "string \<Rightarrow> string" where
  "posix_toNamespacedPath path = path"

subsection \<open>dirname, basename, extname\<close>

definition dirname_body :: "string \<Rightarrow> int \<Rightarrow> int \<times> bool \<Rightarrow> bool \<times> int \<times> bool" where
  "dirname_body path i =
     (\<lambda>(end, matchedSlash).
        if char_at path i = Some CHAR_FORWARD_SLASH then
          (if \<not> matchedSlash then (True, (i, matchedSlash)) else (False, (end, matchedSlash)))
        else (False, (end, False)))"

definition posix_dirname :: "string \<Rightarrow> string" where
  "posix_dirname path =
     (if length path = 0 then ''.''
      else
        (let hasRoot = (char_at path 0 = Some CHAR_FORWARD_SLASH);
             (end, matchedSlash) =
               down_loop (dirname_body path) 1 (int (length path) - 1) (-1, True)
         in if end = -1 then (if hasRoot then ''/'' else ''.'')
            else if hasRoot \<and> end = 1 then ''//''
            else js_slice path 0 end))"

text \<open>The two loops of \<open>basename\<close>: with a suffix to strip, and without.\<close>

record base_scan =
  bs_start :: int
  bs_end :: int
  bs_matchedSlash :: bool
  bs_extIdx :: int
  bs_firstNonSlashEnd :: int

definition basename_suffix_body :: "string \<Rightarrow> string \<Rightarrow> int \<Rightarrow> base_scan \<Rightarrow> bool \<times> base_scan" where
  "basename_suffix_body path suffix i s =
     (if char_at path i = Some CHAR_FORWARD_SLASH then
        (if \<not> bs_matchedSlash s then (True, s\<lparr>bs_start := i + 1\<rparr>) else (False, s))
      else
        (let s = (if bs_firstNonSlashEnd s = -1
                  then s\<lparr>bs_matchedSlash := False, bs_firstNonSlashEnd := i + 1\<rparr> else s)
         in (False,
             if bs_extIdx s \<ge> 0 then
               (if char_at path i = char_at suffix (bs_extIdx s) then
                  (if bs_extIdx s - 1 = -1 then s\<lparr>bs_extIdx := bs_extIdx s - 1, bs_end := i\<rparr>
                   else s\<lparr>bs_extIdx := bs_extIdx s - 1\<rparr>)
                else s\<lparr>bs_extIdx := -1, bs_end := bs_firstNonSlashEnd s\<rparr>)
             else s)))"

definition basename_body :: "string \<Rightarrow> int \<Rightarrow> int \<times> int \<times> bool \<Rightarrow> bool \<times> int \<times> int \<times> bool" where
  "basename_body path i =
     (\<lambda>(start, end, matchedSlash).
        if char_at path i = Some CHAR_FORWARD_SLASH then
          (if \<not> matchedSlash then (True, (i + 1, end, matchedSlash))
           else (False, (start, end, matchedSlash)))
        else if end = -1 then (False, (start, i + 1, False))
        else (False, (start, end, matchedSlash)))"

definition basename_plain :: "string \<Rightarrow> string" where
  "basename_plain path =
     (let (start, end, m) = down_loop (basename_body path) 0 (int (length path) - 1) (0, -1, True)
      in if end = -1 then [] else js_slice path start end)"

definition posix_basename :: "string \<Rightarrow> string option \<Rightarrow> string" where
  "posix_basename path suffix =
     (case suffix of
        Some suf \<Rightarrow>
          if length suf > 0 \<and> length suf \<le> length path then
            (if suf = path then []
             else
               (let s = down_loop (basename_suffix_body path suf) 0 (int (length path) - 1)
                          \<lparr>bs_start = 0, bs_end = -1, bs_matchedSlash = True,
                           bs_extIdx = int (length suf) - 1, bs_firstNonSlashEnd = -1\<rparr>;
                    end = (if bs_start s = bs_end s then bs_firstNonSlashEnd s
                           else if bs_end s = -1 then int (length path) else bs_end s)
                in js_slice path (bs_start s) end))
          else basename_plain path
      | None \<Rightarrow> basename_plain path)"

text \<open>\<open>extname\<close> and \<open>parse\<close> run the same loop, from different lower bounds.\<close>

record ext_scan =
  startDot :: int
  startPart :: int
  scanEnd :: int
  matchedSlash :: bool
  preDotState :: int

definition ext_scan_body :: "string \<Rightarrow> int \<Rightarrow> ext_scan \<Rightarrow> bool \<times> ext_scan" where
  "ext_scan_body path i s =
     (if char_at path i = Some CHAR_FORWARD_SLASH then
        (if \<not> matchedSlash s then (True, s\<lparr>startPart := i + 1\<rparr>) else (False, s))
      else
        (let s = (if scanEnd s = -1 then s\<lparr>matchedSlash := False, scanEnd := i + 1\<rparr> else s)
         in (False,
             if char_at path i = Some CHAR_DOT then
               (if startDot s = -1 then s\<lparr>startDot := i\<rparr>
                else if preDotState s \<noteq> 1 then s\<lparr>preDotState := 1\<rparr> else s)
             else if startDot s \<noteq> -1 then s\<lparr>preDotState := -1\<rparr>
             else s)))"

definition ext_scan_run :: "string \<Rightarrow> int \<Rightarrow> ext_scan" where
  "ext_scan_run path start =
     down_loop (ext_scan_body path) start (int (length path) - 1)
       \<lparr>startDot = -1, startPart = 0, scanEnd = -1, matchedSlash = True, preDotState = 0\<rparr>"

definition no_ext :: "ext_scan \<Rightarrow> bool" where
  "no_ext s \<longleftrightarrow> startDot s = -1 \<or> preDotState s = 0
     \<or> (preDotState s = 1 \<and> startDot s = scanEnd s - 1 \<and> startDot s = startPart s + 1)"

definition posix_extname :: "string \<Rightarrow> string" where
  "posix_extname path =
     (let s = ext_scan_run path 0
      in if scanEnd s = -1 \<or> no_ext s then [] else js_slice path (startDot s) (scanEnd s))"

subsection \<open>parse and format\<close>

record path_object =
  po_root :: "string option"
  po_dir :: "string option"
  po_base :: "string option"
  po_ext :: "string option"
  po_name :: "string option"

text \<open>The object \<open>parse\<close> builds from the result of its scan.\<close>

definition parse_ret :: "string \<Rightarrow> bool \<Rightarrow> ext_scan \<Rightarrow> path_object" where
  "parse_ret path isAbsolute s =
     (let ret = \<lparr>po_root = Some (if isAbsolute then ''/'' else []), po_dir = Some [],
                 po_base = Some [], po_ext = Some [], po_name = Some []\<rparr>;
          start = (if startPart s = 0 \<and> isAbsolute then 1 else startPart s);
          ret =
            (if scanEnd s \<noteq> -1 then
               (if no_ext s then
                  ret\<lparr>po_base := Some (js_slice path start (scanEnd s)),
                      po_name := Some (js_slice path start (scanEnd s))\<rparr>
                else
                  ret\<lparr>po_name := Some (js_slice path start (startDot s)),
                      po_base := Some (js_slice path start (scanEnd s)),
                      po_ext := Some (js_slice path (startDot s) (scanEnd s))\<rparr>)
             else ret)
      in if startPart s > 0 then ret\<lparr>po_dir := Some (js_slice path 0 (startPart s - 1))\<rparr>
         else if isAbsolute then ret\<lparr>po_dir := Some ''/''\<rparr>
         else ret)"

definition posix_parse :: "string \<Rightarrow> path_object" where
  "posix_parse path =
     (if length path = 0 then
        \<lparr>po_root = Some [], po_dir = Some [], po_base = Some [], po_ext = Some [], po_name = Some []\<rparr>
      else
        (let isAbsolute = (char_at path 0 = Some CHAR_FORWARD_SLASH)
         in parse_ret path isAbsolute (ext_scan_run path (if isAbsolute then 1 else 0))))"

text \<open>A string-valued property is falsy when absent or empty.\<close>

definition truthy :: "string option \<Rightarrow> bool" where
  "truthy v \<longleftrightarrow> (case v of None \<Rightarrow> False | Some s \<Rightarrow> s \<noteq> [])"

definition formatExt :: "string option \<Rightarrow> string" where
  "formatExt ext =
     (case ext of
        None \<Rightarrow> []
      | Some e \<Rightarrow> if e = [] then [] else (if char_at e 0 = Some CHAR_DOT then e else ''.'' @ e))"

definition format_path :: "string \<Rightarrow> path_object \<Rightarrow> string" where
  "format_path sep po =
     (let dir = (if truthy (po_dir po) then po_dir po else po_root po);
          base = (if truthy (po_base po) then the (po_base po)
                  else (if truthy (po_name po) then the (po_name po) else []) @ formatExt (po_ext po))
      in if \<not> truthy dir then base
         else if dir = po_root po then the dir @ base
         else the dir @ sep @ base)"

end
