(* ===== verification/NodePathProps.thy ===== *)
theory NodePathProps
  imports NodePath
begin

text \<open>
  What the operations of \<open>path.posix\<close> guarantee, in terms of segments: normal forms,
  idempotence of \<open>normalize\<close>, absoluteness of \<open>resolve\<close>, the meaning of \<open>join\<close>,
  \<open>relative\<close> and \<open>dirname\<close> on normalised paths, and the laws of \<open>parse\<close> and
  \<open>format\<close>.
\<close>

section \<open>Normal forms\<close>

definition is_name :: "string \<Rightarrow> bool" where
  "is_name s \<longleftrightarrow> s \<noteq> [] \<and> s \<noteq> ''.'' \<and> s \<noteq> ''..'' \<and> CHAR_FORWARD_SLASH \<notin> set s"

text \<open>Normalised segments: names only, after leading \<open>..\<close> where those are allowed.\<close>

definition clean_segs :: "bool \<Rightarrow> string list \<Rightarrow> bool" where
  "clean_segs allow ss \<longleftrightarrow>
     list_all is_name (dropWhile (\<lambda>s. s = ''..'') ss)
   \<and> (allow \<or> takeWhile (\<lambda>s. s = ''..'') ss = [])"

abbreviation (input) abs_path :: "string list \<Rightarrow> string" where
  "abs_path ss \<equiv> CHAR_FORWARD_SLASH # js_join ''/'' ss"

lemma is_name_dotdot [simp]: "\<not> is_name ''..''" "\<not> is_name ''.''" "\<not> is_name []"
  by (simp_all add: is_name_def)

lemma names_clean: "list_all is_name ss \<Longrightarrow> clean_segs allow ss"
  by (cases ss) (auto simp: clean_segs_def)

lemma clean_segs_False: "clean_segs False ss \<longleftrightarrow> list_all is_name ss"
  by (cases ss) (auto simp: clean_segs_def)

lemma norm_push_name: "is_name s \<Longrightarrow> norm_push allow stk s = s # stk"
  by (simp add: norm_push_def is_name_def)

lemma foldl_push_names:
  "list_all is_name ss \<Longrightarrow> foldl (norm_push allow) stk ss = rev ss @ stk"
  by (induction ss arbitrary: stk) (auto simp: norm_push_name)

lemma foldl_push_dotdots:
  "foldl (norm_push True) (replicate k ''..'') (replicate n ''..'') = replicate (k + n) ''..''"
proof (induction n arbitrary: k)
  case (Suc n)
  have "norm_push True (replicate k ''..'') ''..'' = replicate (Suc k) ''..''"
    by (cases k) (auto simp: norm_push_def)
  with Suc [of "Suc k"] show ?case by simp
qed simp

text \<open>The shape of normalised segments, and its two consequences: normalisation leaves
  them alone, and always produces them.\<close>

lemma takeWhile_dotdot_names:
  "list_all is_name ns \<Longrightarrow>
   takeWhile (\<lambda>s. s = ''..'') (replicate n ''..'' @ ns) = replicate n ''..''
   \<and> dropWhile (\<lambda>s. s = ''..'') (replicate n ''..'' @ ns) = ns"
  by (induction n) (cases ns; auto)+

lemma clean_segs_iff:
  "clean_segs allow ss \<longleftrightarrow>
     (\<exists>n ns. ss = replicate n ''..'' @ ns \<and> list_all is_name ns \<and> (allow \<or> n = 0))"
  (is "_ \<longleftrightarrow> ?shape")
proof
  let ?u = "takeWhile (\<lambda>s. s = ''..'') ss"
  assume c: "clean_segs allow ss"
  have "?u = replicate (length ?u) ''..''"
    by (rule replicate_eqI) (auto dest: set_takeWhileD)
  then have "ss = replicate (length ?u) ''..'' @ dropWhile (\<lambda>s. s = ''..'') ss"
    by (metis takeWhile_dropWhile_id)
  with c show ?shape by (metis clean_segs_def list.size(3))
next
  assume ?shape
  then obtain n ns where "ss = replicate n ''..'' @ ns" "list_all is_name ns" "allow \<or> n = 0"
    by blast
  with takeWhile_dotdot_names [of ns n] show "clean_segs allow ss"
    by (auto simp: clean_segs_def)
qed

lemma normalize_segs_names: "list_all is_name ss \<Longrightarrow> normalize_segs allow ss = ss"
  by (simp add: normalize_segs_def foldl_push_names)

lemma normalize_segs_clean_id:
  assumes "clean_segs allow ss"
  shows "normalize_segs allow ss = ss"
proof -
  obtain n ns where s: "ss = replicate n ''..'' @ ns" "list_all is_name ns" "allow \<or> n = 0"
    using assms clean_segs_iff by blast
  show ?thesis
  proof (cases "n = 0")
    case False
    with s show ?thesis
      using foldl_push_dotdots [of 0 n] by (simp add: normalize_segs_def foldl_push_names)
  qed (use s in \<open>simp add: normalize_segs_names\<close>)
qed

definition clean_stack :: "bool \<Rightarrow> string list \<Rightarrow> bool" where
  "clean_stack allow stk \<longleftrightarrow> (\<exists>ns n. stk = ns @ replicate n ''..'' \<and> list_all is_name ns
     \<and> (allow \<or> n = 0))"

lemma norm_push_clean:
  assumes "clean_stack allow stk" "CHAR_FORWARD_SLASH \<notin> set seg"
  shows "clean_stack allow (norm_push allow stk seg)"
proof -
  obtain ns n where s: "stk = ns @ replicate n ''..''" "list_all is_name ns" "allow \<or> n = 0"
    using assms(1) by (auto simp: clean_stack_def)
  consider "seg = [] \<or> seg = ''.''" | "seg = ''..''" "ns = []" | "seg = ''..''" "ns \<noteq> []"
    | "is_name seg"
    using assms(2) by (auto simp: is_name_def)
  then show ?thesis
  proof cases
    case 1
    then show ?thesis using assms(1) by (auto simp: norm_push_def)
  next
    case 2
    then have "norm_push allow stk seg = (if allow then replicate (Suc n) ''..'' else [])"
      using s by (cases n) (auto simp: norm_push_def)
    moreover have "clean_stack True (replicate (Suc n) ''..'')"
      unfolding clean_stack_def by (intro exI [of _ "[]"] exI [of _ "Suc n"]) simp
    moreover have "clean_stack allow []" by (simp add: clean_stack_def)
    ultimately show ?thesis by (cases allow) simp_all
  next
    case 3
    then obtain m ms where "ns = m # ms" by (cases ns) auto
    with 3 s show ?thesis
      by (auto simp: norm_push_def clean_stack_def is_name_def)
  next
    case 4
    then have "norm_push allow stk seg = (seg # ns) @ replicate n ''..''"
      using s by (simp add: norm_push_name)
    moreover have "list_all is_name (seg # ns)" using 4 s by simp
    ultimately show ?thesis using s unfolding clean_stack_def by blast
  qed
qed

lemma foldl_push_clean:
  "clean_stack allow stk \<Longrightarrow> \<forall>s \<in> set segs. CHAR_FORWARD_SLASH \<notin> set s \<Longrightarrow>
   clean_stack allow (foldl (norm_push allow) stk segs)"
  by (induction segs arbitrary: stk) (auto simp: norm_push_clean)

lemma clean_stack_segs: "clean_stack allow stk \<Longrightarrow> clean_segs allow (rev stk)"
  unfolding clean_segs_iff clean_stack_def by (metis list_all_rev rev_append rev_replicate)

lemma normalize_segs_clean:
  "\<forall>s \<in> set segs. CHAR_FORWARD_SLASH \<notin> set s \<Longrightarrow> clean_segs allow (normalize_segs allow segs)"
  unfolding normalize_segs_def
  by (rule clean_stack_segs, rule foldl_push_clean) (simp_all add: clean_stack_def)

section \<open>Splitting at slashes\<close>

lemma isPosixPathSeparator_eq: "isPosixPathSeparator = (\<lambda>c. c = CHAR_FORWARD_SLASH)"
  by (simp add: isPosixPathSeparator_def [abs_def])

abbreviation (input) segs_of :: "string \<Rightarrow> string list" where
  "segs_of p \<equiv> split_by isPosixPathSeparator p"

lemma segs_of_no_slash: "s \<in> set (segs_of p) \<Longrightarrow> CHAR_FORWARD_SLASH \<notin> set s"
  using split_by_seg_no_sep [of s isPosixPathSeparator p]
  by (auto simp: list_all_iff isPosixPathSeparator_def)

lemma segs_of_join:
  "ss \<noteq> [] \<Longrightarrow> \<forall>s \<in> set ss. CHAR_FORWARD_SLASH \<notin> set s \<Longrightarrow> segs_of (js_join ''/'' ss) = ss"
  by (rule split_by_join) (auto simp: isPosixPathSeparator_def list_all_iff)

lemma segs_of_slash: "segs_of (s @ CHAR_FORWARD_SLASH # t) = segs_of s @ segs_of t"
  by (rule split_by_append_sep) (simp add: isPosixPathSeparator_def)

lemma segs_of_Cons_slash [simp]: "segs_of (CHAR_FORWARD_SLASH # t) = [] # segs_of t"
  using segs_of_slash [of "[]" t] by simp

lemma clean_seg_cases:
  assumes "clean_segs allow ss" "s \<in> set ss"
  shows "s = ''..'' \<or> is_name s"
proof -
  obtain n ns where "ss = replicate n ''..'' @ ns" "list_all is_name ns"
    using assms(1) clean_segs_iff by blast
  with assms(2) show ?thesis by (cases "n = 0") (auto simp: list_all_iff)
qed

lemma clean_no_slash: "clean_segs allow ss \<Longrightarrow> s \<in> set ss \<Longrightarrow> CHAR_FORWARD_SLASH \<notin> set s"
  using clean_seg_cases by (fastforce simp: is_name_def)

lemma clean_not_Nil: "clean_segs allow ss \<Longrightarrow> s \<in> set ss \<Longrightarrow> s \<noteq> []"
  using clean_seg_cases by (fastforce simp: is_name_def)

text \<open>A leading or trailing empty segment, which a leading or trailing slash yields, does
  not change the normal form.\<close>

lemma normalize_segs_Nil_Cons [simp]: "normalize_segs allow ([] # ss) = normalize_segs allow ss"
  by (simp add: normalize_segs_def norm_push_def)

lemma normalize_segs_snoc_Nil [simp]: "normalize_segs allow (ss @ [[]]) = normalize_segs allow ss"
  by (simp add: normalize_segs_def norm_push_def)

theorem posix_normalizeString:
  "normalizeString p allow CHAR_FORWARD_SLASH isPosixPathSeparator =
     js_join ''/'' (normalize_segs allow (segs_of p))"
  by (rule normalizeString_eq_segs) (simp_all add: isPosixPathSeparator_def)

section \<open>normalize\<close>

text \<open>How \<open>normalize\<close> prints segments, given whether the path was absolute and whether it
  ended in a separator.\<close>

definition render :: "bool \<Rightarrow> string list \<Rightarrow> bool \<Rightarrow> string" where
  "render absolute ss trailing =
     (if ss = [] then (if absolute then ''/'' else if trailing then ''./'' else ''.'')
      else (if absolute then ''/'' else []) @ js_join ''/'' ss @ (if trailing then ''/'' else []))"

lemma join_clean_eq_Nil: "clean_segs allow ss \<Longrightarrow> js_join sep ss = [] \<longleftrightarrow> ss = []"
  by (rule js_join_eq_Nil) (auto simp: list_all_iff dest: clean_not_Nil)

lemma segs_of_normal_clean: "clean_segs allow (normalize_segs allow (segs_of p))"
  by (rule normalize_segs_clean) (auto dest: segs_of_no_slash)

lemma posix_normalize_render:
  assumes "p \<noteq> []"
  shows "posix_normalize p =
    render (hd p = CHAR_FORWARD_SLASH)
      (normalize_segs (hd p \<noteq> CHAR_FORWARD_SLASH) (segs_of p)) (last p = CHAR_FORWARD_SLASH)"
proof -
  let ?ss = "normalize_segs (hd p \<noteq> CHAR_FORWARD_SLASH) (segs_of p)"
  have "(js_join ''/'' ?ss = []) = (?ss = [])"
    by (rule join_clean_eq_Nil [OF segs_of_normal_clean])
  moreover have "char_at p 0 = Some (hd p)" "char_at p (int (length p) - 1) = Some (last p)"
    using assms char_at_last [OF assms] by (cases p; simp)+
  ultimately show ?thesis
    using assms by (auto simp: posix_normalize_def render_def posix_normalizeString Let_def)
qed

lemma hd_join: "ss \<noteq> [] \<Longrightarrow> hd ss \<noteq> [] \<Longrightarrow> hd (js_join sep ss) = hd (hd ss)"
  by (cases ss; cases "tl ss") auto

lemma last_join: "ss \<noteq> [] \<Longrightarrow> last ss \<noteq> [] \<Longrightarrow> last (js_join sep ss) = last (last ss)"
  by (cases ss rule: rev_cases) (auto simp: js_join_snoc)

lemma join_clean_ends:
  assumes "clean_segs allow ss" "ss \<noteq> []"
  shows "js_join ''/'' ss \<noteq> []" "hd (js_join ''/'' ss) \<noteq> CHAR_FORWARD_SLASH"
    "last (js_join ''/'' ss) \<noteq> CHAR_FORWARD_SLASH"
proof -
  have n: "hd ss \<noteq> []" "last ss \<noteq> []"
    using clean_not_Nil [OF assms(1)] assms(2) by auto
  have s: "CHAR_FORWARD_SLASH \<notin> set (hd ss)" "CHAR_FORWARD_SLASH \<notin> set (last ss)"
    using clean_no_slash [OF assms(1)] assms(2) by auto
  show "js_join ''/'' ss \<noteq> []" using join_clean_eq_Nil assms by blast
  show "hd (js_join ''/'' ss) \<noteq> CHAR_FORWARD_SLASH"
    using hd_join [OF assms(2) n(1)] hd_in_set [OF n(1)] s(1) by metis
  show "last (js_join ''/'' ss) \<noteq> CHAR_FORWARD_SLASH"
    using last_join [OF assms(2) n(2)] last_in_set [OF n(2)] s(2) by metis
qed

lemma normalize_segs_of_join:
  assumes "clean_segs allow ss" "ss \<noteq> []"
  shows "normalize_segs allow (segs_of (js_join ''/'' ss)) = ss"
  using assms segs_of_join [of ss] clean_no_slash normalize_segs_clean_id by metis

lemma segs_of_render:
  assumes "clean_segs (\<not> a) ss"
  shows "normalize_segs (\<not> a) (segs_of (render a ss t)) = ss"
proof (cases "ss = []")
  case True
  then show ?thesis
    using segs_of_slash [of "''.''" "[]"]
    by (auto simp: render_def normalize_segs_def norm_push_def split_by_def
        isPosixPathSeparator_def)
next
  case False
  have "normalize_segs (\<not> a) (segs_of (js_join ''/'' ss @ (if t then ''/'' else []))) = ss"
    using normalize_segs_of_join [OF assms False] segs_of_slash [of "js_join ''/'' ss" "[]"] by simp
  with False show ?thesis by (cases a) (simp_all add: render_def)
qed

lemma render_ends:
  assumes "clean_segs (\<not> a) ss"
  shows "render a ss t \<noteq> []" "hd (render a ss t) = CHAR_FORWARD_SLASH \<longleftrightarrow> a"
    "a \<or> ss \<noteq> [] \<Longrightarrow> last (render a ss t) = CHAR_FORWARD_SLASH \<longleftrightarrow> t \<or> ss = []"
    "ss = [] \<Longrightarrow> \<not> a \<Longrightarrow> last (render a ss t) = CHAR_FORWARD_SLASH \<longleftrightarrow> t"
  using join_clean_ends [OF assms] by (auto simp: render_def)

lemma posix_normalize_of_render:
  assumes "clean_segs (\<not> a) ss"
  shows "posix_normalize (render a ss t) = render a ss t"
proof -
  have "(hd (render a ss t) \<noteq> CHAR_FORWARD_SLASH) = (\<not> a)"
    using render_ends(2) [OF assms] by simp
  then have "posix_normalize (render a ss t) = render a ss (last (render a ss t) = CHAR_FORWARD_SLASH)"
    using posix_normalize_render [OF render_ends(1) [OF assms]] segs_of_render [OF assms, of t]
    by (simp add: render_ends(2) [OF assms])
  then show ?thesis
    using render_ends(3,4) [OF assms, of t] by (cases "ss = []"; cases a) (auto simp: render_def)
qed

text \<open>\<open>normalize\<close> is idempotent.\<close>

lemma posix_normalize_idem: "posix_normalize (posix_normalize p) = posix_normalize p"
proof (cases "p = []")
  case True
  then have "posix_normalize p = render False [] False"
    by (simp add: posix_normalize_def render_def)
  then show ?thesis using posix_normalize_of_render [of False "[]" False] by (simp add: clean_segs_def)
next
  case False
  let ?a = "hd p = CHAR_FORWARD_SLASH"
  have "clean_segs (\<not> ?a) (normalize_segs (\<not> ?a) (segs_of p))" by (rule segs_of_normal_clean)
  from posix_normalize_of_render [OF this] show ?thesis
    by (simp only: posix_normalize_render [OF False])
qed

section \<open>resolve and join\<close>

lemma normalize_segs_names_only: "list_all is_name (normalize_segs False (segs_of p))"
  using segs_of_normal_clean [of False] by (simp add: clean_segs_False)

lemma posix_resolve_absolute:
  assumes "list_all is_name cs"
  shows "\<exists>ss. posix_resolve (abs_path cs) args = abs_path ss \<and> list_all is_name ss"
proof (cases "args = [] \<or> args = [[]] \<or> args = [''.'']")
  case True
  then show ?thesis using assms by (auto simp: posix_resolve_def)
next
  case False
  obtain rp b where "posix_resolve_loop (rev args) [] False = (rp, b)" by force
  then have "posix_resolve (abs_path cs) args =
      abs_path (normalize_segs False (segs_of (if b then rp else abs_path cs @ ''/'' @ rp)))"
    using False by (cases b) (simp_all add: posix_resolve_def posix_normalizeString)
  then show ?thesis using normalize_segs_names_only by blast
qed

lemma segs_of_abs_path:
  assumes "list_all is_name ss"
  shows "normalize_segs allow (segs_of (abs_path ss)) = ss"
    "normalize_segs allow (segs_of (abs_path ss @ ''/'')) = ss"
proof -
  have c: "clean_segs allow ss" using assms by (rule names_clean)
  show "normalize_segs allow (segs_of (abs_path ss)) = ss"
  proof (cases "ss = []")
    case False
    then show ?thesis using normalize_segs_of_join [OF c] by simp
  qed (simp add: normalize_segs_def norm_push_def)
  then show "normalize_segs allow (segs_of (abs_path ss @ ''/'')) = ss"
    using segs_of_slash [of "abs_path ss" "[]"] by simp
qed

lemma posix_resolve_abs_path:
  assumes "list_all is_name ss"
  shows "posix_resolve cwd [abs_path ss] = abs_path ss"
  using segs_of_abs_path(2) [OF assms]
  by (simp add: posix_resolve_def posix_normalizeString)

lemma posix_join_root:
  assumes "list_all is_name rs" "list_all is_name is" "is \<noteq> []"
  shows "posix_join [abs_path rs, js_join ''/'' is] = abs_path (rs @ is)"
proof -
  have c: "clean_segs False is" using assms by (simp add: names_clean)
  let ?p = "abs_path rs @ CHAR_FORWARD_SLASH # js_join ''/'' is"
  have j: "posix_join [abs_path rs, js_join ''/'' is] = posix_normalize ?p"
    using join_clean_ends(1) [OF c assms(3)] by (simp add: posix_join_def)
  have "segs_of ?p = segs_of (abs_path rs) @ is"
    using segs_of_slash [of "abs_path rs"] segs_of_join [OF assms(3)] clean_no_slash [OF c]
    by simp
  moreover have "foldl (norm_push False) [] (segs_of (abs_path rs)) = rev rs"
    using segs_of_abs_path(1) [OF assms(1), of False]
    by (simp add: normalize_segs_def rev_swap)
  ultimately have "normalize_segs False (segs_of ?p) = rs @ is"
    using assms(2) by (simp only: normalize_segs_def foldl_append) (simp add: foldl_push_names)
  then show ?thesis
    using posix_normalize_render [of ?p] join_clean_ends [OF c assms(3)] assms(3) j
    by (simp add: render_def)
qed

section \<open>relative\<close>

text \<open>The scanning loop, on the strings after the leading slash.\<close>

fun rscan :: "string \<Rightarrow> string \<Rightarrow> int \<Rightarrow> int \<Rightarrow> int \<times> int" where
  "rscan (a # as) (b # bs) i l =
     (if a \<noteq> b then (i, l)
      else rscan as bs (i + 1) (if a = CHAR_FORWARD_SLASH then i else l))"
| "rscan _ _ i l = (i, l)"

lemma relative_scan_rscan_gen:
  assumes "k \<le> length F" "k \<le> length T"
  shows "up_loop (\<lambda>i lastCommonSep.
        if char_at (x # F) (1 + i) \<noteq> char_at (y # T) (1 + i) then (True, lastCommonSep)
        else if char_at (x # F) (1 + i) = Some CHAR_FORWARD_SLASH then (False, i)
        else (False, lastCommonSep)) (int k) (int (min (length F) (length T))) l
    = rscan (drop k F) (drop k T) (int k) l"
  using assms
proof (induction "min (length F) (length T) - k" arbitrary: k l)
  case 0
  then have "k = length F \<or> k = length T" by auto
  with 0 show ?case by (cases "drop k F"; cases "drop k T") auto
next
  case (Suc n)
  have k: "k < length F" "k < length T" using Suc.hyps(2) by auto
  have c: "char_at (x # F) (1 + int k) = Some (F ! k)" "char_at (y # T) (1 + int k) = Some (T ! k)"
    using k char_at_nat [of "x # F" "Suc k"] char_at_nat [of "y # T" "Suc k"] by auto
  have "n = min (length F) (length T) - Suc k" "Suc k \<le> length F" "Suc k \<le> length T"
    using Suc.hyps(2) k by auto
  from Suc.hyps(1) [OF this] k show ?case
    by (subst up_loop.simps)
       (simp add: c Cons_nth_drop_Suc [symmetric] add.commute)
qed

lemma relative_scan_rscan:
  "relative_scan (x # F) (y # T) (int (min (length F) (length T))) = rscan F T 0 (-1)"
  unfolding relative_scan_def using relative_scan_rscan_gen [of 0 F T x y "-1"] by simp

lemma rscan_common:
  "rscan (c @ F) (c @ T) i l =
   rscan F T (i + int (length c)) (last_index_of_from i l CHAR_FORWARD_SLASH c)"
  by (induction c arbitrary: i l) (auto simp: algebra_simps)

lemma rscan_diverge:
  "F = [] \<or> T = [] \<or> hd F \<noteq> hd T \<Longrightarrow> rscan F T i l = (i, l)"
  by (cases F; cases T) auto

lemma common_prefix_exists:
  "\<exists>c F' T'. F = c @ F' \<and> T = c @ T' \<and> (F' = [] \<or> T' = [] \<or> hd F' \<noteq> hd T')"
proof (induction F arbitrary: T)
  case (Cons a F)
  show ?case
  proof (cases "T \<noteq> [] \<and> hd T = a")
    case True
    then obtain T2 where "T = a # T2" by (cases T) auto
    with Cons [of T2] show ?thesis by (metis append_Cons)
  next
    case False
    then show ?thesis
      by (intro exI [of _ "[]"] exI [of _ "a # F"] exI [of _ T]) auto
  qed
qed auto

text \<open>The second loop emits one \<open>..\<close> per segment that is left of \<open>from\<close>.\<close>

definition dotdots :: "nat \<Rightarrow> string" where
  "dotdots n = js_join ''/'' (replicate n ''..'')"

lemma dotdots_Suc: "dotdots (Suc n) = (if n = 0 then ''..'' else dotdots n @ ''/..'')"
proof -
  have "replicate (Suc n) ''..'' = replicate n ''..'' @ [''..'']"
    by (simp add: replicate_append_same)
  then show ?thesis by (simp only: dotdots_def js_join_snoc) simp
qed

lemma dotdots_step: "dotdots n @ (if length (dotdots n) = 0 then ''..'' else ''/..'') = dotdots (Suc n)"
  by (cases n) (simp_all add: dotdots_Suc, simp add: dotdots_def)

lemma relative_ups_gen:
  assumes "k \<le> length from"
  shows "snd (up_loop (\<lambda>i out.
        if i = int (length from) \<or> char_at from i = Some CHAR_FORWARD_SLASH
        then (False, out @ (if length out = 0 then ''..'' else ''/..''))
        else (False, out)) (int k) (int (length from) + 1) (dotdots n))
    = dotdots (n + 1 + count_list (drop k from) CHAR_FORWARD_SLASH)"
  using assms
proof (induction "length from - k" arbitrary: k n)
  case 0
  then have "k = length from" by simp
  then show ?case
    by (subst up_loop.simps) (simp add: dotdots_step del: length_0_conv)
next
  case (Suc m)
  then have k: "k < length from" by simp
  let ?n = "if from ! k = CHAR_FORWARD_SLASH then Suc n else n"
  have "m = length from - Suc k" "Suc k \<le> length from" using Suc.hyps(2) by auto
  from Suc.hyps(1) [OF this, of ?n] k show ?case
    by (subst up_loop.simps)
       (auto simp: Cons_nth_drop_Suc [symmetric] dotdots_step add.commute simp del: length_0_conv)
qed

lemma relative_ups_eq:
  "k \<le> length from \<Longrightarrow>
   relative_ups from (int k) = dotdots (Suc (count_list (drop k from) CHAR_FORWARD_SLASH))"
  using relative_ups_gen [of k "from" 0] by (simp add: relative_ups_def dotdots_def)

lemma count_slash_join:
  "list_all is_name ss \<Longrightarrow> count_list (js_join ''/'' ss) CHAR_FORWARD_SLASH = length ss - 1"
proof (induction "''/''" ss rule: js_join.induct)
  case (2 x)
  then show ?case by (simp add: is_name_def count_list_0_iff)
next
  case (3 x y ys)
  then show ?case by (simp add: is_name_def count_list_append count_list_0_iff)
qed simp

lemma abs_path_inject:
  assumes "list_all is_name ss" "list_all is_name ts" "abs_path ss = abs_path ts"
  shows "ss = ts"
  using segs_of_abs_path(1) [OF assms(1), of False] segs_of_abs_path(1) [OF assms(2), of False]
    assms(3) by simp

text \<open>The body of \<open>relative\<close> after both arguments are resolved to \<open>/F\<close> and \<open>/T\<close>,
  with the result of the scan.\<close>

lemma posix_relative_scan:
  assumes "posix_resolve cwd [from] = CHAR_FORWARD_SLASH # F"
    "posix_resolve cwd [to] = CHAR_FORWARD_SLASH # T" "F \<noteq> T" "from \<noteq> to"
    and "rscan F T 0 (-1) = (int i, l)"
  shows "posix_relative cwd from to =
    (let m = min (length F) (length T);
         l' = (if i = m \<and> length T \<le> m \<and> length F > m then
                 (if F ! i = CHAR_FORWARD_SLASH then int i else if i = 0 then 0 else l)
               else l) in
     if i = m \<and> length T > m \<and> T ! i = CHAR_FORWARD_SLASH then drop (Suc i) T
     else if i = m \<and> length T > m \<and> i = 0 then T
     else relative_ups (CHAR_FORWARD_SLASH # F) (2 + l')
          @ js_slice_from (CHAR_FORWARD_SLASH # T) (1 + l'))"
proof (cases "length F < length T")
  case True
  then have "relative_scan (CHAR_FORWARD_SLASH # F) (CHAR_FORWARD_SLASH # T) (int (length F)) = (int i, l)"
    using assms relative_scan_rscan [of CHAR_FORWARD_SLASH F CHAR_FORWARD_SLASH T] by simp
  with True assms show ?thesis
    by (auto simp: posix_relative_def Let_def split: list.splits)
next
  case False
  then have "relative_scan (CHAR_FORWARD_SLASH # F) (CHAR_FORWARD_SLASH # T) (int (length T)) = (int i, l)"
    using assms relative_scan_rscan [of CHAR_FORWARD_SLASH F CHAR_FORWARD_SLASH T]
    by (simp add: min_absorb2)
  with False assms show ?thesis
    by (auto simp: posix_relative_def Let_def split: list.splits)
qed

lemma first_seg:
  "list_all is_name ss \<Longrightarrow> ss \<noteq> [] \<Longrightarrow> takeWhile (\<lambda>c. c \<noteq> CHAR_FORWARD_SLASH) (js_join ''/'' ss) = hd ss"
proof (induction "''/''" ss rule: js_join.induct)
  case (2 x)
  then show ?case by (auto simp: is_name_def takeWhile_eq_all_conv)
next
  case (3 x y ys)
  then have "\<forall>c \<in> set x. c \<noteq> CHAR_FORWARD_SLASH" by (auto simp: is_name_def)
  then show ?case by (simp add: takeWhile_append2)
qed simp

text \<open>Two joined paths whose first segments differ share no separator, and neither is the
  other followed by one.\<close>

lemma diverge_no_slash:
  assumes "list_all is_name fr" "list_all is_name tr" "fr \<noteq> []" "tr \<noteq> []" "hd fr \<noteq> hd tr"
    and "js_join ''/'' fr = c @ F" "js_join ''/'' tr = c @ T"
  shows "CHAR_FORWARD_SLASH \<notin> set c" "F = [] \<Longrightarrow> T \<noteq> [] \<Longrightarrow> hd T \<noteq> CHAR_FORWARD_SLASH"
    "T = [] \<Longrightarrow> F \<noteq> [] \<Longrightarrow> hd F \<noteq> CHAR_FORWARD_SLASH"
proof -
  let ?tw = "takeWhile (\<lambda>c. c \<noteq> CHAR_FORWARD_SLASH)"
  have d: "?tw (c @ F) \<noteq> ?tw (c @ T)"
    using assms first_seg [of fr] first_seg [of tr] by simp
  then show c: "CHAR_FORWARD_SLASH \<notin> set c" by (auto simp: takeWhile_append1)
  have tw: "?tw (c @ X) = c @ ?tw X" for X
    using c by (intro takeWhile_append2) auto
  have sl: "?tw X = []" if "X \<noteq> []" "hd X = CHAR_FORWARD_SLASH" for X
    using that by (cases X) simp_all
  show "F = [] \<Longrightarrow> T \<noteq> [] \<Longrightarrow> hd T \<noteq> CHAR_FORWARD_SLASH"
    using d sl [of T] by (metis tw takeWhile.simps(1))
  show "T = [] \<Longrightarrow> F \<noteq> [] \<Longrightarrow> hd F \<noteq> CHAR_FORWARD_SLASH"
    using d sl [of F] by (metis tw takeWhile.simps(1))
qed

definition seg_prefix :: "string list \<Rightarrow> string" where
  "seg_prefix cs = (if cs = [] then [] else js_join ''/'' cs @ ''/'')"

lemma join_seg_prefix: "xs \<noteq> [] \<Longrightarrow> js_join ''/'' (cs @ xs) = seg_prefix cs @ js_join ''/'' xs"
  by (simp add: seg_prefix_def js_join_append)

lemma last_slash_seg_prefix:
  "last_index_of_from 0 (-1) CHAR_FORWARD_SLASH (seg_prefix cs) = int (length (seg_prefix cs)) - 1"
  by (simp add: seg_prefix_def last_index_of_from_append)

text \<open>Case 1: \<open>to\<close> lies below \<open>from\<close>.\<close>

lemma relative_below:
  assumes cs: "list_all is_name cs" and tr: "list_all is_name tr" "tr \<noteq> []"
  shows "posix_relative cwd (abs_path cs) (abs_path (cs @ tr)) = js_join ''/'' tr"
proof -
  have n: "list_all is_name (cs @ tr)" using cs tr by simp
  have ne: "js_join ''/'' cs \<noteq> js_join ''/'' (cs @ tr)"
    using abs_path_inject [OF cs n] tr by auto
  have T: "js_join ''/'' (cs @ tr) = seg_prefix cs @ js_join ''/'' tr"
    using tr by (simp add: join_seg_prefix)
  have t: "js_join ''/'' tr \<noteq> []" "js_join ''/'' tr ! 0 \<noteq> CHAR_FORWARD_SLASH"
    using join_clean_ends [of False tr] names_clean tr by (auto simp: hd_conv_nth)
  show ?thesis
  proof (cases "cs = []")
    case True
    have "rscan (js_join ''/'' cs) (js_join ''/'' (cs @ tr)) 0 (-1) = (int 0, -1)"
      using True by (simp add: rscan_diverge)
    from posix_relative_scan [OF posix_resolve_abs_path [OF cs] posix_resolve_abs_path [OF n] ne _ this]
    show ?thesis using True t ne by simp
  next
    case False
    have "rscan (js_join ''/'' cs @ []) (js_join ''/'' cs @ ''/'' @ js_join ''/'' tr) 0 (-1)
        = (int (length (js_join ''/'' cs)), last_index_of_from 0 (-1) CHAR_FORWARD_SLASH (js_join ''/'' cs))"
      by (subst rscan_common) (simp add: rscan_diverge)
    with False T have "rscan (js_join ''/'' cs) (js_join ''/'' (cs @ tr)) 0 (-1)
        = (int (length (js_join ''/'' cs)), last_index_of_from 0 (-1) CHAR_FORWARD_SLASH (js_join ''/'' cs))"
      by (simp add: seg_prefix_def)
    from posix_relative_scan [OF posix_resolve_abs_path [OF cs] posix_resolve_abs_path [OF n] ne _ this]
    show ?thesis using False T ne by (simp add: seg_prefix_def nth_append)
  qed
qed

text \<open>Case 2: \<open>to\<close> is an ancestor of \<open>from\<close>.\<close>

lemma relative_above:
  assumes cs: "list_all is_name cs" and fr: "list_all is_name fr" "fr \<noteq> []"
  shows "posix_relative cwd (abs_path (cs @ fr)) (abs_path cs) = dotdots (length fr)"
proof -
  have n: "list_all is_name (cs @ fr)" using cs fr by simp
  have ne: "js_join ''/'' (cs @ fr) \<noteq> js_join ''/'' cs"
    using abs_path_inject [OF n cs] fr by auto
  have F: "js_join ''/'' (cs @ fr) = seg_prefix cs @ js_join ''/'' fr"
    using fr by (simp add: join_seg_prefix)
  have f: "js_join ''/'' fr \<noteq> []" "js_join ''/'' fr ! 0 \<noteq> CHAR_FORWARD_SLASH"
    using join_clean_ends [of False fr] names_clean fr by (auto simp: hd_conv_nth)
  have cnt: "Suc (count_list (js_join ''/'' fr) CHAR_FORWARD_SLASH) = length fr"
    using count_slash_join [OF fr(1)] fr(2) by (cases fr) auto
  show ?thesis
  proof (cases "cs = []")
    case True
    have "rscan (js_join ''/'' (cs @ fr)) (js_join ''/'' cs) 0 (-1) = (int 0, -1)"
      using True by (simp add: rscan_diverge)
    from posix_relative_scan [OF posix_resolve_abs_path [OF n] posix_resolve_abs_path [OF cs] ne _ this]
    have "posix_relative cwd (abs_path (cs @ fr)) (abs_path cs) =
        relative_ups (abs_path fr) (int 2)"
      using True f ne by (simp add: js_slice_from_def slice_index_def)
    also have "\<dots> = dotdots (Suc (count_list (tl (js_join ''/'' fr)) CHAR_FORWARD_SLASH))"
      using f relative_ups_eq [of 2 "abs_path fr"]
      by (cases "js_join ''/'' fr") (auto simp: numeral_2_eq_2)
    also have "\<dots> = dotdots (length fr)"
      using cnt f by (cases "js_join ''/'' fr") auto
    finally show ?thesis .
  next
    case False
    let ?C = "js_join ''/'' cs"
    have "rscan (?C @ ''/'' @ js_join ''/'' fr) (?C @ []) 0 (-1)
        = (int (length ?C), last_index_of_from 0 (-1) CHAR_FORWARD_SLASH ?C)"
      by (subst rscan_common) (simp add: rscan_diverge)
    with False F have "rscan (js_join ''/'' (cs @ fr)) ?C 0 (-1)
        = (int (length ?C), last_index_of_from 0 (-1) CHAR_FORWARD_SLASH ?C)"
      by (simp add: seg_prefix_def)
    from posix_relative_scan [OF posix_resolve_abs_path [OF n] posix_resolve_abs_path [OF cs] ne _ this]
    have "posix_relative cwd (abs_path (cs @ fr)) (abs_path cs) =
        relative_ups (CHAR_FORWARD_SLASH # ?C @ ''/'' @ js_join ''/'' fr) (2 + int (length ?C))"
      using False F ne by (simp add: seg_prefix_def nth_append js_slice_from_def slice_index_def nat_add_distrib)
    also have "2 + int (length ?C) = int (length ?C + 2)" by simp
    also have "relative_ups (CHAR_FORWARD_SLASH # ?C @ ''/'' @ js_join ''/'' fr) (int (length ?C + 2))
        = dotdots (Suc (count_list (js_join ''/'' fr) CHAR_FORWARD_SLASH))"
      by (subst relative_ups_eq) simp_all
    finally show ?thesis using cnt by simp
  qed
qed

text \<open>Case 3: the paths diverge below their common ancestor \<open>cs\<close>.\<close>

lemma rscan_diverge_segs:
  fixes cs :: "string list"
  assumes "list_all is_name fr" "list_all is_name tr" "fr \<noteq> []" "tr \<noteq> []" "hd fr \<noteq> hd tr"
  defines "F \<equiv> js_join ''/'' (cs @ fr)" and "T \<equiv> js_join ''/'' (cs @ tr)"
  obtains i where "rscan F T 0 (-1) = (int i, int (length (seg_prefix cs)) - 1)"
    "i \<le> length F" "i \<le> length T"
    "i = length F \<Longrightarrow> i < length T \<and> i > 0 \<and> T ! i \<noteq> CHAR_FORWARD_SLASH"
    "i = length T \<Longrightarrow> i < length F \<and> i > 0 \<and> F ! i \<noteq> CHAR_FORWARD_SLASH"
proof -
  let ?P = "seg_prefix cs" and ?Ff = "js_join ''/'' fr" and ?Tt = "js_join ''/'' tr"
  have FT: "F = ?P @ ?Ff" "T = ?P @ ?Tt" using assms by (simp_all add: join_seg_prefix)
  obtain c F' T' where c: "?Ff = c @ F'" "?Tt = c @ T'" "F' = [] \<or> T' = [] \<or> hd F' \<noteq> hd T'"
    using common_prefix_exists [of ?Ff ?Tt] by blast
  note ns = diverge_no_slash [OF assms(1-5) c(1,2)]
  have "rscan F T 0 (-1) = (int (length (?P @ c)), int (length ?P) - 1)"
    unfolding FT c rscan_common last_slash_seg_prefix rscan_diverge [OF c(3)]
    by (simp add: last_index_of_from_absent [OF ns(1)])
  moreover have "?Ff \<noteq> []" "?Tt \<noteq> []" "?Ff \<noteq> ?Tt"
    using join_clean_ends(1) names_clean assms(1-4) first_seg assms(5) by metis+
  ultimately show ?thesis
    using that [of "length (?P @ c)"] ns(2,3) unfolding FT c
    by (auto simp: hd_conv_nth nth_append)
qed

lemma relative_diverge:
  assumes cs: "list_all is_name cs" and fr: "list_all is_name fr" "fr \<noteq> []"
    and tr: "list_all is_name tr" "tr \<noteq> []" and d: "hd fr \<noteq> hd tr"
  shows "posix_relative cwd (abs_path (cs @ fr)) (abs_path (cs @ tr)) =
    dotdots (length fr) @ ''/'' @ js_join ''/'' tr"
proof -
  let ?F = "js_join ''/'' (cs @ fr)" and ?T = "js_join ''/'' (cs @ tr)" and ?P = "seg_prefix cs"
  have n: "list_all is_name (cs @ fr)" "list_all is_name (cs @ tr)" using cs fr tr by simp_all
  have ne: "?F \<noteq> ?T" using abs_path_inject [OF n] d by auto
  obtain i where i: "rscan ?F ?T 0 (-1) = (int i, int (length ?P) - 1)"
    "i \<le> length ?F" "i \<le> length ?T"
    "i = length ?F \<Longrightarrow> i < length ?T \<and> i > 0 \<and> ?T ! i \<noteq> CHAR_FORWARD_SLASH"
    "i = length ?T \<Longrightarrow> i < length ?F \<and> i > 0 \<and> ?F ! i \<noteq> CHAR_FORWARD_SLASH"
    using rscan_diverge_segs [OF fr(1) tr(1) fr(2) tr(2) d] by blast
  have "posix_relative cwd (abs_path (cs @ fr)) (abs_path (cs @ tr)) =
      relative_ups (abs_path (cs @ fr)) (int (Suc (length ?P))) @ js_slice_from (abs_path (cs @ tr)) (int (length ?P))"
    using posix_relative_scan [OF posix_resolve_abs_path [OF n(1)] posix_resolve_abs_path [OF n(2)] ne _ i(1)] ne i(2-5)
    by (auto simp: Let_def min_def split: if_splits)
  also have "relative_ups (abs_path (cs @ fr)) (int (Suc (length ?P))) =
      dotdots (Suc (count_list (js_join ''/'' fr) CHAR_FORWARD_SLASH))"
    using fr by (subst relative_ups_eq) (simp_all add: join_seg_prefix)
  also have "Suc (count_list (js_join ''/'' fr) CHAR_FORWARD_SLASH) = length fr"
    using count_slash_join [OF fr(1)] fr(2) by (cases fr) auto
  also have "js_slice_from (abs_path (cs @ tr)) (int (length ?P)) = ''/'' @ js_join ''/'' tr"
    using tr by (simp only: js_slice_from_nat join_seg_prefix) (simp add: seg_prefix_def drop_Cons' js_join_append)
  finally show ?thesis .
qed

text \<open>All cases together.  \<open>relative_segs\<close> is the reference: climb out of what only
  \<open>from\<close> has, then descend into what only \<open>to\<close> has.\<close>

fun relative_segs :: "string list \<Rightarrow> string list \<Rightarrow> string list" where
  "relative_segs (f # fs) (t # ts) =
     (if f = t then relative_segs fs ts else replicate (length (f # fs)) ''..'' @ t # ts)"
| "relative_segs fs ts = replicate (length fs) ''..'' @ ts"

lemma relative_segs_split:
  "\<exists>cs fr tr. fs = cs @ fr \<and> ts = cs @ tr \<and> (fr = [] \<or> tr = [] \<or> hd fr \<noteq> hd tr)
     \<and> relative_segs fs ts = replicate (length fr) ''..'' @ tr"
proof (induction fs ts rule: relative_segs.induct)
  case (1 f fs t ts)
  show ?case
  proof (cases "f = t")
    case True
    with 1 show ?thesis by (metis append_Cons relative_segs.simps(1))
  next
    case False
    then show ?thesis
      by (intro exI [of _ "[]"] exI [of _ "f # fs"] exI [of _ "t # ts"]) simp
  qed
qed auto

theorem posix_relative_segs:
  assumes "list_all is_name fs" "list_all is_name ts"
  shows "posix_relative cwd (abs_path fs) (abs_path ts) = js_join ''/'' (relative_segs fs ts)"
proof -
  obtain cs fr tr where s: "fs = cs @ fr" "ts = cs @ tr" "fr = [] \<or> tr = [] \<or> hd fr \<noteq> hd tr"
    "relative_segs fs ts = replicate (length fr) ''..'' @ tr"
    using relative_segs_split by blast
  have names: "list_all is_name cs" "list_all is_name fr" "list_all is_name tr"
    using assms s by auto
  consider "fr = []" "tr = []" | "fr = []" "tr \<noteq> []" | "fr \<noteq> []" "tr = []" | "fr \<noteq> []" "tr \<noteq> []" "hd fr \<noteq> hd tr"
    using s by blast
  then show ?thesis
  proof cases
    case 1
    then show ?thesis using s by (simp add: posix_relative_def)
  next
    case 2
    then show ?thesis using s relative_below names by simp
  next
    case 3
    then show ?thesis using s relative_above names by (simp add: dotdots_def)
  next
    case 4
    then show ?thesis
      using s relative_diverge names by (simp add: dotdots_def js_join_append)
  qed
qed

lemma relative_segs_append: "relative_segs rs (rs @ is) = is"
  by (induction rs) (cases "is"; simp)+

text \<open>\<open>join\<close> inverts \<open>relative\<close>: climbing pops exactly the segments \<open>relative\<close> left.\<close>

lemma foldl_push_pops:
  "list_all is_name fr \<Longrightarrow> foldl (norm_push allow) (rev fr @ stk) (replicate (length fr) ''..'') = stk"
proof (induction fr rule: rev_induct)
  case (snoc f fr)
  then have "norm_push allow (rev (fr @ [f]) @ stk) ''..'' = rev fr @ stk"
    by (auto simp: norm_push_def is_name_def)
  with snoc show ?case by simp
qed simp

lemma posix_join_relative_segs:
  assumes "list_all is_name fs" "list_all is_name ts"
  shows "posix_join [abs_path fs, js_join ''/'' (relative_segs fs ts)] = abs_path ts"
proof -
  obtain cs fr tr where s: "fs = cs @ fr" "ts = cs @ tr"
    "relative_segs fs ts = replicate (length fr) ''..'' @ tr"
    using relative_segs_split by blast
  let ?r = "relative_segs fs ts"
  have names: "list_all is_name fr" "list_all is_name tr" "list_all is_name cs" using assms s by auto
  show ?thesis
  proof (cases "?r = []")
    case True
    with s have "ts = fs" by simp
    moreover have "posix_normalize (abs_path fs) = abs_path fs"
      using posix_normalize_of_render [of True fs False] assms(1)
      by (simp add: render_def clean_segs_False split: if_splits)
    ultimately show ?thesis using True by (simp add: posix_join_def)
  next
    case False
    have c: "clean_segs True ?r" unfolding clean_segs_iff s(3) using names by blast
    note e = join_clean_ends [OF c False]
    let ?p = "abs_path fs @ CHAR_FORWARD_SLASH # js_join ''/'' ?r"
    have "segs_of ?p = segs_of (abs_path fs) @ ?r"
      using segs_of_slash [of "abs_path fs"] segs_of_join [OF False] clean_no_slash [OF c] by simp
    moreover have "foldl (norm_push False) [] (segs_of (abs_path fs)) = rev fr @ rev cs"
      using segs_of_abs_path(1) [OF assms(1), of False] s(1)
      by (simp add: normalize_segs_def rev_swap)
    moreover have "foldl (norm_push False) (rev fr @ rev cs) ?r = rev ts"
      unfolding s(3) using names s(2) by (simp add: foldl_push_pops foldl_push_names)
    ultimately have "normalize_segs False (segs_of ?p) = ts"
      by (simp only: normalize_segs_def foldl_append) simp
    moreover have "posix_join [abs_path fs, js_join ''/'' ?r] = posix_normalize ?p"
      using e(1) by (simp add: posix_join_def)
    ultimately show ?thesis
      using posix_normalize_render [of ?p] e by (auto simp: render_def)
  qed
qed

section \<open>dirname and basename\<close>

text \<open>The code units of \<open>d/b///\<close>, by index.\<close>

lemma char_at_parts:
  defines "p \<equiv> \<lambda>d b k. d @ CHAR_FORWARD_SLASH # b @ replicate k CHAR_FORWARD_SLASH"
  shows "char_at (p d b k) (int (length d)) = Some CHAR_FORWARD_SLASH"
    "int (length d) < j \<Longrightarrow> j \<le> int (length d + length b) \<Longrightarrow> CHAR_FORWARD_SLASH \<notin> set b \<Longrightarrow>
       char_at (p d b k) j \<noteq> Some CHAR_FORWARD_SLASH"
    "int (length d + length b) < j \<Longrightarrow> j < int (length (p d b k)) \<Longrightarrow>
       char_at (p d b k) j = Some CHAR_FORWARD_SLASH"
proof -
  show "char_at (p d b k) (int (length d)) = Some CHAR_FORWARD_SLASH" by (simp add: p_def)
  show "char_at (p d b k) j \<noteq> Some CHAR_FORWARD_SLASH"
    if j: "int (length d) < j" "j \<le> int (length d + length b)" and b: "CHAR_FORWARD_SLASH \<notin> set b"
  proof -
    obtain m where m: "j = int (Suc (length d + m))" "m < length b"
      using j by (intro that [of "nat j - length d - 1"]) auto
    then have "char_at (p d b k) j = Some (b ! m)"
      by (simp only: char_at_nat) (simp add: p_def nth_append)
    with m b show ?thesis by (auto simp: in_set_conv_nth)
  qed
  show "char_at (p d b k) j = Some CHAR_FORWARD_SLASH"
    if j: "int (length d + length b) < j" "j < int (length (p d b k))"
  proof -
    obtain m where m: "j = int (Suc (length d + length b + m))" "m < k"
      using j by (intro that [of "nat j - length d - length b - 1"]) (auto simp: p_def)
    then show ?thesis
      by (simp only: char_at_nat) (simp add: p_def nth_append)
  qed
qed

lemma posix_dirname_parts:
  assumes "b \<noteq> []" "CHAR_FORWARD_SLASH \<notin> set b" "d \<noteq> []"
  shows "posix_dirname (d @ CHAR_FORWARD_SLASH # b @ replicate k CHAR_FORWARD_SLASH) =
    (if d = ''/'' then ''//'' else d)"
proof -
  let ?p = "d @ CHAR_FORWARD_SLASH # b @ replicate k CHAR_FORWARD_SLASH"
  note at = char_at_parts [where d = d and b = b and k = k]
  let ?e = "int (length d + length b)"
  have "down_loop (dirname_body ?p) 1 (int (length ?p) - 1) (-1, True) =
      down_loop (dirname_body ?p) 1 ?e (-1, True)"
    by (rule down_loop_skip) (auto simp: dirname_body_def at(3))
  also have "\<dots> = down_loop (dirname_body ?p) 1 (?e - 1) (-1, False)"
    using assms at(2) [of ?e] length_greater_0_conv [of d]
    by (intro down_loop_step) (auto simp: dirname_body_def simp del: length_greater_0_conv)
  also have "\<dots> = down_loop (dirname_body ?p) 1 (int (length d)) (-1, False)"
    using assms at(2) by (intro down_loop_skip) (auto simp: dirname_body_def Suc_le_eq)
  also have "\<dots> = (int (length d), False)"
    using assms at(1) by (intro down_loop_break) (auto simp: dirname_body_def Suc_le_eq)
  finally have loop: "down_loop (dirname_body ?p) 1 (int (length ?p) - 1) (-1, True) = (int (length d), False)" .
  have "char_at ?p 0 = Some (hd d)" using assms(3) by (cases d) simp_all
  moreover have "length d = 1 \<and> hd d = CHAR_FORWARD_SLASH \<longleftrightarrow> d = ''/''"
    using assms(3) by (cases d) auto
  ultimately show ?thesis
    using loop by (auto simp: posix_dirname_def Let_def)
qed

lemma posix_dirname_abs_path:
  assumes "list_all is_name ss" "is_name s"
  shows "posix_dirname (abs_path (ss @ [s])) = abs_path ss"
proof (cases "ss = []")
  case True
  have s: "s \<noteq> []" "CHAR_FORWARD_SLASH \<notin> set s" using assms by (auto simp: is_name_def)
  have "char_at (CHAR_FORWARD_SLASH # s) j \<noteq> Some CHAR_FORWARD_SLASH" if "j > 0" for j
    using that char_at_parts(2) [of "[]" j s 0] s(2)
    by (cases "j \<le> int (length s)") (auto simp: char_at_def)
  then have "snd (dirname_body (CHAR_FORWARD_SLASH # s) j (-1, b)) = (-1, False)"
    "\<not> fst (dirname_body (CHAR_FORWARD_SLASH # s) j (-1, b))" if "j > 0" for j b
    using that by (auto simp: dirname_body_def)
  then have step: "dirname_body (CHAR_FORWARD_SLASH # s) j (-1, b) = (False, (-1, False))" if "j > 0" for j b
    using that by (metis prod.collapse)
  have "down_loop (dirname_body (CHAR_FORWARD_SLASH # s)) 1 (int (length s)) (-1, True) =
      down_loop (dirname_body (CHAR_FORWARD_SLASH # s)) 1 (int (length s) - 1) (-1, False)"
    using s(1) step by (intro down_loop_step) (auto simp: Suc_le_eq)
  also have "\<dots> = down_loop (dirname_body (CHAR_FORWARD_SLASH # s)) 1 0 (-1, False)"
    using s(1) step by (intro down_loop_skip) (auto simp: Suc_le_eq)
  finally show ?thesis using True by (simp add: posix_dirname_def)
next
  case False
  have "abs_path ss \<noteq> ''/''"
    using join_clean_ends(1) [of False ss] names_clean [OF assms(1)] False by auto
  with False show ?thesis
    using posix_dirname_parts [of s "abs_path ss" 0] assms(2)
    by (simp add: is_name_def js_join_snoc)
qed

section \<open>parse and format\<close>

text \<open>What the scan of \<open>extname\<close> and \<open>parse\<close> knows while it is inside the last
  component: nothing found yet, or an end and possibly a dot to the right of the index.\<close>

definition in_component :: "int \<Rightarrow> int \<Rightarrow> int \<Rightarrow> ext_scan \<Rightarrow> bool" where
  "in_component e lo i s \<longleftrightarrow> startPart s = 0 \<and> scanEnd s = e \<and> \<not> matchedSlash s
     \<and> (startDot s = -1 \<or> i < startDot s \<and> lo \<le> startDot s \<and> startDot s < e)"

lemma ext_scan_component_step:
  assumes "in_component e lo j s" "char_at path j \<noteq> Some CHAR_FORWARD_SLASH" "lo \<le> j" "j < e" "e \<noteq> -1"
    "0 \<le> lo"
  shows "\<exists>s'. ext_scan_body path j s = (False, s') \<and> in_component e lo (j - 1) s'"
  using assms by (auto simp: ext_scan_body_def in_component_def Let_def)

lemma ext_scan_first:
  assumes "char_at path j \<noteq> Some CHAR_FORWARD_SLASH" "lo \<le> j" "0 \<le> lo"
  shows "\<exists>s'. ext_scan_body path j
      \<lparr>startDot = -1, startPart = 0, scanEnd = -1, matchedSlash = True, preDotState = 0\<rparr> = (False, s')
    \<and> in_component (j + 1) lo (j - 1) s'"
  using assms by (auto simp: ext_scan_body_def in_component_def Let_def)

text \<open>A path that does not end in a separator, scanned down to a separator or to the
  lower bound.\<close>

lemma ext_scan_component:
  assumes "p = d @ b" "b \<noteq> []" "CHAR_FORWARD_SLASH \<notin> set b" "lo \<le> int (length d)" "0 \<le> lo"
  shows "\<exists>s. ext_scan_run p lo = down_loop (ext_scan_body p) lo (int (length d) - 1) s
    \<and> in_component (int (length p)) (int (length d)) (int (length d) - 1) s"
proof -
  have at: "char_at p j \<noteq> Some CHAR_FORWARD_SLASH" if "int (length d) \<le> j" for j
  proof -
    have "char_at p j = Some c \<Longrightarrow> c \<in> set b" for c
      using that assms(1) nth_mem [of "nat j - length d" b]
      by (auto simp: char_at_def nth_append nat_less_iff split: if_splits)
    then show ?thesis using assms(3) by auto
  qed
  have len: "int (length d) \<le> int (length p) - 1" using assms(1,2) by (cases b) simp_all
  obtain s1 where s1: "ext_scan_body p (int (length p) - 1)
      \<lparr>startDot = -1, startPart = 0, scanEnd = -1, matchedSlash = True, preDotState = 0\<rparr> = (False, s1)"
    "in_component (int (length p)) (int (length d)) (int (length p) - 2) s1"
    using ext_scan_first [OF at [OF len] len] by auto
  have "ext_scan_run p lo = down_loop (ext_scan_body p) lo (int (length p) - 2) s1"
    unfolding ext_scan_run_def using s1(1) len assms(4) by (subst down_loop_step) auto
  moreover have "\<exists>s'. down_loop (ext_scan_body p) lo (int (length p) - 2) s1 =
      down_loop (ext_scan_body p) lo (int (length d) - 1) s'
    \<and> in_component (int (length p)) (int (length d)) (int (length d) - 1) s'"
    using s1(2) at len assms(4)
    by (intro down_loop_until [where P = "in_component (int (length p)) (int (length d))"]
        ext_scan_component_step) auto
  ultimately show ?thesis by simp
qed

lemma js_slice_split:
  assumes "0 \<le> a" "a \<le> b" "b \<le> c" "c \<le> int (length s)"
  shows "js_slice s a c = js_slice s a b @ js_slice s b c"
proof -
  obtain i j k where n: "a = int i" "b = int j" "c = int k"
    using assms by (metis nonneg_int_cases order_trans)
  have "take (k - i) (drop i s) = take (j - i) (drop i s) @ take (k - j) (drop j s)"
    using take_add [of "j - i" "k - j" "drop i s"] assms n by simp
  then show ?thesis by (simp add: n)
qed

text \<open>The cases of a path without trailing separator: a name alone, a name at the root, and
  a name below a directory.\<close>

lemma path_component_cases [consumes 2, case_names bare root nested]:
  assumes "p \<noteq> []" "last p \<noteq> CHAR_FORWARD_SLASH"
  obtains (bare) "CHAR_FORWARD_SLASH \<notin> set p"
  | (root) b where "p = CHAR_FORWARD_SLASH # b" "b \<noteq> []" "CHAR_FORWARD_SLASH \<notin> set b"
  | (nested) d b where "p = d @ CHAR_FORWARD_SLASH # b" "d \<noteq> []" "b \<noteq> []" "CHAR_FORWARD_SLASH \<notin> set b"
proof (cases "CHAR_FORWARD_SLASH \<in> set p")
  case True
  then obtain d b where db: "p = d @ CHAR_FORWARD_SLASH # b" "CHAR_FORWARD_SLASH \<notin> set b"
    by (metis split_list_last)
  have "b \<noteq> []" using db assms by auto
  with db root nested show ?thesis by (cases "d = []") auto
qed (use bare in blast)

lemma parse_ret_component:
  assumes p: "p = d @ b" "scanEnd s = int (length p)"
    and dot: "startDot s = -1 \<or> int (length d) \<le> startDot s \<and> startDot s < int (length p)"
    and part: "startPart s = int (length d) \<and> (a \<longrightarrow> d \<noteq> []) \<or> startPart s = 0 \<and> a \<and> length d = 1"
  shows "po_base (parse_ret p a s) = Some b"
    "\<exists>n x. po_name (parse_ret p a s) = Some n \<and> po_ext (parse_ret p a s) = Some x \<and> b = n @ x"
    "po_root (parse_ret p a s) = Some (if a then ''/'' else [])"
    "po_dir (parse_ret p a s) =
       Some (if startPart s > 0 then take (length d - 1) d else if a then ''/'' else [])"
proof -
  have start: "(if startPart s = 0 \<and> a then 1 else startPart s) = int (length d)"
    using part by auto
  have base: "js_slice p (int (length d)) (int (length p)) = b"
    unfolding js_slice_nat unfolding p(1) by simp
  have split: "js_slice p (int (length d)) (startDot s) @ js_slice p (startDot s) (int (length p)) = b"
    if "startDot s \<noteq> -1"
    using that dot base js_slice_split [of "int (length d)" "startDot s" "int (length p)" p] by auto
  have "take (length p - length d) (drop (length d) p) = b" by (simp add: p(1))
  note simps = parse_ret_def Let_def p(2) start this
  show "po_base (parse_ret p a s) = Some b" "po_root (parse_ret p a s) = Some (if a then ''/'' else [])"
    by (simp_all add: simps)
  show "\<exists>n x. po_name (parse_ret p a s) = Some n \<and> po_ext (parse_ret p a s) = Some x \<and> b = n @ x"
    using split by (auto simp: simps no_ext_def)
  have "js_slice p 0 (startPart s - 1) = take (length d - 1) d" if "startPart s > 0"
  proof -
    have "startPart s - 1 = int (length d - 1)" using that part by linarith
    then show ?thesis unfolding p(1) by (simp only: js_slice_zero) simp
  qed
  then show "po_dir (parse_ret p a s) =
       Some (if startPart s > 0 then take (length d - 1) d else if a then ''/'' else [])"
    by (simp add: simps)
qed

lemma ext_scan_slash:
  assumes "in_component e lo i s" "char_at p i = Some CHAR_FORWARD_SLASH" "l \<le> i"
  shows "down_loop (ext_scan_body p) l i s = s\<lparr>startPart := i + 1\<rparr>"
  using assms by (intro down_loop_break) (auto simp: in_component_def ext_scan_body_def)

lemma posix_parse_bare:
  assumes "p \<noteq> []" "CHAR_FORWARD_SLASH \<notin> set p"
  shows "\<exists>s. posix_parse p = parse_ret p False s \<and> scanEnd s = int (length p) \<and> startPart s = 0
    \<and> (startDot s = -1 \<or> 0 \<le> startDot s \<and> startDot s < int (length p))"
proof -
  obtain s where s: "ext_scan_run p 0 = down_loop (ext_scan_body p) 0 (int (length []) - 1) s"
    "in_component (int (length p)) (int (length [])) (int (length []) - 1) s"
    using ext_scan_component [of p "[]" p 0] assms by auto
  have "char_at p 0 \<noteq> Some CHAR_FORWARD_SLASH" using assms by (cases p) auto
  then show ?thesis
    using assms(1) s by (intro exI [of _ s]) (auto simp: posix_parse_def Let_def in_component_def)
qed

lemma posix_parse_below:
  assumes "p = d @ CHAR_FORWARD_SLASH # b" "b \<noteq> []" "CHAR_FORWARD_SLASH \<notin> set b"
  defines "a \<equiv> hd p = CHAR_FORWARD_SLASH"
  shows "\<exists>s. posix_parse p = parse_ret p a s \<and> scanEnd s = int (length p)
    \<and> startPart s = (if d = [] then 0 else int (length d) + 1)
    \<and> (startDot s = -1 \<or> int (length d) + 1 \<le> startDot s \<and> startDot s < int (length p))"
proof -
  let ?lo = "if a then 1 else 0 :: int"
  have c0: "char_at p 0 = Some (hd p)" using assms(1) by (cases d) auto
  have root: "d = [] \<Longrightarrow> a" using assms(1) by (simp add: a_def)
  obtain s where s: "ext_scan_run p ?lo = down_loop (ext_scan_body p) ?lo (int (length d)) s"
    "in_component (int (length p)) (int (length d) + 1) (int (length d)) s"
    using ext_scan_component [of p "d @ [CHAR_FORWARD_SLASH]" b ?lo] assms(1-3)
    by (cases a) (auto simp: add.commute)
  have run: "posix_parse p = parse_ret p a (down_loop (ext_scan_body p) ?lo (int (length d)) s)"
    using assms(1) c0 s(1) by (simp add: posix_parse_def Let_def a_def)
  show ?thesis
  proof (cases "d = []")
    case True
    then have "posix_parse p = parse_ret p a s" using run root by simp
    with True s(2) show ?thesis by (intro exI [of _ s]) (auto simp: in_component_def)
  next
    case False
    have "char_at p (int (length d)) = Some CHAR_FORWARD_SLASH" using assms(1) by simp
    moreover have "?lo \<le> int (length d)" using False by (cases d) auto
    ultimately have "posix_parse p = parse_ret p a (s\<lparr>startPart := int (length d) + 1\<rparr>)"
      using run ext_scan_slash [OF s(2)] by simp
    with False s(2) show ?thesis
      by (intro exI [of _ "s\<lparr>startPart := int (length d) + 1\<rparr>"]) (auto simp: in_component_def)
  qed
qed

text \<open>For a path without trailing separator: base is name followed by extension, and
  \<open>format\<close> restores the path.  A path \<open>//b\<close> is the exception: its directory is \<open>/\<close>,
  which \<open>format\<close> takes for the root.\<close>

lemma parse_base_name_ext:
  assumes "p \<noteq> []" "last p \<noteq> CHAR_FORWARD_SLASH"
  shows "\<exists>b n x. po_base (posix_parse p) = Some b \<and> po_name (posix_parse p) = Some n
    \<and> po_ext (posix_parse p) = Some x \<and> b = n @ x"
  using assms
proof (cases rule: path_component_cases)
  case bare
  then show ?thesis
    using posix_parse_bare [OF assms(1)] parse_ret_component [of p "[]" p _ False]
    by (metis append_Nil list.size(3) of_nat_0)
next
  case (root b)
  then obtain s where "posix_parse p = parse_ret p True s" "scanEnd s = int (length p)" "startPart s = 0"
    "startDot s = -1 \<or> 1 \<le> startDot s \<and> startDot s < int (length p)"
    using posix_parse_below [of p "[]" b] by auto
  with root parse_ret_component [of p "''/''" b s True] show ?thesis by auto
next
  case (nested d b)
  obtain s where "posix_parse p = parse_ret p (hd p = CHAR_FORWARD_SLASH) s"
    "scanEnd s = int (length p)" "startPart s = int (length d) + 1"
    "startDot s = -1 \<or> int (length d) + 1 \<le> startDot s \<and> startDot s < int (length p)"
    using posix_parse_below [OF nested(1,3,4)] nested(2) by auto
  with nested parse_ret_component [of p "d @ ''/''" b s "hd p = CHAR_FORWARD_SLASH"]
  show ?thesis by (auto simp: add.commute)
qed

lemma format_parse:
  assumes "p \<noteq> []" "last p \<noteq> CHAR_FORWARD_SLASH"
    and "take 2 p = ''//'' \<Longrightarrow> CHAR_FORWARD_SLASH \<in> set (drop 2 p)"
  shows "format_path ''/'' (posix_parse p) = p"
  using assms(1,2)
proof (cases rule: path_component_cases)
  case bare
  then obtain s where "posix_parse p = parse_ret p False s" "scanEnd s = int (length p)" "startPart s = 0"
    "startDot s = -1 \<or> 0 \<le> startDot s \<and> startDot s < int (length p)"
    using posix_parse_bare [OF assms(1)] by auto
  with parse_ret_component [of p "[]" p s False] assms(1) show ?thesis
    by (auto simp: format_path_def truthy_def)
next
  case (root b)
  then obtain s where "posix_parse p = parse_ret p True s" "scanEnd s = int (length p)" "startPart s = 0"
    "startDot s = -1 \<or> 1 \<le> startDot s \<and> startDot s < int (length p)"
    using posix_parse_below [of p "[]" b] by auto
  with root parse_ret_component [of p "''/''" b s True] show ?thesis
    by (auto simp: format_path_def truthy_def)
next
  case (nested d b)
  obtain s where "posix_parse p = parse_ret p (hd p = CHAR_FORWARD_SLASH) s"
    "scanEnd s = int (length p)" "startPart s = int (length d) + 1"
    "startDot s = -1 \<or> int (length d) + 1 \<le> startDot s \<and> startDot s < int (length p)"
    using posix_parse_below [OF nested(1,3,4)] nested(2) by auto
  moreover have "d \<noteq> ''/''" using assms(3) nested by auto
  ultimately show ?thesis
    using nested parse_ret_component [of p "d @ ''/''" b s "hd p = CHAR_FORWARD_SLASH"]
    by (auto simp: format_path_def truthy_def add.commute)
qed

section \<open>Properties\<close>

text \<open>C7: \<open>normalizeString\<close>, the character-by-character loop behind \<open>normalize\<close>,
  \<open>resolve\<close> and \<open>join\<close> on both platforms, computes what the segment-by-segment reference
  computes: split at the separators, drop empty and \<open>.\<close> segments, let \<open>..\<close> cancel the
  segment before it (or keep it above the root when that is allowed), join with the separator.\<close>

theorem normalizeString_reference:
  assumes "isSep sep" "isSep CHAR_FORWARD_SLASH" "\<not> isSep CHAR_DOT"
  shows "normalizeString path allowAboveRoot sep isSep =
    js_join [sep] (normalize_segs allowAboveRoot (split_by isSep path))"
  using assms by (rule normalizeString_eq_segs)

theorem normalizeString_reference_witness:
  "normalizeString ''a/../..//b'' True CHAR_BACKWARD_SLASH isPathSeparator =
   js_join [CHAR_BACKWARD_SLASH] (normalize_segs True (split_by isPathSeparator ''a/../..//b''))"
  by (rule normalizeString_reference) (simp_all add: isPathSeparator_def)

text \<open>\<open>path.posix.normalize\<close> is idempotent on every string.\<close>

theorem posix_normalize_idempotent: "posix_normalize (posix_normalize p) = posix_normalize p"
  by (rule posix_normalize_idem)

text \<open>From an absolute working directory, \<open>path.posix.resolve\<close> of any arguments is an absolute
  path whose segments are all names: no \<open>.\<close>, no \<open>..\<close>, no empty segment, no
  trailing slash.\<close>

theorem posix_resolve_is_absolute:
  assumes "list_all is_name cs"
  shows "\<exists>ss. posix_resolve (abs_path cs) args = abs_path ss \<and> list_all is_name ss"
  using assms by (rule posix_resolve_absolute)

theorem posix_resolve_is_absolute_witness:
  "\<exists>ss. posix_resolve ''/home/u'' [''..//x/./y'', ''../../../..'', ''z/''] = abs_path ss \<and> list_all is_name ss"
  using posix_resolve_is_absolute [of "[''home'', ''u'']" "[''..//x/./y'', ''../../../..'', ''z/'']"]
  by (simp add: is_name_def)

text \<open>\<open>relative\<close> inverts \<open>join\<close>: joining a directory with the relative path from it to a
  target gives the target, for all normalised absolute paths.\<close>

theorem posix_join_relative:
  assumes "list_all is_name fs" "list_all is_name ts"
  shows "posix_join [abs_path fs, posix_relative cwd (abs_path fs) (abs_path ts)] = abs_path ts"
  using assms by (simp only: posix_relative_segs posix_join_relative_segs)

theorem posix_join_relative_witness:
  "posix_join [''/a/bc'', posix_relative ''/'' ''/a/bc'' ''/a/b/d''] = ''/a/b/d''"
  using posix_join_relative [of "[''a'', ''bc'']" "[''a'', ''b'', ''d'']" "''/''"] by (simp add: is_name_def)

text \<open>\<open>format\<close> inverts \<open>parse\<close> on every path that does not end in a slash, except the
  paths \<open>//x\<close> with one component after two slashes.\<close>

theorem posix_format_parse:
  assumes "p \<noteq> []" "last p \<noteq> CHAR_FORWARD_SLASH"
    and "take 2 p = ''//'' \<Longrightarrow> CHAR_FORWARD_SLASH \<in> set (drop 2 p)"
  shows "format_path ''/'' (posix_parse p) = p"
  using assms by (rule format_parse)

theorem posix_format_parse_witness: "format_path ''/'' (posix_parse ''/a//.b/c.d.'') = ''/a//.b/c.d.''"
  by (rule posix_format_parse) simp_all

text \<open>\<open>parse\<close> and \<open>extname\<close> disagree on the component \<open>..\<close> directly under the root:
  \<open>extname\<close> treats it as a name without an extension, as it does everywhere else, and
  \<open>parse\<close> reports the extension \<open>.\<close>.\<close>

theorem posix_parse_root_dotdot:
  "po_ext (posix_parse ''/..'') = Some ''.'' \<and> po_name (posix_parse ''/..'') = Some ''.''
   \<and> posix_extname ''/..'' = [] \<and> po_ext (posix_parse ''..'') = Some [] \<and> po_ext (posix_parse ''/a/..'') = Some []"
  by code_simp

end
