(* ===== verification/CjsLoader.thy ===== *)
theory CjsLoader
  imports NodePathProps
begin

text \<open>
  The parts of Node's CommonJS loader (\<open>libjs-node/internal/modules/cjs/loader.js\<close>) that the
  bundle loader builds on: the \<open>node_modules\<close> search paths of a directory, the POSIX
  variant, and the filename that \<open>createRequire\<close> gives its module.
\<close>

section \<open>Module._nodeModulePaths\<close>

text \<open>The characters of \<open>node_modules\<close>, reversed.\<close>

definition nmChars :: string where
  "nmChars = ''seludom_edon''"

definition nmLen :: int where
  "nmLen = int (length nmChars)"

text \<open>Loop state: the paths so far, the match position \<open>p\<close> (\<open>-1\<close> once a character of the
  current segment does not match), the end \<open>last\<close> of the current prefix.\<close>

definition nodeModulePaths_body ::
  "string \<Rightarrow> int \<Rightarrow> string list \<times> int \<times> int \<Rightarrow> bool \<times> string list \<times> int \<times> int" where
  "nodeModulePaths_body from i =
     (\<lambda>(paths, p, last).
        if char_at from i = Some CHAR_FORWARD_SLASH then
          (False, (if p \<noteq> nmLen then paths @ [js_slice from 0 last @ ''/node_modules''] else paths, 0, i))
        else if p \<noteq> -1 then
          (False, (paths, if char_at nmChars p = char_at from i then p + 1 else -1, last))
        else (False, (paths, p, last)))"

definition nodeModulePaths :: "string \<Rightarrow> string \<Rightarrow> string list" where
  "nodeModulePaths cwd from =
     (let from = posix_resolve cwd [from] in
      if from = ''/'' then [''/node_modules'']
      else
        fst (down_loop (nodeModulePaths_body from) 0 (int (length from) - 1)
               ([], 0, int (length from)))
        @ [''/node_modules''])"

section \<open>createRequire\<close>

text \<open>The filename of the module behind \<open>createRequire(filename)\<close>, for an absolute path.\<close>

definition createRequire_proxyPath :: "string \<Rightarrow> string" where
  "createRequire_proxyPath filename =
     (if ends_with filename ''/'' then posix_join [filename, ''noop.js''] else filename)"

end
