(* ===== verification/BootLoader.thy ===== *)
theory BootLoader
  imports JsPrelude
begin

text \<open>
  The bootstrap module loader (\<open>libjs/loader.js\<close>), the loader behind
  \<open>globalThis.require\<close>.

  The setup function's parameters are native: \<open>loadBytecodeModule\<close>, \<open>readFileSync\<close>,
  \<open>compileAndRun\<close>, and the generated table of vendored packages.  They are the fields of
  \<open>boot_env\<close>.  A compiled module is a function of JavaScript code; what such a body does
  to the loader is a tree of actions (\<open>boot_prog\<close>): calls of its \<open>require\<close>, of
  \<open>globalThis.require\<close>, of \<open>require.resolve\<close>, of
  \<open>__closeDiskModuleLoading\<close>, assignments to \<open>module.exports\<close>, a throw, or the end.
  The continuation of a call receives what the call returned or threw, so a body may catch.

  A result of \<open>None\<close> is a computation that does not return (unbounded recursion); \<open>loadModule\<close>
  has a bound on the nesting of loads as its first argument.  The table of vendored packages is a plain object in the code; the parameter stands for its own keys, so requests that are
  names of \<open>Object.prototype\<close>, such as \<open>constructor\<close>, are not covered.
\<close>

section \<open>Values, module bodies, state\<close>

text \<open>A value as the loader sees it: object identities and opaque primitive data.\<close>

datatype jsval = JUndefined | JObject nat | JData string

datatype boot_prog =
    Done
  | Throw js_error
  | Require string "jsval result \<Rightarrow> boot_prog"
  | GlobalRequire string "jsval result \<Rightarrow> boot_prog"
  | Resolve string "string \<Rightarrow> boot_prog"
  | SetExports jsval boot_prog
  | CloseDisk boot_prog

text \<open>The module object: \<open>{ id, exports, loaded, filename }\<close>.\<close>

record boot_module =
  bm_id :: string
  bm_exports :: jsval
  bm_loaded :: bool
  bm_filename :: string

datatype boot_event = ReadFile string | Compile string | RunModule string

record boot_env =
  loadBytecodeModule :: "string \<Rightarrow> boot_prog option"
  readFileSync :: "string \<Rightarrow> string result"
  compileAndRun :: "string \<Rightarrow> string \<Rightarrow> bool \<Rightarrow> boot_prog result"
  vendoredPackages :: "string \<Rightarrow> string option"
  vendoredIdSet :: "string list"

text \<open>The closure variables \<open>cache\<close> and \<open>diskLoadingClosed\<close>; the module objects by
  address (the fresh \<open>exports\<close> object of the module at address \<open>m\<close> is
  \<open>JObject m\<close>); and the native calls made so far, newest first.\<close>

record boot_state =
  cache :: "string \<Rightarrow> nat option"
  mods :: "boot_module list"
  diskLoadingClosed :: bool
  events :: "boot_event list"

type_synonym 'a boot_step = "boot_state \<Rightarrow> ('a result \<times> boot_state) option"

definition boot_init :: boot_state where
  "boot_init = \<lparr>cache = Map.empty, mods = [], diskLoadingClosed = False, events = []\<rparr>"

definition exports_of :: "boot_state \<Rightarrow> nat \<Rightarrow> jsval" where
  "exports_of st m = (if m < length (mods st) then bm_exports (mods st ! m) else JUndefined)"

definition emit_event :: "boot_event \<Rightarrow> boot_state \<Rightarrow> boot_state" where
  "emit_event e st = st\<lparr>events := e # events st\<rparr>"

definition set_exports :: "nat \<Rightarrow> jsval \<Rightarrow> boot_state \<Rightarrow> boot_state" where
  "set_exports m v st = st\<lparr>mods := (mods st)[m := (mods st ! m)\<lparr>bm_exports := v\<rparr>]\<rparr>"

definition mark_loaded :: "nat \<Rightarrow> boot_state \<Rightarrow> boot_state" where
  "mark_loaded m st = st\<lparr>mods := (mods st)[m := (mods st ! m)\<lparr>bm_loaded := True\<rparr>]\<rparr>"

text \<open>\<open>globalThis.__closeDiskModuleLoading\<close>.\<close>

definition closeDiskModuleLoading :: "boot_state \<Rightarrow> boot_state" where
  "closeDiskModuleLoading st = st\<lparr>diskLoadingClosed := True\<rparr>"

section \<open>Path helpers\<close>

text \<open>\<open>const lastSlash = p.lastIndexOf('/'); lastSlash >= 0 ? p.substring(0, lastSlash) : '.'\<close>\<close>

definition dir_of :: "string \<Rightarrow> string" where
  "dir_of filepath =
     (let lastSlash = last_index_of filepath (CHR ''/'')
      in if lastSlash \<ge> 0 then js_slice filepath 0 lastSlash else ''.'')"

fun resolvePath_loop :: "string list \<Rightarrow> string list \<Rightarrow> string list" where
  "resolvePath_loop parts [] = parts"
| "resolvePath_loop parts (r # rs) =
     (if r = ''..'' then resolvePath_loop (butlast parts) rs
      else if r \<noteq> ''.'' \<and> r \<noteq> [] then resolvePath_loop (parts @ [r]) rs
      else resolvePath_loop parts rs)"

definition resolvePath :: "string \<Rightarrow> string \<Rightarrow> string" where
  "resolvePath base relative =
     js_join ''/'' (resolvePath_loop (js_split base (CHR ''/'')) (js_split relative (CHR ''/'')))"

definition probeFile :: "boot_env \<Rightarrow> string \<Rightarrow> boot_state \<Rightarrow> bool \<times> boot_state" where
  "probeFile env p st =
     (if diskLoadingClosed st then (False, st)
      else
        (case readFileSync env p of
           Inr _ \<Rightarrow> (True, emit_event (ReadFile p) st)
         | Inl _ \<Rightarrow> (False, emit_event (ReadFile p) st)))"

text \<open>The candidates are probed in order; the first readable one wins.\<close>

fun probe_first :: "boot_env \<Rightarrow> string list \<Rightarrow> string \<Rightarrow> boot_state \<Rightarrow> string \<times> boot_state" where
  "probe_first env [] fallback st = (fallback, st)"
| "probe_first env (c # cs) fallback st =
     (case probeFile env c st of
        (found, st') \<Rightarrow> if found then (c, st') else probe_first env cs fallback st')"

definition resolveRelative :: "boot_env \<Rightarrow> string \<Rightarrow> string \<Rightarrow> boot_state \<Rightarrow> string \<times> boot_state" where
  "resolveRelative env fromDir name st =
     (let base = resolvePath fromDir name in
      if length base > 3 \<and> (ends_with base ''.js'' \<or> ends_with base ''.ts'') then (base, st)
      else
        probe_first env
          [base @ ''.js'', base @ ''.ts'', base @ ''/index.js'', base @ ''/index.ts'']
          (base @ ''.js'') st)"

definition resolveVendoredRelative :: "boot_env \<Rightarrow> string \<Rightarrow> string \<Rightarrow> string" where
  "resolveVendoredRelative env fromDir name =
     (let base = resolvePath fromDir name in
      if base \<in> set (vendoredIdSet env) then base
      else if base @ ''/index'' \<in> set (vendoredIdSet env) then base @ ''/index''
      else base)"

section \<open>require\<close>

definition module_not_found :: "string \<Rightarrow> js_error" where
  "module_not_found i =
     JsError (Some ''MODULE_NOT_FOUND'')
       (''Cannot find module '' @ [CHR 0x27] @ i @ [CHR 0x27, CHR 0x0A] @
        ''  A bundle is running, so the container is the only source of module code.'' @ [CHR 0x0A] @
        ''  This fallback does not read the filesystem.'')"

text \<open>The loader proper is a parameter \<open>load\<close> of the functions that call it: it is
  \<open>loadModule\<close> with less nesting left.\<close>

definition load_exports ::
  "(string \<Rightarrow> string \<Rightarrow> nat boot_step) \<Rightarrow> string \<Rightarrow> jsval boot_step" where
  "load_exports load i st =
     (case load i i st of
        None \<Rightarrow> None
      | Some (Inl e, st') \<Rightarrow> Some (Inl e, st')
      | Some (Inr m, st') \<Rightarrow> Some (Inr (exports_of st' m), st'))"

definition load_vendored ::
  "(string \<Rightarrow> string \<Rightarrow> nat boot_step) \<Rightarrow> string \<Rightarrow> string \<Rightarrow> jsval boot_step" where
  "load_vendored load bareName vendoredId st =
     (case load vendoredId vendoredId st of
        None \<Rightarrow> None
      | Some (Inl e, st') \<Rightarrow> Some (Inl e, st')
      | Some (Inr m, st') \<Rightarrow>
          Some (Inr (exports_of st' m), st'\<lparr>cache := (cache st')(bareName \<mapsto> m)\<rparr>))"

definition bare_name :: "string \<Rightarrow> string" where
  "bare_name name = (if take 5 name = ''node:'' then js_slice_from name 5 else name)"

definition requireModule ::
  "(string \<Rightarrow> string \<Rightarrow> nat boot_step) \<Rightarrow> boot_env \<Rightarrow> string \<Rightarrow> jsval boot_step" where
  "requireModule load env name st =
     (let bareName = bare_name name in
      case cache st bareName of
        Some m \<Rightarrow> Some (Inr (exports_of st m), st)
      | None \<Rightarrow>
          (case vendoredPackages env bareName of
             Some vendoredId \<Rightarrow>
               if vendoredId \<noteq> [] then load_vendored load bareName vendoredId st
               else load_exports load bareName st
           | None \<Rightarrow> load_exports load bareName st))"

text \<open>\<open>makeRequire(fromFilepath)\<close>: its \<open>require.resolve\<close> and its \<open>require\<close>.\<close>

definition isVendoredDir :: "string \<Rightarrow> bool" where
  "isVendoredDir fromDir \<longleftrightarrow> take 9 fromDir = ''vendored/''"

definition local_resolve :: "boot_env \<Rightarrow> string \<Rightarrow> string \<Rightarrow> boot_state \<Rightarrow> string \<times> boot_state" where
  "local_resolve env fromFilepath name st =
     (let fromDir = dir_of fromFilepath in
      if char_at name 0 = Some (CHR ''.'') then
        (if isVendoredDir fromDir then (resolveVendoredRelative env fromDir name, st)
         else resolveRelative env fromDir name st)
      else (name, st))"

definition local_require ::
  "(string \<Rightarrow> string \<Rightarrow> nat boot_step) \<Rightarrow> boot_env \<Rightarrow> string \<Rightarrow> string \<Rightarrow> jsval boot_step" where
  "local_require load env fromFilepath name st =
     (if char_at name 0 = Some (CHR ''.'') then
        (case local_resolve env fromFilepath name st of
           (resolvedPath, st) \<Rightarrow>
             (case cache st resolvedPath of
                Some m \<Rightarrow> Some (Inr (exports_of st m), st)
              | None \<Rightarrow> load_exports load resolvedPath st))
      else requireModule load env name st)"

section \<open>Running a module body\<close>

primrec exec_boot ::
  "boot_prog \<Rightarrow> (string \<Rightarrow> jsval boot_step) \<Rightarrow> (string \<Rightarrow> jsval boot_step)
   \<Rightarrow> (string \<Rightarrow> boot_state \<Rightarrow> string \<times> boot_state) \<Rightarrow> nat \<Rightarrow> unit boot_step" where
  "exec_boot Done req greq res m st = Some (Inr (), st)"
| "exec_boot (Throw e) req greq res m st = Some (Inl e, st)"
| "exec_boot (Require name k) req greq res m st =
     (case req name st of
        None \<Rightarrow> None
      | Some (r, st') \<Rightarrow> exec_boot (k r) req greq res m st')"
| "exec_boot (GlobalRequire name k) req greq res m st =
     (case greq name st of
        None \<Rightarrow> None
      | Some (r, st') \<Rightarrow> exec_boot (k r) req greq res m st')"
| "exec_boot (Resolve name k) req greq res m st =
     (case res name st of (p, st') \<Rightarrow> exec_boot (k p) req greq res m st')"
| "exec_boot (SetExports v p) req greq res m st = exec_boot p req greq res m (set_exports m v st)"
| "exec_boot (CloseDisk p) req greq res m st = exec_boot p req greq res m (closeDiskModuleLoading st)"

section \<open>loadModule\<close>

text \<open>Hermes does not accept a \<open>#!\<close> line.\<close>

definition strip_shebang :: "string \<Rightarrow> string" where
  "strip_shebang source =
     (if length source \<ge> 2 \<and> char_at source 0 = Some (CHR ''#'') \<and> char_at source 1 = Some (CHR ''!'') then
        (let nl = index_of source (CHR 0x0A) in if nl \<ge> 0 then js_slice_from source nl else [])
      else source)"

definition wrap_source :: "string \<Rightarrow> string \<Rightarrow> string" where
  "wrap_source source filepath =
     ''(function(exports, require, module, __filename, __dirname) {'' @ source @
     [CHR 0x0A] @ ''});'' @ [CHR 0x0A] @ ''//# sourceURL='' @ filepath @ [CHR 0x0A]"

definition isTS :: "string \<Rightarrow> bool" where
  "isTS filepath \<longleftrightarrow> length filepath > 3 \<and> ends_with filepath ''.ts''"

text \<open>Where the compiled function comes from: embedded bytecode first, then, unless disk
  loading is closed, the file.\<close>

definition fetch_module :: "boot_env \<Rightarrow> string \<Rightarrow> string \<Rightarrow> boot_state \<Rightarrow> boot_prog result \<times> boot_state" where
  "fetch_module env i filepath st =
     (case loadBytecodeModule env i of
        Some fn \<Rightarrow> (Inr fn, st)
      | None \<Rightarrow>
          if diskLoadingClosed st then (Inl (module_not_found i), st)
          else
            (let st = emit_event (ReadFile filepath) st in
             case readFileSync env filepath of
               Inl e \<Rightarrow> (Inl e, st)
             | Inr source \<Rightarrow>
                 (compileAndRun env (wrap_source (strip_shebang source) filepath) filepath (isTS filepath),
                  emit_event (Compile filepath) st)))"

text \<open>Create the module object and publish it in the cache before the body runs.\<close>

definition register_module :: "string \<Rightarrow> string \<Rightarrow> boot_state \<Rightarrow> boot_state" where
  "register_module i filepath st =
     (let m = length (mods st) in
      emit_event (RunModule i)
        (st\<lparr>mods := mods st @ [\<lparr>bm_id = i, bm_exports = JObject m, bm_loaded = False,
                              bm_filename = filepath\<rparr>],
            cache := (cache st)(i \<mapsto> m)\<rparr>))"

text \<open>The body of \<open>loadModule\<close>, with the loader the nested requires reach as \<open>load\<close>.\<close>

definition loadModule_body ::
  "(string \<Rightarrow> string \<Rightarrow> nat boot_step) \<Rightarrow> boot_env \<Rightarrow> string \<Rightarrow> string \<Rightarrow> nat boot_step" where
  "loadModule_body load env i filepath st =
     (case fetch_module env i filepath st of
        (Inl e, st) \<Rightarrow> Some (Inl e, st)
      | (Inr compiledFn, st) \<Rightarrow>
          (let m = length (mods st) in
           case exec_boot compiledFn
                  (local_require load env filepath)
                  (requireModule load env)
                  (local_resolve env filepath) m
                  (register_module i filepath st) of
             None \<Rightarrow> None
           | Some (Inl e, st') \<Rightarrow> Some (Inl e, st')
           | Some (Inr _, st') \<Rightarrow> Some (Inr m, mark_loaded m st')))"

primrec loadModule :: "nat \<Rightarrow> boot_env \<Rightarrow> string \<Rightarrow> string \<Rightarrow> nat boot_step" where
  "loadModule 0 env = (\<lambda>i filepath st. None)"
| "loadModule (Suc depth) env = loadModule_body (loadModule depth env) env"

text \<open>\<open>globalThis.require\<close>, with the given bound on nested loads.\<close>

definition boot_require :: "nat \<Rightarrow> boot_env \<Rightarrow> string \<Rightarrow> jsval boot_step" where
  "boot_require depth env name = requireModule (loadModule depth env) env name"

end
