(* ===== verification/BootLoaderProps.thy ===== *)
theory BootLoaderProps
  imports BootLoader
begin

text \<open>
  Properties of the bootstrap loader.  The locale \<open>boot_preorder\<close> is the interface
  between the primitive state changes of the loader and everything built from them: a reflexive
  and transitive relation between states that every primitive step respects is respected by
  \<open>require\<close>, by \<open>loadModule\<close> at every depth and by every module body.  It is interpreted
  for disk containment, for well-formedness of the cache, for the stability of cache
  entries and for the number of times a body runs.
\<close>

section \<open>The primitive steps and what is built from them\<close>

text \<open>\<open>G i st\<close> is the condition under which \<open>loadModule\<close> is entered for \<open>i\<close>.\<close>

locale boot_preorder =
  fixes env :: boot_env
    and R :: "boot_state \<Rightarrow> boot_state \<Rightarrow> bool"
    and G :: "string \<Rightarrow> boot_state \<Rightarrow> bool"
  assumes R_refl: "R st st"
    and R_trans: "R a b \<Longrightarrow> R b c \<Longrightarrow> R a c"
    and R_mods: "R a b \<Longrightarrow> length (mods a) \<le> length (mods b)"
    and R_set_exports: "R st (set_exports m v st)"
    and R_mark_loaded: "R st (mark_loaded m st)"
    and R_close: "R st (closeDiskModuleLoading st)"
    and R_probe: "R st (snd (probeFile env p st))"
    and R_fetch: "R st (snd (fetch_module env i f st))"
    and R_register: "G i st \<Longrightarrow> R st (register_module i f st)"
    and R_alias: "vendoredPackages env n = Some i \<Longrightarrow> i \<noteq> [] \<Longrightarrow> m < length (mods st)
      \<Longrightarrow> R st (st\<lparr>cache := (cache st)(n \<mapsto> m)\<rparr>)"
    and G_uncached: "cache st i = None \<Longrightarrow> G i st"
    and G_vendored: "vendoredPackages env n = Some i \<Longrightarrow> i \<noteq> [] \<Longrightarrow> G i st"
    and G_fetch: "G i st \<Longrightarrow> G i (snd (fetch_module env i f st))"
begin

lemma R_probe_first: "R st (snd (probe_first env cs d st))"
proof (induction cs arbitrary: st)
  case (Cons c cs)
  obtain b st' where pr: "probeFile env c st = (b, st')" by force
  then have "R st st'" using R_probe [of st c] by simp
  then show ?case using Cons.IH [of st'] pr by (auto intro: R_trans)
qed (simp add: R_refl)

lemma R_local_resolve: "R st (snd (local_resolve env f name st))"
  by (auto simp: local_resolve_def resolveRelative_def Let_def R_refl R_probe_first
      simp del: probe_first.simps)

text \<open>A loader function respects \<open>R\<close>, and a module it returns exists.\<close>

definition good_load :: "(string \<Rightarrow> string \<Rightarrow> nat boot_step) \<Rightarrow> bool" where
  "good_load load \<longleftrightarrow>
     (\<forall>i f st r st'. G i st \<longrightarrow> load i f st = Some (r, st') \<longrightarrow>
        R st st' \<and> (\<forall>m. r = Inr m \<longrightarrow> m < length (mods st')))"

definition good_step :: "'a boot_step \<Rightarrow> bool" where
  "good_step f \<longleftrightarrow> (\<forall>st r st'. f st = Some (r, st') \<longrightarrow> R st st')"

lemma good_loadD:
  "good_load load \<Longrightarrow> G i st \<Longrightarrow> load i f st = Some (r, st') \<Longrightarrow>
   R st st' \<and> (\<forall>m. r = Inr m \<longrightarrow> m < length (mods st'))"
  by (auto simp: good_load_def)

lemma good_stepI: "(\<And>st r st'. f st = Some (r, st') \<Longrightarrow> R st st') \<Longrightarrow> good_step f"
  by (simp add: good_step_def)

lemma good_stepD: "good_step f \<Longrightarrow> f st = Some (r, st') \<Longrightarrow> R st st'"
  by (auto simp: good_step_def)

lemma good_load_exports:
  "good_load load \<Longrightarrow> G i st \<Longrightarrow> load_exports load i st = Some (r, st') \<Longrightarrow> R st st'"
  by (auto simp: load_exports_def split: option.splits sum.splits dest: good_loadD)

lemma good_load_vendored:
  assumes "good_load load" "vendoredPackages env n = Some v" "v \<noteq> []"
    and "load_vendored load n v st = Some (r, st')"
  shows "R st st'"
proof -
  note ld = good_loadD [OF assms(1) G_vendored [OF assms(2,3)]]
  have "R st (b\<lparr>cache := (cache b)(n \<mapsto> m)\<rparr>)" if "load v v st = Some (Inr m, b)" for m b
    using ld [OF that] by (blast intro: R_trans R_alias [OF assms(2,3)])
  then show ?thesis using assms(4)
    by (auto simp: load_vendored_def split: option.splits sum.splits dest: ld)
qed

lemma good_requireModule:
  assumes "good_load load" shows "good_step (requireModule load env name)"
  using assms
  by (auto simp: good_step_def requireModule_def Let_def R_refl split: option.splits if_splits
      dest: good_load_exports G_uncached intro: good_load_vendored good_load_exports)

lemma good_local_require:
  assumes "good_load load" shows "good_step (local_require load env f name)"
proof (rule good_stepI)
  fix st r st'
  assume r: "local_require load env f name st = Some (r, st')"
  show "R st st'"
  proof (cases "char_at name 0 = Some (CHR ''.'')")
    case True
    obtain p st1 where l: "local_resolve env f name st = (p, st1)" by force
    with R_local_resolve [of st f name] have R1: "R st st1" by simp
    have "R st1 st'" using r True l assms
      by (auto simp: local_require_def R_refl split: option.splits
          intro: good_load_exports G_uncached)
    with R1 show ?thesis by (rule R_trans)
  next
    case False
    with r good_requireModule [OF assms, of name] show ?thesis
      by (simp add: local_require_def good_step_def)
  qed
qed

lemma good_exec_boot:
  assumes "\<And>name. good_step (req name)" "\<And>name. good_step (greq name)"
    and "\<And>name st. R st (snd (res name st))"
  shows "good_step (exec_boot p req greq res m)"
proof (induction p)
  case (Require name k)
  show ?case
  proof (rule good_stepI)
    fix st r st' assume "exec_boot (Require name k) req greq res m st = Some (r, st')"
    then obtain x st1 where "req name st = Some (x, st1)" "exec_boot (k x) req greq res m st1 = Some (r, st')"
      by (auto split: option.splits)
    then show "R st st'" using assms(1) Require.IH [OF rangeI, of x] by (blast dest: good_stepD intro: R_trans)
  qed
next
  case (GlobalRequire name k)
  show ?case
  proof (rule good_stepI)
    fix st r st' assume "exec_boot (GlobalRequire name k) req greq res m st = Some (r, st')"
    then obtain x st1 where "greq name st = Some (x, st1)" "exec_boot (k x) req greq res m st1 = Some (r, st')"
      by (auto split: option.splits)
    then show "R st st'" using assms(2) GlobalRequire.IH [OF rangeI, of x] by (blast dest: good_stepD intro: R_trans)
  qed
next
  case (Resolve name k)
  show ?case
  proof (rule good_stepI)
    fix st r st' assume e: "exec_boot (Resolve name k) req greq res m st = Some (r, st')"
    obtain q st1 where q: "res name st = (q, st1)" by force
    have "good_step (exec_boot (k q) req greq res m)" by (rule Resolve.IH) simp
    with e q have "R st1 st'" by (simp add: good_step_def)
    with assms(3) [of st name] q show "R st st'" by (auto intro: R_trans)
  qed
next
  case (SetExports v p)
  then show ?case by (auto simp: good_step_def intro: R_trans [OF R_set_exports])
next
  case (CloseDisk p)
  then show ?case by (auto simp: good_step_def intro: R_trans [OF R_close])
qed (auto simp: good_step_def R_refl)

lemma good_loadModule: "good_load (loadModule d env)"
proof (induction d)
  case (Suc d)
  show ?case unfolding good_load_def
  proof (intro allI impI)
    fix i f st r st'
    assume G: "G i st" and l: "loadModule (Suc d) env i f st = Some (r, st')"
    obtain c st1 where ft: "fetch_module env i f st = (c, st1)" by force
    from R_fetch [of st i f] ft have R1: "R st st1" by simp
    show "R st st' \<and> (\<forall>m. r = Inr m \<longrightarrow> m < length (mods st'))"
    proof (cases c)
      case (Inl e)
      with l ft R1 show ?thesis by (auto simp: loadModule_body_def)
    next
      case (Inr body)
      let ?m = "length (mods st1)" and ?st2 = "register_module i f st1"
      from G_fetch [OF G, of f] ft have "G i st1" by simp
      then have R2: "R st1 ?st2" by (rule R_register)
      from l ft Inr obtain x st3 where
        ex: "exec_boot body (local_require (loadModule d env) env f) (requireModule (loadModule d env) env)
              (local_resolve env f) ?m ?st2 = Some (x, st3)"
        and res: "(\<exists>e. x = Inl e \<and> r = Inl e \<and> st' = st3) \<or> (\<exists>u. x = Inr u \<and> r = Inr ?m \<and> st' = mark_loaded ?m st3)"
        by (auto simp: loadModule_body_def Let_def split: option.splits sum.splits)
      have "good_step (exec_boot body (local_require (loadModule d env) env f)
              (requireModule (loadModule d env) env) (local_resolve env f) ?m)"
        by (intro good_exec_boot good_local_require good_requireModule Suc.IH R_local_resolve)
      with ex have R3: "R ?st2 st3" by (simp add: good_step_def)
      then have "R st st3" using R1 R2 by (blast intro: R_trans)
      moreover have "?m < length (mods st3)"
        using R_mods [OF R3] by (simp add: register_module_def emit_event_def Let_def)
      ultimately show ?thesis using res R_mark_loaded [of st3 ?m] R_mods
        by (fastforce intro: R_trans simp: mark_loaded_def)
    qed
  qed
qed (simp add: good_load_def)

lemma boot_require_R: "boot_require d env name st = Some (r, st') \<Longrightarrow> R st st'"
  using good_requireModule [OF good_loadModule] by (simp add: boot_require_def good_step_def)

lemma exec_boot_R:
  "exec_boot p (local_require (loadModule d env) env f) (requireModule (loadModule d env) env)
     (local_resolve env f) m st = Some (r, st') \<Longrightarrow> R st st'"
  using good_exec_boot [OF good_local_require [OF good_loadModule] good_requireModule [OF good_loadModule]
    R_local_resolve] by (simp add: good_step_def)

lemma loadModule_R: "G i st \<Longrightarrow> loadModule d env i f st = Some (r, st') \<Longrightarrow> R st st'"
  using good_loadModule by (auto simp: good_load_def)

end

section \<open>Disk containment\<close>

text \<open>The native calls that reach for the filesystem or the compiler.\<close>

fun is_disk_event :: "boot_event \<Rightarrow> bool" where
  "is_disk_event (ReadFile p) = True"
| "is_disk_event (Compile p) = True"
| "is_disk_event (RunModule i) = False"

definition disk_events :: "boot_state \<Rightarrow> boot_event list" where
  "disk_events st = filter is_disk_event (events st)"

definition sealed_le :: "boot_state \<Rightarrow> boot_state \<Rightarrow> bool" where
  "sealed_le a b \<longleftrightarrow>
     length (mods a) \<le> length (mods b) \<and>
     (diskLoadingClosed a \<longrightarrow> diskLoadingClosed b \<and> disk_events b = disk_events a)"

lemmas boot_step_defs =
  set_exports_def mark_loaded_def closeDiskModuleLoading_def probeFile_def fetch_module_def
  register_module_def emit_event_def Let_def

interpretation sealed: boot_preorder env sealed_le "\<lambda>_ _. True" for env
  by unfold_locales
    (auto simp: sealed_le_def disk_events_def boot_step_defs split: option.splits sum.splits)

section \<open>The cache is well formed\<close>

definition boot_wf :: "boot_state \<Rightarrow> bool" where
  "boot_wf st \<longleftrightarrow> (\<forall>n m. cache st n = Some m \<longrightarrow> m < length (mods st))"

definition wf_le :: "boot_state \<Rightarrow> boot_state \<Rightarrow> bool" where
  "wf_le a b \<longleftrightarrow> length (mods a) \<le> length (mods b) \<and> (boot_wf a \<longrightarrow> boot_wf b)"

interpretation wfc: boot_preorder env wf_le "\<lambda>_ _. True" for env
  by unfold_locales
    (auto simp: wf_le_def boot_wf_def boot_step_defs less_Suc_eq split: option.splits sum.splits if_splits)

lemma boot_wf_init [simp]: "boot_wf boot_init"
  by (simp add: boot_wf_def boot_init_def)

section \<open>Cache entries are stable and bodies run once\<close>

text \<open>The names the vendored-package branch of \<open>requireModule\<close> writes to: the bare names
  and the embedded ids they stand for.  Every other name is written only when the cache has no
  entry for it.\<close>

definition vendored_names :: "boot_env \<Rightarrow> string set" where
  "vendored_names env =
     {n. \<exists>i. vendoredPackages env n = Some i \<and> i \<noteq> []} \<union>
     {i. \<exists>n. vendoredPackages env n = Some i \<and> i \<noteq> []}"

definition stable_le :: "boot_env \<Rightarrow> boot_state \<Rightarrow> boot_state \<Rightarrow> bool" where
  "stable_le env a b \<longleftrightarrow>
     length (mods a) \<le> length (mods b) \<and> dom (cache a) \<subseteq> dom (cache b) \<and>
     (\<forall>n m. n \<notin> vendored_names env \<longrightarrow> cache a n = Some m \<longrightarrow> cache b n = Some m)"

definition runs :: "string \<Rightarrow> boot_state \<Rightarrow> nat" where
  "runs i st = count_list (events st) (RunModule i)"

definition once_ok :: "boot_env \<Rightarrow> boot_state \<Rightarrow> bool" where
  "once_ok env st \<longleftrightarrow>
     (\<forall>i. i \<notin> vendored_names env \<longrightarrow> runs i st = (if i \<in> dom (cache st) then 1 else 0))"

definition once_le :: "boot_env \<Rightarrow> boot_state \<Rightarrow> boot_state \<Rightarrow> bool" where
  "once_le env a b \<longleftrightarrow> length (mods a) \<le> length (mods b) \<and> (once_ok env a \<longrightarrow> once_ok env b)"

text \<open>\<open>loadModule\<close> is entered for a cached id only through a vendored name.\<close>

definition enter_ok :: "boot_env \<Rightarrow> string \<Rightarrow> boot_state \<Rightarrow> bool" where
  "enter_ok env i st \<longleftrightarrow> i \<in> vendored_names env \<or> cache st i = None"

lemma vendored_names_I:
  "vendoredPackages env n = Some i \<Longrightarrow> i \<noteq> [] \<Longrightarrow> n \<in> vendored_names env"
  "vendoredPackages env n = Some i \<Longrightarrow> i \<noteq> [] \<Longrightarrow> i \<in> vendored_names env"
  by (auto simp: vendored_names_def)

lemma fetch_module_keeps:
  "cache (snd (fetch_module env i f st)) = cache st" "mods (snd (fetch_module env i f st)) = mods st"
  "runs n (snd (fetch_module env i f st)) = runs n st"
  by (auto simp: fetch_module_def emit_event_def runs_def Let_def split: option.splits sum.splits)

lemma probeFile_keeps:
  "cache (snd (probeFile env p st)) = cache st" "mods (snd (probeFile env p st)) = mods st"
  "runs n (snd (probeFile env p st)) = runs n st"
  by (auto simp: probeFile_def emit_event_def runs_def split: option.splits sum.splits)

lemma register_module_simps [simp]:
  "cache (register_module i f st) = (cache st)(i \<mapsto> length (mods st))"
  "length (mods (register_module i f st)) = Suc (length (mods st))"
  "runs n (register_module i f st) = (if n = i then Suc (runs n st) else runs n st)"
  by (auto simp: register_module_def emit_event_def runs_def Let_def)

interpretation stable: boot_preorder env "stable_le env" "enter_ok env" for env
proof (unfold_locales, goal_cases)
  case (2 a b c) then show ?case unfolding stable_le_def by (meson order.trans)
next
  case (7 st p) show ?case by (simp add: stable_le_def probeFile_keeps)
next
  case (8 st i f) show ?case by (simp add: stable_le_def fetch_module_keeps)
next
  case (9 i st f) then show ?case by (auto simp: stable_le_def enter_ok_def)
next
  case (10 n i m st) then show ?case by (auto simp: stable_le_def dest: vendored_names_I)
next
  case (12 n i st) then show ?case by (simp add: enter_ok_def vendored_names_I)
next
  case (13 i st f) then show ?case by (simp add: enter_ok_def fetch_module_keeps)
qed (auto simp: stable_le_def enter_ok_def set_exports_def mark_loaded_def closeDiskModuleLoading_def)

interpretation once: boot_preorder env "once_le env" "enter_ok env" for env
proof (unfold_locales, goal_cases)
  case (7 st p) show ?case by (simp add: once_le_def once_ok_def probeFile_keeps)
next
  case (8 st i f) show ?case by (simp add: once_le_def once_ok_def fetch_module_keeps)
next
  case (9 i st f) then show ?case by (auto simp: once_le_def once_ok_def enter_ok_def)
next
  case (10 n i m st)
  then have "n \<in> vendored_names env" by (blast intro: vendored_names_I)
  then show ?case by (auto simp: once_le_def once_ok_def runs_def)
next
  case (11 st i) then show ?case by (simp add: enter_ok_def)
next
  case (12 n i st) then show ?case by (simp add: enter_ok_def vendored_names_I)
next
  case (13 i st f) then show ?case by (simp add: enter_ok_def fetch_module_keeps)
qed (auto simp: once_le_def once_ok_def runs_def set_exports_def mark_loaded_def closeDiskModuleLoading_def)

lemma once_ok_init [simp]: "once_ok env boot_init"
  by (simp add: once_ok_def boot_init_def runs_def)

section \<open>Loads return\<close>

text \<open>More nesting never changes a result that is already there.\<close>

definition load_le :: "(string \<Rightarrow> string \<Rightarrow> nat boot_step) \<Rightarrow> (string \<Rightarrow> string \<Rightarrow> nat boot_step) \<Rightarrow> bool" where
  "load_le f g \<longleftrightarrow> (\<forall>i p st. f i p st = None \<or> g i p st = f i p st)"

lemma load_exports_mono: "load_le f g \<Longrightarrow> load_exports f i st = None \<or> load_exports g i st = load_exports f i st"
  by (auto simp: load_exports_def load_le_def dest!: spec [of _ i] spec [of _ st])

lemma load_vendored_mono:
  "load_le f g \<Longrightarrow> load_vendored f n i st = None \<or> load_vendored g n i st = load_vendored f n i st"
  by (auto simp: load_vendored_def load_le_def dest!: spec [of _ i] spec [of _ st])

lemma requireModule_mono:
  "load_le f g \<Longrightarrow> requireModule f env name st = None \<or> requireModule g env name st = requireModule f env name st"
  by (auto simp: requireModule_def Let_def split: option.split dest: load_exports_mono load_vendored_mono)

lemma local_require_mono:
  "load_le f g \<Longrightarrow> local_require f env p name st = None \<or> local_require g env p name st = local_require f env p name st"
  by (auto simp: local_require_def split: option.split prod.split dest: load_exports_mono requireModule_mono)

lemma exec_boot_mono:
  assumes "\<And>n st. req n st = None \<or> req' n st = req n st"
    and "\<And>n st. greq n st = None \<or> greq' n st = greq n st"
  shows "exec_boot p req greq res m st = None \<or> exec_boot p req' greq' res m st = exec_boot p req greq res m st"
proof (induction p arbitrary: st)
  case (Require n k)
  have "exec_boot (k x) req greq res m st' = None \<or>
        exec_boot (k x) req' greq' res m st' = exec_boot (k x) req greq res m st'" for x st'
    by (rule Require.IH) simp
  then show ?case using assms(1) [of n st] by (fastforce split: option.split)
next
  case (GlobalRequire n k)
  have "exec_boot (k x) req greq res m st' = None \<or>
        exec_boot (k x) req' greq' res m st' = exec_boot (k x) req greq res m st'" for x st'
    by (rule GlobalRequire.IH) simp
  then show ?case using assms(2) [of n st] by (fastforce split: option.split)
qed (auto split: prod.split)

lemma loadModule_body_mono:
  assumes "load_le f g" shows "load_le (loadModule_body f env) (loadModule_body g env)"
  unfolding load_le_def
proof (intro allI, goal_cases)
  case (1 i p st)
  obtain c st1 where c: "fetch_module env i p st = (c, st1)" by force
  show ?case
  proof (cases c)
    case (Inr body)
    have "exec_boot body (local_require f env p) (requireModule f env)
             (local_resolve env p) (length (mods st1)) (register_module i p st1) = None
       \<or> exec_boot body (local_require g env p) (requireModule g env)
             (local_resolve env p) (length (mods st1)) (register_module i p st1)
       = exec_boot body (local_require f env p) (requireModule f env)
             (local_resolve env p) (length (mods st1)) (register_module i p st1)"
      by (rule exec_boot_mono; rule local_require_mono requireModule_mono; rule assms)
    with c Inr show ?thesis by (auto simp: loadModule_body_def Let_def)
  qed (simp add: c loadModule_body_def)
qed

lemma loadModule_Suc_le: "load_le (loadModule d env) (loadModule (Suc d) env)"
proof (induction d)
  case (Suc d)
  then show ?case using loadModule_body_mono [OF Suc.IH, of env] by simp
qed (simp add: load_le_def)

lemma loadModule_mono: "d \<le> d' \<Longrightarrow> load_le (loadModule d env) (loadModule d' env)"
proof (induction rule: dec_induct)
  case (step n)
  then show ?case using loadModule_Suc_le [of n env] unfolding load_le_def by metis
qed (simp add: load_le_def)

lemma boot_require_mono:
  "d \<le> d' \<Longrightarrow> boot_require d env name st = Some x \<Longrightarrow> boot_require d' env name st = Some x"
  using requireModule_mono [OF loadModule_mono, of d d' env env name st] by (auto simp: boot_require_def)

text \<open>Without vendored packages, every nested load is of an id that was not cached, so the number
  of loadable ids that are not in the cache bounds the nesting.\<close>

definition loadable_in :: "boot_env \<Rightarrow> string set \<Rightarrow> bool" where
  "loadable_in env U \<longleftrightarrow>
     (\<forall>i. i \<notin> U \<longrightarrow> loadBytecodeModule env i = None \<and> (\<forall>src. readFileSync env i \<noteq> Inr src))"

definition room :: "string set \<Rightarrow> nat \<Rightarrow> boot_state \<Rightarrow> bool" where
  "room U d st \<longleftrightarrow> card (U - dom (cache st)) < d"

lemma room_stable: "finite U \<Longrightarrow> room U d a \<Longrightarrow> stable_le env a b \<Longrightarrow> room U d b"
  unfolding room_def stable_le_def
  by (meson Diff_mono card_mono finite_Diff le_less_trans order_refl)

definition total_load :: "string set \<Rightarrow> nat \<Rightarrow> (string \<Rightarrow> string \<Rightarrow> nat boot_step) \<Rightarrow> bool" where
  "total_load U d load \<longleftrightarrow> (\<forall>i st. cache st i = None \<longrightarrow> room U d st \<longrightarrow> load i i st \<noteq> None)"

lemma load_exports_total:
  "total_load U d load \<Longrightarrow> room U d st \<Longrightarrow> cache st i = None \<Longrightarrow> load_exports load i st \<noteq> None"
  by (fastforce simp: load_exports_def total_load_def split: option.splits sum.splits)

lemma requireModule_total:
  assumes "total_load U d load" "room U d st" "\<And>n. vendoredPackages env n = None"
  shows "requireModule load env name st \<noteq> None"
  using assms load_exports_total [OF assms(1,2)]
  by (auto simp: requireModule_def Let_def split: option.splits simp del: not_None_eq)

lemma local_require_total:
  assumes "total_load U d load" "room U d st" "\<And>n. vendoredPackages env n = None" "finite U"
  shows "local_require load env f name st \<noteq> None"
proof (cases "char_at name 0 = Some (CHR ''.'')")
  case True
  obtain p st1 where l: "local_resolve env f name st = (p, st1)" by force
  with stable.R_local_resolve [of env st f name] have "stable_le env st st1" by simp
  then have "room U d st1" by (rule room_stable [OF assms(4,2)])
  from load_exports_total [OF assms(1) this] True l show ?thesis
    by (auto simp: local_require_def split: option.splits simp del: not_None_eq)
next
  case False
  then show ?thesis using requireModule_total [OF assms(1-3)]
    by (simp add: local_require_def del: not_None_eq)
qed

lemma exec_boot_total:
  assumes "\<And>n st. P st \<Longrightarrow> req n st \<noteq> None" "\<And>n st. P st \<Longrightarrow> greq n st \<noteq> None"
    and "\<And>n st r st'. P st \<Longrightarrow> req n st = Some (r, st') \<Longrightarrow> P st'"
    and "\<And>n st r st'. P st \<Longrightarrow> greq n st = Some (r, st') \<Longrightarrow> P st'"
    and "\<And>n st. P st \<Longrightarrow> P (snd (res n st))"
    and "\<And>v st. P st \<Longrightarrow> P (set_exports m v st)" "\<And>st. P st \<Longrightarrow> P (closeDiskModuleLoading st)"
  shows "P st \<Longrightarrow> exec_boot p req greq res m st \<noteq> None"
proof (induction p arbitrary: st)
  case (Require n k)
  then obtain r st1 where "req n st = Some (r, st1)" using assms(1) [of st n] by fastforce
  with Require show ?case using assms(3) by fastforce
next
  case (GlobalRequire n k)
  then obtain r st1 where "greq n st = Some (r, st1)" using assms(2) [of st n] by fastforce
  with GlobalRequire show ?case using assms(4) by fastforce
next
  case (Resolve n k)
  obtain q st1 where "res n st = (q, st1)" by force
  with Resolve show ?case using assms(5) [of st n] by fastforce
qed (auto simp: assms(6,7) simp del: not_None_eq)

lemma loadModule_body_total:
  assumes "total_load U d load" "stable.good_load env load" "\<And>n. vendoredPackages env n = None"
    and "finite U" "loadable_in env U"
  shows "total_load U (Suc d) (loadModule_body load env)"
  unfolding total_load_def
proof (intro allI impI)
  fix i st assume un: "cache st i = None" and rm: "room U (Suc d) st"
  obtain c st1 where c: "fetch_module env i i st = (c, st1)" by force
  show "loadModule_body load env i i st \<noteq> None"
  proof (cases c)
    case (Inr body)
    let ?st2 = "register_module i i st1"
    have "i \<in> U" using c Inr assms(5)
      by (auto simp: loadable_in_def fetch_module_def Let_def split: option.splits if_splits sum.splits)
    have ch: "cache st1 = cache st" using fetch_module_keeps(1) [of env i i st] c by simp
    have "U - dom (cache ?st2) = (U - dom (cache st)) - {i}" using ch by auto
    moreover have "i \<in> U - dom (cache st)" using un \<open>i \<in> U\<close> by auto
    ultimately have "room U d ?st2" using rm assms(4)
      by (metis room_def finite_Diff card_Suc_Diff1 Suc_less_eq)
    moreover have st: "room U d b" if "room U d a" "stable_le env a b" for a b
      using room_stable [OF assms(4)] that by blast
    ultimately have "exec_boot body (local_require load env i) (requireModule load env)
         (local_resolve env i) (length (mods st1)) ?st2 \<noteq> None"
    proof (intro exec_boot_total [where P = "room U d"], goal_cases)
      case 1 then show ?case using local_require_total [OF assms(1) _ assms(3,4)] by blast
    next
      case 2 then show ?case using requireModule_total [OF assms(1) _ assms(3)] by blast
    next
      case 3 then show ?case using stable.good_local_require [OF assms(2)] by (blast dest: stable.good_stepD intro: st)
    next
      case 4 then show ?case using stable.good_requireModule [OF assms(2)] by (blast dest: stable.good_stepD intro: st)
    next
      case 5 then show ?case by (blast intro: st stable.R_local_resolve)
    next
      case 6 then show ?case by (blast intro: st stable.R_set_exports)
    next
      case 7 then show ?case by (blast intro: st stable.R_close)
    qed
    then show ?thesis using c Inr by (auto simp: loadModule_body_def Let_def split: sum.splits)
  qed (simp add: c loadModule_body_def)
qed

lemma loadModule_total:
  assumes "\<And>n. vendoredPackages env n = None" "finite U" "loadable_in env U"
  shows "total_load U d (loadModule d env)"
proof (induction d)
  case (Suc d)
  then show ?case using loadModule_body_total [OF Suc stable.good_loadModule assms] by simp
qed (simp add: total_load_def room_def)

lemma boot_require_total:
  assumes "\<And>n. vendoredPackages env n = None" "finite U" "loadable_in env U"
    and "card (U - dom (cache st)) < d"
  shows "boot_require d env name st \<noteq> None"
  using requireModule_total [OF loadModule_total [OF assms(1-3)] _ assms(1)] assms(4)
  by (simp add: boot_require_def room_def)

section \<open>What a load leaves in the cache\<close>

text \<open>Once the body of an ordinary module has started, its entry is there whether the body ends
  or throws.\<close>

lemma loadModule_cached:
  assumes "loadModule d env i f st = Some (r, st')" "i \<notin> vendored_names env"
    and "fetch_module env i f st = (Inr body, st1)"
  shows "cache st' i = Some (length (mods st))"
    and "r = Inr m \<Longrightarrow> m = length (mods st)"
proof -
  obtain d' where d: "d = Suc d'" using assms(1) by (cases d) auto
  let ?m = "length (mods st1)" and ?st2 = "register_module i f st1"
  from assms(1,3) d obtain x st3 where
    ex: "exec_boot body (local_require (loadModule d' env) env f) (requireModule (loadModule d' env) env)
          (local_resolve env f) ?m ?st2 = Some (x, st3)"
    and st': "st' = st3 \<and> (\<exists>e. r = Inl e) \<or> st' = mark_loaded ?m st3 \<and> r = Inr ?m"
    by (auto simp: loadModule_body_def Let_def split: option.splits sum.splits)
  have m: "?m = length (mods st)" using fetch_module_keeps(2) [of env i f st] assms(3) by simp
  from stable.exec_boot_R [OF ex] have "cache st3 i = Some ?m"
    using assms(2) by (simp add: stable_le_def)
  with st' m show "cache st' i = Some (length (mods st))" "r = Inr m \<Longrightarrow> m = length (mods st)"
    by (auto simp: mark_loaded_def)
qed

lemma loadModule_InrE:
  assumes "loadModule d env i f st = Some (Inr m, st')"
  obtains body st1 where "fetch_module env i f st = (Inr body, st1)"
  using assms by (cases d) (auto simp: loadModule_body_def split: prod.splits sum.splits)

lemma boot_require_ordinary:
  assumes "bare_name name \<notin> vendored_names env"
  shows "boot_require d env name st =
     (case cache st (bare_name name) of
        Some m \<Rightarrow> Some (Inr (exports_of st m), st)
      | None \<Rightarrow> load_exports (loadModule d env) (bare_name name) st)"
  using assms vendored_names_I(1) [of env "bare_name name"]
  by (auto simp: boot_require_def requireModule_def Let_def split: option.split)

section \<open>Sessions\<close>

text \<open>The states a process can reach: calls of \<open>globalThis.require\<close>, of a module's own
  \<open>require\<close> kept by some callback, and closing the disk, in any order.\<close>

inductive boot_reachable :: "boot_env \<Rightarrow> boot_state \<Rightarrow> bool" for env where
  start: "boot_reachable env boot_init"
| global: "boot_reachable env st \<Longrightarrow> boot_require d env name st = Some (r, st') \<Longrightarrow> boot_reachable env st'"
| kept: "boot_reachable env st \<Longrightarrow> local_require (loadModule d env) env f name st = Some (r, st')
         \<Longrightarrow> boot_reachable env st'"
| close: "boot_reachable env st \<Longrightarrow> boot_reachable env (closeDiskModuleLoading st)"

lemma boot_reachable_wf: "boot_reachable env st \<Longrightarrow> boot_wf st"
proof (induction rule: boot_reachable.induct)
  case (global st d name r st')
  then show ?case using wfc.boot_require_R by (auto simp: wf_le_def)
next
  case (kept st d f name r st')
  then show ?case using wfc.good_stepD [OF wfc.good_local_require [OF wfc.good_loadModule]]
    by (auto simp: wf_le_def)
qed (auto simp: boot_wf_def closeDiskModuleLoading_def boot_init_def)

lemma boot_reachable_once: "boot_reachable env st \<Longrightarrow> once_ok env st"
proof (induction rule: boot_reachable.induct)
  case (global st d name r st')
  then show ?case using once.boot_require_R by (auto simp: once_le_def)
next
  case (kept st d f name r st')
  then show ?case using once.good_stepD [OF once.good_local_require [OF once.good_loadModule]]
    by (auto simp: once_le_def)
qed (auto simp: once_ok_def closeDiskModuleLoading_def runs_def boot_init_def)

section \<open>A module that re-enters itself through a vendored name\<close>

lemma vendored_self_require_diverges:
  assumes "vendoredPackages env p = Some v" "v \<noteq> []" "bare_name p = p" "char_at p 0 \<noteq> Some (CHR ''.'')"
    and "loadBytecodeModule env v = Some (Require p k)" "p \<noteq> v"
  shows "cache st p = None \<Longrightarrow> boot_require d env p st = None"
proof (induction d arbitrary: st)
  case 0
  then show ?case using assms by (simp add: boot_require_def requireModule_def load_vendored_def)
next
  case (Suc d)
  have "requireModule (loadModule d env) env p (register_module v v st) = None"
    using Suc.IH [of "register_module v v st"] Suc.prems assms(6) by (simp add: boot_require_def)
  then have "loadModule (Suc d) env v v st = None"
    using assms by (simp add: loadModule_body_def fetch_module_def local_require_def del: char_at_zero)
  then show ?case using Suc.prems assms
    by (simp add: boot_require_def requireModule_def load_vendored_def del: loadModule.simps)
qed

section \<open>Properties\<close>

text \<open>A small program: \<open>a\<close> requires \<open>b\<close>, which requires \<open>a\<close> back while \<open>a\<close> is still
  running; \<open>bad\<close> throws.  \<open>pkg\<close> is a vendored package that requires itself.\<close>

definition demo_env :: boot_env where
  "demo_env =
     \<lparr>loadBytecodeModule = (\<lambda>i.
        if i = ''a'' then Some (Require ''b'' (\<lambda>r. SetExports (JData ''A'') Done))
        else if i = ''b'' then Some (GlobalRequire ''node:a'' (\<lambda>r. Done))
        else if i = ''bad'' then Some (Throw (JsError None ''boom''))
        else None),
      readFileSync = (\<lambda>p. Inl (JsError (Some ''ENOENT'') p)),
      compileAndRun = (\<lambda>s p t. Inr Done),
      vendoredPackages = (\<lambda>n. None),
      vendoredIdSet = []\<rparr>"

definition demo_pkg_env :: boot_env where
  "demo_pkg_env = demo_env\<lparr>
     loadBytecodeModule := (\<lambda>i. if i = ''vendored/pkg/index'' then Some (Require ''pkg'' (\<lambda>r. Done)) else None),
     vendoredPackages := (\<lambda>n. if n = ''pkg'' then Some ''vendored/pkg/index'' else None)\<rparr>"

lemmas demo_defs = demo_env_def boot_require_def requireModule_def load_exports_def bare_name_def
  loadModule_body_def fetch_module_def register_module_def emit_event_def boot_init_def
  local_require_def exports_of_def mark_loaded_def set_exports_def closeDiskModuleLoading_def Let_def
  eval_nat_numeral

text \<open>C6: once disk loading is closed, whatever \<open>globalThis.require\<close> is asked for and whatever the
  modules it runs do, the flag stays closed and no further file is read and no further source
  compiled.\<close>

theorem boot_closed_no_disk:
  assumes "diskLoadingClosed st" "boot_require d env name st = Some (r, st')"
  shows "diskLoadingClosed st' \<and> disk_events st' = disk_events st"
  using sealed.boot_require_R [OF assms(2)] assms(1) by (simp add: sealed_le_def)

theorem boot_closed_no_disk_witness:
  "\<exists>r st'. boot_require 3 demo_env ''a'' (closeDiskModuleLoading boot_init) = Some (r, st') \<and>
           diskLoadingClosed st' \<and> disk_events st' = []"
proof -
  obtain r st' where *: "boot_require 3 demo_env ''a'' (closeDiskModuleLoading boot_init) = Some (r, st')"
    by (simp add: demo_defs)
  then show ?thesis using boot_closed_no_disk [OF _ *]
    by (simp add: closeDiskModuleLoading_def boot_init_def disk_events_def)
qed

text \<open>In a closed world a name that is neither cached nor embedded is refused with
  \<open>MODULE_NOT_FOUND\<close>, and the loader's state does not change.\<close>

theorem boot_closed_not_found:
  assumes "diskLoadingClosed st" "cache st (bare_name name) = None"
    and "loadBytecodeModule env (bare_name name) = None" "bare_name name \<notin> vendored_names env"
  shows "boot_require (Suc d) env name st = Some (Inl (module_not_found (bare_name name)), st)"
  using assms by (simp add: boot_require_ordinary load_exports_def loadModule_body_def fetch_module_def)

theorem boot_closed_not_found_witness:
  "boot_require 1 demo_env ''node:x'' (closeDiskModuleLoading boot_init)
     = Some (Inl (module_not_found ''x''), closeDiskModuleLoading boot_init)"
  using boot_closed_not_found [of "closeDiskModuleLoading boot_init" "''node:x''" demo_env 0]
  by (simp add: closeDiskModuleLoading_def boot_init_def demo_env_def vendored_names_def bare_name_def
      eval_nat_numeral)

text \<open>Modules are singletons.  A successful \<open>require\<close> of a name that is not a vendored one
  can be repeated: it returns the same exports and changes nothing.\<close>

theorem boot_require_again:
  assumes "bare_name name \<notin> vendored_names env" "boot_require d env name st = Some (Inr v, st')"
  shows "boot_require d' env name st' = Some (Inr v, st')"
proof (cases "cache st (bare_name name)")
  case None
  with assms obtain m where l: "loadModule d env (bare_name name) (bare_name name) st = Some (Inr m, st')"
    and v: "v = exports_of st' m"
    by (auto simp: boot_require_ordinary load_exports_def split: option.splits sum.splits)
  obtain body st1 where "fetch_module env (bare_name name) (bare_name name) st = (Inr body, st1)"
    using loadModule_InrE [OF l] by blast
  from loadModule_cached [OF l assms(1) this] v assms(1) show ?thesis
    by (simp add: boot_require_ordinary)
qed (use assms in \<open>auto simp: boot_require_ordinary\<close>)

theorem boot_require_again_witness:
  "\<exists>v st'. boot_require 3 demo_env ''a'' boot_init = Some (Inr v, st') \<and> v = JData ''A'' \<and>
           boot_require 0 demo_env ''a'' st' = Some (Inr v, st')"
proof -
  obtain st' where *: "boot_require 3 demo_env ''a'' boot_init = Some (Inr (JData ''A''), st')"
    by (simp add: demo_defs)
  have "bare_name ''a'' \<notin> vendored_names demo_env" by (simp add: vendored_names_def demo_env_def)
  from boot_require_again [OF this *, of 0] * show ?thesis by blast
qed

text \<open>In every state a process reaches, cache entries name existing modules, and the body
  of each module that is not a vendored one has run exactly once if the module is in the cache
  and never otherwise.\<close>

theorem boot_reachable_invariant:
  assumes "boot_reachable env st"
  shows "boot_wf st \<and>
    (\<forall>i. i \<in> vendored_names env \<or> count_list (events st) (RunModule i) = (if i \<in> dom (cache st) then 1 else 0))"
  using boot_reachable_wf [OF assms] boot_reachable_once [OF assms] unfolding once_ok_def runs_def
  by blast

theorem boot_reachable_invariant_witness:
  "\<exists>r st'. boot_require 3 demo_env ''a'' boot_init = Some (r, st') \<and>
           count_list (events st') (RunModule ''a'') = 1 \<and> count_list (events st') (RunModule ''c'') = 0"
proof -
  obtain r st' where *: "boot_require 3 demo_env ''a'' boot_init = Some (r, st')"
    and c: "cache st' ''a'' \<noteq> None" "cache st' ''c'' = None"
    by (simp add: demo_defs)
  have "vendored_names demo_env = {}" by (simp add: vendored_names_def demo_env_def)
  with boot_reachable_invariant [OF boot_reachable.global [OF boot_reachable.start *]] * c
  show ?thesis by (auto simp: domIff)
qed

text \<open>Loading terminates.  If only the finitely many ids of \<open>U\<close> can be loaded and there are no
  vendored packages, \<open>require\<close> returns with nesting no deeper than the number of ids of
  \<open>U\<close> not loaded yet, cyclic requires included, and with any greater bound it returns the same.\<close>

theorem boot_require_terminates:
  assumes "finite U" "loadable_in env U" "\<forall>n. vendoredPackages env n = None"
    and "card (U - dom (cache st)) < d"
  shows "\<exists>x. \<forall>d' \<ge> d. boot_require d' env name st = Some x"
proof -
  obtain x where "boot_require d env name st = Some x"
    using boot_require_total [OF _ assms(1,2,4)] assms(3) by fastforce
  then show ?thesis using boot_require_mono by blast
qed

theorem boot_require_terminates_witness:
  "\<exists>x. \<forall>d' \<ge> 4. boot_require d' demo_env ''a'' boot_init = Some x"
proof (rule boot_require_terminates [of "{''a'', ''b'', ''bad''}"])
  show "loadable_in demo_env {''a'', ''b'', ''bad''}" by (simp add: loadable_in_def demo_env_def)
qed (simp_all add: demo_env_def boot_init_def)

text \<open>A module whose body throws stays in the cache.  After a first \<open>require\<close> failed in the
  body, every later \<open>require\<close> of the same name succeeds with whatever exports the half-run
  body left.\<close>

theorem boot_failed_load_cached:
  assumes "bare_name name \<notin> vendored_names env" "cache st (bare_name name) = None"
    and "fetch_module env (bare_name name) (bare_name name) st = (Inr body, st1)"
    and "boot_require d env name st = Some (Inl e, st')"
  shows "\<exists>v. boot_require d' env name st' = Some (Inr v, st')"
proof -
  from assms(1,2,4) have "loadModule d env (bare_name name) (bare_name name) st = Some (Inl e, st')"
    by (auto simp: boot_require_ordinary load_exports_def split: option.splits sum.splits)
  from loadModule_cached(1) [OF this assms(1,3)] assms(1) show ?thesis
    by (simp add: boot_require_ordinary)
qed

theorem boot_failed_load_cached_witness:
  "\<exists>e st' v. boot_require 1 demo_env ''bad'' boot_init = Some (Inl e, st') \<and>
             boot_require 1 demo_env ''bad'' st' = Some (Inr v, st')"
proof -
  obtain e st' where *: "boot_require 1 demo_env ''bad'' boot_init = Some (Inl e, st')"
    by (simp add: demo_defs)
  have "fetch_module demo_env (bare_name ''bad'') (bare_name ''bad'') boot_init
      = (Inr (Throw (JsError None ''boom'')), boot_init)"
    by (simp add: demo_defs)
  from boot_failed_load_cached [OF _ _ this *, of 1] * show ?thesis
    by (simp add: vendored_names_def demo_env_def boot_init_def bare_name_def eval_nat_numeral)
qed

text \<open>A vendored package whose main module requires the package by its own name never
  finishes loading: the alias under the bare name is written only after the load, so every
  level starts the package again.\<close>

theorem vendored_self_require_never_returns:
  assumes "vendoredPackages env p = Some v" "v \<noteq> []" "bare_name p = p" "char_at p 0 \<noteq> Some (CHR ''.'')"
    and "loadBytecodeModule env v = Some (Require p k)" "p \<noteq> v" "cache st p = None"
  shows "boot_require d env p st = None"
  by (rule vendored_self_require_diverges [OF assms])

theorem vendored_self_require_never_returns_witness:
  "boot_require 50 demo_pkg_env ''pkg'' boot_init = None"
  by (rule vendored_self_require_never_returns [where v = "''vendored/pkg/index''" and k = "\<lambda>r. Done"])
    (simp_all add: demo_pkg_env_def bare_name_def boot_init_def)

end
