(* ===== verification/Realm.thy ===== *)
theory Realm
  imports JsPrelude
begin

text \<open>
  The shim of \<open>internal/bootstrap/realm\<close>
  (\<open>libjs/shims/internal/bootstrap/realm.js\<close>): which module ids the binary itself
  carries, under which spellings they may be required, and the one-time load of a
  \<open>BuiltinModule\<close>.  The bundle loader decides with these predicates what may leave the
  container.
\<close>

section \<open>The id tables\<close>

definition builtinIds :: "string list" where
  "builtinIds = [
     ''assert'', ''assert/strict'', ''async_hooks'', ''buffer'', ''child_process'',
     ''cluster'', ''console'', ''constants'', ''dgram'', ''diagnostics_channel'',
     ''dns'', ''dns/promises'', ''domain'', ''events'', ''fs'', ''fs/promises'', ''http'', ''https'',
     ''net'', ''os'', ''path'', ''path/posix'', ''path/win32'', ''process'',
     ''querystring'', ''readline'', ''readline/promises'', ''repl'',
     ''module'',
     ''crypto'',
     ''stream'', ''stream/consumers'', ''stream/promises'', ''stream/web'',
     ''string_decoder'', ''timers'', ''timers/promises'', ''tls'', ''tty'', ''url'', ''util'',
     ''util/types'', ''vm'',
     ''zlib'']"

definition vendoredIds :: "string list" where
  "vendoredIds = [''ws'']"

definition allRequirableIds :: "string list" where
  "allRequirableIds = builtinIds @ vendoredIds"

section \<open>BuiltinModule\<close>

definition node_scheme :: string where
  "node_scheme = ''node:''"

definition builtin_exists :: "string \<Rightarrow> bool" where
  "builtin_exists i \<longleftrightarrow> i \<in> set allRequirableIds"

definition canBeRequiredByUsers :: "string \<Rightarrow> bool" where
  "canBeRequiredByUsers i \<longleftrightarrow> i \<in> set allRequirableIds"

definition canBeRequiredWithoutScheme :: "string \<Rightarrow> bool" where
  "canBeRequiredWithoutScheme i \<longleftrightarrow> i \<in> set builtinIds"

definition isBuiltin :: "string \<Rightarrow> bool" where
  "isBuiltin i \<longleftrightarrow>
     i \<in> set allRequirableIds
   \<or> (starts_with i node_scheme \<and> js_slice_from i 5 \<in> set allRequirableIds)"

definition normalizeRequirableId :: "string \<Rightarrow> string option" where
  "normalizeRequirableId i =
     (if starts_with i node_scheme then
        (if js_slice_from i 5 \<in> set allRequirableIds then Some (js_slice_from i 5) else None)
      else if i \<in> set builtinIds then Some i else None)"

definition getSchemeOnlyModuleNames :: "string list" where
  "getSchemeOnlyModuleNames = []"

definition getAllBuiltinModuleIds :: "string list" where
  "getAllBuiltinModuleIds = allRequirableIds"

text \<open>A \<open>BuiltinModule\<close> object; \<open>'v\<close> are the exports.  \<open>compileForPublicLoader\<close> takes
  the result of the bootstrap \<open>require\<close>; if that throws, the assignments after it are
  not reached.\<close>

record 'v builtin_module =
  bmod_id :: string
  bmod_loaded :: bool
  bmod_loading :: bool
  bmod_exports :: 'v

definition compileForPublicLoader ::
  "(string \<Rightarrow> 'v result) \<Rightarrow> 'v builtin_module \<Rightarrow> js_error option \<times> 'v builtin_module" where
  "compileForPublicLoader bootstrapRequire m =
     (if \<not> bmod_loaded m then
        (case bootstrapRequire (bmod_id m) of
           Inl e \<Rightarrow> (Some e, m\<lparr>bmod_loading := True\<rparr>)
         | Inr v \<Rightarrow> (None, m\<lparr>bmod_exports := v, bmod_loaded := True, bmod_loading := False\<rparr>))
      else (None, m))"

section \<open>Lemmas\<close>

lemma starts_with_node_iff: "starts_with i node_scheme \<longleftrightarrow> (\<exists>r. i = ''node:'' @ r)"
proof
  assume "starts_with i node_scheme"
  then have "take 5 i = ''node:''" by (simp add: starts_with_def node_scheme_def eval_nat_numeral)
  then show "\<exists>r. i = ''node:'' @ r" by (metis append_take_drop_id)
qed (auto simp: starts_with_def node_scheme_def)

lemma builtinIds_no_scheme: "i \<in> set allRequirableIds \<Longrightarrow> \<not> starts_with i node_scheme"
proof -
  have "list_all (\<lambda>i. \<not> starts_with i node_scheme) allRequirableIds"
    by (simp add: allRequirableIds_def builtinIds_def vendoredIds_def starts_with_def node_scheme_def)
  then show "i \<in> set allRequirableIds \<Longrightarrow> ?thesis" by (simp add: list_all_iff)
qed

lemma normalizeRequirableId_isBuiltin: "normalizeRequirableId i \<noteq> None \<Longrightarrow> isBuiltin i"
  by (auto simp: normalizeRequirableId_def isBuiltin_def allRequirableIds_def split: if_splits)

lemma normalizeRequirableId_bare:
  "i \<in> set allRequirableIds \<Longrightarrow> normalizeRequirableId (''node:'' @ i) = Some i"
  by (simp add: normalizeRequirableId_def starts_with_def node_scheme_def)

lemma normalizeRequirableId_range: "normalizeRequirableId i = Some j \<Longrightarrow> j \<in> set allRequirableIds"
  by (auto simp: normalizeRequirableId_def allRequirableIds_def split: if_splits)

text \<open>Only the vendored packages are builtins that the bare spelling does not reach.\<close>

lemma builtin_not_normalizable:
  assumes "isBuiltin i" "normalizeRequirableId i = None"
  shows "i \<in> set vendoredIds"
proof (rule ccontr)
  assume v: "i \<notin> set vendoredIds"
  show False
  proof (cases "i \<in> set builtinIds")
    case True
    then have "\<not> starts_with i node_scheme" using builtinIds_no_scheme by (simp add: allRequirableIds_def)
    with True assms(2) show False by (simp add: normalizeRequirableId_def)
  next
    case False
    with v assms show False
      by (auto simp: isBuiltin_def normalizeRequirableId_def allRequirableIds_def split: if_splits)
  qed
qed

text \<open>Once loaded, a builtin is never loaded again.\<close>

lemma compileForPublicLoader_once:
  assumes "compileForPublicLoader req m = (None, m')"
  shows "bmod_loaded m'" "compileForPublicLoader req' m' = (None, m')"
  using assms by (auto simp: compileForPublicLoader_def split: if_splits sum.splits)

end
