(* ===== verification/BundleLoader.thy ===== *)
theory BundleLoader
  imports CjsLoader BootLoaderProps Realm
begin

text \<open>
  The bundle loader (\<open>libjs/bundle-loader.js\<close>): the wrapper around Node's
  \<open>Module._load\<close> and \<open>Module._resolveFilename\<close> that serves a packaged program from its
  container and refuses everything else.

  Parameters, the fields of \<open>bundle_env\<close>: the native container (\<open>root\<close>, \<open>entry\<close>,
  \<open>natives\<close>, \<open>preloads\<close>, \<open>lookup\<close>, \<open>resolve\<close>, \<open>load\<close>), \<open>fs.existsSync\<close>,
  \<open>JSON.parse\<close>, \<open>process.dlopen\<close>, \<open>process.cwd\<close>, and the two loader functions that were
  on \<open>Module\<close> before.  The original \<open>_load\<close> may run embedded modules, so it
  acts on the state of the bootstrap loader.  A packaged module's code is a tree of
  actions, as in \<open>BootLoader\<close>.
\<close>

section \<open>Values and state\<close>

text \<open>\<open>Fresh m\<close> is the \<open>exports\<close> object created for the module record at address \<open>m\<close>;
  \<open>Host v\<close> a value the runtime produced; \<open>Plain s\<close> any other value.\<close>

datatype bval = Fresh nat | Host jsval | Plain string

text \<open>A request argument: a string or anything else; the \<open>options.paths\<close> argument.\<close>

datatype js_request = Str string | NotStr

datatype js_paths = NoPaths | Paths "string list" | BadPaths

datatype bundle_prog =
    BDone
  | BThrow js_error
  | BRequire js_request "bval result \<Rightarrow> bundle_prog"
  | BResolve js_request js_paths "string result \<Rightarrow> bundle_prog"
  | BCreateRequire string "nat \<Rightarrow> bundle_prog"
  | BRequireFrom nat js_request "bval result \<Rightarrow> bundle_prog"
  | BResolveFrom nat js_request js_paths "string result \<Rightarrow> bundle_prog"
  | BGlobalRequire string "bval result \<Rightarrow> bundle_prog"
  | BSetExports bval bundle_prog
  | BDeleteCache string bundle_prog
  | BPoisonCache string bundle_prog

text \<open>What \<open>bundle.load\<close> returns: the text of a JSON module, or a compiled function.\<close>

datatype payload = Json string | Code bundle_prog

text \<open>An entry of \<open>Module._cache\<close> or of a \<open>children\<close> array.\<close>

datatype centry = CMod nat | CNull

record bundle_module =
  r_id :: string
  r_exports :: bval
  r_loaded :: bool
  r_filename :: "string option"
  r_path :: string
  r_paths :: "string list"
  r_parent :: "nat option"
  r_children :: "centry list option"
  r_identity :: "string option"

text \<open>Calls that leave the loader.\<close>

datatype host_event =
    Forward js_request
  | ForwardResolve js_request js_paths
  | Exists string
  | Dlopen string
  | LoadPayload string
  | RunBody string

record bundle_env =
  root :: string
  entry :: string
  natives :: "(string \<times> string) list"
  preloads :: "string list"
  blookup :: "string \<Rightarrow> string \<Rightarrow> string option"
  bresolve :: "string \<Rightarrow> string \<Rightarrow> string list option \<Rightarrow> string option"
  bload :: "string \<Rightarrow> payload result"
  existsSync :: "string \<Rightarrow> bool"
  jsonParse :: "string \<Rightarrow> bval result"
  dlopen :: "string \<Rightarrow> bval result"
  processCwd :: string
  debugBundle :: bool
  originalLoad :: "js_request \<Rightarrow> nat option \<Rightarrow> bool \<Rightarrow> boot_state \<Rightarrow> bval result \<times> boot_state"
  originalResolveFilename :: "js_request \<Rightarrow> nat option \<Rightarrow> js_paths \<Rightarrow> string result"
  bootEnv :: boot_env
  bootDepth :: nat

text \<open>The module records by address, \<open>Module._cache\<close>, \<open>process.mainModule\<close>, the lines
  written by \<open>logOutcome\<close>, the calls made (both newest first), and the bootstrap loader.\<close>

record bundle_state =
  heap :: "bundle_module list"
  mcache :: "string \<Rightarrow> centry option"
  mainModule :: "nat option"
  logLines :: "string list"
  hostCalls :: "host_event list"
  boot :: boot_state

type_synonym 'a bundle_step = "bundle_state \<Rightarrow> ('a result \<times> bundle_state) option"

definition call_host :: "host_event \<Rightarrow> bundle_state \<Rightarrow> bundle_state" where
  "call_host e st = st\<lparr>hostCalls := e # hostCalls st\<rparr>"

definition mod_at :: "bundle_state \<Rightarrow> nat \<Rightarrow> bundle_module option" where
  "mod_at st m = (if m < length (heap st) then Some (heap st ! m) else None)"

definition set_mod :: "nat \<Rightarrow> (bundle_module \<Rightarrow> bundle_module) \<Rightarrow> bundle_state \<Rightarrow> bundle_state" where
  "set_mod m f st = st\<lparr>heap := (heap st)[m := f (heap st ! m)]\<rparr>"

definition mod_exports :: "bundle_state \<Rightarrow> nat \<Rightarrow> bval" where
  "mod_exports st m = (case mod_at st m of Some r \<Rightarrow> r_exports r | None \<Rightarrow> Plain ''undefined'')"

section \<open>Pure helpers\<close>

definition nativeSidecars :: "(string \<times> string) list \<Rightarrow> string \<Rightarrow> string option" where
  "nativeSidecars ns = foldl (\<lambda>m n. m(fst n \<mapsto> snd n)) Map.empty ns"

definition isEmbedded :: "string \<Rightarrow> bool" where
  "isEmbedded request = isBuiltin request"

definition embeddedRequest :: "string \<Rightarrow> string" where
  "embeddedRequest request = (if js_slice request 0 5 = ''node:'' then request else ''node:'' @ request)"

definition includeSuggestion :: "bundle_env \<Rightarrow> string \<Rightarrow> string \<Rightarrow> bool \<Rightarrow> string option" where
  "includeSuggestion env request importer importerIsIdentity =
     (if char_at request 0 \<noteq> Some (CHR ''.'') then Some request
      else if \<not> importerIsIdentity then None
      else
        (let target = posix_join [posix_dirname importer, request];
             value = posix_relative (processCwd env) (posix_dirname (entry env)) target
         in if value = [] then None
            else Some (if char_at value 0 = Some (CHR ''.'') then value else ''./'' @ value)))"

definition isBareSpecifier :: "string \<Rightarrow> bool" where
  "isBareSpecifier request \<longleftrightarrow> char_at request 0 \<noteq> Some (CHR ''.'') \<and> \<not> posix_isAbsolute request"

definition notInBundle :: "bundle_env \<Rightarrow> string \<Rightarrow> string \<Rightarrow> bool \<Rightarrow> js_error" where
  "notInBundle env request importer importerIsIdentity =
     (let suggestion = includeSuggestion env request importer importerIsIdentity;
          nl = [CHR 0x0A];
          q = [CHR 0x27];
          caveat = (if suggestion \<noteq> None \<and> isBareSpecifier request
                    then nl @ ''  (--include resolves from the entry'' @ q @ ''s directory.)'' else [])
      in JsError (Some ''MODULE_NOT_FOUND'')
           (''Cannot find module '' @ q @ request @ q @ nl @
            ''  required by '' @ importer @ nl @
            (case suggestion of
               Some s \<Rightarrow> ''  Not in the bundle. Add it with:'' @ nl @ ''    --include='' @ s @ caveat
             | None \<Rightarrow> ''  Not in the bundle. Add it with --include, whose value is'' @ nl @
                       ''  resolved from the entry'' @ q @ ''s directory.'')))"

definition missingSidecar :: "bundle_env \<Rightarrow> string \<Rightarrow> string \<Rightarrow> js_error" where
  "missingSidecar env identity sidecar =
     (let nl = [CHR 0x0A]; q = [CHR 0x27]
      in JsError (Some ''MODULE_NOT_FOUND'')
           (''Cannot find module '' @ q @ identity @ q @ nl @
            ''  This bundle records a native addon, but its file is not beside the bundle.'' @ nl @
            ''  Expected: '' @ posix_join [root env, sidecar] @ nl @
            ''  Native addons ship alongside the container; copy it there.''))"

definition no_importer :: string where
  "no_importer = ''<no bundled importer>''"

definition logOutcome ::
  "bundle_env \<Rightarrow> string \<Rightarrow> string \<Rightarrow> string \<Rightarrow> string option \<Rightarrow> bundle_state \<Rightarrow> bundle_state" where
  "logOutcome env outcome request importer identity st =
     (if debugBundle env then
        st\<lparr>logLines :=
          (''[bundle] '' @ outcome @ '': '' @ request @ '' from '' @ importer @
           (case identity of Some i \<Rightarrow> '' -> '' @ i | None \<Rightarrow> [])) # logLines st\<rparr>
      else st)"

definition identity_of_filename :: "bundle_env \<Rightarrow> string \<Rightarrow> string option" where
  "identity_of_filename env filename =
     (let rel = posix_relative (processCwd env) (root env) filename in
      if rel = [] \<or> rel = ''..'' \<or> js_slice rel 0 3 = ''../'' \<or> char_at rel 0 = Some (CHR ''/'')
      then None else Some rel)"

definition identityOf :: "bundle_env \<Rightarrow> bundle_state \<Rightarrow> nat option \<Rightarrow> string option" where
  "identityOf env st parent =
     (case parent of
        None \<Rightarrow> None
      | Some m \<Rightarrow>
          (case mod_at st m of
             None \<Rightarrow> None
           | Some r \<Rightarrow>
               (case r_identity r of
                  Some i \<Rightarrow> Some i
                | None \<Rightarrow>
                    (case r_filename r of
                       None \<Rightarrow> None
                     | Some f \<Rightarrow> identity_of_filename env f))))"

section \<open>Children arrays\<close>

definition updateChildren :: "nat option \<Rightarrow> centry \<Rightarrow> bool \<Rightarrow> bundle_state \<Rightarrow> bundle_state" where
  "updateChildren parentMod child scan st =
     (case parentMod of
        None \<Rightarrow> st
      | Some p \<Rightarrow>
          (case mod_at st p of
             None \<Rightarrow> st
           | Some r \<Rightarrow>
               (case r_children r of
                  None \<Rightarrow> st
                | Some children \<Rightarrow>
                    if scan \<and> child \<in> set children then st
                    else set_mod p (\<lambda>r. r\<lparr>r_children := Some (children @ [child])\<rparr>) st)))"

definition removeChild :: "nat option \<Rightarrow> centry \<Rightarrow> bundle_state \<Rightarrow> bundle_state" where
  "removeChild parentMod child st =
     (case parentMod of
        None \<Rightarrow> st
      | Some p \<Rightarrow>
          (case mod_at st p of
             None \<Rightarrow> st
           | Some r \<Rightarrow>
               (case r_children r of
                  None \<Rightarrow> st
                | Some children \<Rightarrow>
                    set_mod p (\<lambda>r. r\<lparr>r_children := Some (remove1 child children)\<rparr>) st)))"

section \<open>Forwarding to the loader that was there before\<close>

definition forward_load ::
  "bundle_env \<Rightarrow> js_request \<Rightarrow> nat option \<Rightarrow> bool \<Rightarrow> bundle_state \<Rightarrow> bval result \<times> bundle_state" where
  "forward_load env request parent isMain st =
     (case originalLoad env request parent isMain (boot st) of
        (r, b) \<Rightarrow> (r, (call_host (Forward request) st)\<lparr>boot := b\<rparr>))"

definition forward_resolve ::
  "bundle_env \<Rightarrow> js_request \<Rightarrow> nat option \<Rightarrow> js_paths \<Rightarrow> bundle_state \<Rightarrow> string result \<times> bundle_state" where
  "forward_resolve env request parent paths st =
     (originalResolveFilename env request parent paths, call_host (ForwardResolve request paths) st)"

section \<open>Resolution\<close>

definition paths_list :: "js_paths \<Rightarrow> string list option" where
  "paths_list paths = (case paths of Paths ps \<Rightarrow> Some ps | _ \<Rightarrow> None)"

text \<open>The \<open>Module._resolveFilename\<close> wrapper.\<close>

definition bundle_resolveFilename ::
  "bundle_env \<Rightarrow> js_request \<Rightarrow> nat option \<Rightarrow> js_paths \<Rightarrow> bundle_state \<Rightarrow> string result \<times> bundle_state" where
  "bundle_resolveFilename env req parent paths st =
     (case req of
        NotStr \<Rightarrow> forward_resolve env req parent paths st
      | Str request \<Rightarrow>
          if paths = BadPaths \<or> normalizeRequirableId request \<noteq> None
          then forward_resolve env req parent paths st
          else
            (let hasPaths = (paths \<noteq> NoPaths);
                 importer = identityOf env st parent;
                 named = (case importer of None \<Rightarrow> no_importer | Some i \<Rightarrow> i)
             in
             if \<not> hasPaths \<and> importer = None then
               (if isEmbedded request
                then forward_resolve env (Str (embeddedRequest request)) parent paths st
                else (Inl (notInBundle env request named False), logOutcome env ''miss'' request named None st))
             else
               (case (if hasPaths then None else blookup env named request) of
                  Some target \<Rightarrow>
                    (Inr (posix_join [root env, target]), logOutcome env ''edge'' request named (Some target) st)
                | None \<Rightarrow>
                    (case bresolve env (case importer of None \<Rightarrow> [] | Some i \<Rightarrow> i) request (paths_list paths) of
                       Some resolved \<Rightarrow>
                         (Inr (posix_join [root env, resolved]),
                          logOutcome env ''resolve'' request named (Some resolved) st)
                     | None \<Rightarrow>
                         if isEmbedded request
                         then forward_resolve env (Str (embeddedRequest request)) parent paths st
                         else (Inl (notInBundle env request named (importer \<noteq> None)),
                               logOutcome env ''miss'' request named None st)))))"

definition invalid_arg_type :: "string \<Rightarrow> js_error" where
  "invalid_arg_type argument = JsError (Some ''ERR_INVALID_ARG_TYPE'') argument"

definition invalid_arg_value :: "string \<Rightarrow> js_error" where
  "invalid_arg_value argument = JsError (Some ''ERR_INVALID_ARG_VALUE'') argument"

text \<open>The \<open>resolve\<close> that \<open>makeRequireFunction\<close> builds.\<close>

definition baseResolve ::
  "bundle_env \<Rightarrow> nat \<Rightarrow> js_request \<Rightarrow> js_paths \<Rightarrow> bundle_state \<Rightarrow> string result \<times> bundle_state" where
  "baseResolve env m req paths st =
     (case req of
        NotStr \<Rightarrow> (Inl (invalid_arg_type ''request''), st)
      | Str _ \<Rightarrow> bundle_resolveFilename env req (Some m) paths st)"

text \<open>The \<open>resolve\<close> that a bundled module sees.\<close>

definition bundled_resolve ::
  "bundle_env \<Rightarrow> nat \<Rightarrow> string \<Rightarrow> js_request \<Rightarrow> js_paths \<Rightarrow> bundle_state \<Rightarrow> string result \<times> bundle_state" where
  "bundled_resolve env m identity req paths st =
     (case req of
        NotStr \<Rightarrow> baseResolve env m req paths st
      | Str request \<Rightarrow>
          if paths = BadPaths \<or> normalizeRequirableId request \<noteq> None
          then baseResolve env m req paths st
          else
            (case (if paths = NoPaths then blookup env identity request else None) of
               Some target \<Rightarrow>
                 (Inr (posix_join [root env, target]), logOutcome env ''edge'' request identity (Some target) st)
             | None \<Rightarrow>
                 (case bresolve env identity request (paths_list paths) of
                    Some viaContainer \<Rightarrow>
                      (Inr (posix_join [root env, viaContainer]),
                       logOutcome env ''resolve'' request identity (Some viaContainer) st)
                  | None \<Rightarrow>
                      if isEmbedded request
                      then baseResolve env m (Str (embeddedRequest request)) paths st
                      else (Inl (notInBundle env request identity True),
                            logOutcome env ''miss'' request identity None st))))"

section \<open>Loading\<close>

text \<open>The loader of one identity, with less nesting left, is a parameter \<open>load\<close> of what
  calls it: target, parent, whether it is the main module.\<close>

type_synonym load_fn = "string \<Rightarrow> nat option \<Rightarrow> bool \<Rightarrow> bval bundle_step"

text \<open>The \<open>Module._load\<close> wrapper.\<close>

definition bundle_load :: "load_fn \<Rightarrow> bundle_env \<Rightarrow> js_request \<Rightarrow> nat option \<Rightarrow> bool \<Rightarrow> bval bundle_step" where
  "bundle_load load env req parent isMain st =
     (case req of
        NotStr \<Rightarrow> Some (forward_load env req parent isMain st)
      | Str request \<Rightarrow>
          if normalizeRequirableId request \<noteq> None then Some (forward_load env req parent isMain st)
          else
            (case identityOf env st parent of
               None \<Rightarrow>
                 if isEmbedded request
                 then Some (forward_load env (Str (embeddedRequest request)) parent isMain st)
                 else Some (Inl (notInBundle env request no_importer False),
                            logOutcome env ''miss'' request no_importer None st)
             | Some importer \<Rightarrow>
                 (case blookup env importer request of
                    Some target \<Rightarrow>
                      load target parent False (logOutcome env ''edge'' request importer (Some target) st)
                  | None \<Rightarrow>
                      (case bresolve env importer request None of
                         Some resolved \<Rightarrow>
                           load resolved parent False (logOutcome env ''resolve'' request importer (Some resolved) st)
                       | None \<Rightarrow>
                           if isEmbedded request
                           then Some (forward_load env (Str (embeddedRequest request)) parent isMain st)
                           else Some (Inl (notInBundle env request importer True),
                                      logOutcome env ''miss'' request importer None st)))))"

text \<open>\<open>Module.prototype.require\<close>, called on the record at \<open>m\<close>.\<close>

definition module_require :: "load_fn \<Rightarrow> bundle_env \<Rightarrow> nat \<Rightarrow> js_request \<Rightarrow> bval bundle_step" where
  "module_require load env m req st =
     (case req of
        NotStr \<Rightarrow> Some (Inl (invalid_arg_type ''id''), st)
      | Str request \<Rightarrow>
          if request = [] then Some (Inl (invalid_arg_value ''id''), st)
          else bundle_load load env req (Some m) False st)"

text \<open>The module behind \<open>Module.createRequire(filename)\<close>.\<close>

definition createRequireFromPath :: "bundle_env \<Rightarrow> string \<Rightarrow> bundle_state \<Rightarrow> bundle_state" where
  "createRequireFromPath env filename st =
     (let proxyPath = createRequire_proxyPath filename in
      st\<lparr>heap := heap st @
        [\<lparr>r_id = proxyPath, r_exports = Fresh (length (heap st)), r_loaded = False,
          r_filename = Some proxyPath, r_path = posix_dirname proxyPath,
          r_paths = nodeModulePaths (processCwd env) (posix_dirname proxyPath),
          r_parent = None, r_children = Some [], r_identity = None\<rparr>]\<rparr>)"

text \<open>\<open>globalThis.require\<close>: the bootstrap loader.\<close>

definition global_require :: "bundle_env \<Rightarrow> string \<Rightarrow> bval bundle_step" where
  "global_require env name st =
     (case boot_require (bootDepth env) (bootEnv env) name (boot st) of
        None \<Rightarrow> None
      | Some (r, b) \<Rightarrow> Some (map_sum (\<lambda>e. e) Host r, st\<lparr>boot := b\<rparr>))"

text \<open>A packaged module's code at work: its own record is \<open>m\<close>, its identity \<open>i\<close>.\<close>

primrec exec_bundle ::
  "bundle_prog \<Rightarrow> load_fn \<Rightarrow> bundle_env \<Rightarrow> nat \<Rightarrow> string \<Rightarrow> unit bundle_step" where
  "exec_bundle BDone load env m i st = Some (Inr (), st)"
| "exec_bundle (BThrow e) load env m i st = Some (Inl e, st)"
| "exec_bundle (BRequire req k) load env m i st =
     (case module_require load env m req st of
        None \<Rightarrow> None | Some (r, st') \<Rightarrow> exec_bundle (k r) load env m i st')"
| "exec_bundle (BResolve req ps k) load env m i st =
     (case bundled_resolve env m i req ps st of (r, st') \<Rightarrow> exec_bundle (k r) load env m i st')"
| "exec_bundle (BCreateRequire f k) load env m i st =
     exec_bundle (k (length (heap st))) load env m i (createRequireFromPath env f st)"
| "exec_bundle (BRequireFrom h req k) load env m i st =
     (case module_require load env h req st of
        None \<Rightarrow> None | Some (r, st') \<Rightarrow> exec_bundle (k r) load env m i st')"
| "exec_bundle (BResolveFrom h req ps k) load env m i st =
     (case baseResolve env h req ps st of (r, st') \<Rightarrow> exec_bundle (k r) load env m i st')"
| "exec_bundle (BGlobalRequire name k) load env m i st =
     (case global_require env name st of
        None \<Rightarrow> None | Some (r, st') \<Rightarrow> exec_bundle (k r) load env m i st')"
| "exec_bundle (BSetExports v p) load env m i st =
     exec_bundle p load env m i (set_mod m (\<lambda>r. r\<lparr>r_exports := v\<rparr>) st)"
| "exec_bundle (BDeleteCache f p) load env m i st =
     exec_bundle p load env m i (st\<lparr>mcache := (mcache st)(f := None)\<rparr>)"
| "exec_bundle (BPoisonCache f p) load env m i st =
     exec_bundle p load env m i (st\<lparr>mcache := (mcache st)(f \<mapsto> CNull)\<rparr>)"

text \<open>The record \<open>loadIdentity\<close> builds, published in the parent's children, in
  \<open>Module._cache\<close> and, for the entry, as the main module, before the body runs.\<close>

definition new_record :: "bundle_env \<Rightarrow> string \<Rightarrow> nat option \<Rightarrow> bool \<Rightarrow> nat \<Rightarrow> bundle_module" where
  "new_record env target parentMod isMain m =
     (let filename = posix_join [root env, target]; dirname = posix_dirname filename in
      \<lparr>r_id = (if isMain then ''.'' else filename), r_exports = Fresh m, r_loaded = False,
       r_filename = Some filename, r_path = dirname, r_paths = nodeModulePaths (processCwd env) dirname,
       r_parent = parentMod, r_children = Some [], r_identity = Some target\<rparr>)"

definition publish :: "bundle_env \<Rightarrow> string \<Rightarrow> nat option \<Rightarrow> bool \<Rightarrow> bundle_state \<Rightarrow> bundle_state" where
  "publish env target parentMod isMain st =
     (let filename = posix_join [root env, target];
          m = length (heap st);
          st = st\<lparr>heap := heap st @ [new_record env target parentMod isMain m]\<rparr>;
          st = updateChildren parentMod (CMod m) False st;
          st = st\<lparr>mcache := (mcache st)(filename \<mapsto> CMod m)\<rparr>
      in if isMain then st\<lparr>mainModule := Some m\<rparr> else st)"

definition unpublish :: "string \<Rightarrow> nat option \<Rightarrow> nat \<Rightarrow> bundle_state \<Rightarrow> bundle_state" where
  "unpublish filename parentMod m st =
     removeChild parentMod (CMod m) (st\<lparr>mcache := (mcache st)(filename := None)\<rparr>)"

text \<open>The \<open>try\<close> block: a native addon, a JSON module, or code.\<close>

definition run_payload :: "load_fn \<Rightarrow> bundle_env \<Rightarrow> string \<Rightarrow> nat \<Rightarrow> unit bundle_step" where
  "run_payload load env target m st =
     (case nativeSidecars (natives env) target of
        Some sidecar \<Rightarrow>
          (let addonPath = posix_join [root env, sidecar];
               st = call_host (Exists addonPath) st
           in if \<not> existsSync env addonPath then Some (Inl (missingSidecar env target sidecar), st)
              else
                (let st = call_host (Dlopen addonPath)
                            (logOutcome env ''native'' sidecar target (Some target) st)
                 in case dlopen env addonPath of
                      Inl e \<Rightarrow> Some (Inl e, st)
                    | Inr v \<Rightarrow> Some (Inr (), set_mod m (\<lambda>r. r\<lparr>r_exports := v\<rparr>) st)))
      | None \<Rightarrow>
          (let st = call_host (LoadPayload target) st in
           case bload env target of
             Inl e \<Rightarrow> Some (Inl e, st)
           | Inr (Json text) \<Rightarrow>
               (case jsonParse env text of
                  Inl e \<Rightarrow> Some (Inl e, st)
                | Inr v \<Rightarrow> Some (Inr (), set_mod m (\<lambda>r. r\<lparr>r_exports := v\<rparr>) st))
           | Inr (Code body) \<Rightarrow> exec_bundle body load env m target (call_host (RunBody target) st)))"

definition null_exports_error :: js_error where
  "null_exports_error = JsError None ''Cannot read properties of null''"

definition cached_exports :: "bundle_state \<Rightarrow> centry \<Rightarrow> bval result" where
  "cached_exports st e = (case e of CMod m \<Rightarrow> Inr (mod_exports st m) | CNull \<Rightarrow> Inl null_exports_error)"

definition loadIdentity_body :: "load_fn \<Rightarrow> bundle_env \<Rightarrow> load_fn" where
  "loadIdentity_body load env target parentMod isMain st =
     (let filename = posix_join [root env, target] in
      case mcache st filename of
        Some cached \<Rightarrow>
          (let st = updateChildren parentMod cached True st in Some (cached_exports st cached, st))
      | None \<Rightarrow>
          (let m = length (heap st) in
           case run_payload load env target m (publish env target parentMod isMain st) of
             None \<Rightarrow> None
           | Some (Inl e, st') \<Rightarrow> Some (Inl e, unpublish filename parentMod m st')
           | Some (Inr _, st') \<Rightarrow>
               (let st' = set_mod m (\<lambda>r. r\<lparr>r_loaded := True\<rparr>) st' in Some (Inr (mod_exports st' m), st'))))"

primrec loadIdentity :: "nat \<Rightarrow> bundle_env \<Rightarrow> load_fn" where
  "loadIdentity 0 env = (\<lambda>target parentMod isMain st. None)"
| "loadIdentity (Suc depth) env = loadIdentity_body (loadIdentity depth env) env"

section \<open>Installing and running\<close>

definition installBundleLoader :: "bundle_state \<Rightarrow> bundle_state" where
  "installBundleLoader st = st\<lparr>boot := closeDiskModuleLoading (boot st)\<rparr>"

fun run_preloads :: "load_fn \<Rightarrow> string list \<Rightarrow> unit bundle_step" where
  "run_preloads load [] st = Some (Inr (), st)"
| "run_preloads load (p # ps) st =
     (case load p None False st of
        None \<Rightarrow> None
      | Some (Inl e, st') \<Rightarrow> Some (Inl e, st')
      | Some (Inr _, st') \<Rightarrow> run_preloads load ps st')"

definition run_bundle :: "nat \<Rightarrow> bundle_env \<Rightarrow> bval bundle_step" where
  "run_bundle depth env st =
     (case run_preloads (loadIdentity depth env) (preloads env) st of
        None \<Rightarrow> None
      | Some (Inl e, st') \<Rightarrow> Some (Inl e, st')
      | Some (Inr _, st') \<Rightarrow> loadIdentity depth env (entry env) None True st')"

end
