(* ===== verification/BundleLoaderProps.thy ===== *)
theory BundleLoaderProps
  imports BundleLoader
begin

text \<open>
  Properties of the bundle loader.  As for the bootstrap loader, a locale states what the
  primitive steps promise about a preorder on states, and its lemmas carry that to module
  bodies, to \<open>loadIdentity\<close> at every depth and to \<open>run\<close>; it is interpreted for containment,
  for well-formedness of the records and for the stability of the cache.
\<close>

section \<open>Programs that leave the cache alone\<close>

primrec keeps_cache :: "bundle_prog \<Rightarrow> bool" where
  "keeps_cache BDone = True"
| "keeps_cache (BThrow e) = True"
| "keeps_cache (BRequire req k) = (\<forall>x. keeps_cache (k x))"
| "keeps_cache (BResolve req ps k) = (\<forall>x. keeps_cache (k x))"
| "keeps_cache (BCreateRequire f k) = (\<forall>x. keeps_cache (k x))"
| "keeps_cache (BRequireFrom h req k) = (\<forall>x. keeps_cache (k x))"
| "keeps_cache (BResolveFrom h req ps k) = (\<forall>x. keeps_cache (k x))"
| "keeps_cache (BGlobalRequire n k) = (\<forall>x. keeps_cache (k x))"
| "keeps_cache (BSetExports v p) = keeps_cache p"
| "keeps_cache (BDeleteCache f p) = False"
| "keeps_cache (BPoisonCache f p) = False"

definition all_keep :: "bundle_env \<Rightarrow> bool" where
  "all_keep env \<longleftrightarrow> (\<forall>t body. bload env t = Inr (Code body) \<longrightarrow> keeps_cache body)"

text \<open>What may be handed to the loader that was there before: a non-string, which that loader
  rejects, or a name that it answers as a builtin.\<close>

definition forwardable :: "js_request \<Rightarrow> bool" where
  "forwardable req = (case req of NotStr \<Rightarrow> True | Str r \<Rightarrow> normalizeRequirableId r \<noteq> None)"

lemma forwardable_simps [simp]:
  "forwardable NotStr" "forwardable (Str r) \<longleftrightarrow> normalizeRequirableId r \<noteq> None"
  by (simp_all add: forwardable_def)

text \<open>The spelling chosen by \<open>embeddedRequest\<close> is always one that is answered as a builtin.\<close>

lemma embeddedRequest_forwardable: "isEmbedded r \<Longrightarrow> forwardable (Str (embeddedRequest r))"
proof -
  assume e: "isEmbedded r"
  show ?thesis
  proof (cases "js_slice r 0 5 = ''node:''")
    case True
    then have s: "starts_with r node_scheme"
      by (simp add: starts_with_def node_scheme_def eval_nat_numeral)
    then have "r \<notin> set allRequirableIds" using builtinIds_no_scheme by blast
    with e s have "normalizeRequirableId r \<noteq> None"
      by (auto simp: isEmbedded_def isBuiltin_def normalizeRequirableId_def)
    with True show ?thesis by (simp add: embeddedRequest_def)
  next
    case False
    then have "\<not> starts_with r node_scheme"
      by (simp add: starts_with_def node_scheme_def eval_nat_numeral)
    with e have "r \<in> set allRequirableIds" by (simp add: isEmbedded_def isBuiltin_def)
    with False show ?thesis using normalizeRequirableId_bare [of r] by (simp add: embeddedRequest_def)
  qed
qed

lemma loadIdentity_uncachedE:
  assumes "mcache st (posix_join [root env, t]) = None"
    and "loadIdentity (Suc d) env t p im st = Some (r, st')"
  obtains e st1 where
      "run_payload (loadIdentity d env) env t (length (heap st)) (publish env t p im st) = Some (Inl e, st1)"
      "r = Inl e" "st' = unpublish (posix_join [root env, t]) p (length (heap st)) st1"
    | st1 where
      "run_payload (loadIdentity d env) env t (length (heap st)) (publish env t p im st) = Some (Inr (), st1)"
      "st' = set_mod (length (heap st)) (\<lambda>r. r\<lparr>r_loaded := True\<rparr>) st1"
      "r = Inr (mod_exports st' (length (heap st)))"
  using assms(2) unfolding loadIdentity.simps loadIdentity_body_def Let_def assms(1) option.case(1)
  by (auto split: option.splits sum.splits)

section \<open>The primitive steps and what is built from them\<close>

locale bundle_preorder =
  fixes env :: bundle_env
    and R :: "bundle_state \<Rightarrow> bundle_state \<Rightarrow> bool"
  assumes R_refl: "R st st"
    and R_trans: "R a b \<Longrightarrow> R b c \<Longrightarrow> R a c"
    and R_log: "R st (logOutcome env oc rq imp tg st)"
    and R_forward_load: "forwardable req \<Longrightarrow> R st (snd (forward_load env req p im st))"
    and R_forward_resolve: "forwardable req \<or> ps = BadPaths \<Longrightarrow> R st (snd (forward_resolve env req p ps st))"
    and R_update: "mcache st f = Some ce \<Longrightarrow> R st (updateChildren p ce True st)"
    and R_create: "R st (createRequireFromPath env f st)"
    and R_global: "global_require env n st = Some (x, st') \<Longrightarrow> R st st'"
    and R_exports: "R st (set_mod m (\<lambda>r. r\<lparr>r_exports := v\<rparr>) st)"
    and R_loaded: "R st (set_mod m (\<lambda>r. r\<lparr>r_loaded := True\<rparr>) st)"
    and R_delete: "\<not> all_keep env \<Longrightarrow> R st (st\<lparr>mcache := (mcache st)(f := None)\<rparr>)"
    and R_poison: "\<not> all_keep env \<Longrightarrow> R st (st\<lparr>mcache := (mcache st)(f \<mapsto> CNull)\<rparr>)"
    and R_native: "nativeSidecars (natives env) t = Some s \<Longrightarrow>
      R st (call_host (Exists (posix_join [root env, s])) st) \<and>
      R st (call_host (Dlopen (posix_join [root env, s])) st)"
    and R_payload: "R st (call_host (LoadPayload t) st)" "R st (call_host (RunBody t) st)"
    and R_publish: "mcache st (posix_join [root env, t]) = None \<Longrightarrow> R st (publish env t p im st)"
    and R_unpublish: "mcache st (posix_join [root env, t]) = None \<Longrightarrow> R (publish env t p im st) st' \<Longrightarrow>
      R st (unpublish (posix_join [root env, t]) p (length (heap st)) st')"
begin

definition good_step :: "'a bundle_step \<Rightarrow> bool" where
  "good_step f \<longleftrightarrow> (\<forall>st r st'. f st = Some (r, st') \<longrightarrow> R st st')"

definition good_load :: "load_fn \<Rightarrow> bool" where
  "good_load load \<longleftrightarrow> (\<forall>t p im. good_step (load t p im))"

lemma good_stepI: "(\<And>st r st'. f st = Some (r, st') \<Longrightarrow> R st st') \<Longrightarrow> good_step f"
  by (simp add: good_step_def)

lemma good_stepD: "good_step f \<Longrightarrow> f st = Some (r, st') \<Longrightarrow> R st st'"
  by (auto simp: good_step_def)

lemma good_loadD: "good_load load \<Longrightarrow> load t p im st = Some (r, st') \<Longrightarrow> R st st'"
  by (auto simp: good_load_def good_step_def)

lemma R_resolveFilename: "R st (snd (bundle_resolveFilename env req p ps st))"
  by (cases req)
    (auto simp: bundle_resolveFilename_def Let_def R_log R_forward_resolve
      embeddedRequest_forwardable [simplified] split: option.split)

lemma R_baseResolve: "R st (snd (baseResolve env m req ps st))"
  by (cases req) (simp_all add: baseResolve_def R_refl R_resolveFilename)

lemma R_bundled_resolve: "R st (snd (bundled_resolve env m i req ps st))"
  by (cases req) (auto simp: bundled_resolve_def R_log R_baseResolve split: option.split)

lemma good_bundle_load:
  assumes "good_load load" shows "good_step (bundle_load load env req p im)"
proof (rule good_stepI)
  fix st r st' assume l: "bundle_load load env req p im st = Some (r, st')"
  have fw: "forwardable q \<Longrightarrow> forward_load env q p im st = (r, st') \<Longrightarrow> R st st'" for q
    using R_forward_load [of q st p im] by simp
  have ld: "load t p False (logOutcome env o' q i x st) = Some (r, st') \<Longrightarrow> R st st'" for t o' q i x
    using good_loadD [OF assms] R_log R_trans by blast
  show "R st st'"
  proof (cases req)
    case NotStr
    with l show ?thesis using fw [of NotStr] by (simp add: bundle_load_def)
  next
    case (Str q)
    note fe = fw [OF embeddedRequest_forwardable]
    have fq: "normalizeRequirableId q = Some y \<Longrightarrow> forward_load env (Str q) p im st = (r, st') \<Longrightarrow> R st st'" for y
      by (rule fw) simp_all
    from l Str show ?thesis
      by (auto simp: bundle_load_def R_log split: if_splits option.splits dest: fq fe ld)
  qed
qed

lemma good_module_require: "good_load load \<Longrightarrow> good_step (module_require load env m req)"
  using good_bundle_load
  by (auto simp: good_step_def module_require_def R_refl split: js_request.splits if_splits)

text \<open>Sequencing.\<close>

lemma good_bind:
  assumes "\<And>st. f st = (case a st of None \<Rightarrow> None | Some (r, st') \<Rightarrow> g r st')"
    and "good_step a" "\<And>x. good_step (g x)"
  shows "good_step f"
proof (rule good_stepI)
  fix st r st' assume "f st = Some (r, st')"
  then obtain x st1 where "a st = Some (x, st1)" "g x st1 = Some (r, st')"
    using assms(1) [of st] by (auto split: option.splits)
  then show "R st st'" using assms(2,3) by (blast dest: good_stepD intro: R_trans)
qed

lemma good_bind_pure:
  assumes "\<And>st. f st = (case a st of (r, st') \<Rightarrow> g r st')"
    and "\<And>st. R st (snd (a st))" "\<And>x. good_step (g x)"
  shows "good_step f"
proof (rule good_stepI)
  fix st r st' assume f: "f st = Some (r, st')"
  obtain x st1 where x: "a st = (x, st1)" by force
  with f have "g x st1 = Some (r, st')" using assms(1) [of st] by simp
  moreover have "R st st1" using assms(2) [of st] x by simp
  ultimately show "R st st'" using assms(3) by (blast dest: good_stepD intro: R_trans)
qed

lemma good_pre:
  assumes "\<And>st. f st = g (h st)" "\<And>st. R st (h st)" "good_step g"
  shows "good_step f"
  unfolding good_step_def assms(1) using assms(2) good_stepD [OF assms(3)] R_trans by blast

lemma good_global_require: "good_step (global_require env n)"
  by (rule good_stepI) (rule R_global)

lemma good_exec_bundle:
  assumes "good_load load"
  shows "(all_keep env \<longrightarrow> keeps_cache p) \<Longrightarrow> good_step (exec_bundle p load env m i)"
proof (induction p)
  case (BRequire req k)
  then show ?case
    by (intro good_bind [OF exec_bundle.simps(3)] good_module_require assms) auto
next
  case (BResolve req ps k)
  then show ?case by (intro good_bind_pure [OF exec_bundle.simps(4)] R_bundled_resolve) auto
next
  case (BCreateRequire f k)
  show ?case
  proof (rule good_bind_pure)
    show "exec_bundle (BCreateRequire f k) load env m i st =
      (case (length (heap st), createRequireFromPath env f st) of (r, st') \<Rightarrow> exec_bundle (k r) load env m i st')" for st
      by simp
  qed (use BCreateRequire R_create in auto)
next
  case (BRequireFrom h req k)
  then show ?case by (intro good_bind [OF exec_bundle.simps(6)] good_module_require assms) auto
next
  case (BResolveFrom h req ps k)
  then show ?case by (intro good_bind_pure [OF exec_bundle.simps(7)] R_baseResolve) auto
next
  case (BGlobalRequire n k)
  then show ?case by (intro good_bind [OF exec_bundle.simps(8)] good_global_require) auto
next
  case (BSetExports v p)
  then show ?case by (intro good_pre [where f = "exec_bundle (BSetExports v p) load env m i" and g = "exec_bundle p load env m i" and h = "set_mod m (\<lambda>r. r\<lparr>r_exports := v\<rparr>)"] R_exports) simp_all
next
  case (BDeleteCache f p)
  then show ?case
    by (intro good_pre [where f = "exec_bundle (BDeleteCache f p) load env m i" and g = "exec_bundle p load env m i"
          and h = "\<lambda>st. st\<lparr>mcache := (mcache st)(f := None)\<rparr>"] R_delete) simp_all
next
  case (BPoisonCache f p)
  then show ?case
    by (intro good_pre [where f = "exec_bundle (BPoisonCache f p) load env m i" and g = "exec_bundle p load env m i"
          and h = "\<lambda>st. st\<lparr>mcache := (mcache st)(f \<mapsto> CNull)\<rparr>"] R_poison) simp_all
qed (auto simp: good_step_def R_refl)

lemma good_run_payload:
  assumes "good_load load" shows "good_step (run_payload load env t m)"
proof (rule good_stepI)
  fix st r st' assume l: "run_payload load env t m st = Some (r, st')"
  show "R st st'"
  proof (cases "nativeSidecars (natives env) t")
    case (Some s)
    let ?a = "posix_join [root env, s]"
    let ?st1 = "call_host (Exists ?a) st"
    let ?st2 = "logOutcome env ''native'' s t (Some t) ?st1"
    let ?st3 = "call_host (Dlopen ?a) ?st2"
    have R: "R st ?st1" "R ?st1 ?st2" "R ?st2 ?st3" using R_native [OF Some] R_log by blast+
    then have "R st ?st3" by (blast intro: R_trans)
    moreover have "R ?st3 (set_mod m (\<lambda>r. r\<lparr>r_exports := v\<rparr>) ?st3)" for v by (rule R_exports)
    moreover from l Some have "st' = ?st1 \<or> st' = ?st3 \<or> (\<exists>v. st' = set_mod m (\<lambda>r. r\<lparr>r_exports := v\<rparr>) ?st3)"
      by (auto simp: run_payload_def Let_def split: if_splits sum.splits)
    ultimately show ?thesis using R(1) R_trans by blast
  next
    case None
    let ?st1 = "call_host (LoadPayload t) st"
    have "R st ?st1" by (rule R_payload)
    moreover have "R ?st1 (set_mod m (\<lambda>r. r\<lparr>r_exports := v\<rparr>) ?st1)" for v by (rule R_exports)
    moreover have "R ?st1 b" if "bload env t = Inr (Code body)"
      "exec_bundle body load env m t (call_host (RunBody t) ?st1) = Some (r, b)" for body b
      using good_stepD [OF good_exec_bundle [OF assms, of body] that(2)] that(1)
      by (auto simp: all_keep_def intro: R_trans [OF R_payload(2)])
    moreover from l None have "st' = ?st1 \<or> (\<exists>v. st' = set_mod m (\<lambda>r. r\<lparr>r_exports := v\<rparr>) ?st1)
      \<or> (\<exists>body. bload env t = Inr (Code body) \<and> exec_bundle body load env m t (call_host (RunBody t) ?st1) = Some (r, st'))"
      by (auto simp: run_payload_def Let_def split: sum.splits payload.splits)
    ultimately show ?thesis using R_trans by blast
  qed
qed

lemma good_loadIdentity: "good_load (loadIdentity d env)"
proof (induction d)
  case (Suc d)
  have "R st st'" if l: "loadIdentity (Suc d) env t p im st = Some (r, st')" for t p im st r st'
  proof (cases "mcache st (posix_join [root env, t])")
    case (Some c)
    with l show ?thesis using R_update [OF Some]
      by (auto simp: loadIdentity_body_def Let_def)
  next
    case None
    obtain x st1 where
      x: "run_payload (loadIdentity d env) env t (length (heap st)) (publish env t p im st) = Some (x, st1)"
      and st': "st' = unpublish (posix_join [root env, t]) p (length (heap st)) st1
        \<or> st' = set_mod (length (heap st)) (\<lambda>r. r\<lparr>r_loaded := True\<rparr>) st1"
      by (rule loadIdentity_uncachedE [OF None l]) blast+
    have R1: "R (publish env t p im st) st1" using good_stepD [OF good_run_payload [OF Suc.IH] x] .
    note R2 = R_unpublish [OF None R1] and R3 = R_trans [OF R_trans [OF R_publish [OF None] R1] R_loaded]
    from st' show ?thesis using R2 R3 by blast
  qed
  then show ?case by (simp add: good_load_def good_step_def del: loadIdentity.simps)
qed (simp add: good_load_def good_step_def)

lemma loadIdentity_R: "loadIdentity d env t p im st = Some (r, st') \<Longrightarrow> R st st'"
  using good_loadD [OF good_loadIdentity] .

lemma good_run_preloads: "good_load load \<Longrightarrow> good_step (run_preloads load ps)"
proof (induction ps)
  case (Cons a ps)
  show ?case
  proof (rule good_bind)
    show "run_preloads load (a # ps) st = (case load a None False st of None \<Rightarrow> None
      | Some (r, st') \<Rightarrow> (case r of Inl e \<Rightarrow> Some (Inl e, st') | Inr _ \<Rightarrow> run_preloads load ps st'))" for st
      by (simp split: option.split sum.split)
    show "good_step (load a None False)" using Cons.prems by (simp add: good_load_def)
    show "good_step (\<lambda>st'. case x of Inl e \<Rightarrow> Some (Inl e, st') | Inr u \<Rightarrow> run_preloads load ps st')" for x
      using Cons.IH [OF Cons.prems] by (cases x) (auto simp: good_step_def R_refl)
  qed
qed (simp add: good_step_def R_refl)

lemma run_bundle_R: "run_bundle d env st = Some (r, st') \<Longrightarrow> R st st'"
proof -
  assume "run_bundle d env st = Some (r, st')"
  then obtain x st1 where "run_preloads (loadIdentity d env) (preloads env) st = Some (x, st1)"
    and "st' = st1 \<or> loadIdentity d env (entry env) None True st1 = Some (r, st')"
    by (auto simp: run_bundle_def split: option.splits sum.splits)
  then show ?thesis using good_stepD [OF good_run_preloads [OF good_loadIdentity]] loadIdentity_R R_trans
    by blast
qed

end

section \<open>What each step touches\<close>

lemma logOutcome_fields [simp]:
  "heap (logOutcome env oc r i t st) = heap st" "mcache (logOutcome env oc r i t st) = mcache st"
  "hostCalls (logOutcome env oc r i t st) = hostCalls st" "boot (logOutcome env oc r i t st) = boot st"
  "mainModule (logOutcome env oc r i t st) = mainModule st"
  by (simp_all add: logOutcome_def)

lemma call_host_fields [simp]:
  "heap (call_host e st) = heap st" "mcache (call_host e st) = mcache st"
  "hostCalls (call_host e st) = e # hostCalls st" "boot (call_host e st) = boot st"
  "mainModule (call_host e st) = mainModule st"
  by (simp_all add: call_host_def)

lemma set_mod_fields [simp]:
  "length (heap (set_mod m f st)) = length (heap st)" "mcache (set_mod m f st) = mcache st"
  "hostCalls (set_mod m f st) = hostCalls st" "boot (set_mod m f st) = boot st"
  "mainModule (set_mod m f st) = mainModule st"
  by (simp_all add: set_mod_def)

lemma updateChildren_fields [simp]:
  "length (heap (updateChildren p c s st)) = length (heap st)" "mcache (updateChildren p c s st) = mcache st"
  "hostCalls (updateChildren p c s st) = hostCalls st" "boot (updateChildren p c s st) = boot st"
  "mainModule (updateChildren p c s st) = mainModule st"
  by (simp_all add: updateChildren_def split: option.split)

lemma removeChild_fields [simp]:
  "length (heap (removeChild p c st)) = length (heap st)" "mcache (removeChild p c st) = mcache st"
  "hostCalls (removeChild p c st) = hostCalls st" "boot (removeChild p c st) = boot st"
  by (simp_all add: removeChild_def split: option.split)

lemma forward_fields [simp]:
  "heap (snd (forward_load env req p im st)) = heap st"
  "mcache (snd (forward_load env req p im st)) = mcache st"
  "hostCalls (snd (forward_load env req p im st)) = Forward req # hostCalls st"
  "boot (snd (forward_load env req p im st)) = snd (originalLoad env req p im (boot st))"
  "heap (snd (forward_resolve env req p ps st)) = heap st"
  "mcache (snd (forward_resolve env req p ps st)) = mcache st"
  "hostCalls (snd (forward_resolve env req p ps st)) = ForwardResolve req ps # hostCalls st"
  "boot (snd (forward_resolve env req p ps st)) = boot st"
  by (simp_all add: forward_load_def forward_resolve_def split: prod.split)

lemma create_fields [simp]:
  "length (heap (createRequireFromPath env f st)) = Suc (length (heap st))"
  "mcache (createRequireFromPath env f st) = mcache st"
  "hostCalls (createRequireFromPath env f st) = hostCalls st" "boot (createRequireFromPath env f st) = boot st"
  by (simp_all add: createRequireFromPath_def Let_def)

lemma publish_fields [simp]:
  "length (heap (publish env t p im st)) = Suc (length (heap st))"
  "mcache (publish env t p im st) = (mcache st)(posix_join [root env, t] \<mapsto> CMod (length (heap st)))"
  "hostCalls (publish env t p im st) = hostCalls st" "boot (publish env t p im st) = boot st"
  by (simp_all add: publish_def Let_def)

lemma unpublish_fields [simp]:
  "length (heap (unpublish f p m st)) = length (heap st)"
  "mcache (unpublish f p m st) = (mcache st)(f := None)"
  "hostCalls (unpublish f p m st) = hostCalls st" "boot (unpublish f p m st) = boot st"
  by (simp_all add: unpublish_def)

lemma global_require_fields:
  assumes "global_require env n st = Some (x, st')"
  shows "heap st' = heap st" "mcache st' = mcache st" "hostCalls st' = hostCalls st"
    and "\<exists>r. boot_require (bootDepth env) (bootEnv env) n (boot st) = Some (r, boot st')"
  using assms by (auto simp: global_require_def split: option.splits)

section \<open>Containment\<close>

text \<open>The calls a closed world may make.\<close>

definition host_ok :: "bundle_env \<Rightarrow> host_event \<Rightarrow> bool" where
  "host_ok env e =
     (case e of
        Forward req \<Rightarrow> forwardable req
      | ForwardResolve req ps \<Rightarrow> forwardable req \<or> ps = BadPaths
      | Exists f \<Rightarrow> f \<in> (\<lambda>n. posix_join [root env, snd n]) ` set (natives env)
      | Dlopen f \<Rightarrow> f \<in> (\<lambda>n. posix_join [root env, snd n]) ` set (natives env)
      | LoadPayload t \<Rightarrow> True
      | RunBody t \<Rightarrow> True)"

text \<open>What the loader relies on: the original \<open>_load\<close>, given a request it answers as a builtin or
  rejects, does not make the bootstrap loader open a disk that is closed.\<close>

definition original_sealed :: "bundle_env \<Rightarrow> bool" where
  "original_sealed env \<longleftrightarrow>
     (\<forall>req p im b. forwardable req \<longrightarrow> sealed_le b (snd (originalLoad env req p im b)))"

definition contained_le :: "bundle_env \<Rightarrow> bundle_state \<Rightarrow> bundle_state \<Rightarrow> bool" where
  "contained_le env a b \<longleftrightarrow>
     (original_sealed env \<longrightarrow> sealed_le (boot a) (boot b)) \<and>
     (\<exists>new. hostCalls b = new @ hostCalls a \<and> list_all (host_ok env) new)"

lemma contained_same: "hostCalls b = hostCalls a \<Longrightarrow> boot b = boot a \<Longrightarrow> contained_le env a b"
  by (simp add: contained_le_def sealed.R_refl)

lemma contained_call:
  "hostCalls b = e # hostCalls a \<Longrightarrow> host_ok env e \<Longrightarrow> (original_sealed env \<longrightarrow> sealed_le (boot a) (boot b))
   \<Longrightarrow> contained_le env a b"
  unfolding contained_le_def by (rule conjI, assumption, rule exI [of _ "[e]"]) simp

lemma nativeSidecars_in: "nativeSidecars ns t = Some s \<Longrightarrow> (t, s) \<in> set ns"
proof -
  have "foldl (\<lambda>m n. m(fst n \<mapsto> snd n)) m0 ns t = Some s \<Longrightarrow> m0 t = Some s \<or> (t, s) \<in> set ns" for m0
  proof (induction ns arbitrary: m0)
    case (Cons n ns)
    have "(m0(fst n \<mapsto> snd n)) t = Some s \<or> (t, s) \<in> set ns"
      using Cons.prems by (intro Cons.IH) simp
    then show ?case by (cases n) (auto split: if_splits)
  qed simp
  from this [of Map.empty] show "nativeSidecars ns t = Some s \<Longrightarrow> ?thesis" by (simp add: nativeSidecars_def)
qed

lemma contained_trans:
  assumes "contained_le env a b" "contained_le env b c" shows "contained_le env a c"
proof -
  obtain n1 n2 where "hostCalls b = n1 @ hostCalls a" "list_all (host_ok env) n1"
    "hostCalls c = n2 @ hostCalls b" "list_all (host_ok env) n2"
    using assms unfolding contained_le_def by blast
  then have "\<exists>new. hostCalls c = new @ hostCalls a \<and> list_all (host_ok env) new"
    by (intro exI [of _ "n2 @ n1"]) simp
  then show ?thesis using assms sealed.R_trans unfolding contained_le_def by blast
qed

interpretation contained: bundle_preorder env "contained_le env" for env
proof (unfold_locales, goal_cases)
  case (2 a b c) then show ?case by (rule contained_trans)
next
  case (4 req st p im)
  then show ?case by (intro contained_call) (auto simp: host_ok_def original_sealed_def)
next
  case (5 req ps st p)
  then show ?case by (intro contained_call) (auto simp: host_ok_def sealed.R_refl)
next
  case (8 n st x st')
  with global_require_fields [OF 8] show ?case
    by (auto simp: contained_le_def intro: sealed.boot_require_R)
next
  case (13 t s st)
  have "posix_join [root env, s] \<in> (\<lambda>n. posix_join [root env, snd n]) ` set (natives env)"
    using nativeSidecars_in [OF 13] by force
  then have "host_ok env (Exists (posix_join [root env, s]))" "host_ok env (Dlopen (posix_join [root env, s]))"
    by (simp_all add: host_ok_def)
  then show ?case by (auto intro!: contained_call simp: sealed.R_refl)
next
  case (14 st t) show ?case by (rule contained_call [where e = "LoadPayload t"]) (simp_all add: host_ok_def sealed.R_refl)
next
  case (15 st t) show ?case by (rule contained_call [where e = "RunBody t"]) (simp_all add: host_ok_def sealed.R_refl)
next
  case (17 st t p im st') then show ?case by (simp add: contained_le_def)
qed (auto intro: contained_same)

section \<open>Well-formed records\<close>

text \<open>Children arrays hold existing records, each once; a cache entry is a record whose filename is
  the key and is the join of the root with the record's identity.\<close>

definition child_ok :: "nat \<Rightarrow> centry \<Rightarrow> bool" where
  "child_ok n c = (case c of CMod m \<Rightarrow> m < n | CNull \<Rightarrow> True)"

definition record_ok :: "bundle_env \<Rightarrow> nat \<Rightarrow> bundle_module \<Rightarrow> bool" where
  "record_ok env n r \<longleftrightarrow>
     (case r_children r of None \<Rightarrow> True | Some cs \<Rightarrow> distinct cs \<and> list_all (child_ok n) cs) \<and>
     (case r_identity r of None \<Rightarrow> True | Some i \<Rightarrow> r_filename r = Some (posix_join [root env, i]))"

definition cache_ok :: "bundle_state \<Rightarrow> bool" where
  "cache_ok st \<longleftrightarrow>
     (\<forall>f m. mcache st f = Some (CMod m) \<longrightarrow>
        m < length (heap st) \<and> r_identity (heap st ! m) \<noteq> None \<and> r_filename (heap st ! m) = Some f)"

definition bundle_wf :: "bundle_env \<Rightarrow> bundle_state \<Rightarrow> bool" where
  "bundle_wf env st \<longleftrightarrow> list_all (record_ok env (length (heap st))) (heap st) \<and> cache_ok st"

definition wf_step :: "bundle_env \<Rightarrow> bundle_state \<Rightarrow> bundle_state \<Rightarrow> bool" where
  "wf_step env a b \<longleftrightarrow>
     length (heap a) \<le> length (heap b) \<and>
     (\<forall>m < length (heap a). r_identity (heap b ! m) = r_identity (heap a ! m)
        \<and> r_filename (heap b ! m) = r_filename (heap a ! m)) \<and>
     (bundle_wf env a \<longrightarrow> bundle_wf env b)"

lemma record_ok_mono: "record_ok env n r \<Longrightarrow> n \<le> n' \<Longrightarrow> record_ok env n' r"
  by (auto simp: record_ok_def child_ok_def list_all_iff split: option.splits centry.splits)

lemma bundle_wf_record: "bundle_wf env st \<Longrightarrow> m < length (heap st) \<Longrightarrow> record_ok env (length (heap st)) (heap st ! m)"
  by (simp add: bundle_wf_def list_all_length)

lemma bundle_wf_children:
  assumes "bundle_wf env st" "r \<in> set (heap st)" "r_children r = Some cs"
  shows "distinct cs" "CMod m \<in> set cs \<Longrightarrow> m < length (heap st)"
proof -
  have "record_ok env (length (heap st)) r" using assms by (simp add: bundle_wf_def list_all_iff)
  with assms(3) show "distinct cs" "CMod m \<in> set cs \<Longrightarrow> m < length (heap st)"
    by (auto simp: record_ok_def list_all_iff child_ok_def)
qed

text \<open>A record is updated without touching its identity or filename.\<close>

lemma wf_step_set_mod:
  assumes id: "\<And>r. r_identity (f r) = r_identity r" "\<And>r. r_filename (f r) = r_filename r"
    and ok: "bundle_wf env st \<Longrightarrow> m < length (heap st) \<Longrightarrow> record_ok env (length (heap st)) (f (heap st ! m))"
  shows "wf_step env st (set_mod m f st)"
proof (cases "m < length (heap st)")
  case True
  have "bundle_wf env (set_mod m f st)" if wf: "bundle_wf env st"
    unfolding bundle_wf_def
  proof
    show "list_all (record_ok env (length (heap (set_mod m f st)))) (heap (set_mod m f st))"
      using wf ok [OF wf True] True by (auto simp: bundle_wf_def set_mod_def list_all_length nth_list_update)
    show "cache_ok (set_mod m f st)"
      using wf id True by (auto simp: bundle_wf_def cache_ok_def set_mod_def nth_list_update)
  qed
  then show ?thesis using id True by (auto simp: wf_step_def set_mod_def nth_list_update)
next
  case False
  then have "set_mod m f st = st" by (simp add: set_mod_def list_update_beyond)
  then show ?thesis by (simp add: wf_step_def)
qed

lemma wf_step_updateChildren:
  assumes "bundle_wf env st \<Longrightarrow> child_ok (length (heap st)) c"
    and "bundle_wf env st \<Longrightarrow> scan \<or> (\<forall>r \<in> set (heap st). \<forall>cs. r_children r = Some cs \<longrightarrow> c \<notin> set cs)"
  shows "wf_step env st (updateChildren p c scan st)"
proof -
  have "wf_step env st (set_mod q (\<lambda>r. r\<lparr>r_children := Some (cs @ [c])\<rparr>) st)"
    if "mod_at st q = Some r" "r_children r = Some cs" "\<not> (scan \<and> c \<in> set cs)" for q r cs
  proof (rule wf_step_set_mod)
    have q: "q < length (heap st)" "r = heap st ! q" using that(1) by (auto simp: mod_at_def split: if_splits)
    then have r: "r \<in> set (heap st)" by simp
    assume wf: "bundle_wf env st"
    from assms(2) [OF wf] that r have nc: "c \<notin> set cs" by blast
    from bundle_wf_record [OF wf q(1)] that(2) q(2) assms(1) [OF wf] nc
    show "record_ok env (length (heap st)) ((heap st ! q)\<lparr>r_children := Some (cs @ [c])\<rparr>)"
      by (auto simp: record_ok_def split: option.splits)
  qed simp_all
  moreover have "wf_step env st st" by (simp add: wf_step_def)
  ultimately show ?thesis by (auto simp: updateChildren_def split: option.split)
qed

lemma wf_step_removeChild: "wf_step env st (removeChild p c st)"
proof -
  have "wf_step env st (set_mod q (\<lambda>r. r\<lparr>r_children := Some (remove1 c cs)\<rparr>) st)"
    if "mod_at st q = Some r" "r_children r = Some cs" for q r cs
  proof (rule wf_step_set_mod)
    have q: "q < length (heap st)" "r = heap st ! q" using that(1) by (auto simp: mod_at_def split: if_splits)
    assume "bundle_wf env st"
    from bundle_wf_record [OF this q(1)] that(2) q(2)
    show "record_ok env (length (heap st)) ((heap st ! q)\<lparr>r_children := Some (remove1 c cs)\<rparr>)"
      using set_remove1_subset [of c cs]
      by (auto simp: record_ok_def list_all_iff split: option.splits)
  qed simp_all
  moreover have "wf_step env st st" by (simp add: wf_step_def)
  ultimately show ?thesis by (auto simp: removeChild_def split: option.split)
qed

lemma wf_step_trans: "wf_step env a b \<Longrightarrow> wf_step env b c \<Longrightarrow> wf_step env a c"
  unfolding wf_step_def by (metis order.trans order.strict_trans2)

lemma wf_step_same:
  "heap b = heap a \<Longrightarrow> (cache_ok a \<Longrightarrow> cache_ok b) \<Longrightarrow> wf_step env a b"
  by (auto simp: wf_step_def bundle_wf_def)

text \<open>A record is appended to the heap, with no children.\<close>

lemma wf_step_alloc:
  assumes "heap b = heap a @ [r]" "mcache b = mcache a" "r_children r = Some []"
    and "case r_identity r of None \<Rightarrow> True | Some i \<Rightarrow> r_filename r = Some (posix_join [root env, i])"
  shows "wf_step env a b"
proof -
  have "bundle_wf env b" if wf: "bundle_wf env a"
    unfolding bundle_wf_def
  proof
    have "record_ok env (length (heap b)) x" if "x \<in> set (heap a)" for x
      using that wf assms(1) by (auto simp: bundle_wf_def list_all_iff intro: record_ok_mono)
    moreover have "record_ok env (length (heap b)) r" using assms(3,4) by (simp add: record_ok_def)
    ultimately show "list_all (record_ok env (length (heap b))) (heap b)"
      by (simp add: list_all_iff assms(1))
    show "cache_ok b" using wf assms(1,2)
      unfolding bundle_wf_def cache_ok_def by (metis length_append_singleton less_SucI nth_append)
  qed
  then show ?thesis using assms(1) by (simp add: wf_step_def nth_append)
qed

lemma wf_step_publish: "wf_step env st (publish env t p im st)"
proof -
  let ?m = "length (heap st)"
  let ?st1 = "st\<lparr>heap := heap st @ [new_record env t p im ?m]\<rparr>"
  let ?st2 = "updateChildren p (CMod ?m) False ?st1"
  let ?f = "posix_join [root env, t]"
  have rec: "r_children (new_record env t p im ?m) = Some []" "r_identity (new_record env t p im ?m) = Some t"
    "r_filename (new_record env t p im ?m) = Some ?f"
    by (simp_all add: new_record_def Let_def)
  have 1: "wf_step env st ?st1"
    by (rule wf_step_alloc [where r = "new_record env t p im ?m"]) (simp_all add: rec)
  have fresh: "CMod ?m \<notin> set cs" if "bundle_wf env st" "r \<in> set (heap ?st1)" "r_children r = Some cs" for r cs
    using that rec bundle_wf_children(2) [OF that(1), of r cs ?m] by auto
  have 2: "wf_step env st ?st2"
  proof (cases "bundle_wf env st")
    case True
    then show ?thesis using fresh
      by (intro wf_step_trans [OF 1 wf_step_updateChildren]) (auto simp: child_ok_def)
  next
    case False
    have "length (heap st) \<le> length (heap ?st2)" by simp
    moreover have "r_identity (heap ?st2 ! k) = r_identity (heap ?st1 ! k) \<and> r_filename (heap ?st2 ! k) = r_filename (heap ?st1 ! k)" for k
      by (auto simp: updateChildren_def set_mod_def mod_at_def nth_list_update split: option.split)
    ultimately show ?thesis using False 1 by (simp add: wf_step_def)
  qed
  have m2: "r_identity (heap ?st2 ! ?m) = Some t" "r_filename (heap ?st2 ! ?m) = Some ?f"
    using rec by (auto simp: updateChildren_def set_mod_def mod_at_def nth_list_update nth_append split: option.split)
  have "wf_step env ?st2 (publish env t p im st)"
  proof (rule wf_step_same)
    show "heap (publish env t p im st) = heap ?st2" by (simp add: publish_def Let_def)
    show "cache_ok (publish env t p im st)" if "cache_ok ?st2"
      using that m2 by (auto simp: cache_ok_def publish_def Let_def)
  qed
  with 2 show ?thesis by (rule wf_step_trans)
qed

lemma wf_step_unpublish: "wf_step env st (unpublish f p m st)"
  unfolding unpublish_def
  by (rule wf_step_trans [OF wf_step_same wf_step_removeChild]) (auto simp: cache_ok_def)

interpretation wfb: bundle_preorder env "wf_step env" for env
proof (unfold_locales, goal_cases)
  case (2 a b c) then show ?case by (rule wf_step_trans)
next
  case (6 st f ce p)
  then show ?case
    by (intro wf_step_updateChildren) (auto simp: bundle_wf_def cache_ok_def child_ok_def split: centry.split)
next
  case (7 st f) show ?case
    by (rule wf_step_alloc) (auto simp: createRequireFromPath_def Let_def)
next
  case (8 n st x st') then show ?case
    using global_require_fields(1,2) [OF 8] by (intro wf_step_same) (simp_all add: cache_ok_def)
next
  case (9 st m v) show ?case
    by (rule wf_step_set_mod) (auto dest: bundle_wf_record simp: record_ok_def split: option.splits)
next
  case (10 st m) show ?case
    by (rule wf_step_set_mod) (auto dest: bundle_wf_record simp: record_ok_def split: option.splits)
next
  case (16 st t p im) show ?case by (rule wf_step_publish)
next
  case (17 st t p im st')
  show ?case
    by (rule wf_step_trans [OF wf_step_publish wf_step_trans [OF 17(2) wf_step_unpublish]])
qed (auto intro!: wf_step_same simp: cache_ok_def)

section \<open>The cache is stable when programs leave it alone\<close>

definition kept_le :: "bundle_env \<Rightarrow> bundle_state \<Rightarrow> bundle_state \<Rightarrow> bool" where
  "kept_le env a b \<longleftrightarrow> (all_keep env \<longrightarrow> mcache a \<subseteq>\<^sub>m mcache b)"

interpretation kept: bundle_preorder env "kept_le env" for env
proof (unfold_locales, goal_cases)
  case (2 a b c) then show ?case by (auto simp: kept_le_def intro: map_le_trans)
next
  case (8 n st x st') then show ?case
    using global_require_fields(2) [OF 8] by (simp add: kept_le_def)
next
  case (16 st t p im) then show ?case by (auto simp: kept_le_def map_le_def)
next
  case (17 st t p im st')
  show ?case
  proof (unfold kept_le_def map_le_def, intro impI ballI)
    fix f assume "all_keep env" "f \<in> dom (mcache st)"
    moreover from this 17 have "f \<noteq> posix_join [root env, t]" by auto
    ultimately show "mcache st f = mcache (unpublish (posix_join [root env, t]) p (length (heap st)) st') f"
      using 17(2) by (auto simp: kept_le_def map_le_def dest!: bspec [of _ _ f])
  qed
qed (auto simp: kept_le_def)

lemma kept_cache: "kept_le env a b \<Longrightarrow> all_keep env \<Longrightarrow> mcache a f = Some c \<Longrightarrow> mcache b f = Some c"
  by (auto simp: kept_le_def map_le_def dest!: bspec [of _ _ f])

section \<open>A failed load leaves no trace\<close>

lemma removeChild_gone:
  assumes "bundle_wf env st" "mod_at (removeChild (Some q) c st) q = Some r" "r_children r = Some cs"
  shows "c \<notin> set cs"
proof -
  have q: "q < length (heap st)" using assms(2) by (auto simp: mod_at_def split: if_splits)
  show ?thesis
  proof (cases "r_children (heap st ! q)")
    case None
    then show ?thesis using assms(2,3) q by (auto simp: removeChild_def mod_at_def)
  next
    case (Some cs0)
    have "distinct cs0" using bundle_wf_children(1) [OF assms(1) nth_mem [OF q] Some] .
    moreover have "cs = remove1 c cs0" using assms(2,3) q Some
      by (auto simp: removeChild_def mod_at_def set_mod_def)
    ultimately show ?thesis by simp
  qed
qed

lemma loadIdentity_failed:
  assumes "bundle_wf env st" "mcache st (posix_join [root env, t]) = None"
    and "loadIdentity d env t p im st = Some (Inl e, st')"
  shows "mcache st' (posix_join [root env, t]) = None"
    and "p = Some q \<Longrightarrow> mod_at st' q = Some r \<Longrightarrow> r_children r = Some cs \<Longrightarrow> CMod (length (heap st)) \<notin> set cs"
proof -
  let ?f = "posix_join [root env, t]" and ?m = "length (heap st)"
  obtain d' where d: "d = Suc d'" using assms(3) by (cases d) auto
  from assms(3) d obtain e' st1 where
    x: "run_payload (loadIdentity d' env) env t ?m (publish env t p im st) = Some (Inl e', st1)"
    and st': "st' = unpublish ?f p ?m st1"
    using loadIdentity_uncachedE [OF assms(2), of d' p im "Inl e" st'] by blast
  show "mcache st' ?f = None" using st' by simp
  have "wf_step env (publish env t p im st) st1"
    using wfb.good_stepD [OF wfb.good_run_payload [OF wfb.good_loadIdentity] x] .
  then have "bundle_wf env st1" using wf_step_publish assms(1) unfolding wf_step_def by blast
  then have "bundle_wf env (st1\<lparr>mcache := (mcache st1)(?f := None)\<rparr>)"
    by (simp add: bundle_wf_def cache_ok_def)
  then show "p = Some q \<Longrightarrow> mod_at st' q = Some r \<Longrightarrow> r_children r = Some cs \<Longrightarrow> CMod ?m \<notin> set cs"
    using st' removeChild_gone by (auto simp: unpublish_def)
qed

section \<open>Singletons\<close>

lemma loadIdentity_success_cached:
  assumes "all_keep env" "loadIdentity d env t p im st = Some (Inr v, st')"
  shows "\<exists>m. mcache st' (posix_join [root env, t]) = Some (CMod m) \<and> v = mod_exports st' m"
proof -
  let ?f = "posix_join [root env, t]"
  obtain d' where d: "d = Suc d'" using assms(2) by (cases d) auto
  show ?thesis
  proof (cases "mcache st ?f")
    case (Some c)
    with assms(2) d have "cached_exports st' c = Inr v" "mcache st' = mcache st"
      by (auto simp: loadIdentity_body_def Let_def)
    with Some show ?thesis by (cases c) (auto simp: cached_exports_def)
  next
    case None
    from assms(2) d obtain st1 where
      x: "run_payload (loadIdentity d' env) env t (length (heap st)) (publish env t p im st) = Some (Inr (), st1)"
      and st': "st' = set_mod (length (heap st)) (\<lambda>r. r\<lparr>r_loaded := True\<rparr>) st1"
      and v: "v = mod_exports st' (length (heap st))"
      using loadIdentity_uncachedE [OF None, of d' p im "Inr v" st'] by blast
    have "mcache st1 ?f = Some (CMod (length (heap st)))"
      by (rule kept_cache [OF kept.good_stepD [OF kept.good_run_payload [OF kept.good_loadIdentity] x] assms(1)])
        simp
    then show ?thesis using st' v by auto
  qed
qed

lemma mod_exports_updateChildren [simp]: "mod_exports (updateChildren p c s st) m = mod_exports st m"
  by (auto simp: updateChildren_def mod_exports_def mod_at_def set_mod_def nth_list_update split: option.split)

lemma loadIdentity_cached:
  assumes "mcache st (posix_join [root env, t]) = Some (CMod m)"
  shows "loadIdentity (Suc d) env t p im st =
    Some (Inr (mod_exports st m), updateChildren p (CMod m) True st)"
  using assms by (simp add: loadIdentity_body_def cached_exports_def Let_def)

section \<open>Runs return\<close>

definition code_in :: "bundle_env \<Rightarrow> string set \<Rightarrow> bool" where
  "code_in env U \<longleftrightarrow> (\<forall>t body. bload env t = Inr (Code body) \<longrightarrow> t \<in> U)"

definition boot_total :: "bundle_env \<Rightarrow> bool" where
  "boot_total env \<longleftrightarrow> (\<forall>n b. boot_require (bootDepth env) (bootEnv env) n b \<noteq> None)"

definition files_left :: "bundle_env \<Rightarrow> string set \<Rightarrow> bundle_state \<Rightarrow> string set" where
  "files_left env U st = (\<lambda>t. posix_join [root env, t]) ` U - dom (mcache st)"

definition broom :: "bundle_env \<Rightarrow> string set \<Rightarrow> nat \<Rightarrow> bundle_state \<Rightarrow> bool" where
  "broom env U d st \<longleftrightarrow> card (files_left env U st) < d"

definition total_bload :: "bundle_env \<Rightarrow> string set \<Rightarrow> nat \<Rightarrow> load_fn \<Rightarrow> bool" where
  "total_bload env U d load \<longleftrightarrow> (\<forall>t p im st. broom env U d st \<longrightarrow> load t p im st \<noteq> None)"

lemma broom_kept:
  assumes "finite U" "all_keep env" "kept_le env a b" "broom env U d a"
  shows "broom env U d b"
proof -
  have "files_left env U b \<subseteq> files_left env U a"
    using assms(2,3) by (auto simp: files_left_def kept_le_def dest!: map_le_implies_dom_le)
  then have "card (files_left env U b) \<le> card (files_left env U a)"
    using assms(1) by (intro card_mono) (simp_all add: files_left_def)
  with assms(4) show ?thesis by (simp add: broom_def)
qed

lemma broom_log: "broom env U d st \<Longrightarrow> broom env U d (logOutcome env' oc r i t st)"
  by (simp add: broom_def files_left_def)

lemma bundle_load_total:
  assumes "total_bload env U d load" "broom env U d st"
  shows "bundle_load load env req p im st \<noteq> None"
  using assms broom_log [OF assms(2)]
  by (cases req)
    (auto simp: bundle_load_def total_bload_def split: option.split simp del: not_None_eq)

lemma module_require_total:
  assumes "total_bload env U d load" "broom env U d st"
  shows "module_require load env m req st \<noteq> None"
  using bundle_load_total [OF assms] by (cases req) (auto simp: module_require_def simp del: not_None_eq)

lemma global_require_total: "boot_total env \<Longrightarrow> global_require env n st \<noteq> None"
  by (fastforce simp: boot_total_def global_require_def split: option.splits)

lemma exec_bundle_total:
  assumes "total_bload env U d load" "kept.good_load env load" "boot_total env" "all_keep env" "finite U"
  shows "keeps_cache p \<Longrightarrow> broom env U d st \<Longrightarrow> exec_bundle p load env m i st \<noteq> None"
proof (induction p arbitrary: st)
  case (BRequire req k)
  obtain r st1 where x: "module_require load env m req st = Some (r, st1)"
    using module_require_total [OF assms(1) BRequire.prems(2), of m req] by fastforce
  have "broom env U d st1"
    using broom_kept [OF assms(5,4) kept.good_stepD [OF kept.good_module_require [OF assms(2)] x] BRequire.prems(2)] .
  with BRequire x show ?case by fastforce
next
  case (BRequireFrom h req k)
  obtain r st1 where x: "module_require load env h req st = Some (r, st1)"
    using module_require_total [OF assms(1) BRequireFrom.prems(2), of h req] by fastforce
  have "broom env U d st1"
    using broom_kept [OF assms(5,4) kept.good_stepD [OF kept.good_module_require [OF assms(2)] x] BRequireFrom.prems(2)] .
  with BRequireFrom x show ?case by fastforce
next
  case (BGlobalRequire n k)
  obtain r st1 where x: "global_require env n st = Some (r, st1)"
    using global_require_total [OF assms(3), of n st] by fastforce
  have "broom env U d st1"
    using broom_kept [OF assms(5,4) kept.R_global [OF x] BGlobalRequire.prems(2)] .
  with BGlobalRequire x show ?case by fastforce
next
  case (BResolve req ps k)
  obtain r st1 where x: "bundled_resolve env m i req ps st = (r, st1)" by force
  then have "broom env U d st1"
    using broom_kept [OF assms(5,4) _ BResolve.prems(2)] kept.R_bundled_resolve [of env st m i req ps] by simp
  with BResolve x show ?case by fastforce
next
  case (BResolveFrom h req ps k)
  obtain r st1 where x: "baseResolve env h req ps st = (r, st1)" by force
  then have "broom env U d st1"
    using broom_kept [OF assms(5,4) _ BResolveFrom.prems(2)] kept.R_baseResolve [of env st h req ps] by simp
  with BResolveFrom x show ?case by fastforce
next
  case (BCreateRequire f k)
  have "broom env U d (createRequireFromPath env f st)"
    using broom_kept [OF assms(5,4) kept.R_create BCreateRequire.prems(2)] .
  with BCreateRequire show ?case by fastforce
next
  case (BSetExports v p)
  have "broom env U d (set_mod m (\<lambda>r. r\<lparr>r_exports := v\<rparr>) st)"
    using broom_kept [OF assms(5,4) kept.R_exports BSetExports.prems(2)] .
  with BSetExports show ?case by fastforce
qed auto

lemma loadIdentity_body_total:
  assumes "total_bload env U d load" "kept.good_load env load" "boot_total env" "all_keep env" "finite U" "code_in env U"
  shows "total_bload env U (Suc d) (loadIdentity_body load env)"
  unfolding total_bload_def
proof (intro allI impI)
  fix t p im st assume rm: "broom env U (Suc d) st"
  let ?f = "posix_join [root env, t]" and ?m = "length (heap st)"
  let ?st1 = "publish env t p im st"
  show "loadIdentity_body load env t p im st \<noteq> None"
  proof (cases "mcache st ?f")
    case None
    have "run_payload load env t ?m ?st1 \<noteq> None"
    proof (cases "\<exists>body. nativeSidecars (natives env) t = None \<and> bload env t = Inr (Code body)")
      case True
      then obtain body where b: "nativeSidecars (natives env) t = None" "bload env t = Inr (Code body)" by blast
      then have "t \<in> U" "keeps_cache body" using assms(4,6) by (auto simp: code_in_def all_keep_def)
      let ?st2 = "call_host (RunBody t) (call_host (LoadPayload t) ?st1)"
      have "files_left env U ?st2 = files_left env U st - {?f}" by (auto simp: files_left_def)
      moreover have "?f \<in> files_left env U st" using None \<open>t \<in> U\<close> by (auto simp: files_left_def)
      moreover have "finite (files_left env U st)" using assms(5) by (simp add: files_left_def)
      ultimately have "broom env U d ?st2" using rm
        by (metis broom_def card_Suc_Diff1 Suc_less_eq)
      from exec_bundle_total [OF assms(1-5) \<open>keeps_cache body\<close> this] b show ?thesis
        by (simp add: run_payload_def Let_def del: not_None_eq)
    next
      case False
      then show ?thesis
        by (auto simp: run_payload_def Let_def split: option.split sum.split payload.split simp del: not_None_eq)
    qed
    then show ?thesis using None by (auto simp: loadIdentity_body_def Let_def split: sum.split)
  qed (simp add: loadIdentity_body_def Let_def)
qed

lemma loadIdentity_total:
  assumes "boot_total env" "all_keep env" "finite U" "code_in env U"
  shows "total_bload env U d (loadIdentity d env)"
proof (induction d)
  case (Suc d)
  then show ?case using loadIdentity_body_total [OF Suc kept.good_loadIdentity assms] by simp
qed (simp add: total_bload_def broom_def)

lemma run_preloads_total:
  assumes "boot_total env" "all_keep env" "finite U" "code_in env U"
  shows "broom env U d st \<Longrightarrow> run_preloads (loadIdentity d env) ps st \<noteq> None"
proof (induction ps arbitrary: st)
  case (Cons a ps)
  obtain r st1 where x: "loadIdentity d env a None False st = Some (r, st1)"
    using loadIdentity_total [OF assms] Cons.prems by (fastforce simp: total_bload_def)
  have "broom env U d st1" using broom_kept [OF assms(3,2) kept.loadIdentity_R [OF x] Cons.prems] .
  with Cons.IH x show ?case by (cases r) auto
qed simp

lemma run_bundle_total:
  assumes "boot_total env" "all_keep env" "finite U" "code_in env U" "broom env U d st"
  shows "run_bundle d env st \<noteq> None"
proof -
  obtain r st1 where x: "run_preloads (loadIdentity d env) (preloads env) st = Some (r, st1)"
    using run_preloads_total [OF assms] by fastforce
  have "broom env U d st1"
    using broom_kept [OF assms(3,2) kept.good_stepD [OF kept.good_run_preloads [OF kept.good_loadIdentity] x] assms(5)] .
  then have "loadIdentity d env (entry env) None True st1 \<noteq> None"
    using loadIdentity_total [OF assms(1-4)] by (simp add: total_bload_def)
  with x show ?thesis by (cases r) (auto simp: run_bundle_def)
qed

section \<open>Identities and filenames\<close>

lemma first_seg_not_up:
  assumes "is_name i" "take 3 (i @ r) = ''../''" "r = [] \<or> hd r = CHR ''/''"
  shows False
proof -
  have i: "i \<noteq> []" "i \<noteq> ''..''" "CHR ''/'' \<notin> set i" using assms(1) by (auto simp: is_name_def)
  then obtain a i' where "i = a # i'" by (cases i) auto
  moreover obtain b i'' where "i' = b # i'' \<or> i' = []" by (cases i') auto
  ultimately show False using assms(2,3) i
    by (cases i'; cases "tl i'"; cases r) (auto simp: eval_nat_numeral)
qed

lemma js_join_head: "is \<noteq> [] \<Longrightarrow> \<exists>r. js_join ''/'' is = hd is @ r \<and> (r = [] \<or> hd r = CHR ''/'')"
  by (cases "is"; cases "tl is") auto

lemma names_join_is_identity:
  assumes "list_all is_name is" "is \<noteq> []"
  shows "js_join ''/'' is \<noteq> []" "js_join ''/'' is \<noteq> ''..''" "take 3 (js_join ''/'' is) \<noteq> ''../''"
    and "char_at (js_join ''/'' is) 0 \<noteq> Some (CHR ''/'')"
proof -
  obtain r where r: "js_join ''/'' is = hd is @ r" "r = [] \<or> hd r = CHR ''/''"
    using js_join_head [OF assms(2)] by blast
  have h: "is_name (hd is)" using assms by (cases "is") auto
  then have i: "hd is \<noteq> []" "hd is \<noteq> ''..''" "CHR ''/'' \<notin> set (hd is)" by (auto simp: is_name_def)
  then show "js_join ''/'' is \<noteq> []" "char_at (js_join ''/'' is) 0 \<noteq> Some (CHR ''/'')"
    using r by (cases "hd is"; auto)+
  show "take 3 (js_join ''/'' is) \<noteq> ''../''" using first_seg_not_up [OF h _ r(2)] r(1) by auto
  show "js_join ''/'' is \<noteq> ''..''"
  proof
    assume "js_join ''/'' is = ''..''"
    with r i show False by (cases "hd is"; cases "tl (hd is)"; cases r) auto
  qed
qed

lemma identity_of_join:
  assumes "root env = abs_path rs" "list_all is_name rs" "list_all is_name is" "is \<noteq> []"
  shows "identity_of_filename env (posix_join [root env, js_join ''/'' is]) = Some (js_join ''/'' is)"
proof -
  have "posix_relative (processCwd env) (root env) (posix_join [root env, js_join ''/'' is]) = js_join ''/'' is"
    using assms by (simp only: posix_join_root posix_relative_segs list_all_append simp_thms relative_segs_append)
  then show ?thesis using names_join_is_identity [OF assms(3,4)]
    by (simp only: identity_of_filename_def js_slice_0_numeral Let_def simp_thms if_False)
qed

section \<open>Properties\<close>

definition bundle_init :: bundle_state where
  "bundle_init = \<lparr>heap = [], mcache = Map.empty, mainModule = None, logLines = [], hostCalls = [],
                  boot = boot_init\<rparr>"

lemma bundle_wf_init: "bundle_wf env (installBundleLoader bundle_init)"
  by (simp add: bundle_wf_def bundle_init_def installBundleLoader_def cache_ok_def)

text \<open>A packaged program: \<open>main.js\<close> requires \<open>./dep\<close>, then the vendored \<open>ws\<close>, then reaches for
  \<open>globalThis.require\<close>; \<open>dep.js\<close> requires \<open>main.js\<close> back; \<open>bad.js\<close> throws; \<open>data.json\<close> is data.\<close>

definition demo_original_load :: "js_request \<Rightarrow> nat option \<Rightarrow> bool \<Rightarrow> boot_state \<Rightarrow> bval result \<times> boot_state" where
  "demo_original_load req p im b =
     (case req of
        NotStr \<Rightarrow> (Inl (invalid_arg_type ''request''), b)
      | Str r \<Rightarrow>
          (case boot_require 4 demo_env r b of
             None \<Rightarrow> (Inl (module_not_found r), b)
           | Some (x, b') \<Rightarrow> (map_sum (\<lambda>e. e) Host x, b')))"

definition demo_bundle :: bundle_env where
  "demo_bundle =
     \<lparr>root = ''/app'', entry = ''main.js'', natives = [(''add.node'', ''add-1.node'')], preloads = [],
      blookup = (\<lambda>i r. if i = ''main.js'' \<and> r = ''./dep'' then Some ''dep.js''
                       else if i = ''dep.js'' \<and> r = ''./main'' then Some ''main.js'' else None),
      bresolve = (\<lambda>i r ps. None),
      bload = (\<lambda>t.
         if t = ''main.js'' then
           Inr (Code (BRequire (Str ''./dep'') (\<lambda>x. BRequire (Str ''ws'') (\<lambda>y. BGlobalRequire ''/etc/evil.js'' (\<lambda>z. BDone)))))
         else if t = ''dep.js'' then Inr (Code (BRequire (Str ''./main'') (\<lambda>x. BSetExports (Plain ''dep'') BDone)))
         else if t = ''bad.js'' then Inr (Code (BThrow (JsError None ''boom'')))
         else if t = ''data.json'' then Inr (Json ''42'')
         else Inl (JsError None t)),
      existsSync = (\<lambda>f. False), jsonParse = (\<lambda>t. Inr (Plain t)), dlopen = (\<lambda>f. Inr (Plain f)),
      processCwd = ''/'', debugBundle = False, originalLoad = demo_original_load,
      originalResolveFilename = (\<lambda>req p ps. Inr ''x''), bootEnv = demo_env, bootDepth = 4\<rparr>"

lemma demo_boot_total: "boot_require 4 demo_env n b \<noteq> None"
proof (rule boot_require_total [of demo_env "{''a'', ''b'', ''bad''}"])
  show "loadable_in demo_env {''a'', ''b'', ''bad''}" by (simp add: loadable_in_def demo_env_def)
  have "card ({''a'', ''b'', ''bad''} - dom (cache b)) \<le> card {''a'', ''b'', ''bad''}"
    by (rule card_mono) auto
  also have "\<dots> < 4" by simp
  finally show "card ({''a'', ''b'', ''bad''} - dom (cache b)) < 4" .
qed (simp_all add: demo_env_def)

lemma demo_bundle_facts:
  "original_sealed demo_bundle" "boot_total demo_bundle" "all_keep demo_bundle"
  "code_in demo_bundle {''main.js'', ''dep.js'', ''bad.js''}"
proof -
  show "original_sealed demo_bundle"
    by (auto simp: original_sealed_def demo_bundle_def demo_original_load_def sealed.R_refl
        split: js_request.split option.split dest: sealed.boot_require_R)
  show "boot_total demo_bundle" using demo_boot_total by (simp add: boot_total_def demo_bundle_def)
qed (simp_all add: all_keep_def code_in_def demo_bundle_def)

lemma demo_bundle_returns: "\<exists>r st'. run_bundle 4 demo_bundle (installBundleLoader bundle_init) = Some (r, st')"
proof -
  have "card (files_left demo_bundle {''main.js'', ''dep.js'', ''bad.js''} (installBundleLoader bundle_init))
      \<le> card ((\<lambda>t. posix_join [root demo_bundle, t]) ` {''main.js'', ''dep.js'', ''bad.js''})"
    by (rule card_mono) (auto simp: files_left_def)
  also have "\<dots> \<le> card {''main.js'', ''dep.js'', ''bad.js''}" by (rule card_image_le) simp
  also have "\<dots> < 4" by simp
  finally have "broom demo_bundle {''main.js'', ''dep.js'', ''bad.js''} 4 (installBundleLoader bundle_init)"
    by (simp add: broom_def)
  from run_bundle_total [OF demo_bundle_facts(2,3) _ demo_bundle_facts(4) this] show ?thesis by fastforce
qed

text \<open>C1: a bundle is a closed world.  Whatever the packaged code does with \<open>require\<close>,
  \<open>require.resolve\<close>, \<open>Module.createRequire\<close>, \<open>require.cache\<close> and \<open>globalThis.require\<close>, the
  bootstrap loader reads and compiles nothing more, every request handed to the original loader is a
  builtin name or not a string (or comes with malformed \<open>paths\<close>), and the only files looked
  at or opened are the recorded sidecars beside the bundle.\<close>

theorem bundle_run_contained:
  assumes "original_sealed env" "run_bundle d env (installBundleLoader st) = Some (r, st')"
  shows "diskLoadingClosed (boot st') \<and> disk_events (boot st') = disk_events (boot st) \<and>
    (\<exists>new. hostCalls st' = new @ hostCalls st \<and> list_all (host_ok env) new)"
  using contained.run_bundle_R [OF assms(2)] assms(1)
  by (auto simp: contained_le_def installBundleLoader_def sealed_le_def closeDiskModuleLoading_def disk_events_def)

theorem bundle_run_contained_witness:
  "\<exists>r st'. run_bundle 4 demo_bundle (installBundleLoader bundle_init) = Some (r, st') \<and>
           diskLoadingClosed (boot st') \<and> disk_events (boot st') = [] \<and> list_all (host_ok demo_bundle) (hostCalls st')"
proof -
  obtain r st' where *: "run_bundle 4 demo_bundle (installBundleLoader bundle_init) = Some (r, st')"
    using demo_bundle_returns by blast
  from bundle_run_contained [OF demo_bundle_facts(1) *] * show ?thesis
    by (auto simp: bundle_init_def boot_init_def disk_events_def)
qed

text \<open>C2: \<open>require.resolve\<close> and \<open>require\<close> agree about what the container holds.  For every specifier
  that is not a builtin name, the resolve a bundled module sees and the wrapped
  \<open>Module._resolveFilename\<close> answer the filename of exactly the identity that \<open>Module._load\<close> loads;
  a vendored package goes to the same spelling; and a miss is the same
  \<open>MODULE_NOT_FOUND\<close> error from all three.\<close>

theorem bundle_resolve_load_agree:
  assumes "identityOf env st (Some m) = Some i" "normalizeRequirableId request = None"
  shows "case (case blookup env i request of Some t \<Rightarrow> Some t | None \<Rightarrow> bresolve env i request None) of
      Some t \<Rightarrow>
        fst (bundled_resolve env m i (Str request) NoPaths st) = Inr (posix_join [root env, t]) \<and>
        fst (bundle_resolveFilename env (Str request) (Some m) NoPaths st) = Inr (posix_join [root env, t]) \<and>
        (\<exists>l. bundle_load load env (Str request) (Some m) im st = load t (Some m) False (st\<lparr>logLines := l\<rparr>))
    | None \<Rightarrow>
        if isEmbedded request then
          bundled_resolve env m i (Str request) NoPaths st
            = forward_resolve env (Str (embeddedRequest request)) (Some m) NoPaths st \<and>
          bundle_resolveFilename env (Str request) (Some m) NoPaths st
            = forward_resolve env (Str (embeddedRequest request)) (Some m) NoPaths st \<and>
          bundle_load load env (Str request) (Some m) im st
            = Some (forward_load env (Str (embeddedRequest request)) (Some m) im st)
        else
          fst (bundled_resolve env m i (Str request) NoPaths st) = Inl (notInBundle env request i True) \<and>
          fst (bundle_resolveFilename env (Str request) (Some m) NoPaths st) = Inl (notInBundle env request i True) \<and>
          (\<exists>l. bundle_load load env (Str request) (Some m) im st
                 = Some (Inl (notInBundle env request i True), st\<lparr>logLines := l\<rparr>)) \<and>
          err_code (notInBundle env request i True) = Some ''MODULE_NOT_FOUND''"
proof -
  have lg: "\<exists>l. logOutcome env oc r i' t st = st\<lparr>logLines := l\<rparr>" for oc r i' t
    by (auto simp: logOutcome_def intro: exI [of _ "logLines st"])
  have lgl: "\<exists>l. load t p b (logOutcome env oc r i' t' st) = load t p b (st\<lparr>logLines := l\<rparr>)" for t p b oc r i' t'
    using lg [of oc r i' t'] by auto
  have code: "err_code (notInBundle env request i True) = Some ''MODULE_NOT_FOUND''"
    by (simp add: notInBundle_def Let_def)
  have fw: "isEmbedded request \<Longrightarrow> normalizeRequirableId (embeddedRequest request) \<noteq> None"
    using embeddedRequest_forwardable by simp
  show ?thesis using assms fw code
    by (auto simp: bundled_resolve_def bundle_resolveFilename_def baseResolve_def bundle_load_def paths_list_def
        Let_def lgl lg split: option.split)
qed

theorem bundle_resolve_load_agree_witness:
  "\<exists>st. identityOf demo_bundle st (Some 0) = Some ''main.js'' \<and>
     fst (bundled_resolve demo_bundle 0 ''main.js'' (Str ''./dep'') NoPaths st) = Inr (posix_join [''/app'', ''dep.js''])"
proof -
  let ?st = "publish demo_bundle ''main.js'' None True (installBundleLoader bundle_init)"
  have i: "identityOf demo_bundle ?st (Some 0) = Some ''main.js''"
    by (simp add: identityOf_def mod_at_def publish_def new_record_def updateChildren_def installBundleLoader_def
        bundle_init_def Let_def)
  have n: "normalizeRequirableId ''./dep'' = None"
    by (simp add: normalizeRequirableId_def starts_with_def node_scheme_def builtinIds_def)
  from bundle_resolve_load_agree [OF i n] i show ?thesis by (auto simp: demo_bundle_def)
qed

text \<open>C3: a module that throws while loading leaves no trace.  Its \<open>Module._cache\<close> entry is
  gone, and its record is not among the children of the module that required it, so the next
  \<open>require\<close> runs it again.\<close>

theorem bundle_failed_load_no_trace:
  assumes "bundle_wf env st" "mcache st (posix_join [root env, t]) = None"
    and "loadIdentity d env t p im st = Some (Inl e, st')"
  shows "mcache st' (posix_join [root env, t]) = None \<and>
    (\<forall>q r cs. p = Some q \<and> mod_at st' q = Some r \<and> r_children r = Some cs \<longrightarrow> CMod (length (heap st)) \<notin> set cs)"
  using loadIdentity_failed [OF assms] by blast

theorem bundle_failed_load_no_trace_witness:
  "\<exists>e st'. loadIdentity 1 demo_bundle ''bad.js'' None False (installBundleLoader bundle_init) = Some (Inl e, st') \<and>
           mcache st' (posix_join [''/app'', ''bad.js'']) = None"
proof -
  have r: "root demo_bundle = ''/app''" by (simp add: demo_bundle_def)
  have n: "mcache (installBundleLoader bundle_init) f = None" for f
    by (simp add: installBundleLoader_def bundle_init_def)
  obtain e st' where *: "loadIdentity 1 demo_bundle ''bad.js'' None False (installBundleLoader bundle_init) = Some (Inl e, st')"
    using n by (simp add: loadIdentity_body_def run_payload_def nativeSidecars_def demo_bundle_def)
  from bundle_failed_load_no_trace [OF bundle_wf_init n *] * r show ?thesis by auto
qed

text \<open>Code of packaged modules that runs after their load, in callbacks: each piece belongs to a module record and an identity and has a nesting of its own for the loads it causes; it may throw.\<close>

fun run_later :: "bundle_env \<Rightarrow> (nat \<times> bundle_prog \<times> nat \<times> string) list \<Rightarrow> bundle_state \<Rightarrow> bundle_state option" where
  "run_later env [] st = Some st"
| "run_later env ((d, q, m, i) # later) st =
     (case exec_bundle q (loadIdentity d env) env m i st of None \<Rightarrow> None | Some (r, st) \<Rightarrow> run_later env later st)"

lemma run_later_kept:
  "list_all (\<lambda>(d, q, m, i). keeps_cache q) later \<Longrightarrow> run_later env later st = Some st' \<Longrightarrow> kept_le env st st'"
proof (induction later arbitrary: st)
  case (Cons c later)
  obtain d q m i where c: "c = (d, q, m, i)" by (cases c) auto
  then obtain r st1 where x: "exec_bundle q (loadIdentity d env) env m i st = Some (r, st1)" and y: "run_later env later st1 = Some st'"
    using Cons.prems(2) by (auto split: option.splits)
  have g: "kept.good_step env (exec_bundle q (loadIdentity d env) env m i)"
    by (rule kept.good_exec_bundle [OF kept.good_loadIdentity]) (use Cons.prems(1) c in simp)
  then show ?case using kept.R_trans [OF kept.good_stepD [OF g x]] Cons.IH [OF _ y] Cons.prems(1) by simp
qed (simp add: kept.R_refl)

text \<open>C4: bundled modules are singletons.  While packaged code leaves \<open>require.cache\<close> alone, an
  identity that was loaded keeps its module record: after whatever packaged code runs later, requires, loads and
  throws, every further load of the identity, from any importer and along any route, answers the exports of that same record, and
  nothing is loaded, executed or forwarded again.\<close>

theorem bundle_load_singleton:
  assumes "all_keep env" "loadIdentity d env t p im st = Some (Inr v, st')"
    and "list_all (\<lambda>(d, q, m, i). keeps_cache q) later" "run_later env later st' = Some st''"
  shows "\<exists>m st3. v = mod_exports st' m \<and> mcache st' (posix_join [root env, t]) = Some (CMod m) \<and>
    loadIdentity (Suc d') env t p' im' st'' = Some (Inr (mod_exports st'' m), st3) \<and>
    hostCalls st3 = hostCalls st'' \<and> mcache st3 = mcache st'' \<and> boot st3 = boot st''"
proof -
  obtain m where m: "mcache st' (posix_join [root env, t]) = Some (CMod m)" "v = mod_exports st' m"
    using loadIdentity_success_cached [OF assms(1,2)] by blast
  have "mcache st'' (posix_join [root env, t]) = Some (CMod m)" by (rule kept_cache [OF run_later_kept [OF assms(3,4)] assms(1) m(1)])
  then show ?thesis using m loadIdentity_cached [of st'' env t m d' p' im'] by auto
qed

text \<open>A load of the entry, with the modules it requires; then code of the entry loads a module that throws, and asks for a dependency again.\<close>

definition demo_later :: "(nat \<times> bundle_prog \<times> nat \<times> string) list" where
  "demo_later = [(3, BRequire (Str ''./bad'') (\<lambda>x. BThrow (JsError None ''late'')), 0, ''main.js''), (3, BRequire (Str ''./dep'') (\<lambda>x. BDone), 0, ''main.js'')]"

theorem bundle_load_singleton_witness:
  "\<exists>v st' st'' m st3. loadIdentity 4 demo_bundle ''main.js'' None True (installBundleLoader bundle_init) = Some (Inr v, st') \<and>
     run_later demo_bundle demo_later st' = Some st'' \<and>
     loadIdentity 1 demo_bundle ''main.js'' None False st'' = Some (Inr (mod_exports st'' m), st3) \<and> hostCalls st3 = hostCalls st''"
proof -
  have "(case loadIdentity 4 demo_bundle ''main.js'' None True (installBundleLoader bundle_init) of
      Some (Inr v, st') \<Rightarrow> (case run_later demo_bundle demo_later st' of None \<Rightarrow> False | Some st'' \<Rightarrow> True) | _ \<Rightarrow> False)" by code_simp
  then obtain v st' st'' where *: "loadIdentity 4 demo_bundle ''main.js'' None True (installBundleLoader bundle_init) = Some (Inr v, st')"
    "run_later demo_bundle demo_later st' = Some st''" by (auto split: option.splits sum.splits)
  have "list_all (\<lambda>(d, q, m, i). keeps_cache q) demo_later" by (simp add: demo_later_def)
  from bundle_load_singleton [OF demo_bundle_facts(3) *(1) this *(2), of 0 None False] * show ?thesis by auto
qed

text \<open>C5: a run returns.  If the container holds code for finitely many identities, packaged code leaves
  \<open>require.cache\<close> alone and the bootstrap loader answers, then loading nests no deeper than the number of
  identities not loaded yet, whatever cycles the requires form.\<close>

theorem bundle_run_returns:
  assumes "finite U" "code_in env U" "all_keep env" "boot_total env" "card (files_left env U st) < d"
  shows "\<exists>r st'. run_bundle d env st = Some (r, st')"
  using run_bundle_total [OF assms(4,3,1,2)] assms(5) by (fastforce simp: broom_def)

theorem bundle_run_returns_witness:
  "\<exists>r st'. run_bundle 4 demo_bundle (installBundleLoader bundle_init) = Some (r, st')"
proof (rule bundle_run_returns [OF _ demo_bundle_facts(4,3,2)])
  have "card (files_left demo_bundle {''main.js'', ''dep.js'', ''bad.js''} (installBundleLoader bundle_init))
      \<le> card ((\<lambda>t. posix_join [root demo_bundle, t]) ` {''main.js'', ''dep.js'', ''bad.js''})"
    by (rule card_mono) (auto simp: files_left_def)
  also have "\<dots> \<le> card {''main.js'', ''dep.js'', ''bad.js''}" by (rule card_image_le) simp
  also have "\<dots> < 4" by simp
  finally show "card (files_left demo_bundle {''main.js'', ''dep.js'', ''bad.js''} (installBundleLoader bundle_init)) < 4" .
qed simp

text \<open>The records stay consistent.  A run from the freshly installed loader ends, normally or by a
  throw, in a state where every cache entry is a record stored under its own filename, every bundled
  record's filename is the root joined with its identity, and every children array lists
  existing records without repetition.\<close>

theorem bundle_run_wf:
  assumes "run_bundle d env (installBundleLoader bundle_init) = Some (r, st')"
  shows "bundle_wf env st'"
  using wfb.run_bundle_R [OF assms] bundle_wf_init by (simp add: wf_step_def)

theorem bundle_run_wf_witness:
  "\<exists>r st'. run_bundle 4 demo_bundle (installBundleLoader bundle_init) = Some (r, st') \<and> bundle_wf demo_bundle st'"
  using demo_bundle_returns bundle_run_wf by blast

text \<open>Identities and filenames correspond.  For a normalised root, the identity that
  \<open>identityOf\<close> derives from the filename of a packaged module is that module's identity, so a \<open>require\<close>
  built by \<open>createRequire(__filename)\<close> has the same importer as the module's own.\<close>

theorem identity_filename_roundtrip:
  assumes "root env = abs_path rs" "list_all is_name rs" "list_all is_name is" "is \<noteq> []"
  shows "identity_of_filename env (posix_join [root env, js_join ''/'' is]) = Some (js_join ''/'' is)"
  using assms by (rule identity_of_join)

theorem identity_filename_roundtrip_witness:
  "identity_of_filename demo_bundle (posix_join [''/app'', ''lib/..x/dep.js'']) = Some ''lib/..x/dep.js''"
  using identity_filename_roundtrip [of demo_bundle "[''app'']" "[''lib'', ''..x'', ''dep.js'']"]
  by (simp add: demo_bundle_def is_name_def)

text \<open>The spelling under which a runtime-carried package is asked for.  For everything
  \<open>isEmbedded\<close> accepts, \<open>embeddedRequest\<close> gives a name that the original loader answers as a
  builtin without resolution, and it names the same package.\<close>

theorem embedded_request_normalizes:
  assumes "isEmbedded request"
  shows "normalizeRequirableId (embeddedRequest request) = Some (bare_name request)"
proof (cases "take 5 request = ''node:''")
  case True
  then have "starts_with request node_scheme" by (simp add: starts_with_def node_scheme_def eval_nat_numeral)
  with True embeddedRequest_forwardable [OF assms] show ?thesis
    by (auto simp: embeddedRequest_def bare_name_def normalizeRequirableId_def split: if_splits)
next
  case False
  then have "\<not> starts_with request node_scheme" by (simp add: starts_with_def node_scheme_def eval_nat_numeral)
  with assms have "request \<in> set allRequirableIds" by (simp add: isEmbedded_def isBuiltin_def)
  with False normalizeRequirableId_bare [of request] show ?thesis by (simp add: embeddedRequest_def bare_name_def)
qed

theorem embedded_request_normalizes_witness:
  "normalizeRequirableId ''ws'' = None \<and> normalizeRequirableId (embeddedRequest ''ws'') = Some ''ws''"
  using embedded_request_normalizes [of "''ws''"]
  by (simp add: isEmbedded_def isBuiltin_def allRequirableIds_def vendoredIds_def builtinIds_def bare_name_def
      normalizeRequirableId_def starts_with_def node_scheme_def eval_nat_numeral)

end
