(* ===== verification/NodePathWin32.thy ===== *)
theory NodePathWin32
  imports NodePath
begin

text \<open>
  \<open>path.win32\<close> (\<open>libjs-node/path.js\<close>, lines 185 to 1222), all of it but \<open>matchesGlob\<close>.  The four
  copies of the code that matches a UNC root are one definition, \<open>unc_match\<close>; the rest follows the
  source operation by operation, with its indices and flags.  Strings are sequences of Latin-1 code
  units, for which \<open>toLowerCase\<close> and \<open>toUpperCase\<close> are written out.  The working directories the
  operating system keeps (\<open>process.cwd()\<close> and the \<open>=X:\<close> variables of \<open>process.env\<close>) and the platform
  test \<open>isWindows\<close> are the fields of \<open>win_env\<close>.
\<close>

abbreviation (input) CHAR_COLON :: char where "CHAR_COLON \<equiv> CHR '':''"
abbreviation (input) CHAR_QUESTION_MARK :: char where "CHAR_QUESTION_MARK \<equiv> CHR ''?''"

abbreviation (input) BS :: char where "BS \<equiv> CHR 0x5C"

section \<open>Characters and reserved names\<close>

definition lower_char :: "char \<Rightarrow> char" where
  "lower_char c =
     (let n = of_char c :: nat
      in if 65 \<le> n \<and> n \<le> 90 \<or> 192 \<le> n \<and> n \<le> 222 \<and> n \<noteq> 215 then char_of (n + 32) else c)"

definition toLowerCase :: "string \<Rightarrow> string" where
  "toLowerCase s = map lower_char s"

text \<open>The upper case of a Latin-1 code unit need not be one: U+00B5, U+00FF and U+00DF leave the range.\<close>

definition upper_units :: "char \<Rightarrow> nat list" where
  "upper_units c =
     (let n = of_char c :: nat
      in if 97 \<le> n \<and> n \<le> 122 \<or> 224 \<le> n \<and> n \<le> 254 \<and> n \<noteq> 247 then [n - 32]
         else if n = 0xB5 then [0x39C] else if n = 0xFF then [0x178] else if n = 0xDF then [0x53, 0x53]
         else [n])"

definition toUpperCase :: "string \<Rightarrow> nat list" where
  "toUpperCase s = concat (map upper_units s)"

definition WINDOWS_RESERVED_NAMES :: "string list" where
  "WINDOWS_RESERVED_NAMES =
     [''CON'', ''PRN'', ''AUX'', ''NUL'',
      ''COM1'', ''COM2'', ''COM3'', ''COM4'', ''COM5'', ''COM6'', ''COM7'', ''COM8'', ''COM9'',
      ''LPT1'', ''LPT2'', ''LPT3'', ''LPT4'', ''LPT5'', ''LPT6'', ''LPT7'', ''LPT8'', ''LPT9'',
      ''COM'' @ [CHR 0xB9], ''COM'' @ [CHR 0xB2], ''COM'' @ [CHR 0xB3],
      ''LPT'' @ [CHR 0xB9], ''LPT'' @ [CHR 0xB2], ''LPT'' @ [CHR 0xB3]]"

definition isWindowsReservedName :: "string \<Rightarrow> int \<Rightarrow> bool" where
  "isWindowsReservedName path colonIndex =
     list_ex (\<lambda>name. map of_char name = toUpperCase (js_slice path 0 colonIndex)) WINDOWS_RESERVED_NAMES"

definition isWindowsDeviceRoot :: "char \<Rightarrow> bool" where
  "isWindowsDeviceRoot c =
     (let n = of_char c :: nat in 65 \<le> n \<and> n \<le> 90 \<or> 97 \<le> n \<and> n \<le> 122)"

text \<open>The tests on \<open>StringPrototypeCharCodeAt\<close>, which is \<open>NaN\<close> outside the string.\<close>

definition sep_at :: "string \<Rightarrow> int \<Rightarrow> bool" where
  "sep_at path i = (case char_at path i of None \<Rightarrow> False | Some c \<Rightarrow> isPathSeparator c)"

definition drive_at :: "string \<Rightarrow> bool" where
  "drive_at path =
     (case char_at path 0 of None \<Rightarrow> False
      | Some c \<Rightarrow> isWindowsDeviceRoot c \<and> char_at path 1 = Some CHAR_COLON)"

section \<open>Roots\<close>

text \<open>\<open>while (j < len \<and> test(path[j])) j++\<close>.\<close>

definition skip_while :: "(char \<Rightarrow> bool) \<Rightarrow> string \<Rightarrow> int \<Rightarrow> int" where
  "skip_while test path j =
     fst (up_loop (\<lambda>i u. (\<not> (case char_at path i of None \<Rightarrow> False | Some c \<Rightarrow> test c), u))
            j (int (length path)) ())"

text \<open>After two leading separators: the server name, and the start and the end of the share name.\<close>

definition unc_match :: "string \<Rightarrow> (string \<times> int \<times> int) option" where
  "unc_match path =
     (let len = int (length path);
          j = skip_while (\<lambda>c. \<not> isPathSeparator c) path 2
      in if j < len \<and> j \<noteq> 2 then
           (let firstPart = js_slice path 2 j;
                lastPos = j;
                j = skip_while isPathSeparator path j
            in if j < len \<and> j \<noteq> lastPos then
                 Some (firstPart, j, skip_while (\<lambda>c. \<not> isPathSeparator c) path j)
               else None)
         else None)"

record win_env =
  process_cwd :: string
  drive_cwd :: "string \<Rightarrow> string option"
  isWindows :: bool

section \<open>resolve\<close>

text \<open>The device, the end of the root and whether the path is absolute (lines 233 to 307).\<close>

definition resolve_root :: "string \<Rightarrow> string \<times> int \<times> bool" where
  "resolve_root path =
     (let len = int (length path) in
      if len = 1 then (if sep_at path 0 then ([], 1, True) else ([], 0, False))
      else if sep_at path 0 then
        (if sep_at path 1 then
           (case unc_match path of
              None \<Rightarrow> ([], 0, True)
            | Some (firstPart, lastPos, j) \<Rightarrow>
                if j = len \<or> j \<noteq> lastPos then
                  (if firstPart \<noteq> ''.'' \<and> firstPart \<noteq> ''?''
                   then ([BS, BS] @ firstPart @ [BS] @ js_slice path lastPos j, j, True)
                   else ([BS, BS] @ firstPart, 4, True))
                else ([], 0, True))
         else ([], 1, True))
      else if drive_at path then
        (if len > 2 \<and> sep_at path 2 then (js_slice path 0 2, 3, True) else (js_slice path 0 2, 2, False))
      else ([], 0, False))"

record res_state =
  resolvedDevice :: string
  resolvedTail :: string
  resolvedAbsolute :: bool

text \<open>One iteration: whether the loop breaks, and the new state (lines 309 to 331).\<close>

definition resolve_step :: "string \<Rightarrow> res_state \<Rightarrow> bool \<times> res_state" where
  "resolve_step path s =
     (case resolve_root path of
        (device, rootEnd, isAbsolute) \<Rightarrow>
          if length device > 0 \<and> length (resolvedDevice s) > 0
             \<and> toLowerCase device \<noteq> toLowerCase (resolvedDevice s) then (False, s)
          else
            (let s = (if length device > 0 \<and> length (resolvedDevice s) = 0
                      then s\<lparr>resolvedDevice := device\<rparr> else s)
             in if resolvedAbsolute s then (length (resolvedDevice s) > 0, s)
                else
                  (let s = s\<lparr>resolvedTail := js_slice_from path rootEnd @ [BS] @ resolvedTail s,
                             resolvedAbsolute := isAbsolute\<rparr>
                   in (isAbsolute \<and> length (resolvedDevice s) > 0, s))))"

fun resolve_args :: "string list \<Rightarrow> res_state \<Rightarrow> bool \<times> res_state" where
  "resolve_args [] s = (False, s)"
| "resolve_args (path # rest) s =
     (if length path = 0 then resolve_args rest s
      else (case resolve_step path s of (brk, s) \<Rightarrow> if brk then (True, s) else resolve_args rest s))"

text \<open>The working directory of the drive that was resolved, or of the process.\<close>

definition device_cwd :: "win_env \<Rightarrow> string \<Rightarrow> string" where
  "device_cwd env dev =
     (let path = (case drive_cwd env dev of
                    Some p \<Rightarrow> if p = [] then process_cwd env else p
                  | None \<Rightarrow> process_cwd env)
      in if toLowerCase (js_slice path 0 2) \<noteq> toLowerCase dev \<and> char_at path 2 = Some CHAR_BACKWARD_SLASH
         then dev @ [BS] else path)"

definition win32_resolve :: "win_env \<Rightarrow> string list \<Rightarrow> string" where
  "win32_resolve env args =
     (case resolve_args (rev args) \<lparr>resolvedDevice = [], resolvedTail = [], resolvedAbsolute = False\<rparr> of
        (brk, s) \<Rightarrow>
          if \<not> brk \<and> length (resolvedDevice s) = 0
             \<and> (args = [] \<or> (args = [[]] \<or> args = [''.'']) \<and> sep_at (process_cwd env) 0)
          then (if isWindows env then process_cwd env
                else map (\<lambda>c. if c = CHAR_FORWARD_SLASH then BS else c) (process_cwd env))
          else
            (let s = (if brk then s
                      else if length (resolvedDevice s) = 0 then snd (resolve_step (process_cwd env) s)
                      else snd (resolve_step (device_cwd env (resolvedDevice s)) s));
                 tail = normalizeString (resolvedTail s) (\<not> resolvedAbsolute s) BS isPathSeparator
             in if resolvedAbsolute s then resolvedDevice s @ [BS] @ tail
                else if resolvedDevice s @ tail = [] then ''.'' else resolvedDevice s @ tail))"

section \<open>normalize, isAbsolute, join\<close>

text \<open>The root \<open>normalize\<close> matches: either the whole result, or the device (if any), the end of the
  root and whether the path is absolute.\<close>

datatype norm_root = Whole string | Root "string option" int bool

definition normalize_root :: "string \<Rightarrow> norm_root" where
  "normalize_root path =
     (let len = int (length path) in
      if sep_at path 0 then
        (if sep_at path 1 then
           (case unc_match path of
              None \<Rightarrow> Root None 0 True
            | Some (firstPart, lastPos, j) \<Rightarrow>
                if j = len \<or> j \<noteq> lastPos then
                  (if firstPart = ''.'' \<or> firstPart = ''?'' then
                     (let colonIndex = index_of path CHAR_COLON;
                          possibleDevice = js_slice path 4 (colonIndex + 1)
                      in if isWindowsReservedName possibleDevice (int (length possibleDevice) - 1)
                         then Root (Some ([BS, BS, CHAR_QUESTION_MARK, BS] @ possibleDevice))
                                (4 + int (length possibleDevice)) True
                         else Root (Some ([BS, BS] @ firstPart)) 4 True)
                   else if j = len then
                     Whole ([BS, BS] @ firstPart @ [BS] @ js_slice_from path lastPos @ [BS])
                   else Root (Some ([BS, BS] @ firstPart @ [BS] @ js_slice path lastPos j)) j True)
                else Root None 0 True)
         else Root None 1 True)
      else
        (let colonIndex = index_of path CHAR_COLON in
         if colonIndex > 0 then
           (if (case char_at path 0 of None \<Rightarrow> False | Some c \<Rightarrow> isWindowsDeviceRoot c) \<and> colonIndex = 1 then
              (if len > 2 \<and> sep_at path 2 then Root (Some (js_slice path 0 2)) 3 True
               else Root (Some (js_slice path 0 2)) 2 False)
            else if isWindowsReservedName path colonIndex then
              Root (Some (js_slice path 0 (colonIndex + 1))) (colonIndex + 1) False
            else Root None 0 False)
         else Root None 0 False))"

text \<open>The tail after the root, normalised (lines 446 to 454).\<close>

definition normalize_tail :: "string \<Rightarrow> int \<Rightarrow> bool \<Rightarrow> string" where
  "normalize_tail path rootEnd isAbsolute =
     (let len = int (length path);
          tail = (if rootEnd < len
                  then normalizeString (js_slice_from path rootEnd) (\<not> isAbsolute) BS isPathSeparator
                  else []);
          tail = (if length tail = 0 \<and> \<not> isAbsolute then ''.'' else tail)
      in if length tail > 0 \<and> sep_at path (len - 1) then tail @ [BS] else tail)"

text \<open>Some colon of the path is its last character or stands before a separator (the loop of lines
  465 to 471).\<close>

definition colon_ends_segment :: "string \<Rightarrow> bool" where
  "colon_ends_segment path =
     list_ex (\<lambda>index. path ! index = CHAR_COLON
                      \<and> (index = length path - 1 \<or> sep_at path (int index + 1))) [0..<length path]"

definition normalize_finish :: "string \<Rightarrow> string option \<Rightarrow> bool \<Rightarrow> string \<Rightarrow> string" where
  "normalize_finish path device isAbsolute tail =
     (if \<not> isAbsolute \<and> device = None \<and> CHAR_COLON \<in> set path
         \<and> (length tail \<ge> 2 \<and> drive_at tail \<or> colon_ends_segment path)
      then [CHAR_DOT, BS] @ tail
      else if isWindowsReservedName path (index_of path CHAR_COLON)
      then [CHAR_DOT, BS] @ (case device of None \<Rightarrow> [] | Some d \<Rightarrow> d) @ tail
      else
        (case device of
           None \<Rightarrow> if isAbsolute then [BS] @ tail else tail
         | Some d \<Rightarrow> if isAbsolute then d @ [BS] @ tail else d @ tail))"

definition win32_normalize :: "string \<Rightarrow> string" where
  "win32_normalize path =
     (if length path = 0 then ''.''
      else if length path = 1 then (if char_at path 0 = Some CHAR_FORWARD_SLASH then [BS] else path)
      else
        (case normalize_root path of
           Whole r \<Rightarrow> r
         | Root device rootEnd isAbsolute \<Rightarrow>
             normalize_finish path device isAbsolute (normalize_tail path rootEnd isAbsolute)))"

definition win32_isAbsolute :: "string \<Rightarrow> bool" where
  "win32_isAbsolute path =
     (length path \<noteq> 0 \<and> (sep_at path 0 \<or> (length path > 2 \<and> drive_at path \<and> sep_at path 2)))"

text \<open>How many leading separators the first argument shows, and whether it is a UNC path.\<close>

definition join_slashes :: "string \<Rightarrow> nat \<times> bool" where
  "join_slashes firstPart =
     (if sep_at firstPart 0 then
        (if length firstPart > 1 \<and> sep_at firstPart 1 then
           (if length firstPart > 2 then (if sep_at firstPart 2 then (3, True) else (2, False))
            else (2, True))
         else (1, True))
      else (0, True))"

text \<open>The parts between backslashes.\<close>

function join_parts :: "string \<Rightarrow> string \<Rightarrow> string list" where
  "join_parts part [] = (if part \<noteq> [] then [part] else [])"
| "join_parts part (c # cs) =
     (if c = BS then (if part \<noteq> [] then [part] else []) @ join_parts [] (dropWhile (\<lambda>d. d = BS) cs)
      else join_parts (part @ [c]) cs)"
  by pat_completeness auto
termination
  by (relation "measure (\<lambda>(part, cs). length cs)") (auto simp: le_imp_less_Suc length_dropWhile_le)

definition win32_join :: "string list \<Rightarrow> string" where
  "win32_join args =
     (if length args = 0 then ''.''
      else
        (let path = filter (\<lambda>arg. length arg > 0) args in
         if length path = 0 then ''.''
         else
           (let joined = js_join [BS] path;
                (slashCount, needsReplace) = join_slashes (hd path);
                joined =
                  (if needsReplace then
                     (let slashCount = skip_while isPathSeparator joined (int slashCount)
                      in if slashCount \<ge> 2 then [BS] @ js_slice_from joined slashCount else joined)
                   else joined)
            in if list_ex (\<lambda>p. index_of p CHAR_COLON \<noteq> -1 \<and> isWindowsReservedName p (index_of p CHAR_COLON))
                  (join_parts [] joined)
               then map (\<lambda>c. if c = CHAR_FORWARD_SLASH then BS else c) joined
               else win32_normalize joined)))"

section \<open>relative\<close>

text \<open>The branch for paths whose lower case has another length (lines 629 to 663): component by component.\<close>

definition pop_empty :: "string list \<Rightarrow> string list" where
  "pop_empty xs = (if xs \<noteq> [] \<and> List.last xs = [] then butlast xs else xs)"

definition relative_split :: "string \<Rightarrow> string \<Rightarrow> string" where
  "relative_split fromOrig toOrig =
     (let fromSplit = pop_empty (split_by (\<lambda>c. c = BS) fromOrig);
          toSplit = pop_empty (split_by (\<lambda>c. c = BS) toOrig);
          fromLen = length fromSplit;
          toLen = length toSplit;
          len = (if fromLen < toLen then fromLen else toLen);
          i = nat (fst (up_loop (\<lambda>i u. (toLowerCase (fromSplit ! nat i) \<noteq> toLowerCase (toSplit ! nat i), u))
                          0 (int len) ()))
      in if i = 0 then toOrig
         else if i = len then
           (if toLen > len then js_join [BS] (drop i toSplit)
            else if fromLen > len then concat (replicate (fromLen - 1 - i) [CHAR_DOT, CHAR_DOT, BS]) @ ''..''
            else [])
         else concat (replicate (fromLen - i) [CHAR_DOT, CHAR_DOT, BS]) @ js_join [BS] (drop i toSplit))"

text \<open>The bounds of a path without the backslashes around it (lines 665 to 693).\<close>

function trim_end :: "string \<Rightarrow> int \<Rightarrow> int \<Rightarrow> int" where
  "trim_end s start end' =
     (if end' - 1 > start \<and> char_at s (end' - 1) = Some CHAR_BACKWARD_SLASH
      then trim_end s start (end' - 1) else end')"
  by pat_completeness auto
termination
  by (relation "measure (\<lambda>(s, start, end'). nat (end' - start))") auto

declare trim_end.simps [simp del]

definition trim_bounds :: "string \<Rightarrow> int \<times> int" where
  "trim_bounds s =
     (let start = skip_while (\<lambda>c. c = CHAR_BACKWARD_SLASH) s 0
      in (start, trim_end s start (int (length s))))"

definition win_relative_scan :: "string \<Rightarrow> int \<Rightarrow> string \<Rightarrow> int \<Rightarrow> int \<Rightarrow> int \<times> int" where
  "win_relative_scan from fromStart to toStart len =
     up_loop (\<lambda>i lastCommonSep.
        if char_at from (fromStart + i) \<noteq> char_at to (toStart + i) then (True, lastCommonSep)
        else if char_at from (fromStart + i) = Some CHAR_BACKWARD_SLASH then (False, i)
        else (False, lastCommonSep)) 0 len (-1)"

definition win_relative_ups :: "string \<Rightarrow> int \<Rightarrow> int \<Rightarrow> string" where
  "win_relative_ups from start fromEnd =
     snd (up_loop (\<lambda>i out.
        if i = fromEnd \<or> char_at from i = Some CHAR_BACKWARD_SLASH
        then (False, out @ (if length out = 0 then ''..'' else [BS, CHAR_DOT, CHAR_DOT]))
        else (False, out)) start (fromEnd + 1) [])"

text \<open>The last common separator when one path is a prefix of the other (lines 726 to 739).\<close>

definition prefix_sep :: "string \<Rightarrow> int \<Rightarrow> int \<Rightarrow> int \<Rightarrow> int \<Rightarrow> int \<Rightarrow> int" where
  "prefix_sep from fromStart fromLen len i lastCommonSep =
     (let l = (if fromLen > len then
                 (if char_at from (fromStart + i) = Some CHAR_BACKWARD_SLASH then i
                  else if i = 2 then 3 else lastCommonSep)
               else lastCommonSep)
      in if l = -1 then 0 else l)"

definition relative_tail :: "string \<Rightarrow> int \<Rightarrow> int \<Rightarrow> int \<Rightarrow> string \<Rightarrow> int \<Rightarrow> int \<Rightarrow> string" where
  "relative_tail from fromStart fromEnd lastCommonSep toOrig toStart toEnd =
     (let out = win_relative_ups from (fromStart + lastCommonSep + 1) fromEnd;
          toStart = toStart + lastCommonSep
      in if length out > 0 then out @ js_slice toOrig toStart toEnd
         else js_slice toOrig (if char_at toOrig toStart = Some CHAR_BACKWARD_SLASH then toStart + 1 else toStart) toEnd)"

definition relative_resolved :: "string \<Rightarrow> string \<Rightarrow> string" where
  "relative_resolved fromOrig toOrig =
     (let from = toLowerCase fromOrig;
          to = toLowerCase toOrig
      in if from = to then []
         else if length fromOrig \<noteq> length from \<or> length toOrig \<noteq> length to then relative_split fromOrig toOrig
         else
           (let (fromStart, fromEnd) = trim_bounds from;
                fromLen = fromEnd - fromStart;
                (toStart, toEnd) = trim_bounds to;
                toLen = toEnd - toStart;
                len = (if fromLen < toLen then fromLen else toLen);
                (i, lastCommonSep) = win_relative_scan from fromStart to toStart len
            in if i \<noteq> len then
                 (if lastCommonSep = -1 then toOrig
                  else relative_tail from fromStart fromEnd lastCommonSep toOrig toStart toEnd)
               else if toLen > len \<and> char_at to (toStart + i) = Some CHAR_BACKWARD_SLASH
               then js_slice_from toOrig (toStart + i + 1)
               else if toLen > len \<and> i = 2 then js_slice_from toOrig (toStart + i)
               else relative_tail from fromStart fromEnd
                      (prefix_sep from fromStart fromLen len i lastCommonSep) toOrig toStart toEnd))"

definition win32_relative :: "win_env \<Rightarrow> string \<Rightarrow> string \<Rightarrow> string" where
  "win32_relative env from to =
     (if from = to then []
      else
        (let fromOrig = win32_resolve env [from]; toOrig = win32_resolve env [to]
         in if fromOrig = toOrig then [] else relative_resolved fromOrig toOrig))"

definition win32_toNamespacedPath :: "win_env \<Rightarrow> string \<Rightarrow> string" where
  "win32_toNamespacedPath env path =
     (if length path = 0 then path
      else
        (let r = win32_resolve env [path] in
         if length r \<le> 2 then path
         else if char_at r 0 = Some CHAR_BACKWARD_SLASH then
           (if char_at r 1 = Some CHAR_BACKWARD_SLASH
               \<and> char_at r 2 \<noteq> Some CHAR_QUESTION_MARK \<and> char_at r 2 \<noteq> Some CHAR_DOT
            then [BS, BS, CHAR_QUESTION_MARK, BS] @ ''UNC'' @ [BS] @ js_slice_from r 2
            else r)
         else if drive_at r \<and> char_at r 2 = Some CHAR_BACKWARD_SLASH
         then [BS, BS, CHAR_QUESTION_MARK, BS] @ r
         else r))"

section \<open>dirname, basename, extname\<close>

text \<open>The end of the root, and whether the path is a UNC root only.\<close>

definition dirname_root :: "string \<Rightarrow> bool \<times> int" where
  "dirname_root path =
     (let len = int (length path) in
      if sep_at path 0 then
        (if sep_at path 1 then
           (case unc_match path of
              None \<Rightarrow> (False, 1)
            | Some (firstPart, lastPos, j) \<Rightarrow>
                if j = len then (True, 1) else if j \<noteq> lastPos then (False, j + 1) else (False, 1))
         else (False, 1))
      else if drive_at path then (False, if len > 2 \<and> sep_at path 2 then 3 else 2)
      else (False, -1))"

definition win_dirname_body :: "string \<Rightarrow> int \<Rightarrow> int \<times> bool \<Rightarrow> bool \<times> int \<times> bool" where
  "win_dirname_body path i =
     (\<lambda>(end, matchedSlash).
        if sep_at path i then
          (if \<not> matchedSlash then (True, (i, matchedSlash)) else (False, (end, matchedSlash)))
        else (False, (end, False)))"

definition win32_dirname :: "string \<Rightarrow> string" where
  "win32_dirname path =
     (if length path = 0 then ''.''
      else if length path = 1 then (if sep_at path 0 then path else ''.'')
      else
        (case dirname_root path of
           (unc_only, rootEnd) \<Rightarrow>
             if unc_only then path
             else
               (let offset = (if rootEnd = -1 then 0 else rootEnd);
                    (end, matchedSlash) =
                      down_loop (win_dirname_body path) offset (int (length path) - 1) (-1, True)
                in if end = -1 then (if rootEnd = -1 then ''.'' else js_slice path 0 rootEnd)
                   else js_slice path 0 end)))"

definition win_basename_suffix_body :: "string \<Rightarrow> string \<Rightarrow> int \<Rightarrow> base_scan \<Rightarrow> bool \<times> base_scan" where
  "win_basename_suffix_body path suffix i s =
     (if sep_at path i then
        (if \<not> bs_matchedSlash s then (True, s\<lparr>bs_start := i + 1\<rparr>) else (False, s))
      else
        (let s = (if bs_firstNonSlashEnd s = -1
                  then s\<lparr>bs_matchedSlash := False, bs_firstNonSlashEnd := i + 1\<rparr> else s)
         in (False,
             if bs_extIdx s \<ge> 0 then
               (if char_at path i = char_at suffix (bs_extIdx s) then
                  (if bs_extIdx s - 1 = -1 then s\<lparr>bs_extIdx := bs_extIdx s - 1, bs_end := i\<rparr>
                   else s\<lparr>bs_extIdx := bs_extIdx s - 1\<rparr>)
                else s\<lparr>bs_extIdx := -1, bs_end := bs_firstNonSlashEnd s\<rparr>)
             else s)))"

definition win_basename_body :: "string \<Rightarrow> int \<Rightarrow> int \<times> int \<times> bool \<Rightarrow> bool \<times> int \<times> int \<times> bool" where
  "win_basename_body path i =
     (\<lambda>(start, end, matchedSlash).
        if sep_at path i then
          (if \<not> matchedSlash then (True, (i + 1, end, matchedSlash))
           else (False, (start, end, matchedSlash)))
        else if end = -1 then (False, (start, i + 1, False))
        else (False, (start, end, matchedSlash)))"

definition win_basename_plain :: "string \<Rightarrow> int \<Rightarrow> string" where
  "win_basename_plain path start =
     (let (start, end, m) = down_loop (win_basename_body path) start (int (length path) - 1) (start, -1, True)
      in if end = -1 then [] else js_slice path start end)"

definition win32_basename :: "string \<Rightarrow> string option \<Rightarrow> string" where
  "win32_basename path suffix =
     (let start = (if length path \<ge> 2 \<and> drive_at path then 2 else 0) in
      case suffix of
        Some suf \<Rightarrow>
          if length suf > 0 \<and> length suf \<le> length path then
            (if suf = path then []
             else
               (let s = down_loop (win_basename_suffix_body path suf) start (int (length path) - 1)
                          \<lparr>bs_start = start, bs_end = -1, bs_matchedSlash = True,
                           bs_extIdx = int (length suf) - 1, bs_firstNonSlashEnd = -1\<rparr>;
                    end = (if bs_start s = bs_end s then bs_firstNonSlashEnd s
                           else if bs_end s = -1 then int (length path) else bs_end s)
                in js_slice path (bs_start s) end))
          else win_basename_plain path start
      | None \<Rightarrow> win_basename_plain path start)"

definition win_ext_scan_body :: "string \<Rightarrow> int \<Rightarrow> ext_scan \<Rightarrow> bool \<times> ext_scan" where
  "win_ext_scan_body path i s =
     (if sep_at path i then
        (if \<not> matchedSlash s then (True, s\<lparr>startPart := i + 1\<rparr>) else (False, s))
      else
        (let s = (if scanEnd s = -1 then s\<lparr>matchedSlash := False, scanEnd := i + 1\<rparr> else s)
         in (False,
             if char_at path i = Some CHAR_DOT then
               (if startDot s = -1 then s\<lparr>startDot := i\<rparr>
                else if preDotState s \<noteq> 1 then s\<lparr>preDotState := 1\<rparr> else s)
             else if startDot s \<noteq> -1 then s\<lparr>preDotState := -1\<rparr>
             else s)))"

definition win_ext_scan :: "string \<Rightarrow> int \<Rightarrow> ext_scan" where
  "win_ext_scan path start =
     down_loop (win_ext_scan_body path) start (int (length path) - 1)
       \<lparr>startDot = -1, startPart = start, scanEnd = -1, matchedSlash = True, preDotState = 0\<rparr>"

definition win32_extname :: "string \<Rightarrow> string" where
  "win32_extname path =
     (let s = win_ext_scan path (if length path \<ge> 2 \<and> drive_at path then 2 else 0)
      in if scanEnd s = -1 \<or> no_ext s then [] else js_slice path (startDot s) (scanEnd s))"

section \<open>parse\<close>

definition empty_parsed :: path_object where
  "empty_parsed =
     \<lparr>po_root = Some [], po_dir = Some [], po_base = Some [], po_ext = Some [], po_name = Some []\<rparr>"

text \<open>The end of the root, or the early exit for a path that is its own root.\<close>

definition parse_root :: "string \<Rightarrow> int option" where
  "parse_root path =
     (let len = int (length path) in
      if sep_at path 0 then
        (if sep_at path 1 then
           (case unc_match path of
              None \<Rightarrow> Some 1
            | Some (firstPart, lastPos, j) \<Rightarrow>
                if j = len then Some j else if j \<noteq> lastPos then Some (j + 1) else Some 1)
         else Some 1)
      else if drive_at path then
        (if len \<le> 2 then None
         else if sep_at path 2 then (if len = 3 then None else Some 3)
         else Some 2)
      else Some 0)"

definition win_parse_ret :: "string \<Rightarrow> int \<Rightarrow> ext_scan \<Rightarrow> path_object" where
  "win_parse_ret path rootEnd s =
     (let ret = empty_parsed\<lparr>po_root := Some (if rootEnd > 0 then js_slice path 0 rootEnd else [])\<rparr>;
          ret =
            (if scanEnd s \<noteq> -1 then
               (if no_ext s then
                  ret\<lparr>po_base := Some (js_slice path (startPart s) (scanEnd s)),
                      po_name := Some (js_slice path (startPart s) (scanEnd s))\<rparr>
                else
                  ret\<lparr>po_name := Some (js_slice path (startPart s) (startDot s)),
                      po_base := Some (js_slice path (startPart s) (scanEnd s)),
                      po_ext := Some (js_slice path (startDot s) (scanEnd s))\<rparr>)
             else ret)
      in if startPart s > 0 \<and> startPart s \<noteq> rootEnd
         then ret\<lparr>po_dir := Some (js_slice path 0 (startPart s - 1))\<rparr>
         else ret\<lparr>po_dir := po_root ret\<rparr>)"

definition win32_parse :: "string \<Rightarrow> path_object" where
  "win32_parse path =
     (if length path = 0 then empty_parsed
      else if length path = 1 then
        (if sep_at path 0 then empty_parsed\<lparr>po_root := Some path, po_dir := Some path\<rparr>
         else empty_parsed\<lparr>po_base := Some path, po_name := Some path\<rparr>)
      else
        (case parse_root path of
           None \<Rightarrow> empty_parsed\<lparr>po_root := Some path, po_dir := Some path\<rparr>
         | Some rootEnd \<Rightarrow> win_parse_ret path rootEnd (win_ext_scan path rootEnd)))"

end
