(* ===== verification/NodePathWin32Props.thy ===== *)
theory NodePathWin32Props
  imports NodePathWin32
begin

text \<open>
  Theorems on \<open>path.win32\<close>.  First what the normalised tail of a path can look like; then
  \<open>normalize\<close>, which never changes the kind of a path (this is what the check added for
  CVE-2024-36139 is for), and \<open>resolve\<close>, which yields an absolute path.
\<close>

section \<open>Tails\<close>

lemma split_acc_chars: "x \<in> set (split_acc P acc s) \<Longrightarrow> set x \<subseteq> set acc \<union> set s"
  by (induction s arbitrary: acc) (fastforce split: if_splits)+

lemma split_by_chars: "x \<in> set (split_by P s) \<Longrightarrow> set x \<subseteq> set s"
  using split_acc_chars [of x P "[]" s] by (simp add: split_by_def)

lemma foldl_push_members:
  "x \<in> set (foldl (norm_push allow) stk segs) \<Longrightarrow> x \<in> set stk \<or> x \<noteq> [] \<and> (x = ''..'' \<or> x \<in> set segs)"
proof (induction segs arbitrary: stk)
  case (Cons seg segs)
  have "y \<in> set stk \<or> y \<noteq> [] \<and> (y = ''..'' \<or> y = seg)" if "y \<in> set (norm_push allow stk seg)" for y
    using that by (auto simp: norm_push_def split: if_splits list.splits)
  then show ?case using Cons.IH [of "norm_push allow stk seg"] Cons.prems by fastforce
qed simp

lemma normalize_segs_members:
  "x \<in> set (normalize_segs allow segs) \<Longrightarrow> x \<noteq> [] \<and> (x = ''..'' \<or> x \<in> set segs)"
  using foldl_push_members [of x allow "[]" segs] by (simp add: normalize_segs_def)

lemma hd_js_join: "xs \<noteq> [] \<Longrightarrow> hd xs \<noteq> [] \<Longrightarrow> hd (js_join sep xs) = hd (hd xs)"
  by (cases xs; cases "tl xs") auto

lemma win_normalizeString:
  "normalizeString p allow BS isPathSeparator = js_join [BS] (normalize_segs allow (split_by isPathSeparator p))"
  by (rule normalizeString_eq_segs) (simp_all add: isPathSeparator_def)

lemma win_tail_chars: "set (normalizeString p allow BS isPathSeparator) \<subseteq> {BS, CHAR_DOT} \<union> set p"
proof -
  have "set x \<subseteq> {CHAR_DOT} \<union> set p" if "x \<in> set (normalize_segs allow (split_by isPathSeparator p))" for x
    using normalize_segs_members [OF that] split_by_chars [of x isPathSeparator p] by auto
  then show ?thesis unfolding win_normalizeString
    using set_js_join [of "[BS]" "normalize_segs allow (split_by isPathSeparator p)"] by fastforce
qed

lemma win_tail_head:
  assumes "normalizeString p allow BS isPathSeparator \<noteq> []"
  shows "\<not> isPathSeparator (hd (normalizeString p allow BS isPathSeparator))"
proof -
  let ?ss = "normalize_segs allow (split_by isPathSeparator p)"
  have ne: "?ss \<noteq> []" using assms unfolding win_normalizeString by auto
  then have "hd ?ss \<noteq> []" "hd ?ss = ''..'' \<or> hd ?ss \<in> set (split_by isPathSeparator p)"
    using normalize_segs_members [OF hd_in_set [OF ne]] by auto
  moreover have "\<not> isPathSeparator c" if "x \<in> set (split_by isPathSeparator p)" "c \<in> set x" for x c
    using split_by_seg_no_sep [OF that(1)] that(2) by (auto simp: list_all_iff)
  moreover have "\<not> isPathSeparator (hd ''..'')" by (simp add: isPathSeparator_def)
  ultimately have "\<not> isPathSeparator (hd (hd ?ss))" using hd_in_set [of "hd ?ss"] by metis
  then show ?thesis unfolding win_normalizeString using hd_js_join [OF ne \<open>hd ?ss \<noteq> []\<close>] by simp
qed

lemma normalize_tail_head:
  "(isAbs \<or> normalize_tail path r isAbs \<noteq> []) \<and>
   (normalize_tail path r isAbs = [] \<or> \<not> isPathSeparator (hd (normalize_tail path r isAbs)))"
proof -
  let ?n = "normalizeString (js_slice_from path r) (\<not> isAbs) BS isPathSeparator"
  have d: "\<not> isPathSeparator CHAR_DOT" by (simp add: isPathSeparator_def)
  show ?thesis using win_tail_head [of "js_slice_from path r" "\<not> isAbs"] d
    by (auto simp: normalize_tail_def Let_def)
qed

lemma set_js_slice_from: "set (js_slice_from s i) \<subseteq> set s"
  by (auto simp: js_slice_from_def dest: in_set_dropD)

lemma normalize_tail_colon: "CHAR_COLON \<in> set (normalize_tail path r isAbs) \<Longrightarrow> CHAR_COLON \<in> set path"
  using win_tail_chars [of "js_slice_from path r" "\<not> isAbs"] set_js_slice_from [of path r]
  by (auto simp: normalize_tail_def Let_def split: if_splits)

section \<open>normalize keeps the kind of a path\<close>

text \<open>The drive a path names.\<close>

definition drive_of :: "string \<Rightarrow> string option" where
  "drive_of path = (if drive_at path then Some (take 2 path) else None)"

lemma sep_at_0: "sep_at p 0 \<longleftrightarrow> p \<noteq> [] \<and> isPathSeparator (hd p)"
  by (cases p) (auto simp: sep_at_def char_at_def)

lemma drive_at_iff: "drive_at p \<longleftrightarrow> (\<exists>l rest. p = l # CHAR_COLON # rest \<and> isWindowsDeviceRoot l)"
  by (cases p; cases "tl p") (auto simp: drive_at_def char_at_def)

lemma sep_not_letter: "isPathSeparator c \<Longrightarrow> \<not> isWindowsDeviceRoot c"
  by (auto simp: isPathSeparator_def isWindowsDeviceRoot_def)

lemma colon_not_letter: "\<not> isWindowsDeviceRoot CHAR_COLON" "\<not> isWindowsDeviceRoot CHAR_DOT"
  "\<not> isPathSeparator CHAR_DOT" "isPathSeparator BS" "\<not> isPathSeparator CHAR_COLON"
  by (simp_all add: isWindowsDeviceRoot_def isPathSeparator_def)

lemma sep_not_drive: "sep_at p 0 \<Longrightarrow> \<not> drive_at p"
  using sep_not_letter by (auto simp: sep_at_0 drive_at_iff)

lemma reserved_not_sep:
  assumes "sep_at p 0" shows "\<not> isWindowsReservedName p k"
proof -
  obtain c rest where p: "p = c # rest" "isPathSeparator c" using assms by (cases p) (auto simp: sep_at_0)
  have "js_slice p 0 k = [] \<or> (\<exists>r. js_slice p 0 k = c # r)"
    using p by (auto simp: js_slice_def Let_def take_Cons' drop_Cons' slice_index_def)
  then show ?thesis using p(2)
    by (auto simp: isWindowsReservedName_def WINDOWS_RESERVED_NAMES_def toUpperCase_def upper_units_def isPathSeparator_def)
qed

lemma reserved_not_single: "\<not> isWindowsReservedName (l # rest) 1"
proof -
  have "js_slice (l # rest) 0 1 = [l]" by (simp add: js_slice_def slice_index_def)
  then show ?thesis
    by (simp add: isWindowsReservedName_def WINDOWS_RESERVED_NAMES_def toUpperCase_def upper_units_def Let_def)
qed

lemma index_of_drive: "isWindowsDeviceRoot l \<Longrightarrow> index_of (l # CHAR_COLON # rest) CHAR_COLON = 1"
  using colon_not_letter by (auto simp: index_of_def)

lemma index_of_from_ge: "index_of_from i c xs = -1 \<or> i \<le> index_of_from i c xs"
  by (induction i c xs rule: index_of_from.induct) fastforce+

lemma index_of_1: "index_of p c = 1 \<Longrightarrow> char_at p 1 = Some c"
  using index_of_from_ge [of 2 c "tl (tl p)"]
  by (cases p; cases "tl p") (auto simp: index_of_def char_at_def split: if_splits)

lemma normalize_root_sep:
  assumes "sep_at p 0"
  shows "(\<exists>r. normalize_root p = Whole (BS # r)) \<or>
         (\<exists>e. normalize_root p = Root None e True) \<or> (\<exists>d e. normalize_root p = Root (Some (BS # d)) e True)"
  using assms by (auto simp: normalize_root_def Let_def split: option.splits)

lemma normalize_sep:
  assumes "sep_at p 0" shows "\<exists>r. win32_normalize p = BS # r"
proof (cases "length p < 2")
  case True
  then obtain c where "p = [c]" using assms by (cases p; cases "tl p") (auto simp: sep_at_0)
  then show ?thesis using assms by (auto simp: win32_normalize_def sep_at_0 char_at_def isPathSeparator_def)
next
  case False
  from normalize_root_sep [OF assms] False reserved_not_sep [OF assms] show ?thesis
    by (auto simp: win32_normalize_def normalize_finish_def)
qed

lemma normalize_drive:
  assumes "isWindowsDeviceRoot l"
  shows "\<exists>t. (t = [] \<or> \<not> isPathSeparator (hd t)) \<and> win32_normalize (l # CHAR_COLON # rest) =
    l # CHAR_COLON # (if rest \<noteq> [] \<and> isPathSeparator (hd rest) then BS # t else t)"
proof -
  let ?p = "l # CHAR_COLON # rest"
  have s0: "\<not> sep_at ?p 0" using assms sep_not_letter by (auto simp: sep_at_0)
  have s2: "sep_at ?p 2 \<longleftrightarrow> rest \<noteq> [] \<and> isPathSeparator (hd rest)"
    by (cases rest) (auto simp: sep_at_def char_at_def)
  have "normalize_root ?p = (if rest \<noteq> [] \<and> isPathSeparator (hd rest)
      then Root (Some [l, CHAR_COLON]) 3 True else Root (Some [l, CHAR_COLON]) 2 False)"
    using s0 s2 assms index_of_drive [OF assms, of rest]
    by (auto simp: normalize_root_def Let_def char_at_def split: if_splits)
  then show ?thesis
    using normalize_tail_head [of True ?p 3] normalize_tail_head [of False ?p 2] index_of_drive [OF assms, of rest] reserved_not_single
    by (auto simp: win32_normalize_def normalize_finish_def)
qed

lemma normalize_relative:
  assumes "\<not> sep_at p 0" "\<not> drive_at p"
  shows "\<not> sep_at (win32_normalize p) 0" "\<not> drive_at (win32_normalize p)"
proof -
  have dot: "\<not> sep_at (CHAR_DOT # r) 0" "\<not> drive_at (CHAR_DOT # r)" for r
    using colon_not_letter by (auto simp: sep_at_0 drive_at_iff)
  have "\<not> sep_at (win32_normalize p) 0 \<and> \<not> drive_at (win32_normalize p)"
  proof (cases "length p < 2")
    case True
    then have "p = [] \<or> (\<exists>c. p = [c])" by (cases p; cases "tl p") auto
    then show ?thesis using assms dot by (auto simp: win32_normalize_def sep_at_0 isPathSeparator_def char_at_def drive_at_iff)
  next
    case False
    have L: "((case char_at p 0 of None \<Rightarrow> False | Some c \<Rightarrow> isWindowsDeviceRoot c) \<and> index_of p CHAR_COLON = 1) = False"
      using assms(2) index_of_1 [of p CHAR_COLON] by (auto simp: drive_at_def split: option.splits)
    have "\<exists>device e. normalize_root p = Root device e False
        \<and> (device = None \<or> isWindowsReservedName p (index_of p CHAR_COLON))"
      unfolding normalize_root_def Let_def L using assms(1) by (simp split: if_split)
    then obtain device e where root: "normalize_root p = Root device e False"
      and dev: "device = None \<or> isWindowsReservedName p (index_of p CHAR_COLON)" by blast
    let ?t = "normalize_tail p e False"
    have "?t \<noteq> []" "\<not> sep_at ?t 0" using normalize_tail_head [of False p e] by (auto simp: sep_at_0)
    moreover have "drive_at ?t \<Longrightarrow> 2 \<le> length ?t \<and> CHAR_COLON \<in> set p"
      using normalize_tail_colon [of p e False] by (auto simp: drive_at_iff)
    moreover have "win32_normalize p = normalize_finish p device False ?t"
      using root False by (auto simp: win32_normalize_def)
    ultimately show ?thesis using dev dot by (auto simp: normalize_finish_def)
  qed
  then show "\<not> sep_at (win32_normalize p) 0" "\<not> drive_at (win32_normalize p)" by auto
qed

section \<open>resolve yields an absolute path\<close>

text \<open>What the operating system is expected to report as a working directory: a drive root followed by
  a backslash, or a path from the root of the current drive; not a UNC path.\<close>

definition win_cwd_ok :: "string \<Rightarrow> bool" where
  "win_cwd_ok p \<longleftrightarrow> drive_at p \<and> char_at p 2 = Some BS \<or> sep_at p 0 \<and> \<not> sep_at p 1"

definition is_drive :: "string \<Rightarrow> bool" where
  "is_drive d \<longleftrightarrow> (\<exists>l. d = [l, CHAR_COLON] \<and> isWindowsDeviceRoot l)"

lemma resolve_root_shape:
  assumes "resolve_root p = (d, e, a)" shows "d = [] \<or> is_drive d \<or> a \<and> sep_at d 0"
proof -
  have "drive_at p \<Longrightarrow> is_drive (js_slice p 0 2)" by (auto simp: drive_at_iff is_drive_def)
  then show ?thesis using assms colon_not_letter(4)
    by (auto simp: resolve_root_def Let_def sep_at_0 split: if_splits option.splits)
qed

lemma resolve_root_ok:
  assumes "win_cwd_ok p"
  shows "\<exists>e. resolve_root p = (if drive_at p then take 2 p else [], e, True)"
proof (cases "drive_at p")
  case True
  then obtain l rest where p: "p = l # CHAR_COLON # rest" "isWindowsDeviceRoot l" by (auto simp: drive_at_iff)
  have "\<not> sep_at p 0" using True sep_not_drive by blast
  moreover have "2 < length p" "sep_at p 2"
    using assms calculation colon_not_letter(4) by (auto simp: win_cwd_ok_def sep_at_def char_at_def split: if_splits)
  ultimately show ?thesis using True by (simp add: resolve_root_def Let_def)
next
  case False
  with assms have "sep_at p 0" "\<not> sep_at p 1" by (auto simp: win_cwd_ok_def)
  then show ?thesis using False by (simp add: resolve_root_def Let_def)
qed

text \<open>While the loop runs, a device that was found is a drive and no absolute path was seen on it; once
  it stops, the path is absolute.\<close>

definition resolving :: "res_state \<Rightarrow> bool" where
  "resolving s \<longleftrightarrow> resolvedDevice s = [] \<or> is_drive (resolvedDevice s) \<and> \<not> resolvedAbsolute s"

definition resolved :: "res_state \<Rightarrow> bool" where
  "resolved s \<longleftrightarrow> resolvedAbsolute s \<and>
     (resolvedDevice s = [] \<or> is_drive (resolvedDevice s) \<or> sep_at (resolvedDevice s) 0)"

lemma resolve_step_inv:
  assumes "resolving s" "resolve_step p s = (brk, s')"
  shows "if brk then resolved s' else resolving s'"
proof -
  obtain d e a where r: "resolve_root p = (d, e, a)" by (cases "resolve_root p") auto
  from resolve_root_shape [OF r] assms show ?thesis
    unfolding resolve_step_def r by (auto simp: Let_def resolving_def resolved_def split: if_splits)
qed

lemma resolve_args_inv:
  "resolving s \<Longrightarrow> resolve_args ps s = (brk, s') \<Longrightarrow> if brk then resolved s' else resolving s'"
proof (induction ps s rule: resolve_args.induct)
  case (2 p ps s)
  obtain b t where st: "resolve_step p s = (b, t)" by (cases "resolve_step p s") auto
  from resolve_step_inv [OF 2(3) st] show ?case using 2 st by (cases "p = []"; cases b) auto
qed simp

lemma resolve_step_cwd:
  assumes "win_cwd_ok p" "resolving s"
    and "resolvedDevice s \<noteq> [] \<Longrightarrow> drive_at p \<Longrightarrow> toLowerCase (take 2 p) = toLowerCase (resolvedDevice s)"
  shows "resolved (snd (resolve_step p s))"
proof -
  obtain e where r: "resolve_root p = (if drive_at p then take 2 p else [], e, True)"
    using resolve_root_ok [OF assms(1)] by auto
  have "drive_at p \<Longrightarrow> is_drive (take 2 p)" by (auto simp: drive_at_iff is_drive_def)
  then show ?thesis using assms(2,3) unfolding resolve_step_def r by (auto simp: Let_def resolving_def resolved_def)
qed

definition cwds_ok :: "win_env \<Rightarrow> bool" where
  "cwds_ok env \<longleftrightarrow> win_cwd_ok (process_cwd env) \<and>
     (\<forall>dev p. drive_cwd env dev = Some p \<longrightarrow> p = [] \<or> win_cwd_ok p)"

lemma device_cwd_ok:
  assumes "cwds_ok env" "is_drive dev"
  shows "win_cwd_ok (device_cwd env dev)"
    and "drive_at (device_cwd env dev) \<Longrightarrow> toLowerCase (take 2 (device_cwd env dev)) = toLowerCase dev"
proof -
  define p where "p = (case drive_cwd env dev of Some p \<Rightarrow> if p = [] then process_cwd env else p | None \<Rightarrow> process_cwd env)"
  have p: "win_cwd_ok p" using assms(1) by (auto simp: cwds_ok_def p_def split: option.splits)
  have c: "device_cwd env dev = (if toLowerCase (take 2 p) \<noteq> toLowerCase dev \<and> char_at p 2 = Some BS then dev @ [BS] else p)"
    by (simp add: device_cwd_def p_def Let_def)
  have d: "win_cwd_ok (dev @ [BS])" "take 2 (dev @ [BS]) = dev"
    using assms(2) by (auto simp: is_drive_def win_cwd_ok_def drive_at_iff char_at_def)
  show "win_cwd_ok (device_cwd env dev)" using c p d by simp
  assume "drive_at (device_cwd env dev)"
  moreover have "drive_at p \<Longrightarrow> char_at p 2 = Some BS" using p sep_not_drive by (auto simp: win_cwd_ok_def)
  ultimately show "toLowerCase (take 2 (device_cwd env dev)) = toLowerCase dev" using c d by (auto split: if_splits)
qed

lemma resolved_absolute: "resolved s \<Longrightarrow> win32_isAbsolute (resolvedDevice s @ [BS] @ tail)"
  using colon_not_letter(4)
  by (auto simp: resolved_def is_drive_def win32_isAbsolute_def sep_at_0 drive_at_iff sep_at_def [of _ 2] char_at_def)

lemma cwd_absolute: "win_cwd_ok p \<Longrightarrow> win32_isAbsolute p"
  using colon_not_letter(4) by (auto simp: win_cwd_ok_def win32_isAbsolute_def sep_at_def char_at_def split: if_splits)

lemma cwd_ok_backslashes:
  assumes "win_cwd_ok p" shows "win_cwd_ok (map (\<lambda>c. if c = CHAR_FORWARD_SLASH then BS else c) p)"
proof -
  let ?f = "\<lambda>c. if c = CHAR_FORWARD_SLASH then BS else c"
  have c: "char_at (map ?f p) i = map_option ?f (char_at p i)" for i by (auto simp: char_at_def)
  have s: "sep_at (map ?f p) i = sep_at p i" for i
    by (auto simp: sep_at_def c isPathSeparator_def split: option.splits)
  have "drive_at p \<Longrightarrow> drive_at (map ?f p)"
    by (auto simp: drive_at_iff isWindowsDeviceRoot_def)
  then show ?thesis using assms by (auto simp: win_cwd_ok_def s c)
qed

lemma win32_resolve_abs:
  assumes "cwds_ok env" shows "win32_isAbsolute (win32_resolve env args)"
proof -
  obtain brk s where ra: "resolve_args (rev args) \<lparr>resolvedDevice = [], resolvedTail = [], resolvedAbsolute = False\<rparr> = (brk, s)"
    by fastforce
  have inv: "if brk then resolved s else resolving s"
    by (rule resolve_args_inv [OF _ ra]) (simp add: resolving_def)
  define t where "t = (if brk then s
                      else if length (resolvedDevice s) = 0 then snd (resolve_step (process_cwd env) s)
                      else snd (resolve_step (device_cwd env (resolvedDevice s)) s))"
  have cwd: "win_cwd_ok (process_cwd env)" using assms by (simp add: cwds_ok_def)
  have t: "resolved t"
  proof (cases "brk \<or> resolvedDevice s = []")
    case True
    then show ?thesis using inv resolve_step_cwd [OF cwd, of s] by (auto simp: t_def)
  next
    case False
    then have "resolving s" "is_drive (resolvedDevice s)" using inv by (auto simp: resolving_def)
    then show ?thesis using False resolve_step_cwd device_cwd_ok [OF assms] by (simp add: t_def)
  qed
  then have "resolvedAbsolute t" by (simp add: resolved_def)
  then have "win32_resolve env args = process_cwd env \<or>
      win32_resolve env args = map (\<lambda>c. if c = CHAR_FORWARD_SLASH then BS else c) (process_cwd env) \<or>
      win32_resolve env args = resolvedDevice t @ [BS] @ normalizeString (resolvedTail t) False BS isPathSeparator"
    unfolding win32_resolve_def ra prod.case t_def [symmetric] by (simp add: Let_def)
  then show ?thesis
    using cwd_absolute [OF cwd] cwd_absolute [OF cwd_ok_backslashes [OF cwd]] resolved_absolute [OF t]
    by (elim disjE) (simp_all only:)
qed

section \<open>Properties\<close>

text \<open>C8: \<open>path.win32.normalize\<close> keeps the kind of a path: the result is absolute exactly when the path
  is, and names a drive exactly when the path does, the same one.  In particular no sequence of dots,
  separators and colons turns a relative path into one on a drive (CVE-2024-36139).\<close>

theorem win32_normalize_keeps_kind:
  "win32_isAbsolute (win32_normalize p) = win32_isAbsolute p \<and> drive_of (win32_normalize p) = drive_of p"
proof -
  consider "sep_at p 0" | l rest where "p = l # CHAR_COLON # rest" "isWindowsDeviceRoot l" | "\<not> sep_at p 0" "\<not> drive_at p"
    by (auto simp: drive_at_iff)
  then show ?thesis
  proof cases
    case 1
    obtain r where r: "win32_normalize p = BS # r" using normalize_sep [OF 1] by blast
    then have "sep_at (win32_normalize p) 0" by (simp add: sep_at_0 colon_not_letter)
    then show ?thesis using 1 r sep_not_drive by (auto simp: win32_isAbsolute_def drive_of_def sep_at_0)
  next
    case 2
    obtain t where t: "t = [] \<or> \<not> isPathSeparator (hd t)" "win32_normalize (l # CHAR_COLON # rest) =
        l # CHAR_COLON # (if rest \<noteq> [] \<and> isPathSeparator (hd rest) then BS # t else t)"
      using normalize_drive [OF 2(2), of rest] by auto
    have abs: "win32_isAbsolute (l # CHAR_COLON # x) \<longleftrightarrow> x \<noteq> [] \<and> isPathSeparator (hd x)" for x
      using 2(2) sep_not_letter by (cases x) (auto simp: win32_isAbsolute_def sep_at_0 drive_at_iff sep_at_def [of _ 2] char_at_def)
    have drv: "drive_of (l # CHAR_COLON # x) = Some [l, CHAR_COLON]" for x using 2(2) by (auto simp: drive_of_def drive_at_iff)
    show ?thesis using t(1) unfolding 2(1) t(2) abs drv by (auto simp: colon_not_letter)
  next
    case 3
    then show ?thesis using normalize_relative [OF 3] by (simp add: win32_isAbsolute_def drive_of_def)
  qed
qed

text \<open>\<open>path.win32.resolve\<close> yields an absolute path, whatever its arguments, if the working directories
  the system reports are rooted on a drive (\<open>X:\\\<close>) or on the current one.\<close>

theorem win32_resolve_is_absolute:
  "cwds_ok env \<Longrightarrow> win32_isAbsolute (win32_resolve env args)"
  by (rule win32_resolve_abs)

theorem win32_resolve_is_absolute_witness:
  "win32_isAbsolute (win32_resolve
     \<lparr>process_cwd = ''C:'' @ [BS] @ ''home'', drive_cwd = (\<lambda>d. if d = ''D:'' then Some (''D:'' @ [BS] @ ''x'') else None), isWindows = True\<rparr>
     [''a'', ''D:b''])"
  by (rule win32_resolve_is_absolute)
     (auto simp: cwds_ok_def win_cwd_ok_def drive_at_iff isWindowsDeviceRoot_def char_at_def)

text \<open>\<open>path.win32.normalize\<close> of a path without a colon tests the path without its last character
  against the reserved device names, so \<open>CONx\<close> is taken for the device \<open>CON\<close>; the function is not
  idempotent there.\<close>

theorem win32_normalize_reserved_prefix:
  "win32_normalize ''CONx'' = [CHAR_DOT, BS] @ ''CONx'' \<and> win32_normalize ([CHAR_DOT, BS] @ ''CONx'') = ''CONx''"
  by code_simp

end
