(* ===== verification/ProcessEvents.thy ===== *)
theory ProcessEvents
  imports JsPrelude
begin

text \<open>
  The event methods of \<open>process\<close> (\<open>libjs/process-events.js\<close>).  \<open>handlers\<close> is an ordinary object,
  so the names of \<open>Object.prototype\<close> are found on it without having been set.  A listener is a
  user function or one of the wrapper closures made by \<open>once\<close>; what a user function does with
  \<open>process\<close> when it is called is a tree of actions, a parameter of the model.  A result
  of \<open>None\<close> is a computation that does not return; the first argument of \<open>apply_fn\<close> bounds the
  nesting of calls.
\<close>

section \<open>Listeners, state\<close>

datatype pfn = User nat | Wrapper nat

datatype parg = ArgStr string | ArgFn pfn | ArgNum int

datatype pprog =
    PDone
  | PThrow js_error
  | POn string pfn "unit result \<Rightarrow> pprog"
  | PPrepend string pfn "unit result \<Rightarrow> pprog"
  | POnce string pfn "unit result \<Rightarrow> pprog"
  | PPrependOnce string pfn "unit result \<Rightarrow> pprog"
  | POff string pfn "unit result \<Rightarrow> pprog"
  | PRemoveAll "string option" pprog
  | PEmit string "parg list" "bool result \<Rightarrow> pprog"

text \<open>\<open>wrappers\<close> are the closures made so far, with the event and the function each captured;
  \<open>calls\<close> the user functions called, newest first.\<close>

record proc_state =
  handlers :: "string \<Rightarrow> pfn list option"
  wrappers :: "(string \<times> pfn) list"
  exiting :: bool
  exitCode :: "int option"
  calls :: "(nat \<times> parg list) list"

type_synonym 'a proc_step = "proc_state \<Rightarrow> ('a result \<times> proc_state) option"

type_synonym bodies = "nat \<Rightarrow> parg list \<Rightarrow> pprog"

definition proc_init :: proc_state where
  "proc_init = \<lparr>handlers = Map.empty, wrappers = [], exiting = False, exitCode = None, calls = []\<rparr>"

definition object_prototype :: "string list" where
  "object_prototype =
     [''constructor'', ''__defineGetter__'', ''__defineSetter__'', ''hasOwnProperty'', ''__lookupGetter__'',
      ''__lookupSetter__'', ''isPrototypeOf'', ''propertyIsEnumerable'', ''toString'', ''valueOf'',
      ''__proto__'', ''toLocaleString'']"

text \<open>What \<open>handlers[event]\<close> is: absent, an array, or something inherited, on which the array
  methods do not exist.\<close>

datatype slot = Absent | Listeners "pfn list" | Inherited

definition handler_slot :: "proc_state \<Rightarrow> string \<Rightarrow> slot" where
  "handler_slot st event =
     (case handlers st event of
        Some list \<Rightarrow> Listeners list
      | None \<Rightarrow> if event \<in> set object_prototype then Inherited else Absent)"

definition not_a_function :: js_error where
  "not_a_function = JsError None ''undefined is not a function''"

definition set_list :: "string \<Rightarrow> pfn list \<Rightarrow> proc_state \<Rightarrow> proc_state" where
  "set_list event list st = st\<lparr>handlers := (handlers st)(event \<mapsto> list)\<rparr>"

section \<open>off, removeAllListeners, the queries\<close>

definition proc_off :: "string \<Rightarrow> pfn \<Rightarrow> proc_state \<Rightarrow> unit result \<times> proc_state" where
  "proc_off event fn st =
     (case handler_slot st event of
        Absent \<Rightarrow> (Inr (), st)
      | Inherited \<Rightarrow> (Inl not_a_function, st)
      | Listeners list \<Rightarrow> (Inr (), set_list event (remove1 fn list) st))"

definition removeAllListeners :: "string option \<Rightarrow> proc_state \<Rightarrow> proc_state" where
  "removeAllListeners event st =
     (case event of
        Some e \<Rightarrow> st\<lparr>handlers := (handlers st)(e := None)\<rparr>
      | None \<Rightarrow> st\<lparr>handlers := Map.empty\<rparr>)"

definition proc_listeners :: "proc_state \<Rightarrow> string \<Rightarrow> pfn list result" where
  "proc_listeners st event =
     (case handler_slot st event of
        Absent \<Rightarrow> Inr [] | Inherited \<Rightarrow> Inl not_a_function | Listeners list \<Rightarrow> Inr list)"

section \<open>emit and on\<close>

text \<open>Calling a listener is a parameter \<open>app\<close>: it is \<open>apply_fn\<close> with less nesting left.\<close>

fun call_all :: "(pfn \<Rightarrow> parg list \<Rightarrow> unit proc_step) \<Rightarrow> pfn list \<Rightarrow> parg list \<Rightarrow> unit proc_step" where
  "call_all app [] args st = Some (Inr (), st)"
| "call_all app (f # fs) args st =
     (case app f args st of
        None \<Rightarrow> None
      | Some (Inl e, st') \<Rightarrow> Some (Inl e, st')
      | Some (Inr _, st') \<Rightarrow> call_all app fs args st')"

definition proc_emit ::
  "(pfn \<Rightarrow> parg list \<Rightarrow> unit proc_step) \<Rightarrow> string \<Rightarrow> parg list \<Rightarrow> bool proc_step" where
  "proc_emit app event args st =
     (case handler_slot st event of
        Absent \<Rightarrow> Some (Inr False, st)
      | Inherited \<Rightarrow> Some (Inl not_a_function, st)
      | Listeners copy \<Rightarrow>
          (case call_all app copy args st of
             None \<Rightarrow> None
           | Some (Inl e, st') \<Rightarrow> Some (Inl e, st')
           | Some (Inr _, st') \<Rightarrow> Some (Inr True, st')))"

text \<open>\<open>on\<close> and \<open>prependListener\<close> differ in the end at which the listener is added.\<close>

definition add_listener ::
  "bool \<Rightarrow> (pfn \<Rightarrow> parg list \<Rightarrow> unit proc_step) \<Rightarrow> string \<Rightarrow> pfn \<Rightarrow> unit proc_step" where
  "add_listener prepend app event fn st =
     (let st = (if handler_slot st event = Absent then set_list event [] st else st) in
      case (if event \<noteq> ''newListener'' then proc_emit app ''newListener'' [ArgStr event, ArgFn fn] st
            else Some (Inr True, st)) of
        None \<Rightarrow> None
      | Some (Inl e, st') \<Rightarrow> Some (Inl e, st')
      | Some (Inr _, st') \<Rightarrow>
          (case handler_slot st' event of
             Listeners list \<Rightarrow>
               Some (Inr (), set_list event (if prepend then fn # list else list @ [fn]) st')
           | _ \<Rightarrow> Some (Inl not_a_function, st')))"

definition proc_on :: "(pfn \<Rightarrow> parg list \<Rightarrow> unit proc_step) \<Rightarrow> string \<Rightarrow> pfn \<Rightarrow> unit proc_step" where
  "proc_on = add_listener False"

definition prependListener :: "(pfn \<Rightarrow> parg list \<Rightarrow> unit proc_step) \<Rightarrow> string \<Rightarrow> pfn \<Rightarrow> unit proc_step" where
  "prependListener = add_listener True"

definition new_wrapper :: "string \<Rightarrow> pfn \<Rightarrow> proc_state \<Rightarrow> pfn \<times> proc_state" where
  "new_wrapper event fn st = (Wrapper (length (wrappers st)), st\<lparr>wrappers := wrappers st @ [(event, fn)]\<rparr>)"

definition proc_once :: "(pfn \<Rightarrow> parg list \<Rightarrow> unit proc_step) \<Rightarrow> string \<Rightarrow> pfn \<Rightarrow> unit proc_step" where
  "proc_once app event fn st = (case new_wrapper event fn st of (w, st) \<Rightarrow> proc_on app event w st)"

definition prependOnceListener ::
  "(pfn \<Rightarrow> parg list \<Rightarrow> unit proc_step) \<Rightarrow> string \<Rightarrow> pfn \<Rightarrow> unit proc_step" where
  "prependOnceListener app event fn st =
     (case new_wrapper event fn st of (w, st) \<Rightarrow> prependListener app event w st)"

section \<open>Running listeners\<close>

primrec exec_proc :: "pprog \<Rightarrow> (pfn \<Rightarrow> parg list \<Rightarrow> unit proc_step) \<Rightarrow> unit proc_step" where
  "exec_proc PDone app st = Some (Inr (), st)"
| "exec_proc (PThrow e) app st = Some (Inl e, st)"
| "exec_proc (POn ev f k) app st =
     (case proc_on app ev f st of None \<Rightarrow> None | Some (r, st') \<Rightarrow> exec_proc (k r) app st')"
| "exec_proc (PPrepend ev f k) app st =
     (case prependListener app ev f st of None \<Rightarrow> None | Some (r, st') \<Rightarrow> exec_proc (k r) app st')"
| "exec_proc (POnce ev f k) app st =
     (case proc_once app ev f st of None \<Rightarrow> None | Some (r, st') \<Rightarrow> exec_proc (k r) app st')"
| "exec_proc (PPrependOnce ev f k) app st =
     (case prependOnceListener app ev f st of None \<Rightarrow> None | Some (r, st') \<Rightarrow> exec_proc (k r) app st')"
| "exec_proc (POff ev f k) app st =
     (case proc_off ev f st of (r, st') \<Rightarrow> exec_proc (k r) app st')"
| "exec_proc (PRemoveAll ev p) app st = exec_proc p app (removeAllListeners ev st)"
| "exec_proc (PEmit ev args k) app st =
     (case proc_emit app ev args st of None \<Rightarrow> None | Some (r, st') \<Rightarrow> exec_proc (k r) app st')"

text \<open>A user function runs its body; a wrapper takes itself off its event and then calls the
  function it captured.\<close>

fun apply_fn :: "nat \<Rightarrow> bodies \<Rightarrow> pfn \<Rightarrow> parg list \<Rightarrow> unit proc_step" where
  "apply_fn 0 bd f args st = None"
| "apply_fn (Suc d) bd (User u) args st =
     exec_proc (bd u args) (apply_fn d bd) (st\<lparr>calls := (u, args) # calls st\<rparr>)"
| "apply_fn (Suc d) bd (Wrapper w) args st =
     (if w < length (wrappers st) then
        (case wrappers st ! w of
           (event, fn) \<Rightarrow>
             (case proc_off event (Wrapper w) st of
                (Inl e, st') \<Rightarrow> Some (Inl e, st')
              | (Inr _, st') \<Rightarrow> apply_fn d bd fn args st'))
      else Some (Inl not_a_function, st))"

section \<open>_fatalException and emitWarning\<close>

definition fatalException ::
  "(pfn \<Rightarrow> parg list \<Rightarrow> unit proc_step) \<Rightarrow> string \<Rightarrow> bool \<Rightarrow> bool proc_step" where
  "fatalException app er fromPromise st =
     (let type = (if fromPromise then ''unhandledRejection'' else ''uncaughtException'');
          args = [ArgStr er, ArgStr type]
      in
      case proc_emit app ''uncaughtExceptionMonitor'' args st of
        None \<Rightarrow> None
      | Some (Inl e, st) \<Rightarrow> Some (Inl e, st)
      | Some (Inr _, st) \<Rightarrow>
          (case proc_emit app ''uncaughtException'' args st of
             None \<Rightarrow> None
           | Some (Inl e, st) \<Rightarrow> Some (Inl e, st)
           | Some (Inr True, st) \<Rightarrow> Some (Inr True, st)
           | Some (Inr False, st) \<Rightarrow>
               if exiting st then Some (Inr False, st)
               else
                 (case proc_emit app ''exit'' [ArgNum 1] (st\<lparr>exiting := True, exitCode := Some 1\<rparr>) of
                    None \<Rightarrow> None
                  | Some (_, st) \<Rightarrow> Some (Inr False, st))))"

text \<open>\<open>emitWarning\<close>: a string becomes an error named by the type, which may come as the
  \<open>type\<close> or \<open>name\<close> of an options object.\<close>

record warning_opts =
  wo_type :: "string option"
  wo_name :: "string option"
  wo_code :: "string option"

datatype warn_type = WNone | WStr string | WObj warning_opts

record warning_error =
  we_message :: string
  we_name :: string
  we_code :: "string option"

definition or_string :: "string option \<Rightarrow> string option \<Rightarrow> string option" where
  "or_string a b = (case a of Some s \<Rightarrow> if s = [] then b else Some s | None \<Rightarrow> b)"

definition warning_of :: "string \<Rightarrow> warn_type \<Rightarrow> string option \<Rightarrow> warning_error" where
  "warning_of message type code =
     (let (t, c) = (case type of
                      WObj opts \<Rightarrow> (or_string (wo_type opts) (wo_name opts), wo_code opts)
                    | WStr s \<Rightarrow> (Some s, code)
                    | WNone \<Rightarrow> (None, code))
      in \<lparr>we_message = message,
          we_name = (case or_string t None of Some n \<Rightarrow> n | None \<Rightarrow> ''Warning''),
          we_code = or_string c None\<rparr>)"

section \<open>Lemmas\<close>

lemma handler_slot_simps [simp]:
  "handler_slot (set_list ev l st) ev' = (if ev' = ev then Listeners l else handler_slot st ev')"
  "handler_slot (st\<lparr>calls := c\<rparr>) ev' = handler_slot st ev'"
  "handler_slot (st\<lparr>wrappers := w\<rparr>) ev' = handler_slot st ev'"
  "handler_slot (st\<lparr>exiting := b, exitCode := x\<rparr>) ev' = handler_slot st ev'"
  by (simp_all add: handler_slot_def set_list_def)

lemma set_list_fields [simp]:
  "calls (set_list ev l st) = calls st" "wrappers (set_list ev l st) = wrappers st"
  "set_list ev l (set_list ev l' st) = set_list ev l st"
  "set_list ev l (st\<lparr>calls := c\<rparr>) = (set_list ev l st)\<lparr>calls := c\<rparr>"
  by (simp_all add: set_list_def)

lemma add_listener_quiet:
  assumes "handler_slot st ''newListener'' = Absent" "ev \<noteq> ''newListener''" "handler_slot st ev \<noteq> Inherited"
  shows "add_listener prepend app ev f st = Some (Inr (),
    set_list ev (let l = (case handler_slot st ev of Listeners l \<Rightarrow> l | _ \<Rightarrow> []) in if prepend then f # l else l @ [f]) st)"
  using assms by (cases "handler_slot st ev") (auto simp: add_listener_def proc_emit_def Let_def)

lemma call_all_append:
  "call_all app (xs @ ys) args st =
     (case call_all app xs args st of
        None \<Rightarrow> None
      | Some (Inl e, st') \<Rightarrow> Some (Inl e, st')
      | Some (Inr _, st') \<Rightarrow> call_all app ys args st')"
  by (induction xs arbitrary: st) (auto split: option.split sum.split)

text \<open>Listeners that do nothing with \<open>process\<close> are called in order.\<close>

lemma call_all_users:
  assumes "\<And>u args. bd u args = PDone"
  shows "call_all (apply_fn (Suc d) bd) (map User us) args st =
    Some (Inr (), st\<lparr>calls := rev (map (\<lambda>u. (u, args)) us) @ calls st\<rparr>)"
  by (induction us arbitrary: st) (simp_all add: assms)

lemma remove1_snoc: "x \<notin> set xs \<Longrightarrow> remove1 x (xs @ [x]) = xs"
  by (induction xs) auto

section \<open>Properties\<close>

text \<open>A listener added with \<open>once\<close> after other listeners is called by the first \<open>emit\<close>, after
  them and in order, and by no later one.\<close>

theorem process_once_fires_once:
  assumes quiet: "\<And>u args. bd u args = PDone"
    and st: "handler_slot st ev = Listeners (map User us)" "handler_slot st ''newListener'' = Absent" "ev \<noteq> ''newListener''"
  shows "\<exists>st1 st2 st3.
    proc_once (apply_fn (Suc (Suc d)) bd) ev (User u) st = Some (Inr (), st1) \<and>
    proc_emit (apply_fn (Suc (Suc d)) bd) ev args st1 = Some (Inr True, st2) \<and>
    calls st2 = (u, args) # rev (map (\<lambda>v. (v, args)) us) @ calls st \<and>
    proc_emit (apply_fn (Suc (Suc d)) bd) ev args' st2 = Some (Inr True, st3) \<and>
    calls st3 = rev (map (\<lambda>v. (v, args')) us) @ calls st2"
proof -
  let ?app = "apply_fn (Suc (Suc d)) bd" and ?w = "Wrapper (length (wrappers st))"
  let ?st1 = "set_list ev (map User us @ [?w]) (st\<lparr>wrappers := wrappers st @ [(ev, User u)]\<rparr>)"
  let ?st2 = "(set_list ev (map User us) ?st1)\<lparr>calls := (u, args) # rev (map (\<lambda>v. (v, args)) us) @ calls st\<rparr>"
  have w: "remove1 ?w (map User us @ [?w]) = map User us" by (rule remove1_snoc) auto
  have 1: "proc_once ?app ev (User u) st = Some (Inr (), ?st1)"
    using st by (simp add: proc_once_def new_wrapper_def proc_on_def add_listener_quiet)
  have 2: "proc_emit ?app ev args ?st1 = Some (Inr True, ?st2)"
    using w by (simp add: proc_emit_def call_all_append call_all_users [OF quiet] proc_off_def nth_append quiet
        del: apply_fn.simps(2)) (simp add: quiet)
  have 3: "proc_emit ?app ev args' ?st2 = Some (Inr True, ?st2\<lparr>calls := rev (map (\<lambda>v. (v, args')) us) @ calls ?st2\<rparr>)"
    by (simp add: proc_emit_def call_all_users [OF quiet])
  show ?thesis using 1 2 3 by (intro exI conjI) (assumption | simp)+
qed

theorem process_once_fires_once_witness:
  "\<exists>st1 st2 st3.
    proc_once (apply_fn 2 (\<lambda>u a. PDone)) ''data'' (User 7) (set_list ''data'' [User 1] proc_init) = Some (Inr (), st1) \<and>
    proc_emit (apply_fn 2 (\<lambda>u a. PDone)) ''data'' [] st1 = Some (Inr True, st2) \<and> calls st2 = [(7, []), (1, [])] \<and>
    proc_emit (apply_fn 2 (\<lambda>u a. PDone)) ''data'' [] st2 = Some (Inr True, st3) \<and> calls st3 = [(1, []), (7, []), (1, [])]"
  using process_once_fires_once [of "\<lambda>u a. PDone" "set_list ''data'' [User 1] proc_init" "''data''" "[1]" 0 7 "[]" "[]"]
  by (auto simp: handler_slot_def proc_init_def object_prototype_def set_list_def numeral_2_eq_2)

text \<open>When nobody ever listened for uncaught exceptions, \<open>_fatalException\<close> answers false, so
  that the caller reports the error and exits, whatever the exit listeners do.\<close>

theorem fatal_exception_unhandled:
  assumes "handler_slot st ''uncaughtException'' = Absent" "handler_slot st ''uncaughtExceptionMonitor'' = Absent"
    and "fatalException app er fromPromise st = Some (r, st')"
  shows "r = Inr False"
  using assms by (auto simp: fatalException_def proc_emit_def Let_def split: if_splits option.splits)

theorem fatal_exception_unhandled_witness:
  "\<exists>r st'. fatalException (apply_fn 1 (\<lambda>u a. PDone)) ''boom'' False (set_list ''exit'' [] proc_init) = Some (r, st') \<and> r = Inr False"
proof -
  have sl: "handler_slot (set_list ''exit'' [] proc_init) ''uncaughtException'' = Absent"
    "handler_slot (set_list ''exit'' [] proc_init) ''uncaughtExceptionMonitor'' = Absent"
    by (simp_all add: handler_slot_def proc_init_def object_prototype_def set_list_def)
  obtain r st' where *: "fatalException (apply_fn 1 (\<lambda>u a. PDone)) ''boom'' False (set_list ''exit'' [] proc_init) = Some (r, st')"
    by (simp add: fatalException_def proc_emit_def Let_def handler_slot_def proc_init_def object_prototype_def set_list_def)
  from fatal_exception_unhandled [OF sl *] * show ?thesis by blast
qed

text \<open>Removing the last listener does not restore that answer.  After one listener was added
  and removed again nobody listens any more, yet \<open>emit\<close> answers true for the empty array that
  remains and \<open>_fatalException\<close> answers that the exception was handled.\<close>

theorem fatal_exception_swallowed:
  "\<exists>st1 st2. proc_on app ''uncaughtException'' f proc_init = Some (Inr (), st1) \<and>
     proc_off ''uncaughtException'' f st1 = (Inr (), st2) \<and>
     proc_listeners st2 ''uncaughtException'' = Inr [] \<and>
     fatalException app er fromPromise st2 = Some (Inr True, st2)"
proof -
  have sl: "handler_slot proc_init ''newListener'' = Absent" "handler_slot proc_init ''uncaughtException'' = Absent"
    "handler_slot proc_init ''uncaughtExceptionMonitor'' = Absent"
    by (simp_all add: handler_slot_def proc_init_def object_prototype_def)
  show ?thesis
    by (simp add: proc_on_def add_listener_quiet sl proc_off_def proc_listeners_def fatalException_def
        proc_emit_def Let_def)
qed

text \<open>A listener added with \<open>once\<close> cannot be removed by passing the same function to
  \<open>off\<close>: the array holds the wrapper.\<close>

theorem process_off_misses_once:
  assumes "handler_slot st ''newListener'' = Absent" "ev \<noteq> ''newListener''" "handler_slot st ev = Absent"
  shows "\<exists>w st1. proc_once app ev (User u) st = Some (Inr (), st1) \<and>
    proc_listeners st1 ev = Inr [Wrapper w] \<and> proc_listeners (snd (proc_off ev (User u) st1)) ev = Inr [Wrapper w]"
  using assms
  by (simp add: proc_once_def new_wrapper_def proc_on_def add_listener_quiet proc_off_def proc_listeners_def)

theorem process_off_misses_once_witness:
  "\<exists>w st1. proc_once (apply_fn 1 (\<lambda>u a. PDone)) ''data'' (User 7) proc_init = Some (Inr (), st1) \<and>
    proc_listeners (snd (proc_off ''data'' (User 7) st1)) ''data'' = Inr [Wrapper w]"
  using process_off_misses_once [of proc_init "''data''" "apply_fn 1 (\<lambda>u a. PDone)" 7]
  by (auto simp: handler_slot_def proc_init_def object_prototype_def)

end
