(* ===== verification/UriCodec.thy ===== *)
theory UriCodec
  imports JsPrelude
begin

text \<open>
  \<open>encodeURIComponent\<close> and \<open>decodeURIComponent\<close> of the language, on strings as lists of UTF-16
  code units, and the proof that they are inverse on well-formed strings.  The URL shim is built
  on them.
\<close>

type_synonym ustring = "nat list"

definition uri_error :: js_error where
  "uri_error = JsError None ''URI malformed''"

section \<open>Escapes\<close>

definition hex_digit :: "nat \<Rightarrow> nat" where
  "hex_digit n = (if n < 10 then 48 + n else 55 + n)"

definition hex_value :: "nat \<Rightarrow> nat option" where
  "hex_value c =
     (if 48 \<le> c \<and> c \<le> 57 then Some (c - 48)
      else if 65 \<le> c \<and> c \<le> 70 then Some (c - 55)
      else if 97 \<le> c \<and> c \<le> 102 then Some (c - 87)
      else None)"

definition pct :: "nat \<Rightarrow> ustring" where
  "pct b = [0x25, hex_digit (b div 16), hex_digit (b mod 16)]"

text \<open>The bytes of a code point in UTF-8, its units in UTF-16.\<close>

definition utf8_bytes :: "nat \<Rightarrow> nat list" where
  "utf8_bytes c =
     (if c < 0x80 then [c]
      else if c < 0x800 then [0xC0 + c div 64, 0x80 + c mod 64]
      else if c < 0x10000 then [0xE0 + c div 4096, 0x80 + c div 64 mod 64, 0x80 + c mod 64]
      else [0xF0 + c div 262144, 0x80 + c div 4096 mod 64, 0x80 + c div 64 mod 64, 0x80 + c mod 64])"

definition utf16_units :: "nat \<Rightarrow> ustring" where
  "utf16_units c =
     (if c < 0x10000 then [c] else [0xD800 + (c - 0x10000) div 1024, 0xDC00 + (c - 0x10000) mod 1024])"

definition surrogate_pair :: "nat \<Rightarrow> nat \<Rightarrow> nat" where
  "surrogate_pair hi lo = 0x10000 + (hi - 0xD800) * 1024 + (lo - 0xDC00)"

definition is_high :: "nat \<Rightarrow> bool" where
  "is_high c \<longleftrightarrow> 0xD800 \<le> c \<and> c < 0xDC00"

definition is_low :: "nat \<Rightarrow> bool" where
  "is_low c \<longleftrightarrow> 0xDC00 \<le> c \<and> c < 0xE000"

definition escape_point :: "nat \<Rightarrow> ustring" where
  "escape_point c = concat (map pct (utf8_bytes c))"

section \<open>encodeURIComponent\<close>

text \<open>Letters, digits and \<open>-_.!~*'()\<close> are left alone.\<close>

definition unescaped :: "nat \<Rightarrow> bool" where
  "unescaped c \<longleftrightarrow>
     65 \<le> c \<and> c \<le> 90 \<or> 97 \<le> c \<and> c \<le> 122 \<or> 48 \<le> c \<and> c \<le> 57 \<or>
     c \<in> {0x2D, 0x5F, 0x2E, 0x21, 0x7E, 0x2A, 0x27, 0x28, 0x29}"

definition prefix_result :: "ustring \<Rightarrow> ustring result \<Rightarrow> ustring result" where
  "prefix_result p r = (case r of Inl e \<Rightarrow> Inl e | Inr s \<Rightarrow> Inr (p @ s))"

fun encodeURIComponent :: "ustring \<Rightarrow> ustring result" where
  "encodeURIComponent [] = Inr []"
| "encodeURIComponent (c # cs) =
     (if unescaped c then prefix_result [c] (encodeURIComponent cs)
      else if is_low c then Inl uri_error
      else if \<not> is_high c then prefix_result (escape_point c) (encodeURIComponent cs)
      else
        (case cs of
           [] \<Rightarrow> Inl uri_error
         | d # ds \<Rightarrow>
             if is_low d then prefix_result (escape_point (surrogate_pair c d)) (encodeURIComponent ds)
             else Inl uri_error))"

section \<open>decodeURIComponent\<close>

definition hex_pair :: "nat \<Rightarrow> nat \<Rightarrow> nat option" where
  "hex_pair h l =
     (case hex_value h of
        None \<Rightarrow> None
      | Some a \<Rightarrow> (case hex_value l of None \<Rightarrow> None | Some b \<Rightarrow> Some (16 * a + b)))"

text \<open>One \<open>%XX\<close> escape at the start of a string: the byte and the rest.\<close>

fun take_escape :: "ustring \<Rightarrow> (nat \<times> ustring) option" where
  "take_escape (p # h # l # r) =
     (if p = 0x25 then (case hex_pair h l of None \<Rightarrow> None | Some b \<Rightarrow> Some (b, r)) else None)"
| "take_escape _ = None"

fun take_continuation :: "ustring \<Rightarrow> (nat \<times> ustring) option" where
  "take_continuation s =
     (case take_escape s of
        None \<Rightarrow> None
      | Some (b, r) \<Rightarrow> if 0x80 \<le> b \<and> b < 0xC0 then Some (b - 0x80, r) else None)"

definition valid_point :: "nat \<Rightarrow> nat \<Rightarrow> bool" where
  "valid_point least c \<longleftrightarrow> least \<le> c \<and> c < 0x110000 \<and> \<not> (0xD800 \<le> c \<and> c < 0xE000)"

text \<open>The code point encoded by the escapes at the start of a string, well-formed UTF-8 only.\<close>

definition take_point :: "ustring \<Rightarrow> (nat \<times> ustring) option" where
  "take_point s =
     (case take_escape s of
        None \<Rightarrow> None
      | Some (b, r) \<Rightarrow>
          if b < 0x80 then Some (b, r)
          else if b < 0xC0 then None
          else
            (case take_continuation r of
               None \<Rightarrow> None
             | Some (x, r) \<Rightarrow>
                 if b < 0xE0 then
                   (let c = (b - 0xC0) * 64 + x in if valid_point 0x80 c then Some (c, r) else None)
                 else
                   (case take_continuation r of
                      None \<Rightarrow> None
                    | Some (y, r) \<Rightarrow>
                        if b < 0xF0 then
                          (let c = (b - 0xE0) * 4096 + x * 64 + y in
                           if valid_point 0x800 c then Some (c, r) else None)
                        else
                          (case take_continuation r of
                             None \<Rightarrow> None
                           | Some (z, r) \<Rightarrow>
                               if b < 0xF8 then
                                 (let c = (b - 0xF0) * 262144 + x * 4096 + y * 64 + z in
                                  if valid_point 0x10000 c then Some (c, r) else None)
                               else None))))"

lemma take_escape_length: "take_escape s = Some (b, r) \<Longrightarrow> length r < length s"
  by (cases s rule: take_escape.cases) (auto split: if_splits option.splits)

lemma take_continuation_length: "take_continuation s = Some (b, r) \<Longrightarrow> length r < length s"
  by (auto split: option.splits if_splits dest: take_escape_length)

lemma take_point_length: "take_point s = Some (c, r) \<Longrightarrow> length r < length s"
  by (auto simp: take_point_def Let_def split: option.splits if_splits
      dest!: take_escape_length take_continuation_length simp del: take_continuation.simps)

function decodeURIComponent :: "ustring \<Rightarrow> ustring result" where
  "decodeURIComponent s =
     (case s of
        [] \<Rightarrow> Inr []
      | c # cs \<Rightarrow>
          if c \<noteq> 0x25 then prefix_result [c] (decodeURIComponent cs)
          else
            (case take_point s of
               None \<Rightarrow> Inl uri_error
             | Some (p, r) \<Rightarrow> prefix_result (utf16_units p) (decodeURIComponent r)))"
  by pat_completeness auto
termination by (relation "measure length") (auto dest: take_point_length)

declare decodeURIComponent.simps [simp del]

section \<open>Well-formed strings\<close>

text \<open>Every high surrogate is followed by a low one and no low one stands alone.\<close>

fun well_formed :: "ustring \<Rightarrow> bool" where
  "well_formed [] = True"
| "well_formed (c # cs) =
     (if is_high c then (case cs of [] \<Rightarrow> False | d # ds \<Rightarrow> is_low d \<and> well_formed ds)
      else \<not> is_low c \<and> c < 0x10000 \<and> well_formed cs)"

section \<open>Decoding inverts encoding\<close>

lemma hex_value_digit [simp]: "n < 16 \<Longrightarrow> hex_value (hex_digit n) = Some n"
  by (auto simp: hex_value_def hex_digit_def)

lemma take_escape_pct [simp]: "b < 256 \<Longrightarrow> take_escape (pct b @ r) = Some (b, r)"
  by (simp add: pct_def hex_pair_def less_mult_imp_div_less)

lemma take_continuation_pct [simp]: "x < 64 \<Longrightarrow> take_continuation (pct (0x80 + x) @ r) = Some (x, r)"
  by simp

lemma take_point_escape:
  assumes "c < 0x110000" "\<not> (0xD800 \<le> c \<and> c < 0xE000)"
  shows "take_point (escape_point c @ r) = Some (c, r)"
proof -
  note simps = take_point_def escape_point_def utf8_bytes_def valid_point_def Let_def
  consider "c < 0x80" | "0x80 \<le> c" "c < 0x800" | "0x800 \<le> c" "c < 0x10000" | "0x10000 \<le> c" by linarith
  then show ?thesis
  proof cases
    case 1 then show ?thesis by (simp add: simps)
  next
    case 2
    define a b where "a = c div 64" and "b = c mod 64"
    have u: "utf8_bytes c = [0xC0 + a, 0x80 + b]" using 2 by (simp add: utf8_bytes_def a_def b_def)
    have ab: "a < 32" "b < 64" "c = a * 64 + b" using 2 by (simp_all add: a_def b_def)
    show ?thesis unfolding escape_point_def u using ab(1,2) 2 assms
      by (simp add: take_point_def valid_point_def ab(3) [symmetric] del: take_continuation.simps)
  next
    case 3
    define a b d where "a = c div 4096" and "b = c div 64 mod 64" and "d = c mod 64"
    have u: "utf8_bytes c = [0xE0 + a, 0x80 + b, 0x80 + d]" using 3 by (simp add: utf8_bytes_def a_def b_def d_def)
    have "a = c div 64 div 64" by (simp add: a_def div_mult2_eq [symmetric])
    then have "a * 64 + b = c div 64" by (simp add: b_def)
    then have "(a * 64 + b) * 64 + d = c" by (simp add: d_def)
    then have ab: "a < 16" "b < 64" "d < 64" "a * 4096 + b * 64 + d = c" using 3 by (simp_all add: a_def b_def d_def)
    show ?thesis unfolding escape_point_def u using ab(1-3) 3 assms
      by (simp add: take_point_def valid_point_def ab(4) del: take_continuation.simps)
  next
    case 4
    define a b d f where "a = c div 262144" and "b = c div 4096 mod 64" and "d = c div 64 mod 64" and "f = c mod 64"
    have u: "utf8_bytes c = [0xF0 + a, 0x80 + b, 0x80 + d, 0x80 + f]"
      using 4 by (simp add: utf8_bytes_def a_def b_def d_def f_def)
    have "a = c div 64 div 64 div 64" "b = c div 64 div 64 mod 64"
      by (simp_all add: a_def b_def div_mult2_eq [symmetric])
    then have "a * 64 + b = c div 64 div 64" by simp
    then have "(a * 64 + b) * 64 + d = c div 64" by (simp add: d_def)
    then have "((a * 64 + b) * 64 + d) * 64 + f = c" by (simp add: f_def)
    then have sum: "a * 262144 + b * 4096 + d * 64 + f = c" by (simp add: algebra_simps)
    have ab: "a < 8" "b < 64" "d < 64" "f < 64" using assms by (simp_all add: a_def b_def d_def f_def)
    note ab = ab sum
    show ?thesis unfolding escape_point_def u using ab(1-4) 4 assms
      by (simp add: take_point_def valid_point_def ab(5) del: take_continuation.simps)
  qed
qed

lemma escape_point_head: "\<exists>r. escape_point c = 0x25 # r"
  by (simp add: escape_point_def utf8_bytes_def pct_def)

lemma decode_plain: "c \<noteq> 0x25 \<Longrightarrow> decodeURIComponent (c # r) = prefix_result [c] (decodeURIComponent r)"
  by (subst decodeURIComponent.simps) simp

lemma decode_Nil [simp]: "decodeURIComponent [] = Inr []"
  by (subst decodeURIComponent.simps) simp

lemma decode_ascii_escape:
  "hex_pair h l = Some b \<Longrightarrow> b < 0x80 \<Longrightarrow>
   decodeURIComponent (0x25 # h # l # r) = prefix_result [b] (decodeURIComponent r)"
  by (subst decodeURIComponent.simps) (simp add: take_point_def utf16_units_def)

lemma decode_bad_escape: "take_point (0x25 # r) = None \<Longrightarrow> decodeURIComponent (0x25 # r) = Inl uri_error"
  by (subst decodeURIComponent.simps) simp

lemmas decode_eval = decode_plain decode_ascii_escape decode_bad_escape hex_pair_def hex_value_def take_point_def
  prefix_result_def

lemma decode_escape:
  assumes "c < 0x110000" "\<not> (0xD800 \<le> c \<and> c < 0xE000)"
  shows "decodeURIComponent (escape_point c @ r) = prefix_result (utf16_units c) (decodeURIComponent r)"
proof -
  obtain q where q: "escape_point c = 0x25 # q" using escape_point_head by blast
  then show ?thesis using take_point_escape [OF assms, of r]
    by (subst decodeURIComponent.simps) simp
qed

lemma unescaped_not_pct: "unescaped c \<Longrightarrow> c \<noteq> 0x25"
  by (auto simp: unescaped_def)

lemma surrogate_pair_props:
  assumes "is_high h" "is_low l"
  shows "surrogate_pair h l < 0x110000" "0x10000 \<le> surrogate_pair h l"
    and "utf16_units (surrogate_pair h l) = [h, l]"
proof -
  obtain k j where h: "h = 0xD800 + k" "k < 1024" "l = 0xDC00 + j" "j < 1024"
    using assms that [of "h - 0xD800" "l - 0xDC00"] by (auto simp: is_high_def is_low_def)
  then have sp: "surrogate_pair h l = 0x10000 + (k * 1024 + j)" by (simp add: surrogate_pair_def)
  from h(2,4) show "surrogate_pair h l < 0x110000" "0x10000 \<le> surrogate_pair h l" by (simp_all add: sp)
  have "(k * 1024 + j) div 1024 = k" "(k * 1024 + j) mod 1024 = j" using h(4) by simp_all
  then show "utf16_units (surrogate_pair h l) = [h, l]" unfolding utf16_units_def sp by (simp add: h)
qed

lemma prefix_result_Inr [simp]: "prefix_result p (Inr s) = Inr (p @ s)"
  by (simp add: prefix_result_def)

lemma prefix_result_eq_Inr: "prefix_result p r = Inr s \<longleftrightarrow> (\<exists>t. r = Inr t \<and> s = p @ t)"
  by (auto simp: prefix_result_def split: sum.split)

lemma encode_well_formed: "well_formed s \<Longrightarrow> \<exists>e. encodeURIComponent s = Inr e"
proof (induction s rule: encodeURIComponent.induct)
  case (2 c cs)
  have ex: "\<exists>e. prefix_result p r = Inr e" if "\<exists>e. r = Inr e" for p r
    using that by (auto simp: prefix_result_eq_Inr)
  show ?case
  proof (cases "is_high c")
    case True
    then have "\<not> is_low c" "\<not> unescaped c" by (auto simp: is_low_def is_high_def unescaped_def)
    moreover from True 2(4) obtain d ds where "cs = d # ds" "is_low d" "well_formed ds" by (auto split: list.splits)
    ultimately show ?thesis using True 2(3) by (auto intro: ex)
  next
    case False
    with 2(4) have "\<not> is_low c" "well_formed cs" by auto
    with False 2(1,2) show ?thesis by (auto intro: ex)
  qed
qed simp

lemma decode_encode:
  "well_formed s \<Longrightarrow> encodeURIComponent s = Inr e \<Longrightarrow> decodeURIComponent (e @ r) = prefix_result s (decodeURIComponent r)"
proof (induction s arbitrary: e rule: encodeURIComponent.induct)
  case 1
  then show ?case by (auto simp: prefix_result_def split: sum.split)
next
  case (2 c cs)
  have pp: "prefix_result p (prefix_result q x) = prefix_result (p @ q) x" for p q x
    by (simp add: prefix_result_def split: sum.split)
  consider "unescaped c" | "\<not> unescaped c" "\<not> is_high c" | "is_high c" "\<not> unescaped c" by blast
  then show ?case
  proof cases
    case 1
    then have nh: "\<not> is_high c" by (auto simp: unescaped_def is_high_def)
    from "2.prems" 1 obtain e' where e: "encodeURIComponent cs = Inr e'" "e = c # e'"
      by (auto simp: prefix_result_eq_Inr)
    have "well_formed cs" using "2.prems"(1) nh by simp
    from "2.IH"(1) [OF 1 this e(1)] e(2) 1 show ?thesis
      by (simp add: decode_plain unescaped_not_pct pp)
  next
    case 2
    with "2.prems" obtain e' where e: "encodeURIComponent cs = Inr e'" "e = escape_point c @ e'" "\<not> is_low c"
      by (auto simp: prefix_result_eq_Inr split: if_splits)
    have c: "c < 0x10000" "\<not> (0xD800 \<le> c \<and> c < 0xE000)" "well_formed cs"
      using "2.prems"(1) 2 by (auto simp: is_high_def is_low_def)
    from "2.IH"(2) [OF 2(1) e(3) 2(2) c(3) e(1)] e(2) c show ?thesis
      by (simp add: decode_escape pp utf16_units_def)
  next
    case 3
    then obtain d ds where cs: "cs = d # ds" "is_low d" "well_formed ds"
      using "2.prems"(1) by (auto split: list.splits)
    have nl: "\<not> is_low c" using 3 by (auto simp: is_high_def is_low_def)
    from "2.prems"(2) 3 cs nl obtain e' where e: "encodeURIComponent ds = Inr e'"
      "e = escape_point (surrogate_pair c d) @ e'"
      by (auto simp: prefix_result_eq_Inr)
    note sp = surrogate_pair_props [OF 3(1) cs(2)]
    have nn: "\<not> \<not> is_high c" using 3 by simp
    from "2.IH"(3) [OF 3(2) nl nn cs(1,2,3) e(1)] e(2) sp cs(1) show ?thesis
      by (simp add: decode_escape pp)
  qed
qed

text \<open>On well-formed strings the two functions are inverse.\<close>

lemma decode_encode_component:
  "well_formed s \<Longrightarrow> encodeURIComponent s = Inr e \<Longrightarrow> decodeURIComponent e = Inr s"
  using decode_encode [of s e "[]"] by simp

end
