(* ===== verification/UrlShim.thy ===== *)
theory UrlShim
  imports UriCodec "HOL-Library.List_Lexorder"
begin

unbundle bit_operations_syntax

text \<open>
  The URL shim (\<open>libjs/shims/internal/url.js\<close>): \<open>URLSearchParams\<close>, the \<open>URL\<close> class over the
  native parser, the file URL conversions and \<open>encodeStr\<close>.  Strings are lists of UTF-16
  code units.  The native binding is a parameter: \<open>parse\<close>, \<open>update\<close> and \<open>pathToFileURL\<close> answer
  an href and the component offsets they leave in the shared array, or fail.
\<close>

section \<open>The binding and the context\<close>

record url_components =
  protocol_end :: int
  username_end :: int
  host_start :: int
  host_end :: int
  url_port :: int
  pathname_start :: int
  search_start :: int
  hash_start :: int
  scheme_type :: int

datatype update_action =
  kProtocol | kHost | kHostname | kPort | kUsername | kPassword | kPathname | kSearch | kHash | kHref

record url_binding =
  ub_parse :: "ustring \<Rightarrow> ustring option \<Rightarrow> (ustring \<times> url_components) option"
  ub_update :: "ustring \<Rightarrow> update_action \<Rightarrow> ustring \<Rightarrow> (ustring \<times> url_components) option"
  ub_pathToFileURL :: "ustring \<Rightarrow> (ustring \<times> url_components) option"

definition kOmittedSigned :: int where
  "kOmittedSigned = -1"

record url_context =
  href :: ustring
  comps :: url_components

definition hasPort :: "url_context \<Rightarrow> bool" where
  "hasPort ctx \<longleftrightarrow> url_port (comps ctx) \<noteq> kOmittedSigned"

definition hasSearch :: "url_context \<Rightarrow> bool" where
  "hasSearch ctx \<longleftrightarrow> search_start (comps ctx) \<noteq> kOmittedSigned"

definition hasHash :: "url_context \<Rightarrow> bool" where
  "hasHash ctx \<longleftrightarrow> hash_start (comps ctx) \<noteq> kOmittedSigned"

section \<open>URLSearchParams\<close>

type_synonym pairs = "(ustring \<times> ustring) list"

text \<open>\<open>s.replace(/\+/g, ' ')\<close> and \<open>s.replace(/%20/g, '+')\<close>.\<close>

definition plus_to_space :: "ustring \<Rightarrow> ustring" where
  "plus_to_space s = map (\<lambda>c. if c = 0x2B then 0x20 else c) s"

fun space_escape_to_plus :: "ustring \<Rightarrow> ustring" where
  "space_escape_to_plus (a # b # c # r) =
     (if a = 0x25 \<and> b = 0x32 \<and> c = 0x30 then 0x2B # space_escape_to_plus r
      else a # space_escape_to_plus (b # c # r))"
| "space_escape_to_plus s = s"

definition parse_pair :: "ustring \<Rightarrow> (ustring \<times> ustring) result" where
  "parse_pair pair =
     (let eqIdx = index_of pair 0x3D in
      if eqIdx = -1 then
        (case decodeURIComponent (plus_to_space pair) of Inl e \<Rightarrow> Inl e | Inr key \<Rightarrow> Inr (key, []))
      else
        (case decodeURIComponent (plus_to_space (js_slice pair 0 eqIdx)) of
           Inl e \<Rightarrow> Inl e
         | Inr key \<Rightarrow>
             (case decodeURIComponent (plus_to_space (js_slice_from pair (eqIdx + 1))) of
                Inl e \<Rightarrow> Inl e
              | Inr value \<Rightarrow> Inr (key, value))))"

text \<open>\<open>_parseString\<close>: the list as it is when the loop ends or throws.\<close>

fun parse_pairs :: "ustring list \<Rightarrow> pairs \<Rightarrow> js_error option \<times> pairs" where
  "parse_pairs [] acc = (None, acc)"
| "parse_pairs (p # ps) acc =
     (if p = [] then parse_pairs ps acc
      else
        (case parse_pair p of
           Inl e \<Rightarrow> (Some e, acc)
         | Inr kv \<Rightarrow> parse_pairs ps (acc @ [kv])))"

definition parseString :: "ustring \<Rightarrow> pairs \<Rightarrow> js_error option \<times> pairs" where
  "parseString qs list = (if qs = [] then (None, list) else parse_pairs (js_split qs 0x26) list)"

datatype sp_init = InitString ustring | InitPairs "ustring list list" | InitObject pairs | InitNone

definition pair_error :: js_error where
  "pair_error = JsError None ''Each query pair must be an iterable [name, value] pair''"

fun init_pairs :: "ustring list list \<Rightarrow> pairs \<Rightarrow> pairs result" where
  "init_pairs [] acc = Inr acc"
| "init_pairs (p # ps) acc =
     (case p of [k, v] \<Rightarrow> init_pairs ps (acc @ [(k, v)]) | _ \<Rightarrow> Inl pair_error)"

definition new_URLSearchParams :: "sp_init \<Rightarrow> pairs result" where
  "new_URLSearchParams ini =
     (case ini of
        InitString s \<Rightarrow>
          (let s = (if length s > 0 \<and> char_at s 0 = Some 0x3F then js_slice_from s 1 else s) in
           case parseString s [] of (Some e, _) \<Rightarrow> Inl e | (None, l) \<Rightarrow> Inr l)
      | InitPairs ps \<Rightarrow> init_pairs ps []
      | InitObject kvs \<Rightarrow> Inr kvs
      | InitNone \<Rightarrow> Inr [])"

definition sp_append :: "ustring \<Rightarrow> ustring \<Rightarrow> pairs \<Rightarrow> pairs" where
  "sp_append name value list = list @ [(name, value)]"

definition sp_delete :: "ustring \<Rightarrow> ustring option \<Rightarrow> pairs \<Rightarrow> pairs" where
  "sp_delete name value list =
     filter (\<lambda>pair. fst pair \<noteq> name \<or> (case value of None \<Rightarrow> False | Some v \<Rightarrow> snd pair \<noteq> v)) list"

fun sp_get :: "ustring \<Rightarrow> pairs \<Rightarrow> ustring option" where
  "sp_get name [] = None"
| "sp_get name (p # ps) = (if fst p = name then Some (snd p) else sp_get name ps)"

definition sp_getAll :: "ustring \<Rightarrow> pairs \<Rightarrow> ustring list" where
  "sp_getAll name list = map snd (filter (\<lambda>p. fst p = name) list)"

fun sp_has :: "ustring \<Rightarrow> ustring option \<Rightarrow> pairs \<Rightarrow> bool" where
  "sp_has name value [] = False"
| "sp_has name value (p # ps) =
     (if fst p = name \<and> (case value of None \<Rightarrow> True | Some v \<Rightarrow> snd p = v) then True
      else sp_has name value ps)"

text \<open>The filter of \<open>set\<close>, with its flag \<open>found\<close>.\<close>

fun set_filter :: "ustring \<Rightarrow> ustring \<Rightarrow> bool \<Rightarrow> pairs \<Rightarrow> bool \<times> pairs" where
  "set_filter name value found [] = (found, [])"
| "set_filter name value found (p # ps) =
     (if fst p \<noteq> name then
        (case set_filter name value found ps of (f, r) \<Rightarrow> (f, p # r))
      else if \<not> found then
        (case set_filter name value True ps of (f, r) \<Rightarrow> (f, (fst p, value) # r))
      else set_filter name value found ps)"

definition sp_set :: "ustring \<Rightarrow> ustring \<Rightarrow> pairs \<Rightarrow> pairs" where
  "sp_set name value list =
     (case set_filter name value False list of
        (found, l) \<Rightarrow> if found then l else l @ [(name, value)])"

definition sp_sort :: "pairs \<Rightarrow> pairs" where
  "sp_sort list = sort_key fst list"

definition sp_size :: "pairs \<Rightarrow> nat" where
  "sp_size list = length list"

definition encode_form :: "ustring \<Rightarrow> ustring result" where
  "encode_form s = (case encodeURIComponent s of Inl e \<Rightarrow> Inl e | Inr t \<Rightarrow> Inr (space_escape_to_plus t))"

definition pair_toString :: "ustring \<times> ustring \<Rightarrow> ustring result" where
  "pair_toString p =
     (case encode_form (fst p) of
        Inl e \<Rightarrow> Inl e
      | Inr k \<Rightarrow> (case encode_form (snd p) of Inl e \<Rightarrow> Inl e | Inr v \<Rightarrow> Inr (k @ [0x3D] @ v)))"

fun map_result :: "('a \<Rightarrow> 'b result) \<Rightarrow> 'a list \<Rightarrow> 'b list result" where
  "map_result f [] = Inr []"
| "map_result f (x # xs) =
     (case f x of
        Inl e \<Rightarrow> Inl e
      | Inr y \<Rightarrow> (case map_result f xs of Inl e \<Rightarrow> Inl e | Inr ys \<Rightarrow> Inr (y # ys)))"

definition sp_toString :: "pairs \<Rightarrow> ustring result" where
  "sp_toString list =
     (case map_result pair_toString list of Inl e \<Rightarrow> Inl e | Inr ss \<Rightarrow> Inr (js_join [0x26] ss))"

text \<open>An iterator over the list: \<open>entries\<close>; \<open>keys\<close> and \<open>values\<close> project it.\<close>

definition iter_next :: "pairs \<Rightarrow> nat \<Rightarrow> (ustring \<times> ustring) option \<times> nat" where
  "iter_next list idx = (if idx \<ge> length list then (None, idx) else (Some (list ! idx), idx + 1))"

section \<open>URL\<close>

text \<open>A \<open>URL\<close> object; \<open>searchParams\<close> is the list of its \<open>URLSearchParams\<close> once that was
  asked for (the two objects refer to each other).\<close>

record url =
  uctx :: url_context
  searchParams :: "pairs option"

text \<open>The binding throws for an input it cannot parse; the check for an empty \<open>href\<close> throws an error
  without a code.  The messages are modelled without the input they echo.\<close>

definition invalid_url :: js_error where
  "invalid_url = JsError (Some ''ERR_INVALID_URL'') ''Invalid URL''"

definition invalid_url_fallback :: js_error where
  "invalid_url_fallback = JsError None ''Invalid URL: ''"

definition make_url :: "ustring \<times> url_components \<Rightarrow> url" where
  "make_url hc = \<lparr>uctx = \<lparr>href = fst hc, comps = snd hc\<rparr>, searchParams = None\<rparr>"

definition new_URL :: "url_binding \<Rightarrow> ustring \<Rightarrow> ustring option \<Rightarrow> url result" where
  "new_URL b input base =
     (case ub_parse b input base of
        Some hc \<Rightarrow> if fst hc = [] then Inl invalid_url_fallback else Inr (make_url hc)
      | None \<Rightarrow> Inl invalid_url)"

definition URL_parse :: "url_binding \<Rightarrow> ustring \<Rightarrow> ustring option \<Rightarrow> url option" where
  "URL_parse b input base =
     (case ub_parse b input base of
        Some hc \<Rightarrow> if fst hc = [] then None else Some (make_url hc)
      | None \<Rightarrow> None)"

definition apply_update :: "url_binding \<Rightarrow> update_action \<Rightarrow> ustring \<Rightarrow> url \<Rightarrow> url option" where
  "apply_update b action value u =
     (case ub_update b (href (uctx u)) action value of
        Some hc \<Rightarrow> if fst hc = [] then None else Some (u\<lparr>uctx := \<lparr>href = fst hc, comps = snd hc\<rparr>\<rparr>)
      | None \<Rightarrow> None)"

text \<open>The setters of \<open>protocol\<close>, \<open>username\<close>, \<open>password\<close>, \<open>host\<close>, \<open>hostname\<close>, \<open>port\<close>,
  \<open>pathname\<close> and \<open>hash\<close>: a refused update is ignored.\<close>

definition set_component :: "url_binding \<Rightarrow> update_action \<Rightarrow> ustring \<Rightarrow> url \<Rightarrow> url" where
  "set_component b action value u =
     (case apply_update b action value u of Some u' \<Rightarrow> u' | None \<Rightarrow> u)"

definition set_protocol :: "url_binding \<Rightarrow> ustring \<Rightarrow> url \<Rightarrow> url" where
  "set_protocol b value u = set_component b kProtocol value u"

definition set_username :: "url_binding \<Rightarrow> ustring \<Rightarrow> url \<Rightarrow> url" where
  "set_username b value u = set_component b kUsername value u"

definition set_password :: "url_binding \<Rightarrow> ustring \<Rightarrow> url \<Rightarrow> url" where
  "set_password b value u = set_component b kPassword value u"

definition set_host :: "url_binding \<Rightarrow> ustring \<Rightarrow> url \<Rightarrow> url" where
  "set_host b value u = set_component b kHost value u"

definition set_hostname :: "url_binding \<Rightarrow> ustring \<Rightarrow> url \<Rightarrow> url" where
  "set_hostname b value u = set_component b kHostname value u"

definition set_port :: "url_binding \<Rightarrow> ustring \<Rightarrow> url \<Rightarrow> url" where
  "set_port b value u = set_component b kPort value u"

definition set_pathname :: "url_binding \<Rightarrow> ustring \<Rightarrow> url \<Rightarrow> url" where
  "set_pathname b value u = set_component b kPathname value u"

definition set_hash :: "url_binding \<Rightarrow> ustring \<Rightarrow> url \<Rightarrow> url" where
  "set_hash b value u = set_component b kHash value u"

definition set_href :: "url_binding \<Rightarrow> ustring \<Rightarrow> url \<Rightarrow> unit result \<times> url" where
  "set_href b value u =
     (case apply_update b kHref value u of
        Some u' \<Rightarrow> (Inr (), u')
      | None \<Rightarrow> (Inl invalid_url_fallback, u))"

definition setSearchFromParams :: "url_binding \<Rightarrow> ustring \<Rightarrow> url \<Rightarrow> url" where
  "setSearchFromParams b search u =
     set_component b kSearch (if search \<noteq> [] then 0x3F # search else []) u"

definition get_protocol :: "url \<Rightarrow> ustring" where
  "get_protocol u = js_slice (href (uctx u)) 0 (protocol_end (comps (uctx u)))"

definition get_username :: "url \<Rightarrow> ustring" where
  "get_username u =
     (let c = comps (uctx u) in
      if protocol_end c + 2 \<ge> username_end c then []
      else js_slice (href (uctx u)) (protocol_end c + 2) (username_end c))"

definition get_password :: "url \<Rightarrow> ustring" where
  "get_password u =
     (let c = comps (uctx u) in
      if host_start c - username_end c \<le> 0 then []
      else js_slice (href (uctx u)) (username_end c + 1) (host_start c))"

definition host_startsAt :: "url \<Rightarrow> int" where
  "host_startsAt u =
     (let s = host_start (comps (uctx u)) in
      if char_at (href (uctx u)) s = Some 0x40 then s + 1 else s)"

definition get_host :: "url \<Rightarrow> ustring" where
  "get_host u =
     (if host_startsAt u = host_end (comps (uctx u)) then []
      else js_slice (href (uctx u)) (host_startsAt u) (pathname_start (comps (uctx u))))"

definition get_hostname :: "url \<Rightarrow> ustring" where
  "get_hostname u = js_slice (href (uctx u)) (host_startsAt u) (host_end (comps (uctx u)))"

definition get_port :: "url \<Rightarrow> int option" where
  "get_port u = (if \<not> hasPort (uctx u) then None else Some (url_port (comps (uctx u))))"

definition get_pathname :: "url \<Rightarrow> ustring" where
  "get_pathname u =
     (let ctx = uctx u;
          endsAt = (if hasSearch ctx then search_start (comps ctx)
                    else if hasHash ctx then hash_start (comps ctx)
                    else int (length (href ctx)))
      in js_slice (href ctx) (pathname_start (comps ctx)) endsAt)"

definition get_search :: "url \<Rightarrow> ustring" where
  "get_search u =
     (let ctx = uctx u in
      if \<not> hasSearch ctx then []
      else
        (let endsAt = (if hasHash ctx then hash_start (comps ctx) else int (length (href ctx))) in
         if endsAt - search_start (comps ctx) \<le> 1 then []
         else js_slice (href ctx) (search_start (comps ctx)) endsAt))"

definition get_hash :: "url \<Rightarrow> ustring" where
  "get_hash u = (if \<not> hasHash (uctx u) then [] else js_slice_from (href (uctx u)) (hash_start (comps (uctx u))))"

definition ascii :: "string \<Rightarrow> ustring" where
  "ascii s = map (\<lambda>c. of_char c) s"

definition get_origin :: "url_binding \<Rightarrow> url \<Rightarrow> ustring" where
  "get_origin b u =
     (let protocol = get_protocol u; st = scheme_type (comps (uctx u)) in
      if st \<noteq> 1 then (if st = 6 then ascii ''null'' else protocol @ ascii ''//'' @ get_host u)
      else if protocol = ascii ''blob:'' \<and> length (get_pathname u) > 0 then
        (case new_URL b (get_pathname u) None of
           Inr inner \<Rightarrow>
             if scheme_type (comps (uctx inner)) = 0 \<or> scheme_type (comps (uctx inner)) = 2
             then get_protocol inner @ ascii ''//'' @ get_host inner
             else ascii ''null''
         | Inl e \<Rightarrow> ascii ''null'')
      else ascii ''null'')"

definition set_search :: "url_binding \<Rightarrow> ustring \<Rightarrow> url \<Rightarrow> js_error option \<times> url" where
  "set_search b value u =
     (case apply_update b kSearch value u of
        None \<Rightarrow> (None, u)
      | Some u \<Rightarrow>
          (case searchParams u of
             None \<Rightarrow> (None, u)
           | Some _ \<Rightarrow>
               (let qs = get_search u in
                case (if length qs > 1 then parseString (js_slice_from qs 1) [] else (None, [])) of
                  (err, l) \<Rightarrow> (err, u\<lparr>searchParams := Some l\<rparr>))))"

definition get_searchParams :: "url \<Rightarrow> pairs result \<times> url" where
  "get_searchParams u =
     (case searchParams u of
        Some l \<Rightarrow> (Inr l, u)
      | None \<Rightarrow>
          (case new_URLSearchParams (InitString (get_search u)) of
             Inl e \<Rightarrow> (Inl e, u)
           | Inr l \<Rightarrow> (Inr l, u\<lparr>searchParams := Some l\<rparr>)))"

text \<open>A mutation of the \<open>URLSearchParams\<close> of a URL: the list changes, then \<open>_notifyUrl\<close> writes
  its text back into the URL.\<close>

definition mutate_params :: "url_binding \<Rightarrow> (pairs \<Rightarrow> pairs) \<Rightarrow> url \<Rightarrow> js_error option \<times> url" where
  "mutate_params b f u =
     (case searchParams u of
        None \<Rightarrow> (None, u)
      | Some l \<Rightarrow>
          (let u = u\<lparr>searchParams := Some (f l)\<rparr> in
           case sp_toString (f l) of
             Inl e \<Rightarrow> (Some e, u)
           | Inr search \<Rightarrow> (None, setSearchFromParams b search u)))"

section \<open>Conversions\<close>

record http_options =
  ho_hostname :: ustring
  ho_path :: ustring
  ho_port :: "int option"
  ho_auth :: "ustring option"

definition urlToHttpOptions :: "url \<Rightarrow> http_options result" where
  "urlToHttpOptions u =
     (let hostname = get_hostname u;
          hn = (if hostname \<noteq> [] \<and> char_at hostname 0 = Some 0x5B then js_slice hostname 1 (-1) else hostname);
          opts = \<lparr>ho_hostname = hn, ho_path = get_pathname u @ get_search u, ho_port = get_port u, ho_auth = None\<rparr>
      in
      if get_username u \<noteq> [] \<or> get_password u \<noteq> [] then
        (case decodeURIComponent (get_username u) of
           Inl e \<Rightarrow> Inl e
         | Inr name \<Rightarrow>
             (case decodeURIComponent (get_password u) of
                Inl e \<Rightarrow> Inl e
              | Inr pw \<Rightarrow> Inr (opts\<lparr>ho_auth := Some (name @ [0x3A] @ pw)\<rparr>)))
      else Inr opts)"

text \<open>What \<open>fileURLToPath\<close> may be given: a string, a \<open>URL\<close>, another object with its
  \<open>protocol\<close>, \<open>hostname\<close> and \<open>pathname\<close>, or null.\<close>

datatype file_arg = FString ustring | FUrl url | FObject ustring ustring ustring | FNull

definition scheme_error :: js_error where
  "scheme_error = JsError None ''The URL must be of scheme file''"

definition host_error :: js_error where
  "host_error = JsError None ''File URL host must be localhost or empty on this platform''"

definition slash_error :: js_error where
  "slash_error = JsError None ''File URL path must not include encoded / characters''"

text \<open>The loop over the pathname.\<close>

definition has_encoded_slash :: "ustring \<Rightarrow> bool" where
  "has_encoded_slash pathname =
     snd (up_loop (\<lambda>i found.
        if char_at pathname i = Some 0x25
           \<and> char_at pathname (i + 1) = Some 0x32
           \<and> (case char_at pathname (i + 2) of None \<Rightarrow> False | Some c \<Rightarrow> c OR 0x20 = 0x66)
        then (True, True) else (False, found)) 0 (int (length pathname) - 2) False)"

definition path_of_parts :: "ustring \<Rightarrow> ustring \<Rightarrow> ustring result" where
  "path_of_parts hostname pathname =
     (if hostname \<noteq> [] \<and> hostname \<noteq> ascii ''localhost'' then Inl host_error
      else if has_encoded_slash pathname then Inl slash_error
      else decodeURIComponent pathname)"

definition fileURLToPath :: "url_binding \<Rightarrow> file_arg \<Rightarrow> ustring result" where
  "fileURLToPath b arg =
     (case arg of
        FString s \<Rightarrow>
          (case new_URL b s None of
             Inl e \<Rightarrow> Inl e
           | Inr u \<Rightarrow> path_of_parts (get_hostname u) (get_pathname u))
      | FUrl u \<Rightarrow> path_of_parts (get_hostname u) (get_pathname u)
      | FObject protocol hostname pathname \<Rightarrow>
          if protocol \<noteq> ascii ''file:'' then Inl scheme_error else path_of_parts hostname pathname
      | FNull \<Rightarrow> Inl scheme_error)"

text \<open>\<open>toPathIfFileURL\<close>: \<open>None\<close> when the argument is answered as it is.\<close>

definition toPathIfFileURL :: "url_binding \<Rightarrow> file_arg \<Rightarrow> ustring result option" where
  "toPathIfFileURL b arg =
     (case arg of
        FUrl u \<Rightarrow> Some (fileURLToPath b arg)
      | FObject protocol hostname pathname \<Rightarrow>
          if protocol = ascii ''file:'' then Some (fileURLToPath b arg) else None
      | FString s \<Rightarrow> if starts_with s (ascii ''file://'') then Some (fileURLToPath b arg) else None
      | FNull \<Rightarrow> None)"

text \<open>\<open>isURL\<close>: an object with a truthy \<open>href\<close> and \<open>protocol\<close> and neither \<open>auth\<close> nor \<open>path\<close>.\<close>

definition isURL :: "ustring option \<Rightarrow> ustring option \<Rightarrow> bool \<Rightarrow> bool \<Rightarrow> bool" where
  "isURL oHref oProtocol hasAuth hasPath \<longleftrightarrow>
     oHref \<noteq> None \<and> oHref \<noteq> Some [] \<and> oProtocol \<noteq> None \<and> oProtocol \<noteq> Some [] \<and> \<not> hasAuth \<and> \<not> hasPath"

definition pathToFileURL :: "url_binding \<Rightarrow> ustring \<Rightarrow> url result" where
  "pathToFileURL b filepath =
     (case ub_pathToFileURL b filepath of
        Some hc \<Rightarrow> if fst hc = [] then Inl (JsError None ''Invalid file path'') else Inr (make_url hc)
      | None \<Rightarrow> Inl (JsError None ''Invalid file path''))"

section \<open>encodeStr\<close>

definition hexTable :: "nat \<Rightarrow> ustring" where
  "hexTable i = pct i"

definition replacement_escape :: ustring where
  "replacement_escape = ascii ''%EF%BF%BD''"

text \<open>The loop of \<open>encodeStr\<close>; it returns the final \<open>lastPos\<close> and \<open>out\<close>.\<close>

function encodeStr_loop ::
  "(nat \<Rightarrow> bool) \<Rightarrow> (nat \<Rightarrow> ustring) \<Rightarrow> ustring \<Rightarrow> nat \<Rightarrow> nat \<Rightarrow> ustring \<Rightarrow> nat \<times> ustring" where
  "encodeStr_loop noEscape hex str i lastPos out =
     (if i \<ge> length str then (lastPos, out)
      else
        (let c = str ! i in
         if c < 0x80 \<and> noEscape c then encodeStr_loop noEscape hex str (i + 1) lastPos out
         else
           (let out = out @ (if lastPos < i then take (i - lastPos) (drop lastPos str) else []) in
            if c < 0x80 then encodeStr_loop noEscape hex str (i + 1) (i + 1) (out @ hex c)
            else if c < 0x800 then
              encodeStr_loop noEscape hex str (i + 1) (i + 1)
                (out @ hex (0xC0 OR drop_bit 6 c) @ hex (0x80 OR (c AND 0x3F)))
            else if c < 0xD800 \<or> c \<ge> 0xE000 then
              encodeStr_loop noEscape hex str (i + 1) (i + 1)
                (out @ hex (0xE0 OR drop_bit 12 c) @ hex (0x80 OR (drop_bit 6 c AND 0x3F)) @ hex (0x80 OR (c AND 0x3F)))
            else if i + 1 \<ge> length str then
              encodeStr_loop noEscape hex str (i + 2) (i + 1) (out @ replacement_escape)
            else
              (let c2 = str ! (i + 1);
                   p = 0x10000 + (push_bit 10 (c AND 0x3FF) OR (c2 AND 0x3FF))
               in encodeStr_loop noEscape hex str (i + 2) (i + 2)
                    (out @ hex (0xF0 OR drop_bit 18 p) @ hex (0x80 OR (drop_bit 12 p AND 0x3F))
                         @ hex (0x80 OR (drop_bit 6 p AND 0x3F)) @ hex (0x80 OR (p AND 0x3F)))))))"
  by pat_completeness auto
termination by (relation "measure (\<lambda>(_, _, str, i, _). length str - i)") auto

declare encodeStr_loop.simps [simp del]

definition encodeStr :: "ustring \<Rightarrow> (nat \<Rightarrow> bool) \<Rightarrow> (nat \<Rightarrow> ustring) \<Rightarrow> ustring" where
  "encodeStr str noEscape hex =
     (if length str = 0 then []
      else
        (case encodeStr_loop noEscape hex str 0 0 [] of
           (lastPos, out) \<Rightarrow>
             if lastPos = 0 then str
             else if lastPos < length str then out @ drop lastPos str
             else out))"

end
