(* ===== verification/UrlShimProps.thy ===== *)
theory UrlShimProps
  imports UrlShim "HOL-Library.Multiset"
begin

text \<open>
  Properties of the URL shim: the text form of \<open>URLSearchParams\<close> parses back, the list operations
  obey their laws, \<open>encodeStr\<close> computes the escaping it stands for, \<open>fileURLToPath\<close> cannot be
  made to produce a separator that the URL does not show, and what the setters miss.
\<close>

section \<open>The text form\<close>

lemma index_of_from_first: "c \<notin> set s \<Longrightarrow> index_of_from i c (s @ c # t) = i + int (length s)"
  by (induction s arbitrary: i) auto

lemma index_of_first: "c \<notin> set s \<Longrightarrow> index_of (s @ c # t) c = int (length s)"
  by (simp add: index_of_def index_of_from_first)

lemma space_escape_plain: "c \<noteq> 0x25 \<Longrightarrow> space_escape_to_plus (c # r) = c # space_escape_to_plus r"
  by (cases r rule: space_escape_to_plus.cases) auto

lemma hex_digit_facts:
  assumes "n < 16"
  shows "hex_digit n \<noteq> 0x25" "hex_digit n \<noteq> 0x2B" "hex_digit n \<noteq> 0x26" "hex_digit n \<noteq> 0x3D" "hex_digit n \<noteq> 0x3F"
    and "hex_digit n = 0x32 \<longleftrightarrow> n = 2" "hex_digit n = 0x30 \<longleftrightarrow> n = 0"
  using assms by (auto simp: hex_digit_def split: if_splits)

lemma space_escape_pct:
  assumes "b < 256"
  shows "space_escape_to_plus (pct b @ r) = (if b = 0x20 then [0x2B] else pct b) @ space_escape_to_plus r"
proof -
  have d: "b div 16 < 16" "b mod 16 < 16" using assms by (simp_all add: less_mult_imp_div_less)
  have "b = 0x20 \<longleftrightarrow> b div 16 = 2 \<and> b mod 16 = 0" using div_mult_mod_eq [of b 16] by auto
  then show ?thesis using hex_digit_facts [OF d(1)] hex_digit_facts [OF d(2)]
    by (simp add: pct_def space_escape_plain)
qed

lemma space_escape_pcts:
  "list_all (\<lambda>b. b < 256 \<and> b \<noteq> 0x20) bs \<Longrightarrow>
   space_escape_to_plus (concat (map pct bs) @ r) = concat (map pct bs) @ space_escape_to_plus r"
  by (induction bs) (simp_all add: space_escape_pct)

lemma utf8_bytes_range:
  assumes "c < 0x110000" shows "list_all (\<lambda>b. b < 256) (utf8_bytes c)"
    and "c \<noteq> 0x20 \<Longrightarrow> list_all (\<lambda>b. b < 256 \<and> b \<noteq> 0x20) (utf8_bytes c)"
proof -
  have m: "x mod 64 < 128" for x :: nat by (rule less_trans [of _ 64]) simp_all
  have q: "c < 0x800 \<Longrightarrow> c div 64 < 64" "c < 0x10000 \<Longrightarrow> c div 4096 < 32" "c div 262144 < 16"
    using assms by simp_all
  show "list_all (\<lambda>b. b < 256) (utf8_bytes c)" using q by (simp add: utf8_bytes_def m)
  show "c \<noteq> 0x20 \<Longrightarrow> list_all (\<lambda>b. b < 256 \<and> b \<noteq> 0x20) (utf8_bytes c)" using q by (simp add: utf8_bytes_def m)
qed

lemma space_escape_point:
  assumes "c < 0x110000"
  shows "space_escape_to_plus (escape_point c @ r) =
    (if c = 0x20 then [0x2B] else escape_point c) @ space_escape_to_plus r"
proof (cases "c = 0x20")
  case True
  then show ?thesis using space_escape_pct [where b = "0x20" and r = r] by (simp add: escape_point_def utf8_bytes_def)
next
  case False
  then show ?thesis using space_escape_pcts [OF utf8_bytes_range(2) [OF assms False]] by (simp add: escape_point_def)
qed

text \<open>The characters of an escaped string.\<close>

definition form_char :: "nat \<Rightarrow> bool" where
  "form_char c \<longleftrightarrow> c \<noteq> 0x26 \<and> c \<noteq> 0x3D \<and> c \<noteq> 0x3F"

lemma pct_chars: "b < 256 \<Longrightarrow> x \<in> set (pct b) \<Longrightarrow> form_char x \<and> x \<noteq> 0x2B"
  using hex_digit_facts [of "b div 16"] hex_digit_facts [of "b mod 16"]
  by (auto simp: pct_def form_char_def less_mult_imp_div_less)

lemma escape_point_chars:
  assumes "c < 0x110000" "x \<in> set (escape_point c)" shows "form_char x \<and> x \<noteq> 0x2B"
  using utf8_bytes_range(1) [OF assms(1)] assms(2) pct_chars
  by (auto simp: escape_point_def list_all_iff)

lemma unescaped_chars: "unescaped c \<Longrightarrow> form_char c \<and> c \<noteq> 0x2B"
  by (auto simp: unescaped_def form_char_def)

lemma plus_to_space_id: "0x2B \<notin> set s \<Longrightarrow> plus_to_space s = s"
  by (auto simp: plus_to_space_def intro: map_idI)

lemma plus_to_space_append [simp]: "plus_to_space (s @ t) = plus_to_space s @ plus_to_space t"
  by (simp add: plus_to_space_def)

lemma prefix_prefix [simp]: "prefix_result p (prefix_result q x) = prefix_result (p @ q) x"
  by (simp add: prefix_result_def split: sum.split)

lemma plus_to_space_escape: "c < 0x110000 \<Longrightarrow> plus_to_space (escape_point c) = escape_point c"
  using escape_point_chars by (intro plus_to_space_id) blast

lemma encode_form_step:
  assumes "encodeURIComponent s = Inr e" "e = chunk @ e'"
    and "space_escape_to_plus e = chunk' @ space_escape_to_plus e'"
  shows "encode_form s = Inr (chunk' @ space_escape_to_plus e')"
  using assms by (simp add: encode_form_def)

text \<open>Escaping a well-formed string gives form characters, and decoding gives it back.\<close>

lemma encode_form_decodes:
  "well_formed s \<Longrightarrow> encodeURIComponent s = Inr e \<Longrightarrow>
   decodeURIComponent (plus_to_space (space_escape_to_plus e)) = Inr s
   \<and> list_all form_char (space_escape_to_plus e)"
proof (induction s arbitrary: e rule: encodeURIComponent.induct)
  case (2 c cs)
  have f: "form_char 0x2B" "plus_to_space [0x2B] = [0x20]" by (simp_all add: form_char_def plus_to_space_def)
  consider (un) "unescaped c" | (bmp) "\<not> unescaped c" "\<not> is_high c" | (sur) "is_high c" "\<not> unescaped c" by blast
  then show ?case
  proof cases
    case un
    then have nh: "\<not> is_high c" and np: "c \<noteq> 0x25" by (auto simp: unescaped_def is_high_def)
    from "2.prems" un obtain e' where e: "encodeURIComponent cs = Inr e'" "e = c # e'"
      by (auto simp: prefix_result_eq_Inr)
    have "well_formed cs" using "2.prems"(1) nh by simp
    from "2.IH"(1) [OF un this e(1)] unescaped_chars [OF un] np show ?thesis
      by (simp add: e(2) space_escape_plain plus_to_space_def decode_plain)
  next
    case bmp
    with "2.prems" obtain e' where e: "encodeURIComponent cs = Inr e'" "e = escape_point c @ e'" "\<not> is_low c"
      by (auto simp: prefix_result_eq_Inr split: if_splits)
    have c: "c < 0x10000" "\<not> (0xD800 \<le> c \<and> c < 0xE000)" "well_formed cs"
      using "2.prems"(1) bmp by (auto simp: is_high_def is_low_def)
    then have c': "c < 0x110000" by simp
    note IH = "2.IH"(2) [OF bmp(1) e(3) bmp(2) c(3) e(1)]
    show ?thesis
    proof (cases "c = 0x20")
      case True
      have "space_escape_to_plus e = [0x2B] @ space_escape_to_plus e'"
        using space_escape_point [OF c', of e'] True e(2) by simp
      with IH f True show ?thesis by (simp add: decode_plain plus_to_space_def)
    next
      case False
      have "list_all form_char (escape_point c)" using escape_point_chars [OF c'] by (auto simp: list_all_iff)
      with False IH c show ?thesis
        by (simp add: e(2) space_escape_point [OF c'] plus_to_space_escape [OF c'] decode_escape utf16_units_def)
    qed
  next
    case sur
    then obtain d ds where cs: "cs = d # ds" "is_low d" "well_formed ds"
      using "2.prems"(1) by (auto split: list.splits)
    have nl: "\<not> is_low c" using sur by (auto simp: is_high_def is_low_def)
    from "2.prems"(2) sur cs nl obtain e' where e: "encodeURIComponent ds = Inr e'"
      "e = escape_point (surrogate_pair c d) @ e'"
      by (auto simp: prefix_result_eq_Inr)
    note sp = surrogate_pair_props [OF sur(1) cs(2)]
    have nn: "\<not> \<not> is_high c" using sur by simp
    have ns: "surrogate_pair c d \<noteq> 0x20" "\<not> (0xD800 \<le> surrogate_pair c d \<and> surrogate_pair c d < 0xE000)" using sp(2) by simp_all
    have fc: "list_all form_char (escape_point (surrogate_pair c d))"
      using escape_point_chars [OF sp(1)] by (auto simp: list_all_iff)
    from "2.IH"(3) [OF sur(2) nl nn cs(1,2,3) e(1)] ns fc sp(3) show ?thesis
      by (simp add: e(2) space_escape_point [OF sp(1)] plus_to_space_escape [OF sp(1)] decode_escape [OF sp(1) ns(2)] cs(1))
  qed
qed (simp_all add: plus_to_space_def)

lemma encode_form_inverse:
  assumes "well_formed s"
  obtains t where "encode_form s = Inr t" "decodeURIComponent (plus_to_space t) = Inr s" "list_all form_char t"
proof -
  obtain e where "encodeURIComponent s = Inr e" using encode_well_formed [OF assms] by blast
  with that encode_form_decodes [OF assms this] show ?thesis by (simp add: encode_form_def)
qed

definition wf_pairs :: "pairs \<Rightarrow> bool" where
  "wf_pairs l \<longleftrightarrow> list_all (\<lambda>p. well_formed (fst p) \<and> well_formed (snd p)) l"

lemma pair_roundtrip:
  assumes "well_formed k" "well_formed v"
  obtains t where "pair_toString (k, v) = Inr t" "parse_pair t = Inr (k, v)" "t \<noteq> []" "0x26 \<notin> set t" "0x3F \<notin> set t"
proof -
  obtain a where a: "encode_form k = Inr a" "decodeURIComponent (plus_to_space a) = Inr k" "list_all form_char a"
    using encode_form_inverse [OF assms(1)] .
  obtain b where b: "encode_form v = Inr b" "decodeURIComponent (plus_to_space b) = Inr v" "list_all form_char b"
    using encode_form_inverse [OF assms(2)] .
  let ?t = "a @ 0x3D # b"
  have nc: "0x3D \<notin> set a" "0x26 \<notin> set a" "0x26 \<notin> set b" "0x3F \<notin> set a" "0x3F \<notin> set b" using a(3) b(3) by (auto simp: list_all_iff form_char_def)
  have idx: "index_of ?t 0x3D = int (length a)" by (rule index_of_first [OF nc(1)])
  have "js_slice_from ?t (int (length a) + 1) = b"
    using js_slice_from_nat [of ?t "length a + 1"] by (simp add: algebra_simps)
  then have "parse_pair ?t = Inr (k, v)" using a(2) b(2) by (simp add: parse_pair_def idx)
  then show ?thesis using that [of ?t] a(1) b(1) nc by (simp add: pair_toString_def)
qed

lemma params_roundtrip_gen:
  "wf_pairs l \<Longrightarrow> \<exists>ss. map_result pair_toString l = Inr ss \<and> list_all (\<lambda>s. s \<noteq> [] \<and> 0x26 \<notin> set s \<and> 0x3F \<notin> set s) ss \<and> length ss = length l
     \<and> (\<forall>acc. parse_pairs ss acc = (None, acc @ l))"
proof (induction l)
  case (Cons p l)
  from Cons.prems have "well_formed (fst p)" "well_formed (snd p)" by (simp_all add: wf_pairs_def)
  from pair_roundtrip [OF this] obtain t where
    t: "pair_toString p = Inr t" "parse_pair t = Inr p" "t \<noteq> []" "0x26 \<notin> set t" "0x3F \<notin> set t" by auto
  from Cons obtain ss where "map_result pair_toString l = Inr ss" "list_all (\<lambda>s. s \<noteq> [] \<and> 0x26 \<notin> set s \<and> 0x3F \<notin> set s) ss"
    "length ss = length l" "\<forall>acc. parse_pairs ss acc = (None, acc @ l)" by (auto simp: wf_pairs_def)
  with t show ?case by (intro exI [of _ "t # ss"]) simp
qed simp

lemma params_roundtrip:
  assumes "wf_pairs l"
  shows "\<exists>s. sp_toString l = Inr s \<and> parseString s [] = (None, l) \<and> 0x3F \<notin> set s"
proof -
  obtain ss where ss: "map_result pair_toString l = Inr ss" "list_all (\<lambda>s. s \<noteq> [] \<and> 0x26 \<notin> set s \<and> 0x3F \<notin> set s) ss"
    "length ss = length l" "\<forall>acc. parse_pairs ss acc = (None, acc @ l)"
    using params_roundtrip_gen [OF assms] by blast
  show ?thesis
  proof (cases "ss = []")
    case True
    then show ?thesis using ss by (simp add: sp_toString_def parseString_def)
  next
    case False
    have "js_split (js_join [0x26] ss) 0x26 = ss"
      unfolding js_split_def by (rule split_by_join) (use False ss(2) in \<open>auto simp: list_all_iff\<close>)
    moreover have "js_join [0x26] ss \<noteq> []" using ss(2) False
      by (subst js_join_eq_Nil) (auto simp: list_all_iff)
    moreover have "0x3F \<notin> set (js_join [0x26] ss)" using ss(2) set_js_join [of "[0x26]" ss] by (fastforce simp: list_all_iff)
    ultimately show ?thesis using ss by (simp add: sp_toString_def parseString_def)
  qed
qed

section \<open>The list operations\<close>

lemma set_filter_True: "set_filter name value True l = (True, filter (\<lambda>p. fst p \<noteq> name) l)"
  by (induction l) (auto simp: case_prod_beta)

lemma set_filter_False:
  "fst (set_filter name value False l) = (\<exists>p \<in> set l. fst p = name)"
  "filter (\<lambda>p. fst p \<noteq> name) (snd (set_filter name value False l)) = filter (\<lambda>p. fst p \<noteq> name) l"
  "filter (\<lambda>p. fst p = name) (snd (set_filter name value False l)) =
     (if \<exists>p \<in> set l. fst p = name then [(name, value)] else [])"
  by (induction l) (auto simp: case_prod_beta set_filter_True)

lemma sp_set_parts:
  "filter (\<lambda>p. fst p \<noteq> name) (sp_set name value l) = filter (\<lambda>p. fst p \<noteq> name) l"
  "filter (\<lambda>p. fst p = name) (sp_set name value l) = [(name, value)]"
  using set_filter_False [of name "value" l] by (auto simp: sp_set_def case_prod_beta)

lemma sp_getAll_other:
  assumes "n \<noteq> name" "filter (\<lambda>p. fst p \<noteq> name) l' = filter (\<lambda>p. fst p \<noteq> name) l"
  shows "sp_getAll n l' = sp_getAll n l"
proof -
  have "filter (\<lambda>p. fst p = n) xs = filter (\<lambda>p. fst p = n) (filter (\<lambda>p. fst p \<noteq> name) xs)" for xs :: pairs
    using assms(1) by (auto intro: filter_cong)
  then show ?thesis unfolding sp_getAll_def using assms(2) by metis
qed

lemma sp_get_hd: "sp_get n l = (case sp_getAll n l of [] \<Rightarrow> None | v # _ \<Rightarrow> Some v)"
  by (induction l) (auto simp: sp_getAll_def)

lemma sp_has_iff: "sp_has n None l \<longleftrightarrow> sp_getAll n l \<noteq> []"
  by (induction l) (auto simp: sp_getAll_def)

section \<open>encodeStr\<close>

lemma or_disjoint: "x < 2 ^ k \<Longrightarrow> push_bit k a OR x = a * 2 ^ k + (x :: nat)"
proof -
  assume x: "x < 2 ^ k"
  then have "take_bit k x = x" by (simp add: take_bit_eq_mod)
  then have "\<not> bit (push_bit k a) n \<or> \<not> bit x n" for n
    by (metis bit_push_bit_iff bit_take_bit_iff leD)
  then have "push_bit k a AND x = 0" by (auto simp: bit_eq_iff bit_and_iff)
  then have "push_bit k a + x = push_bit k a OR x" by (rule disjunctive_add_eq_or)
  then show ?thesis by (simp add: push_bit_eq_mult)
qed

lemma or_consts:
  "x < 64 \<Longrightarrow> 0xC0 OR x = 0xC0 + (x :: nat)" "x < 64 \<Longrightarrow> 0x80 OR x = 0x80 + (x :: nat)"
  "x < 16 \<Longrightarrow> 0xE0 OR x = 0xE0 + (x :: nat)" "x < 16 \<Longrightarrow> 0xF0 OR x = 0xF0 + (x :: nat)"
  using or_disjoint [of x 6 3] or_disjoint [of x 6 2] or_disjoint [of x 4 14] or_disjoint [of x 4 15]
  by (simp_all add: push_bit_eq_mult)

lemma and_consts: "x AND 0x3F = x mod 64" "x AND 0x3FF = (x :: nat) mod 1024"
  using take_bit_eq_mask [of 6 x] take_bit_eq_mask [of 10 x]
  by (simp_all add: take_bit_eq_mod mask_eq_exp_minus_1)

text \<open>The escaping that the loop stands for, unit by unit.\<close>

definition any_pair :: "nat \<Rightarrow> nat \<Rightarrow> nat" where
  "any_pair c d = 0x10000 + (c mod 1024) * 1024 + d mod 1024"

fun encode_ref :: "(nat \<Rightarrow> bool) \<Rightarrow> (nat \<Rightarrow> ustring) \<Rightarrow> ustring \<Rightarrow> ustring" where
  "encode_ref noEscape hex [] = []"
| "encode_ref noEscape hex (c # cs) =
     (if c < 0x80 \<and> noEscape c then c # encode_ref noEscape hex cs
      else if c < 0xD800 \<or> c \<ge> 0xE000 then concat (map hex (utf8_bytes c)) @ encode_ref noEscape hex cs
      else
        (case cs of
           [] \<Rightarrow> replacement_escape
         | d # ds \<Rightarrow> concat (map hex (utf8_bytes (any_pair c d))) @ encode_ref noEscape hex ds))"

lemma encode_loop_step2:
  assumes "c < 0x800" shows "0xC0 OR drop_bit 6 c = 0xC0 + c div 64" "0x80 OR (c AND 0x3F) = 0x80 + c mod (64 :: nat)"
proof -
  have "c div 64 < 64" using assms by simp
  then show "0xC0 OR drop_bit 6 c = 0xC0 + c div 64" by (simp add: drop_bit_eq_div or_consts)
  show "0x80 OR (c AND 0x3F) = 0x80 + c mod 64" by (simp add: and_consts or_consts)
qed

lemma encode_loop_step3:
  assumes "c < 0x10000"
  shows "0xE0 OR drop_bit 12 c = 0xE0 + c div 4096" "0x80 OR (drop_bit 6 c AND 0x3F) = 0x80 + c div 64 mod (64 :: nat)"
    "0x80 OR (c AND 0x3F) = 0x80 + c mod (64 :: nat)"
proof -
  have "c div 4096 < 16" using assms by simp
  then show "0xE0 OR drop_bit 12 c = 0xE0 + c div 4096" by (simp add: drop_bit_eq_div or_consts)
qed (simp_all add: drop_bit_eq_div and_consts or_consts)

lemma encode_loop_step4:
  assumes "p < 0x110000"
  shows "0xF0 OR drop_bit 18 p = 0xF0 + p div 262144"
    "0x80 OR (drop_bit 12 p AND 0x3F) = 0x80 + p div 4096 mod (64 :: nat)"
    "0x80 OR (drop_bit 6 p AND 0x3F) = 0x80 + p div 64 mod (64 :: nat)"
    "0x80 OR (p AND 0x3F) = 0x80 + p mod (64 :: nat)"
proof -
  have "p div 262144 < 16" using assms by simp
  then show "0xF0 OR drop_bit 18 p = 0xF0 + p div 262144" by (simp add: drop_bit_eq_div or_consts)
qed (simp_all add: drop_bit_eq_div and_consts or_consts)

lemma any_pair_bits: "0x10000 + (push_bit 10 (c AND 0x3FF) OR (d AND 0x3FF)) = any_pair c d"
  using or_disjoint [of "d mod 1024" 10 "c mod 1024"] by (simp add: and_consts any_pair_def)

lemma any_pair_range: "0x10000 \<le> any_pair c d" "any_pair c d < 0x110000"
proof -
  have "c mod 1024 \<le> 1023" "d mod 1024 \<le> 1023" by (simp_all add: less_Suc_eq_le [symmetric])
  then show "0x10000 \<le> any_pair c d" "any_pair c d < 0x110000" by (simp_all add: any_pair_def)
qed

lemma slice_if [simp]: "(if lp < i then take (i - lp) (drop lp xs) else []) = take (i - lp) (drop lp xs)"
  by simp

lemma take_slice_Suc:
  "lp \<le> i \<Longrightarrow> i < length xs \<Longrightarrow> take (Suc i - lp) (drop lp xs) = take (i - lp) (drop lp xs) @ [xs ! i]"
  by (simp add: Suc_diff_le take_Suc_conv_app_nth)

lemma encodeStr_loop_correct:
  assumes "\<forall>c \<in> set str. c < 0x10000" "lp \<le> i" "lp = 0 \<longrightarrow> out = []"
    and "encodeStr_loop tbl hex str i lp out = (lp', out')"
  shows "out' @ drop lp' str = out @ take (i - lp) (drop lp str) @ encode_ref tbl hex (drop i str)
    \<and> (lp' = 0 \<longrightarrow> out' = [])"
  using assms(2-)
proof (induction "length str - i" arbitrary: i lp out rule: less_induct)
  case less
  note step = less.prems(3) [unfolded encodeStr_loop.simps [of tbl hex str i lp out] Let_def slice_if]
  show ?case
  proof (cases "i \<ge> length str")
    case True
    with step have "lp' = lp" "out' = out" by auto
    moreover have "take (i - lp) (drop lp str) = drop lp str" using True less.prems(1) by simp
    ultimately show ?thesis using True less.prems(2) by simp
  next
    case False
    then have i: "i < length str" by simp
    let ?c = "str ! i" and ?o = "out @ take (i - lp) (drop lp str)"
    have c16: "?c < 0x10000" using assms(1) i by simp
    have dr: "drop i str = ?c # drop (Suc i) str" using Cons_nth_drop_Suc [OF i] by simp
    have IH: "out' @ drop lp' str = o1 @ take (j - l1) (drop l1 str) @ encode_ref tbl hex (drop j str) \<and> (lp' = 0 \<longrightarrow> out' = [])"
      if "i < j" "l1 \<le> j" "l1 = 0 \<longrightarrow> o1 = []" "encodeStr_loop tbl hex str j l1 o1 = (lp', out')" for j l1 o1
      using less.hyps [OF _ that(2-4)] that(1) i by simp
    have chunk: "?thesis" if "encodeStr_loop tbl hex str (i + 1) (i + 1) (?o @ ch) = (lp', out')"
      "encode_ref tbl hex (drop i str) = ch @ encode_ref tbl hex (drop (i + 1) str)" for ch
      using IH [OF _ _ _ that(1)] that(2) by simp
    consider (plain) "?c < 0x80" "tbl ?c" | (one) "?c < 0x80" "\<not> tbl ?c" | (two) "0x80 \<le> ?c" "?c < 0x800"
      | (three) "0x800 \<le> ?c" "?c < 0xD800 \<or> 0xE000 \<le> ?c" | (sur) "0xD800 \<le> ?c" "?c < 0xE000" by linarith
    then show ?thesis
    proof cases
      case plain
      with step False have "encodeStr_loop tbl hex str (i + 1) lp out = (lp', out')" by simp
      from IH [OF _ _ less.prems(2) this] less.prems(1) plain show ?thesis
        using take_slice_Suc [OF less.prems(1) i] by (simp add: dr)
    next
      case one
      with step False show ?thesis by (intro chunk [of "hex ?c"]) (simp_all add: dr utf8_bytes_def)
    next
      case two
      with step False show ?thesis
        by (intro chunk [of "concat (map hex (utf8_bytes ?c))"])
          (simp_all add: dr utf8_bytes_def encode_loop_step2)
    next
      case three
      with step False c16 show ?thesis
        by (intro chunk [of "concat (map hex (utf8_bytes ?c))"])
          (auto simp: dr utf8_bytes_def encode_loop_step3)
    next
      case sur
      show ?thesis
      proof (cases "i + 1 \<ge> length str")
        case True
        with sur step False have "encodeStr_loop tbl hex str (i + 2) (i + 1) (?o @ replacement_escape) = (lp', out')"
          by simp
        from IH [OF _ _ _ this] True sur show ?thesis by (simp add: dr)
      next
        case f2: False
        let ?p = "any_pair ?c (str ! (i + 1))"
        have dr2: "drop (Suc i) str = str ! (i + 1) # drop (i + 2) str" using f2 Cons_nth_drop_Suc [of "Suc i" str] by simp
        from sur step False f2 have
          "encodeStr_loop tbl hex str (i + 2) (i + 2) (?o @ concat (map hex (utf8_bytes ?p))) = (lp', out')"
          using any_pair_range [of ?c "str ! (i + 1)"] encode_loop_step4 [of ?p] any_pair_bits [of ?c "str ! (i + 1)"]
          by (simp add: utf8_bytes_def)
        from IH [OF _ _ _ this] sur show ?thesis by (simp add: dr dr2)
      qed
    qed
  qed
qed

lemma encodeStr_eq_ref:
  assumes "\<forall>c \<in> set str. c < 0x10000"
  shows "encodeStr str tbl hex = encode_ref tbl hex str"
proof -
  obtain lp out where l: "encodeStr_loop tbl hex str 0 0 [] = (lp, out)" by force
  from encodeStr_loop_correct [OF assms _ _ this] have "out @ drop lp str = encode_ref tbl hex str" "lp = 0 \<longrightarrow> out = []"
    by simp_all
  then show ?thesis by (auto simp: encodeStr_def l)
qed

text \<open>On well-formed strings, with the table of \<open>encodeURIComponent\<close>, it is that function.\<close>

lemma any_pair_surrogate: "is_high c \<Longrightarrow> is_low d \<Longrightarrow> any_pair c d = surrogate_pair c d"
proof -
  assume "is_high c" "is_low d"
  then obtain k j where h: "c = 0xD800 + k" "k < 1024" "d = 0xDC00 + j" "j < 1024"
    using that [of "c - 0xD800" "d - 0xDC00"] by (auto simp: is_high_def is_low_def)
  have "(0xD800 + k) mod 1024 = k" "(0xDC00 + j) mod 1024 = j"
    using h(2,4) mod_mult_self3 [of 54 1024 k] mod_mult_self3 [of 55 1024 j] by simp_all
  then show ?thesis by (simp add: any_pair_def surrogate_pair_def h)
qed

lemma encode_ref_URI:
  "well_formed s \<Longrightarrow> encodeURIComponent s = Inr (encode_ref unescaped hexTable s)"
proof (induction s rule: encodeURIComponent.induct)
  case (2 c cs)
  have hx: "map hexTable bs = map pct bs" for bs by (simp add: hexTable_def)
  show ?case
  proof (cases "is_high c")
    case True
    then have c: "\<not> unescaped c" "\<not> is_low c" "\<not> c < 0x80" "\<not> (c < 0xD800 \<or> 0xE000 \<le> c)"
      by (auto simp: is_high_def is_low_def unescaped_def)
    from True 2(4) obtain d ds where d: "cs = d # ds" "is_low d" "well_formed ds" by (auto split: list.splits)
    have "encodeURIComponent ds = Inr (encode_ref unescaped hexTable ds)"
      using 2(3) [OF c(1,2) _ d(1,2,3)] True by simp
    then show ?thesis using True c d by (simp add: any_pair_surrogate escape_point_def hx)
  next
    case False
    with 2(4) have c: "\<not> is_low c" "c < 0x10000" "well_formed cs" by auto
    with False have r: "c < 0xD800 \<or> 0xE000 \<le> c" by (auto simp: is_high_def is_low_def)
    show ?thesis
    proof (cases "unescaped c")
      case True
      then have "c < 0x80" by (auto simp: unescaped_def)
      with True 2(1) c show ?thesis by simp
    next
      case un: False
      with 2(2) [OF un c(1) False c(3)] False c r show ?thesis by (simp add: escape_point_def hx)
    qed
  qed
qed simp

section \<open>fileURLToPath\<close>

definition encoded_slash_at :: "ustring \<Rightarrow> nat \<Rightarrow> bool" where
  "encoded_slash_at s i \<longleftrightarrow>
     i + 2 < length s \<and> s ! i = 0x25 \<and> s ! (i + 1) = 0x32 \<and> (s ! (i + 2)) OR 0x20 = 0x66"

lemma up_loop_found:
  assumes "lo \<le> hi"
  shows "snd (up_loop (\<lambda>i f. if P i then (True, True) else (False, f)) lo hi False) \<longleftrightarrow> (\<exists>i. lo \<le> i \<and> i < hi \<and> P i)"
  using assms
proof (induction "nat (hi - lo)" arbitrary: lo)
  case 0
  then show ?case by (simp add: up_loop.simps)
next
  case (Suc n)
  then have lo: "lo < hi" by simp
  show ?case
  proof (cases "P lo")
    case True
    with lo show ?thesis by (auto simp: up_loop_break)
  next
    case False
    have "snd (up_loop (\<lambda>i f. if P i then (True, True) else (False, f)) (lo + 1) hi False) \<longleftrightarrow>
        (\<exists>i. lo + 1 \<le> i \<and> i < hi \<and> P i)"
      using Suc by (intro Suc.hyps(1)) simp_all
    also have "\<dots> \<longleftrightarrow> (\<exists>i. lo \<le> i \<and> i < hi \<and> P i)"
    proof
      assume "\<exists>i. lo \<le> i \<and> i < hi \<and> P i"
      then obtain i where i: "lo \<le> i" "i < hi" "P i" by blast
      with False have "lo \<noteq> i" by blast
      with i(1) have "lo + 1 \<le> i" by simp
      with i show "\<exists>i. lo + 1 \<le> i \<and> i < hi \<and> P i" by blast
    next
      assume "\<exists>i. lo + 1 \<le> i \<and> i < hi \<and> P i"
      then obtain i where i: "lo + 1 \<le> i" "i < hi" "P i" by blast
      then have "lo \<le> i" by simp
      with i show "\<exists>i. lo \<le> i \<and> i < hi \<and> P i" by blast
    qed
    finally show ?thesis using lo False by (subst up_loop.simps) simp
  qed
qed

lemma char_at_offset:
  assumes "i + 2 < length s"
  shows "char_at s (int i) = Some (s ! i)" "char_at s (int i + 1) = Some (s ! (i + 1))" "char_at s (int i + 2) = Some (s ! (i + 2))"
proof -
  have "int i + 1 = int (i + 1)" "int i + 2 = int (i + 2)" by simp_all
  then show "char_at s (int i) = Some (s ! i)" "char_at s (int i + 1) = Some (s ! (i + 1))" "char_at s (int i + 2) = Some (s ! (i + 2))"
    using assms by (simp_all only: char_at_nat) simp_all
qed

lemma has_encoded_slash_iff: "has_encoded_slash s \<longleftrightarrow> (\<exists>i. encoded_slash_at s i)"
proof (cases "length s < 2")
  case True
  then show ?thesis by (simp add: has_encoded_slash_def encoded_slash_at_def up_loop.simps)
next
  case False
  let ?P = "\<lambda>i. char_at s i = Some 0x25 \<and> char_at s (i + 1) = Some 0x32
      \<and> (case char_at s (i + 2) of None \<Rightarrow> False | Some c \<Rightarrow> c OR 0x20 = 0x66)"
  have "has_encoded_slash s \<longleftrightarrow> (\<exists>i. 0 \<le> i \<and> i < int (length s) - 2 \<and> ?P i)"
    unfolding has_encoded_slash_def using False by (intro up_loop_found) simp
  also have "\<dots> \<longleftrightarrow> (\<exists>i. i + 2 < length s \<and> ?P (int i))"
  proof
    assume "\<exists>i. 0 \<le> i \<and> i < int (length s) - 2 \<and> ?P i"
    then obtain i where "0 \<le> i" "i < int (length s) - 2" "?P i" by blast
    then have "nat i + 2 < length s \<and> ?P (int (nat i))" by simp
    then show "\<exists>i. i + 2 < length s \<and> ?P (int i)" by blast
  next
    assume "\<exists>i. i + 2 < length s \<and> ?P (int i)"
    then obtain i where i: "i + 2 < length s" "?P (int i)" by blast
    then have "0 \<le> int i \<and> int i < int (length s) - 2 \<and> ?P (int i)" by simp
    then show "\<exists>i. 0 \<le> i \<and> i < int (length s) - 2 \<and> ?P i" by blast
  qed
  also have "\<dots> \<longleftrightarrow> (\<exists>i. encoded_slash_at s i)"
  proof (rule ex_cong1)
    fix i show "i + 2 < length s \<and> ?P (int i) \<longleftrightarrow> encoded_slash_at s i"
    proof (cases "i + 2 < length s")
      case True
      show ?thesis unfolding encoded_slash_at_def char_at_offset [OF True] using True by simp
    qed (simp add: encoded_slash_at_def)
  qed
  finally show ?thesis .
qed

lemma encoded_slash_suffix: "encoded_slash_at r i \<Longrightarrow> encoded_slash_at (w @ r) (length w + i)"
  by (simp add: encoded_slash_at_def nth_append)

text \<open>An escape consumes \<open>%\<close> and two hexadecimal digits.\<close>

lemma take_escape_form:
  assumes "take_escape s = Some (b, r)"
  shows "\<exists>h l. s = 0x25 # h # l # r \<and> hex_pair h l = Some b"
  using assms by (cases s rule: take_escape.cases) (auto split: if_splits option.splits)

lemma hex_pair_not_slash: "hex_pair h l = Some b \<Longrightarrow> h \<noteq> 0x2F \<and> l \<noteq> 0x2F"
  by (auto simp: hex_pair_def hex_value_def split: option.splits if_splits)

lemma hex_pair_slash: "hex_pair h l = Some 0x2F \<Longrightarrow> h = 0x32 \<and> l OR 0x20 = 0x66"
proof -
  assume "hex_pair h l = Some 0x2F"
  then obtain a b where ab: "hex_value h = Some a" "hex_value l = Some b" "16 * a + b = 0x2F"
    by (auto simp: hex_pair_def split: option.splits)
  have "a < 16" "b < 16" using ab by (auto simp: hex_value_def split: if_splits)
  with ab(3) have "a = 2" "b = 15" by presburger+
  with ab(1,2) have "h = 0x32" "l = 0x46 \<or> l = 0x66" by (auto simp: hex_value_def split: if_splits)
  then show ?thesis by auto
qed

lemma take_escape_split:
  "take_escape s = Some (b, r) \<Longrightarrow> \<exists>w. s = w @ r \<and> 0x2F \<notin> set w"
  using take_escape_form [of s b r] hex_pair_not_slash by (force intro: exI [of _ "[_, _, _]"])

lemma take_continuation_split:
  "take_continuation s = Some (b, r) \<Longrightarrow> \<exists>w. s = w @ r \<and> 0x2F \<notin> set w"
  by (auto split: option.splits if_splits dest: take_escape_split)

lemma append_no_slash:
  "\<exists>w. s = w @ r \<and> 0x2F \<notin> set w \<Longrightarrow> \<exists>w. r = w @ r' \<and> 0x2F \<notin> set w \<Longrightarrow> \<exists>w. s = w @ r' \<and> (0x2F :: nat) \<notin> set w"
  by (metis append.assoc set_append Un_iff)

lemma take_point_split:
  assumes "take_point s = Some (p, r)"
  shows "\<exists>w. s = w @ r \<and> 0x2F \<notin> set w"
    and "p = 0x2F \<Longrightarrow> encoded_slash_at s 0"
proof -
  obtain b r1 where e: "take_escape s = Some (b, r1)" using assms by (auto simp: take_point_def split: option.splits)
  note w1 = take_escape_split [OF e]
  note T = take_continuation_split
  show "\<exists>w. s = w @ r \<and> 0x2F \<notin> set w"
    using assms e w1
    by (auto simp: take_point_def Let_def simp del: take_continuation.simps split: option.splits if_splits
        dest!: T intro: append_no_slash)
  assume p: "p = 0x2F"
  have "b = 0x2F"
    using assms e p
    by (auto simp: take_point_def Let_def valid_point_def simp del: take_continuation.simps split: option.splits if_splits)
  with take_escape_form [OF e] hex_pair_slash show "encoded_slash_at s 0"
    by (auto simp: encoded_slash_at_def)
qed

lemma utf16_units_slash: "count_list (utf16_units p) 0x2F = (if p = 0x2F then 1 else 0)"
  by (auto simp: utf16_units_def)

lemma count_no_slash: "x \<notin> set w \<Longrightarrow> count_list w x = 0"
  by (induction w) auto

lemma decode_keeps_slashes:
  "\<nexists>i. encoded_slash_at s i \<Longrightarrow> decodeURIComponent s = Inr t \<Longrightarrow> count_list t 0x2F = count_list s 0x2F"
proof (induction s arbitrary: t rule: decodeURIComponent.induct)
  case (1 s)
  show ?case
  proof (cases s)
    case Nil
    with 1(4) show ?thesis by simp
  next
    case (Cons c cs)
    have no: "\<nexists>i. encoded_slash_at r i" if "s = w @ r" for w r
      using 1(3) encoded_slash_suffix that by blast
    show ?thesis
    proof (cases "c = 0x25")
      case False
      with 1(4) Cons obtain t' where t: "decodeURIComponent cs = Inr t'" "t = c # t'"
        by (auto simp: decode_plain prefix_result_eq_Inr)
      have "\<nexists>i. encoded_slash_at cs i" using no [of "[c]" cs] Cons by simp
      with 1(1) [OF Cons False _ t(1)] t(2) Cons show ?thesis by simp
    next
      case True
      with 1(4) Cons obtain q r t' where q: "take_point s = Some (q, r)" "decodeURIComponent r = Inr t'"
        "t = utf16_units q @ t'"
        by (subst (asm) decodeURIComponent.simps) (auto simp: prefix_result_eq_Inr split: option.splits)
      obtain w where w: "s = w @ r" "0x2F \<notin> set w" using take_point_split(1) [OF q(1)] by blast
      have "q \<noteq> 0x2F" using take_point_split(2) [OF q(1)] 1(3) by blast
      moreover have "count_list t' 0x2F = count_list r 0x2F"
        using 1(2) [OF Cons _ q(1) refl no [OF w(1)] q(2)] True by simp
      ultimately show ?thesis using q(3) w by (simp add: utf16_units_slash count_no_slash)
    qed
  qed
qed

section \<open>Properties\<close>

text \<open>C11: The text form of \<open>URLSearchParams\<close> parses back.  For every list of pairs of well-formed
  strings (any characters, empty names and values, repeated names), \<open>toString\<close> succeeds and both the
  string and the string after a \<open>?\<close> construct the same list.\<close>

theorem search_params_roundtrip:
  assumes "wf_pairs l"
  shows "\<exists>s. sp_toString l = Inr s \<and> new_URLSearchParams (InitString s) = Inr l
    \<and> new_URLSearchParams (InitString (0x3F # s)) = Inr l"
proof -
  obtain s where s: "sp_toString l = Inr s" "parseString s [] = (None, l)" "0x3F \<notin> set s"
    using params_roundtrip [OF assms] by blast
  then have "char_at s 0 \<noteq> Some 0x3F" by (cases s) auto
  then have "new_URLSearchParams (InitString s) = Inr l" using s by (simp add: new_URLSearchParams_def Let_def del: char_at_zero)
  moreover have "new_URLSearchParams (InitString (0x3F # s)) = Inr l" using s by (simp add: new_URLSearchParams_def)
  ultimately show ?thesis using s(1) by blast
qed

theorem search_params_roundtrip_witness:
  "\<exists>s. sp_toString [(ascii ''a b'', ascii ''&=+%''), ([], [0x20AC, 0xD83D, 0xDE00])] = Inr s \<and>
     new_URLSearchParams (InitString s) = Inr [(ascii ''a b'', ascii ''&=+%''), ([], [0x20AC, 0xD83D, 0xDE00])]"
proof -
  have "wf_pairs [(ascii ''a b'', ascii ''&=+%''), ([], [0x20AC, 0xD83D, 0xDE00])]"
    by (simp add: wf_pairs_def ascii_def is_high_def is_low_def)
  from search_params_roundtrip [OF this] show ?thesis by blast
qed

text \<open>\<open>set\<close> leaves exactly one pair for its name, with the value, and changes nothing about
  the others, their order included.\<close>

theorem search_params_set:
  "sp_getAll name (sp_set name v l) = [v] \<and> sp_get name (sp_set name v l) = Some v
   \<and> filter (\<lambda>p. fst p \<noteq> name) (sp_set name v l) = filter (\<lambda>p. fst p \<noteq> name) l
   \<and> sp_delete name None (sp_set name v l) = sp_delete name None l"
  using sp_set_parts [of name v l] by (simp add: sp_getAll_def sp_get_hd sp_delete_def)

text \<open>\<open>sort\<close> orders the names by code units, keeps every pair, and keeps the order of pairs with
  the same name.\<close>

theorem search_params_sort:
  "sorted (map fst (sp_sort l)) \<and> mset (sp_sort l) = mset l \<and> sp_getAll name (sp_sort l) = sp_getAll name l"
  by (simp add: sp_sort_def sp_getAll_def sort_key_stable)

text \<open>\<open>encodeStr\<close>, the hand-written UTF-16 to percent-escape loop, agrees with
  \<open>encodeURIComponent\<close> on every well-formed string when given its table.\<close>

theorem encodeStr_is_encodeURIComponent:
  assumes "well_formed s"
  shows "encodeURIComponent s = Inr (encodeStr s unescaped hexTable)"
proof -
  have "\<forall>c \<in> set s. c < 0x10000" using assms
    by (induction s rule: well_formed.induct) (auto simp: is_high_def is_low_def split: if_splits list.splits)
  from encodeStr_eq_ref [OF this] encode_ref_URI [OF assms] show ?thesis by simp
qed

theorem encodeStr_is_encodeURIComponent_witness:
  "encodeURIComponent [0x41, 0x20, 0xE9, 0x20AC, 0xD83D, 0xDE00]
     = Inr (encodeStr [0x41, 0x20, 0xE9, 0x20AC, 0xD83D, 0xDE00] unescaped hexTable)"
  by (rule encodeStr_is_encodeURIComponent) (simp add: is_high_def is_low_def)

text \<open>\<open>fileURLToPath\<close> cannot be made to produce a separator the URL does not show: the path has
  exactly the slashes of the URL's pathname.\<close>

theorem file_url_keeps_slashes:
  assumes "fileURLToPath b (FUrl u) = Inr p"
  shows "count_list p 0x2F = count_list (get_pathname u) 0x2F"
proof -
  from assms have "\<not> has_encoded_slash (get_pathname u)" "decodeURIComponent (get_pathname u) = Inr p"
    by (auto simp: fileURLToPath_def path_of_parts_def split: if_splits)
  then show ?thesis using decode_keeps_slashes by (simp add: has_encoded_slash_iff)
qed

text \<open>A URL object whose href is the given text and whose pathname is all of it.\<close>

definition demo_url :: "string \<Rightarrow> int \<Rightarrow> int \<Rightarrow> url" where
  "demo_url s proto path =
     make_url (ascii s,
       \<lparr>protocol_end = proto, username_end = path, host_start = path, host_end = path, url_port = -1,
        pathname_start = path, search_start = -1, hash_start = -1, scheme_type = 6\<rparr>)"

definition demo_binding :: url_binding where
  "demo_binding = \<lparr>ub_parse = (\<lambda>i b. None), ub_update = (\<lambda>h a v. Some (v, comps (uctx (demo_url ''file:///x'' 5 7)))),
                   ub_pathToFileURL = (\<lambda>p. None)\<rparr>"

lemmas demo_url_eval = demo_url_def make_url_def ascii_def get_pathname_def get_hostname_def get_protocol_def host_startsAt_def
  hasSearch_def hasHash_def kOmittedSigned_def js_slice_def slice_index_def char_at_def Let_def

lemma demo_url_parts:
  "get_pathname (demo_url ''file:///a%20b/c'' 5 7) = ascii ''/a%20b/c''"
  "get_hostname (demo_url ''file:///a%20b/c'' 5 7) = []"
  "get_pathname (demo_url ''http:///x'' 5 7) = ascii ''/x''" "get_hostname (demo_url ''http:///x'' 5 7) = []"
  "get_protocol (demo_url ''http:///x'' 5 7) = ascii ''http:''"
  by (simp_all add: demo_url_eval)

lemma demo_no_encoded_slash: "\<not> has_encoded_slash (ascii ''/a%20b/c'')" "\<not> has_encoded_slash (ascii ''/x'')"
  by (simp_all add: has_encoded_slash_def ascii_def up_loop.simps char_at_def)

theorem file_url_keeps_slashes_witness:
  "\<exists>p. fileURLToPath demo_binding (FUrl (demo_url ''file:///a%20b/c'' 5 7)) = Inr p \<and> count_list p 0x2F = 2"
proof -
  have "decodeURIComponent (ascii ''/a%20b/c'') = Inr (ascii ''/a b/c'')" by (simp add: ascii_def decode_eval)
  then have "fileURLToPath demo_binding (FUrl (demo_url ''file:///a%20b/c'' 5 7)) = Inr (ascii ''/a b/c'')"
    by (simp add: fileURLToPath_def path_of_parts_def demo_url_parts demo_no_encoded_slash)
  from file_url_keeps_slashes [OF this] this show ?thesis unfolding demo_url_parts by (simp add: ascii_def)
qed

text \<open>\<open>fileURLToPath\<close> does not check the scheme of a \<open>URL\<close> object: an \<open>http:\<close> URL is
  converted like a file URL.\<close>

theorem file_url_any_scheme:
  "\<exists>u. get_protocol u = ascii ''http:'' \<and> fileURLToPath b (FUrl u) = Inr (ascii ''/x'')"
proof (intro exI [of _ "demo_url ''http:///x'' 5 7"] conjI)
  show "get_protocol (demo_url ''http:///x'' 5 7) = ascii ''http:''" by (rule demo_url_parts)
  have "decodeURIComponent (ascii ''/x'') = Inr (ascii ''/x'')" by (simp add: ascii_def decode_eval)
  then show "fileURLToPath b (FUrl (demo_url ''http:///x'' 5 7)) = Inr (ascii ''/x'')"
    by (simp add: fileURLToPath_def path_of_parts_def demo_url_parts demo_no_encoded_slash)
qed

text \<open>Assigning \<open>href\<close> leaves \<open>searchParams\<close> stale.  Once they were asked for, they keep
  answering the old list whatever the new href's query is, and the next mutation writes the old
  parameters back into the URL.\<close>

theorem href_leaves_params_stale:
  assumes "searchParams u = Some l" "set_href b v u = (Inr (), u')" "sp_toString (f l) = Inr s"
  shows "get_searchParams u' = (Inr l, u')
    \<and> mutate_params b f u' = (None, setSearchFromParams b s (u'\<lparr>searchParams := Some (f l)\<rparr>))"
  using assms
  by (auto simp: set_href_def apply_update_def get_searchParams_def mutate_params_def split: option.splits if_splits)

theorem href_leaves_params_stale_witness:
  "\<exists>u'. set_href demo_binding (ascii ''file:///x'') ((demo_url ''file:///x'' 5 7)\<lparr>searchParams := Some [(ascii ''a'', ascii ''1'')]\<rparr>)
      = (Inr (), u') \<and> get_searchParams u' = (Inr [(ascii ''a'', ascii ''1'')], u')"
proof -
  let ?u = "(demo_url ''file:///x'' 5 7)\<lparr>searchParams := Some [(ascii ''a'', ascii ''1'')]\<rparr>"
  have 1: "searchParams ?u = Some [(ascii ''a'', ascii ''1'')]" by simp
  obtain u' where 2: "set_href demo_binding (ascii ''file:///x'') ?u = (Inr (), u')"
    by (simp add: set_href_def apply_update_def demo_binding_def ascii_def)
  have 3: "sp_toString ((\<lambda>l. []) [(ascii ''a'', ascii ''1'')]) = Inr []" by (simp add: sp_toString_def)
  from href_leaves_params_stale [OF 1 2 3] 2 show ?thesis by blast
qed

text \<open>A query with a stray percent sign makes \<open>URLSearchParams\<close> throw a \<open>URIError\<close> instead of
  keeping the sign.\<close>

theorem search_params_stray_percent:
  "new_URLSearchParams (InitString (ascii ''a=100%'')) = Inl uri_error"
  by (simp add: new_URLSearchParams_def parseString_def parse_pair_def js_split_def split_by_def ascii_def index_of_def
      js_slice_def js_slice_from_def slice_index_def plus_to_space_def decode_eval)

end
