(* ===== verification/FixedQueue.thy ===== *)
theory FixedQueue
  imports JsPrelude
begin

unbundle bit_operations_syntax

text \<open>
  The queue behind \<open>process.nextTick\<close> (\<open>libjs-node/internal/fixed_queue.js\<close>): a chain of circular
  buffers of 2048 slots.  The buffers are objects in a store, addressed by number, with their
  \<open>next\<close> pointers; \<open>undefined\<close> is \<open>None\<close>.  The locale \<open>fifo\<close> is the contract a client of the queue
  relies on; the model is proved to meet it.
\<close>

section \<open>FixedCircularBuffer\<close>

definition kSize :: nat where
  "kSize = 2048"

definition kMask :: nat where
  "kMask = kSize - 1"

record 'a circular =
  bottom :: nat
  top :: nat
  slots :: "'a option list"
  nextBuf :: "nat option"

definition new_circular :: "'a circular" where
  "new_circular = \<lparr>bottom = 0, top = 0, slots = replicate kSize None, nextBuf = None\<rparr>"

definition cb_isEmpty :: "'a circular \<Rightarrow> bool" where
  "cb_isEmpty b \<longleftrightarrow> top b = bottom b"

definition cb_isFull :: "'a circular \<Rightarrow> bool" where
  "cb_isFull b \<longleftrightarrow> (top b + 1) AND kMask = bottom b"

definition cb_push :: "'a option \<Rightarrow> 'a circular \<Rightarrow> 'a circular" where
  "cb_push data b = b\<lparr>slots := (slots b)[top b := data], top := (top b + 1) AND kMask\<rparr>"

definition cb_shift :: "'a circular \<Rightarrow> 'a option \<times> 'a circular" where
  "cb_shift b =
     (case slots b ! bottom b of
        None \<Rightarrow> (None, b)
      | Some x \<Rightarrow> (Some x, b\<lparr>slots := (slots b)[bottom b := None], bottom := (bottom b + 1) AND kMask\<rparr>))"

section \<open>FixedQueue\<close>

record 'a fixed_queue =
  bufs :: "'a circular list"
  qhead :: nat
  qtail :: nat

definition new_queue :: "'a fixed_queue" where
  "new_queue = \<lparr>bufs = [new_circular], qhead = 0, qtail = 0\<rparr>"

definition fq_isEmpty :: "'a fixed_queue \<Rightarrow> bool" where
  "fq_isEmpty q = cb_isEmpty (bufs q ! qhead q)"

definition fq_push :: "'a option \<Rightarrow> 'a fixed_queue \<Rightarrow> 'a fixed_queue" where
  "fq_push data q =
     (let q = (if cb_isFull (bufs q ! qhead q) then
                 (let n = length (bufs q) in
                  q\<lparr>bufs := (bufs q)[qhead q := (bufs q ! qhead q)\<lparr>nextBuf := Some n\<rparr>] @ [new_circular],
                    qhead := n\<rparr>)
               else q)
      in q\<lparr>bufs := (bufs q)[qhead q := cb_push data (bufs q ! qhead q)]\<rparr>)"

definition fq_shift :: "'a fixed_queue \<Rightarrow> 'a option \<times> 'a fixed_queue" where
  "fq_shift q =
     (case cb_shift (bufs q ! qtail q) of
        (item, tail) \<Rightarrow>
          (case nextBuf tail of
             Some n \<Rightarrow>
               if cb_isEmpty tail
               then (item, q\<lparr>bufs := (bufs q)[qtail q := tail\<lparr>nextBuf := None\<rparr>], qtail := n\<rparr>)
               else (item, q\<lparr>bufs := (bufs q)[qtail q := tail]\<rparr>)
           | None \<Rightarrow> (item, q\<lparr>bufs := (bufs q)[qtail q := tail]\<rparr>)))"

section \<open>The contract of a FIFO queue\<close>

datatype 'a qop = Push 'a | Shift

fun spec_run :: "'a qop list \<Rightarrow> 'a list \<Rightarrow> 'a option list" where
  "spec_run [] xs = []"
| "spec_run (Push x # ops) xs = spec_run ops (xs @ [x])"
| "spec_run (Shift # ops) [] = None # spec_run ops []"
| "spec_run (Shift # ops) (x # xs) = Some x # spec_run ops xs"

locale fifo =
  fixes push :: "'a \<Rightarrow> 'q \<Rightarrow> 'q"
    and shift :: "'q \<Rightarrow> 'a option \<times> 'q"
    and inv :: "'q \<Rightarrow> bool"
    and contents :: "'q \<Rightarrow> 'a list"
  assumes push_inv: "inv q \<Longrightarrow> inv (push x q)"
    and push_contents: "inv q \<Longrightarrow> contents (push x q) = contents q @ [x]"
    and shift_inv: "inv q \<Longrightarrow> inv (snd (shift q))"
    and shift_empty: "inv q \<Longrightarrow> contents q = [] \<Longrightarrow> fst (shift q) = None \<and> contents (snd (shift q)) = []"
    and shift_item: "inv q \<Longrightarrow> contents q = x # xs \<Longrightarrow> fst (shift q) = Some x \<and> contents (snd (shift q)) = xs"
begin

fun run :: "'a qop list \<Rightarrow> 'q \<Rightarrow> 'a option list" where
  "run [] q = []"
| "run (Push x # ops) q = run ops (push x q)"
| "run (Shift # ops) q = fst (shift q) # run ops (snd (shift q))"

text \<open>Whatever a client does, it sees what it would see of a list.\<close>

lemma run_refines: "inv q \<Longrightarrow> run ops q = spec_run ops (contents q)"
proof (induction ops arbitrary: q)
  case (Cons op ops)
  show ?case
  proof (cases op)
    case (Push x)
    then show ?thesis using Cons.IH [OF push_inv [OF Cons.prems]] by (simp add: push_contents [OF Cons.prems])
  next
    case Shift
    then show ?thesis using Cons.IH [OF shift_inv [OF Cons.prems]] shift_empty [OF Cons.prems] shift_item [OF Cons.prems]
      by (cases "contents q") auto
  qed
qed simp

end

section \<open>The buffer is a bounded queue\<close>

lemma mask_step: "t AND kMask = t mod kSize"
  using take_bit_eq_mask [of 11 t] by (simp add: kMask_def kSize_def take_bit_eq_mod mask_eq_exp_minus_1)

text \<open>Buffer \<open>b\<close> holds \<open>xs\<close>: the slots from \<open>bottom\<close> on, cyclically, and nothing elsewhere.\<close>

definition holds :: "'a circular \<Rightarrow> 'a list \<Rightarrow> bool" where
  "holds b xs \<longleftrightarrow>
     bottom b < kSize \<and> length (slots b) = kSize \<and> length xs < kSize \<and>
     top b = (bottom b + length xs) mod kSize \<and>
     (\<forall>k < kSize. slots b ! ((bottom b + k) mod kSize) = (if k < length xs then Some (xs ! k) else None))"

lemma kSize_pos [simp]: "0 < kSize" "kSize \<noteq> 0" "Suc 0 < kSize"
  by (simp_all add: kSize_def)

lemma holds_new: "holds new_circular []"
  by (auto simp: holds_def new_circular_def)

lemma cyclic_inj:
  assumes "j < kSize" "k < kSize" "(b + j) mod kSize = (b + k) mod kSize" shows "j = k"
proof -
  have "int (b + j) mod int kSize = int (b + k) mod int kSize" using assms(3) by (metis of_nat_mod)
  then have "(int j - int k) mod int kSize = 0" by (simp add: mod_eq_dvd_iff)
  then have "int kSize dvd int j - int k" by auto
  moreover have "\<bar>int j - int k\<bar> < int kSize" using assms by simp
  ultimately have "int j - int k = 0" using dvd_imp_le_int [of "int j - int k" "int kSize"] by linarith
  then show ?thesis by simp
qed

lemma holds_isEmpty: "holds b xs \<Longrightarrow> cb_isEmpty b \<longleftrightarrow> xs = []"
  using cyclic_inj [of "length xs" 0 "bottom b"] by (auto simp: holds_def cb_isEmpty_def)

lemma holds_isFull: "holds b xs \<Longrightarrow> cb_isFull b \<longleftrightarrow> Suc (length xs) = kSize"
proof -
  assume h: "holds b xs"
  have t: "(top b + 1) mod kSize = (bottom b + Suc (length xs)) mod kSize"
    using h by (simp add: holds_def mod_simps)
  show ?thesis
  proof (cases "Suc (length xs) = kSize")
    case True
    then show ?thesis using h t by (simp add: cb_isFull_def mask_step holds_def)
  next
    case False
    with h have "Suc (length xs) < kSize" by (simp add: holds_def)
    then have "(bottom b + Suc (length xs)) mod kSize \<noteq> (bottom b + 0) mod kSize"
      using cyclic_inj [of "Suc (length xs)" 0 "bottom b"] by auto
    then show ?thesis using False h t by (simp add: cb_isFull_def mask_step holds_def)
  qed
qed

lemma holds_push:
  assumes h: "holds b xs" and f: "Suc (length xs) < kSize"
  shows "holds (cb_push (Some x) b) (xs @ [x])"
proof -
  have "slots (cb_push (Some x) b) ! ((bottom b + k) mod kSize)
      = (if k < length (xs @ [x]) then Some ((xs @ [x]) ! k) else None)" if "k < kSize" for k
  proof (cases "k = length xs")
    case True
    then show ?thesis using h by (simp add: holds_def cb_push_def)
  next
    case False
    have "(bottom b + k) mod kSize \<noteq> top b"
      using cyclic_inj [OF that, of "length xs" "bottom b"] False h by (auto simp: holds_def)
    then show ?thesis using h that False by (auto simp: holds_def cb_push_def nth_append)
  qed
  then show ?thesis using h f by (simp add: holds_def cb_push_def mask_step mod_simps)
qed

lemma holds_shift:
  assumes h: "holds b (x # xs)"
  shows "fst (cb_shift b) = Some x" "holds (snd (cb_shift b)) xs" "nextBuf (snd (cb_shift b)) = nextBuf b"
proof -
  have b0: "slots b ! bottom b = Some x" using h
    by (auto simp: holds_def dest!: spec [of _ 0])
  then show "fst (cb_shift b) = Some x" "nextBuf (snd (cb_shift b)) = nextBuf b" by (simp_all add: cb_shift_def)
  let ?b = "b\<lparr>slots := (slots b)[bottom b := None], bottom := (bottom b + 1) mod kSize\<rparr>"
  have "slots ?b ! ((bottom ?b + k) mod kSize) = (if k < length xs then Some (xs ! k) else None)" if k: "k < kSize" for k
  proof -
    have idx: "(bottom ?b + k) mod kSize = (bottom b + Suc k) mod kSize" by (simp add: mod_simps)
    show ?thesis
    proof (cases "Suc k = kSize")
      case True
      then have "(bottom b + Suc k) mod kSize = bottom b" using h by (simp add: holds_def)
      moreover have "\<not> k < length xs" using True h by (simp add: holds_def)
      ultimately show ?thesis using h unfolding idx by (simp add: holds_def)
    next
      case False
      then have sk: "Suc k < kSize" using k by simp
      have "(bottom b + Suc k) mod kSize \<noteq> (bottom b + 0) mod kSize" using cyclic_inj [OF sk, of 0 "bottom b"] by auto
      then have "(bottom b + Suc k) mod kSize \<noteq> bottom b" using h by (simp add: holds_def)
      then have "slots ?b ! ((bottom b + Suc k) mod kSize) = slots b ! ((bottom b + Suc k) mod kSize)" by simp
      then show ?thesis using h sk unfolding idx by (auto simp: holds_def)
    qed
  qed
  then have "holds ?b xs" using h by (simp add: holds_def mod_simps)
  then show "holds (snd (cb_shift b)) xs" using b0 by (simp add: cb_shift_def mask_step)
qed

lemma holds_shift_empty: "holds b [] \<Longrightarrow> cb_shift b = (None, b)"
  by (auto simp: holds_def cb_shift_def dest!: spec [of _ 0])

lemma holds_next [simp]: "holds (b\<lparr>nextBuf := n\<rparr>) xs = holds b xs"
  by (simp add: holds_def)

section \<open>The chain of buffers is a queue\<close>

text \<open>The buffers from the tail to the head hold \<open>xss\<close>: consecutive addresses, each pointing to the
  next; all of them non-empty if there is more than one.\<close>

definition chain :: "'a fixed_queue \<Rightarrow> 'a list list \<Rightarrow> bool" where
  "chain q xss \<longleftrightarrow>
     xss \<noteq> [] \<and> length (bufs q) = Suc (qhead q) \<and> qhead q + 1 = qtail q + length xss \<and>
     (\<forall>i < length xss. holds (bufs q ! (qtail q + i)) (xss ! i)) \<and>
     (\<forall>i < length xss. nextBuf (bufs q ! (qtail q + i)) =
        (if Suc i < length xss then Some (qtail q + Suc i) else None)) \<and>
     (1 < length xss \<longrightarrow> [] \<notin> set xss)"

lemma chain_head:
  assumes "chain q xss"
  shows "qhead q = qtail q + (length xss - 1)" "qhead q < length (bufs q)" "holds (bufs q ! qhead q) (last xss)"
    "qtail q < length (bufs q)" "holds (bufs q ! qtail q) (hd xss)"
proof -
  have ne: "0 < length xss" using assms by (simp add: chain_def)
  have "qhead q + 1 = qtail q + length xss" using assms by (simp add: chain_def)
  with ne show hd: "qhead q = qtail q + (length xss - 1)" by linarith
  show "qhead q < length (bufs q)" using assms by (simp add: chain_def)
  from hd ne assms show "qtail q < length (bufs q)" by (auto simp: chain_def)
  have h: "holds (bufs q ! (qtail q + i)) (xss ! i)" if "i < length xss" for i using assms that by (simp add: chain_def)
  have "holds (bufs q ! qhead q) (xss ! (length xss - 1))" unfolding hd by (rule h) (use ne in simp)
  then show "holds (bufs q ! qhead q) (last xss)" using ne by (simp add: last_conv_nth)
  from h [of 0] ne show "holds (bufs q ! qtail q) (hd xss)" by (simp add: hd_conv_nth)
qed

lemma chain_new: "chain new_queue [[]]"
  by (simp add: chain_def new_queue_def holds_new) (simp add: new_circular_def)

lemma chain_isEmpty:
  assumes "chain q xss" shows "fq_isEmpty q \<longleftrightarrow> concat xss = []"
proof -
  have "fq_isEmpty q \<longleftrightarrow> last xss = []" using holds_isEmpty [OF chain_head(3) [OF assms]] by (simp add: fq_isEmpty_def)
  also have "\<dots> \<longleftrightarrow> concat xss = []"
  proof (cases "1 < length xss")
    case True
    then have "last xss \<in> set xss" "[] \<notin> set xss" using assms by (auto simp: chain_def)
    then show ?thesis by (metis concat_eq_Nil_conv)
  next
    case False
    then obtain xs where "xss = [xs]" using assms by (cases xss; cases "tl xss") (auto simp: chain_def)
    then show ?thesis by simp
  qed
  finally show ?thesis .
qed

text \<open>Pushing into the head buffer.\<close>

lemma chain_push_head:
  assumes c: "chain q xss" and room: "Suc (length (last xss)) < kSize"
  shows "chain (q\<lparr>bufs := (bufs q)[qhead q := cb_push (Some x) (bufs q ! qhead q)]\<rparr>) (butlast xss @ [last xss @ [x]])"
proof -
  let ?n = "length xss - 1"
  have ne: "xss \<noteq> []" using c by (simp add: chain_def)
  note hd = chain_head [OF c]
  have p: "holds (cb_push (Some x) (bufs q ! qhead q)) (last xss @ [x])" using holds_push [OF hd(3) room] .
  have nx: "nextBuf (cb_push d b) = nextBuf b" for d and b :: "'a circular" by (simp add: cb_push_def)
  have "holds (((bufs q)[qhead q := cb_push (Some x) (bufs q ! qhead q)]) ! (qtail q + i)) ((butlast xss @ [last xss @ [x]]) ! i)"
    if i: "i < length xss" for i
  proof (cases "i = ?n")
    case True
    then show ?thesis using hd p ne by (simp add: nth_append)
  next
    case False
    then have "i < ?n" using i by simp
    then show ?thesis using hd(1) c i by (simp add: nth_append nth_butlast chain_def)
  qed
  moreover have "nextBuf (((bufs q)[qhead q := cb_push (Some x) (bufs q ! qhead q)]) ! (qtail q + i)) = nextBuf (bufs q ! (qtail q + i))"
    if i: "i < length xss" for i
    using hd(1,2) i by (cases "i = ?n") (simp_all add: nx)
  moreover have "[] \<notin> set (butlast xss @ [last xss @ [x]])" if "1 < length xss"
    using c that by (auto simp: chain_def dest: in_set_butlastD)
  ultimately show ?thesis using c ne by (auto simp: chain_def)
qed

text \<open>Linking a fresh buffer; the queue is then not yet well formed unless the old head holds
  something, which a full buffer does.\<close>

lemma chain_link:
  assumes c: "chain q xss" and full: "Suc (length (last xss)) = kSize"
  defines "n \<equiv> length (bufs q)"
  defines "q1 \<equiv> q\<lparr>bufs := (bufs q)[qhead q := (bufs q ! qhead q)\<lparr>nextBuf := Some n\<rparr>] @ [new_circular], qhead := n\<rparr>"
  shows "chain (q1\<lparr>bufs := (bufs q1)[qhead q1 := cb_push (Some x) (bufs q1 ! qhead q1)]\<rparr>) (xss @ [[x]])"
proof -
  have ne: "xss \<noteq> []" using c by (simp add: chain_def)
  note hd = chain_head [OF c]
  have n: "n = Suc (qhead q)" "n = qtail q + length xss" using c ne by (auto simp: chain_def n_def)
  have lne: "last xss \<noteq> []" using full by (auto simp: kSize_def)
  let ?b' = "(bufs q)[qhead q := (bufs q ! qhead q)\<lparr>nextBuf := Some n\<rparr>]"
  have q1n: "bufs q1 ! qhead q1 = new_circular" by (simp add: q1_def n_def nth_append)
  have upd: "(bufs q1)[qhead q1 := cb_push (Some x) (bufs q1 ! qhead q1)] = ?b' @ [cb_push (Some x) new_circular]"
    unfolding q1n by (simp add: q1_def n_def list_update_append)
  have p: "holds (cb_push (Some x) new_circular) [x]" using holds_push [OF holds_new, of x] by simp
  have old: "?b' ! (qtail q + i) = (if i = length xss - 1 then (bufs q ! qhead q)\<lparr>nextBuf := Some n\<rparr> else bufs q ! (qtail q + i))"
    if "i < length xss" for i using hd(1,2) that by auto
  have lb: "length ?b' = n" by (simp add: n_def)
  have "holds ((?b' @ [cb_push (Some x) new_circular]) ! (qtail q + i)) ((xss @ [[x]]) ! i)" if i: "i < Suc (length xss)" for i
  proof (cases "i < length xss")
    case True
    have "holds (bufs q ! (qtail q + i)) (xss ! i)" using c True by (simp add: chain_def)
    moreover have "(?b' @ [cb_push (Some x) new_circular]) ! (qtail q + i) = ?b' ! (qtail q + i)"
      using lb n(2) True by (metis nth_append nat_add_left_cancel_less)
    ultimately show ?thesis unfolding old [OF True] using True hd(1)
      by (metis holds_next nth_append)
  next
    case False
    with i have "i = length xss" by simp
    then show ?thesis using p n(2) lb by (simp add: nth_append)
  qed
  moreover have "nextBuf ((?b' @ [cb_push (Some x) new_circular]) ! (qtail q + i)) =
      (if i < length xss then Some (qtail q + Suc i) else None)" if i: "i < Suc (length xss)" for i
  proof (cases "i < length xss")
    case True
    have "nextBuf (bufs q ! (qtail q + i)) = (if Suc i < length xss then Some (qtail q + Suc i) else None)"
      using c True by (simp add: chain_def)
    moreover have "(?b' @ [cb_push (Some x) new_circular]) ! (qtail q + i) = ?b' ! (qtail q + i)"
      using lb n(2) True by (metis nth_append nat_add_left_cancel_less)
    ultimately show ?thesis unfolding old [OF True] using True n(2) by auto
  next
    case False
    with i have "i = length xss" by simp
    then show ?thesis using n(2) lb by (simp add: nth_append cb_push_def new_circular_def)
  qed
  moreover have "[] \<notin> set (xss @ [[x]])"
  proof (cases "1 < length xss")
    case False
    then obtain xs where "xss = [xs]" using ne by (cases xss; cases "tl xss") auto
    then show ?thesis using lne by simp
  qed (use c in \<open>simp add: chain_def\<close>)
  ultimately show ?thesis unfolding upd using n by (simp add: chain_def q1_def n_def [symmetric])
qed

lemma chain_push:
  assumes "chain q xss" shows "\<exists>yss. chain (fq_push (Some x) q) yss \<and> concat yss = concat xss @ [x]"
proof -
  have ne: "xss \<noteq> []" using assms by (simp add: chain_def)
  note h = chain_head(3) [OF assms]
  show ?thesis
  proof (cases "cb_isFull (bufs q ! qhead q)")
    case True
    then have "Suc (length (last xss)) = kSize" using holds_isFull [OF h] by simp
    from chain_link [OF assms this, of x] True show ?thesis
      by (intro exI [of _ "xss @ [[x]]"]) (simp add: fq_push_def Let_def)
  next
    case False
    then have "Suc (length (last xss)) < kSize" using holds_isFull [OF h] h by (auto simp: holds_def)
    from chain_push_head [OF assms this, of x] False
    have "chain (fq_push (Some x) q) (butlast xss @ [last xss @ [x]])" by (simp add: fq_push_def)
    moreover have "concat (butlast xss @ [last xss @ [x]]) = concat xss @ [x]"
      using append_butlast_last_id [OF ne] by (metis append.assoc concat.simps concat_append append_Nil2)
    ultimately show ?thesis by blast
  qed
qed

text \<open>Replacing the tail buffer by one that holds something else and points to the same place.\<close>

lemma chain_set_tail:
  assumes c: "chain q (xs # xss)" and b: "holds b ys" "nextBuf b = nextBuf (bufs q ! qtail q)" "xss \<noteq> [] \<longrightarrow> ys \<noteq> []"
  shows "chain (q\<lparr>bufs := (bufs q)[qtail q := b]\<rparr>) (ys # xss)"
proof -
  have t: "qtail q < length (bufs q)" using chain_head(4) [OF c] .
  have u: "(bufs q)[qtail q := b] ! (qtail q + i) = (if i = 0 then b else bufs q ! (qtail q + i))" for i
    using t by simp
  have h: "holds (bufs q ! (qtail q + i)) ((xs # xss) ! i)"
    and n: "nextBuf (bufs q ! (qtail q + i)) = (if i < length xss then Some (qtail q + Suc i) else None)"
    if "i < Suc (length xss)" for i using c that by (auto simp: chain_def)
  have "holds ((bufs q)[qtail q := b] ! (qtail q + i)) ((ys # xss) ! i)" if "i < Suc (length xss)" for i
    using h [OF that] b(1) unfolding u by (cases i) auto
  moreover have "nextBuf ((bufs q)[qtail q := b] ! (qtail q + i)) = (if i < length xss then Some (qtail q + Suc i) else None)"
    if "i < Suc (length xss)" for i
    using n [OF that] b(2) unfolding u by (cases i) auto
  ultimately show ?thesis using c b(3) by (auto simp: chain_def)
qed

text \<open>Dropping the tail buffer.\<close>

lemma chain_drop_tail:
  assumes c: "chain q (xs # xss)" "xss \<noteq> []"
  shows "chain (q\<lparr>bufs := (bufs q)[qtail q := b], qtail := Suc (qtail q)\<rparr>) xss"
proof -
  have t: "qtail q < length (bufs q)" using chain_head(4) [OF c(1)] .
  have u: "(bufs q)[qtail q := b] ! (Suc (qtail q) + i) = bufs q ! (qtail q + Suc i)" for i by simp
  have h: "holds (bufs q ! (qtail q + Suc i)) (xss ! i)" if "i < length xss" for i
    using c(1) that by (auto simp: chain_def dest!: spec [of _ "Suc i"])
  have n: "nextBuf (bufs q ! (qtail q + Suc i)) = (if Suc i < length xss then Some (qtail q + Suc (Suc i)) else None)"
    if "i < length xss" for i
    using c(1) that by (auto simp: chain_def dest!: spec [of _ "Suc i"])
  show ?thesis using c h n by (simp add: chain_def u)
qed

lemma chain_shift:
  assumes c: "chain q xss"
  shows "\<exists>yss. chain (snd (fq_shift q)) yss \<and>
    (case concat xss of [] \<Rightarrow> fst (fq_shift q) = None \<and> concat yss = []
     | x # ys \<Rightarrow> fst (fq_shift q) = Some x \<and> concat yss = ys)"
proof -
  obtain xs rest where xss: "xss = xs # rest" using c by (cases xss) (auto simp: chain_def)
  have h: "holds (bufs q ! qtail q) xs" using chain_head(5) [OF c] xss by simp
  have nx: "nextBuf (bufs q ! qtail q) = (if rest \<noteq> [] then Some (Suc (qtail q)) else None)"
    using c xss by (auto simp: chain_def dest!: spec [of _ 0])
  have nel: "rest \<noteq> [] \<Longrightarrow> xs \<noteq> []" using c xss by (cases rest) (auto simp: chain_def)
  show ?thesis
  proof (cases xs)
    case Nil
    then have r: "rest = []" using nel by blast
    have s: "cb_shift (bufs q ! qtail q) = (None, bufs q ! qtail q)" using h Nil holds_shift_empty by blast
    have "fq_shift q = (None, q\<lparr>bufs := (bufs q)[qtail q := bufs q ! qtail q]\<rparr>)"
      using s nx r by (simp add: fq_shift_def)
    then show ?thesis using c xss Nil r by (intro exI [of _ "[[]]"]) simp
  next
    case (Cons x ys)
    from holds_shift [of "bufs q ! qtail q" x ys] h Cons
    obtain b where s: "cb_shift (bufs q ! qtail q) = (Some x, b)" "holds b ys" "nextBuf b = nextBuf (bufs q ! qtail q)"
      by (cases "cb_shift (bufs q ! qtail q)") auto
    have e: "cb_isEmpty b \<longleftrightarrow> ys = []" using holds_isEmpty [OF s(2)] .
    show ?thesis
    proof (cases "rest \<noteq> [] \<and> ys = []")
      case True
      have "fq_shift q = (Some x, q\<lparr>bufs := (bufs q)[qtail q := b\<lparr>nextBuf := None\<rparr>], qtail := Suc (qtail q)\<rparr>)"
        using s nx e True by (simp add: fq_shift_def)
      then show ?thesis using chain_drop_tail [of q xs rest] c xss Cons True
        by (intro exI [of _ rest]) simp
    next
      case False
      have "fq_shift q = (Some x, q\<lparr>bufs := (bufs q)[qtail q := b]\<rparr>)"
        using s nx e False by (auto simp: fq_shift_def)
      then show ?thesis using chain_set_tail [of q xs rest, OF _ s(2,3)] c xss Cons False
        by (intro exI [of _ "ys # rest"]) auto
    qed
  qed
qed

section \<open>The queue meets the contract\<close>

definition fq_inv :: "'a fixed_queue \<Rightarrow> bool" where
  "fq_inv q \<longleftrightarrow> (\<exists>xss. chain q xss)"

text \<open>The items, read off the store: buffer by buffer, from bottom to top.\<close>

definition cb_items :: "'a circular \<Rightarrow> 'a list" where
  "cb_items b = map (\<lambda>k. the (slots b ! ((bottom b + k) mod kSize))) [0..<(top b + kSize - bottom b) mod kSize]"

definition fq_items :: "'a fixed_queue \<Rightarrow> 'a list" where
  "fq_items q = concat (map cb_items (drop (qtail q) (bufs q)))"

lemma holds_items: "holds b xs \<Longrightarrow> cb_items b = xs"
proof -
  assume h: "holds b xs"
  have "(top b + kSize - bottom b) mod kSize = length xs"
  proof (cases "bottom b + length xs < kSize")
    case True
    then show ?thesis using h by (simp add: holds_def)
  next
    case False
    moreover have lt: "bottom b + length xs - kSize < kSize" using h by (auto simp: holds_def)
    ultimately have "(bottom b + length xs) mod kSize = bottom b + length xs - kSize"
      by (simp add: le_mod_geq mod_less)
    then show ?thesis using h False by (auto simp: holds_def)
  qed
  then show ?thesis using h by (intro nth_equalityI) (auto simp: cb_items_def holds_def)
qed

lemma chain_items: "chain q xss \<Longrightarrow> fq_items q = concat xss"
proof -
  assume c: "chain q xss"
  have "map cb_items (drop (qtail q) (bufs q)) = xss"
  proof (rule nth_equalityI)
    show "length (map cb_items (drop (qtail q) (bufs q))) = length xss" using c by (auto simp: chain_def)
    fix i assume i: "i < length (map cb_items (drop (qtail q) (bufs q)))"
    then have "i < length xss" using c by (auto simp: chain_def)
    then have "holds (bufs q ! (qtail q + i)) (xss ! i)" using c by (simp add: chain_def)
    then show "map cb_items (drop (qtail q) (bufs q)) ! i = xss ! i" using i by (simp add: holds_items)
  qed
  then show ?thesis by (simp add: fq_items_def)
qed

interpretation fq: fifo "\<lambda>x. fq_push (Some x)" fq_shift fq_inv fq_items
proof (unfold_locales, goal_cases)
  case (1 q x)
  then obtain xss where "chain q xss" by (auto simp: fq_inv_def)
  from chain_push [OF this, of x] show ?case by (auto simp: fq_inv_def)
next
  case (2 q x)
  then obtain xss where c: "chain q xss" by (auto simp: fq_inv_def)
  from chain_push [OF c, of x] chain_items [OF c] show ?case by (auto simp: chain_items)
next
  case (3 q)
  then obtain xss where "chain q xss" by (auto simp: fq_inv_def)
  from chain_shift [OF this] show ?case by (auto simp: fq_inv_def)
next
  case (4 q)
  then obtain xss where c: "chain q xss" by (auto simp: fq_inv_def)
  have "concat xss = []" using 4(2) chain_items [OF c] by simp
  with chain_shift [OF c] obtain yss where "chain (snd (fq_shift q)) yss" "fst (fq_shift q) = None" "concat yss = []"
    by (auto simp del: concat_eq_Nil_conv)
  then show ?case by (simp add: chain_items)
next
  case (5 q x xs)
  then obtain xss where c: "chain q xss" by (auto simp: fq_inv_def)
  have "concat xss = x # xs" using 5(2) chain_items [OF c] by simp
  with chain_shift [OF c] show ?case by (auto simp: chain_items)
qed

lemma fq_inv_new: "fq_inv new_queue" "fq_items new_queue = []"
  using chain_new chain_items [OF chain_new] by (auto simp: fq_inv_def)

section \<open>Properties\<close>

primrec fq_run :: "'a qop list \<Rightarrow> 'a fixed_queue \<Rightarrow> 'a option list" where
  "fq_run [] q = []"
| "fq_run (op # ops) q =
     (case op of
        Push x \<Rightarrow> fq_run ops (fq_push (Some x) q)
      | Shift \<Rightarrow> fst (fq_shift q) # fq_run ops (snd (fq_shift q)))"

lemma fq_run_eq: "fq_run ops q = fq.run ops q"
  by (induction ops arbitrary: q) (auto split: qop.split)

text \<open>C18: \<open>FixedQueue\<close> is a first-in first-out queue of unbounded capacity: whatever sequence of
  pushes and shifts is applied to a new queue, across any number of buffers and wrap-arounds, the
  shifts return what they would return of a plain list.\<close>

theorem fixed_queue_is_fifo: "fq_run ops new_queue = spec_run ops []"
  using fq.run_refines [OF fq_inv_new(1)] by (simp add: fq_run_eq fq_inv_new)

end
