(* ===== verification/PriorityQueue.thy ===== *)
theory PriorityQueue
  imports JsPrelude "HOL-Library.Multiset"
begin

text \<open>
  The binary heap behind the timers (\<open>libjs-node/internal/priority_queue.js\<close>).  The array starts
  at index 1; \<open>undefined\<close> is \<open>None\<close>, and reading outside the array gives it too.  \<open>setPosition\<close>, which
  records the index of an element in the element itself, is the map \<open>positions\<close>.  The locale
  \<open>comparator\<close> is what the queue relies on: a comparison function that is a total preorder.  Index 0 is
  never used, so the loops are stated for positions from 1.
\<close>

section \<open>The heap\<close>

record 'a pq =
  pq_heap :: "'a option list"
  pq_size :: nat
  hasSetPosition :: bool
  positions :: "'a \<Rightarrow> nat option"

definition new_pq :: "bool \<Rightarrow> 'a pq" where
  "new_pq hasSet = \<lparr>pq_heap = [None, None], pq_size = 0, hasSetPosition = hasSet, positions = Map.empty\<rparr>"

definition heap_get :: "'a option list \<Rightarrow> nat \<Rightarrow> 'a option" where
  "heap_get h i = (if i < length h then h ! i else None)"

definition heap_set :: "'a option list \<Rightarrow> nat \<Rightarrow> 'a option \<Rightarrow> 'a option list" where
  "heap_set h i x = (if i < length h then h[i := x] else h @ replicate (i - length h) None @ [x])"

text \<open>Comparing with \<open>undefined\<close> gives \<open>NaN\<close>, which is neither less nor greater.\<close>

definition cmp_test :: "(int \<Rightarrow> bool) \<Rightarrow> ('a \<Rightarrow> 'a \<Rightarrow> int) \<Rightarrow> 'a option \<Rightarrow> 'a option \<Rightarrow> bool" where
  "cmp_test test cmp x y = (case (x, y) of (Some a, Some b) \<Rightarrow> test (cmp a b) | _ \<Rightarrow> False)"

definition record_position :: "'a option \<Rightarrow> nat \<Rightarrow> 'a pq \<Rightarrow> 'a pq" where
  "record_position x pos q =
     (case x of Some a \<Rightarrow> if hasSetPosition q then q\<lparr>positions := (positions q)(a \<mapsto> pos)\<rparr> else q | None \<Rightarrow> q)"

text \<open>\<open>heap[pos] = x; if (hasSetPosition) setPosition(x, pos)\<close>.\<close>

definition put :: "nat \<Rightarrow> 'a option \<Rightarrow> 'a pq \<Rightarrow> 'a pq" where
  "put pos x q = record_position x pos (q\<lparr>pq_heap := heap_set (pq_heap q) pos x\<rparr>)"

lemma put_fields [simp]:
  "pq_heap (put pos x q) = heap_set (pq_heap q) pos x" "pq_size (put pos x q) = pq_size q"
  "hasSetPosition (put pos x q) = hasSetPosition q"
  by (auto simp: put_def record_position_def split: option.split)

section \<open>The operations\<close>

definition smaller_child :: "('a \<Rightarrow> 'a \<Rightarrow> int) \<Rightarrow> nat \<Rightarrow> 'a pq \<Rightarrow> nat" where
  "smaller_child cmp pos q =
     (let child = 2 * pos; nextChild = child + 1
      in if nextChild \<le> pq_size q
            \<and> cmp_test (\<lambda>c. c < 0) cmp (heap_get (pq_heap q) nextChild) (heap_get (pq_heap q) child)
         then nextChild else child)"

function percolateDown_loop :: "('a \<Rightarrow> 'a \<Rightarrow> int) \<Rightarrow> 'a option \<Rightarrow> nat \<Rightarrow> 'a pq \<Rightarrow> nat \<times> 'a pq" where
  "percolateDown_loop cmp item pos q =
     (if 1 \<le> pos \<and> pos \<le> pq_size q div 2 then
        (let child = smaller_child cmp pos q;
             childItem = heap_get (pq_heap q) child
         in if cmp_test (\<lambda>c. c \<le> 0) cmp item childItem then (pos, q)
            else percolateDown_loop cmp item child (put pos childItem q))
      else (pos, q))"
  by pat_completeness auto
termination
  by (relation "measure (\<lambda>(cmp, item, pos, q). pq_size q - pos)") (auto simp: smaller_child_def Let_def)

definition percolateDown :: "('a \<Rightarrow> 'a \<Rightarrow> int) \<Rightarrow> nat \<Rightarrow> 'a pq \<Rightarrow> 'a pq" where
  "percolateDown cmp pos q =
     (let item = heap_get (pq_heap q) pos
      in case percolateDown_loop cmp item pos q of (pos, q) \<Rightarrow> put pos item q)"

function percolateUp_loop :: "('a \<Rightarrow> 'a \<Rightarrow> int) \<Rightarrow> 'a option \<Rightarrow> nat \<Rightarrow> 'a pq \<Rightarrow> nat \<times> 'a pq" where
  "percolateUp_loop cmp item pos q =
     (if pos > 1 then
        (let parent = pos div 2;
             parentItem = heap_get (pq_heap q) parent
         in if cmp_test (\<lambda>c. c \<le> 0) cmp parentItem item then (pos, q)
            else percolateUp_loop cmp item parent (put pos parentItem q))
      else (pos, q))"
  by pat_completeness auto
termination
  by (relation "measure (\<lambda>(cmp, item, pos, q). pos)") auto

declare percolateDown_loop.simps [simp del] percolateUp_loop.simps [simp del]

definition percolateUp :: "('a \<Rightarrow> 'a \<Rightarrow> int) \<Rightarrow> nat \<Rightarrow> 'a pq \<Rightarrow> 'a pq" where
  "percolateUp cmp pos q =
     (let item = heap_get (pq_heap q) pos
      in case percolateUp_loop cmp item pos q of (pos, q) \<Rightarrow> put pos item q)"

definition pq_insert :: "('a \<Rightarrow> 'a \<Rightarrow> int) \<Rightarrow> 'a \<Rightarrow> 'a pq \<Rightarrow> 'a pq" where
  "pq_insert cmp x q =
     (let pos = pq_size q + 1
      in percolateUp cmp pos (q\<lparr>pq_size := pos, pq_heap := heap_set (pq_heap q) pos (Some x)\<rparr>))"

definition pq_peek :: "'a pq \<Rightarrow> 'a option" where
  "pq_peek q = heap_get (pq_heap q) 1"

definition peekBottom :: "'a pq \<Rightarrow> 'a option" where
  "peekBottom q = heap_get (pq_heap q) (pq_size q)"

definition removeAt :: "('a \<Rightarrow> 'a \<Rightarrow> int) \<Rightarrow> nat \<Rightarrow> 'a pq \<Rightarrow> 'a pq" where
  "removeAt cmp pos q =
     (let h = heap_set (pq_heap q) pos (heap_get (pq_heap q) (pq_size q));
          h = heap_set h (pq_size q) None;
          q = q\<lparr>pq_heap := h, pq_size := pq_size q - 1\<rparr>
      in if pq_size q > 0 \<and> pos \<le> pq_size q then
           (if pos > 1 \<and> cmp_test (\<lambda>c. c > 0) cmp (heap_get (pq_heap q) (pos div 2)) (heap_get (pq_heap q) pos)
            then percolateUp cmp pos q else percolateDown cmp pos q)
         else q)"

definition pq_shift :: "('a \<Rightarrow> 'a \<Rightarrow> int) \<Rightarrow> 'a pq \<Rightarrow> 'a option \<times> 'a pq" where
  "pq_shift cmp q =
     (case heap_get (pq_heap q) 1 of None \<Rightarrow> (None, q) | Some value \<Rightarrow> (Some value, removeAt cmp 1 q))"

section \<open>Well-formedness\<close>

text \<open>The slots 1 to \<open>n\<close> are filled and the others are not.\<close>

definition filled :: "'a option list \<Rightarrow> nat \<Rightarrow> bool" where
  "filled h n \<longleftrightarrow> n < length h \<and> (\<forall>i < length h. h ! i \<noteq> None \<longleftrightarrow> 1 \<le> i \<and> i \<le> n)"

definition elems :: "'a option list \<Rightarrow> 'a multiset" where
  "elems h = mset (map the (filter (\<lambda>x. x \<noteq> None) h))"

lemma elems_mset: "elems h = image_mset the (filter_mset (\<lambda>x. x \<noteq> None) (mset h))"
  by (simp add: elems_def mset_filter)

lemma elems_cong: "mset h = mset h' \<Longrightarrow> elems h = elems h'"
  by (simp add: elems_mset)

lemma elems_update:
  assumes "i < length h"
  shows "elems (h[i := x]) = (case x of None \<Rightarrow> {#} | Some a \<Rightarrow> {#a#}) +
           (elems h - (case h ! i of None \<Rightarrow> {#} | Some a \<Rightarrow> {#a#}))"
proof -
  obtain A where A: "mset h = add_mset (h ! i) A"
    using assms by (metis multi_member_split nth_mem set_mset_mset)
  have "mset (h[i := x]) = add_mset x A" using assms A by (simp add: mset_update)
  then show ?thesis using A by (simp add: elems_mset split: option.split)
qed

lemma elems_swap:
  "i < length h \<Longrightarrow> j < length h \<Longrightarrow> elems (h[i := h ! j, j := h ! i]) = elems h"
  by (metis elems_cong mset_swap)

lemma filledD: "filled h n \<Longrightarrow> 1 \<le> i \<Longrightarrow> i \<le> n \<Longrightarrow> i < length h \<and> h ! i \<noteq> None"
  by (auto simp: filled_def)

lemma filled_get: "filled h n \<Longrightarrow> heap_get h i = (if 1 \<le> i \<and> i \<le> n then h ! i else None)"
  by (auto simp: filled_def heap_get_def)

lemma filled_update: "filled h n \<Longrightarrow> 1 \<le> i \<Longrightarrow> i \<le> n \<Longrightarrow> filled (h[i := Some x]) n"
  by (auto simp: filled_def nth_list_update)

lemma filled_swap:
  "filled h n \<Longrightarrow> 1 \<le> i \<Longrightarrow> i \<le> n \<Longrightarrow> 1 \<le> j \<Longrightarrow> j \<le> n \<Longrightarrow> filled (h[i := h ! j, j := h ! i]) n"
  by (auto simp: filled_def nth_list_update)

text \<open>The positions recorded for the elements, but for the one at \<open>p\<close>.\<close>

definition distinct_heap :: "'a option list \<Rightarrow> nat \<Rightarrow> bool" where
  "distinct_heap h n \<longleftrightarrow> inj_on (\<lambda>i. h ! i) {1..n}"

definition placed_but :: "nat \<Rightarrow> ('a \<Rightarrow> nat option) \<Rightarrow> 'a option list \<Rightarrow> nat \<Rightarrow> bool" where
  "placed_but p P h n \<longleftrightarrow> (\<forall>i. 1 \<le> i \<and> i \<le> n \<and> i \<noteq> p \<longrightarrow> P (the (h ! i)) = Some i)"

lemma distinct_heap_swap:
  assumes "distinct_heap h n" "n < length h" "1 \<le> i" "i \<le> n" "1 \<le> j" "j \<le> n"
  shows "distinct_heap (h[i := h ! j, j := h ! i]) n"
proof -
  define f where "f k = (if k = i then j else if k = j then i else k)" for k
  have at: "h[i := h ! j, j := h ! i] ! k = h ! f k" if "k \<in> {1..n}" for k
    using that assms(2-) by (auto simp: f_def nth_list_update)
  have f: "f k \<in> {1..n}" if "k \<in> {1..n}" for k using that assms(3-) by (auto simp: f_def)
  show ?thesis unfolding distinct_heap_def
  proof (rule inj_onI)
    fix a b assume ab: "a \<in> {1..n}" "b \<in> {1..n}" "h[i := h ! j, j := h ! i] ! a = h[i := h ! j, j := h ! i] ! b"
    then have "f a = f b" using inj_onD [OF assms(1) [unfolded distinct_heap_def]] f at by metis
    then show "a = b" by (simp add: f_def split: if_splits)
  qed
qed

text \<open>The heap as it will be once the carried element \<open>x\<close> is stored at \<open>p\<close>; what holds of it all along.\<close>

definition carried :: "nat \<Rightarrow> 'a \<Rightarrow> 'a pq \<Rightarrow> 'a option list" where
  "carried p x q = (pq_heap q)[p := Some x]"

definition sift_inv :: "nat \<Rightarrow> 'a \<Rightarrow> 'a pq \<Rightarrow> bool" where
  "sift_inv p x q \<longleftrightarrow> filled (carried p x q) (pq_size q) \<and> 1 \<le> p \<and> p \<le> pq_size q \<and>
     (hasSetPosition q \<longrightarrow> distinct_heap (carried p x q) (pq_size q) \<and> placed_but p (positions q) (carried p x q) (pq_size q))"

text \<open>A round of either loop swaps the carried element with another one.\<close>

lemma sift_swap:
  assumes s: "sift_inv p x q" and c: "1 \<le> c" "c \<le> pq_size q" "c \<noteq> p"
  defines "q' \<equiv> put p (heap_get (pq_heap q) c) q"
  shows "heap_get (pq_heap q) c = carried p x q ! c"
    and "carried c x q' = (carried p x q)[p := carried p x q ! c, c := carried p x q ! p]"
    and "sift_inv c x q'" "elems (carried c x q') = elems (carried p x q)"
    and "pq_size q' = pq_size q" "hasSetPosition q' = hasSetPosition q"
proof -
  let ?v = "carried p x q" and ?n = "pq_size q"
  have f: "filled ?v ?n" and p: "1 \<le> p" "p \<le> ?n" using s by (auto simp: sift_inv_def)
  then have len: "?n < length (pq_heap q)" by (simp add: filled_def carried_def)
  show get: "heap_get (pq_heap q) c = ?v ! c" using c len by (simp add: heap_get_def carried_def)
  have vp: "?v ! p = Some x" using p len by (simp add: carried_def)
  show car: "carried c x q' = ?v[p := ?v ! c, c := ?v ! p]"
    using get vp p len by (simp add: carried_def q'_def heap_set_def)
  show sz: "pq_size q' = ?n" "hasSetPosition q' = hasSetPosition q" by (simp_all add: q'_def)
  show "elems (carried c x q') = elems ?v"
    unfolding car by (rule elems_swap) (use p c len in \<open>simp_all add: carried_def\<close>)
  have "filled (carried c x q') ?n" unfolding car by (rule filled_swap [OF f p c(1,2)])
  moreover have "distinct_heap (carried c x q') ?n \<and> placed_but c (positions q') (carried c x q') ?n" if h: "hasSetPosition q"
  proof
    have d: "distinct_heap ?v ?n" "placed_but p (positions q) ?v ?n" using s h by (auto simp: sift_inv_def)
    show "distinct_heap (carried c x q') ?n" unfolding car
      by (rule distinct_heap_swap [OF d(1)]) (use p c len in \<open>simp_all add: carried_def\<close>)
    obtain y where y: "?v ! c = Some y" using filledD [OF f c(1,2)] by auto
    have pos: "positions q' = (positions q)(y \<mapsto> p)" using h get y by (simp add: q'_def put_def record_position_def)
    show "placed_but c (positions q') (carried c x q') ?n"
      unfolding placed_but_def
    proof (intro allI impI)
      fix i assume i: "1 \<le> i \<and> i \<le> ?n \<and> i \<noteq> c"
      show "positions q' (the (carried c x q' ! i)) = Some i"
      proof (cases "i = p")
        case True
        then show ?thesis using car y pos c(3) p len by (simp add: carried_def)
      next
        case False
        have vi: "carried c x q' ! i = ?v ! i" using car False i by simp
        have "?v ! i \<noteq> ?v ! c" using inj_onD [OF d(1) [unfolded distinct_heap_def], of i c] i c by auto
        then have "the (?v ! i) \<noteq> y" using filledD [OF f, of i] i y by auto
        then show ?thesis using d(2) i False vi pos by (simp add: placed_but_def)
      qed
    qed
  qed
  ultimately show "sift_inv c x q'" unfolding sift_inv_def using c sz by simp
qed

lemma sift_put:
  assumes "sift_inv p x q"
  shows "pq_heap (put p (Some x) q) = carried p x q"
    and "hasSetPosition q \<Longrightarrow> placed_but 0 (positions (put p (Some x) q)) (carried p x q) (pq_size q)"
proof -
  have f: "filled (carried p x q) (pq_size q)" and p: "1 \<le> p" "p \<le> pq_size q" using assms by (auto simp: sift_inv_def)
  then have len: "pq_size q < length (pq_heap q)" by (simp add: filled_def carried_def)
  show "pq_heap (put p (Some x) q) = carried p x q" using p len by (simp add: heap_set_def carried_def)
  assume h: "hasSetPosition q"
  have d: "distinct_heap (carried p x q) (pq_size q)" "placed_but p (positions q) (carried p x q) (pq_size q)"
    using assms h by (auto simp: sift_inv_def)
  have vp: "carried p x q ! p = Some x" using p len by (simp add: carried_def)
  show "placed_but 0 (positions (put p (Some x) q)) (carried p x q) (pq_size q)"
    unfolding placed_but_def
  proof (intro allI impI)
    fix i assume i: "1 \<le> i \<and> i \<le> pq_size q \<and> i \<noteq> 0"
    have "the (carried p x q ! i) \<noteq> x" if "i \<noteq> p"
      using inj_onD [OF d(1) [unfolded distinct_heap_def], of i p] i p that vp filledD [OF f, of i] by auto
    then show "positions (put p (Some x) q) (the (carried p x q ! i)) = Some i"
      using d(2) i vp h by (cases "i = p") (auto simp: placed_but_def put_def record_position_def)
  qed
qed

section \<open>Heap order\<close>

locale comparator =
  fixes cmp :: "'a \<Rightarrow> 'a \<Rightarrow> int"
  assumes cmp_total: "cmp a b < 0 \<longleftrightarrow> 0 < cmp b a"
    and cmp_trans: "cmp a b \<le> 0 \<Longrightarrow> cmp b c \<le> 0 \<Longrightarrow> cmp a c \<le> 0"
begin

definition le :: "'a option \<Rightarrow> 'a option \<Rightarrow> bool" where
  "le x y \<longleftrightarrow> cmp (the x) (the y) \<le> 0"

lemma le_refl [simp]: "le x x"
  using cmp_total [of "the x" "the x"] unfolding le_def by linarith

lemma le_trans: "le x y \<Longrightarrow> le y z \<Longrightarrow> le x z"
  using cmp_trans by (auto simp: le_def)

lemma le_linear: "\<not> le x y \<Longrightarrow> le y x"
  using cmp_total [of "the y" "the x"] by (simp add: le_def)

lemma cmp_tests:
  "x \<noteq> None \<Longrightarrow> y \<noteq> None \<Longrightarrow> cmp_test (\<lambda>c. c \<le> 0) cmp x y \<longleftrightarrow> le x y"
  "x \<noteq> None \<Longrightarrow> y \<noteq> None \<Longrightarrow> cmp_test (\<lambda>c. c < 0) cmp x y \<longleftrightarrow> \<not> le y x"
  "x \<noteq> None \<Longrightarrow> y \<noteq> None \<Longrightarrow> cmp_test (\<lambda>c. c > 0) cmp x y \<longleftrightarrow> \<not> le x y"
  using cmp_total by (auto simp: cmp_test_def le_def not_le split: option.splits)

definition heap_ok :: "'a option list \<Rightarrow> nat \<Rightarrow> bool" where
  "heap_ok h n \<longleftrightarrow> (\<forall>i. 2 \<le> i \<and> i \<le> n \<longrightarrow> le (h ! (i div 2)) (h ! i))"

text \<open>The order holds but between \<open>p\<close> and its children (its parent); the grandchildren are in order.\<close>

definition except_down :: "nat \<Rightarrow> 'a option list \<Rightarrow> nat \<Rightarrow> bool" where
  "except_down p h n \<longleftrightarrow>
     (\<forall>i. 2 \<le> i \<and> i \<le> n \<and> i div 2 \<noteq> p \<longrightarrow> le (h ! (i div 2)) (h ! i)) \<and>
     (\<forall>i. 2 \<le> p \<and> i \<le> n \<and> i div 2 = p \<longrightarrow> le (h ! (p div 2)) (h ! i))"

definition except_up :: "nat \<Rightarrow> 'a option list \<Rightarrow> nat \<Rightarrow> bool" where
  "except_up p h n \<longleftrightarrow>
     (\<forall>i. 2 \<le> i \<and> i \<le> n \<and> i \<noteq> p \<longrightarrow> le (h ! (i div 2)) (h ! i)) \<and>
     (\<forall>i. 2 \<le> p \<and> i \<le> n \<and> i div 2 = p \<longrightarrow> le (h ! (p div 2)) (h ! i))"

lemma except_down_swap:
  assumes d: "except_down p h n" and b: "1 \<le> p" "c \<le> n" "n < length h" "c div 2 = p"
    and c: "le (h ! c) (h ! p)" "\<And>i. i \<le> n \<Longrightarrow> i div 2 = p \<Longrightarrow> le (h ! c) (h ! i)"
  shows "except_down c (h[p := h ! c, c := h ! p]) n"
proof -
  let ?h = "h[p := h ! c, c := h ! p]"
  have ne: "p < c" using b by auto
  have at: "?h ! i = (if i = c then h ! p else if i = p then h ! c else h ! i)" if "i \<le> n" for i
    using that b ne by (auto simp: nth_list_update)
  have "le (?h ! (i div 2)) (?h ! i)" if i: "2 \<le> i" "i \<le> n" "i div 2 \<noteq> c" for i
  proof -
    consider "i = c" | "i = p" | "i \<noteq> c" "i div 2 = p" | "i \<noteq> c" "i \<noteq> p" "i div 2 \<noteq> p" by blast
    then show ?thesis
    proof cases
      case 1 then show ?thesis using at b c(1) ne by auto
    next
      case 2 then show ?thesis using at i b d ne by (auto simp: except_down_def)
    next
      case 3 then show ?thesis using at i b c(2) ne by auto
    next
      case 4 then show ?thesis using at i d by (auto simp: except_down_def)
    qed
  qed
  moreover have "le (?h ! (c div 2)) (?h ! i)" if i: "i \<le> n" "i div 2 = c" for i
  proof -
    have "i \<noteq> c" "i \<noteq> p" "2 \<le> i" using i ne b by auto
    then show ?thesis using at i b ne d by (auto simp: except_down_def)
  qed
  ultimately show ?thesis by (auto simp: except_down_def)
qed

lemma except_up_swap:
  assumes d: "except_up p h n" and b: "2 \<le> p" "p \<le> n" "n < length h"
    and c: "le (h ! p) (h ! (p div 2))"
  shows "except_up (p div 2) (h[p := h ! (p div 2), p div 2 := h ! p]) n"
proof -
  let ?q = "p div 2"
  let ?h = "h[p := h ! ?q, ?q := h ! p]"
  have ne: "?q < p" "1 \<le> ?q" using b by auto
  have at: "?h ! i = (if i = ?q then h ! p else if i = p then h ! ?q else h ! i)" if "i \<le> n" for i
    using that b ne by (auto simp: nth_list_update)
  have par: "le (h ! ?q) (h ! i)" if "i \<le> n" "i div 2 = p" for i using that d b by (auto simp: except_up_def)
  have sib: "le (h ! p) (h ! i)" if "2 \<le> i" "i \<le> n" "i div 2 = ?q" for i
  proof (cases "i = p")
    case False
    then have "le (h ! ?q) (h ! i)" using that d unfolding except_up_def by metis
    then show ?thesis using c le_trans by blast
  qed simp
  have "le (?h ! (i div 2)) (?h ! i)" if i: "2 \<le> i" "i \<le> n" "i \<noteq> ?q" for i
  proof -
    consider "i = p" | "i div 2 = p" | "i \<noteq> p" "i div 2 = ?q" | "i \<noteq> p" "i div 2 \<noteq> ?q" "i div 2 \<noteq> p" by blast
    then show ?thesis
    proof cases
      case 1 then show ?thesis using at i b c ne by auto
    next
      case 2
      then have "i \<noteq> p" using b by auto
      then show ?thesis using at i b ne par 2 by auto
    next
      case 3 then show ?thesis using at i ne sib b by auto
    next
      case 4 then show ?thesis using at i d by (auto simp: except_up_def)
    qed
  qed
  moreover have "le (?h ! (?q div 2)) (?h ! i)" if i: "i \<le> n" "i div 2 = ?q" "2 \<le> ?q" for i
  proof -
    have q: "?q div 2 < ?q" using ne by auto
    have g: "le (h ! (?q div 2)) (h ! ?q)" using d i(3) ne b by (auto simp: except_up_def)
    have "2 \<le> i" using i by linarith
    then have "le (h ! ?q) (h ! i)" if "i \<noteq> p" using d i that by (auto simp: except_up_def)
    moreover have "i \<noteq> ?q" using i by linarith
    moreover have "?h ! (?q div 2) = h ! (?q div 2)" using at [of "?q div 2"] q ne b by simp
    ultimately show ?thesis using at [OF i(1)] g le_trans [OF g] by (cases "i = p") simp_all
  qed
  ultimately show ?thesis by (auto simp: except_up_def)
qed

lemma smaller_child_props:
  assumes "sift_inv p x q" "p \<le> pq_size q div 2"
  defines "c \<equiv> smaller_child cmp p q"
  shows "c div 2 = p" "1 \<le> c" "c \<le> pq_size q" "c \<noteq> p"
    and "i \<le> pq_size q \<Longrightarrow> i div 2 = p \<Longrightarrow> le (carried p x q ! c) (carried p x q ! i)"
proof -
  let ?v = "carried p x q" and ?n = "pq_size q"
  have f: "filled ?v ?n" and p: "1 \<le> p" "p \<le> ?n" using assms by (auto simp: sift_inv_def)
  have n2: "2 * p \<le> ?n" using assms(2) by linarith
  have c: "c = 2 * p \<or> c = 2 * p + 1 \<and> 2 * p + 1 \<le> ?n" by (auto simp: c_def smaller_child_def Let_def)
  then show b: "c div 2 = p" "1 \<le> c" "c \<le> ?n" "c \<noteq> p" using p n2 by auto
  assume i: "i \<le> ?n" "i div 2 = p"
  then have ij: "i = 2 * p \<or> i = 2 * p + 1" by linarith
  have g: "heap_get (pq_heap q) j = ?v ! j \<and> ?v ! j \<noteq> None" if "j = 2 * p \<or> j = 2 * p + 1 \<and> 2 * p + 1 \<le> ?n" for j
    using sift_swap(1) [OF assms(1), of j] filledD [OF f, of j] that n2 p by auto
  show "le (?v ! c) (?v ! i)"
  proof (cases "2 * p + 1 \<le> ?n")
    case True
    have "c = (if \<not> le (?v ! (2 * p)) (?v ! (2 * p + 1)) then 2 * p + 1 else 2 * p)"
      using True g [of "2 * p"] g [of "2 * p + 1"] by (auto simp: c_def smaller_child_def Let_def cmp_tests)
    then show ?thesis using ij le_linear by auto
  next
    case False
    then show ?thesis using ij i c by auto
  qed
qed

lemma percolateDown_loop_ok:
  assumes "sift_inv p x q" "except_down p (carried p x q) (pq_size q)"
    and "percolateDown_loop cmp (Some x) p q = (p', q')"
  shows "sift_inv p' x q' \<and> heap_ok (carried p' x q') (pq_size q') \<and> elems (carried p' x q') = elems (carried p x q)
    \<and> pq_size q' = pq_size q \<and> hasSetPosition q' = hasSetPosition q"
  using assms
proof (induction "pq_size q - p" arbitrary: p q rule: less_induct)
  case less
  let ?v = "carried p x q" and ?n = "pq_size q"
  let ?c = "smaller_child cmp p q"
  have p: "1 \<le> p" "p \<le> ?n" and f: "filled ?v ?n" using less.prems(1) by (auto simp: sift_inv_def)
  have vp: "?v ! p = Some x" using p f by (auto simp: carried_def filled_def)
  show ?case
  proof (cases "p \<le> ?n div 2")
    case False
    then have "heap_ok ?v ?n" using less.prems(2) by (auto simp: heap_ok_def except_down_def)
    then show ?thesis using False less.prems by (simp add: percolateDown_loop.simps [of cmp])
  next
    case True
    note sc = smaller_child_props [OF less.prems(1) True]
    note sw = sift_swap [OF less.prems(1) sc(2-4)]
    have ne: "?v ! ?c \<noteq> None" using filledD [OF f sc(2,3)] by simp
    show ?thesis
    proof (cases "le (Some x) (?v ! ?c)")
      case True': True
      have "le (?v ! (i div 2)) (?v ! i)" if i: "2 \<le> i" "i \<le> ?n" for i
      proof (cases "i div 2 = p")
        case True
        then show ?thesis using sc(5) [OF i(2) True] True' vp le_trans by metis
      qed (use less.prems(2) i in \<open>simp add: except_down_def\<close>)
      then have "heap_ok ?v ?n" by (simp add: heap_ok_def)
      moreover have "(p', q') = (p, q)"
        using True True' less.prems(3) ne p sw(1)
        by (subst (asm) percolateDown_loop.simps) (simp add: Let_def cmp_tests)
      ultimately show ?thesis using less.prems by simp
    next
      case False
      let ?q = "put p (heap_get (pq_heap q) ?c) q"
      have rec: "percolateDown_loop cmp (Some x) ?c ?q = (p', q')"
        using True False less.prems(3) ne p sw(1)
        by (subst (asm) percolateDown_loop.simps) (simp add: Let_def cmp_tests)
      have lt: "le (?v ! ?c) (?v ! p)" using False vp le_linear by metis
      have len: "?n < length ?v" using f by (simp add: filled_def)
      have ex: "except_down ?c (carried ?c x ?q) (pq_size ?q)"
        unfolding sw(2,5) by (rule except_down_swap [OF less.prems(2) p(1) sc(3) len sc(1) lt]) (rule sc(5))
      have m: "pq_size ?q - ?c < ?n - p" using sc(1,3) sw(5) p by auto
      show ?thesis using less.hyps [OF m sw(3) ex rec] unfolding sw(4-6) .
    qed
  qed
qed

lemma percolateUp_loop_ok:
  assumes "sift_inv p x q" "except_up p (carried p x q) (pq_size q)"
    and "percolateUp_loop cmp (Some x) p q = (p', q')"
  shows "sift_inv p' x q' \<and> heap_ok (carried p' x q') (pq_size q') \<and> elems (carried p' x q') = elems (carried p x q)
    \<and> pq_size q' = pq_size q \<and> hasSetPosition q' = hasSetPosition q"
  using assms
proof (induction p arbitrary: q rule: less_induct)
  case (less p)
  let ?v = "carried p x q" and ?n = "pq_size q" and ?c = "p div 2"
  have p: "1 \<le> p" "p \<le> ?n" and f: "filled ?v ?n" using less.prems(1) by (auto simp: sift_inv_def)
  have vp: "?v ! p = Some x" using p f by (auto simp: carried_def filled_def)
  show ?case
  proof (cases "p > 1")
    case False
    then have "heap_ok ?v ?n" using less.prems(2) p by (auto simp: heap_ok_def except_up_def)
    then show ?thesis using False less.prems by (simp add: percolateUp_loop.simps [of cmp])
  next
    case True
    then have c: "1 \<le> ?c" "?c \<le> ?n" "?c \<noteq> p" and cp: "?c < p" using p by auto
    note sw = sift_swap [OF less.prems(1) c]
    have ne: "?v ! ?c \<noteq> None" using filledD [OF f c(1,2)] by simp
    show ?thesis
    proof (cases "le (?v ! ?c) (Some x)")
      case True': True
      have "heap_ok ?v ?n" using less.prems(2) True' vp unfolding heap_ok_def except_up_def by metis
      moreover have "(p', q') = (p, q)"
        using True True' less.prems(3) ne sw(1)
        by (subst (asm) percolateUp_loop.simps) (simp add: Let_def cmp_tests)
      ultimately show ?thesis using less.prems by simp
    next
      case False
      let ?q = "put p (heap_get (pq_heap q) ?c) q"
      have rec: "percolateUp_loop cmp (Some x) ?c ?q = (p', q')"
        using True False less.prems(3) ne sw(1)
        by (subst (asm) percolateUp_loop.simps) (simp add: Let_def cmp_tests)
      have lt: "le (?v ! p) (?v ! ?c)" using False vp le_linear by metis
      have len: "?n < length ?v" using f by (simp add: filled_def)
      have ex: "except_up ?c (carried ?c x ?q) (pq_size ?q)"
        unfolding sw(2,5) by (rule except_up_swap [OF less.prems(2) _ p(2) len lt]) (use True in simp)
      show ?thesis using less.IH [OF cp sw(3) ex rec] unfolding sw(4-6) .
    qed
  qed
qed

text \<open>The invariant of the queue.\<close>

definition pq_inv :: "'a pq \<Rightarrow> bool" where
  "pq_inv q \<longleftrightarrow> filled (pq_heap q) (pq_size q) \<and> heap_ok (pq_heap q) (pq_size q) \<and>
     (hasSetPosition q \<longrightarrow> distinct_heap (pq_heap q) (pq_size q) \<and> placed_but 0 (positions q) (pq_heap q) (pq_size q))"

lemma sift_finish:
  assumes "sift_inv p x q \<and> heap_ok (carried p x q) (pq_size q) \<and> elems (carried p x q) = E \<and> pq_size q = n \<and> hasSetPosition q = b"
  shows "pq_inv (put p (Some x) q) \<and> elems (pq_heap (put p (Some x) q)) = E \<and> pq_size (put p (Some x) q) = n
    \<and> hasSetPosition (put p (Some x) q) = b"
proof -
  have s: "sift_inv p x q" using assms by simp
  note h = sift_put(1) [OF s]
  have "pq_inv (put p (Some x) q)"
    using assms sift_put(2) [OF s] unfolding pq_inv_def h by (auto simp: sift_inv_def)
  then show ?thesis using assms h by simp
qed

lemma percolateUp_ok:
  assumes "sift_inv p x q" "except_up p (pq_heap q) (pq_size q)" "pq_heap q ! p = Some x"
  shows "pq_inv (percolateUp cmp p q) \<and> elems (pq_heap (percolateUp cmp p q)) = elems (pq_heap q)
    \<and> pq_size (percolateUp cmp p q) = pq_size q \<and> hasSetPosition (percolateUp cmp p q) = hasSetPosition q"
proof -
  have car: "carried p x q = pq_heap q" using assms(3) by (metis carried_def list_update_id)
  have "1 \<le> p" "p \<le> pq_size q" "filled (pq_heap q) (pq_size q)" using assms(1) car by (auto simp: sift_inv_def)
  then have g: "heap_get (pq_heap q) p = Some x" using assms(3) by (simp add: filled_get)
  obtain p' q' where l: "percolateUp_loop cmp (Some x) p q = (p', q')" by fastforce
  show ?thesis
    using sift_finish [OF percolateUp_loop_ok [OF assms(1) _ l]] assms(2) unfolding car percolateUp_def g Let_def l prod.case by blast
qed

lemma percolateDown_ok:
  assumes "sift_inv p x q" "except_down p (pq_heap q) (pq_size q)" "pq_heap q ! p = Some x"
  shows "pq_inv (percolateDown cmp p q) \<and> elems (pq_heap (percolateDown cmp p q)) = elems (pq_heap q)
    \<and> pq_size (percolateDown cmp p q) = pq_size q \<and> hasSetPosition (percolateDown cmp p q) = hasSetPosition q"
proof -
  have car: "carried p x q = pq_heap q" using assms(3) by (metis carried_def list_update_id)
  have "1 \<le> p" "p \<le> pq_size q" "filled (pq_heap q) (pq_size q)" using assms(1) car by (auto simp: sift_inv_def)
  then have g: "heap_get (pq_heap q) p = Some x" using assms(3) by (simp add: filled_get)
  obtain p' q' where l: "percolateDown_loop cmp (Some x) p q = (p', q')" by fastforce
  show ?thesis
    using sift_finish [OF percolateDown_loop_ok [OF assms(1) _ l]] assms(2) unfolding car percolateDown_def g Let_def l prod.case by blast
qed

lemma pq_inv_new: "pq_inv (new_pq b)" "elems (pq_heap (new_pq b)) = {#}"
  by (auto simp: pq_inv_def new_pq_def filled_def heap_ok_def distinct_heap_def placed_but_def elems_def less_Suc_eq nth_Cons')

lemma elems_heap_set:
  assumes "filled h n" shows "elems (heap_set h (Suc n) (Some x)) = add_mset x (elems h)" "filled (heap_set h (Suc n) (Some x)) (Suc n)"
proof -
  have n: "n < length h" using assms by (simp add: filled_def)
  have old: "h ! Suc n = None" if "Suc n < length h" using assms that by (auto simp: filled_def)
  show "elems (heap_set h (Suc n) (Some x)) = add_mset x (elems h)"
  proof (cases "Suc n < length h")
    case True
    then show ?thesis using old elems_update [OF True, of "Some x"] by (simp add: heap_set_def)
  next
    case False
    then have "heap_set h (Suc n) (Some x) = h @ [Some x]" using n by (simp add: heap_set_def)
    then show ?thesis by (simp add: elems_def)
  qed
  show "filled (heap_set h (Suc n) (Some x)) (Suc n)"
    using assms n by (auto simp: filled_def heap_set_def nth_list_update nth_append less_Suc_eq)
qed

lemma nth_heap_set: "i \<le> n \<Longrightarrow> n < length h \<Longrightarrow> heap_set h (Suc n) x ! i = h ! i"
  "n < length h \<Longrightarrow> heap_set h (Suc n) x ! Suc n = x"
  by (auto simp: heap_set_def nth_append Suc_lessI)

lemma member_elems: "filled h n \<Longrightarrow> 1 \<le> i \<Longrightarrow> i \<le> n \<Longrightarrow> the (h ! i) \<in># elems h"
  using filledD [of h n i] by (force simp: elems_def image_iff in_set_conv_nth)

lemma pq_insert_ok:
  assumes inv: "pq_inv q" and new: "hasSetPosition q \<Longrightarrow> x \<notin># elems (pq_heap q)"
  shows "pq_inv (pq_insert cmp x q) \<and> elems (pq_heap (pq_insert cmp x q)) = add_mset x (elems (pq_heap q))
    \<and> pq_size (pq_insert cmp x q) = Suc (pq_size q) \<and> hasSetPosition (pq_insert cmp x q) = hasSetPosition q"
proof -
  let ?h = "pq_heap q" and ?n = "pq_size q"
  let ?h' = "heap_set ?h (Suc ?n) (Some x)"
  let ?q = "q\<lparr>pq_size := Suc ?n, pq_heap := ?h'\<rparr>"
  have f: "filled ?h ?n" and ok: "heap_ok ?h ?n" using inv by (auto simp: pq_inv_def)
  have n: "?n < length ?h" using f by (simp add: filled_def)
  have at: "?h' ! i = ?h ! i" if "i \<le> ?n" for i using nth_heap_set(1) [OF that n] .
  have top: "?h' ! Suc ?n = Some x" using nth_heap_set(2) [OF n] .
  have car: "carried (Suc ?n) x ?q = ?h'" using list_update_id [of ?h' "Suc ?n"] top by (simp add: carried_def)
  have "distinct_heap ?h' (Suc ?n) \<and> placed_but (Suc ?n) (positions q) ?h' (Suc ?n)" if h: "hasSetPosition q"
  proof
    have d: "distinct_heap ?h ?n" "placed_but 0 (positions q) ?h ?n" using inv h by (auto simp: pq_inv_def)
    have old: "?h' ! i = ?h ! i \<and> ?h ! i \<noteq> Some x" if "i \<in> {1..?n}" for i
      using member_elems [OF f, of i] new [OF h] that at by auto
    have "inj_on (\<lambda>i. ?h' ! i) {1..?n}" using inj_on_cong [of "{1..?n}" "\<lambda>i. ?h' ! i" "\<lambda>i. ?h ! i"] d(1) old by (simp add: distinct_heap_def)
    moreover have "?h' ! Suc ?n \<notin> (\<lambda>i. ?h' ! i) ` {1..?n}" using old top by fastforce
    moreover have "{1..Suc ?n} = insert (Suc ?n) {1..?n}" by auto
    ultimately show "distinct_heap ?h' (Suc ?n)" by (simp add: distinct_heap_def)
    show "placed_but (Suc ?n) (positions q) ?h' (Suc ?n)" using d(2) at by (auto simp: placed_but_def le_Suc_eq)
  qed
  then have si: "sift_inv (Suc ?n) x ?q" unfolding sift_inv_def car using elems_heap_set(2) [OF f] by simp
  have "i div 2 \<le> ?n" if "i \<le> ?n" for i using that by linarith
  then have eu: "except_up (Suc ?n) ?h' (Suc ?n)"
    unfolding except_up_def using ok at by (auto simp: heap_ok_def le_Suc_eq)
  show ?thesis using percolateUp_ok [OF si] eu top elems_heap_set(1) [OF f] by (simp add: pq_insert_def)
qed

lemma removeAt_heap:
  assumes inv: "pq_inv q" and p: "1 \<le> p" "p \<le> pq_size q"
  defines "h \<equiv> (pq_heap q)[p := pq_heap q ! pq_size q, pq_size q := None]"
  shows "filled h (pq_size q - 1)" "elems h = elems (pq_heap q) - {#the (pq_heap q ! p)#}"
    and "i \<le> pq_size q - 1 \<Longrightarrow> h ! i = (if i = p then pq_heap q ! pq_size q else pq_heap q ! i)"
proof -
  let ?h = "pq_heap q" and ?n = "pq_size q"
  have f: "filled ?h ?n" using inv by (simp add: pq_inv_def)
  have n: "?n < length ?h" using f by (simp add: filled_def)
  obtain y where y: "?h ! ?n = Some y" using filledD [OF f, of ?n] p by auto
  obtain z where z: "?h ! p = Some z" using filledD [OF f p] by auto
  show "filled h (?n - 1)" using f n p unfolding h_def y by (auto simp: filled_def nth_list_update)
  show at: "h ! i = (if i = p then ?h ! ?n else ?h ! i)" if "i \<le> ?n - 1" using that p n by (auto simp: h_def nth_list_update)
  have "z \<in># elems ?h" using member_elems [OF f p] z by simp
  then have e: "elems (?h[p := Some y]) = add_mset y (elems ?h - {#z#})"
    using elems_update [of p ?h "Some y"] p n z by simp
  have "?h[p := Some y] ! ?n = Some y" using p n y by (cases "p = ?n") auto
  then have "elems h = elems (?h[p := Some y]) - {#y#}"
    using elems_update [of ?n "?h[p := Some y]" None] n y by (simp add: h_def)
  then show "elems h = elems ?h - {#the (?h ! p)#}" using e z by simp
qed

lemma removeAt_ok:
  assumes inv: "pq_inv q" and p: "1 \<le> p" "p \<le> pq_size q"
  shows "pq_inv (removeAt cmp p q) \<and> elems (pq_heap (removeAt cmp p q)) = elems (pq_heap q) - {#the (pq_heap q ! p)#}
    \<and> pq_size (removeAt cmp p q) = pq_size q - 1 \<and> hasSetPosition (removeAt cmp p q) = hasSetPosition q"
proof -
  let ?h = "pq_heap q" and ?n = "pq_size q"
  define h where "h = ?h[p := ?h ! ?n, ?n := None]"
  define q' where "q' = q\<lparr>pq_heap := h, pq_size := ?n - 1\<rparr>"
  have f: "filled ?h ?n" and ok: "heap_ok ?h ?n" using inv by (auto simp: pq_inv_def)
  have n: "?n < length ?h" using f by (simp add: filled_def)
  note rh = removeAt_heap [OF inv p, folded h_def]
  have rm: "removeAt cmp p q = (if pq_size q' > 0 \<and> p \<le> pq_size q' then
      (if p > 1 \<and> cmp_test (\<lambda>c. c > 0) cmp (heap_get h (p div 2)) (heap_get h p) then percolateUp cmp p q' else percolateDown cmp p q')
      else q')"
    using n p by (simp add: removeAt_def Let_def heap_get_def heap_set_def h_def q'_def)
  have pos: "distinct_heap h (?n - 1) \<and> placed_but p (positions q) h (?n - 1)" if b: "hasSetPosition q"
  proof
    have d: "distinct_heap ?h ?n" "placed_but 0 (positions q) ?h ?n" using inv b by (auto simp: pq_inv_def)
    show "distinct_heap h (?n - 1)" unfolding distinct_heap_def
    proof (rule inj_onI)
      fix i j assume ij: "i \<in> {1..?n - 1}" "j \<in> {1..?n - 1}" "h ! i = h ! j"
      define g where "g k = (if k = p then ?n else k)" for k
      have "h ! k = ?h ! g k \<and> g k \<in> {1..?n}" if "k \<in> {1..?n - 1}" for k using rh(3) that p by (auto simp: g_def)
      then have "g i = g j" using inj_onD [OF d(1) [unfolded distinct_heap_def]] ij by metis
      then show "i = j" using ij by (auto simp: g_def split: if_splits)
    qed
    show "placed_but p (positions q) h (?n - 1)" using d(2) rh(3) by (auto simp: placed_but_def)
  qed
  show ?thesis
  proof (cases "p \<le> ?n - 1")
    case False
    then have "heap_ok h (?n - 1)" using ok rh(3) by (auto simp: heap_ok_def)
    moreover have "placed_but 0 P h (?n - 1)" if "placed_but p P h (?n - 1)" for P
      using that False by (auto simp: placed_but_def)
    ultimately have "pq_inv q'" using rh(1) pos by (auto simp: pq_inv_def q'_def)
    then show ?thesis using False rh(2) by (simp add: rm q'_def)
  next
    case True
    then obtain y where y: "h ! p = Some y" using filledD [OF rh(1) p(1)] by auto
    have "carried p y q' = h" using list_update_id [of h p] y by (simp add: carried_def q'_def)
    then have si: "sift_inv p y q'" using rh(1) pos True p by (simp add: sift_inv_def q'_def)
    have hi: "le (h ! (i div 2)) (h ! i)" if "2 \<le> i" "i \<le> ?n - 1" "i \<noteq> p" "i div 2 \<noteq> p" for i
    proof -
      have "h ! (i div 2) = ?h ! (i div 2)" "h ! i = ?h ! i" using rh(3) [of "i div 2"] rh(3) [of i] that by auto
      then show ?thesis using ok that by (simp add: heap_ok_def)
    qed
    have gp: "le (h ! (p div 2)) (h ! i)" if "2 \<le> p" "i \<le> ?n - 1" "i div 2 = p" for i
    proof -
      have "p div 2 < p" "i \<noteq> p" "2 \<le> i" "i \<le> ?n" using that by linarith+
      then have hh: "h ! (p div 2) = ?h ! (p div 2)" "h ! i = ?h ! i" using rh(3) [of "p div 2"] rh(3) [of i] that True by auto
      have "le (?h ! (p div 2)) (?h ! p)" "le (?h ! p) (?h ! i)" using ok that True \<open>2 \<le> i\<close> \<open>i \<le> ?n\<close> unfolding heap_ok_def by auto
      then show ?thesis unfolding hh using le_trans by blast
    qed
    have gets: "heap_get h (p div 2) = h ! (p div 2)" "h ! (p div 2) \<noteq> None" if "1 < p"
      using filledD [OF rh(1), of "p div 2"] that True by (auto simp: heap_get_def)
    have getp: "heap_get h p = h ! p" "h ! p \<noteq> None" using filledD [OF rh(1) p(1) True] by (auto simp: heap_get_def)
    show ?thesis
    proof (cases "1 < p \<and> \<not> le (h ! (p div 2)) (h ! p)")
      case up: True
      then have lp: "le (h ! p) (h ! (p div 2))" using le_linear by blast
      have "le (h ! (i div 2)) (h ! i)" if "2 \<le> i" "i \<le> ?n - 1" "i \<noteq> p" for i
      proof (cases "i div 2 = p")
        case True
        have "2 \<le> p" using up by simp
        from le_trans [OF lp gp [OF this that(2) True]] show ?thesis unfolding True .
      qed (rule hi [OF that])
      then have "except_up p (pq_heap q') (pq_size q')" using gp by (auto simp: except_up_def q'_def)
      from percolateUp_ok [OF si this] y rh(2) show ?thesis
        using up True p gets getp by (simp add: rm q'_def cmp_tests)
    next
      case down: False
      then have "le (h ! (i div 2)) (h ! i)" if "2 \<le> i" "i \<le> ?n - 1" "i div 2 \<noteq> p" for i
        using hi [OF that(1,2) _ that(3)] that by (cases "i = p") auto
      then have "except_down p (pq_heap q') (pq_size q')" using gp by (auto simp: except_down_def q'_def)
      from percolateDown_ok [OF si this] y rh(2) show ?thesis
        using down True p gets getp by (auto simp: rm q'_def cmp_tests)
    qed
  qed
qed

text \<open>The first element is a least one.\<close>

lemma heap_min:
  assumes "heap_ok h n" "1 \<le> i" "i \<le> n" shows "le (h ! 1) (h ! i)"
  using assms(2,3)
proof (induction i rule: less_induct)
  case (less i)
  show ?case
  proof (cases "i = 1")
    case False
    then have "i div 2 < i" "1 \<le> i div 2" "i div 2 \<le> n" "2 \<le> i" using less.prems by auto
    then show ?thesis using less.IH [of "i div 2"] assms(1) less.prems le_trans unfolding heap_ok_def by metis
  qed simp
qed

lemma peek_empty: "pq_inv q \<Longrightarrow> pq_peek q = None \<longleftrightarrow> elems (pq_heap q) = {#}"
proof -
  assume inv: "pq_inv q"
  then have f: "filled (pq_heap q) (pq_size q)" by (simp add: pq_inv_def)
  have "elems (pq_heap q) = {#}" if "pq_size q = 0"
    using f that by (auto simp: elems_def filled_def filter_empty_conv in_set_conv_nth)
  then show ?thesis using member_elems [OF f, of 1] filledD [OF f, of 1] filled_get [OF f, of 1]
    by (cases "pq_size q = 0") (auto simp: pq_peek_def)
qed

lemma peek_min:
  assumes inv: "pq_inv q" and v: "pq_peek q = Some v" and x: "x \<in># elems (pq_heap q)"
  shows "cmp v x \<le> 0" "v \<in># elems (pq_heap q)"
proof -
  have f: "filled (pq_heap q) (pq_size q)" and ok: "heap_ok (pq_heap q) (pq_size q)" using inv by (auto simp: pq_inv_def)
  have n: "1 \<le> pq_size q" "pq_heap q ! 1 = Some v" using v filled_get [OF f, of 1] by (auto simp: pq_peek_def split: if_splits)
  then show "v \<in># elems (pq_heap q)" using member_elems [OF f, of 1] by simp
  obtain i where "i < length (pq_heap q)" "pq_heap q ! i = Some x"
    using x by (auto simp: elems_def in_set_conv_nth)
  moreover from this have "1 \<le> i" "i \<le> pq_size q" using f by (auto simp: filled_def)
  ultimately show "cmp v x \<le> 0" using heap_min [OF ok, of i] n by (simp add: le_def)
qed

lemma pq_shift_ok:
  assumes inv: "pq_inv q" and v: "pq_peek q = Some v"
  shows "fst (pq_shift cmp q) = Some v \<and> pq_inv (snd (pq_shift cmp q)) \<and>
    elems (pq_heap (snd (pq_shift cmp q))) = elems (pq_heap q) - {#v#} \<and>
    pq_size (snd (pq_shift cmp q)) = pq_size q - 1 \<and> hasSetPosition (snd (pq_shift cmp q)) = hasSetPosition q"
proof -
  have f: "filled (pq_heap q) (pq_size q)" using inv by (simp add: pq_inv_def)
  have n: "1 \<le> pq_size q" "pq_heap q ! 1 = Some v" using v filled_get [OF f, of 1] by (auto simp: pq_peek_def split: if_splits)
  then show ?thesis using removeAt_ok [OF inv, of 1] v by (simp add: pq_shift_def pq_peek_def)
qed

end

section \<open>The contract of a priority queue\<close>

text \<open>What a client relies on; the first of the queue is a least element.\<close>

locale priority_queue =
  fixes insert :: "'a \<Rightarrow> 'q \<Rightarrow> 'q"
    and shift :: "'q \<Rightarrow> 'a option \<times> 'q"
    and inv :: "'q \<Rightarrow> bool"
    and contents :: "'q \<Rightarrow> 'a multiset"
    and leq :: "'a \<Rightarrow> 'a \<Rightarrow> bool"
  assumes insert_inv: "inv q \<Longrightarrow> inv (insert x q)"
    and insert_contents: "inv q \<Longrightarrow> contents (insert x q) = add_mset x (contents q)"
    and shift_empty: "inv q \<Longrightarrow> contents q = {#} \<Longrightarrow> shift q = (None, q)"
    and shift_least: "inv q \<Longrightarrow> contents q \<noteq> {#} \<Longrightarrow>
      \<exists>v q'. shift q = (Some v, q') \<and> inv q' \<and> v \<in># contents q \<and> contents q' = contents q - {#v#}
        \<and> (\<forall>x \<in># contents q. leq v x)"
begin

text \<open>Shifting \<open>n\<close> times.\<close>

fun drain :: "nat \<Rightarrow> 'q \<Rightarrow> 'a list" where
  "drain 0 q = []"
| "drain (Suc n) q = (case shift q of (None, q') \<Rightarrow> [] | (Some v, q') \<Rightarrow> v # drain n q')"

lemma insert_all: "inv q \<Longrightarrow> inv (fold insert xs q) \<and> contents (fold insert xs q) = mset xs + contents q"
  by (induction xs arbitrary: q) (auto simp: insert_inv insert_contents)

lemma drain_sorted: "inv q \<Longrightarrow> size (contents q) \<le> n \<Longrightarrow> sorted_wrt leq (drain n q) \<and> mset (drain n q) = contents q"
proof (induction n arbitrary: q)
  case (Suc n)
  show ?case
  proof (cases "contents q = {#}")
    case True
    then show ?thesis using shift_empty [OF Suc.prems(1)] by simp
  next
    case False
    then obtain v q' where s: "shift q = (Some v, q')" "inv q'" "v \<in># contents q" "contents q' = contents q - {#v#}"
      "\<forall>x \<in># contents q. leq v x" using shift_least [OF Suc.prems(1)] by blast
    have "sorted_wrt leq (drain n q') \<and> mset (drain n q') = contents q'"
      by (rule Suc.IH [OF s(2)]) (use s(3,4) Suc.prems(2) in \<open>simp add: size_Diff_singleton\<close>)
    moreover have "leq v x" if "x \<in> set (drain n q')" for x
    proof -
      have "x \<in># contents q'" using calculation that by (metis set_mset_mset)
      then show ?thesis using s(4,5) in_diffD by fastforce
    qed
    ultimately show ?thesis using s by simp
  qed
qed simp

end

sublocale comparator \<subseteq> heap_queue: priority_queue "pq_insert cmp" "pq_shift cmp"
  "\<lambda>q. pq_inv q \<and> \<not> hasSetPosition q" "\<lambda>q. elems (pq_heap q)" "\<lambda>a b. cmp a b \<le> 0"
proof (unfold_locales, goal_cases)
  case (1 q x) then show ?case using pq_insert_ok [of q x] by simp
next
  case (2 q x) then show ?case using pq_insert_ok [of q x] by simp
next
  case (3 q) then show ?case using peek_empty [of q] by (simp add: pq_shift_def pq_peek_def)
next
  case (4 q)
  then obtain v where v: "pq_peek q = Some v" using peek_empty [of q] by auto
  have "v \<in># elems (pq_heap q)" "\<forall>x \<in># elems (pq_heap q). cmp v x \<le> 0"
    using peek_min [of q v] 4 v by (metis multiset_nonemptyE)+
  then show ?case using pq_shift_ok [of q v] 4 v by (cases "pq_shift cmp q") auto
qed

text \<open>The default comparison, \<open>(a, b) => a - b\<close>.\<close>

definition number_compare :: "int \<Rightarrow> int \<Rightarrow> int" where
  "number_compare a b = a - b"

interpretation number: comparator number_compare
  by unfold_locales (auto simp: number_compare_def)

section \<open>Properties\<close>

fun pq_drain :: "('a \<Rightarrow> 'a \<Rightarrow> int) \<Rightarrow> nat \<Rightarrow> 'a pq \<Rightarrow> 'a list" where
  "pq_drain cmp 0 q = []"
| "pq_drain cmp (Suc n) q = (case pq_shift cmp q of (None, q') \<Rightarrow> [] | (Some v, q') \<Rightarrow> v # pq_drain cmp n q')"

context comparator
begin

lemma pq_drain_eq: "pq_drain cmp n q = heap_queue.drain n q"
  by (induction n arbitrary: q) (auto split: prod.splits option.splits)

lemma insert_drain:
  "sorted_wrt (\<lambda>a b. cmp a b \<le> 0) (pq_drain cmp (length xs) (fold (pq_insert cmp) xs (new_pq False)))
    \<and> mset (pq_drain cmp (length xs) (fold (pq_insert cmp) xs (new_pq False))) = mset xs"
proof -
  have "pq_inv (new_pq False) \<and> \<not> hasSetPosition (new_pq False :: 'a pq)" using pq_inv_new(1) by (simp add: new_pq_def)
  from heap_queue.insert_all [OF this, of xs] pq_inv_new(2) [of False]
  show ?thesis using heap_queue.drain_sorted [of "fold (pq_insert cmp) xs (new_pq False)" "length xs"]
    by (simp add: pq_drain_eq)
qed

end

text \<open>C36: whatever is inserted into a \<open>PriorityQueue\<close> comes out of \<open>shift\<close> in the order of the comparison
  function, all of it and nothing else, for every comparison that is a total preorder.\<close>

theorem priority_queue_sorts:
  assumes "comparator cmp"
  shows "sorted_wrt (\<lambda>a b. cmp a b \<le> 0) (pq_drain cmp (length xs) (fold (pq_insert cmp) xs (new_pq False)))
    \<and> mset (pq_drain cmp (length xs) (fold (pq_insert cmp) xs (new_pq False))) = mset xs"
  by (rule comparator.insert_drain [OF assms])

theorem priority_queue_sorts_witness:
  "sorted_wrt (\<lambda>a b. number_compare a b \<le> 0) (pq_drain number_compare 3 (fold (pq_insert number_compare) [5, 2, 7] (new_pq False)))
    \<and> mset (pq_drain number_compare 3 (fold (pq_insert number_compare) [5, 2, 7] (new_pq False))) = mset [5, 2, 7]"
  using priority_queue_sorts [OF number.comparator_axioms, of "[5, 2, 7]"] by (simp add: eval_nat_numeral)

text \<open>A queue with \<open>setPosition\<close>, as the timers use it.\<close>

inductive pq_reachable :: "('a \<Rightarrow> 'a \<Rightarrow> int) \<Rightarrow> 'a pq \<Rightarrow> bool" for cmp where
  reach_new: "pq_reachable cmp (new_pq True)"
| reach_insert: "pq_reachable cmp q \<Longrightarrow> x \<notin># elems (pq_heap q) \<Longrightarrow> pq_reachable cmp (pq_insert cmp x q)"
| reach_removeAt: "pq_reachable cmp q \<Longrightarrow> 1 \<le> pos \<Longrightarrow> pos \<le> pq_size q \<Longrightarrow> pq_reachable cmp (removeAt cmp pos q)"
| reach_shift: "pq_reachable cmp q \<Longrightarrow> pq_reachable cmp (snd (pq_shift cmp q))"

lemma pq_reachable_inv:
  assumes "comparator cmp" shows "pq_reachable cmp q \<Longrightarrow> comparator.pq_inv cmp q \<and> hasSetPosition q"
proof (induction rule: pq_reachable.induct)
  case reach_new
  then show ?case using comparator.pq_inv_new(1) [OF assms, of True] by (simp add: new_pq_def)
next
  case (reach_insert q x)
  then show ?case using comparator.pq_insert_ok [OF assms, of q x] by simp
next
  case (reach_removeAt q pos)
  then show ?case using comparator.removeAt_ok [OF assms, of q pos] by simp
next
  case (reach_shift q)
  then show ?case using comparator.pq_shift_ok [OF assms, of q]
    by (cases "pq_peek q") (auto simp: pq_shift_def pq_peek_def)
qed

text \<open>In every reachable state of a \<open>PriorityQueue\<close> with a \<open>setPosition\<close> callback, \<open>peek\<close> is a least
  element and the position recorded for each element is the index at which it is stored, so that
  \<open>removeAt\<close> of a recorded position removes that element.\<close>

theorem priority_queue_positions:
  assumes "comparator cmp" "pq_reachable cmp q" "1 \<le> i" "i \<le> pq_size q"
  shows "\<exists>x least. heap_get (pq_heap q) i = Some x \<and> positions q x = Some i \<and> pq_peek q = Some least \<and> cmp least x \<le> 0
    \<and> elems (pq_heap (removeAt cmp i q)) = elems (pq_heap q) - {#x#}"
proof -
  have inv: "comparator.pq_inv cmp q" "hasSetPosition q" using pq_reachable_inv [OF assms(1,2)] by auto
  have f: "filled (pq_heap q) (pq_size q)" "placed_but 0 (positions q) (pq_heap q) (pq_size q)"
    using inv by (auto simp: comparator.pq_inv_def [OF assms(1)])
  obtain x where x: "pq_heap q ! i = Some x" using filledD [OF f(1) assms(3,4)] by auto
  have mem: "x \<in># elems (pq_heap q)" using comparator.member_elems [OF assms(1) f(1) assms(3,4)] x by simp
  then obtain least where l: "pq_peek q = Some least" using comparator.peek_empty [OF assms(1) inv(1)] by fastforce
  have "heap_get (pq_heap q) i = Some x" "positions q x = Some i"
    using filled_get [OF f(1), of i] f(2) assms(3,4) x by (auto simp: placed_but_def)
  then show ?thesis
    using l comparator.peek_min(1) [OF assms(1) inv(1) l mem] comparator.removeAt_ok [OF assms(1) inv(1) assms(3,4)] x by auto
qed

theorem priority_queue_positions_witness:
  "\<exists>x least. heap_get (pq_heap (pq_insert number_compare 3 (pq_insert number_compare 7 (new_pq True)))) 2 = Some x
     \<and> positions (pq_insert number_compare 3 (pq_insert number_compare 7 (new_pq True))) x = Some 2
     \<and> pq_peek (pq_insert number_compare 3 (pq_insert number_compare 7 (new_pq True))) = Some least \<and> number_compare least x \<le> 0
     \<and> elems (pq_heap (removeAt number_compare 2 (pq_insert number_compare 3 (pq_insert number_compare 7 (new_pq True)))))
       = elems (pq_heap (pq_insert number_compare 3 (pq_insert number_compare 7 (new_pq True)))) - {#x#}"
proof (rule priority_queue_positions [OF number.comparator_axioms])
  have "pq_reachable number_compare (pq_insert number_compare 7 (new_pq True))"
    by (intro reach_insert reach_new) (simp add: elems_def new_pq_def)
  moreover have "(3::int) \<notin># elems (pq_heap (pq_insert number_compare 7 (new_pq True)))"
    using number.pq_insert_ok [OF number.pq_inv_new(1) [of True], of 7] by (simp add: number.pq_inv_new)
  ultimately show "pq_reachable number_compare (pq_insert number_compare 3 (pq_insert number_compare 7 (new_pq True)))"
    by (rule reach_insert)
  show "2 \<le> pq_size (pq_insert number_compare 3 (pq_insert number_compare 7 (new_pq True)))" by code_simp
qed simp

end
