(* ===== verification/LinkedList.thy ===== *)
theory LinkedList
  imports JsPrelude
begin

text \<open>
  The circular doubly linked lists of the timers (\<open>libjs-node/internal/linkedlist.js\<close>).  A list is an
  object with two pointer fields, like its items; the objects are addresses and the fields are two
  maps, in which \<open>None\<close> is \<open>null\<close> or \<open>undefined\<close>.  \<open>ring\<close> says which sequence of items a list holds, oldest
  first, and the lemmas what each operation does to it and that it leaves the other lists alone.
\<close>

section \<open>The operations\<close>

record links =
  idleNext :: "nat \<Rightarrow> nat option"
  idlePrev :: "nat \<Rightarrow> nat option"

definition ll_init :: "nat \<Rightarrow> links \<Rightarrow> links" where
  "ll_init list s = s\<lparr>idleNext := (idleNext s)(list \<mapsto> list), idlePrev := (idlePrev s)(list \<mapsto> list)\<rparr>"

definition ll_peek :: "nat \<Rightarrow> links \<Rightarrow> nat option" where
  "ll_peek list s = (if idlePrev s list = Some list then None else idlePrev s list)"

definition ll_remove :: "nat \<Rightarrow> links \<Rightarrow> links" where
  "ll_remove item s =
     (let s = (case idleNext s item of
                 Some n \<Rightarrow> s\<lparr>idlePrev := (idlePrev s)(n := idlePrev s item)\<rparr>
               | None \<Rightarrow> s);
          s = (case idlePrev s item of
                 Some p \<Rightarrow> s\<lparr>idleNext := (idleNext s)(p := idleNext s item)\<rparr>
               | None \<Rightarrow> s)
      in s\<lparr>idleNext := (idleNext s)(item := None), idlePrev := (idlePrev s)(item := None)\<rparr>)"

text \<open>Appending to a list that was never initialised dereferences \<open>undefined\<close>.\<close>

definition null_dereference :: js_error where
  "null_dereference = JsError None ''Cannot set property '_idlePrev' of undefined''"

definition ll_append :: "nat \<Rightarrow> nat \<Rightarrow> links \<Rightarrow> unit result \<times> links" where
  "ll_append list item s =
     (let s = (if idleNext s item \<noteq> None \<or> idlePrev s item \<noteq> None then ll_remove item s else s);
          s = s\<lparr>idleNext := (idleNext s)(item := idleNext s list), idlePrev := (idlePrev s)(item \<mapsto> list)\<rparr>
      in case idleNext s list of
           None \<Rightarrow> (Inl null_dereference, s)
         | Some n \<Rightarrow>
             (Inr (), s\<lparr>idlePrev := (idlePrev s)(n \<mapsto> item), idleNext := (idleNext s)(list \<mapsto> item)\<rparr>))"

definition ll_isEmpty :: "nat \<Rightarrow> links \<Rightarrow> bool" where
  "ll_isEmpty list s \<longleftrightarrow> idleNext s list = Some list"

section \<open>Rings\<close>

text \<open>Following \<open>_idlePrev\<close> from \<open>a\<close> leads through \<open>xs\<close> to \<open>b\<close>, and \<open>_idleNext\<close> leads back.\<close>

fun chain_of :: "links \<Rightarrow> nat \<Rightarrow> nat list \<Rightarrow> nat \<Rightarrow> bool" where
  "chain_of s a [] b \<longleftrightarrow> idlePrev s a = Some b \<and> idleNext s b = Some a"
| "chain_of s a (x # xs) b \<longleftrightarrow> idlePrev s a = Some x \<and> idleNext s x = Some a \<and> chain_of s x xs b"

definition ring :: "links \<Rightarrow> nat \<Rightarrow> nat list \<Rightarrow> bool" where
  "ring s list xs \<longleftrightarrow> chain_of s list xs list \<and> distinct (list # xs)"

lemma chain_of_append: "chain_of s a (xs @ y # ys) b \<longleftrightarrow> chain_of s a xs y \<and> chain_of s y ys b"
  by (induction xs arbitrary: a) auto

lemma chain_of_ends:
  assumes "chain_of s a xs b"
  shows "idlePrev s a = Some (hd (xs @ [b]))" "idleNext s b = Some (last (a # xs))"
  using assms by (induction xs arbitrary: a) auto

text \<open>The fields a chain depends on.\<close>

lemma chain_of_cong:
  assumes "\<And>x. x = a \<or> x \<in> set xs \<Longrightarrow> idlePrev s' x = idlePrev s x"
    and "\<And>x. x = b \<or> x \<in> set xs \<Longrightarrow> idleNext s' x = idleNext s x"
  shows "chain_of s' a xs b \<longleftrightarrow> chain_of s a xs b"
  using assms by (induction xs arbitrary: a) auto

lemma ring_cong:
  assumes "\<And>x. x = l \<or> x \<in> set xs \<Longrightarrow> idlePrev s' x = idlePrev s x \<and> idleNext s' x = idleNext s x"
  shows "ring s' l xs \<longleftrightarrow> ring s l xs"
  unfolding ring_def using chain_of_cong [of l xs s' s l] assms by blast

lemma ring_init: "ring (ll_init l s) l []"
  by (simp add: ring_def ll_init_def)

lemma ring_linked: "ring s l xs \<Longrightarrow> x = l \<or> x \<in> set xs \<Longrightarrow> idleNext s x \<noteq> None \<and> idlePrev s x \<noteq> None"
proof -
  assume r: "ring s l xs" and x: "x = l \<or> x \<in> set xs"
  show ?thesis
  proof (cases "x = l")
    case True
    then show ?thesis using r chain_of_ends [of s l xs l] by (auto simp: ring_def)
  next
    case False
    with x obtain ys zs where "xs = ys @ x # zs" by (meson split_list)
    then show ?thesis using r chain_of_ends(1) [of s x zs l] chain_of_ends(2) [of s l ys x]
      by (auto simp: ring_def chain_of_append)
  qed
qed

lemma peek_ring: "ring s l xs \<Longrightarrow> ll_peek l s = (case xs of [] \<Rightarrow> None | x # _ \<Rightarrow> Some x)"
  by (cases xs) (auto simp: ring_def ll_peek_def)

lemma isEmpty_ring: "ring s l xs \<Longrightarrow> ll_isEmpty l s \<longleftrightarrow> xs = []"
  using chain_of_ends(2) [of s l xs l] by (cases xs rule: rev_cases) (auto simp: ring_def ll_isEmpty_def)

text \<open>The neighbours of an item.\<close>

lemma ring_neighbours:
  assumes "ring s l (ys @ x # zs)"
  shows "idleNext s x = Some (last (l # ys))" "idlePrev s x = Some (hd (zs @ [l]))"
proof -
  have "chain_of s l ys x" "chain_of s x zs l" using assms by (auto simp: ring_def chain_of_append)
  then show "idleNext s x = Some (last (l # ys))" "idlePrev s x = Some (hd (zs @ [l]))"
    using chain_of_ends by blast+
qed

lemma remove_fields:
  assumes "idleNext s x = Some n" "idlePrev s x = Some p" "x \<noteq> n" "x \<noteq> p"
  shows "idlePrev (ll_remove x s) = (idlePrev s)(n \<mapsto> p, x := None)"
    "idleNext (ll_remove x s) = (idleNext s)(p \<mapsto> n, x := None)"
  using assms by (auto simp: ll_remove_def)

lemma chain_of_redirect:
  assumes "chain_of s a xs b" "distinct (a # xs)" "c \<notin> set xs"
  shows "chain_of (s\<lparr>idlePrev := (idlePrev s)(last (a # xs) \<mapsto> c), idleNext := (idleNext s)(c \<mapsto> last (a # xs))\<rparr>) a xs c"
  using assms
proof (induction xs arbitrary: a)
  case (Cons x xs)
  let ?s = "s\<lparr>idlePrev := (idlePrev s)(last (x # xs) \<mapsto> c), idleNext := (idleNext s)(c \<mapsto> last (x # xs))\<rparr>"
  have c: "chain_of ?s x xs c" by (rule Cons.IH) (use Cons.prems in auto)
  have e: "last (a # x # xs) = last (x # xs)" by simp
  have "last (x # xs) \<noteq> a" using Cons.prems(2) last_in_set [of "x # xs"] by auto
  then have "idlePrev ?s a = Some x" "idleNext ?s x = Some a" using Cons.prems by auto
  with c show ?case unfolding e chain_of.simps(2) by blast
qed simp

text \<open>Removing an item of a list.\<close>

lemma remove_ring:
  assumes "ring s l (ys @ x # zs)"
  shows "ring (ll_remove x s) l (ys @ zs)"
proof -
  let ?n = "last (l # ys)" and ?p = "hd (zs @ [l])"
  have d: "distinct (l # ys @ x # zs)" and c: "chain_of s l ys x" "chain_of s x zs l"
    using assms by (auto simp: ring_def chain_of_append)
  have n: "?n \<in> set (l # ys)" by (rule last_in_set) simp
  have p: "?p \<in> set (zs @ [l])" by (rule hd_in_set) simp
  have ne: "x \<noteq> ?n" "x \<noteq> ?p" using n p d by auto
  note f = remove_fields [OF ring_neighbours [OF assms] ne]
  have "chain_of (ll_remove x s) l (ys @ zs) l"
  proof (cases zs)
    case Nil
    let ?s = "s\<lparr>idlePrev := (idlePrev s)(?n \<mapsto> l), idleNext := (idleNext s)(l \<mapsto> ?n)\<rparr>"
    have "chain_of ?s l ys l" by (rule chain_of_redirect [OF c(1)]) (use d in auto)
    moreover have "chain_of (ll_remove x s) l ys l \<longleftrightarrow> chain_of ?s l ys l"
      by (rule chain_of_cong) (use f Nil d ne in auto)
    ultimately show ?thesis using Nil by simp
  next
    case (Cons z zs')
    let ?s = "s\<lparr>idlePrev := (idlePrev s)(?n \<mapsto> z), idleNext := (idleNext s)(z \<mapsto> ?n)\<rparr>"
    have zne: "z \<noteq> l" "z \<notin> set ys" "z \<noteq> x" using d Cons by auto
    have "chain_of ?s l ys z" by (rule chain_of_redirect [OF c(1)]) (use d zne in auto)
    moreover have "chain_of (ll_remove x s) l ys z \<longleftrightarrow> chain_of ?s l ys z"
      by (rule chain_of_cong) (use f Cons d ne in auto)
    moreover have "chain_of (ll_remove x s) z zs' l \<longleftrightarrow> chain_of s z zs' l"
      by (rule chain_of_cong) (use f Cons d n in auto)
    ultimately show ?thesis using c(2) Cons by (simp add: chain_of_append)
  qed
  then show ?thesis using d by (simp add: ring_def)
qed

text \<open>Appending an item that is in no list.\<close>

lemma append_ring:
  assumes r: "ring s l xs" and x: "x \<noteq> l" "x \<notin> set xs" and u: "idleNext s x = None" "idlePrev s x = None"
  shows "\<exists>s'. ll_append l x s = (Inr (), s') \<and> ring s' l (xs @ [x])
    \<and> (\<forall>y. y \<noteq> x \<and> y \<noteq> l \<and> y \<notin> set xs \<longrightarrow> idleNext s' y = idleNext s y \<and> idlePrev s' y = idlePrev s y)"
proof -
  let ?n = "last (l # xs)"
  have d: "distinct (l # xs)" and c: "chain_of s l xs l" using r by (auto simp: ring_def)
  have n: "?n \<in> set (l # xs)" by (rule last_in_set) simp
  have nl: "idleNext s l = Some ?n" using chain_of_ends(2) [OF c] .
  define s' where "s' = s\<lparr>idleNext := (idleNext s)(x \<mapsto> ?n, l \<mapsto> x), idlePrev := (idlePrev s)(x \<mapsto> l, ?n \<mapsto> x)\<rparr>"
  have app: "ll_append l x s = (Inr (), s')" using u nl x n by (auto simp: ll_append_def Let_def s'_def)
  let ?s = "s\<lparr>idlePrev := (idlePrev s)(?n \<mapsto> x), idleNext := (idleNext s)(x \<mapsto> ?n)\<rparr>"
  have "chain_of ?s l xs x" by (rule chain_of_redirect [OF c d]) (use d x in auto)
  moreover have "chain_of s' l xs x \<longleftrightarrow> chain_of ?s l xs x"
    by (rule chain_of_cong) (use x d n in \<open>auto simp: s'_def\<close>)
  ultimately have "chain_of s' l (xs @ [x]) l" using x n by (auto simp: chain_of_append s'_def)
  then show ?thesis using app d x n by (auto simp: ring_def s'_def)
qed

section \<open>Several lists\<close>

text \<open>The lists of \<open>D\<close> hold the sequences \<open>C\<close> and share no object.\<close>

definition nodes :: "(nat \<Rightarrow> nat list) \<Rightarrow> nat \<Rightarrow> nat set" where
  "nodes C l = insert l (set (C l))"

definition forest :: "links \<Rightarrow> nat set \<Rightarrow> (nat \<Rightarrow> nat list) \<Rightarrow> bool" where
  "forest s D C \<longleftrightarrow> (\<forall>l \<in> D. ring s l (C l)) \<and> (\<forall>l \<in> D. \<forall>l' \<in> D. l \<noteq> l' \<longrightarrow> nodes C l \<inter> nodes C l' = {})"

text \<open>An object in no list: both fields empty, or both pointing to itself.\<close>

definition isolated :: "links \<Rightarrow> nat \<Rightarrow> bool" where
  "isolated s x \<longleftrightarrow> idleNext s x = None \<and> idlePrev s x = None \<or> idleNext s x = Some x \<and> idlePrev s x = Some x"

definition same_links :: "links \<Rightarrow> links \<Rightarrow> nat \<Rightarrow> bool" where
  "same_links s s' y \<longleftrightarrow> idleNext s' y = idleNext s y \<and> idlePrev s' y = idlePrev s y"

lemma ring_same: "(\<And>y. y = l \<or> y \<in> set xs \<Longrightarrow> same_links s s' y) \<Longrightarrow> ring s' l xs \<longleftrightarrow> ring s l xs"
  by (rule ring_cong) (simp add: same_links_def)

lemma remove_isolated:
  assumes "isolated s x"
  shows "idleNext (ll_remove x s) x = None" "idlePrev (ll_remove x s) x = None" "y \<noteq> x \<Longrightarrow> same_links s (ll_remove x s) y"
  using assms by (auto simp: isolated_def ll_remove_def same_links_def)

lemma remove_member:
  assumes "ring s l xs" "x \<in> set xs"
  shows "idleNext (ll_remove x s) x = None" "idlePrev (ll_remove x s) x = None" "ring (ll_remove x s) l (remove1 x xs)"
    and "y \<noteq> l \<Longrightarrow> y \<notin> set xs \<Longrightarrow> same_links s (ll_remove x s) y"
proof -
  obtain ys zs where xs: "xs = ys @ x # zs" "x \<notin> set ys" using assms(2) by (meson split_list_first)
  have r: "ring s l (ys @ x # zs)" using assms xs by simp
  have d: "distinct (l # ys @ x # zs)" using r by (simp add: ring_def)
  have n: "last (l # ys) \<in> set (l # ys)" by (rule last_in_set) simp
  have p: "hd (zs @ [l]) \<in> set (zs @ [l])" by (rule hd_in_set) simp
  have ne: "x \<noteq> last (l # ys)" "x \<noteq> hd (zs @ [l])" using n p d by auto
  note f = remove_fields [OF ring_neighbours [OF r] ne]
  show "idleNext (ll_remove x s) x = None" "idlePrev (ll_remove x s) x = None" using f by auto
  show "ring (ll_remove x s) l (remove1 x xs)" using remove_ring [OF r] xs by (simp add: remove1_append)
  assume y: "y \<noteq> l" "y \<notin> set xs"
  then have "y \<noteq> x" "y \<noteq> last (l # ys)" "y \<noteq> hd (zs @ [l])" using n p xs by auto
  then show "same_links s (ll_remove x s) y" using f by (simp add: same_links_def)
qed

text \<open>\<open>remove\<close> takes an item out of the list it is in, if any, and touches no other list.\<close>

lemma forest_detach:
  assumes f: "forest s D C" and x: "x \<notin> D" "isolated s x \<and> (\<forall>l \<in> D. x \<notin> set (C l)) \<or> (\<exists>l \<in> D. x \<in> set (C l))"
  shows "forest (ll_remove x s) D (\<lambda>l. remove1 x (C l))"
    and "idleNext (ll_remove x s) x = None" "idlePrev (ll_remove x s) x = None"
    and "y \<noteq> x \<Longrightarrow> (\<And>l. l \<in> D \<Longrightarrow> y \<notin> nodes C l) \<Longrightarrow> same_links s (ll_remove x s) y"
proof -
  have *: "forest (ll_remove x s) D (\<lambda>l. remove1 x (C l)) \<and> idleNext (ll_remove x s) x = None \<and> idlePrev (ll_remove x s) x = None
    \<and> (\<forall>y. y \<noteq> x \<longrightarrow> (\<forall>l \<in> D. y \<notin> nodes C l) \<longrightarrow> same_links s (ll_remove x s) y)"
  proof (cases "\<exists>l \<in> D. x \<in> set (C l)")
    case False
    then have i: "isolated s x" using x by blast
    note ri = remove_isolated [OF i]
    have "ring (ll_remove x s) l (remove1 x (C l))" if l: "l \<in> D" for l
    proof -
      have "remove1 x (C l) = C l" using False l by (simp add: remove1_idem)
      moreover have "ring (ll_remove x s) l (C l) \<longleftrightarrow> ring s l (C l)"
        by (rule ring_same) (metis ri(3) x(1) False l)
      ultimately show ?thesis using f l by (simp add: forest_def)
    qed
    moreover have "nodes (\<lambda>l. remove1 x (C l)) l \<subseteq> nodes C l" for l using set_remove1_subset [of x "C l"] by (auto simp: nodes_def)
    ultimately show ?thesis using f ri unfolding forest_def by blast
  next
    case True
    then obtain l0 where l0: "l0 \<in> D" "x \<in> set (C l0)" by blast
    have r0: "ring s l0 (C l0)" using f l0 by (simp add: forest_def)
    note rm = remove_member [OF r0 l0(2)]
    have dis: "x \<notin> set (C l)" "\<And>y. y \<in> nodes C l \<Longrightarrow> y \<noteq> l0 \<and> y \<notin> set (C l0)" if "l \<in> D" "l \<noteq> l0" for l
      using f l0 that unfolding forest_def nodes_def by blast+
    have "ring (ll_remove x s) l (remove1 x (C l))" if l: "l \<in> D" for l
    proof (cases "l = l0")
      case True
      then show ?thesis using rm(3) by simp
    next
      case False
      have "ring (ll_remove x s) l (C l) \<longleftrightarrow> ring s l (C l)"
        by (rule ring_same) (use rm(4) dis(2) [OF l False] in \<open>auto simp: nodes_def\<close>)
      then show ?thesis using f l dis(1) [OF l False] by (simp add: forest_def remove1_idem)
    qed
    moreover have "nodes (\<lambda>l. remove1 x (C l)) l \<subseteq> nodes C l" for l using set_remove1_subset [of x "C l"] by (auto simp: nodes_def)
    ultimately have "forest (ll_remove x s) D (\<lambda>l. remove1 x (C l))" using f unfolding forest_def by blast
    moreover have "same_links s (ll_remove x s) y" if "\<forall>l \<in> D. y \<notin> nodes C l" for y
      using rm(4) [of y] that l0 by (auto simp: nodes_def)
    ultimately show ?thesis using rm(1,2) by blast
  qed
  then show "forest (ll_remove x s) D (\<lambda>l. remove1 x (C l))"
    "idleNext (ll_remove x s) x = None" "idlePrev (ll_remove x s) x = None" by blast+
  assume "y \<noteq> x" "\<And>l. l \<in> D \<Longrightarrow> y \<notin> nodes C l"
  then show "same_links s (ll_remove x s) y" using * by blast
qed

text \<open>\<open>append\<close> moves an item to the end of a list.\<close>

definition moved :: "nat \<Rightarrow> nat \<Rightarrow> (nat \<Rightarrow> nat list) \<Rightarrow> nat \<Rightarrow> nat list" where
  "moved x l C = (\<lambda>l'. if l' = l then remove1 x (C l) @ [x] else remove1 x (C l'))"

lemma append_unlinks:
  assumes "idleNext s x \<noteq> None \<or> idlePrev s x \<noteq> None" "idleNext (ll_remove x s) x = None" "idlePrev (ll_remove x s) x = None"
  shows "ll_append l x s = ll_append l x (ll_remove x s)"
  unfolding ll_append_def using assms by simp

lemma forest_append_unlinked:
  assumes f: "forest s D C" and l: "l \<in> D" and x: "x \<notin> D" "\<And>l. l \<in> D \<Longrightarrow> x \<notin> set (C l)"
    and u: "idleNext s x = None" "idlePrev s x = None"
  shows "\<exists>s'. ll_append l x s = (Inr (), s') \<and> forest s' D (C(l := C l @ [x]))
    \<and> (\<forall>y. y \<noteq> x \<longrightarrow> (\<forall>l \<in> D. y \<notin> nodes C l) \<longrightarrow> same_links s s' y)"
proof -
  have r: "ring s l (C l)" using f l by (simp add: forest_def)
  have xl: "x \<noteq> l" using x l by blast
  obtain s' where s': "ll_append l x s = (Inr (), s')" "ring s' l (C l @ [x])"
    and fr: "\<And>y. y \<noteq> x \<Longrightarrow> y \<noteq> l \<Longrightarrow> y \<notin> set (C l) \<Longrightarrow> same_links s s' y"
    using append_ring [OF r xl x(2) [OF l] u] unfolding same_links_def by blast
  have dis: "y \<noteq> x \<and> y \<noteq> l \<and> y \<notin> set (C l)" if "l' \<in> D" "l' \<noteq> l" "y \<in> nodes C l'" for l' y
    using f l that x unfolding forest_def nodes_def by blast
  have "ring s' l' ((C(l := C l @ [x])) l')" if l': "l' \<in> D" for l'
  proof (cases "l' = l")
    case False
    have "ring s' l' (C l') \<longleftrightarrow> ring s l' (C l')"
      by (rule ring_same) (use fr dis [OF l' False] in \<open>auto simp: nodes_def\<close>)
    then show ?thesis using f l' False by (simp add: forest_def)
  qed (use s' in simp)
  moreover have "nodes (C(l := C l @ [x])) a \<inter> nodes (C(l := C l @ [x])) b = {}" if ab: "a \<in> D" "b \<in> D" "a \<noteq> b" for a b
  proof -
    have n: "nodes (C(l := C l @ [x])) c = (if c = l then insert x (nodes C c) else nodes C c)" for c by (auto simp: nodes_def)
    have "x \<notin> nodes C a" "x \<notin> nodes C b" using x ab by (auto simp: nodes_def)
    moreover have "nodes C a \<inter> nodes C b = {}" using f ab by (simp add: forest_def)
    ultimately show ?thesis using ab unfolding n by auto
  qed
  ultimately show ?thesis using s'(1) fr l unfolding forest_def nodes_def by blast
qed

lemma forest_append:
  assumes f: "forest s D C" and l: "l \<in> D"
    and x: "x \<notin> D" "isolated s x \<and> (\<forall>l \<in> D. x \<notin> set (C l)) \<or> (\<exists>l \<in> D. x \<in> set (C l))"
  shows "\<exists>s'. ll_append l x s = (Inr (), s') \<and> forest s' D (moved x l C)
    \<and> (\<forall>y. y \<noteq> x \<longrightarrow> (\<forall>l \<in> D. y \<notin> nodes C l) \<longrightarrow> same_links s s' y)"
proof -
  define s1 where "s1 = (if idleNext s x \<noteq> None \<or> idlePrev s x \<noteq> None then ll_remove x s else s)"
  note d = forest_detach [OF f x]
  have app: "ll_append l x s = ll_append l x s1" using append_unlinks d(2,3) by (auto simp: s1_def)
  have "forest s1 D (\<lambda>l. remove1 x (C l)) \<and> idleNext s1 x = None \<and> idlePrev s1 x = None"
  proof (cases "idleNext s x \<noteq> None \<or> idlePrev s x \<noteq> None")
    case False
    then have "\<forall>l \<in> D. x \<notin> set (C l)" using x(2) f ring_linked unfolding forest_def by blast
    then have "forest s D (\<lambda>l. remove1 x (C l)) = forest s D C" by (simp add: forest_def nodes_def remove1_idem)
    then show ?thesis using False f by (simp add: s1_def)
  qed (use d in \<open>simp add: s1_def\<close>)
  moreover have "x \<notin> set (remove1 x (C l))" if "l \<in> D" for l
    using f that by (simp add: forest_def ring_def)
  ultimately obtain s' where s': "ll_append l x s1 = (Inr (), s')" "forest s' D ((\<lambda>l. remove1 x (C l))(l := remove1 x (C l) @ [x]))"
    "\<forall>y. y \<noteq> x \<longrightarrow> (\<forall>l \<in> D. y \<notin> nodes (\<lambda>l. remove1 x (C l)) l) \<longrightarrow> same_links s1 s' y"
    using forest_append_unlinked [of s1 D "\<lambda>l. remove1 x (C l)" l x] l x(1) by blast
  have "(\<lambda>l. remove1 x (C l))(l := remove1 x (C l) @ [x]) = moved x l C" by (auto simp: moved_def)
  moreover have "same_links s s' y" if y: "y \<noteq> x" "\<forall>l \<in> D. y \<notin> nodes C l" for y
  proof -
    have "\<forall>l \<in> D. y \<notin> nodes (\<lambda>l. remove1 x (C l)) l" using y(2) set_remove1_subset by (fastforce simp: nodes_def)
    moreover have "same_links s s1 y" using d(4) y by (auto simp: s1_def same_links_def)
    ultimately show ?thesis using s'(3) y(1) by (auto simp: same_links_def)
  qed
  ultimately show ?thesis using app s' by auto
qed

lemma forest_peek: "forest s D C \<Longrightarrow> l \<in> D \<Longrightarrow> ll_peek l s = (case C l of [] \<Rightarrow> None | x # _ \<Rightarrow> Some x)"
  by (simp add: forest_def peek_ring)

lemma forest_isEmpty: "forest s D C \<Longrightarrow> l \<in> D \<Longrightarrow> ll_isEmpty l s \<longleftrightarrow> C l = []"
  by (simp add: forest_def isEmpty_ring)

text \<open>A new list.\<close>

lemma forest_init:
  assumes "forest s D C" "l \<notin> D" "\<And>l'. l' \<in> D \<Longrightarrow> l \<notin> nodes C l'"
  shows "forest (ll_init l s) (insert l D) (C(l := []))"
proof -
  have "ring (ll_init l s) l' (C l') \<longleftrightarrow> ring s l' (C l')" if "l' \<in> D" for l'
    by (rule ring_cong) (use assms(3) [OF that] in \<open>auto simp: ll_init_def nodes_def\<close>)
  then show ?thesis using assms ring_init by (auto simp: forest_def nodes_def)
qed

section \<open>Lists as sequences\<close>

text \<open>The calls a client can make, and what they answer.\<close>

datatype ll_op = LInit nat | LAppend nat nat | LRemove nat | LPeek nat | LIsEmpty nat

datatype ll_answer = Changed "unit result" | Item "nat option" | Flag bool

fun ll_call :: "ll_op \<Rightarrow> links \<Rightarrow> ll_answer \<times> links" where
  "ll_call (LInit l) s = (Changed (Inr ()), ll_init l s)"
| "ll_call (LAppend l x) s = (case ll_append l x s of (r, s) \<Rightarrow> (Changed r, s))"
| "ll_call (LRemove x) s = (Changed (Inr ()), ll_remove x s)"
| "ll_call (LPeek l) s = (Item (ll_peek l s), s)"
| "ll_call (LIsEmpty l) s = (Flag (ll_isEmpty l s), s)"

fun ll_calls :: "ll_op list \<Rightarrow> links \<Rightarrow> ll_answer list" where
  "ll_calls [] s = []"
| "ll_calls (c # cs) s = fst (ll_call c s) # ll_calls cs (snd (ll_call c s))"

text \<open>The specification: the sequences of the lists made so far, and which calls make sense.\<close>

type_synonym seqs = "nat \<Rightarrow> nat list option"

definition contents :: "seqs \<Rightarrow> nat \<Rightarrow> nat list" where
  "contents A l = (case A l of Some xs \<Rightarrow> xs | None \<Rightarrow> [])"

definition without_item :: "nat \<Rightarrow> seqs \<Rightarrow> seqs" where
  "without_item x A = (\<lambda>l. map_option (remove1 x) (A l))"

fun seq_call :: "ll_op \<Rightarrow> seqs \<Rightarrow> ll_answer \<times> seqs" where
  "seq_call (LInit l) A = (Changed (Inr ()), A(l \<mapsto> []))"
| "seq_call (LAppend l x) A = (Changed (Inr ()), (without_item x A)(l \<mapsto> contents (without_item x A) l @ [x]))"
| "seq_call (LRemove x) A = (Changed (Inr ()), without_item x A)"
| "seq_call (LPeek l) A = (Item (case contents A l of [] \<Rightarrow> None | x # _ \<Rightarrow> Some x), A)"
| "seq_call (LIsEmpty l) A = (Flag (contents A l = []), A)"

fun seq_calls :: "ll_op list \<Rightarrow> seqs \<Rightarrow> ll_answer list" where
  "seq_calls [] A = []"
| "seq_calls (c # cs) A = fst (seq_call c A) # seq_calls cs (snd (seq_call c A))"

fun call_ok :: "ll_op \<Rightarrow> seqs \<Rightarrow> bool" where
  "call_ok (LInit l) A \<longleftrightarrow> A l = None \<and> (\<forall>l' xs. A l' = Some xs \<longrightarrow> l \<notin> set xs)"
| "call_ok (LAppend l x) A \<longleftrightarrow> A l \<noteq> None \<and> A x = None"
| "call_ok (LRemove x) A \<longleftrightarrow> A x = None"
| "call_ok (LPeek l) A \<longleftrightarrow> A l \<noteq> None"
| "call_ok (LIsEmpty l) A \<longleftrightarrow> A l \<noteq> None"

fun calls_ok :: "ll_op list \<Rightarrow> seqs \<Rightarrow> bool" where
  "calls_ok [] A \<longleftrightarrow> True"
| "calls_ok (c # cs) A \<longleftrightarrow> call_ok c A \<and> calls_ok cs (snd (seq_call c A))"

text \<open>The simulation relation.\<close>

definition seqs_of :: "links \<Rightarrow> seqs \<Rightarrow> bool" where
  "seqs_of s A \<longleftrightarrow> forest s (dom A) (contents A) \<and> (\<forall>y. (\<forall>l \<in> dom A. y \<notin> nodes (contents A) l) \<longrightarrow> isolated s y)"

lemma seqs_item:
  assumes "seqs_of s A" "A x = None"
  shows "x \<notin> dom A" "isolated s x \<and> (\<forall>l \<in> dom A. x \<notin> set (contents A l)) \<or> (\<exists>l \<in> dom A. x \<in> set (contents A l))"
proof -
  show x: "x \<notin> dom A" using assms(2) by blast
  then have "x \<notin> nodes (contents A) l" if "l \<in> dom A" "x \<notin> set (contents A l)" for l using that by (auto simp: nodes_def)
  then show "isolated s x \<and> (\<forall>l \<in> dom A. x \<notin> set (contents A l)) \<or> (\<exists>l \<in> dom A. x \<in> set (contents A l))"
    using assms(1) unfolding seqs_of_def by blast
qed

lemma isolated_same: "isolated s y \<Longrightarrow> same_links s s' y \<Longrightarrow> isolated s' y"
  by (simp add: isolated_def same_links_def)

lemma contents_without: "contents (without_item x A) l = remove1 x (contents A l)" "dom (without_item x A) = dom A"
  by (auto simp: contents_def without_item_def split: option.split)

lemma seqs_of_init:
  assumes "seqs_of s A" "call_ok (LInit l) A"
  shows "seqs_of (ll_init l s) (A(l \<mapsto> []))"
proof -
  have C: "contents (A(l \<mapsto> [])) = (contents A)(l := [])" by (auto simp: contents_def)
  have n: "l \<notin> nodes (contents A) l'" if "l' \<in> dom A" for l'
    using that assms(2) by (auto simp: nodes_def contents_def)
  have "forest (ll_init l s) (insert l (dom A)) ((contents A)(l := []))"
    by (rule forest_init) (use assms n in \<open>auto simp: seqs_of_def\<close>)
  moreover have "isolated (ll_init l s) y" if y: "\<forall>l' \<in> insert l (dom A). y \<notin> nodes ((contents A)(l := [])) l'" for y
  proof -
    have "y \<noteq> l" using y by (auto simp: nodes_def)
    moreover have "y \<notin> nodes (contents A) l'" if "l' \<in> dom A" for l'
      using bspec [OF y, of l'] that assms(2) by (cases "l' = l") (auto simp: nodes_def)
    ultimately show ?thesis using assms(1) unfolding seqs_of_def by (auto simp: isolated_def ll_init_def)
  qed
  ultimately show ?thesis by (simp add: seqs_of_def C)
qed

lemma seqs_of_remove:
  assumes "seqs_of s A" "A x = None"
  shows "seqs_of (ll_remove x s) (without_item x A)"
proof -
  note i = seqs_item [OF assms]
  have f: "forest s (dom A) (contents A)" using assms(1) by (simp add: seqs_of_def)
  note d = forest_detach [OF f i]
  have C: "contents (without_item x A) = (\<lambda>l. remove1 x (contents A l))" by (auto simp: contents_without)
  have "isolated (ll_remove x s) y" if y: "\<forall>l \<in> dom A. y \<notin> nodes (\<lambda>l. remove1 x (contents A l)) l" for y
  proof (cases "y = x")
    case False
    then have n: "\<forall>l \<in> dom A. y \<notin> nodes (contents A) l" using y by (auto simp: nodes_def)
    then show ?thesis using isolated_same [OF _ d(4) [OF False]] assms(1) unfolding seqs_of_def by blast
  qed (use d in \<open>simp add: isolated_def\<close>)
  then show ?thesis using d(1) by (simp add: seqs_of_def C contents_without)
qed

lemma seqs_of_append:
  assumes "seqs_of s A" "A l \<noteq> None" "A x = None"
  shows "\<exists>s'. ll_append l x s = (Inr (), s') \<and> seqs_of s' (snd (seq_call (LAppend l x) A))"
proof -
  note i = seqs_item [OF assms(1,3)]
  have l: "l \<in> dom A" using assms(2) by blast
  have f: "forest s (dom A) (contents A)" using assms(1) by (simp add: seqs_of_def)
  obtain s' where s': "ll_append l x s = (Inr (), s')" "forest s' (dom A) (moved x l (contents A))"
    and fr: "\<And>y. y \<noteq> x \<Longrightarrow> \<forall>l \<in> dom A. y \<notin> nodes (contents A) l \<Longrightarrow> same_links s s' y"
    using forest_append [OF f l i] by blast
  have C: "contents (snd (seq_call (LAppend l x) A)) = moved x l (contents A)"
    using l by (auto simp: moved_def contents_without fun_eq_iff contents_def without_item_def split: option.split)
  have D: "dom (snd (seq_call (LAppend l x) A)) = dom A" using l by (auto simp: contents_without)
  have "isolated s' y" if y: "\<forall>l' \<in> dom A. y \<notin> nodes (moved x l (contents A)) l'" for y
  proof -
    have "y \<noteq> x" using bspec [OF y l] by (auto simp: nodes_def moved_def)
    moreover have "\<forall>l \<in> dom A. y \<notin> nodes (contents A) l"
      using y \<open>y \<noteq> x\<close> by (auto simp: nodes_def moved_def split: if_splits)
    ultimately show ?thesis using isolated_same fr assms(1) unfolding seqs_of_def by blast
  qed
  then show ?thesis using s' C D by (simp add: seqs_of_def)
qed

lemma seq_call_simulates:
  assumes "seqs_of s A" "call_ok c A"
  shows "fst (ll_call c s) = fst (seq_call c A)" "seqs_of (snd (ll_call c s)) (snd (seq_call c A))"
proof -
  have "fst (ll_call c s) = fst (seq_call c A) \<and> seqs_of (snd (ll_call c s)) (snd (seq_call c A))"
  proof (cases c)
    case (LInit l) then show ?thesis using seqs_of_init assms by simp
  next
    case (LAppend l x)
    obtain s' where "ll_append l x s = (Inr (), s')" "seqs_of s' (snd (seq_call (LAppend l x) A))"
      using seqs_of_append [OF assms(1), of l x] assms(2) LAppend by auto
    then show ?thesis using LAppend by simp
  next
    case (LRemove x) then show ?thesis using seqs_of_remove assms by simp
  next
    case (LPeek l) then show ?thesis using forest_peek [of s "dom A" "contents A" l] assms by (auto simp: seqs_of_def)
  next
    case (LIsEmpty l) then show ?thesis using forest_isEmpty [of s "dom A" "contents A" l] assms by (auto simp: seqs_of_def)
  qed
  then show "fst (ll_call c s) = fst (seq_call c A)" "seqs_of (snd (ll_call c s)) (snd (seq_call c A))" by blast+
qed

lemma calls_simulate: "seqs_of s A \<Longrightarrow> calls_ok cs A \<Longrightarrow> ll_calls cs s = seq_calls cs A"
  by (induction cs arbitrary: s A) (simp_all add: seq_call_simulates)

definition no_links :: links where
  "no_links = \<lparr>idleNext = Map.empty, idlePrev = Map.empty\<rparr>"

lemma seqs_of_none: "seqs_of no_links Map.empty"
  by (simp add: seqs_of_def forest_def isolated_def no_links_def)

text \<open>C37: The linked lists behave as sequences: whatever lists are made and whatever items are appended, moved from
  list to list, removed (also when they are in no list) and looked at, in any interleaving, every call answers as
  on plain sequences, in which \<open>append\<close> takes the item out of the sequence it is in and puts it at the end;
  in particular no call fails and no list is affected by another.\<close>

theorem linked_lists_are_sequences:
  assumes "calls_ok cs Map.empty"
  shows "ll_calls cs no_links = seq_calls cs Map.empty"
  by (rule calls_simulate [OF seqs_of_none assms])

text \<open>Two lists, an item that moves from one to the other, and a removal.\<close>

theorem linked_lists_are_sequences_witness:
  "calls_ok [LInit 0, LInit 1, LAppend 0 5, LAppend 0 6, LAppend 1 5, LPeek 0, LPeek 1, LRemove 6, LIsEmpty 0] Map.empty
   \<and> ll_calls [LInit 0, LInit 1, LAppend 0 5, LAppend 0 6, LAppend 1 5, LPeek 0, LPeek 1, LRemove 6, LIsEmpty 0] no_links
     = [Changed (Inr ()), Changed (Inr ()), Changed (Inr ()), Changed (Inr ()), Changed (Inr ()), Item (Some 6), Item (Some 5),
        Changed (Inr ()), Flag True]"
proof -
  let ?cs = "[LInit 0, LInit 1, LAppend 0 5, LAppend 0 6, LAppend 1 5, LPeek 0, LPeek 1, LRemove 6, LIsEmpty 0]"
  have ok: "calls_ok ?cs Map.empty" by (simp add: without_item_def contents_def)
  moreover have "seq_calls ?cs Map.empty = [Changed (Inr ()), Changed (Inr ()), Changed (Inr ()), Changed (Inr ()), Changed (Inr ()),
      Item (Some 6), Item (Some 5), Changed (Inr ()), Flag True]"
    by (simp add: without_item_def contents_def)
  ultimately show ?thesis using linked_lists_are_sequences [OF ok] by simp
qed

end
