(* ===== verification/Timers.thy ===== *)
theory Timers
  imports Complex_Main PriorityQueue LinkedList
begin

text \<open>
  Timeouts and intervals (\<open>libjs-node/internal/timers.js\<close> and \<open>libjs-node/timers.js\<close>): the lists of timers
  of one duration, the queue of lists by expiry, scheduling, cancelling, \<open>refresh\<close>, \<open>ref\<close> and \<open>unref\<close>, and
  \<open>processTimers\<close>, which the event loop calls.  Timers and lists are objects in a store, linked as in
  \<open>LinkedList\<close>; the queue holds addresses of lists and compares them by what the store says of them.  What
  a callback does with timers is a tree of actions; which tree the n-th call runs, and what the tick queue does
  between two callbacks, are parameters.  Clock readings (\<open>binding.getLibuvNow\<close>) are whole milliseconds and may grow
  during a callback.  Async hooks and contexts are left out: they observe the timers and do not schedule.
  \<open>timeoutInfo[0]\<close> is an integer without bounds here; the array behind it has 32 bits, which differ from it only with more than \<open>2^31 - 1\<close> referenced timers alive at once.
  Callbacks are functions and the delay is the number that the constructor makes of its argument: the \<open>validateFunction\<close> in front, which throws before anything is changed, is not modelled.
  \<open>processTimers\<close> is handed to the event loop only, so a callback does not call it.
\<close>

section \<open>Objects\<close>

text \<open>A number as \<open>setTimeout\<close> may get it.\<close>

datatype js_number = NaN | Infinity | NegInfinity | Num rat

definition TIMEOUT_MAX :: rat where
  "TIMEOUT_MAX = 2 ^ 31 - 1"

definition MathTrunc :: "rat \<Rightarrow> int" where
  "MathTrunc r = (if r < 0 then \<lceil>r\<rceil> else \<lfloor>r\<rfloor>)"

record timeout =
  idleTimeout :: rat
  idleStart :: int
  onTimeout :: "nat option"
  repeatAfter :: "rat option"
  destroyed :: bool
  refed :: bool
  hasPrimitive :: bool
  asyncId :: nat

record timers_list =
  expiry :: int
  listId :: int
  listMsecs :: int

datatype timer_warning = TimeoutOverflowWarning | TimeoutNegativeWarning | TimeoutNaNWarning

datatype timer_host = ToggleTimerRef bool | ScheduleTimer int | EmitWarning timer_warning

text \<open>One call of a callback: the timer, the start and the duration it is scheduled with at the call, and the time of the
  round.\<close>

record firing =
  fired_timer :: nat
  fired_start :: int
  fired_msecs :: int
  fired_now :: int

record timers_state =
  timeouts :: "nat \<Rightarrow> timeout option"
  timerLists :: "nat \<Rightarrow> timers_list option"
  lnks :: links
  timerListMap :: "int \<Rightarrow> nat option"
  timerListQueue :: "nat pq"
  nextExpiry :: "int option"
  timeoutInfo :: int
  knownTimersById :: "nat \<Rightarrow> nat option"
  timerListId :: int
  warnedNegativeNumber :: bool
  warnedNotNumber :: bool
  nextAddr :: nat
  nextAsyncId :: nat
  clock :: int
  hostCalls :: "timer_host list"
  firings :: "firing list"
  rounds :: nat

definition timers_init :: "int \<Rightarrow> timers_state" where
  "timers_init now =
     \<lparr>timeouts = Map.empty, timerLists = Map.empty, lnks = \<lparr>idleNext = Map.empty, idlePrev = Map.empty\<rparr>,
      timerListMap = Map.empty, timerListQueue = new_pq True, nextExpiry = None, timeoutInfo = 0,
      knownTimersById = Map.empty, timerListId = - (2 ^ 53 - 1), warnedNegativeNumber = False,
      warnedNotNumber = False, nextAddr = 0, nextAsyncId = 1, clock = now, hostCalls = [], firings = [], rounds = 0\<rparr>"

text \<open>The order of the queue: by expiry, then by id.\<close>

definition list_key :: "(nat \<Rightarrow> timers_list option) \<Rightarrow> nat \<Rightarrow> int \<times> int" where
  "list_key ls a = (case ls a of Some l \<Rightarrow> (expiry l, listId l) | None \<Rightarrow> (0, 0))"

definition compareTimersLists :: "(nat \<Rightarrow> timers_list option) \<Rightarrow> nat \<Rightarrow> nat \<Rightarrow> int" where
  "compareTimersLists ls a b =
     (let expiryDiff = fst (list_key ls a) - fst (list_key ls b)
      in if expiryDiff = 0 then snd (list_key ls a) - snd (list_key ls b) else expiryDiff)"

section \<open>Scheduling\<close>

definition host_call :: "timer_host \<Rightarrow> timers_state \<Rightarrow> timers_state" where
  "host_call c st = st\<lparr>hostCalls := c # hostCalls st\<rparr>"

definition incRefCount :: "timers_state \<Rightarrow> timers_state" where
  "incRefCount st =
     (let st' = st\<lparr>timeoutInfo := timeoutInfo st + 1\<rparr>
      in if timeoutInfo st = 0 then host_call (ToggleTimerRef True) st' else st')"

definition decRefCount :: "timers_state \<Rightarrow> timers_state" where
  "decRefCount st =
     (let st' = st\<lparr>timeoutInfo := timeoutInfo st - 1\<rparr>
      in if timeoutInfo st' = 0 then host_call (ToggleTimerRef False) st' else st')"

definition upd_timeout :: "nat \<Rightarrow> (timeout \<Rightarrow> timeout) \<Rightarrow> timers_state \<Rightarrow> timers_state" where
  "upd_timeout t f st = st\<lparr>timeouts := (timeouts st)(t := map_option f (timeouts st t))\<rparr>"

text \<open>The duration the constructor settles on, and what it warns about.\<close>

definition timeout_after :: "js_number option \<Rightarrow> timers_state \<Rightarrow> rat \<times> timers_state" where
  "timeout_after after st =
     (case after of
        None \<Rightarrow> (1, st)
      | Some (Num r) \<Rightarrow>
          if 1 \<le> r \<and> r \<le> TIMEOUT_MAX then (r, st)
          else if r > TIMEOUT_MAX then (1, host_call (EmitWarning TimeoutOverflowWarning) st)
          else if r < 0 \<and> \<not> warnedNegativeNumber st
          then (1, host_call (EmitWarning TimeoutNegativeWarning) (st\<lparr>warnedNegativeNumber := True\<rparr>))
          else (1, st)
      | Some Infinity \<Rightarrow> (1, host_call (EmitWarning TimeoutOverflowWarning) st)
      | Some NegInfinity \<Rightarrow>
          if \<not> warnedNegativeNumber st
          then (1, host_call (EmitWarning TimeoutNegativeWarning) (st\<lparr>warnedNegativeNumber := True\<rparr>))
          else (1, st)
      | Some NaN \<Rightarrow>
          if \<not> warnedNotNumber st
          then (1, host_call (EmitWarning TimeoutNaNWarning) (st\<lparr>warnedNotNumber := True\<rparr>))
          else (1, st))"

definition initAsyncResource :: "nat \<Rightarrow> timers_state \<Rightarrow> timers_state" where
  "initAsyncResource t st =
     upd_timeout t (\<lambda>x. x\<lparr>asyncId := nextAsyncId st\<rparr>) (st\<lparr>nextAsyncId := nextAsyncId st + 1\<rparr>)"

definition new_Timeout :: "nat \<Rightarrow> js_number option \<Rightarrow> bool \<Rightarrow> bool \<Rightarrow> timers_state \<Rightarrow> nat \<times> timers_state" where
  "new_Timeout callback after isRepeat isRefed st =
     (case timeout_after after st of
        (ms, st) \<Rightarrow>
          (let t = nextAddr st;
               st = st\<lparr>nextAddr := t + 1, lnks := ll_init t (lnks st),
                      timeouts := (timeouts st)(t \<mapsto>
                        \<lparr>idleTimeout = ms, idleStart = 0, onTimeout = Some callback,
                         repeatAfter = (if isRepeat then Some ms else None), destroyed = False,
                         refed = isRefed, hasPrimitive = False, asyncId = 0\<rparr>)\<rparr>;
               st = (if isRefed then incRefCount st else st)
           in (t, initAsyncResource t st)))"

definition new_TimersList :: "int \<Rightarrow> int \<Rightarrow> timers_state \<Rightarrow> nat \<times> timers_state" where
  "new_TimersList expiresAt msecs st =
     (nextAddr st,
      st\<lparr>nextAddr := nextAddr st + 1, lnks := ll_init (nextAddr st) (lnks st), timerListId := timerListId st + 1,
         timerLists := (timerLists st)(nextAddr st \<mapsto> \<lparr>expiry = expiresAt, listId = timerListId st, listMsecs = msecs\<rparr>)\<rparr>)"

text \<open>The list for a duration, made and queued if there is none.\<close>

definition list_for :: "int \<Rightarrow> int \<Rightarrow> timers_state \<Rightarrow> nat \<times> timers_state" where
  "list_for msecs start st =
     (case timerListMap st msecs of
        Some l \<Rightarrow> (l, st)
      | None \<Rightarrow>
          (let expiresAt = start + msecs;
               (l, st) = new_TimersList expiresAt msecs st;
               st = st\<lparr>timerListMap := (timerListMap st)(msecs \<mapsto> l)\<rparr>;
               st = st\<lparr>timerListQueue := pq_insert (compareTimersLists (timerLists st)) l (timerListQueue st)\<rparr>;
               sooner = (case nextExpiry st of None \<Rightarrow> True | Some e \<Rightarrow> e > expiresAt)
           in (l, if sooner then (host_call (ScheduleTimer msecs) st)\<lparr>nextExpiry := Some expiresAt\<rparr> else st)))"

definition timer_insert :: "nat \<Rightarrow> rat \<Rightarrow> int \<Rightarrow> timers_state \<Rightarrow> unit result \<times> timers_state" where
  "timer_insert item msecs start st =
     (let st = upd_timeout item (\<lambda>x. x\<lparr>idleStart := start\<rparr>) st
      in case list_for (MathTrunc msecs) start st of
           (l, st) \<Rightarrow> (case ll_append l item (lnks st) of (r, s) \<Rightarrow> (r, st\<lparr>lnks := s\<rparr>)))"

text \<open>\<open>active\<close> and \<open>unrefActive\<close>, which \<open>refresh\<close> calls.\<close>

definition insertGuarded :: "nat \<Rightarrow> bool \<Rightarrow> timers_state \<Rightarrow> unit result \<times> timers_state" where
  "insertGuarded item ref st =
     (case timeouts st item of
        None \<Rightarrow> (Inr (), st)
      | Some x \<Rightarrow>
          if idleTimeout x < 0 then (Inr (), st)
          else
            (case timer_insert item (idleTimeout x) (clock st) st of
               (Inl e, st) \<Rightarrow> (Inl e, st)
             | (Inr _, st) \<Rightarrow>
                 (let isDestroyed = destroyed x;
                      st = (if isDestroyed
                            then initAsyncResource item (upd_timeout item (\<lambda>x. x\<lparr>destroyed := False\<rparr>) st) else st);
                      st = (if isDestroyed then (if ref then incRefCount st else st)
                            else if ref \<noteq> refed x then (if ref then incRefCount st else decRefCount st)
                            else st)
                  in (Inr (), upd_timeout item (\<lambda>x. x\<lparr>refed := ref\<rparr>) st))))"

section \<open>The public operations\<close>

text \<open>\<open>insert(timeout, timeout._idleTimeout); return timeout\<close>, after the constructor.\<close>

definition start_timer :: "nat \<times> timers_state \<Rightarrow> nat result \<times> timers_state" where
  "start_timer ts =
     (case ts of
        (t, st) \<Rightarrow>
          (case timer_insert t (case timeouts st t of Some x \<Rightarrow> idleTimeout x | None \<Rightarrow> 1) (clock st) st of
             (r, st) \<Rightarrow> (case r of Inl e \<Rightarrow> Inl e | Inr _ \<Rightarrow> Inr t, st)))"

definition setTimeout :: "nat \<Rightarrow> js_number option \<Rightarrow> timers_state \<Rightarrow> nat result \<times> timers_state" where
  "setTimeout callback after st = start_timer (new_Timeout callback after False True st)"

definition setInterval :: "nat \<Rightarrow> js_number option \<Rightarrow> timers_state \<Rightarrow> nat result \<times> timers_state" where
  "setInterval callback after st = start_timer (new_Timeout callback after True True st)"

definition setUnrefTimeout :: "nat \<Rightarrow> js_number option \<Rightarrow> timers_state \<Rightarrow> nat result \<times> timers_state" where
  "setUnrefTimeout callback after st = start_timer (new_Timeout callback after False False st)"

definition timeout_refresh :: "nat \<Rightarrow> timers_state \<Rightarrow> unit result \<times> timers_state" where
  "timeout_refresh t st =
     (case timeouts st t of None \<Rightarrow> (Inr (), st) | Some x \<Rightarrow> insertGuarded t (refed x) st)"

definition timeout_unref :: "nat \<Rightarrow> timers_state \<Rightarrow> timers_state" where
  "timeout_unref t st =
     (case timeouts st t of
        None \<Rightarrow> st
      | Some x \<Rightarrow>
          if refed x then
            (let st = upd_timeout t (\<lambda>x. x\<lparr>refed := False\<rparr>) st
             in if \<not> destroyed x then decRefCount st else st)
          else st)"

definition timeout_ref :: "nat \<Rightarrow> timers_state \<Rightarrow> timers_state" where
  "timeout_ref t st =
     (case timeouts st t of
        None \<Rightarrow> st
      | Some x \<Rightarrow>
          if \<not> refed x then
            (let st = upd_timeout t (\<lambda>x. x\<lparr>refed := True\<rparr>) st
             in if \<not> destroyed x then incRefCount st else st)
          else st)"

definition timeout_hasRef :: "nat \<Rightarrow> timers_state \<Rightarrow> bool" where
  "timeout_hasRef t st = (case timeouts st t of None \<Rightarrow> False | Some x \<Rightarrow> refed x)"

text \<open>\<open>Timeout.prototype[Symbol.toPrimitive]\<close>.\<close>

definition timeout_toPrimitive :: "nat \<Rightarrow> timers_state \<Rightarrow> nat \<times> timers_state" where
  "timeout_toPrimitive t st =
     (case timeouts st t of
        None \<Rightarrow> (0, st)
      | Some x \<Rightarrow>
          (asyncId x,
           if hasPrimitive x then st
           else (upd_timeout t (\<lambda>x. x\<lparr>hasPrimitive := True\<rparr>) st)
                  \<lparr>knownTimersById := (knownTimersById st)(asyncId x \<mapsto> t)\<rparr>))"

definition forget_id :: "timeout \<Rightarrow> nat \<Rightarrow> timers_state \<Rightarrow> timers_state" where
  "forget_id x i st =
     (if hasPrimitive x then st\<lparr>knownTimersById := (knownTimersById st)(i := None)\<rparr> else st)"

definition drop_empty_list :: "int \<Rightarrow> timers_state \<Rightarrow> timers_state" where
  "drop_empty_list msecs st =
     (case timerListMap st msecs of
        None \<Rightarrow> st
      | Some l \<Rightarrow>
          if ll_isEmpty l (lnks st) then
            (let pos = (case positions (timerListQueue st) l of Some p \<Rightarrow> p | None \<Rightarrow> 0);
                 st = st\<lparr>timerListQueue := removeAt (compareTimersLists (timerLists st)) pos (timerListQueue st)\<rparr>;
                 m = (case timerLists st l of Some x \<Rightarrow> listMsecs x | None \<Rightarrow> msecs)
             in st\<lparr>timerListMap := (timerListMap st)(m := None)\<rparr>)
          else st)"

definition unenroll :: "nat \<Rightarrow> timers_state \<Rightarrow> timers_state" where
  "unenroll item st =
     (case timeouts st item of
        None \<Rightarrow> st
      | Some x \<Rightarrow>
          if destroyed x then st
          else
            (let st = upd_timeout item (\<lambda>x. x\<lparr>destroyed := True\<rparr>) st;
                 st = forget_id x (asyncId x) st;
                 st = st\<lparr>lnks := ll_remove item (lnks st)\<rparr>;
                 st = (if refed x then decRefCount (drop_empty_list (MathTrunc (idleTimeout x)) st) else st)
             in upd_timeout item (\<lambda>x. x\<lparr>idleTimeout := -1\<rparr>) st))"

datatype clear_arg = TimerObject nat | TimerId nat

definition clearTimeout :: "clear_arg \<Rightarrow> timers_state \<Rightarrow> timers_state" where
  "clearTimeout arg st =
     (case arg of
        TimerObject t \<Rightarrow>
          (case timeouts st t of
             Some x \<Rightarrow>
               if onTimeout x \<noteq> None then unenroll t (upd_timeout t (\<lambda>x. x\<lparr>onTimeout := None\<rparr>) st) else st
           | None \<Rightarrow> st)
      | TimerId i \<Rightarrow>
          (case knownTimersById st i of
             Some t \<Rightarrow> unenroll t (upd_timeout t (\<lambda>x. x\<lparr>onTimeout := None\<rparr>) st)
           | None \<Rightarrow> st))"

section \<open>What a callback does\<close>

datatype tprog =
    TDone
  | TThrow js_error
  | TSetTimeout nat "js_number option" "nat result \<Rightarrow> tprog"
  | TSetInterval nat "js_number option" "nat result \<Rightarrow> tprog"
  | TSetUnref nat "js_number option" "nat result \<Rightarrow> tprog"
  | TClear clear_arg tprog
  | TRefresh nat "unit result \<Rightarrow> tprog"
  | TRef nat tprog
  | TUnref nat tprog
  | THasRef nat "bool \<Rightarrow> tprog"
  | TPrimitive nat "nat \<Rightarrow> tprog"
  | TWait nat tprog

primrec exec_timers :: "tprog \<Rightarrow> timers_state \<Rightarrow> unit result \<times> timers_state" where
  "exec_timers TDone st = (Inr (), st)"
| "exec_timers (TThrow e) st = (Inl e, st)"
| "exec_timers (TSetTimeout cb after k) st = (case setTimeout cb after st of (r, st) \<Rightarrow> exec_timers (k r) st)"
| "exec_timers (TSetInterval cb after k) st = (case setInterval cb after st of (r, st) \<Rightarrow> exec_timers (k r) st)"
| "exec_timers (TSetUnref cb after k) st = (case setUnrefTimeout cb after st of (r, st) \<Rightarrow> exec_timers (k r) st)"
| "exec_timers (TClear arg k) st = exec_timers k (clearTimeout arg st)"
| "exec_timers (TRefresh t k) st = (case timeout_refresh t st of (r, st) \<Rightarrow> exec_timers (k r) st)"
| "exec_timers (TRef t k) st = exec_timers k (timeout_ref t st)"
| "exec_timers (TUnref t k) st = exec_timers k (timeout_unref t st)"
| "exec_timers (THasRef t k) st = exec_timers (k (timeout_hasRef t st)) st"
| "exec_timers (TPrimitive t k) st = (case timeout_toPrimitive t st of (i, st) \<Rightarrow> exec_timers (k i) st)"
| "exec_timers (TWait d k) st = exec_timers k (st\<lparr>clock := clock st + int d\<rparr>)"

text \<open>The program of a callback, by its name and the number of the call, and the tick queue's.\<close>

record timers_env =
  callback_body :: "nat \<Rightarrow> nat \<Rightarrow> tprog"
  ticks_body :: "nat \<Rightarrow> tprog"

section \<open>The round of the event loop\<close>

definition runNextTicks :: "timers_env \<Rightarrow> timers_state \<Rightarrow> unit result \<times> timers_state" where
  "runNextTicks env st = exec_timers (ticks_body env (rounds st)) (st\<lparr>rounds := rounds st + 1\<rparr>)"

text \<open>A timer that will not be called again; its id is the one read when it left its list.\<close>

definition retire :: "nat \<Rightarrow> nat \<Rightarrow> timers_state \<Rightarrow> timers_state" where
  "retire t i st =
     (case timeouts st t of
        None \<Rightarrow> st
      | Some x \<Rightarrow>
          (let st = forget_id x i (upd_timeout t (\<lambda>x. x\<lparr>destroyed := True\<rparr>) st)
           in if refed x then st\<lparr>timeoutInfo := timeoutInfo st - 1\<rparr> else st))"

text \<open>The \<open>finally\<close> block: an interval is scheduled again, a timer that is in no list is retired.\<close>

definition after_callback :: "nat \<Rightarrow> nat \<Rightarrow> int \<Rightarrow> timers_state \<Rightarrow> unit result \<times> timers_state" where
  "after_callback t i start st =
     (case timeouts st t of
        None \<Rightarrow> (Inr (), st)
      | Some x \<Rightarrow>
          (case repeatAfter x of
             Some r \<Rightarrow>
               if idleTimeout x \<noteq> -1
               then timer_insert t r start (upd_timeout t (\<lambda>x. x\<lparr>idleTimeout := r\<rparr>) st)
               else if idleNext (lnks st) t = None \<and> idlePrev (lnks st) t = None \<and> \<not> destroyed x
               then (Inr (), retire t i st) else (Inr (), st)
           | None \<Rightarrow>
               if idleNext (lnks st) t = None \<and> idlePrev (lnks st) t = None \<and> \<not> destroyed x
               then (Inr (), retire t i st) else (Inr (), st)))"

definition fire :: "timers_env \<Rightarrow> nat \<Rightarrow> timeout \<Rightarrow> nat \<Rightarrow> int \<Rightarrow> timers_state \<Rightarrow> unit result \<times> timers_state" where
  "fire env t x cb now st =
     (let start = clock st;
          st = st\<lparr>firings := \<lparr>fired_timer = t, fired_start = idleStart x, fired_msecs = MathTrunc (idleTimeout x), fired_now = now\<rparr> # firings st,
                 rounds := rounds st + 1\<rparr>
      in case exec_timers (callback_body env cb (rounds st)) st of
           (r, st) \<Rightarrow>
             (case after_callback t (asyncId x) start st of
                (Inl e, st) \<Rightarrow> (Inl e, st)
              | (Inr _, st) \<Rightarrow> (r, st)))"

text \<open>One iteration for the timer at the head of a list: the timer leaves the list and its callback, if it still has
  one, is called.\<close>

definition on_timer :: "timers_env \<Rightarrow> bool \<Rightarrow> nat \<Rightarrow> int \<Rightarrow> timers_state \<Rightarrow> unit result \<times> timers_state" where
  "on_timer env ranAtLeastOneTimer t now st =
     (case (if ranAtLeastOneTimer then runNextTicks env st else (Inr (), st)) of
        (Inl e, st) \<Rightarrow> (Inl e, st)
      | (Inr _, st) \<Rightarrow>
          (let st = st\<lparr>lnks := ll_remove t (lnks st)\<rparr> in
           case timeouts st t of
             None \<Rightarrow> (Inr (), st)
           | Some x \<Rightarrow>
               (case onTimeout x of
                  None \<Rightarrow> (Inr (), if destroyed x then st else retire t (asyncId x) st)
                | Some cb \<Rightarrow> fire env t x cb now st)))"

definition reschedule_list :: "nat \<Rightarrow> int \<Rightarrow> timers_state \<Rightarrow> timers_state" where
  "reschedule_list l expiresAt st =
     (let st = st\<lparr>timerLists := (timerLists st)(l := map_option (\<lambda>x. x\<lparr>expiry := expiresAt, listId := timerListId st\<rparr>) (timerLists st l)),
                  timerListId := timerListId st + 1\<rparr>
      in st\<lparr>timerListQueue := percolateDown (compareTimersLists (timerLists st)) 1 (timerListQueue st)\<rparr>)"

definition finish_list :: "nat \<Rightarrow> int \<Rightarrow> timers_state \<Rightarrow> timers_state" where
  "finish_list l msecs st =
     (if timerListMap st msecs = Some l
      then st\<lparr>timerListMap := (timerListMap st)(msecs := None),
              timerListQueue := snd (pq_shift (compareTimersLists (timerLists st)) (timerListQueue st))\<rparr>
      else st)"

text \<open>The loops take a bound on their iterations and answer \<open>None\<close> when it is used up.\<close>

fun listOnTimeout_loop :: "nat \<Rightarrow> timers_env \<Rightarrow> bool \<Rightarrow> nat \<Rightarrow> int \<Rightarrow> int \<Rightarrow> timers_state \<Rightarrow> (unit result \<times> timers_state) option" where
  "listOnTimeout_loop n env again l msecs now st =
     (case ll_peek l (lnks st) of
        None \<Rightarrow> Some (Inr (), finish_list l msecs st)
      | Some t \<Rightarrow>
          (let start = (case timeouts st t of Some x \<Rightarrow> idleStart x | None \<Rightarrow> now);
               diff = now - start
           in if diff < msecs then Some (Inr (), reschedule_list l (max (start + msecs) (now + 1)) st)
              else
                (case n of
                   0 \<Rightarrow> None
                 | Suc n \<Rightarrow>
                     (case on_timer env again t now st of
                        (Inl e, st) \<Rightarrow> Some (Inl e, st)
                      | (Inr _, st) \<Rightarrow> listOnTimeout_loop n env True l msecs now st))))"

declare listOnTimeout_loop.simps [simp del]

definition listOnTimeout :: "nat \<Rightarrow> timers_env \<Rightarrow> nat \<Rightarrow> int \<Rightarrow> timers_state \<Rightarrow> (unit result \<times> timers_state) option" where
  "listOnTimeout n env l now st =
     listOnTimeout_loop n env False l (case timerLists st l of Some x \<Rightarrow> listMsecs x | None \<Rightarrow> 0) now st"

text \<open>The value for the event loop: the next expiry, negated if no timer keeps the loop alive, or 0.\<close>

fun processTimers_loop :: "nat \<Rightarrow> timers_env \<Rightarrow> bool \<Rightarrow> int \<Rightarrow> timers_state \<Rightarrow> (int result \<times> timers_state) option" where
  "processTimers_loop n env again now st =
     (case pq_peek (timerListQueue st) of
        None \<Rightarrow> Some (Inr 0, st)
      | Some l \<Rightarrow>
          (let expiresAt = (case timerLists st l of Some x \<Rightarrow> expiry x | None \<Rightarrow> 0) in
           if expiresAt > now then
             Some (Inr (if timeoutInfo st > 0 then expiresAt else - expiresAt), st\<lparr>nextExpiry := Some expiresAt\<rparr>)
           else
             (case n of
                0 \<Rightarrow> None
              | Suc n \<Rightarrow>
                  (case (if again then runNextTicks env st else (Inr (), st)) of
                     (Inl e, st) \<Rightarrow> Some (Inl e, st)
                   | (Inr _, st) \<Rightarrow>
                       (case listOnTimeout n env l now st of
                          None \<Rightarrow> None
                        | Some (Inl e, st) \<Rightarrow> Some (Inl e, st)
                        | Some (Inr _, st) \<Rightarrow> processTimers_loop n env True now st)))))"

declare processTimers_loop.simps [simp del]

definition processTimers :: "nat \<Rightarrow> timers_env \<Rightarrow> int \<Rightarrow> timers_state \<Rightarrow> (int result \<times> timers_state) option" where
  "processTimers n env now st = processTimers_loop n env False now (st\<lparr>nextExpiry := None\<rparr>)"

end
