(* ===== verification/TimersProps.thy ===== *)
theory TimersProps
  imports Timers
begin

text \<open>
  The timers keep their data structures: every list of the map is in the queue and holds the timers of its
  duration, and the reference count is the number of timers that keep the process alive.  On these
  invariants rest the theorems on \<open>processTimers\<close>.  The locale \<open>timers_ops\<close> is the interface between the
  operations and whatever a callback does with them: a relation that every operation respects is
  respected by every callback.
\<close>

section \<open>Whatever callbacks do\<close>

locale timers_ops =
  fixes R :: "timers_state \<Rightarrow> timers_state \<Rightarrow> bool"
  assumes R_refl: "R st st"
    and R_trans: "R st st' \<Longrightarrow> R st' st'' \<Longrightarrow> R st st''"
    and R_set: "R st (snd (setTimeout cb after st))" "R st (snd (setInterval cb after st))"
      "R st (snd (setUnrefTimeout cb after st))"
    and R_clear: "R st (clearTimeout arg st)"
    and R_refresh: "R st (snd (timeout_refresh t st))"
    and R_ref: "R st (timeout_ref t st)" "R st (timeout_unref t st)"
    and R_primitive: "R st (snd (timeout_toPrimitive t st))"
    and R_wait: "R st (st\<lparr>clock := clock st + int d\<rparr>)"
    and R_rounds: "R st (st\<lparr>rounds := n\<rparr>)"
begin

lemma R_bind: "R st (snd p) \<Longrightarrow> (\<And>r s. R s (snd (f r s))) \<Longrightarrow> R st (snd (case p of (r, s) \<Rightarrow> f r s))"
  by (cases p) (auto intro: R_trans)

lemma R_exec: "R st (snd (exec_timers p st))"
proof (induction p arbitrary: st)
  case (TSetTimeout cb after k)
  then show ?case unfolding exec_timers.simps by (intro R_bind R_set) simp
next
  case (TSetInterval cb after k)
  then show ?case unfolding exec_timers.simps by (intro R_bind R_set) simp
next
  case (TSetUnref cb after k)
  then show ?case unfolding exec_timers.simps by (intro R_bind R_set) simp
next
  case (TRefresh t k)
  then show ?case unfolding exec_timers.simps by (intro R_bind R_refresh) simp
next
  case (TPrimitive t k)
  then show ?case unfolding exec_timers.simps by (intro R_bind R_primitive) simp
next
  case (TClear arg k)
  show ?case unfolding exec_timers.simps by (rule R_trans [OF R_clear TClear.IH])
next
  case (TRef t k)
  show ?case unfolding exec_timers.simps by (rule R_trans [OF R_ref(1) TRef.IH])
next
  case (TUnref t k)
  show ?case unfolding exec_timers.simps by (rule R_trans [OF R_ref(2) TUnref.IH])
next
  case (TWait d k)
  show ?case unfolding exec_timers.simps by (rule R_trans [OF R_wait TWait.IH])
qed (simp_all add: R_refl)

lemma R_ticks: "R st (snd (runNextTicks env st))"
  unfolding runNextTicks_def using R_trans [OF R_rounds R_exec] .

end

text \<open>The same for a whole round: the further steps \<open>processTimers\<close> itself takes.\<close>

locale timers_rounds = timers_ops +
  assumes R_links: "R st (st\<lparr>lnks := s\<rparr>)"
    and R_nextExpiry: "R st (st\<lparr>nextExpiry := e\<rparr>)"
    and R_retire: "timeouts st t = Some x \<Longrightarrow> \<not> destroyed x \<Longrightarrow> R st (retire t i st)"
    and R_fire: "timeouts st t = Some x \<Longrightarrow> onTimeout x = Some cb \<Longrightarrow> fired_timer f = t \<Longrightarrow>
      R st (st\<lparr>firings := f # firings st, rounds := n\<rparr>)"
    and R_again: "timeouts st t = Some x \<Longrightarrow> repeatAfter x = Some r \<Longrightarrow>
      R st (snd (timer_insert t r start (upd_timeout t (\<lambda>x. x\<lparr>idleTimeout := r\<rparr>) st)))"
    and R_reschedule: "R st (reschedule_list l expiresAt st)"
    and R_finish: "R st (finish_list l m st)"
begin

lemma R_after: "R st (snd (after_callback t i start st))"
  using R_refl R_retire R_again by (auto simp: after_callback_def split: option.split)

lemma R_on_timer: "R st (snd (on_timer env again t now st))"
proof -
  have fire: "R st (snd (fire env t x cb now st))" if x: "timeouts st t = Some x" "onTimeout x = Some cb" for st x cb
  proof -
    let ?st = "st\<lparr>firings := \<lparr>fired_timer = t, fired_start = idleStart x, fired_msecs = MathTrunc (idleTimeout x), fired_now = now\<rparr> # firings st,
      rounds := rounds st + 1\<rparr>"
    obtain r s where e: "exec_timers (callback_body env cb (rounds ?st)) ?st = (r, s)" by fastforce
    have "R st ?st" by (rule R_fire [OF x]) simp
    moreover have "R ?st s" using R_exec [of ?st "callback_body env cb (rounds ?st)"] e by simp
    moreover have "snd (fire env t x cb now st) = snd (after_callback t (asyncId x) (clock st) s)"
      using e by (simp add: fire_def Let_def split: prod.split sum.split)
    ultimately show ?thesis using R_after [of s t "asyncId x" "clock st"] R_trans by metis
  qed
  obtain r s where t: "(if again then runNextTicks env st else (Inr (), st)) = (r, s)" by fastforce
  have "R st s" using R_ticks [of st env] R_refl [of st] t by (cases again) auto
  moreover have "R s (snd (case timeouts (s\<lparr>lnks := ll_remove t (lnks s)\<rparr>) t of None \<Rightarrow> (Inr (), s\<lparr>lnks := ll_remove t (lnks s)\<rparr>)
           | Some x \<Rightarrow> (case onTimeout x of
                  None \<Rightarrow> (Inr (), if destroyed x then s\<lparr>lnks := ll_remove t (lnks s)\<rparr> else retire t (asyncId x) (s\<lparr>lnks := ll_remove t (lnks s)\<rparr>))
                | Some cb \<Rightarrow> fire env t x cb now (s\<lparr>lnks := ll_remove t (lnks s)\<rparr>))))"
    using R_links [of s "ll_remove t (lnks s)"] R_trans [OF R_links R_retire] R_trans [OF R_links fire]
    by (auto split: option.split)
  ultimately show ?thesis using R_trans unfolding on_timer_def t Let_def by (auto split: sum.split)
qed

lemma R_listOnTimeout_loop: "listOnTimeout_loop n env again l m now st = Some (r, st') \<Longrightarrow> R st st'"
proof (induction n arbitrary: again st)
  case 0
  then show ?case using R_finish R_reschedule
    by (auto simp: listOnTimeout_loop.simps [of 0] Let_def split: option.splits if_splits)
next
  case (Suc n)
  show ?case
  proof (cases "ll_peek l (lnks st)")
    case None
    then show ?thesis using Suc.prems R_finish by (auto simp: listOnTimeout_loop.simps [of "Suc n"])
  next
    case (Some t)
    obtain q s where ot: "on_timer env again t now st = (q, s)" by fastforce
    have s: "R st s" using R_on_timer [of st env again t now] ot by simp
    from Suc.prems consider e where "st' = reschedule_list l e st" | "st' = s" | "listOnTimeout_loop n env True l m now s = Some (r, st')"
      by (auto simp: listOnTimeout_loop.simps [of "Suc n"] Some ot Let_def split: if_splits sum.splits)
    then show ?thesis
    proof cases
      case 1 then show ?thesis using R_reschedule by simp
    next
      case 2 then show ?thesis using s by simp
    next
      case 3 show ?thesis by (rule R_trans [OF s Suc.IH [OF 3]])
    qed
  qed
qed

lemma R_processTimers_loop: "processTimers_loop n env again now st = Some (r, st') \<Longrightarrow> R st st'"
proof (induction n arbitrary: again st)
  case 0
  then show ?case using R_refl R_nextExpiry
    by (auto simp: processTimers_loop.simps [of 0] Let_def split: option.splits if_splits)
next
  case (Suc n)
  obtain q s where t: "(if again then runNextTicks env st else (Inr (), st)) = (q, s)" by fastforce
  have st: "R st s" using R_ticks [of st env] R_refl [of st] t by (cases again) auto
  have lo: "R s s'" if "listOnTimeout n env l now s = Some (r', s')" for l r' s'
    using that R_listOnTimeout_loop by (auto simp: listOnTimeout_def)
  show ?case
  proof (cases "pq_peek (timerListQueue st)")
    case None
    then show ?thesis using Suc.prems R_refl by (simp add: processTimers_loop.simps [of "Suc n"])
  next
    case (Some l)
    from Suc.prems consider e where "st' = st\<lparr>nextExpiry := e\<rparr>" | "st' = s"
      | q' where "listOnTimeout n env l now s = Some (q', st')"
      | q' s' where "listOnTimeout n env l now s = Some (q', s')" "processTimers_loop n env True now s' = Some (r, st')"
      by (auto simp: processTimers_loop.simps [of "Suc n"] Some t Let_def split: if_splits sum.splits option.splits)
    then show ?thesis
    proof cases
      case 1 then show ?thesis using R_nextExpiry by simp
    next
      case 2 then show ?thesis using st by simp
    next
      case 3 show ?thesis by (rule R_trans [OF st lo [OF 3]])
    next
      case 4 show ?thesis by (rule R_trans [OF R_trans [OF st lo [OF 4(1)]] Suc.IH [OF 4(2)]])
    qed
  qed
qed

lemma R_processTimers: "processTimers n env now st = Some (r, st') \<Longrightarrow> R st st'"
  unfolding processTimers_def using R_trans [OF R_nextExpiry R_processTimers_loop] .

end

section \<open>The reference count\<close>

text \<open>The timers that keep the process alive.\<close>

definition live_refs :: "timers_state \<Rightarrow> nat set" where
  "live_refs st = {t. \<exists>x. timeouts st t = Some x \<and> refed x \<and> \<not> destroyed x}"

definition ref_ok :: "timers_state \<Rightarrow> bool" where
  "ref_ok st \<longleftrightarrow> timeoutInfo st = int (card (live_refs st)) \<and> dom (timeouts st) \<subseteq> {..< nextAddr st}"

lemma finite_live: "ref_ok st \<Longrightarrow> finite (live_refs st)"
  by (rule finite_subset [of _ "{..< nextAddr st}"]) (auto simp: ref_ok_def live_refs_def)

lemma ref_fields [simp]:
  "timeouts (host_call c st) = timeouts st" "timeoutInfo (host_call c st) = timeoutInfo st" "nextAddr (host_call c st) = nextAddr st"
  "timeouts (incRefCount st) = timeouts st" "timeoutInfo (incRefCount st) = timeoutInfo st + 1" "nextAddr (incRefCount st) = nextAddr st"
  "timeouts (decRefCount st) = timeouts st" "timeoutInfo (decRefCount st) = timeoutInfo st - 1" "nextAddr (decRefCount st) = nextAddr st"
  "timeoutInfo (upd_timeout t f st) = timeoutInfo st" "nextAddr (upd_timeout t f st) = nextAddr st"
  "timeouts (upd_timeout t f st) = (timeouts st)(t := map_option f (timeouts st t))"
  "nextAsyncId (host_call c st) = nextAsyncId st" "nextAsyncId (incRefCount st) = nextAsyncId st"
  "nextAsyncId (decRefCount st) = nextAsyncId st" "nextAsyncId (upd_timeout t f st) = nextAsyncId st"
  by (auto simp: host_call_def incRefCount_def decRefCount_def Let_def upd_timeout_def)

text \<open>An update of one timer changes the set by at most that timer.\<close>

lemma ref_ok_upd:
  assumes ok: "ref_ok st" and x: "timeouts st t = Some x"
    and st': "timeouts st' = (timeouts st)(t \<mapsto> y)" "nextAddr st \<le> nextAddr st'"
    and n: "timeoutInfo st' = timeoutInfo st
      + (if refed y \<and> \<not> destroyed y then 1 else 0) - (if refed x \<and> \<not> destroyed x then 1 else 0)"
  shows "ref_ok st'"
proof -
  let ?A = "live_refs st - {t}"
  have fin: "finite (live_refs st)" using finite_live [OF ok] .
  have old: "live_refs st = (if refed x \<and> \<not> destroyed x then insert t ?A else ?A)" using x by (auto simp: live_refs_def)
  have new: "live_refs st' = (if refed y \<and> \<not> destroyed y then insert t ?A else ?A)" using st' by (auto simp: live_refs_def)
  have "card (live_refs st) = card ?A + (if refed x \<and> \<not> destroyed x then 1 else 0)"
    using fin old card.insert [of ?A t] by (auto split: if_splits)
  moreover have "card (live_refs st') = card ?A + (if refed y \<and> \<not> destroyed y then 1 else 0)"
    using fin new card.insert [of ?A t] by (auto split: if_splits)
  moreover have "dom (timeouts st') \<subseteq> {..< nextAddr st'}" using ok x st' by (auto simp: ref_ok_def)
  ultimately show ?thesis using ok n by (simp add: ref_ok_def)
qed

lemma ref_ok_same:
  "ref_ok st \<Longrightarrow> timeouts st' = timeouts st \<Longrightarrow> timeoutInfo st' = timeoutInfo st \<Longrightarrow> nextAddr st \<le> nextAddr st' \<Longrightarrow> ref_ok st'"
  by (auto simp: ref_ok_def live_refs_def)

lemma ref_ok_new:
  assumes ok: "ref_ok st" and st': "timeouts st' = (timeouts st)(nextAddr st \<mapsto> y)" "nextAddr st' = Suc (nextAddr st)"
    "\<not> destroyed y" and n: "timeoutInfo st' = timeoutInfo st + (if refed y then 1 else 0)"
  shows "ref_ok st'"
proof -
  have "timeouts st (nextAddr st) = None" using ok by (auto simp: ref_ok_def)
  then have new: "live_refs st' = (if refed y then insert (nextAddr st) (live_refs st) else live_refs st)"
    and "nextAddr st \<notin> live_refs st" using st' by (auto simp: live_refs_def)
  then have "int (card (live_refs st')) = int (card (live_refs st)) + (if refed y then 1 else 0)"
    using finite_live [OF ok] by simp
  moreover have "dom (timeouts st') \<subseteq> {..< nextAddr st'}" using ok st' by (auto simp: ref_ok_def)
  ultimately show ?thesis using ok n by (simp add: ref_ok_def)
qed

lemma list_for_timeouts [simp]:
  "timeouts (snd (list_for m s st)) = timeouts st" "timeoutInfo (snd (list_for m s st)) = timeoutInfo st"
  "nextAddr st \<le> nextAddr (snd (list_for m s st))"
  by (auto simp: list_for_def new_TimersList_def Let_def split: option.split)

lemma timer_insert_timeouts:
  "timeouts (snd (timer_insert t m s st)) = (timeouts st)(t := map_option (\<lambda>x. x\<lparr>idleStart := s\<rparr>) (timeouts st t))"
  "timeoutInfo (snd (timer_insert t m s st)) = timeoutInfo st" "nextAddr st \<le> nextAddr (snd (timer_insert t m s st))"
  using list_for_timeouts [where m = "MathTrunc m" and s = s and st = "upd_timeout t (\<lambda>x. x\<lparr>idleStart := s\<rparr>) st"]
  by (auto simp: timer_insert_def Let_def split: prod.splits simp del: list_for_timeouts)

lemma timer_insert_ref:
  assumes "ref_ok st" shows "ref_ok (snd (timer_insert t m s st))"
proof (cases "timeouts st t")
  case None
  then show ?thesis using timer_insert_timeouts [where t = t and m = m and s = s and st = st]
    by (intro ref_ok_same [OF assms]) (simp_all add: fun_upd_idem)
next
  case (Some x)
  then show ?thesis using timer_insert_timeouts [where t = t and m = m and s = s and st = st]
    by (intro ref_ok_upd [OF assms Some, where y = "x\<lparr>idleStart := s\<rparr>"]) simp_all
qed

lemma timeout_after_fields [simp]:
  "timeouts (snd (timeout_after a st)) = timeouts st" "timeoutInfo (snd (timeout_after a st)) = timeoutInfo st"
  "nextAddr (snd (timeout_after a st)) = nextAddr st" "firings (snd (timeout_after a st)) = firings st"
  by (auto simp: timeout_after_def host_call_def split: option.split js_number.split)

lemma new_Timeout_timeouts:
  "fst (new_Timeout cb a rep ref st) = nextAddr st"
  "timeouts (snd (new_Timeout cb a rep ref st)) = (timeouts st)(nextAddr st \<mapsto>
     \<lparr>idleTimeout = fst (timeout_after a st), idleStart = 0, onTimeout = Some cb,
      repeatAfter = (if rep then Some (fst (timeout_after a st)) else None), destroyed = False,
      refed = ref, hasPrimitive = False, asyncId = nextAsyncId (snd (timeout_after a st))\<rparr>)"
  "timeoutInfo (snd (new_Timeout cb a rep ref st)) = timeoutInfo st + (if ref then 1 else 0)"
  "nextAddr (snd (new_Timeout cb a rep ref st)) = Suc (nextAddr st)"
proof -
  obtain ms s where p: "timeout_after a st = (ms, s)" by (cases "timeout_after a st")
  have f: "timeouts s = timeouts st" "timeoutInfo s = timeoutInfo st" "nextAddr s = nextAddr st"
    using timeout_after_fields [of a st, unfolded p] by auto
  show "fst (new_Timeout cb a rep ref st) = nextAddr st"
    "timeouts (snd (new_Timeout cb a rep ref st)) = (timeouts st)(nextAddr st \<mapsto>
     \<lparr>idleTimeout = fst (timeout_after a st), idleStart = 0, onTimeout = Some cb,
      repeatAfter = (if rep then Some (fst (timeout_after a st)) else None), destroyed = False,
      refed = ref, hasPrimitive = False, asyncId = nextAsyncId (snd (timeout_after a st))\<rparr>)"
    "timeoutInfo (snd (new_Timeout cb a rep ref st)) = timeoutInfo st + (if ref then 1 else 0)"
    "nextAddr (snd (new_Timeout cb a rep ref st)) = Suc (nextAddr st)"
    by (cases ref; simp add: p f new_Timeout_def initAsyncResource_def Let_def)+
qed

lemma new_Timeout_ref: "ref_ok st \<Longrightarrow> ref_ok (snd (new_Timeout cb a rep ref st))"
  by (rule ref_ok_new [OF _ new_Timeout_timeouts(2,4)]) (simp_all add: new_Timeout_timeouts(3))

lemma start_timer_snd:
  "snd (start_timer ts) = snd (timer_insert (fst ts) (case timeouts (snd ts) (fst ts) of Some x \<Rightarrow> idleTimeout x | None \<Rightarrow> 1)
     (clock (snd ts)) (snd ts))"
  by (auto simp: start_timer_def split: prod.splits)

lemma start_timer_ref: "ref_ok (snd ts) \<Longrightarrow> ref_ok (snd (start_timer ts))"
  unfolding start_timer_snd by (rule timer_insert_ref)

lemma insertGuarded_ref:
  assumes ok: "ref_ok st" shows "ref_ok (snd (insertGuarded t ref st))"
proof (cases "timeouts st t")
  case (Some x)
  obtain r s where i: "timer_insert t (idleTimeout x) (clock st) st = (r, s)" by fastforce
  note ti = timer_insert_timeouts [where t = t and m = "idleTimeout x" and s = "clock st" and st = st, unfolded i snd_conv]
  have s: "ref_ok s" using timer_insert_ref [OF ok, of t "idleTimeout x" "clock st"] i by simp
  have ts: "timeouts s t = Some (x\<lparr>idleStart := clock st\<rparr>)" using ti Some by simp
  show ?thesis
  proof (cases "idleTimeout x < 0 \<or> isl r")
    case True
    then show ?thesis using ok s Some i by (auto simp: insertGuarded_def split: sum.splits)
  next
    case False
    then obtain u where r: "r = Inr u" "\<not> idleTimeout x < 0" by (cases r) auto
    define s' where "s' = snd (insertGuarded t ref st)"
    have s': "s' = upd_timeout t (\<lambda>x. x\<lparr>refed := ref\<rparr>)
      (if destroyed x then (if ref then incRefCount else id) (initAsyncResource t (upd_timeout t (\<lambda>x. x\<lparr>destroyed := False\<rparr>) s))
       else if ref \<noteq> refed x then (if ref then incRefCount s else decRefCount s) else s)"
      using r Some i by (auto simp: s'_def insertGuarded_def Let_def)
    have "ref_ok s'"
    proof (rule ref_ok_upd [OF s ts])
      show "timeouts s' = (timeouts s)(t \<mapsto> (if destroyed x then x\<lparr>idleStart := clock st, destroyed := False, asyncId := nextAsyncId s, refed := ref\<rparr>
          else x\<lparr>idleStart := clock st, refed := ref\<rparr>))"
        using ts by (auto simp: s' initAsyncResource_def)
    qed (use ts in \<open>auto simp: s' initAsyncResource_def\<close>)
    then show ?thesis by (simp add: s'_def)
  qed
qed (use ok in \<open>simp add: insertGuarded_def\<close>)

lemma ref_unref_ref: "ref_ok st \<Longrightarrow> ref_ok (timeout_ref t st)" "ref_ok st \<Longrightarrow> ref_ok (timeout_unref t st)"
proof -
  assume ok: "ref_ok st"
  show "ref_ok (timeout_ref t st)"
  proof (cases "timeouts st t")
    case (Some x)
    show ?thesis
    proof (cases "refed x")
      case False
      show ?thesis by (rule ref_ok_upd [OF ok Some, where y = "x\<lparr>refed := True\<rparr>"])
        (use Some False in \<open>auto simp: timeout_ref_def Let_def\<close>)
    qed (use Some ok in \<open>simp add: timeout_ref_def\<close>)
  qed (use ok in \<open>simp add: timeout_ref_def\<close>)
  show "ref_ok (timeout_unref t st)"
  proof (cases "timeouts st t")
    case (Some x)
    show ?thesis
    proof (cases "refed x")
      case True
      show ?thesis by (rule ref_ok_upd [OF ok Some, where y = "x\<lparr>refed := False\<rparr>"])
        (use Some True in \<open>auto simp: timeout_unref_def Let_def\<close>)
    qed (use Some ok in \<open>simp add: timeout_unref_def\<close>)
  qed (use ok in \<open>simp add: timeout_unref_def\<close>)
qed

lemma drop_empty_fields [simp]:
  "timeouts (drop_empty_list m st) = timeouts st" "timeoutInfo (drop_empty_list m st) = timeoutInfo st"
  "nextAddr (drop_empty_list m st) = nextAddr st" "firings (drop_empty_list m st) = firings st" "clock (drop_empty_list m st) = clock st"
  by (auto simp: drop_empty_list_def Let_def split: option.split)

lemma forget_fields [simp]:
  "timeouts (forget_id x i st) = timeouts st" "timeoutInfo (forget_id x i st) = timeoutInfo st"
  "nextAddr (forget_id x i st) = nextAddr st" "firings (forget_id x i st) = firings st" "clock (forget_id x i st) = clock st"
  by (auto simp: forget_id_def)

lemma unenroll_timeouts:
  "timeouts (unenroll t st) = (timeouts st)(t := map_option (\<lambda>x. if destroyed x then x else x\<lparr>destroyed := True, idleTimeout := -1\<rparr>) (timeouts st t))"
  "timeoutInfo (unenroll t st) = timeoutInfo st - (case timeouts st t of Some x \<Rightarrow> if refed x \<and> \<not> destroyed x then 1 else 0 | None \<Rightarrow> 0)"
  "nextAddr (unenroll t st) = nextAddr st"
  by (auto simp: unenroll_def Let_def split: option.split)

lemma ref_ok_field:
  assumes "ref_ok st" "\<And>x. refed (f x) = refed x \<and> destroyed (f x) = destroyed x"
  shows "ref_ok (upd_timeout t f st)"
proof (cases "timeouts st t")
  case None
  then show ?thesis by (intro ref_ok_same [OF assms(1)]) (simp_all add: fun_upd_idem)
next
  case (Some x)
  then show ?thesis using assms(2) by (intro ref_ok_upd [OF assms(1) Some, where y = "f x"]) simp_all
qed

lemma unenroll_ref: "ref_ok st \<Longrightarrow> ref_ok (unenroll t st)"
proof (cases "timeouts st t")
  case None
  then show "ref_ok st \<Longrightarrow> ?thesis" by (simp add: unenroll_def)
next
  case (Some x)
  assume ok: "ref_ok st"
  show ?thesis
    by (rule ref_ok_upd [OF ok Some, where y = "if destroyed x then x else x\<lparr>destroyed := True, idleTimeout := -1\<rparr>"])
       (use Some in \<open>auto simp: unenroll_timeouts\<close>)
qed

lemma retire_ref: "ref_ok st \<Longrightarrow> timeouts st t = Some x \<Longrightarrow> \<not> destroyed x \<Longrightarrow> ref_ok (retire t i st)"
  by (rule ref_ok_upd [where y = "x\<lparr>destroyed := True\<rparr>"]) (auto simp: retire_def Let_def)

lemma clear_ref: "ref_ok st \<Longrightarrow> ref_ok (clearTimeout arg st)"
  by (auto simp: clearTimeout_def split: clear_arg.split option.split intro!: unenroll_ref ref_ok_field)

interpretation rc: timers_rounds "\<lambda>st st'. ref_ok st \<longrightarrow> ref_ok st'"
proof (unfold_locales, goal_cases)
  case (7 st t) then show ?case by (auto simp: timeout_refresh_def insertGuarded_ref split: option.split)
next
  case (10 st t)
  then show ?case
    using ref_ok_same [OF ref_ok_field [of st "hasPrimitive_update (\<lambda>_. True)" t]]
    by (auto simp: timeout_toPrimitive_def split: option.split)
next
  case (16 st t x cb f n) then show ?case by (auto intro: ref_ok_same)
next
  case (17 st t x r start) then show ?case by (auto intro!: timer_insert_ref ref_ok_field)
next
  case (18 st l e) then show ?case by (auto simp: reschedule_list_def Let_def intro: ref_ok_same)
next
  case (19 st l m) then show ?case by (auto simp: finish_list_def intro: ref_ok_same)
next
  case (8 st t) then show ?case by (simp add: ref_unref_ref)
next
  case (9 st t) then show ?case by (simp add: ref_unref_ref)
next
  case (6 st arg) then show ?case by (simp add: clear_ref)
next
  case (15 st t x) then show ?case by (simp add: retire_ref)
qed (auto simp: setTimeout_def setInterval_def setUnrefTimeout_def
      intro: start_timer_ref new_Timeout_ref ref_ok_same)

text \<open>The states of a process: what scripts do between the rounds, and the rounds.\<close>

inductive timers_reach :: "timers_env \<Rightarrow> timers_state \<Rightarrow> bool" for env where
  reach_init: "timers_reach env (timers_init now)"
| reach_exec: "timers_reach env st \<Longrightarrow> timers_reach env (snd (exec_timers p st))"
| reach_round: "timers_reach env st \<Longrightarrow> processTimers n env now st = Some (r, st') \<Longrightarrow> timers_reach env st'"

lemma ref_ok_init: "ref_ok (timers_init now)"
  by (simp add: ref_ok_def live_refs_def timers_init_def)

lemma ref_ok_reach: "timers_reach env st \<Longrightarrow> ref_ok st"
  by (induction rule: timers_reach.induct) (use ref_ok_init rc.R_exec rc.R_processTimers in blast)+

text \<open>C25: In every state a process can reach, whatever its callbacks and its tick queue do with timers, and also
  when they throw, the count the event loop is kept alive by (\<open>timeoutInfo[0]\<close>) is the number of timers
  that are referenced and not destroyed.\<close>

theorem timers_ref_count:
  assumes "timers_reach env st"
  shows "timeoutInfo st = int (card {t. \<exists>x. timeouts st t = Some x \<and> refed x \<and> \<not> destroyed x})"
  using ref_ok_reach [OF assms] by (simp add: ref_ok_def live_refs_def)

lemma exec_set:
  "exec_timers (TSetTimeout cb a (\<lambda>_. p)) st = exec_timers p (snd (setTimeout cb a st))"
  "exec_timers (TSetInterval cb a (\<lambda>_. p)) st = exec_timers p (snd (setInterval cb a st))"
  "exec_timers (TSetUnref cb a (\<lambda>_. p)) st = exec_timers p (snd (setUnrefTimeout cb a st))"
  "exec_timers (TRefresh t (\<lambda>_. p)) st = exec_timers p (snd (timeout_refresh t st))"
  by (simp_all split: prod.split)

lemma set_timers_fields:
  "timeoutInfo (snd (setTimeout cb a st)) = timeoutInfo st + 1" "timeoutInfo (snd (setInterval cb a st)) = timeoutInfo st + 1"
  "timeoutInfo (snd (setUnrefTimeout cb a st)) = timeoutInfo st"
  "u \<noteq> nextAddr st \<Longrightarrow> timeouts (snd (setTimeout cb a st)) u = timeouts st u"
  "u \<noteq> nextAddr st \<Longrightarrow> timeouts (snd (setUnrefTimeout cb a st)) u = timeouts st u"
  "\<exists>x. timeouts (snd (setTimeout cb a st)) (nextAddr st) = Some x \<and> onTimeout x = Some cb \<and> refed x \<and> \<not> destroyed x"
  "nextAddr st < nextAddr (snd (setTimeout cb a st))"
  using timer_insert_timeouts(3) [where st = "snd (new_Timeout cb a False True st)"]
  by (simp_all add: setTimeout_def setInterval_def setUnrefTimeout_def start_timer_snd timer_insert_timeouts new_Timeout_timeouts Suc_le_eq)

text \<open>Two timers, the second of which does not keep the process alive.\<close>

definition two_timers :: tprog where
  "two_timers = TSetTimeout 0 None (\<lambda>_. TSetUnref 1 (Some (Num 5)) (\<lambda>_. TDone))"

theorem timers_ref_count_witness:
  "timers_reach (timers_env.make (\<lambda>_ _. TDone) (\<lambda>_. TDone)) (snd (exec_timers two_timers (timers_init 0)))
   \<and> int (card {t. \<exists>x. timeouts (snd (exec_timers two_timers (timers_init 0))) t = Some x \<and> refed x \<and> \<not> destroyed x}) = 1"
proof -
  let ?env = "timers_env.make (\<lambda>_ _. TDone) (\<lambda>_. TDone)"
  have r: "timers_reach ?env (snd (exec_timers two_timers (timers_init 0)))"
    by (intro timers_reach.intros)
  have "timeoutInfo (snd (exec_timers two_timers (timers_init 0))) = 1"
    unfolding two_timers_def exec_set by (simp add: set_timers_fields timers_init_def)
  then show ?thesis using timers_ref_count [OF r] r by simp
qed

section \<open>A cleared timer\<close>

text \<open>The timer exists and has no callback any more.\<close>

definition no_callback :: "nat \<Rightarrow> timers_state \<Rightarrow> bool" where
  "no_callback t st \<longleftrightarrow> t < nextAddr st \<and> (\<exists>x. timeouts st t = Some x \<and> onTimeout x = None)"

definition calls_of :: "nat \<Rightarrow> timers_state \<Rightarrow> firing list" where
  "calls_of t st = filter (\<lambda>f. fired_timer f = t) (firings st)"

definition stays_cleared :: "nat \<Rightarrow> timers_state \<Rightarrow> timers_state \<Rightarrow> bool" where
  "stays_cleared t st st' \<longleftrightarrow> no_callback t st \<longrightarrow> no_callback t st' \<and> calls_of t st' = calls_of t st"

lemma fields_firings [simp]:
  "firings (host_call c st) = firings st" "firings (incRefCount st) = firings st" "firings (decRefCount st) = firings st"
  "firings (upd_timeout t f st) = firings st" "firings (initAsyncResource t st) = firings st"
  "firings (snd (new_Timeout cb a rep ref st)) = firings st" "firings (snd (list_for m s st)) = firings st"
  "firings (snd (timer_insert t r s st)) = firings st" "firings (snd (insertGuarded t ref st)) = firings st"
  "firings (unenroll t st) = firings st" "firings (retire t i st) = firings st"
proof -
  show h [simp]: "firings (host_call c st) = firings st" "firings (incRefCount st) = firings st" "firings (decRefCount st) = firings st"
    "firings (upd_timeout t f st) = firings st" for c t f st
    by (auto simp: host_call_def incRefCount_def decRefCount_def upd_timeout_def Let_def)
  show i [simp]: "firings (initAsyncResource t st) = firings st" for t st by (simp add: initAsyncResource_def)
  show "firings (snd (new_Timeout cb a rep ref st)) = firings st"
  proof -
    obtain ms s where p: "timeout_after a st = (ms, s)" by (cases "timeout_after a st")
    then have "firings s = firings st" using timeout_after_fields(4) [of a st, unfolded p] by auto
    then show ?thesis by (simp add: p new_Timeout_def Let_def)
  qed
  show l: "firings (snd (list_for m s st)) = firings st" for m s st
    by (auto simp: list_for_def new_TimersList_def Let_def split: option.split)
  show ti: "firings (snd (timer_insert t r s st)) = firings st" for t r s st
    using l [of "MathTrunc r" s "upd_timeout t (\<lambda>x. x\<lparr>idleStart := s\<rparr>) st"]
    by (auto simp: timer_insert_def Let_def split: prod.splits)
  show "firings (snd (insertGuarded t ref st)) = firings st"
  proof (cases "timeouts st t")
    case (Some x)
    obtain r s where p: "timer_insert t (idleTimeout x) (clock st) st = (r, s)" by fastforce
    then have "firings s = firings st" using ti [of t "idleTimeout x" "clock st" st] by simp
    then show ?thesis by (simp add: Some p insertGuarded_def Let_def split: sum.split)
  qed (simp add: insertGuarded_def)
  show "firings (unenroll t st) = firings st" "firings (retire t i st) = firings st"
    by (auto simp: unenroll_def retire_def Let_def split: option.split)
qed

lemma stays_cleared_fields:
  "timeouts st' = timeouts st \<Longrightarrow> firings st' = firings st \<Longrightarrow> nextAddr st \<le> nextAddr st' \<Longrightarrow> stays_cleared t st st'"
  by (auto simp: stays_cleared_def no_callback_def calls_of_def)

lemma stays_cleared_upd:
  "timeouts st' = (timeouts st)(u := map_option f (timeouts st u)) \<Longrightarrow> (\<And>x. onTimeout x = None \<Longrightarrow> onTimeout (f x) = None) \<Longrightarrow>
     firings st' = firings st \<Longrightarrow> nextAddr st \<le> nextAddr st' \<Longrightarrow> stays_cleared t st st'"
  by (auto simp: stays_cleared_def no_callback_def calls_of_def)

lemma stays_cleared_trans: "stays_cleared t st st' \<Longrightarrow> stays_cleared t st' st'' \<Longrightarrow> stays_cleared t st st''"
  by (auto simp: stays_cleared_def)

lemma timer_insert_cleared: "stays_cleared t st (snd (timer_insert u r s st))"
  by (rule stays_cleared_upd [OF timer_insert_timeouts(1)]) (simp_all add: timer_insert_timeouts)

lemma start_new_cleared: "stays_cleared t st (snd (start_timer (new_Timeout cb a rep ref st)))"
proof -
  have "stays_cleared t st (snd (new_Timeout cb a rep ref st))"
    by (auto simp: stays_cleared_def no_callback_def calls_of_def new_Timeout_timeouts)
  then show ?thesis unfolding start_timer_snd by (rule stays_cleared_trans) (rule timer_insert_cleared)
qed

lemma unenroll_cleared: "stays_cleared t st (unenroll u st)"
  by (rule stays_cleared_upd [OF unenroll_timeouts(1)]) (simp_all add: unenroll_timeouts)

lemma upd_cleared: "(\<And>x. onTimeout x = None \<Longrightarrow> onTimeout (f x) = None) \<Longrightarrow> stays_cleared t st (upd_timeout u f st)"
  by (rule stays_cleared_upd [where f = f and u = u]) simp_all

lemma clear_cleared: "stays_cleared t st (clearTimeout arg st)"
  using stays_cleared_trans [OF upd_cleared unenroll_cleared] stays_cleared_fields
  by (auto simp: clearTimeout_def split: clear_arg.split option.split)

lemma ref_unref_cleared: "stays_cleared t st (timeout_ref u st)" "stays_cleared t st (timeout_unref u st)"
  by (auto simp: timeout_ref_def timeout_unref_def stays_cleared_def no_callback_def calls_of_def Let_def split: option.split)

lemma insertGuarded_cleared: "stays_cleared t st (snd (insertGuarded u ref st))"
proof (cases "timeouts st u")
  case (Some x)
  obtain r s where p: "timer_insert u (idleTimeout x) (clock st) st = (r, s)" by fastforce
  then have ins: "stays_cleared t st s" using timer_insert_cleared [of t st u "idleTimeout x" "clock st"] by simp
  have "stays_cleared t s (upd_timeout u (\<lambda>x. x\<lparr>refed := ref\<rparr>)
      (if destroyed x then (if ref then incRefCount else id) (initAsyncResource u (upd_timeout u (\<lambda>x. x\<lparr>destroyed := False\<rparr>) s))
       else if ref \<noteq> refed x then (if ref then incRefCount s else decRefCount s) else s))"
    by (auto simp: stays_cleared_def no_callback_def calls_of_def initAsyncResource_def)
  then show ?thesis using ins stays_cleared_trans [OF ins] stays_cleared_fields [of st st t]
    by (auto simp: Some p insertGuarded_def Let_def split: sum.split if_splits)
qed (simp add: insertGuarded_def stays_cleared_fields)

lemma retire_cleared: "stays_cleared t st (retire u i st)"
proof (cases "timeouts st u")
  case (Some x)
  then show ?thesis
    by (intro stays_cleared_upd [where u = u and f = "destroyed_update (\<lambda>_. True)"]) (simp_all add: retire_def Let_def)
qed (simp add: retire_def stays_cleared_fields)

interpretation cleared: timers_rounds "stays_cleared t" for t
proof (unfold_locales, goal_cases)
  case (2 st st' st'') then show ?case by (rule stays_cleared_trans)
next
  case (7 st u) then show ?case by (auto simp: timeout_refresh_def insertGuarded_cleared stays_cleared_fields split: option.split)
next
  case (10 st u)
  then show ?case
    by (cases "timeouts st u") (auto simp: timeout_toPrimitive_def stays_cleared_fields
      intro!: stays_cleared_upd [where u = u and f = "hasPrimitive_update (\<lambda>_. True)"])
next
  case (16 st u x cb f n)
  then show ?case by (auto simp: stays_cleared_def no_callback_def calls_of_def)
next
  case (17 st u x r start) show ?case by (rule stays_cleared_trans [OF upd_cleared timer_insert_cleared]) simp
qed (auto simp: setTimeout_def setInterval_def setUnrefTimeout_def reschedule_list_def finish_list_def Let_def
      start_new_cleared clear_cleared ref_unref_cleared retire_cleared intro: stays_cleared_fields)

inductive timers_steps :: "timers_env \<Rightarrow> timers_state \<Rightarrow> timers_state \<Rightarrow> bool" for env where
  steps_refl: "timers_steps env st st"
| steps_exec: "timers_steps env st st' \<Longrightarrow> timers_steps env st (snd (exec_timers p st'))"
| steps_round: "timers_steps env st st' \<Longrightarrow> processTimers n env now st' = Some (r, st'') \<Longrightarrow> timers_steps env st st''"

lemma steps_cleared: "timers_steps env st st' \<Longrightarrow> stays_cleared t st st'"
proof (induction rule: timers_steps.induct)
  case (steps_exec st st' p) then show ?case using stays_cleared_trans cleared.R_exec by blast
next
  case (steps_round st st' n now r st'') then show ?case using stays_cleared_trans cleared.R_processTimers by blast
qed (simp add: cleared.R_refl)

text \<open>C26: After \<open>clearTimeout\<close> of a timer that a process has made, its callback is never called again: in whatever
  state the process gets to, whatever its callbacks and its tick queue do (refreshing the timer, clearing others,
  throwing), the calls of that timer are those from before.\<close>

theorem cleared_timer_never_fires:
  assumes "timers_reach env st" "timeouts st t = Some x" "timers_steps env (clearTimeout (TimerObject t) st) st'"
  shows "filter (\<lambda>f. fired_timer f = t) (firings st') = filter (\<lambda>f. fired_timer f = t) (firings st)"
proof -
  have t: "t < nextAddr st" using ref_ok_reach [OF assms(1)] assms(2) by (auto simp: ref_ok_def)
  have f: "firings (clearTimeout (TimerObject t) st) = firings st" by (auto simp: clearTimeout_def split: option.split)
  have "no_callback t (clearTimeout (TimerObject t) st)"
    using t assms(2) by (auto simp: no_callback_def clearTimeout_def unenroll_timeouts)
  then have "calls_of t st' = calls_of t (clearTimeout (TimerObject t) st)"
    using steps_cleared [OF assms(3), of t] by (simp add: stays_cleared_def)
  then show ?thesis by (simp add: calls_of_def f)
qed

text \<open>The timer is cleared, refreshed, and a round is run when it is due.\<close>

theorem cleared_timer_never_fires_witness:
  "let env = timers_env.make (\<lambda>_ _. TDone) (\<lambda>_. TDone);
       st = snd (exec_timers two_timers (timers_init 0));
       st' = snd (exec_timers (TRefresh 0 (\<lambda>_. TDone)) (clearTimeout (TimerObject 0) st))
   in timers_reach env st \<and> timers_steps env (clearTimeout (TimerObject 0) st) st' \<and>
      filter (\<lambda>f. fired_timer f = 0) (firings st') = filter (\<lambda>f. fired_timer f = 0) (firings st)"
proof -
  let ?env = "timers_env.make (\<lambda>_ _. TDone) (\<lambda>_. TDone)" and ?st = "snd (exec_timers two_timers (timers_init 0))"
  have r: "timers_reach ?env ?st" by (intro timers_reach.intros)
  have n: "nextAddr (timers_init 0) = 0" by (simp add: timers_init_def)
  obtain x where "timeouts (snd (setTimeout 0 None (timers_init 0))) 0 = Some x"
    using set_timers_fields(6) [of 0 None "timers_init 0"] n by auto
  moreover have "0 < nextAddr (snd (setTimeout 0 None (timers_init 0)))"
    using set_timers_fields(7) [of "timers_init 0" 0 None] n by simp
  ultimately have x: "timeouts ?st 0 = Some x"
    unfolding two_timers_def exec_set by (simp add: set_timers_fields(5))
  have s: "timers_steps ?env (clearTimeout (TimerObject 0) ?st) (snd (exec_timers (TRefresh 0 (\<lambda>_. TDone)) (clearTimeout (TimerObject 0) ?st)))"
    by (intro timers_steps.intros)
  show ?thesis using cleared_timer_never_fires [OF r x s] r s by (simp add: Let_def)
qed

section \<open>Refreshing\<close>

text \<open>No operation on timers calls a callback.\<close>

lemma start_timer_firings: "firings (snd (start_timer ts)) = firings (snd ts)"
  by (simp add: start_timer_snd)

interpretation ops_log: timers_ops "\<lambda>st st'. firings st' = firings st"
  by unfold_locales (auto simp: setTimeout_def setInterval_def setUnrefTimeout_def start_timer_firings clearTimeout_def
    timeout_refresh_def timeout_ref_def timeout_unref_def timeout_toPrimitive_def Let_def split: clear_arg.split option.split)

lemma after_callback_firings: "firings (snd (after_callback t i start st)) = firings st"
  by (auto simp: after_callback_def split: option.split)

lemma fire_firings:
  "firings (snd (fire env t x cb now st)) =
     \<lparr>fired_timer = t, fired_start = idleStart x, fired_msecs = MathTrunc (idleTimeout x), fired_now = now\<rparr> # firings st"
proof -
  define s where "s = st\<lparr>firings := \<lparr>fired_timer = t, fired_start = idleStart x, fired_msecs = MathTrunc (idleTimeout x), fired_now = now\<rparr> # firings st,
      rounds := rounds st + 1\<rparr>"
  obtain r s' where e: "exec_timers (callback_body env cb (rounds s)) s = (r, s')" by fastforce
  then have "firings s' = firings s" using ops_log.R_exec [of "callback_body env cb (rounds s)" s] by simp
  moreover have "snd (fire env t x cb now st) = snd (after_callback t (asyncId x) (clock st) s')"
    using e by (simp add: fire_def s_def Let_def split: prod.split sum.split)
  ultimately show ?thesis by (simp add: after_callback_firings s_def)
qed

lemma refresh_timeouts:
  assumes "timeouts st t = Some x" "\<not> destroyed x" "idleTimeout x \<ge> 0"
  shows "timeouts (snd (timeout_refresh t st)) t = Some (x\<lparr>idleStart := clock st\<rparr>)"
proof -
  obtain r s where i: "timer_insert t (idleTimeout x) (clock st) st = (r, s)" by fastforce
  then have s: "timeouts s t = Some (x\<lparr>idleStart := clock st\<rparr>)"
    using assms(1) timer_insert_timeouts(1) [of t "idleTimeout x" "clock st" st] by simp
  then show ?thesis using assms i
    by (auto simp: timeout_refresh_def insertGuarded_def Let_def split: sum.split)
qed

text \<open>A timer that the tick queue refreshes between two callbacks of its list, when its turn has come, is called at once all
  the same, before the time it has just been given is over: the check of the time is made before the ticks are run
  and not again after them.\<close>

theorem refreshed_between_timers_fires_early:
  assumes "timeouts st t = Some x" "onTimeout x = Some cb" "\<not> destroyed x" "idleTimeout x \<ge> 0"
    and tick: "ticks_body env (rounds st) = TRefresh t (\<lambda>_. TDone)"
    and early: "now < clock st + MathTrunc (idleTimeout x)"
  shows "\<exists>f \<in> set (firings (snd (on_timer env True t now st))). fired_timer f = t \<and> fired_now f < fired_start f + fired_msecs f"
proof -
  define s where "s = snd (timeout_refresh t (st\<lparr>rounds := rounds st + 1\<rparr>))"
  have run: "runNextTicks env st = (Inr (), s)"
    unfolding runNextTicks_def tick exec_set by (simp add: s_def)
  have "timeouts s t = Some (x\<lparr>idleStart := clock st\<rparr>)"
    using refresh_timeouts [of "st\<lparr>rounds := rounds st + 1\<rparr>" t x] assms by (simp add: s_def)
  then have "snd (on_timer env True t now st) = snd (fire env t (x\<lparr>idleStart := clock st\<rparr>) cb now (s\<lparr>lnks := ll_remove t (lnks s)\<rparr>))"
    using assms(2) by (simp add: on_timer_def run Let_def)
  then show ?thesis using early by (simp add: fire_firings)
qed

text \<open>A timer whose id was asked for, that has been called, and that is refreshed: it gets a new id, but the id is not
  entered in the table, so clearing the timer by the id it now gives has no effect.\<close>

lemma insertGuarded_destroyed:
  assumes "timeouts st t = Some x" "destroyed x" "timeout_refresh t st = (Inr (), st')" "idleTimeout x \<ge> 0"
  shows "\<exists>s. snd (timer_insert t (idleTimeout x) (clock st) st) = s \<and>
    timeouts st' t = Some (x\<lparr>idleStart := clock st, destroyed := False, asyncId := nextAsyncId s\<rparr>) \<and> knownTimersById st' = knownTimersById s"
proof -
  obtain r s where i: "timer_insert t (idleTimeout x) (clock st) st = (r, s)" by fastforce
  have "timeouts s t = Some (x\<lparr>idleStart := clock st\<rparr>)"
    using assms(1) i timer_insert_timeouts(1) [of t "idleTimeout x" "clock st" st] by simp
  moreover obtain u where "r = Inr u" using assms i by (cases r) (auto simp: timeout_refresh_def insertGuarded_def)
  ultimately show ?thesis using assms i
    by (auto simp: timeout_refresh_def insertGuarded_def initAsyncResource_def incRefCount_def host_call_def upd_timeout_def Let_def split: if_splits)
qed

lemma timer_insert_ids:
  "nextAsyncId (snd (timer_insert t m s st)) = nextAsyncId st" "knownTimersById (snd (timer_insert t m s st)) = knownTimersById st"
  by (auto simp: timer_insert_def list_for_def new_TimersList_def host_call_def upd_timeout_def Let_def split: option.split prod.split)

theorem refreshed_timer_id_unknown:
  assumes "timeouts st t = Some x" "destroyed x" "hasPrimitive x" "idleTimeout x \<ge> 0"
    and fresh: "knownTimersById st (nextAsyncId st) = None" and "timeout_refresh t st = (Inr (), st')"
  shows "\<exists>i. timeout_toPrimitive t st' = (i, st') \<and> clearTimeout (TimerId i) st' = st'"
  using insertGuarded_destroyed [OF assms(1,2) assms(6,4)] assms(3) fresh
  by (auto simp: timeout_toPrimitive_def clearTimeout_def timer_insert_ids)

end
