(* ===== verification/TimersInv.thy ===== *)
theory TimersInv
  imports TimersProps
begin

text \<open>
  The data structures of the timers agree: the lists of the map are the lists of the queue, the queue is a heap by expiry with
  correct positions, every list is a ring of the timers of its duration, and the timers in no list are linked to
  nothing.  Every operation keeps this, moves no list and makes no timer due, whatever a callback does with it.
\<close>

section \<open>Rings and sequences\<close>

lemma chain_unique:
  assumes "chain_of s a xs b" "chain_of s a ys b" "b \<notin> set xs" "b \<notin> set ys" shows "xs = ys"
  using assms
proof (induction xs arbitrary: a ys)
  case Nil
  then show ?case by (cases ys) auto
next
  case (Cons x xs)
  then show ?case by (cases ys) auto
qed

lemma ring_unique: "ring s l xs \<Longrightarrow> ring s l ys \<Longrightarrow> xs = ys"
  by (auto simp: ring_def intro: chain_unique)

text \<open>The sequence a list holds.\<close>

definition seq_at :: "links \<Rightarrow> nat \<Rightarrow> nat list" where
  "seq_at s l = (THE xs. ring s l xs)"

lemma seq_at_ring: "ring s l xs \<Longrightarrow> seq_at s l = xs"
  using ring_unique by (auto simp: seq_at_def intro!: the_equality)

lemma seqs_of_ring: "seqs_of s A \<Longrightarrow> A l = Some xs \<Longrightarrow> ring s l xs"
  by (auto simp: seqs_of_def forest_def contents_def split: option.splits dest!: bspec [of _ _ l])

lemma seqs_of_seq_at: "seqs_of s A \<Longrightarrow> A l = Some xs \<Longrightarrow> seq_at s l = xs"
  using seqs_of_ring seq_at_ring by blast

text \<open>An empty list may be forgotten, and an object in no list may be linked to itself.\<close>

lemma seqs_of_forget:
  assumes "seqs_of s A" "A l = Some []"
  shows "seqs_of s (A(l := None))"
proof -
  have C: "contents (A(l := None)) l' = contents A l'" for l' using assms(2) by (simp add: contents_def)
  then have N: "nodes (contents (A(l := None))) = nodes (contents A)" by (simp add: fun_eq_iff nodes_def)
  have "ring s l []" using assms by (rule seqs_of_ring)
  then have self: "isolated s l" by (simp add: ring_def isolated_def)
  have "forest s (dom (A(l := None))) (contents (A(l := None)))"
    using assms(1) by (auto simp: seqs_of_def forest_def C N)
  moreover have "isolated s y" if y: "\<forall>l' \<in> dom (A(l := None)). y \<notin> nodes (contents A) l'" for y
  proof (cases "y = l")
    case False
    have "nodes (contents A) l = {l}" using assms(2) by (simp add: nodes_def contents_def)
    then have "\<forall>l' \<in> dom A. y \<notin> nodes (contents A) l'" using y False by auto
    then show ?thesis using assms(1) by (simp add: seqs_of_def)
  qed (use self in simp)
  ultimately show ?thesis by (simp add: seqs_of_def N)
qed

lemma seqs_of_self:
  assumes "seqs_of s A" "\<And>l xs. A l = Some xs \<Longrightarrow> t \<noteq> l \<and> t \<notin> set xs"
  shows "seqs_of (ll_init t s) A"
proof -
  have n: "t \<notin> nodes (contents A) l" if "l \<in> dom A" for l using that assms(2) by (auto simp: nodes_def contents_def)
  have same: "same_links s (ll_init t s) y" if "y \<noteq> t" for y using that by (simp add: same_links_def ll_init_def)
  have "ring (ll_init t s) l (contents A l) = ring s l (contents A l)" if "l \<in> dom A" for l
    by (rule ring_same, rule same) (use n [OF that] in \<open>auto simp: nodes_def\<close>)
  moreover have "isolated (ll_init t s) y" if "\<forall>l \<in> dom A. y \<notin> nodes (contents A) l" for y
    using assms(1) that isolated_same [OF _ same] by (cases "y = t") (auto simp: seqs_of_def isolated_def ll_init_def)
  ultimately show ?thesis using assms(1) by (simp add: seqs_of_def forest_def)
qed

section \<open>The order of the queue\<close>

interpretation tq: comparator "compareTimersLists ls" for ls
proof
  fix a b c
  show "compareTimersLists ls a b < 0 \<longleftrightarrow> 0 < compareTimersLists ls b a" by (auto simp: compareTimersLists_def Let_def)
  show "compareTimersLists ls a b \<le> 0 \<Longrightarrow> compareTimersLists ls b c \<le> 0 \<Longrightarrow> compareTimersLists ls a c \<le> 0"
    by (auto simp: compareTimersLists_def Let_def split: if_splits)
qed

text \<open>The heap order depends on the lists in the queue only.\<close>

lemma pq_inv_cong:
  assumes "tq.pq_inv ls q" "\<And>l. l \<in># elems (pq_heap q) \<Longrightarrow> list_key ls' l = list_key ls l"
  shows "tq.pq_inv ls' q"
proof -
  have f: "filled (pq_heap q) (pq_size q)" using assms(1) by (simp add: tq.pq_inv_def)
  have k: "list_key ls' (the (pq_heap q ! i)) = list_key ls (the (pq_heap q ! i))" if "1 \<le> i" "i \<le> pq_size q" for i
    using assms(2) tq.member_elems [OF f that] by blast
  have "tq.heap_ok ls' (pq_heap q) (pq_size q)"
    using assms(1) k by (auto simp: tq.pq_inv_def tq.heap_ok_def tq.le_def compareTimersLists_def)
  then show ?thesis using assms(1) by (simp add: tq.pq_inv_def)
qed

section \<open>The invariant\<close>

text \<open>What the structures depend on of a timer: its duration, its start and its period.\<close>

definition tv :: "timers_state \<Rightarrow> nat \<Rightarrow> (rat \<times> int \<times> rat option) option" where
  "tv st t = map_option (\<lambda>x. (idleTimeout x, idleStart x, repeatAfter x)) (timeouts st t)"

lemma tv_dom: "dom (timeouts st) = dom (tv st)"
  by (auto simp: tv_def)

definition mapped :: "timers_state \<Rightarrow> nat set" where
  "mapped st = ran (timerListMap st)"

definition seqs :: "timers_state \<Rightarrow> nat \<Rightarrow> nat list option" where
  "seqs st l = (if l \<in> mapped st then Some (seq_at (lnks st) l) else None)"

definition queued :: "timers_state \<Rightarrow> nat multiset" where
  "queued st = elems (pq_heap (timerListQueue st))"

definition timer_ok :: "rat \<times> int \<times> rat option \<Rightarrow> bool" where
  "timer_ok v \<longleftrightarrow> (case v of (i, s, r) \<Rightarrow> (i = -1 \<or> 1 \<le> i) \<and> (\<forall>q. r = Some q \<longrightarrow> 1 \<le> q \<and> (i = q \<or> i = -1)))"

definition lists_ok :: "timers_state \<Rightarrow> bool" where
  "lists_ok st \<longleftrightarrow>
     (\<forall>m l. timerListMap st m = Some l \<longrightarrow> 1 \<le> m \<and> (\<exists>x. timerLists st l = Some x \<and> listMsecs x = m)) \<and>
     (\<forall>l x. timerLists st l = Some x \<longrightarrow> listId x < timerListId st) \<and>
     (\<forall>l l' x x'. timerLists st l = Some x \<longrightarrow> timerLists st l' = Some x' \<longrightarrow> listId x = listId x' \<longrightarrow> l = l')"

definition queue_ok :: "timers_state \<Rightarrow> bool" where
  "queue_ok st \<longleftrightarrow> tq.pq_inv (timerLists st) (timerListQueue st) \<and> hasSetPosition (timerListQueue st) \<and>
     finite (mapped st) \<and> queued st = mset_set (mapped st)"

definition members_ok :: "timers_state \<Rightarrow> bool" where
  "members_ok st \<longleftrightarrow>
     (\<forall>l ts t. seqs st l = Some ts \<longrightarrow> t \<in> set ts \<longrightarrow>
        (\<exists>i s r x. tv st t = Some (i, s, r) \<and> timerLists st l = Some x \<and> MathTrunc i = listMsecs x)) \<and>
     (\<forall>t v. tv st t = Some v \<longrightarrow> timer_ok v)"

definition store_ok :: "timers_state \<Rightarrow> bool" where
  "store_ok st \<longleftrightarrow> dom (timeouts st) \<subseteq> {..< nextAddr st} \<and> dom (timerLists st) \<subseteq> {..< nextAddr st} \<and>
     dom (timeouts st) \<inter> dom (timerLists st) = {}"

definition tinv :: "timers_state \<Rightarrow> bool" where
  "tinv st \<longleftrightarrow> seqs_of (lnks st) (seqs st) \<and> lists_ok st \<and> queue_ok st \<and> members_ok st \<and> store_ok st"

lemmas tinv_defs = tinv_def lists_ok_def queue_ok_def members_ok_def store_ok_def

lemma tinv_init: "tinv (timers_init now)"
proof -
  have m: "mapped (timers_init now) = {}" by (simp add: mapped_def timers_init_def)
  then have "seqs (timers_init now) = Map.empty" by (auto simp: seqs_def)
  moreover have "lnks (timers_init now) = no_links" by (simp add: timers_init_def no_links_def)
  ultimately have "seqs_of (lnks (timers_init now)) (seqs (timers_init now))" "members_ok (timers_init now)"
    using seqs_of_none by (auto simp: members_ok_def tv_def timers_init_def)
  moreover have "queue_ok (timers_init now)"
  proof -
    have "timerListQueue (timers_init now) = new_pq True" by (simp add: timers_init_def)
    moreover have "hasSetPosition (new_pq True)" by (simp add: new_pq_def)
    moreover have "elems (pq_heap (new_pq True :: nat pq)) = {#}" by (simp add: new_pq_def elems_def)
    moreover have "tq.pq_inv (timerLists (timers_init now)) (new_pq True)" by (rule tq.pq_inv_new)
    ultimately show ?thesis using m by (simp add: queue_ok_def queued_def)
  qed
  ultimately show ?thesis by (simp add: tinv_def lists_ok_def store_ok_def timers_init_def)
qed

section \<open>How a state may change\<close>

text \<open>The timers of a list that are due.\<close>

definition due :: "int \<Rightarrow> timers_state \<Rightarrow> nat \<Rightarrow> nat set" where
  "due now st l = {t. \<exists>ts i s r x. seqs st l = Some ts \<and> t \<in> set ts \<and> tv st t = Some (i, s, r) \<and>
     timerLists st l = Some x \<and> listMsecs x \<le> now - s}"

text \<open>The lists stay as they are, lists that come into the queue expire after \<open>b\<close>, and no timer becomes due at a time up to \<open>b\<close>.\<close>

definition adv_at :: "int \<Rightarrow> timers_state \<Rightarrow> timers_state \<Rightarrow> bool" where
  "adv_at b st st' \<longleftrightarrow> (tinv st \<longrightarrow>
     tinv st' \<and> clock st \<le> clock st' \<and> timerLists st \<subseteq>\<^sub>m timerLists st' \<and>
     (\<forall>l \<in># queued st'. l \<in># queued st \<or> timerLists st l = None \<and> (\<exists>x. timerLists st' l = Some x \<and> b < expiry x)) \<and>
     (\<forall>now \<le> b. \<forall>l. due now st' l \<subseteq> due now st l))"

definition adv :: "timers_state \<Rightarrow> timers_state \<Rightarrow> bool" where
  "adv st st' \<longleftrightarrow> adv_at (clock st) st st'"

lemma adv_at_refl: "adv_at b st st"
  by (simp add: adv_at_def)

lemma adv_at_trans:
  assumes a: "adv_at b st st'" and c: "adv_at b st' st''" shows "adv_at b st st''"
proof (cases "tinv st")
  case True
  have 1: "tinv st'" "clock st \<le> clock st'" "timerLists st \<subseteq>\<^sub>m timerLists st'"
    "\<forall>l \<in># queued st'. l \<in># queued st \<or> timerLists st l = None \<and> (\<exists>x. timerLists st' l = Some x \<and> b < expiry x)"
    "\<forall>now \<le> b. \<forall>l. due now st' l \<subseteq> due now st l" using a True by (simp_all add: adv_at_def)
  have 2: "tinv st''" "clock st' \<le> clock st''" "timerLists st' \<subseteq>\<^sub>m timerLists st''"
    "\<forall>l \<in># queued st''. l \<in># queued st' \<or> timerLists st' l = None \<and> (\<exists>x. timerLists st'' l = Some x \<and> b < expiry x)"
    "\<forall>now \<le> b. \<forall>l. due now st'' l \<subseteq> due now st' l" using c 1(1) by (simp_all add: adv_at_def)
  have mono: "timerLists st' l = Some x \<Longrightarrow> timerLists st'' l = Some x" for l x using 2(3) by (auto simp: map_le_def dom_def)
  have none: "timerLists st' l = None \<Longrightarrow> timerLists st l = None" for l using 1(3) by (metis domIff map_le_def)
  have "l \<in># queued st \<or> timerLists st l = None \<and> (\<exists>x. timerLists st'' l = Some x \<and> b < expiry x)" if "l \<in># queued st''" for l
    using 1(4) 2(4) mono none that by blast
  moreover have "\<forall>now \<le> b. \<forall>l. due now st'' l \<subseteq> due now st l" using 1(5) 2(5) by blast
  ultimately show ?thesis using 1(2) 2(1,2) map_le_trans [OF 1(3) 2(3)] unfolding adv_at_def by (meson order_trans)
qed (simp add: adv_at_def)

lemma adv_at_mono: "adv_at b st st' \<Longrightarrow> c \<le> b \<Longrightarrow> adv_at c st st'"
  unfolding adv_at_def by (meson order_trans order.strict_trans1)

lemma adv_trans: "adv st st' \<Longrightarrow> adv st' st'' \<Longrightarrow> adv st st''"
proof -
  assume a: "adv st st'" "adv st' st''"
  show ?thesis
  proof (cases "tinv st")
    case True
    then have "clock st \<le> clock st'" using a(1) by (simp add: adv_def adv_at_def)
    then show ?thesis using a adv_at_trans adv_at_mono unfolding adv_def by blast
  qed (simp add: adv_def adv_at_def)
qed

text \<open>Changes the structures do not see.\<close>

lemma adv_at_inert:
  assumes "tv st' = tv st" "timerLists st' = timerLists st" "lnks st' = lnks st" "timerListMap st' = timerListMap st"
    "timerListQueue st' = timerListQueue st" "timerListId st' = timerListId st" "nextAddr st \<le> nextAddr st'" "clock st \<le> clock st'"
  shows "adv_at b st st'"
proof -
  have m: "mapped st' = mapped st" "seqs st' = seqs st" "queued st' = queued st"
    using assms by (auto simp: mapped_def seqs_def queued_def)
  have "tinv st \<Longrightarrow> tinv st'" using assms unfolding tinv_defs m tv_dom by auto
  then show ?thesis using assms m by (simp add: adv_at_def due_def)
qed

lemma tv_upd: "(\<And>x. idleTimeout (f x) = idleTimeout x \<and> idleStart (f x) = idleStart x \<and> repeatAfter (f x) = repeatAfter x) \<Longrightarrow>
    tv (upd_timeout t f st) = tv st"
  by (auto simp: tv_def fun_eq_iff option.map_comp comp_def)

section \<open>Making and linking timers\<close>

lemma seqs_eq:
  assumes "seqs_of (lnks st) A" "dom A = mapped st" shows "seqs st = A"
proof
  fix l show "seqs st l = A l"
    using seqs_of_seq_at [OF assms(1), of l] assms(2) by (cases "A l") (auto simp: seqs_def)
qed

lemma seqs_dom: "dom (seqs st) = mapped st"
  by (auto simp: seqs_def dom_def)

lemma mapped_list: "tinv st \<Longrightarrow> l \<in> mapped st \<Longrightarrow> \<exists>m x. timerListMap st m = Some l \<and> timerLists st l = Some x \<and> listMsecs x = m \<and> 1 \<le> m"
  by (auto simp: tinv_defs mapped_def ran_def)

lemma mapped_msecs: "tinv st \<Longrightarrow> timerListMap st m = Some l \<Longrightarrow> \<exists>x. timerLists st l = Some x \<and> listMsecs x = m"
  by (simp add: tinv_def lists_ok_def)

lemma seqs_bounds:
  assumes "tinv st" "seqs st l = Some ts"
  shows "l < nextAddr st" "timeouts st l = None" "t \<in> set ts \<Longrightarrow> t < nextAddr st \<and> timerLists st t = None"
proof -
  have l: "l \<in> mapped st" using assms(2) by (auto simp: seqs_def split: if_splits)
  then have "l \<in> dom (timerLists st)" using mapped_list [OF assms(1) l] by auto
  then show "l < nextAddr st" "timeouts st l = None" using assms(1) by (auto simp: tinv_defs)
  assume "t \<in> set ts"
  then have "t \<in> dom (timeouts st)" using assms unfolding tinv_defs by (fastforce simp: tv_def)
  then show "t < nextAddr st \<and> timerLists st t = None" using assms(1) by (auto simp: tinv_defs)
qed

lemma list_msecs: "tinv st \<Longrightarrow> seqs st l = Some ts \<Longrightarrow> \<exists>x. timerLists st l = Some x \<and> 1 \<le> listMsecs x"
  using mapped_list by (fastforce simp: seqs_def split: if_splits)

text \<open>A fresh timer is in no list.\<close>

lemma adv_new_timer:
  assumes st': "lnks st' = ll_init (nextAddr st) (lnks st)" "tv st' = (tv st)(nextAddr st \<mapsto> v)" "timer_ok v"
    "timerLists st' = timerLists st" "timerListMap st' = timerListMap st" "timerListQueue st' = timerListQueue st"
    "timerListId st' = timerListId st" "nextAddr st' = Suc (nextAddr st)" "clock st' = clock st"
  shows "adv_at b st st'"
proof (cases "tinv st")
  case inv: True
  let ?t = "nextAddr st"
  have m: "mapped st' = mapped st" "queued st' = queued st" using st' by (simp_all add: mapped_def queued_def)
  have nt: "l \<noteq> ?t \<and> ?t \<notin> set ts" if "seqs st l = Some ts" for l ts using seqs_bounds [OF inv that] by blast
  have so: "seqs_of (lnks st') (seqs st)" unfolding st'
    by (rule seqs_of_self) (use inv nt in \<open>auto simp: tinv_def\<close>)
  then have sq: "seqs st' = seqs st" using seqs_eq m seqs_dom by metis
  have "members_ok st'" using inv st' nt unfolding tinv_def members_ok_def sq by (auto split: if_splits)
  moreover have "dom (timeouts st') = insert ?t (dom (timeouts st))" unfolding tv_dom st' by simp
  then have "store_ok st'" using inv st' unfolding tinv_def store_ok_def by (auto simp: less_Suc_eq)
  moreover have "lists_ok st'" "queue_ok st'" using inv st' m unfolding tinv_def lists_ok_def queue_ok_def by simp_all
  ultimately have "tinv st'" using so sq by (simp add: tinv_def)
  moreover have "due now st' l \<subseteq> due now st l" for now l using nt by (auto simp: due_def sq st')
  ultimately show ?thesis using st' m by (simp add: adv_at_def)
qed (simp add: adv_at_def)

lemma timeout_after_least: "1 \<le> fst (timeout_after a st)"
  by (auto simp: timeout_after_def split: option.split js_number.split)

lemma timeout_after_inert:
  "tv (snd (timeout_after a st)) = tv st" "timerLists (snd (timeout_after a st)) = timerLists st" "lnks (snd (timeout_after a st)) = lnks st"
  "timerListMap (snd (timeout_after a st)) = timerListMap st" "timerListQueue (snd (timeout_after a st)) = timerListQueue st"
  "timerListId (snd (timeout_after a st)) = timerListId st" "clock (snd (timeout_after a st)) = clock st"
  by (auto simp: timeout_after_def host_call_def tv_def fun_eq_iff split: option.split js_number.split)

lemma core_fields [simp]:
  "timerLists (host_call c st) = timerLists st" "lnks (host_call c st) = lnks st" "timerListMap (host_call c st) = timerListMap st"
  "timerListQueue (host_call c st) = timerListQueue st" "timerListId (host_call c st) = timerListId st" "clock (host_call c st) = clock st"
  "timerLists (incRefCount st) = timerLists st" "lnks (incRefCount st) = lnks st" "timerListMap (incRefCount st) = timerListMap st"
  "timerListQueue (incRefCount st) = timerListQueue st" "timerListId (incRefCount st) = timerListId st" "clock (incRefCount st) = clock st"
  "timerLists (decRefCount st) = timerLists st" "lnks (decRefCount st) = lnks st" "timerListMap (decRefCount st) = timerListMap st"
  "timerListQueue (decRefCount st) = timerListQueue st" "timerListId (decRefCount st) = timerListId st" "clock (decRefCount st) = clock st"
  "timerLists (upd_timeout t f st) = timerLists st" "lnks (upd_timeout t f st) = lnks st" "timerListMap (upd_timeout t f st) = timerListMap st"
  "timerListQueue (upd_timeout t f st) = timerListQueue st" "timerListId (upd_timeout t f st) = timerListId st" "clock (upd_timeout t f st) = clock st"
  by (auto simp: host_call_def incRefCount_def decRefCount_def upd_timeout_def Let_def)

lemma new_Timeout_adv: "adv_at b st (snd (new_Timeout cb a rep ref st))"
proof -
  obtain ms s where p: "timeout_after a st = (ms, s)" by (cases "timeout_after a st")
  note f = timeout_after_inert [of a st, unfolded p snd_conv] timeout_after_fields(3) [of a st, unfolded p snd_conv]
  have ms: "1 \<le> ms" using timeout_after_least [of a st] p by simp
  have tv: "tv (snd (new_Timeout cb a rep ref st)) = (tv st)(nextAddr st \<mapsto> (ms, 0, if rep then Some ms else None))"
    using new_Timeout_timeouts(2) [of cb a rep ref st] p by (auto simp: tv_def fun_eq_iff)
  show ?thesis
    by (rule adv_new_timer [OF _ tv])
       (use ms f in \<open>auto simp: timer_ok_def new_Timeout_def p initAsyncResource_def Let_def\<close>)
qed

text \<open>A timer's start is set to a later time.\<close>

lemma tinvD:
  assumes "tinv st"
  shows "seqs_of (lnks st) (seqs st)" "lists_ok st" "queue_ok st" "members_ok st" "store_ok st"
  using assms by (simp_all add: tinv_def)

lemma upd_start_adv:
  assumes "b \<le> start"
  shows "adv_at b st (upd_timeout t (\<lambda>x. x\<lparr>idleStart := start\<rparr>) st)"
proof (cases "tinv st")
  case inv: True
  let ?st = "upd_timeout t (\<lambda>x. x\<lparr>idleStart := start\<rparr>) st"
  have m: "mapped ?st = mapped st" "seqs ?st = seqs st" "queued ?st = queued st"
    by (simp_all add: mapped_def seqs_def queued_def fun_eq_iff)
  have tv: "tv ?st u = (if u = t then map_option (\<lambda>(i, s, r). (i, start, r)) (tv st u) else tv st u)" for u
    by (auto simp: tv_def option.map_comp comp_def)
  have "\<exists>i s r x. tv ?st u = Some (i, s, r) \<and> timerLists ?st l = Some x \<and> MathTrunc i = listMsecs x" if sl: "seqs st l = Some ts" "u \<in> set ts" for l ts u
  proof -
    obtain i s r x where "tv st u = Some (i, s, r)" "timerLists st l = Some x" "MathTrunc i = listMsecs x"
      using tinvD(4) [OF inv] sl unfolding members_ok_def by blast
    then have "tv ?st u = Some (i, if u = t then start else s, r)" by (cases "u = t") (auto simp: tv)
    then show ?thesis using \<open>timerLists st l = Some x\<close> \<open>MathTrunc i = listMsecs x\<close> by simp
  qed
  moreover have "timer_ok v" if "tv ?st u = Some v" for u v
    using tinvD(4) [OF inv] that unfolding members_ok_def tv by (fastforce simp: timer_ok_def split: if_splits)
  ultimately have "members_ok ?st" unfolding members_ok_def m by blast
  moreover have "store_ok ?st" using tinvD(5) [OF inv] by (auto simp: store_ok_def)
  ultimately have "tinv ?st" using inv m by (simp add: tinv_def lists_ok_def queue_ok_def)
  moreover have "due now ?st l \<subseteq> due now st l" if "now \<le> b" for now l
  proof
    fix u assume u: "u \<in> due now ?st l"
    then obtain ts i s r x where d: "seqs st l = Some ts" "u \<in> set ts" "tv ?st u = Some (i, s, r)" "timerLists st l = Some x" "listMsecs x \<le> now - s"
      by (auto simp: due_def m)
    have "1 \<le> listMsecs x" using list_msecs [OF inv d(1)] d(4) by auto
    then have "u \<noteq> t" using d(3,5) that assms by (auto simp: tv)
    then show "u \<in> due now st l" using d by (auto simp: due_def tv)
  qed
  ultimately show ?thesis using m by (simp add: adv_at_def)
qed (simp add: adv_at_def)

text \<open>Only the links change.\<close>

lemma adv_links:
  assumes A: "tinv st \<Longrightarrow> seqs_of s A \<and> dom A = mapped st"
    and mem: "\<And>l ts t. tinv st \<Longrightarrow> A l = Some ts \<Longrightarrow> t \<in> set ts \<Longrightarrow> (\<exists>ts'. seqs st l = Some ts' \<and> t \<in> set ts') \<or>
      (\<exists>i s r x. tv st t = Some (i, s, r) \<and> timerLists st l = Some x \<and> MathTrunc i = listMsecs x \<and> b \<le> s)"
  shows "adv_at b st (st\<lparr>lnks := s\<rparr>)"
proof (cases "tinv st")
  case inv: True
  let ?st = "st\<lparr>lnks := s\<rparr>"
  have m: "mapped ?st = mapped st" "queued ?st = queued st" "tv ?st = tv st"
    by (simp_all add: mapped_def queued_def tv_def fun_eq_iff)
  have sq: "seqs ?st = A" using A inv m seqs_eq [of ?st A] by simp
  have "\<exists>i s r x. tv st t = Some (i, s, r) \<and> timerLists st l = Some x \<and> MathTrunc i = listMsecs x" if "A l = Some ts" "t \<in> set ts" for l ts t
    using mem [OF inv that] tinvD(4) [OF inv] unfolding members_ok_def by metis
  then have "members_ok ?st" using tinvD(4) [OF inv] unfolding members_ok_def m sq by simp
  then have "tinv ?st" using inv m A sq by (simp add: tinv_def lists_ok_def queue_ok_def store_ok_def)
  moreover have "due now ?st l \<subseteq> due now st l" if "now \<le> b" for now l
  proof
    fix u assume u: "u \<in> due now ?st l"
    then obtain ts i s r x where d: "A l = Some ts" "u \<in> set ts" "tv st u = Some (i, s, r)" "timerLists st l = Some x" "listMsecs x \<le> now - s"
      by (auto simp: due_def m sq)
    have "l \<in> mapped st" using A inv d(1) by auto
    then have "1 \<le> listMsecs x" using mapped_list [OF inv] d(4) by fastforce
    then show "u \<in> due now st l" using mem [OF inv d(1,2)] d that by (auto simp: due_def)
  qed
  ultimately show ?thesis using m by (simp add: adv_at_def)
qed (simp add: adv_at_def)

text \<open>A new list of the map and of the queue.\<close>

lemma new_list_adv:
  assumes none: "timerListMap st m = None" and m: "1 \<le> m" and b: "b \<le> start"
    and st': "timeouts st' = timeouts st" "nextAddr st' = nextAddr st + 1" "lnks st' = ll_init (nextAddr st) (lnks st)"
      "timerListId st' = timerListId st + 1" "timerListMap st' = (timerListMap st)(m \<mapsto> nextAddr st)" "clock st' = clock st"
      "timerLists st' = (timerLists st)(nextAddr st \<mapsto> \<lparr>expiry = start + m, listId = timerListId st, listMsecs = m\<rparr>)"
      "timerListQueue st' = pq_insert (compareTimersLists (timerLists st')) (nextAddr st) (timerListQueue st)"
  shows "adv_at b st st'"
proof (cases "tinv st")
  case inv: True
  let ?l = "nextAddr st"
  have mp: "mapped st' = insert ?l (mapped st)" using none by (simp add: st' mapped_def ran_map_upd)
  have fresh: "timeouts st ?l = None" "timerLists st ?l = None" using tinvD(5) [OF inv] by (auto simp: store_ok_def)
  have nl: "?l \<notin> mapped st" using mapped_list [OF inv] fresh by fastforce
  have tv: "tv st' = tv st" by (simp add: fun_eq_iff tv_def st')
  have so: "seqs_of (lnks st') ((seqs st)(?l \<mapsto> []))" unfolding st'
    by (rule seqs_of_init) (use tinvD(1) [OF inv] nl seqs_bounds(3) [OF inv] in \<open>auto simp flip: seqs_dom\<close>)
  have sq: "seqs st' = (seqs st)(?l \<mapsto> [])" by (rule seqs_eq [OF so]) (simp add: mp seqs_dom)
  have q: "tq.pq_inv (timerLists st) (timerListQueue st)" "hasSetPosition (timerListQueue st)" "finite (mapped st)" "queued st = mset_set (mapped st)"
    using tinvD(3) [OF inv] by (auto simp: queue_ok_def)
  have nq: "?l \<notin># queued st" using q nl by simp
  have "tq.pq_inv (timerLists st') (timerListQueue st)"
    by (rule pq_inv_cong [OF q(1)]) (use nq in \<open>auto simp: st' list_key_def queued_def\<close>)
  note ins = tq.pq_insert_ok [OF this, of ?l]
  have qd: "queued st' = add_mset ?l (queued st)" "tq.pq_inv (timerLists st') (timerListQueue st')" "hasSetPosition (timerListQueue st')"
    using ins nq q(2) by (simp_all add: st'(8) queued_def)
  have "queue_ok st'" using qd q nl by (simp add: queue_ok_def mp)
  moreover have "members_ok st'" using tinvD(4) [OF inv] fresh unfolding members_ok_def sq tv by (fastforce simp: st' split: if_splits)
  moreover have "store_ok st'" using tinvD(5) [OF inv] fresh by (auto simp: store_ok_def st' less_Suc_eq)
  moreover have "lists_ok st'"
  proof -
    have old: "timerListMap st k = Some l \<Longrightarrow> 1 \<le> k \<and> (\<exists>x. timerLists st l = Some x \<and> listMsecs x = k)"
      "timerLists st l = Some x \<Longrightarrow> listId x < timerListId st"
      "timerLists st l = Some x \<Longrightarrow> timerLists st l' = Some x' \<Longrightarrow> listId x = listId x' \<Longrightarrow> l = l'" for k l l' x x'
      using tinvD(2) [OF inv] unfolding lists_ok_def by blast+
    have "1 \<le> k \<and> (\<exists>x. timerLists st' l = Some x \<and> listMsecs x = k)" if "timerListMap st' k = Some l" for k l
      using that old(1) m fresh by (cases "k = m") (fastforce simp: st')+
    moreover have "listId x < timerListId st'" if "timerLists st' l = Some x" for l x
      using that old(2) [of l x] by (auto simp: st' split: if_splits)
    moreover have "l = l'" if "timerLists st' l = Some x" "timerLists st' l' = Some x'" "listId x = listId x'" for l l' x x'
      using that old(2) [of l x] old(2) [of l' x'] old(3) [of l x l' x'] by (auto simp: st' split: if_splits)
    ultimately show ?thesis unfolding lists_ok_def by blast
  qed
  ultimately have "tinv st'" using so sq by (simp add: tinv_def)
  moreover have "due now st' l \<subseteq> due now st l" for now l using nl by (auto simp: due_def sq tv st' seqs_def split: if_splits)
  moreover have "timerLists st \<subseteq>\<^sub>m timerLists st'" using fresh by (auto simp: st' map_le_def)
  moreover have "b < start + m" using m b by simp
  ultimately show ?thesis using qd(1) fresh st'(7) st'(6) by (auto simp: adv_at_def)
qed (simp add: adv_at_def)

lemma list_for_adv:
  assumes "1 \<le> m" "b \<le> start" shows "adv_at b st (snd (list_for m start st))"
proof (cases "timerListMap st m")
  case None
  show ?thesis by (rule new_list_adv [OF None assms]) (simp_all add: None list_for_def new_TimersList_def Let_def host_call_def)
qed (simp add: list_for_def adv_at_refl)

lemma list_for_map: "timerListMap (snd (list_for m start st)) m = Some (fst (list_for m start st))"
  by (auto simp: list_for_def new_TimersList_def Let_def split: option.split)

text \<open>Inserting a timer for its own duration at a time that is not before \<open>b\<close>.\<close>

lemma append_adv:
  assumes l: "timerListMap st m = Some l" and t: "tv st t = Some (i, s, r)" "MathTrunc i = m" "b \<le> s"
  shows "adv_at b st (st\<lparr>lnks := snd (ll_append l t (lnks st))\<rparr>)" "tinv st \<Longrightarrow> fst (ll_append l t (lnks st)) = Inr ()"
    and "tinv st \<Longrightarrow> idleNext (snd (ll_append l t (lnks st))) t \<noteq> None"
proof -
  let ?A = "(without_item t (seqs st))(l \<mapsto> contents (without_item t (seqs st)) l @ [t])"
  have *: "\<exists>s'. ll_append l t (lnks st) = (Inr (), s') \<and> seqs_of s' ?A" "seqs st l \<noteq> None" if inv: "tinv st"
  proof -
    have lm: "l \<in> mapped st" using l by (auto simp: mapped_def ran_def)
    have "t \<in> dom (timeouts st)" using t(1) by (simp add: tv_dom domIff)
    then have "timerLists st t = None" using tinvD(5) [OF inv] by (auto simp: store_ok_def)
    then have "seqs st t = None" using mapped_list [OF inv, of t] by (auto simp: seqs_def)
    then show "\<exists>s'. ll_append l t (lnks st) = (Inr (), s') \<and> seqs_of s' ?A" "seqs st l \<noteq> None"
      using seqs_of_append [OF tinvD(1) [OF inv], of l t] lm by (auto simp: seqs_def)
  qed
  show "tinv st \<Longrightarrow> fst (ll_append l t (lnks st)) = Inr ()" using * by auto
  show "idleNext (snd (ll_append l t (lnks st))) t \<noteq> None" if inv: "tinv st"
  proof -
    obtain s' where s': "ll_append l t (lnks st) = (Inr (), s')" "seqs_of s' ?A" using * [OF inv] by blast
    have "ring s' l (contents (without_item t (seqs st)) l @ [t])" by (rule seqs_of_ring [OF s'(2)]) simp
    from ring_linked [OF this, of t] s'(1) show ?thesis by simp
  qed
  show "adv_at b st (st\<lparr>lnks := snd (ll_append l t (lnks st))\<rparr>)"
  proof (rule adv_links [where A = ?A])
    assume inv: "tinv st"
    then show "seqs_of (snd (ll_append l t (lnks st))) ?A \<and> dom ?A = mapped st"
      using * [OF inv] seqs_dom [of st] by (auto simp: contents_without)
    fix k ts u assume k: "?A k = Some ts" "u \<in> set ts"
    obtain x where x: "timerLists st l = Some x" "listMsecs x = m" using tinvD(2) [OF inv] l unfolding lists_ok_def by blast
    consider "u = t" "k = l" | ts' where "seqs st k = Some ts'" "u \<in> set ts'"
      using k * [OF inv] set_remove1_subset by (cases "k = l") (fastforce simp: without_item_def contents_def split: option.splits)+
    then show "(\<exists>ts'. seqs st k = Some ts' \<and> u \<in> set ts') \<or>
        (\<exists>i s r x. tv st u = Some (i, s, r) \<and> timerLists st k = Some x \<and> MathTrunc i = listMsecs x \<and> b \<le> s)"
    proof cases
      case 1 then show ?thesis using t x by auto
    qed blast
  qed
qed

lemma MathTrunc_least: "1 \<le> r \<Longrightarrow> 1 \<le> MathTrunc r"
  by (simp add: MathTrunc_def)

lemma timer_insert_adv:
  assumes x: "timeouts st t = Some x" "1 \<le> idleTimeout x" and b: "b \<le> start"
  shows "adv_at b st (snd (timer_insert t (idleTimeout x) start st))"
    and "tinv st \<Longrightarrow> fst (timer_insert t (idleTimeout x) start st) = Inr ()"
    and "tinv st \<Longrightarrow> idleNext (lnks (snd (timer_insert t (idleTimeout x) start st))) t \<noteq> None"
proof -
  let ?u = "upd_timeout t (\<lambda>x. x\<lparr>idleStart := start\<rparr>) st"
  obtain l s where ls: "list_for (MathTrunc (idleTimeout x)) start ?u = (l, s)" by fastforce
  have u: "adv_at b st ?u" by (rule upd_start_adv [OF b])
  have s: "adv_at b ?u s" using list_for_adv [OF MathTrunc_least [OF x(2)] b, of ?u] ls by simp
  have m: "timerListMap s (MathTrunc (idleTimeout x)) = Some l" using list_for_map [of "MathTrunc (idleTimeout x)" start ?u] ls by simp
  have "timeouts s = timeouts ?u" using list_for_timeouts(1) [of "MathTrunc (idleTimeout x)" start ?u] ls by simp
  then have t: "tv s t = Some (idleTimeout x, start, repeatAfter x)" using x by (simp add: tv_def)
  note a = append_adv [OF m t refl b]
  obtain r k where rk: "ll_append l t (lnks s) = (r, k)" by fastforce
  have e: "timer_insert t (idleTimeout x) start st = (r, s\<lparr>lnks := k\<rparr>)" by (simp add: timer_insert_def ls rk Let_def)
  show "adv_at b st (snd (timer_insert t (idleTimeout x) start st))"
    using adv_at_trans [OF adv_at_trans [OF u s] a(1)] e rk by simp
  assume "tinv st"
  then have "tinv s" using adv_at_trans [OF u s] by (simp add: adv_at_def)
  then show "fst (timer_insert t (idleTimeout x) start st) = Inr ()" "idleNext (lnks (snd (timer_insert t (idleTimeout x) start st))) t \<noteq> None"
    using a(2,3) e rk by simp_all
qed

section \<open>Taking timers out\<close>

lemma unlink_adv:
  assumes "timeouts st t \<noteq> None"
  shows "adv_at b st (st\<lparr>lnks := ll_remove t (lnks st)\<rparr>)" "tinv st \<Longrightarrow> seqs (st\<lparr>lnks := ll_remove t (lnks st)\<rparr>) = without_item t (seqs st)"
    and "tinv st \<Longrightarrow> idleNext (ll_remove t (lnks st)) t = None \<and> idlePrev (ll_remove t (lnks st)) t = None"
proof -
  let ?st = "st\<lparr>lnks := ll_remove t (lnks st)\<rparr>"
  have n: "seqs st t = None" if "tinv st"
    using that assms mapped_list [OF that, of t] tinvD(5) [OF that] by (auto simp: seqs_def store_ok_def)
  have *: "seqs_of (ll_remove t (lnks st)) (without_item t (seqs st)) \<and> dom (without_item t (seqs st)) = mapped st" if "tinv st"
    using seqs_of_remove [OF tinvD(1) [OF that] n [OF that]] by (simp add: contents_without seqs_dom)
  show "adv_at b st ?st"
    by (rule adv_links [OF *]) (use set_remove1_subset in \<open>fastforce simp: without_item_def\<close>)+
  show "seqs ?st = without_item t (seqs st)" if "tinv st"
    using * [OF that] seqs_eq [of ?st "without_item t (seqs st)"] by (simp add: mapped_def)
  show "idleNext (ll_remove t (lnks st)) t = None \<and> idlePrev (ll_remove t (lnks st)) t = None" if inv: "tinv st"
    using seqs_item [OF tinvD(1) [OF inv] n [OF inv]] tinvD(1) [OF inv] forest_detach(2,3) [of "lnks st" "dom (seqs st)" "contents (seqs st)" t]
    unfolding seqs_of_def by blast
qed

lemma position_of:
  assumes "tq.pq_inv ls q" "hasSetPosition q" "l \<in># elems (pq_heap q)"
  shows "\<exists>p. positions q l = Some p \<and> 1 \<le> p \<and> p \<le> pq_size q \<and> pq_heap q ! p = Some l"
proof -
  obtain p where p: "p < length (pq_heap q)" "pq_heap q ! p = Some l"
    using assms(3) by (auto simp: elems_def in_set_conv_nth)
  then have "1 \<le> p \<and> p \<le> pq_size q" using assms(1) by (auto simp: tq.pq_inv_def filled_def)
  moreover from this have "positions q l = Some p" using assms(1,2) p by (auto simp: tq.pq_inv_def placed_but_def)
  ultimately show ?thesis using p by blast
qed

text \<open>A list leaves the map and the queue.\<close>

lemma map_inj: "tinv st \<Longrightarrow> timerListMap st m = Some l \<Longrightarrow> mapped (st\<lparr>timerListMap := (timerListMap st)(m := None), timerListQueue := q\<rparr>) = mapped st - {l}"
proof -
  assume inv: "tinv st" and l: "timerListMap st m = Some l"
  have u: "k = m" if "timerListMap st k = Some l" for k
    using that l mapped_msecs [OF inv] by (metis option.inject)
  have "y \<in> ran ((timerListMap st)(m := None)) \<longleftrightarrow> y \<in> ran (timerListMap st) \<and> y \<noteq> l" for y
    unfolding ran_def mem_Collect_eq fun_upd_apply by (metis l u option.distinct(1) option.inject)
  then show ?thesis by (simp add: mapped_def set_eq_iff)
qed

lemma drop_list_adv:
  assumes l: "timerListMap st m = Some l"
    and st': "st' = st\<lparr>timerListMap := (timerListMap st)(m := None), timerListQueue := q\<rparr>"
    and empty: "tinv st \<Longrightarrow> seqs st l = Some []"
    and q: "tinv st \<Longrightarrow> tq.pq_inv (timerLists st) q \<and> hasSetPosition q \<and> elems (pq_heap q) = queued st - {#l#}"
  shows "adv_at b st st'" "tinv st \<Longrightarrow> seqs st' = (seqs st)(l := None)"
proof -
  have *: "seqs_of (lnks st') ((seqs st)(l := None))" "mapped st' = mapped st - {l}" if inv: "tinv st"
    using map_inj [OF inv l] seqs_of_forget [OF tinvD(1) [OF inv] empty [OF inv]] by (simp_all add: st')
  show sq: "seqs st' = (seqs st)(l := None)" if inv: "tinv st"
    by (rule seqs_eq [OF *(1) [OF inv]]) (simp add: * [OF inv] seqs_dom)
  have tv: "tv st' = tv st" and tl: "timerLists st' = timerLists st" by (simp_all add: st' tv_def fun_eq_iff)
  have "tinv st'" if inv: "tinv st"
  proof -
    have "queued st' = queued st - {#l#}" using q [OF inv] by (simp add: queued_def st')
    moreover have "mset_set (mapped st - {l}) = mset_set (mapped st) - {#l#}"
      using l tinvD(3) [OF inv] mset_set_Diff [of "mapped st" "{l}"] by (auto simp: queue_ok_def mapped_def ran_def)
    ultimately have "queue_ok st'" using q [OF inv] tinvD(3) [OF inv] *(2) [OF inv]
      by (simp add: queue_ok_def) (simp add: st')
    moreover have "members_ok st'" using tinvD(4) [OF inv] unfolding members_ok_def sq [OF inv] tv
      by (auto simp: st' split: if_splits)
    moreover have "lists_ok st'" using tinvD(2) [OF inv] unfolding lists_ok_def st' by simp
    moreover have "store_ok st'" using tinvD(5) [OF inv] by (simp add: store_ok_def st')
    ultimately show ?thesis using * [OF inv] sq [OF inv] by (simp add: tinv_def)
  qed
  moreover have "due now st' k \<subseteq> due now st k" if "tinv st" for now k
    using sq [OF that] tv tl by (auto simp: due_def split: if_splits)
  moreover have "k \<in># queued st" if "tinv st" "k \<in># queued st'" for k
    using that q [OF that(1)] in_diffD by (force simp: queued_def st')
  ultimately show "adv_at b st st'" by (auto simp: adv_at_def st')
qed

lemma drop_empty_adv:
  "adv_at b st (drop_empty_list m st)"
  "tinv st \<Longrightarrow> seqs (drop_empty_list m st) l = Some ts \<Longrightarrow> seqs st l = Some ts"
proof -
  have "adv_at b st (drop_empty_list m st) \<and> (tinv st \<longrightarrow> seqs (drop_empty_list m st) l = Some ts \<longrightarrow> seqs st l = Some ts)"
  proof (cases "\<exists>k. timerListMap st m = Some k \<and> ll_isEmpty k (lnks st)")
    case False
    then have "drop_empty_list m st = st" by (auto simp: drop_empty_list_def split: option.split)
    then show ?thesis by (simp add: adv_at_refl)
  next
    case True
    then obtain k where k: "timerListMap st m = Some k" "ll_isEmpty k (lnks st)" by blast
    let ?pos = "case positions (timerListQueue st) k of Some p \<Rightarrow> p | None \<Rightarrow> 0"
    let ?q = "removeAt (compareTimersLists (timerLists st)) ?pos (timerListQueue st)"
    let ?m = "case timerLists st k of Some x \<Rightarrow> listMsecs x | None \<Rightarrow> m"
    have e: "drop_empty_list m st = st\<lparr>timerListMap := (timerListMap st)(?m := None), timerListQueue := ?q\<rparr>"
      using k by (simp add: drop_empty_list_def Let_def)
    show ?thesis
    proof (cases "tinv st")
      case inv: True
      have mm: "?m = m" using tinvD(2) [OF inv] k(1) unfolding lists_ok_def by fastforce
      have km: "k \<in> mapped st" using k(1) by (auto simp: mapped_def ran_def)
      then have sk: "seqs st k = Some []"
        using isEmpty_ring [OF seqs_of_ring [OF tinvD(1) [OF inv], of k]] k(2) by (auto simp: seqs_def)
      have qk: "tq.pq_inv (timerLists st) (timerListQueue st)" "hasSetPosition (timerListQueue st)" "k \<in># elems (pq_heap (timerListQueue st))"
        using tinvD(3) [OF inv] km by (auto simp: queue_ok_def queued_def)
      obtain p where p: "positions (timerListQueue st) k = Some p" "1 \<le> p" "p \<le> pq_size (timerListQueue st)" "pq_heap (timerListQueue st) ! p = Some k"
        using position_of [OF qk] by blast
      have q: "tq.pq_inv (timerLists st) ?q \<and> hasSetPosition ?q \<and> elems (pq_heap ?q) = queued st - {#k#}"
        using tq.removeAt_ok [OF qk(1) p(2,3)] qk(2) p(1,4) by (simp add: queued_def)
      have e': "drop_empty_list m st = st\<lparr>timerListMap := (timerListMap st)(m := None), timerListQueue := ?q\<rparr>" using e mm by simp
      from drop_list_adv [OF k(1) e' sk q] show ?thesis by (auto split: if_splits)
    qed (simp add: adv_at_def)
  qed
  then show "adv_at b st (drop_empty_list m st)"
    "tinv st \<Longrightarrow> seqs (drop_empty_list m st) l = Some ts \<Longrightarrow> seqs st l = Some ts" by auto
qed

text \<open>A timer in no list may lose its duration.\<close>

lemma lose_duration_adv:
  assumes "tinv st \<Longrightarrow> (\<And>l ts. seqs st l = Some ts \<Longrightarrow> t \<notin> set ts)"
  shows "adv_at b st (upd_timeout t (\<lambda>x. x\<lparr>idleTimeout := -1\<rparr>) st)"
proof (cases "tinv st")
  case inv: True
  let ?st = "upd_timeout t (\<lambda>x. x\<lparr>idleTimeout := -1\<rparr>) st"
  have m: "mapped ?st = mapped st" "seqs ?st = seqs st" "queued ?st = queued st"
    by (simp_all add: mapped_def seqs_def queued_def fun_eq_iff)
  have tv: "tv ?st u = (if u = t then map_option (\<lambda>(i, s, r). (-1, s, r)) (tv st u) else tv st u)" for u
    by (auto simp: tv_def option.map_comp comp_def)
  have out: "u \<noteq> t" if "seqs st l = Some ts" "u \<in> set ts" for u l ts using assms [OF inv that(1)] that(2) by blast
  have "\<exists>i s r x. tv ?st u = Some (i, s, r) \<and> timerLists ?st l = Some x \<and> MathTrunc i = listMsecs x" if "seqs st l = Some ts" "u \<in> set ts" for l ts u
    using tinvD(4) [OF inv] that out [OF that] unfolding members_ok_def tv by simp
  moreover have "timer_ok v" if "tv ?st u = Some v" for u v
    using tinvD(4) [OF inv] that unfolding members_ok_def tv by (fastforce simp: timer_ok_def split: if_splits)
  ultimately have "members_ok ?st" unfolding members_ok_def m by blast
  moreover have "store_ok ?st" using tinvD(5) [OF inv] by (auto simp: store_ok_def)
  ultimately have "tinv ?st" using inv m by (simp add: tinv_def lists_ok_def queue_ok_def)
  moreover have "due now ?st l \<subseteq> due now st l" for now l using out by (auto simp: due_def m tv split: if_splits)
  ultimately show ?thesis using m by (simp add: adv_at_def)
qed (simp add: adv_at_def)

lemma forget_id_fields [simp]:
  "timeouts (forget_id x i st) = timeouts st" "timerLists (forget_id x i st) = timerLists st" "lnks (forget_id x i st) = lnks st"
  "timerListMap (forget_id x i st) = timerListMap st" "timerListQueue (forget_id x i st) = timerListQueue st"
  "timerListId (forget_id x i st) = timerListId st" "nextAddr (forget_id x i st) = nextAddr st" "clock (forget_id x i st) = clock st"
  by (simp_all add: forget_id_def)

lemma tv_cong: "timeouts st' = timeouts st \<Longrightarrow> tv st' = tv st"
  by (simp add: tv_def fun_eq_iff)

lemma tv_upd_inert:
  assumes "timeouts st' = (timeouts st)(t := map_option f (timeouts st t))"
    and "\<And>x. idleTimeout (f x) = idleTimeout x \<and> idleStart (f x) = idleStart x \<and> repeatAfter (f x) = repeatAfter x"
  shows "tv st' = tv st"
  using assms by (auto simp: tv_def fun_eq_iff option.map_comp comp_def)

lemma unenroll_adv: "adv_at b st (unenroll t st)"
proof (cases "timeouts st t")
  case (Some x)
  show ?thesis
  proof (cases "destroyed x")
    case False
    define s1 where "s1 = forget_id x (asyncId x) (upd_timeout t (\<lambda>x. x\<lparr>destroyed := True\<rparr>) st)"
    define s2 where "s2 = s1\<lparr>lnks := ll_remove t (lnks s1)\<rparr>"
    define s3 where "s3 = (if refed x then decRefCount (drop_empty_list (MathTrunc (idleTimeout x)) s2) else s2)"
    have e: "unenroll t st = upd_timeout t (\<lambda>x. x\<lparr>idleTimeout := -1\<rparr>) s3"
      using Some False by (simp add: unenroll_def Let_def s1_def s2_def s3_def)
    have "tv s1 = tv st" by (rule tv_upd_inert [where t = t and f = "destroyed_update (\<lambda>_. True)"]) (simp_all add: s1_def)
    then have 1: "adv_at b st s1" by (rule adv_at_inert) (simp_all add: s1_def)
    have t1: "timeouts s1 t \<noteq> None" using Some by (simp add: s1_def)
    have 2: "adv_at b s1 s2" using unlink_adv(1) [OF t1] by (simp add: s2_def)
    define s2' where "s2' = (if refed x then drop_empty_list (MathTrunc (idleTimeout x)) s2 else s2)"
    have 3: "adv_at b s2 s2'" using drop_empty_adv(1) adv_at_refl by (simp add: s2'_def)
    have "adv_at b s2' s3" by (rule adv_at_inert) (simp_all add: s2'_def s3_def tv_def fun_eq_iff)
    note all = adv_at_trans [OF 1 adv_at_trans [OF 2 adv_at_trans [OF 3 this]]]
    show ?thesis
    proof (cases "tinv st")
      case inv: True
      have i: "tinv s1" "tinv s2" "tinv s2'" using inv 1 2 3 by (auto simp: adv_at_def)
      have s3: "seqs s3 = seqs s2'" by (simp add: fun_eq_iff s3_def s2'_def seqs_def mapped_def)
      have "seqs s2 = without_item t (seqs s1)" using unlink_adv(2) [OF t1 i(1)] by (simp add: s2_def)
      then have "t \<notin> set ts" if "seqs s2 l = Some ts" for l ts
        using that seqs_of_ring [OF tinvD(1) [OF i(1)], of l] by (auto simp: without_item_def ring_def)
      then have "t \<notin> set ts" if "seqs s3 l = Some ts" for l ts
        using that drop_empty_adv(2) [OF i(2), of "MathTrunc (idleTimeout x)" l ts] unfolding s3 s2'_def by (cases "refed x") simp_all
      then show ?thesis unfolding e by (intro adv_at_trans [OF all lose_duration_adv]) blast
    qed (simp add: adv_at_def)
  qed (simp add: Some unenroll_def adv_at_refl)
qed (simp add: unenroll_def adv_at_refl)

section \<open>Whatever a callback does\<close>

lemma clear_adv: "adv_at b st (clearTimeout arg st)"
proof -
  have "adv_at b st (unenroll t (upd_timeout t (\<lambda>x. x\<lparr>onTimeout := None\<rparr>) st))" for t
    by (rule adv_at_trans [OF adv_at_inert unenroll_adv]) (simp_all add: tv_upd)
  then show ?thesis by (auto simp: clearTimeout_def adv_at_refl split: clear_arg.split option.split)
qed

lemma ref_unref_adv: "adv_at b st (timeout_ref t st)" "adv_at b st (timeout_unref t st)"
  by (auto simp: timeout_ref_def timeout_unref_def Let_def adv_at_refl tv_upd split: option.split
    intro!: adv_at_inert tv_upd_inert [where t = t and f = "refed_update (\<lambda>_. r)" for r])

lemma toPrimitive_adv: "adv_at b st (snd (timeout_toPrimitive t st))"
  by (auto simp: timeout_toPrimitive_def adv_at_refl split: option.split
    intro!: adv_at_inert tv_upd_inert [where t = t and f = "hasPrimitive_update (\<lambda>_. True)"])

lemma retire_adv: "adv_at b st (retire t i st)"
proof (cases "timeouts st t")
  case (Some x)
  then show ?thesis
    by (intro adv_at_inert tv_upd_inert [where t = t and f = "destroyed_update (\<lambda>_. True)"]) (simp_all add: retire_def Let_def)
qed (simp add: retire_def adv_at_refl)

lemma core_initAsyncResource [simp]:
  "timerLists (initAsyncResource t st) = timerLists st" "lnks (initAsyncResource t st) = lnks st"
  "timerListMap (initAsyncResource t st) = timerListMap st" "timerListQueue (initAsyncResource t st) = timerListQueue st"
  "timerListId (initAsyncResource t st) = timerListId st" "clock (initAsyncResource t st) = clock st"
  "tv (initAsyncResource t st) = tv st" "nextAddr (initAsyncResource t st) = nextAddr st"
  by (auto simp: initAsyncResource_def tv_def fun_eq_iff option.map_comp comp_def)

lemma start_timer_adv: "adv_at (clock st) st (snd (start_timer (new_Timeout cb a rep ref st)))"
proof -
  obtain t s where n: "new_Timeout cb a rep ref st = (t, s)" by fastforce
  have s: "adv_at (clock st) st s" using new_Timeout_adv [of "clock st" st cb a rep ref] n by simp
  obtain x where x: "timeouts s t = Some x" "1 \<le> idleTimeout x"
    using new_Timeout_timeouts(1,2) [of cb a rep ref st] timeout_after_least [of a st] n by auto
  have c: "clock s = clock st"
    using n timeout_after_inert(7) [of a st] by (auto simp: new_Timeout_def Let_def split: prod.splits if_splits)
  then have "adv_at (clock st) s (snd (timer_insert t (idleTimeout x) (clock s) s))" using timer_insert_adv(1) [OF x, of "clock st" "clock s"] by simp
  then show ?thesis unfolding start_timer_snd n using adv_at_trans [OF s] x by simp
qed

lemma timer_okD:
  assumes "tinv st" "timeouts st t = Some x"
  shows "idleTimeout x = -1 \<or> 1 \<le> idleTimeout x" "repeatAfter x = Some r \<Longrightarrow> 1 \<le> r \<and> (idleTimeout x = r \<or> idleTimeout x = -1)"
proof -
  have "tv st t = Some (idleTimeout x, idleStart x, repeatAfter x)" using assms(2) by (simp add: tv_def)
  then have "timer_ok (idleTimeout x, idleStart x, repeatAfter x)" using tinvD(4) [OF assms(1)] unfolding members_ok_def by blast
  then show "idleTimeout x = -1 \<or> 1 \<le> idleTimeout x" "repeatAfter x = Some r \<Longrightarrow> 1 \<le> r \<and> (idleTimeout x = r \<or> idleTimeout x = -1)"
    by (auto simp: timer_ok_def)
qed

lemma insertGuarded_adv: "adv_at (clock st) st (snd (insertGuarded t ref st))"
proof (cases "timeouts st t")
  case (Some x)
  show ?thesis
  proof (cases "tinv st \<and> \<not> idleTimeout x < 0")
    case True
    then have x: "1 \<le> idleTimeout x" using timer_okD [OF _ Some] by auto
    obtain r s where p: "timer_insert t (idleTimeout x) (clock st) st = (r, s)" by fastforce
    have ins: "adv_at (clock st) st s" using timer_insert_adv(1) [OF Some x order_refl, of "clock st"] p by simp
    have "r = Inr ()" using timer_insert_adv(2) [OF Some x order_refl, of "clock st"] p True by simp
    define s' where "s' = (if destroyed x then initAsyncResource t (upd_timeout t (\<lambda>x. x\<lparr>destroyed := False\<rparr>) s) else s)"
    define s'' where "s'' = (if destroyed x then (if ref then incRefCount s' else s')
      else if ref \<noteq> refed x then (if ref then incRefCount s' else decRefCount s') else s')"
    have e: "snd (insertGuarded t ref st) = upd_timeout t (\<lambda>x. x\<lparr>refed := ref\<rparr>) s''"
      using True p \<open>r = Inr ()\<close> by (simp add: Some insertGuarded_def Let_def s''_def s'_def)
    have "adv_at (clock st) s s'" by (rule adv_at_inert) (simp_all add: s'_def tv_upd)
    moreover have "adv_at (clock st) s' s''" by (rule adv_at_inert) (simp_all add: s''_def tv_def fun_eq_iff)
    moreover have "adv_at (clock st) s'' (upd_timeout t (\<lambda>x. x\<lparr>refed := ref\<rparr>) s'')" by (rule adv_at_inert) (simp_all add: tv_upd)
    ultimately show ?thesis unfolding e using ins by (meson adv_at_trans)
  qed (auto simp: adv_at_def Some insertGuarded_def)
qed (simp add: insertGuarded_def adv_at_refl)

interpretation struct: timers_ops adv
proof (unfold_locales, goal_cases)
  case (2 st st' st'') then show ?case by (rule adv_trans)
next
  case (7 st t) show ?case using insertGuarded_adv by (auto simp: adv_def timeout_refresh_def adv_at_refl split: option.split)
next
  case (11 st d) show ?case unfolding adv_def by (rule adv_at_inert) (simp_all add: tv_def fun_eq_iff)
next
  case (12 st n) show ?case unfolding adv_def by (rule adv_at_inert) (simp_all add: tv_def fun_eq_iff)
qed (simp_all add: adv_def adv_at_refl setTimeout_def setInterval_def setUnrefTimeout_def
      start_timer_adv clear_adv ref_unref_adv toPrimitive_adv)

text \<open>No operation frees a timer.\<close>

interpretation kept: timers_ops "\<lambda>st st'. dom (timeouts st) \<subseteq> dom (timeouts st')"
proof (unfold_locales, goal_cases)
  case (6 st arg)
  show ?case by (auto simp: clearTimeout_def unenroll_timeouts split: clear_arg.split option.split)
next
  case (7 st t)
  show ?case
  proof (cases "timeouts st t")
    case (Some x)
    obtain r s where p: "timer_insert t (idleTimeout x) (clock st) st = (r, s)" by fastforce
    then have "dom (timeouts st) \<subseteq> dom (timeouts s)" using timer_insert_timeouts(1) [of t "idleTimeout x" "clock st" st] by (auto split: if_splits)
    then show ?thesis by (auto simp: timeout_refresh_def insertGuarded_def Some p Let_def initAsyncResource_def split: sum.split if_splits)
  qed (simp add: timeout_refresh_def)
qed (auto simp: setTimeout_def setInterval_def setUnrefTimeout_def start_timer_snd timer_insert_timeouts new_Timeout_timeouts
       timeout_ref_def timeout_unref_def timeout_toPrimitive_def Let_def split: option.split)

end
