(* ===== verification/TimersRounds.thy ===== *)
theory TimersRounds
  imports TimersInv "HOL-Library.Product_Lexorder"
begin

text \<open>
  The rounds of the event loop.  While a list is run it stays at the head of the queue or leaves it, because lists that
  callbacks make expire later; so what \<open>listOnTimeout\<close> takes from the queue or moves in it is that list.  A round ends,
  since every iteration takes a due timer and none becomes due; it answers the time of the next list; and if the tick queue
  refreshes no timer, no callback is called early.
\<close>

section \<open>A round\<close>

lemma after_callback_adv:
  assumes "b \<le> start" shows "adv_at b st (snd (after_callback t i start st))"
proof (cases "tinv st")
  case inv: True
  show ?thesis
  proof (cases "timeouts st t")
    case (Some x)
    have again: "adv_at b st (snd (timer_insert t r start (upd_timeout t (\<lambda>x. x\<lparr>idleTimeout := r\<rparr>) st)))"
      if r: "repeatAfter x = Some r" "idleTimeout x \<noteq> -1" for r
    proof -
      let ?u = "upd_timeout t (\<lambda>x. x\<lparr>idleTimeout := r\<rparr>) st"
      have q: "1 \<le> r" "idleTimeout x = r" using timer_okD(2) [OF inv Some r(1)] r(2) by auto
      then have "tv ?u = tv st" using Some by (auto simp: tv_def fun_eq_iff)
      then have "adv_at b st ?u" by (rule adv_at_inert) simp_all
      moreover have "timeouts ?u t = Some (x\<lparr>idleTimeout := r\<rparr>)" using Some by simp
      from timer_insert_adv(1) [OF this _ assms] q have "adv_at b ?u (snd (timer_insert t r start ?u))" by simp
      ultimately show ?thesis by (rule adv_at_trans)
    qed
    then show ?thesis using retire_adv adv_at_refl by (auto simp: after_callback_def Some split: option.split)
  qed (simp add: after_callback_def adv_at_refl)
qed (simp add: adv_at_def)

lemma fire_adv: "adv st (snd (fire env t x cb now st))"
proof -
  define s where "s = st\<lparr>firings := \<lparr>fired_timer = t, fired_start = idleStart x, fired_msecs = MathTrunc (idleTimeout x), fired_now = now\<rparr> # firings st,
      rounds := rounds st + 1\<rparr>"
  obtain r s' where e: "exec_timers (callback_body env cb (rounds s)) s = (r, s')" by fastforce
  have c: "clock s = clock st" by (simp add: s_def)
  have "adv_at (clock st) st s" by (rule adv_at_inert) (simp_all add: s_def tv_def fun_eq_iff)
  moreover have "adv_at (clock st) s s'" using struct.R_exec [of s "callback_body env cb (rounds s)"] e c by (simp add: adv_def)
  moreover have "adv_at (clock st) s' (snd (after_callback t (asyncId x) (clock st) s'))" by (rule after_callback_adv) simp
  moreover have "snd (fire env t x cb now st) = snd (after_callback t (asyncId x) (clock st) s')"
    using e by (simp add: fire_def s_def Let_def split: prod.split sum.split)
  ultimately show ?thesis unfolding adv_def by (metis adv_at_trans)
qed

text \<open>A timer that had its turn is not due any more.\<close>

lemma on_timer_adv:
  assumes t: "timeouts st t \<noteq> None"
  shows "adv st (snd (on_timer env again t now st))"
    and "tinv st \<Longrightarrow> fst (on_timer env again t now st) = Inr () \<Longrightarrow> now' \<le> clock st \<Longrightarrow> t \<notin> due now' (snd (on_timer env again t now st)) l"
proof -
  obtain r s where run: "(if again then runNextTicks env st else (Inr (), st)) = (r, s)" by fastforce
  have s: "adv st s" "timeouts s t \<noteq> None"
    using struct.R_ticks [of st env] struct.R_refl [of st] kept.R_ticks [of st env] t run by (cases again; auto)+
  define s1 where "s1 = s\<lparr>lnks := ll_remove t (lnks s)\<rparr>"
  have s1: "adv s s1" using unlink_adv(1) [OF s(2)] by (simp add: adv_def s1_def)
  obtain x where x: "timeouts s1 t = Some x" using s(2) by (auto simp: s1_def)
  define p where "p = (case onTimeout x of None \<Rightarrow> (Inr (), if destroyed x then s1 else retire t (asyncId x) s1) | Some cb \<Rightarrow> fire env t x cb now s1)"
  have p: "adv s1 (snd p)" using fire_adv retire_adv adv_at_refl by (auto simp: p_def adv_def split: option.split)
  have e: "on_timer env again t now st = (case r of Inl err \<Rightarrow> (Inl err, s) | Inr _ \<Rightarrow> p)"
    using x unfolding on_timer_def run Let_def by (simp add: p_def flip: s1_def split: sum.split option.split)
  note sp = adv_trans [OF s(1) adv_trans [OF s1 p]]
  show "adv st (snd (on_timer env again t now st))" using sp s(1) by (auto simp: e split: sum.split)
  assume inv: "tinv st" and ok: "fst (on_timer env again t now st) = Inr ()" and now: "now' \<le> clock st"
  have i: "tinv s" "clock st \<le> clock s" "tinv s1" "clock s1 = clock s" using inv s(1) s1 by (auto simp: adv_def adv_at_def s1_def)
  have "seqs s1 = without_item t (seqs s)" using unlink_adv(2) [OF s(2) i(1)] by (simp add: s1_def)
  then have "t \<notin> set ts" if "seqs s1 l = Some ts" for ts
    using that seqs_of_ring [OF tinvD(1) [OF i(1)], of l] by (auto simp: without_item_def ring_def)
  then have "t \<notin> due now' s1 l" by (auto simp: due_def)
  moreover have "due now' (snd p) l \<subseteq> due now' s1 l" using p i now by (simp add: adv_def adv_at_def)
  moreover have "snd (on_timer env again t now st) = snd p" using ok by (auto simp: e split: sum.splits)
  ultimately show "t \<notin> due now' (snd (on_timer env again t now st)) l" by auto
qed

lemma advD:
  assumes "adv st st'" "tinv st"
  shows "tinv st'" "clock st \<le> clock st'" "timerLists st l = Some x \<Longrightarrow> timerLists st' l = Some x"
proof -
  have a: "tinv st' \<and> clock st \<le> clock st' \<and> timerLists st \<subseteq>\<^sub>m timerLists st'" using assms by (simp add: adv_def adv_at_def)
  then show "tinv st'" "clock st \<le> clock st'" by auto
  show "timerLists st' l = Some x" if "timerLists st l = Some x" using that a unfolding map_le_def by (metis domI)
qed

text \<open>The lists that are to be run at \<open>now\<close>.\<close>

definition overdue :: "int \<Rightarrow> timers_state \<Rightarrow> nat set" where
  "overdue now st = {l. l \<in># queued st \<and> (\<exists>x. timerLists st l = Some x \<and> expiry x \<le> now)}"

lemma finite_overdue: "finite (overdue now st)"
  by (rule finite_subset [of _ "set_mset (queued st)"]) (auto simp: overdue_def)

lemma queued_mapped: "tinv st \<Longrightarrow> l \<in># queued st \<longleftrightarrow> l \<in> mapped st"
  using tinvD(3) by (auto simp: queue_ok_def)

lemma queued_list: "tinv st \<Longrightarrow> l \<in># queued st \<Longrightarrow> \<exists>x. timerLists st l = Some x"
  using queued_mapped mapped_list by blast

lemma overdue_adv:
  assumes "adv st st'" "tinv st" "now \<le> clock st" shows "overdue now st' \<subseteq> overdue now st"
proof
  fix l assume "l \<in> overdue now st'"
  then obtain x where l: "l \<in># queued st'" "timerLists st' l = Some x" "expiry x \<le> now" by (auto simp: overdue_def)
  have a: "timerLists st \<subseteq>\<^sub>m timerLists st'" "l \<in># queued st \<or> timerLists st l = None \<and> (\<exists>x. timerLists st' l = Some x \<and> clock st < expiry x)"
    using assms(1,2) l(1) by (simp_all add: adv_def adv_at_def)
  then have q: "l \<in># queued st" using l assms(3) by auto
  then show "l \<in> overdue now st" using queued_list [OF assms(2) q] a(1) l by (auto simp: overdue_def map_le_def dom_def)
qed

text \<open>A list that is being run is at the head of the queue or out of it.\<close>

definition running :: "int \<Rightarrow> nat \<Rightarrow> timers_state \<Rightarrow> bool" where
  "running now l st \<longleftrightarrow> l \<in> dom (timerLists st) \<and>
     (l \<in> mapped st \<longrightarrow> pq_peek (timerListQueue st) = Some l \<and> l \<in> overdue now st)"

lemma list_key_mono: "timerLists st \<subseteq>\<^sub>m timerLists st' \<Longrightarrow> l \<in> dom (timerLists st) \<Longrightarrow> list_key (timerLists st') l = list_key (timerLists st) l"
  by (auto simp: list_key_def map_le_def)

lemma cmp_key: "compareTimersLists ls a b \<le> 0 \<longleftrightarrow> list_key ls a \<le> list_key ls b"
  by (auto simp: compareTimersLists_def Let_def less_eq_prod_def)

lemma same_key: "tinv st \<Longrightarrow> timerLists st a = Some x \<Longrightarrow> timerLists st b = Some y \<Longrightarrow> list_key (timerLists st) a = list_key (timerLists st) b \<Longrightarrow> a = b"
  using tinvD(2) by (auto simp: lists_ok_def list_key_def)

lemma running_adv:
  assumes a: "adv st st'" and inv: "tinv st" and now: "now \<le> clock st" and run: "running now l st"
  shows "running now l st'"
proof -
  have A: "tinv st'" "timerLists st \<subseteq>\<^sub>m timerLists st'"
    "\<And>v. v \<in># queued st' \<Longrightarrow> v \<in># queued st \<or> timerLists st v = None \<and> (\<exists>x. timerLists st' v = Some x \<and> clock st < expiry x)"
    using a inv by (simp_all add: adv_def adv_at_def)
  have l: "l \<in> dom (timerLists st)" using run by (simp add: running_def)
  have "pq_peek (timerListQueue st') = Some l \<and> l \<in> overdue now st'" if lm: "l \<in> mapped st'"
  proof -
    have lq: "l \<in># queued st'" using lm queued_mapped [OF A(1)] by simp
    then have "l \<in># queued st" using A(3) [OF lq] l by auto
    then have lm0: "l \<in> mapped st" using queued_mapped [OF inv] by simp
    then have pk: "pq_peek (timerListQueue st) = Some l" "l \<in> overdue now st" using run by (auto simp: running_def)
    obtain x where x: "timerLists st l = Some x" "expiry x \<le> now" using pk(2) by (auto simp: overdue_def)
    then have x': "timerLists st' l = Some x" using A(2) by (auto simp: map_le_def dom_def)
    note q = tinvD(3) [OF inv, unfolded queue_ok_def] and q' = tinvD(3) [OF A(1), unfolded queue_ok_def]
    obtain v where v: "pq_peek (timerListQueue st') = Some v"
      using tq.peek_empty [of "timerLists st'" "timerListQueue st'"] q' lq by (cases "pq_peek (timerListQueue st')") (auto simp: queued_def)
    have vq: "v \<in># queued st'" "list_key (timerLists st') v \<le> list_key (timerLists st') l"
      using tq.peek_min [OF _ v] q' lq unfolding queued_def cmp_key by auto
    have "v = l"
    proof (cases "v \<in># queued st")
      case True
      then have "list_key (timerLists st) l \<le> list_key (timerLists st) v"
        using tq.peek_min(1) [OF _ pk(1)] q unfolding queued_def cmp_key by auto
      moreover obtain y where y: "timerLists st v = Some y" using queued_list [OF inv True] by blast
      ultimately have "list_key (timerLists st) l = list_key (timerLists st) v"
        using vq(2) list_key_mono [OF A(2)] l by (metis domI order_antisym)
      then show ?thesis using same_key [OF inv x(1) y] by simp
    next
      case False
      then show ?thesis using A(3) [OF vq(1)] vq(2) x' x(2) now by (auto simp: list_key_def less_eq_prod_def)
    qed
    then show ?thesis using v lq x' x(2) by (auto simp: overdue_def)
  qed
  then show ?thesis using l A(2) by (auto simp: running_def map_le_def dom_def)
qed

lemma peek_seq:
  assumes inv: "tinv st" and l: "timerLists st l = Some x"
  shows "ll_peek l (lnks st) = (case seqs st l of None \<Rightarrow> None | Some [] \<Rightarrow> None | Some (t # ts) \<Rightarrow> Some t)"
proof (cases "seqs st l")
  case (Some ts)
  then show ?thesis using peek_ring [OF seqs_of_ring [OF tinvD(1) [OF inv] Some]] by (cases ts) auto
next
  case None
  have "l \<notin> nodes (contents (seqs st)) k" if "k \<in> dom (seqs st)" for k
    using that None l seqs_bounds(3) [OF inv, of k] by (auto simp: nodes_def contents_def)
  then have "isolated (lnks st) l" using tinvD(1) [OF inv] by (simp add: seqs_of_def)
  then show ?thesis by (auto simp: None ll_peek_def isolated_def)
qed

lemma finish_ok:
  assumes inv: "tinv st" and run: "running now l st" and x: "timerLists st l = Some x" and none: "ll_peek l (lnks st) = None"
  defines "st' \<equiv> finish_list l (listMsecs x) st"
  shows "adv_at b st st'" "l \<notin> overdue now st'"
proof -
  have e: "seqs st l = Some []" if "l \<in> mapped st"
    using none that peek_seq [OF inv x] by (auto simp: seqs_def split: list.splits)
  have "adv_at b st st' \<and> l \<notin> overdue now st'"
  proof (cases "timerListMap st (listMsecs x) = Some l")
    case True
    let ?q = "snd (pq_shift (compareTimersLists (timerLists st)) (timerListQueue st))"
    have lm: "l \<in> mapped st" using True by (auto simp: mapped_def ran_def)
    then have pk: "pq_peek (timerListQueue st) = Some l" using run by (simp add: running_def)
    have st': "st' = st\<lparr>timerListMap := (timerListMap st)(listMsecs x := None), timerListQueue := ?q\<rparr>"
      using True by (simp add: st'_def finish_list_def)
    have q: "tq.pq_inv (timerLists st) ?q \<and> hasSetPosition ?q \<and> elems (pq_heap ?q) = queued st - {#l#}"
      using tq.pq_shift_ok [OF _ pk] tinvD(3) [OF inv] by (simp add: queue_ok_def queued_def)
    have a: "adv_at b st st'" by (rule drop_list_adv [OF True st' e [OF lm] q])
    have "l \<notin> mapped st'" using map_inj [OF inv True, of ?q] by (simp add: st')
    then have "l \<notin># queued st'" using a inv queued_mapped [of st'] by (simp add: adv_at_def)
    then show ?thesis using a by (simp add: overdue_def)
  next
    case False
    then have "l \<notin> mapped st" using mapped_list [OF inv, of l] x by auto
    then have "l \<notin># queued st" using queued_mapped [OF inv] by simp
    then show ?thesis using False by (simp add: st'_def finish_list_def adv_at_refl overdue_def)
  qed
  then show "adv_at b st st'" "l \<notin> overdue now st'" by auto
qed

text \<open>The head of the queue gets a later time.\<close>

lemma delay_head:
  assumes inv: "tq.pq_inv ls q" "hasSetPosition q" and pk: "pq_peek q = Some l"
    and key: "\<And>k. k \<noteq> l \<Longrightarrow> list_key ls' k = list_key ls k"
  shows "tq.pq_inv ls' (percolateDown (compareTimersLists ls') 1 q) \<and> hasSetPosition (percolateDown (compareTimersLists ls') 1 q)
    \<and> elems (pq_heap (percolateDown (compareTimersLists ls') 1 q)) = elems (pq_heap q)"
proof -
  have f: "filled (pq_heap q) (pq_size q)" and h: "tq.heap_ok ls (pq_heap q) (pq_size q)"
    and d: "distinct_heap (pq_heap q) (pq_size q)" and pl: "placed_but 0 (positions q) (pq_heap q) (pq_size q)"
    using inv by (auto simp: tq.pq_inv_def)
  have h1: "1 \<le> pq_size q" "pq_heap q ! 1 = Some l" using pk filled_get [OF f, of 1] by (auto simp: pq_peek_def split: if_splits)
  have car: "carried 1 l q = pq_heap q" using h1(2) by (metis carried_def list_update_id)
  have s: "sift_inv 1 l q" using f d pl h1(1) unfolding sift_inv_def car by (auto simp: placed_but_def)
  have ne: "the (pq_heap q ! i) \<noteq> l" if "2 \<le> i" "i \<le> pq_size q" for i
  proof -
    have "pq_heap q ! i \<noteq> Some l" using d h1 that inj_onD [of "\<lambda>i. pq_heap q ! i" "{1..pq_size q}" i 1] by (auto simp: distinct_heap_def)
    then show ?thesis using filledD [OF f, of i] that by auto
  qed
  have "tq.le ls' (pq_heap q ! (i div 2)) (pq_heap q ! i)" if i: "2 \<le> i" "i \<le> pq_size q" "i div 2 \<noteq> 1" for i
  proof -
    have "2 \<le> i div 2" "i div 2 \<le> pq_size q" using i by linarith+
    then have "list_key ls' (the (pq_heap q ! (i div 2))) = list_key ls (the (pq_heap q ! (i div 2)))"
      "list_key ls' (the (pq_heap q ! i)) = list_key ls (the (pq_heap q ! i))" using key ne i by blast+
    moreover have "tq.le ls (pq_heap q ! (i div 2)) (pq_heap q ! i)" using h i by (simp add: tq.heap_ok_def)
    ultimately show ?thesis by (simp add: tq.le_def cmp_key)
  qed
  then have "tq.except_down ls' 1 (pq_heap q) (pq_size q)" by (simp add: tq.except_down_def)
  from tq.percolateDown_ok [OF s this h1(2)] inv(2) show ?thesis by simp
qed

lemma reschedule_ok:
  assumes inv: "tinv st" and run: "running now l st" and lm: "l \<in> mapped st" and e: "now < e"
  defines "st' \<equiv> reschedule_list l e st"
  shows "tinv st'" "clock st' = clock st" "overdue now st' \<subseteq> overdue now st - {l}" "due now' st' k = due now' st k"
proof -
  obtain x where x: "timerLists st l = Some x" using mapped_list [OF inv lm] by blast
  define ls where "ls = (timerLists st)(l \<mapsto> x\<lparr>expiry := e, listId := timerListId st\<rparr>)"
  have st': "st' = st\<lparr>timerLists := ls, timerListId := timerListId st + 1,
      timerListQueue := percolateDown (compareTimersLists ls) 1 (timerListQueue st)\<rparr>"
    by (simp add: st'_def reschedule_list_def Let_def ls_def x)
  have same: "mapped st' = mapped st" "seqs st' = seqs st" "tv st' = tv st" by (simp_all add: st' mapped_def seqs_def tv_def fun_eq_iff)
  have pk: "pq_peek (timerListQueue st) = Some l" using run lm by (simp add: running_def)
  have "list_key ls k = list_key (timerLists st) k" if "k \<noteq> l" for k using that by (simp add: ls_def list_key_def)
  note q = delay_head [OF _ _ pk this] and q0 = tinvD(3) [OF inv, unfolded queue_ok_def]
  have qd: "queued st' = queued st" using q q0 by (simp add: queued_def st')
  have "queue_ok st'" using q q0 by (simp add: queue_ok_def qd same) (simp add: st')
  moreover have "members_ok st'" using tinvD(4) [OF inv] x unfolding members_ok_def same by (auto simp: st' ls_def) (metis option.inject)
  moreover have "store_ok st'" using tinvD(5) [OF inv] x by (auto simp: store_ok_def st' ls_def)
  moreover have "lists_ok st'"
  proof -
    have old: "timerListMap st k = Some l \<Longrightarrow> 1 \<le> k \<and> (\<exists>x. timerLists st l = Some x \<and> listMsecs x = k)"
      "timerLists st l = Some x \<Longrightarrow> listId x < timerListId st"
      "timerLists st l = Some x \<Longrightarrow> timerLists st l' = Some x' \<Longrightarrow> listId x = listId x' \<Longrightarrow> l = l'" for k l l' x x'
      using tinvD(2) [OF inv] unfolding lists_ok_def by blast+
    have "1 \<le> k \<and> (\<exists>x. timerLists st' l' = Some x \<and> listMsecs x = k)" if "timerListMap st' k = Some l'" for k l'
      using that old(1) [of k l'] x by (auto simp: st' ls_def)
    moreover have "listId y < timerListId st'" if "timerLists st' k = Some y" for k y
      using that old(2) [of k y] by (auto simp: st' ls_def split: if_splits)
    moreover have "k = k'" if "timerLists st' k = Some y" "timerLists st' k' = Some y'" "listId y = listId y'" for k k' y y'
      using that old(2) [of k y] old(2) [of k' y'] old(3) [of k y k' y'] by (auto simp: st' ls_def split: if_splits)
    ultimately show ?thesis unfolding lists_ok_def by blast
  qed
  ultimately show "tinv st'" using tinvD(1) [OF inv] same by (simp add: tinv_def) (simp add: st')
  show "clock st' = clock st" by (simp add: st')
  show "overdue now st' \<subseteq> overdue now st - {l}" using e by (auto simp: overdue_def qd) (auto simp: st' ls_def split: if_splits)
  show "due now' st' k = due now' st k" using x by (auto simp: due_def same) (auto simp: st' ls_def split: if_splits)
qed

section \<open>Ticks that do not refresh\<close>

primrec no_refresh :: "tprog \<Rightarrow> bool" where
  "no_refresh TDone = True"
| "no_refresh (TThrow e) = True"
| "no_refresh (TSetTimeout cb after k) = (\<forall>r. no_refresh (k r))"
| "no_refresh (TSetInterval cb after k) = (\<forall>r. no_refresh (k r))"
| "no_refresh (TSetUnref cb after k) = (\<forall>r. no_refresh (k r))"
| "no_refresh (TClear arg k) = no_refresh k"
| "no_refresh (TRefresh t k) = False"
| "no_refresh (TRef t k) = no_refresh k"
| "no_refresh (TUnref t k) = no_refresh k"
| "no_refresh (THasRef t k) = (\<forall>r. no_refresh (k r))"
| "no_refresh (TPrimitive t k) = (\<forall>r. no_refresh (k r))"
| "no_refresh (TWait d k) = no_refresh k"

text \<open>A timer keeps its start, and its duration as long as it has a callback.\<close>

definition same_schedule :: "timeout \<Rightarrow> timeout \<Rightarrow> bool" where
  "same_schedule x y \<longleftrightarrow> idleStart y = idleStart x \<and> (onTimeout x = None \<longrightarrow> onTimeout y = None) \<and> (onTimeout y = None \<or> idleTimeout y = idleTimeout x)"

definition quiet :: "timers_state \<Rightarrow> timers_state \<Rightarrow> bool" where
  "quiet st st' \<longleftrightarrow> (dom (timeouts st) \<subseteq> {..< nextAddr st} \<longrightarrow>
     dom (timeouts st') \<subseteq> {..< nextAddr st'} \<and> (\<forall>t x. timeouts st t = Some x \<longrightarrow> (\<exists>y. timeouts st' t = Some y \<and> same_schedule x y)))"

lemma quiet_refl: "quiet st st"
  by (simp add: quiet_def same_schedule_def)

lemma same_schedule_trans: "same_schedule x y \<Longrightarrow> same_schedule y z \<Longrightarrow> same_schedule x z"
  by (auto simp: same_schedule_def)

lemma quiet_trans: "quiet st st' \<Longrightarrow> quiet st' st'' \<Longrightarrow> quiet st st''"
  unfolding quiet_def using same_schedule_trans by meson

lemma quiet_upd:
  assumes "timeouts st' = (timeouts st)(t := map_option f (timeouts st t))" "nextAddr st' = nextAddr st" "\<And>x. timeouts st t = Some x \<Longrightarrow> same_schedule x (f x)"
  shows "quiet st st'"
  using assms by (fastforce simp: quiet_def same_schedule_def split: if_splits)

lemma quiet_new: "quiet st (snd (start_timer (new_Timeout cb a rep ref st)))"
proof -
  let ?s = "snd (new_Timeout cb a rep ref st)" and ?s' = "snd (start_timer (new_Timeout cb a rep ref st))"
  have "timeouts ?s' = (timeouts ?s)(nextAddr st := map_option (\<lambda>x. x\<lparr>idleStart := clock ?s\<rparr>) (timeouts ?s (nextAddr st)))"
    unfolding start_timer_snd timer_insert_timeouts(1) by (simp add: new_Timeout_timeouts(1))
  then have t: "timeouts ?s' t = timeouts st t" if "t \<noteq> nextAddr st" for t using that by (simp add: new_Timeout_timeouts(2))
  have n: "nextAddr st < nextAddr ?s'" unfolding start_timer_snd
    using timer_insert_timeouts(3) [where st = ?s] by (simp add: new_Timeout_timeouts Suc_le_eq)
  show ?thesis unfolding quiet_def
  proof (intro impI conjI allI)
    assume d: "dom (timeouts st) \<subseteq> {..< nextAddr st}"
    have "dom (timeouts ?s') \<subseteq> insert (nextAddr st) (dom (timeouts st))" using t by (metis domIff insertCI subsetI)
    then show "dom (timeouts ?s') \<subseteq> {..< nextAddr ?s'}" using d n by fastforce
    fix u x assume u: "timeouts st u = Some x"
    then have "u \<noteq> nextAddr st" using d by auto
    then show "\<exists>y. timeouts ?s' u = Some y \<and> same_schedule x y" using t u by (simp add: same_schedule_def)
  qed
qed

lemma quiet_bind: "quiet st (snd p) \<Longrightarrow> (\<And>r s. quiet s (snd (f r s))) \<Longrightarrow> quiet st (snd (case p of (r, s) \<Rightarrow> f r s))"
  by (cases p) (auto intro: quiet_trans)

lemma quiet_exec: "no_refresh p \<Longrightarrow> quiet st (snd (exec_timers p st))"
proof (induction p arbitrary: st)
  case (TSetTimeout cb after k)
  then show ?case unfolding exec_timers.simps setTimeout_def by (intro quiet_bind quiet_new) simp
next
  case (TSetInterval cb after k)
  then show ?case unfolding exec_timers.simps setInterval_def by (intro quiet_bind quiet_new) simp
next
  case (TSetUnref cb after k)
  then show ?case unfolding exec_timers.simps setUnrefTimeout_def by (intro quiet_bind quiet_new) simp
next
  case (TClear arg k)
  have u: "quiet st (unenroll t (upd_timeout t (\<lambda>x. x\<lparr>onTimeout := None\<rparr>) st))" for t
    by (rule quiet_upd [where t = t and f = "\<lambda>x. if destroyed x then x\<lparr>onTimeout := None\<rparr> else x\<lparr>onTimeout := None, destroyed := True, idleTimeout := -1\<rparr>"])
       (auto simp: unenroll_timeouts same_schedule_def option.map_comp comp_def)
  then have "quiet st (clearTimeout arg st)" by (auto simp: clearTimeout_def quiet_refl split: clear_arg.split option.split)
  from quiet_trans [OF this TClear.IH] show ?case using TClear.prems by simp
next
  case (TRef t k)
  have "quiet st (timeout_ref t st)"
    by (cases "timeouts st t") (auto simp: timeout_ref_def Let_def quiet_refl same_schedule_def intro!: quiet_upd [where t = t and f = "refed_update (\<lambda>_. True)"])
  from quiet_trans [OF this TRef.IH] show ?case using TRef.prems by simp
next
  case (TUnref t k)
  have "quiet st (timeout_unref t st)"
    by (cases "timeouts st t") (auto simp: timeout_unref_def Let_def quiet_refl same_schedule_def intro!: quiet_upd [where t = t and f = "refed_update (\<lambda>_. False)"])
  from quiet_trans [OF this TUnref.IH] show ?case using TUnref.prems by simp
next
  case (TPrimitive t k)
  have "quiet st (snd (timeout_toPrimitive t st))"
    by (cases "timeouts st t") (auto simp: timeout_toPrimitive_def quiet_refl same_schedule_def intro!: quiet_upd [where t = t and f = "hasPrimitive_update (\<lambda>_. True)"])
  then show ?case unfolding exec_timers.simps by (rule quiet_bind) (use TPrimitive in simp)
next
  case (TWait d k)
  have "quiet st (st\<lparr>clock := clock st + int d\<rparr>)" by (simp add: quiet_def same_schedule_def)
  from quiet_trans [OF this TWait.IH] show ?case using TWait.prems by simp
qed (auto simp: quiet_refl)

text \<open>The callbacks so far were called when they were due.\<close>

definition punctual :: "timers_state \<Rightarrow> bool" where
  "punctual st \<longleftrightarrow> (\<forall>f \<in> set (firings st). fired_start f + fired_msecs f \<le> fired_now f)"

lemma on_timer_punctual:
  assumes inv: "tinv st" and t: "t \<in> due now st l" and tick: "\<And>n. no_refresh (ticks_body env n)" and p: "punctual st"
  shows "punctual (snd (on_timer env again t now st))"
proof -
  obtain r s where run: "(if again then runNextTicks env st else (Inr (), st)) = (r, s)" by fastforce
  obtain ts i s0 r0 x where d: "seqs st l = Some ts" "t \<in> set ts" "tv st t = Some (i, s0, r0)" "timerLists st l = Some x" "listMsecs x \<le> now - s0"
    using t by (auto simp: due_def)
  have "\<exists>i s r x. tv st t = Some (i, s, r) \<and> timerLists st l = Some x \<and> MathTrunc i = listMsecs x"
    using tinvD(4) [OF inv] d(1,2) unfolding members_ok_def by blast
  then have i: "MathTrunc i = listMsecs x" using d by simp
  have "quiet st (st\<lparr>rounds := rounds st + 1\<rparr>)" by (simp add: quiet_def same_schedule_def)
  then have "quiet st (snd (runNextTicks env st))" unfolding runNextTicks_def by (rule quiet_trans [OF _ quiet_exec [OF tick]])
  then have "quiet st s" using quiet_refl run by (cases again) auto
  moreover obtain y where "timeouts st t = Some y" using d(3) by (auto simp: tv_def)
  ultimately obtain z where y: "timeouts st t = Some y" "timeouts s t = Some z" "same_schedule y z"
    using tinvD(5) [OF inv] unfolding quiet_def store_ok_def by blast
  have f: "firings s = firings st" using ops_log.R_ticks [of env st] run by (cases again) auto
  have z: "idleStart z + MathTrunc (idleTimeout z) \<le> now" if "onTimeout z \<noteq> None"
    using y d(3,5) i that by (auto simp: same_schedule_def tv_def)
  show ?thesis
  proof (cases r)
    case (Inl e) then show ?thesis using run f p by (simp add: on_timer_def punctual_def)
  next
    case (Inr u)
    then show ?thesis using run f p y z unfolding on_timer_def run
      by (auto simp: Let_def punctual_def fire_firings split: option.split)
  qed
qed

section \<open>Rounds end\<close>

text \<open>Running a list ends: every iteration takes a due timer and none becomes due.\<close>

lemma finite_due: "finite (due now st l)"
  by (rule finite_subset [of _ "set (the (seqs st l))"]) (auto simp: due_def)

lemma on_timer_due:
  assumes inv: "tinv st" and now: "now \<le> clock st" and t: "t \<in> due now st l"
    and ok: "fst (on_timer env again t now st) = Inr ()"
  shows "card (due now (snd (on_timer env again t now st)) l) < card (due now st l)"
proof -
  have tt: "timeouts st t \<noteq> None" using t by (auto simp: due_def tv_def)
  have "due now (snd (on_timer env again t now st)) l \<subseteq> due now st l"
    using on_timer_adv(1) [OF tt, of env again now] inv now by (simp add: adv_def adv_at_def)
  moreover have "t \<notin> due now (snd (on_timer env again t now st)) l" using on_timer_adv(2) [OF tt inv ok now] .
  ultimately show ?thesis using t by (intro psubset_card_mono finite_due) blast
qed

definition round_ok :: "timers_env \<Rightarrow> int \<Rightarrow> timers_state \<Rightarrow> timers_state \<Rightarrow> bool" where
  "round_ok env now st st' \<longleftrightarrow> ((\<forall>n. no_refresh (ticks_body env n)) \<longrightarrow> punctual st \<longrightarrow> punctual st') \<and> tinv st' \<and> clock st \<le> clock st' \<and> overdue now st' \<subseteq> overdue now st \<and> (\<forall>k. due now st' k \<subseteq> due now st k)"

lemma round_ok_trans: "round_ok env now st st' \<Longrightarrow> round_ok env now st' st'' \<Longrightarrow> round_ok env now st st''"
  unfolding round_ok_def by (meson order_trans)

lemma adv_round:
  "adv st st' \<Longrightarrow> tinv st \<Longrightarrow> now \<le> clock st \<Longrightarrow> ((\<forall>n. no_refresh (ticks_body env n)) \<Longrightarrow> punctual st \<Longrightarrow> punctual st') \<Longrightarrow> round_ok env now st st'"
  using overdue_adv by (simp add: round_ok_def adv_def adv_at_def)

lemma list_loop_ends:
  assumes "tinv st" "now \<le> clock st" "running now l st" "timerLists st l = Some x" "card (due now st l) \<le> n"
  shows "\<exists>r st'. listOnTimeout_loop n env again l (listMsecs x) now st = Some (r, st') \<and> round_ok env now st st' \<and>
    (r = Inr () \<longrightarrow> l \<notin> overdue now st')"
  using assms
proof (induction n arbitrary: again st rule: less_induct)
  case (less n)
  note inv = less.prems(1) and now = less.prems(2) and run = less.prems(3) and x = less.prems(4)
  show ?case
  proof (cases "ll_peek l (lnks st)")
    case None
    let ?st = "finish_list l (listMsecs x) st"
    have "adv st ?st" "l \<notin> overdue now ?st" unfolding adv_def by (rule finish_ok [OF inv run x None])+
    moreover have "punctual st \<Longrightarrow> punctual ?st" by (simp add: punctual_def finish_list_def)
    ultimately show ?thesis using adv_round [OF _ inv now] None by (simp add: listOnTimeout_loop.simps [of n] Let_def)
  next
    case (Some t)
    obtain ts where ts: "seqs st l = Some (t # ts)"
      using Some peek_seq [OF inv x] by (auto split: option.splits list.splits)
    then have lm: "l \<in> mapped st" by (auto simp: seqs_def split: if_splits)
    have "\<exists>i s r y. tv st t = Some (i, s, r) \<and> timerLists st l = Some y \<and> MathTrunc i = listMsecs y"
      using tinvD(4) [OF inv] ts unfolding members_ok_def by (meson list.set_intros(1))
    then obtain y where y: "timeouts st t = Some y" by (auto simp: tv_def)
    show ?thesis
    proof (cases "now - idleStart y < listMsecs x")
      case True
      let ?e = "max (idleStart y + listMsecs x) (now + 1)"
      have less_max: "now < ?e" by simp
      have "round_ok env now st (reschedule_list l ?e st) \<and> l \<notin> overdue now (reschedule_list l ?e st)"
        using reschedule_ok [OF inv run lm less_max] by (auto simp: round_ok_def punctual_def reschedule_list_def Let_def)
      then show ?thesis using Some y True by (simp add: listOnTimeout_loop.simps [of n] Let_def)
    next
      case False
      have t: "t \<in> due now st l" using False ts x y by (auto simp: due_def tv_def)
      then have "0 < card (due now st l)" using finite_due card_gt_0_iff by blast
      then obtain m where m: "n = Suc m" using less.prems(5) by (cases n) auto
      obtain q s where ot: "on_timer env again t now st = (q, s)" by fastforce
      have a: "adv st s" using on_timer_adv(1) [of st t env again now] y ot by simp
      then have rs: "round_ok env now st s"
        using adv_round [OF _ inv now] on_timer_punctual [OF inv t, of env again] ot by simp
      show ?thesis
      proof (cases q)
        case (Inl e)
        then show ?thesis using Some y False ot rs by (simp add: listOnTimeout_loop.simps [of "Suc m"] m Let_def)
      next
        case (Inr u)
        have "card (due now s l) \<le> m" using on_timer_due [OF inv now t, of env again] ot Inr less.prems(5) m by simp
        moreover have "tinv s" "now \<le> clock s" "running now l s" "timerLists s l = Some x"
          using advD [OF a inv] now running_adv [OF a inv now run] x by auto
        ultimately obtain r st' where "listOnTimeout_loop m env True l (listMsecs x) now s = Some (r, st')" "round_ok env now s st'"
          "r = Inr () \<longrightarrow> l \<notin> overdue now st'" using less.IH [of m s True] m by blast
        then show ?thesis using Some y False ot Inr round_ok_trans [OF rs] by (simp add: listOnTimeout_loop.simps [of "Suc m"] m Let_def)
      qed
    qed
  qed
qed

text \<open>What \<open>processTimers\<close> answers: 0 if no list is left, else the time of the first list, which is after \<open>now\<close>, negative if no timer
  keeps the process alive.\<close>

definition answer_ok :: "int \<Rightarrow> int \<Rightarrow> timers_state \<Rightarrow> bool" where
  "answer_ok now v st \<longleftrightarrow>
     (if queued st = {#} then v = 0
      else \<exists>l x. l \<in># queued st \<and> timerLists st l = Some x \<and> now < expiry x \<and> nextExpiry st = Some (expiry x) \<and>
        v = (if timeoutInfo st > 0 then expiry x else - expiry x) \<and>
        (\<forall>k y. k \<in># queued st \<longrightarrow> timerLists st k = Some y \<longrightarrow> expiry x \<le> expiry y))"

lemma peek_first:
  assumes inv: "tinv st" and pk: "pq_peek (timerListQueue st) = Some l"
  shows "l \<in># queued st" "k \<in># queued st \<Longrightarrow> timerLists st l = Some x \<Longrightarrow> timerLists st k = Some y \<Longrightarrow> expiry x \<le> expiry y"
proof -
  note q = tinvD(3) [OF inv, unfolded queue_ok_def]
  have "queued st \<noteq> {#}" using tq.peek_empty [of "timerLists st" "timerListQueue st"] q pk by (auto simp: queued_def)
  then obtain k0 where "k0 \<in># queued st" by blast
  then show "l \<in># queued st" using tq.peek_min(2) [OF _ pk, of "timerLists st" k0] q by (simp add: queued_def)
  show "expiry x \<le> expiry y" if "k \<in># queued st" "timerLists st l = Some x" "timerLists st k = Some y"
    using tq.peek_min(1) [OF _ pk, of "timerLists st" k] q that unfolding cmp_key queued_def by (auto simp: list_key_def less_eq_prod_def)
qed

lemma nextExpiry_adv: "adv st (st\<lparr>nextExpiry := e\<rparr>)"
  unfolding adv_def by (rule adv_at_inert) (simp_all add: tv_def fun_eq_iff)

lemma process_loop_ends:
  assumes "tinv st" "now \<le> clock st" "card (overdue now st) + D \<le> n" "\<And>k. card (due now st k) \<le> D"
  shows "\<exists>r st'. processTimers_loop n env again now st = Some (r, st') \<and> round_ok env now st st' \<and> (\<forall>v. r = Inr v \<longrightarrow> answer_ok now v st')"
  using assms
proof (induction n arbitrary: again st rule: less_induct)
  case (less n)
  note inv = less.prems(1) and now = less.prems(2) and n = less.prems(3) and D = less.prems(4)
  note q = tinvD(3) [OF inv, unfolded queue_ok_def]
  show ?case
  proof (cases "pq_peek (timerListQueue st)")
    case None
    then have "queued st = {#}" using q tq.peek_empty by (auto simp: queued_def)
    then show ?thesis using None inv by (simp add: processTimers_loop.simps [of n] round_ok_def answer_ok_def)
  next
    case (Some l)
    note first = peek_first [OF inv Some]
    obtain x where x: "timerLists st l = Some x" using queued_list [OF inv first(1)] by blast
    show ?thesis
    proof (cases "now < expiry x")
      case True
      let ?st = "st\<lparr>nextExpiry := Some (expiry x)\<rparr>"
      have "answer_ok now (if timeoutInfo st > 0 then expiry x else - expiry x) ?st"
        using first x True by (auto simp: answer_ok_def queued_def)
      moreover have "punctual st \<Longrightarrow> punctual ?st" by (simp add: punctual_def)
      ultimately show ?thesis using Some x True adv_round [OF nextExpiry_adv inv now, of env] by (simp add: processTimers_loop.simps [of n] Let_def)
    next
      case False
      then have lo: "l \<in> overdue now st" using first(1) x by (simp add: overdue_def)
      then have "0 < card (overdue now st)" using finite_overdue card_gt_0_iff by blast
      then obtain m where m: "n = Suc m" "D \<le> m" using n by (cases n) auto
      obtain r0 s where t: "(if again then runNextTicks env st else (Inr (), st)) = (r0, s)" by fastforce
      have a: "adv st s" using struct.R_ticks [of st env] struct.R_refl [of st] t by (cases again) auto
      have "firings s = firings st" using ops_log.R_ticks [of env st] t by (cases again) auto
      then have st: "round_ok env now st s" by (intro adv_round [OF a inv now]) (simp add: punctual_def)
      have s: "tinv s" "now \<le> clock s" "timerLists s l = Some x" using advD [OF a inv] now x by auto
      have "running now l st" using x Some lo by (auto simp: running_def)
      then have run: "running now l s" by (rule running_adv [OF a inv now])
      have sub: "card (due now s' k) \<le> D" if "round_ok env now st s'" for s' k
        using D [of k] card_mono [OF finite_due, of "due now s' k" now st k] that by (fastforce simp: round_ok_def)
      show ?thesis
      proof (cases r0)
        case (Inl e)
        then show ?thesis using Some x False t st by (simp add: processTimers_loop.simps [of "Suc m"] m Let_def)
      next
        case (Inr u)
        obtain r' s' where l: "listOnTimeout_loop m env False l (listMsecs x) now s = Some (r', s')" "round_ok env now s s'"
          "r' = Inr () \<longrightarrow> l \<notin> overdue now s'" using list_loop_ends [OF s(1,2) run s(3), of m env False] sub [OF st, of l] m by fastforce
        have ss: "round_ok env now st s'" by (rule round_ok_trans [OF st l(2)])
        show ?thesis
        proof (cases r')
          case (Inl e)
          then show ?thesis using Some x False t Inr l s ss by (simp add: processTimers_loop.simps [of "Suc m"] listOnTimeout_def m Let_def)
        next
          case ok: (Inr w)
          have "overdue now s' \<subset> overdue now st" using ss lo l(3) ok by (auto simp: round_ok_def)
          then have "card (overdue now s') < card (overdue now st)" by (rule psubset_card_mono [OF finite_overdue])
          then have "card (overdue now s') + D \<le> m" using n m by simp
          moreover have "tinv s'" "now \<le> clock s'" using ss now by (auto simp: round_ok_def)
          ultimately obtain r st' where "processTimers_loop m env True now s' = Some (r, st')" "round_ok env now s' st'" "\<forall>v. r = Inr v \<longrightarrow> answer_ok now v st'"
            using less.IH [of m s' True] m sub [OF ss] by blast
          then show ?thesis using Some x False t Inr l s ok round_ok_trans [OF ss]
            by (simp add: processTimers_loop.simps [of "Suc m"] listOnTimeout_def m Let_def)
        qed
      qed
    qed
  qed
qed

section \<open>Properties\<close>

text \<open>More fuel does not change a result.\<close>

lemma list_loop_mono: "listOnTimeout_loop n env again l m now st = Some r \<Longrightarrow> n \<le> n' \<Longrightarrow> listOnTimeout_loop n' env again l m now st = Some r"
proof (induction n arbitrary: again st n')
  case 0
  then show ?case by (auto simp: listOnTimeout_loop.simps [of 0] listOnTimeout_loop.simps [of n'] Let_def split: option.splits if_splits)
next
  case (Suc n)
  then obtain k where k: "n' = Suc k" "n \<le> k" by (cases n') auto
  show ?case using Suc.prems(1) Suc.IH [OF _ k(2)]
    by (auto simp: k listOnTimeout_loop.simps [of "Suc _"] Let_def split: option.splits if_splits sum.splits prod.splits)
qed

lemma process_loop_mono: "processTimers_loop n env again now st = Some r \<Longrightarrow> n \<le> n' \<Longrightarrow> processTimers_loop n' env again now st = Some r"
proof (induction n arbitrary: again st n')
  case 0
  then show ?case by (auto simp: processTimers_loop.simps [of 0] processTimers_loop.simps [of n'] Let_def split: option.splits if_splits)
next
  case (Suc n)
  then obtain k where k: "n' = Suc k" "n \<le> k" by (cases n') auto
  have lo: "listOnTimeout n env l now s = Some q \<Longrightarrow> listOnTimeout k env l now s = Some q" for l s q
    unfolding listOnTimeout_def by (rule list_loop_mono [OF _ k(2)])
  obtain q s where t: "(if again then runNextTicks env st else (Inr (), st)) = (q, s)" by fastforce
  show ?case
  proof (cases "pq_peek (timerListQueue st)")
    case None
    then show ?thesis using Suc.prems(1) by (simp add: k processTimers_loop.simps [of "Suc _"])
  next
    case (Some l)
    let ?e = "case timerLists st l of Some x \<Rightarrow> expiry x | None \<Rightarrow> 0"
    show ?thesis
    proof (cases "now < ?e \<or> (\<exists>e. q = Inl e)")
      case True
      then show ?thesis using Suc.prems(1) Some t by (auto simp: k processTimers_loop.simps [of "Suc _"] Let_def)
    next
      case False
      then obtain u where u: "q = Inr u" by (cases q) auto
      have step: "processTimers_loop (Suc i) env again now st = (case listOnTimeout i env l now s of None \<Rightarrow> None
          | Some (Inl e, st) \<Rightarrow> Some (Inl e, st) | Some (Inr _, st) \<Rightarrow> processTimers_loop i env True now st)" for i
        using Some t False u by (simp add: processTimers_loop.simps [of "Suc i"] Let_def)
      obtain x s' where x: "listOnTimeout n env l now s = Some (x, s')"
        using Suc.prems(1) unfolding step by (cases "listOnTimeout n env l now s") auto
      show ?thesis using Suc.prems(1) Suc.IH [OF _ k(2)] unfolding k(1) step x lo [OF x] by (cases x) auto
    qed
  qed
qed

text \<open>The timers that are due.\<close>

definition all_due :: "int \<Rightarrow> timers_state \<Rightarrow> nat set" where
  "all_due now st = {t. \<exists>l. t \<in> due now st l}"

lemma due_all: "tinv st \<Longrightarrow> card (due now st l) \<le> card (all_due now st)"
proof (rule card_mono)
  assume "tinv st"
  then have "finite (dom (timeouts st))" using tinvD(5) finite_subset [of _ "{..< nextAddr st}"] by (auto simp: store_ok_def)
  moreover have "all_due now st \<subseteq> dom (timeouts st)" by (auto simp: all_due_def due_def tv_def)
  ultimately show "finite (all_due now st)" by (rule finite_subset [rotated])
qed (auto simp: all_due_def)

lemma processTimers_ends:
  assumes inv: "tinv st" and now: "now \<le> clock st" and n: "card (overdue now st) + card (all_due now st) \<le> n"
  shows "\<exists>r st'. processTimers n env now st = Some (r, st') \<and> round_ok env now st st' \<and> (\<forall>v. r = Inr v \<longrightarrow> answer_ok now v st')"
proof -
  let ?st = "st\<lparr>nextExpiry := None\<rparr>"
  have a: "round_ok env now st ?st" by (rule adv_round [OF nextExpiry_adv inv now]) (simp add: punctual_def)
  have e: "overdue now ?st = overdue now st" "due now ?st = due now st"
    by (auto simp: overdue_def due_def queued_def seqs_def mapped_def tv_def fun_eq_iff)
  have "tinv ?st" using a by (simp add: round_ok_def)
  from process_loop_ends [OF this, of now "card (all_due now st)" n env False] n now e due_all [OF inv]
  obtain r st' where "processTimers_loop n env False now ?st = Some (r, st')" "round_ok env now ?st st'" "\<forall>v. r = Inr v \<longrightarrow> answer_ok now v st'"
    by auto
  then show ?thesis using round_ok_trans [OF a] by (auto simp: processTimers_def)
qed

lemma processTimers_round:
  assumes "tinv st" "now \<le> clock st" "processTimers n env now st = Some (r, st')"
  shows "round_ok env now st st'" "r = Inr v \<Longrightarrow> answer_ok now v st'"
proof -
  let ?n = "max n (card (overdue now st) + card (all_due now st))"
  have "processTimers ?n env now st = Some (r, st')" using assms(3) process_loop_mono unfolding processTimers_def by (meson max.cobounded1)
  then show "round_ok env now st st'" "r = Inr v \<Longrightarrow> answer_ok now v st'"
    using processTimers_ends [OF assms(1,2), of ?n env] by auto
qed

text \<open>A process: programs run and the event loop calls \<open>processTimers\<close> with a time that is not in the future.\<close>

inductive timers_run :: "timers_env \<Rightarrow> timers_state \<Rightarrow> bool" for env where
  run_init: "timers_run env (timers_init now)"
| run_exec: "timers_run env st \<Longrightarrow> timers_run env (snd (exec_timers p st))"
| run_round: "timers_run env st \<Longrightarrow> now \<le> clock st \<Longrightarrow> processTimers n env now st = Some (r, st') \<Longrightarrow> timers_run env st'"

lemma run_tinv: "timers_run env st \<Longrightarrow> tinv st \<and> ((\<forall>n. no_refresh (ticks_body env n)) \<longrightarrow> punctual st)"
proof (induction rule: timers_run.induct)
  case (run_init now) show ?case using tinv_init by (simp add: punctual_def timers_init_def)
next
  case (run_exec st p)
  then show ?case using advD(1) [OF struct.R_exec] ops_log.R_exec [of p st] by (simp add: punctual_def)
next
  case (run_round st now n r st')
  then show ?case using processTimers_round(1) [of st now n env r st'] by (simp add: round_ok_def)
qed

text \<open>C19: In every state a process gets to, whatever callbacks and ticks do, the structures of the timers agree (\<open>tinv\<close>): the
  lists of \<open>timerListMap\<close> are exactly the lists of the queue, the queue is a heap by expiry and id with its positions recorded
  correctly, every list is a ring of timers whose truncated duration is the key of the list, the rings share no
  timer, and a timer in no list is linked to nothing.\<close>

theorem timers_structures_agree:
  assumes "timers_run env st" shows "tinv st"
  using run_tinv [OF assms] by simp

definition waiting_timers :: tprog where
  "waiting_timers = TSetTimeout 0 None (\<lambda>_. TSetUnref 1 (Some (Num 5)) (\<lambda>_. TWait 10 TDone))"

definition idle_env :: timers_env where
  "idle_env = timers_env.make (\<lambda>_ _. TDone) (\<lambda>_. TDone)"

theorem timers_structures_agree_witness:
  "timers_run idle_env (snd (exec_timers waiting_timers (timers_init 0))) \<and> tinv (snd (exec_timers waiting_timers (timers_init 0)))"
proof -
  have "timers_run idle_env (snd (exec_timers waiting_timers (timers_init 0)))" by (intro timers_run.intros)
  then show ?thesis using timers_structures_agree by blast
qed

lemma waiting_clock: "10 \<le> clock (snd (exec_timers waiting_timers (timers_init 0)))"
proof -
  define s where "s = snd (setUnrefTimeout 1 (Some (Num 5)) (snd (setTimeout 0 None (timers_init 0))))"
  have "adv (timers_init 0) s" unfolding s_def by (rule struct.R_trans [OF struct.R_set(1) struct.R_set(3)])
  then have "clock (timers_init 0) \<le> clock s" using advD(2) tinv_init by blast
  moreover have "snd (exec_timers waiting_timers (timers_init 0)) = s\<lparr>clock := clock s + 10\<rparr>"
    unfolding waiting_timers_def exec_set s_def by simp
  ultimately show ?thesis by (simp add: timers_init_def)
qed

text \<open>C20: A round of the event loop ends, whatever callbacks and ticks do: they may set, refresh and clear timers, themselves
  included, of any duration.  As many iterations are enough as there are lists that are overdue and timers that are due when the
  round begins.\<close>

theorem processTimers_terminates:
  assumes "timers_run env st" "now \<le> clock st" "card (overdue now st) + card (all_due now st) \<le> n"
  shows "\<exists>r st'. processTimers n env now st = Some (r, st')"
  using processTimers_ends [OF _ assms(2,3)] run_tinv [OF assms(1)] by blast

theorem processTimers_terminates_witness:
  "\<exists>r st'. processTimers (card (overdue 10 (snd (exec_timers waiting_timers (timers_init 0)))) +
       card (all_due 10 (snd (exec_timers waiting_timers (timers_init 0))))) idle_env 10 (snd (exec_timers waiting_timers (timers_init 0))) = Some (r, st')"
proof -
  have "timers_run idle_env (snd (exec_timers waiting_timers (timers_init 0)))" by (intro timers_run.intros)
  from processTimers_terminates [OF this waiting_clock order_refl] show ?thesis .
qed

text \<open>When \<open>processTimers\<close> returns normally no list that is left is overdue, and the value it hands to the event loop is right:
  0 if there are no lists, else the earliest expiry of a list, negated exactly if no referenced timer is alive.\<close>

theorem processTimers_answer:
  assumes "timers_run env st" "now \<le> clock st" "processTimers n env now st = Some (Inr v, st')"
  shows "answer_ok now v st' \<and> overdue now st' = {} \<and> timeoutInfo st' = int (card (live_refs st'))"
proof -
  have a: "answer_ok now v st'" "round_ok env now st st'" using processTimers_round [OF _ assms(2,3)] run_tinv [OF assms(1)] by auto
  have "overdue now st' = {}" using a(1) by (fastforce simp: answer_ok_def overdue_def split: if_splits)
  moreover have "timers_reach env st" using assms(1) by induction (auto intro: timers_reach.intros)
  then have "timers_reach env st'" using assms(3) by (rule reach_round)
  then have "timeoutInfo st' = int (card (live_refs st'))" using ref_ok_reach by (simp add: ref_ok_def)
  ultimately show ?thesis using a by blast
qed

text \<open>Nothing is scheduled.\<close>

theorem processTimers_answer_witness:
  "processTimers 0 idle_env 0 (timers_init 0) = Some (Inr 0, (timers_init 0)\<lparr>nextExpiry := None\<rparr>) \<and>
   answer_ok 0 0 ((timers_init 0)\<lparr>nextExpiry := None\<rparr>)"
proof -
  have e: "processTimers 0 idle_env 0 (timers_init 0) = Some (Inr 0, (timers_init 0)\<lparr>nextExpiry := None\<rparr>)"
    by (simp add: processTimers_def processTimers_loop.simps timers_init_def new_pq_def pq_peek_def heap_get_def)
  show ?thesis using processTimers_answer [OF run_init _ e] e by (simp add: timers_init_def)
qed

text \<open>C21: If the tick queue refreshes no timer, no callback is ever called early: every call is made in a round whose time is at
  least the start of the timer plus its duration in whole milliseconds, where start and duration are the ones the timer has
  when it is called.  Callbacks may do what they like, refreshing timers included.\<close>

theorem timers_never_early:
  assumes "timers_run env st" "\<And>n. no_refresh (ticks_body env n)" "f \<in> set (firings st)"
  shows "fired_start f + fired_msecs f \<le> fired_now f"
  using run_tinv [OF assms(1)] assms(2,3) by (auto simp: punctual_def)

text \<open>A round in which two timers are due.\<close>

theorem timers_never_early_witness:
  "\<exists>st'. timers_run idle_env st' \<and> (\<exists>r n. processTimers n idle_env 10 (snd (exec_timers waiting_timers (timers_init 0))) = Some (r, st')) \<and>
     (\<forall>f. f \<in> set (firings st') \<longrightarrow> fired_start f + fired_msecs f \<le> fired_now f)"
proof -
  let ?st = "snd (exec_timers waiting_timers (timers_init 0))"
  have run: "timers_run idle_env ?st" by (intro timers_run.intros)
  then obtain n r st' where r: "processTimers n idle_env 10 ?st = Some (r, st')"
    using processTimers_ends [OF _ waiting_clock order_refl, of idle_env] run_tinv [OF run] by blast
  then have "timers_run idle_env st'" by (rule run_round [OF run waiting_clock])
  moreover have "no_refresh (ticks_body idle_env k)" for k by (simp add: idle_env_def timers_env.defs)
  ultimately show ?thesis using timers_never_early [of idle_env st'] r by blast
qed

end
