(* ===== verification/CryptoShim.thy ===== *)
theory CryptoShim
  imports JsPrelude "HOL-Library.Word"
begin

unbundle bit_operations_syntax

text \<open>
  The \<open>crypto\<close> shim (\<open>libjs/shims/crypto.js\<close>): the hash and HMAC objects over the native ones, random bytes, random
  integers by rejection sampling, and random UUIDs from a batch of entropy.  The native hash (its context, update,
  digest and copy), the encodings of \<open>Buffer\<close> and the native generator are parameters; the generator is the sequence
  of its fills, and the state counts how many were made.  A buffer is a list of bytes.
\<close>

type_synonym bytes = "8 word list"

section \<open>Hash and Hmac\<close>

text \<open>What the binding and \<open>Buffer\<close> provide.\<close>

record 's crypto_env =
  native_new :: "string \<Rightarrow> 's result"
  native_update :: "bytes \<Rightarrow> 's \<Rightarrow> 's"
  native_digest :: "'s \<Rightarrow> bytes"
  hmac_init :: "string \<Rightarrow> bytes \<Rightarrow> 's result"
  hmac_update :: "bytes \<Rightarrow> 's \<Rightarrow> 's"
  hmac_digest :: "'s \<Rightarrow> bytes"
  buffer_from :: "string \<Rightarrow> string \<Rightarrow> bytes result"
  buffer_toString :: "string \<Rightarrow> bytes \<Rightarrow> string result"

datatype hash_data = Text string | Bytes bytes

datatype digest_out = OutText string | OutBytes bytes

record 's hash_obj =
  hctx :: 's
  finalized :: bool

definition digest_called :: js_error where
  "digest_called = JsError None ''Digest already called''"

definition new_Hash :: "'s crypto_env \<Rightarrow> string \<Rightarrow> 's hash_obj result" where
  "new_Hash env algorithm =
     (case native_new env algorithm of
        Inl e \<Rightarrow> Inl e
      | Inr s \<Rightarrow> Inr \<lparr>hctx = s, finalized = False\<rparr>)"

text \<open>\<open>inputEncoding || 'utf8'\<close>.\<close>

definition utf8_default :: "string option \<Rightarrow> string" where
  "utf8_default enc = (case enc of None \<Rightarrow> ''utf8'' | Some e \<Rightarrow> if e = [] then ''utf8'' else e)"

definition data_bytes :: "'s crypto_env \<Rightarrow> hash_data \<Rightarrow> string option \<Rightarrow> bytes result" where
  "data_bytes env data enc = (case data of Text t \<Rightarrow> buffer_from env t (utf8_default enc) | Bytes b \<Rightarrow> Inr b)"

definition encode_out :: "'s crypto_env \<Rightarrow> string option \<Rightarrow> bytes \<Rightarrow> digest_out result" where
  "encode_out env enc b =
     (case enc of
        None \<Rightarrow> Inr (OutBytes b)
      | Some e \<Rightarrow>
          if e \<noteq> [] \<and> e \<noteq> ''buffer'' then map_sum (\<lambda>x. x) OutText (buffer_toString env e b) else Inr (OutBytes b))"

definition Hash_update :: "'s crypto_env \<Rightarrow> hash_data \<Rightarrow> string option \<Rightarrow> 's hash_obj \<Rightarrow> unit result \<times> 's hash_obj" where
  "Hash_update env data enc h =
     (if finalized h then (Inl digest_called, h)
      else
        (case data_bytes env data enc of
           Inl e \<Rightarrow> (Inl e, h)
         | Inr b \<Rightarrow> (Inr (), h\<lparr>hctx := native_update env b (hctx h)\<rparr>)))"

definition Hash_digest :: "'s crypto_env \<Rightarrow> string option \<Rightarrow> 's hash_obj \<Rightarrow> digest_out result \<times> 's hash_obj" where
  "Hash_digest env enc h =
     (if finalized h then (Inl digest_called, h)
      else (encode_out env enc (native_digest env (hctx h)), h\<lparr>finalized := True\<rparr>))"

text \<open>The copy is first made as an md5 hash, whose context is then replaced.\<close>

definition Hash_copy :: "'s crypto_env \<Rightarrow> 's hash_obj \<Rightarrow> 's hash_obj result" where
  "Hash_copy env h =
     (if finalized h then Inl digest_called
      else
        (case new_Hash env ''md5'' of
           Inl e \<Rightarrow> Inl e
         | Inr c \<Rightarrow> Inr (c\<lparr>hctx := hctx h, finalized := False\<rparr>)))"

definition Hash_transform :: "'s crypto_env \<Rightarrow> hash_data \<Rightarrow> string option \<Rightarrow> 's hash_obj \<Rightarrow> unit result \<times> 's hash_obj" where
  "Hash_transform env chunk enc h = Hash_update env chunk enc h"

text \<open>What \<open>_flush\<close> pushes.\<close>

definition Hash_flush :: "'s crypto_env \<Rightarrow> 's hash_obj \<Rightarrow> digest_out result \<times> 's hash_obj" where
  "Hash_flush env h = Hash_digest env None h"

definition hash_once :: "'s crypto_env \<Rightarrow> string \<Rightarrow> hash_data \<Rightarrow> string option \<Rightarrow> digest_out result" where
  "hash_once env algorithm data outputEncoding =
     (case data_bytes env data None of
        Inl e \<Rightarrow> Inl e
      | Inr b \<Rightarrow>
          (case new_Hash env algorithm of
             Inl e \<Rightarrow> Inl e
           | Inr h \<Rightarrow>
               (case Hash_update env (Bytes b) None h of
                  (Inl e, _) \<Rightarrow> Inl e
                | (Inr _, h) \<Rightarrow>
                    fst (Hash_digest env (Some (case outputEncoding of None \<Rightarrow> ''hex'' | Some e \<Rightarrow> if e = [] then ''hex'' else e)) h))))"

definition new_Hmac :: "'s crypto_env \<Rightarrow> string \<Rightarrow> hash_data \<Rightarrow> 's hash_obj result" where
  "new_Hmac env algorithm key =
     (case data_bytes env key None of
        Inl e \<Rightarrow> Inl e
      | Inr k \<Rightarrow>
          (case hmac_init env algorithm k of
             Inl e \<Rightarrow> Inl e
           | Inr s \<Rightarrow> Inr \<lparr>hctx = s, finalized = False\<rparr>))"

definition Hmac_update :: "'s crypto_env \<Rightarrow> hash_data \<Rightarrow> string option \<Rightarrow> 's hash_obj \<Rightarrow> unit result \<times> 's hash_obj" where
  "Hmac_update env data enc h =
     (if finalized h then (Inl digest_called, h)
      else
        (case data_bytes env data enc of
           Inl e \<Rightarrow> (Inl e, h)
         | Inr b \<Rightarrow> (Inr (), h\<lparr>hctx := hmac_update env b (hctx h)\<rparr>)))"

definition Hmac_digest :: "'s crypto_env \<Rightarrow> string option \<Rightarrow> 's hash_obj \<Rightarrow> digest_out result \<times> 's hash_obj" where
  "Hmac_digest env enc h =
     (if finalized h then (Inl digest_called, h)
      else (encode_out env enc (hmac_digest env (hctx h)), h\<lparr>finalized := True\<rparr>))"

definition Hmac_transform :: "'s crypto_env \<Rightarrow> hash_data \<Rightarrow> string option \<Rightarrow> 's hash_obj \<Rightarrow> unit result \<times> 's hash_obj" where
  "Hmac_transform env chunk enc h = Hmac_update env chunk enc h"

definition Hmac_flush :: "'s crypto_env \<Rightarrow> 's hash_obj \<Rightarrow> digest_out result \<times> 's hash_obj" where
  "Hmac_flush env h = Hmac_digest env None h"

section \<open>Random bytes\<close>

text \<open>The generator: byte \<open>i\<close> of its \<open>n\<close>-th fill.  The state of the module: the fills made, the batch of the UUIDs, its counter,
  and the callbacks handed to \<open>process.nextTick\<close>.\<close>

type_synonym generator = "nat \<Rightarrow> nat \<Rightarrow> 8 word"

datatype rand_value = RandBytes bytes | RandInt int

record rand_state =
  fills :: nat
  uuidData :: "bytes option"
  uuidNotBuffered :: "bytes option"
  uuidBatch :: nat
  nextTicks :: "(nat \<times> rand_value result) list"

definition rand_init :: rand_state where
  "rand_init = \<lparr>fills = 0, uuidData = None, uuidNotBuffered = None, uuidBatch = 0, nextTicks = []\<rparr>"

text \<open>An argument: an integer, a function, \<open>undefined\<close>, or anything else.\<close>

datatype rand_arg = ANum int | AFun nat | AUndef | AOther

definition buf_type_error :: js_error where
  "buf_type_error = JsError None ''buf must be a Buffer, TypedArray, or DataView''"

definition plain_error :: "string \<Rightarrow> js_error" where
  "plain_error m = JsError None m"

definition native_fill :: "generator \<Rightarrow> nat \<Rightarrow> nat \<Rightarrow> bytes \<Rightarrow> rand_state \<Rightarrow> bytes \<times> rand_state" where
  "native_fill gen offset sz buf st =
     (take offset buf @ map (gen (fills st)) [0 ..< sz] @ drop (offset + sz) buf, st\<lparr>fills := fills st + 1\<rparr>)"

text \<open>\<open>None\<close> for the buffer is a value that is not an object, \<open>None\<close> for a number is \<open>undefined\<close>.  The answer is the
  buffer with its new contents.\<close>

definition randomFillSync ::
  "generator \<Rightarrow> bytes option \<Rightarrow> int option \<Rightarrow> int option \<Rightarrow> rand_state \<Rightarrow> bytes result \<times> rand_state" where
  "randomFillSync gen buf offset sz st =
     (case buf of
        None \<Rightarrow> (Inl buf_type_error, st)
      | Some b \<Rightarrow>
          (let byteLength = int (length b);
               offset = (case offset of None \<Rightarrow> 0 | Some i \<Rightarrow> i);
               sz = (case sz of None \<Rightarrow> byteLength - offset | Some i \<Rightarrow> i)
           in if offset < 0 \<or> offset > byteLength then (Inl (plain_error ''offset is out of range''), st)
              else if sz < 0 \<or> offset + sz > byteLength then (Inl (plain_error ''size is out of range''), st)
              else if sz = 0 then (Inr b, st)
              else (case native_fill gen (nat offset) (nat sz) b st of (b, st) \<Rightarrow> (Inr b, st))))"

definition buffer_alloc :: "nat \<Rightarrow> bytes" where
  "buffer_alloc n = replicate n 0"

definition next_tick :: "nat \<Rightarrow> rand_value result \<Rightarrow> rand_state \<Rightarrow> rand_state" where
  "next_tick cb r st = st\<lparr>nextTicks := nextTicks st @ [(cb, r)]\<rparr>"

text \<open>\<open>None\<close> as the answer is \<open>undefined\<close>.\<close>

definition randomBytes :: "generator \<Rightarrow> rand_arg \<Rightarrow> rand_arg \<Rightarrow> rand_state \<Rightarrow> bytes option result \<times> rand_state" where
  "randomBytes gen sz callback st =
     (case sz of
        ANum n \<Rightarrow>
          if n < 0 \<or> n \<noteq> n mod 2 ^ 32 then (Inl (plain_error ''size must be a non-negative uint32''), st)
          else
            (let buf = buffer_alloc (nat n) in
             case callback of
               AUndef \<Rightarrow>
                 (case randomFillSync gen (Some buf) (Some 0) (Some n) st of
                    (Inl e, st) \<Rightarrow> (Inl e, st)
                  | (Inr b, st) \<Rightarrow> (Inr (Some b), st))
             | AFun cb \<Rightarrow>
                 (case randomFillSync gen (Some buf) (Some 0) (Some n) st of
                    (Inl e, st) \<Rightarrow> (Inr None, next_tick cb (Inl e) st)
                  | (Inr b, st) \<Rightarrow> (Inr None, next_tick cb (Inr (RandBytes b)) st))
             | _ \<Rightarrow> (Inl (plain_error ''callback must be a function''), st))
      | _ \<Rightarrow> (Inl (plain_error ''size must be a non-negative uint32''), st))"

section \<open>Random integers\<close>

definition isSafeInteger :: "rand_arg \<Rightarrow> bool" where
  "isSafeInteger a = (case a of ANum n \<Rightarrow> \<bar>n\<bar> \<le> 2 ^ 53 - 1 | _ \<Rightarrow> False)"

definition RAND_MAX :: int where
  "RAND_MAX = 0xFFFFFFFFFFFF"

definition randLimit :: "int \<Rightarrow> int" where
  "randLimit rng = RAND_MAX - RAND_MAX mod rng"

definition readUIntBE :: "bytes \<Rightarrow> int" where
  "readUIntBE b = foldl (\<lambda>n x. 256 * n + uint x) 0 b"

text \<open>The loop; at most \<open>n\<close> draws, \<open>None\<close> when they are used up.\<close>

fun randomInt_loop :: "nat \<Rightarrow> generator \<Rightarrow> bytes \<Rightarrow> int \<Rightarrow> int \<Rightarrow> rand_state \<Rightarrow> (int result \<times> rand_state) option" where
  "randomInt_loop 0 gen buf lo rng st = None"
| "randomInt_loop (Suc n) gen buf lo rng st =
     (case randomFillSync gen (Some buf) None None st of
        (Inl e, st) \<Rightarrow> Some (Inl e, st)
      | (Inr buf, st) \<Rightarrow>
          (let x = readUIntBE (take 6 buf) in
           if x < randLimit rng then Some (Inr (x mod rng + lo), st)
           else randomInt_loop n gen buf lo rng st))"

text \<open>\<open>randomInt(max)\<close>, \<open>randomInt(min, max)\<close> and both with a callback, which is a function if it is given.\<close>

definition randomInt_args :: "rand_arg \<Rightarrow> rand_arg \<Rightarrow> nat option \<Rightarrow> rand_arg \<times> rand_arg \<times> nat option" where
  "randomInt_args lo hi callback =
     (case hi of
        AUndef \<Rightarrow> (ANum 0, lo, None)
      | AFun cb \<Rightarrow> (ANum 0, lo, Some cb)
      | _ \<Rightarrow> (lo, hi, callback))"

definition randomInt ::
  "nat \<Rightarrow> generator \<Rightarrow> rand_arg \<Rightarrow> rand_arg \<Rightarrow> nat option \<Rightarrow> rand_state \<Rightarrow> (int option result \<times> rand_state) option" where
  "randomInt fuel gen lo hi callback st =
     (case randomInt_args lo hi callback of
        (lo, hi, callback) \<Rightarrow>
          if \<not> isSafeInteger lo then Some (Inl (plain_error ''min must be a safe integer''), st)
          else if \<not> isSafeInteger hi then Some (Inl (plain_error ''max must be a safe integer''), st)
          else
            (case (lo, hi) of
               (ANum lo, ANum hi) \<Rightarrow>
                 if hi \<le> lo then Some (Inl (plain_error ''max must be greater than min''), st)
                 else if hi - lo > 0xFFFFFFFFFFFF then Some (Inl (plain_error ''max - min must be <= 2^48 - 1''), st)
                 else
                   (case randomInt_loop fuel gen (buffer_alloc 6) lo (hi - lo) st of
                      None \<Rightarrow> None
                    | Some (Inl e, st) \<Rightarrow> Some (Inl e, st)
                    | Some (Inr n, st) \<Rightarrow>
                        (case callback of
                           None \<Rightarrow> Some (Inr (Some n), st)
                         | Some cb \<Rightarrow> Some (Inr None, next_tick cb (Inr (RandInt n)) st)))
             | _ \<Rightarrow> None))"

section \<open>UUIDs\<close>

definition kBatchSize :: nat where
  "kBatchSize = 128"

definition hexDigits :: string where
  "hexDigits = ''0123456789abcdef''"

text \<open>\<open>i.toString(16).padStart(2, '0')\<close> for a byte.\<close>

definition hex_byte :: "nat \<Rightarrow> string" where
  "hex_byte i = (if i < 16 then [CHR ''0'', hexDigits ! i] else [hexDigits ! (i div 16), hexDigits ! (i mod 16)])"

definition getHexBytes :: "string list" where
  "getHexBytes = map hex_byte [0 ..< 256]"

definition kHexBytes :: "8 word \<Rightarrow> string" where
  "kHexBytes b = getHexBytes ! unat b"

definition serializeUUID :: "bytes \<Rightarrow> nat \<Rightarrow> string" where
  "serializeUUID buf offset =
     kHexBytes (buf ! offset) @ kHexBytes (buf ! (offset + 1)) @ kHexBytes (buf ! (offset + 2)) @ kHexBytes (buf ! (offset + 3)) @
     ''-'' @
     kHexBytes (buf ! (offset + 4)) @ kHexBytes (buf ! (offset + 5)) @
     ''-'' @
     kHexBytes ((buf ! (offset + 6) AND 0x0f) OR 0x40) @ kHexBytes (buf ! (offset + 7)) @
     ''-'' @
     kHexBytes ((buf ! (offset + 8) AND 0x3f) OR 0x80) @ kHexBytes (buf ! (offset + 9)) @
     ''-'' @
     kHexBytes (buf ! (offset + 10)) @ kHexBytes (buf ! (offset + 11)) @ kHexBytes (buf ! (offset + 12)) @
     kHexBytes (buf ! (offset + 13)) @ kHexBytes (buf ! (offset + 14)) @ kHexBytes (buf ! (offset + 15))"

definition getBufferedUUID :: "generator \<Rightarrow> rand_state \<Rightarrow> string result \<times> rand_state" where
  "getBufferedUUID gen st =
     (let data = (case uuidData st of None \<Rightarrow> buffer_alloc (16 * kBatchSize) | Some d \<Rightarrow> d);
          st = st\<lparr>uuidData := Some data\<rparr>
      in case (if uuidBatch st = 0 then randomFillSync gen (Some data) None None st else (Inr data, st)) of
           (Inl e, st) \<Rightarrow> (Inl e, st)
         | (Inr data, st) \<Rightarrow>
             (let batch = (uuidBatch st + 1) mod kBatchSize
              in (Inr (serializeUUID data (batch * 16)), st\<lparr>uuidData := Some data, uuidBatch := batch\<rparr>)))"

definition getUnbufferedUUID :: "generator \<Rightarrow> rand_state \<Rightarrow> string result \<times> rand_state" where
  "getUnbufferedUUID gen st =
     (let data = (case uuidNotBuffered st of None \<Rightarrow> buffer_alloc 16 | Some d \<Rightarrow> d)
      in case randomFillSync gen (Some data) None None st of
           (Inl e, st) \<Rightarrow> (Inl e, st\<lparr>uuidNotBuffered := Some data\<rparr>)
         | (Inr data, st) \<Rightarrow> (Inr (serializeUUID data 0), st\<lparr>uuidNotBuffered := Some data\<rparr>))"

text \<open>The options: absent, not an object, or an object whose \<open>disableEntropyCache\<close> is absent, a boolean, or not one.\<close>

datatype uuid_options = NoOptions | NotObject | Options "bool option option"

definition randomUUID :: "generator \<Rightarrow> uuid_options \<Rightarrow> rand_state \<Rightarrow> string result \<times> rand_state" where
  "randomUUID gen options st =
     (case options of
        NotObject \<Rightarrow> (Inl (JsError (Some ''ERR_INVALID_ARG_TYPE'') ''options''), st)
      | NoOptions \<Rightarrow> getBufferedUUID gen st
      | Options None \<Rightarrow> getBufferedUUID gen st
      | Options (Some None) \<Rightarrow> (Inl (JsError (Some ''ERR_INVALID_ARG_TYPE'') ''options.disableEntropyCache''), st)
      | Options (Some (Some True)) \<Rightarrow> getUnbufferedUUID gen st
      | Options (Some (Some False)) \<Rightarrow> getBufferedUUID gen st)"

end
