(* ===== verification/CryptoShimProps.thy ===== *)
theory CryptoShimProps
  imports CryptoShim
begin

unbundle bit_operations_syntax

text \<open>
  What the \<open>crypto\<close> shim promises: random integers are in range and uniform, UUIDs have the form of RFC 4122 and keep all
  the entropy they may keep, the batch is never served twice, and a hash object is what a sequence of updates and one digest
  make of it.
\<close>

section \<open>Filling\<close>

lemma fill_all:
  "randomFillSync gen (Some b) None None st =
     (Inr (map (gen (fills st)) [0 ..< length b]), if b = [] then st else st\<lparr>fills := fills st + 1\<rparr>)"
  by (auto simp: randomFillSync_def native_fill_def Let_def)

text \<open>A fill writes the range it is told to and nothing else.\<close>

lemma fill_range:
  assumes "0 \<le> offset" "0 \<le> sz" "offset + sz \<le> int (length b)"
  shows "\<exists>b' st'. randomFillSync gen (Some b) (Some offset) (Some sz) st = (Inr b', st') \<and> length b' = length b
    \<and> (\<forall>i < length b. b' ! i = (if offset \<le> int i \<and> int i < offset + sz then gen (fills st) (i - nat offset) else b ! i))"
proof (cases "sz = 0")
  case True
  then show ?thesis using assms by (auto simp: randomFillSync_def)
next
  case False
  let ?o = "nat offset" and ?s = "nat sz"
  have le: "?o + ?s \<le> length b" using assms by linarith
  have "(take ?o b @ map (gen (fills st)) [0 ..< ?s] @ drop (?o + ?s) b) ! i
      = (if offset \<le> int i \<and> int i < offset + sz then gen (fills st) (i - ?o) else b ! i)" if "i < length b" for i
    using that le assms by (auto simp: nth_append)
  then show ?thesis using False assms le
    by (auto simp: randomFillSync_def native_fill_def Let_def)
qed

text \<open>\<open>randomFillSync(buf, offset, size)\<close> stays in bounds: it succeeds exactly when the range lies inside the buffer, and
  then it overwrites that range with what the generator gives and leaves every other byte and the length as they were;
  otherwise it throws and uses no entropy.\<close>

theorem random_fill_bounds:
  assumes "randomFillSync gen (Some b) (Some offset) (Some sz) st = (r, st')"
  shows "case r of
      Inl _ \<Rightarrow> st' = st \<and> \<not> (0 \<le> offset \<and> 0 \<le> sz \<and> offset + sz \<le> int (length b))
    | Inr b' \<Rightarrow> 0 \<le> offset \<and> 0 \<le> sz \<and> offset + sz \<le> int (length b) \<and> length b' = length b \<and>
        (\<forall>i < length b. b' ! i = (if offset \<le> int i \<and> int i < offset + sz then gen (fills st) (i - nat offset) else b ! i))"
proof (cases "0 \<le> offset \<and> 0 \<le> sz \<and> offset + sz \<le> int (length b)")
  case True
  then show ?thesis using fill_range [of offset sz b gen st] assms by auto
next
  case False
  then have "isl r \<and> st' = st" using assms by (auto simp: randomFillSync_def Let_def split: if_splits)
  then show ?thesis using False by (cases r) auto
qed

theorem random_fill_bounds_witness:
  "fst (randomFillSync (\<lambda>_ _. 9) (Some [1, 2, 3]) (Some 1) (Some 1) rand_init) = Inr [1, 9, 3] \<and>
   isl (fst (randomFillSync (\<lambda>_ _. 9) (Some [1, 2, 3]) (Some 2) (Some 2) rand_init))"
proof -
  obtain r st' where e: "randomFillSync (\<lambda>_ _. 9) (Some [1, 2, 3]) (Some 2) (Some 2) rand_init = (r, st')" by fastforce
  have "isl r" using random_fill_bounds [OF e] by (cases r) auto
  then show ?thesis using e by (simp add: randomFillSync_def native_fill_def)
qed

section \<open>Random integers\<close>

text \<open>The number the \<open>k\<close>-th fill of the generator stands for.\<close>

definition draw :: "generator \<Rightarrow> nat \<Rightarrow> int" where
  "draw gen k = readUIntBE (map (gen k) [0 ..< 6])"

lemma readUIntBE_snoc: "readUIntBE (b @ [x]) = 256 * readUIntBE b + uint x"
  by (simp add: readUIntBE_def)

lemma uint_byte: "0 \<le> uint (x :: 8 word)" "uint (x :: 8 word) < 256"
  using uint_lt2p [of x] by auto

lemma readUIntBE_bounds: "0 \<le> readUIntBE b \<and> readUIntBE b < 256 ^ length b"
proof (induction b rule: rev_induct)
  case (snoc x b)
  then have "readUIntBE b + 1 \<le> 256 ^ length b" by simp
  then have "256 * (readUIntBE b + 1) \<le> 256 * 256 ^ length b" by (rule mult_left_mono) simp
  then show ?case using snoc uint_byte [of x] by (simp add: readUIntBE_snoc)
qed (simp add: readUIntBE_def)

lemma readUIntBE_inj: "length b = length c \<Longrightarrow> readUIntBE b = readUIntBE c \<Longrightarrow> b = c"
proof (induction b arbitrary: c rule: rev_induct)
  case (snoc x b)
  then obtain d y where c: "c = d @ [y]" "length b = length d" by (cases c rule: rev_cases) auto
  then have e: "256 * readUIntBE b + uint x = 256 * readUIntBE d + uint y" using snoc.prems by (simp add: readUIntBE_snoc)
  then have "(256 * readUIntBE b + uint x) mod 256 = (256 * readUIntBE d + uint y) mod 256" by simp
  then have "uint x = uint y" using uint_byte [of x] uint_byte [of y] by simp
  then show ?case using snoc.IH [OF c(2)] e c by (simp add: word_uint_eq_iff)
qed simp

lemma six_bytes_bij: "bij_betw readUIntBE {b. length b = 6} {0 ..< 2 ^ 48}"
proof -
  have inj: "inj_on readUIntBE {b. length b = 6}" by (auto simp: inj_on_def intro: readUIntBE_inj)
  have sub: "readUIntBE ` {b. length b = 6} \<subseteq> {0 ..< 2 ^ 48}" using readUIntBE_bounds by fastforce
  have "card {b :: bytes. length b = 6} = card (UNIV :: 8 word set) ^ 6"
    using card_lists_length_eq [of "UNIV :: 8 word set" 6] by simp
  then have "card (readUIntBE ` {b. length b = 6}) = card {0 ..< (2 :: int) ^ 48}"
    using card_image [OF inj] by (simp add: card_word)
  then have "readUIntBE ` {b. length b = 6} = {0 ..< 2 ^ 48}" using card_subset_eq [OF _ sub] by simp
  then show ?thesis using inj by (simp add: bij_betw_def)
qed

lemma randomInt_loop_returns:
  assumes "draw gen (fills st + k) < randLimit rng" "\<forall>j < k. \<not> draw gen (fills st + j) < randLimit rng" "k < n" "length buf = 6"
  shows "randomInt_loop n gen buf lo rng st = Some (Inr (draw gen (fills st + k) mod rng + lo), st\<lparr>fills := fills st + k + 1\<rparr>)"
  using assms
proof (induction k arbitrary: st n buf)
  case 0
  then obtain m where "n = Suc m" by (cases n) auto
  moreover have "buf \<noteq> []" using 0 by auto
  ultimately show ?case using 0 by (simp add: fill_all draw_def Let_def)
next
  case (Suc k)
  then obtain m where n: "n = Suc m" "k < m" by (cases n) auto
  let ?st = "st\<lparr>fills := fills st + 1\<rparr>" and ?buf = "map (gen (fills st)) [0 ..< 6]"
  have ne: "buf \<noteq> []" using Suc.prems(4) by auto
  have "\<not> draw gen (fills st) < randLimit rng" using Suc.prems(2) by (metis add_0_right zero_less_Suc)
  then have "randomInt_loop n gen buf lo rng st = randomInt_loop m gen ?buf lo rng ?st"
    using Suc.prems(4) ne by (simp add: n fill_all draw_def Let_def)
  also have "\<dots> = Some (Inr (draw gen (fills ?st + k) mod rng + lo), ?st\<lparr>fills := fills ?st + k + 1\<rparr>)"
    using Suc.prems(1,2) n(2) by (intro Suc.IH) auto
  finally show ?case by simp
qed

definition fair_range :: "int \<Rightarrow> int \<Rightarrow> bool" where
  "fair_range lo hi \<longleftrightarrow> \<bar>lo\<bar> \<le> 2 ^ 53 - 1 \<and> \<bar>hi\<bar> \<le> 2 ^ 53 - 1 \<and> lo < hi \<and> hi - lo \<le> RAND_MAX"

lemma randomInt_loop_eq:
  assumes "fair_range lo hi"
  shows "randomInt n gen (ANum lo) (ANum hi) None st =
    map_option (\<lambda>(r, st). (map_sum (\<lambda>e. e) Some r, st)) (randomInt_loop n gen (buffer_alloc 6) lo (hi - lo) st)"
  using assms by (auto simp: randomInt_def randomInt_args_def isSafeInteger_def fair_range_def RAND_MAX_def
      split: option.split prod.split sum.split)

lemma randLimit_eq: "randLimit rng = rng * (RAND_MAX div rng)"
  unfolding randLimit_def by (simp add: minus_mod_eq_mult_div)

lemma randLimit_half:
  assumes "0 < rng" "rng \<le> RAND_MAX"
  shows "2 ^ 47 \<le> randLimit rng"
proof (cases "2 * rng \<le> RAND_MAX")
  case True
  have "RAND_MAX mod rng < rng" using assms by simp
  then have "2 * (RAND_MAX mod rng) < RAND_MAX" using True by linarith
  moreover have "(2 :: int) ^ 47 = 140737488355328" by simp
  ultimately show ?thesis unfolding randLimit_def using RAND_MAX_def by linarith
next
  case False
  then have "RAND_MAX div rng = 1" using assms by (intro int_div_pos_eq [where r = "RAND_MAX - rng"]) auto
  then show ?thesis using False by (simp add: randLimit_eq RAND_MAX_def)
qed

text \<open>\<open>randomInt(min, max)\<close> returns, with a value from \<open>min\<close> up to but excluding \<open>max\<close>: the first draw below the
  limit decides, one fill of the generator is used for each draw up to it, and at least half of all possible draws are
  below the limit, whatever the range.\<close>

theorem random_int_returns:
  assumes "fair_range lo hi" "draw gen (fills st + k) < randLimit (hi - lo)"
    and "\<forall>j < k. \<not> draw gen (fills st + j) < randLimit (hi - lo)" "k < n"
  shows "2 ^ 47 \<le> randLimit (hi - lo) \<and>
    (\<exists>v. randomInt n gen (ANum lo) (ANum hi) None st = Some (Inr (Some v), st\<lparr>fills := fills st + k + 1\<rparr>) \<and> lo \<le> v \<and> v < hi)"
proof -
  have f: "0 < hi - lo" "hi - lo \<le> RAND_MAX" using assms(1) by (simp_all add: fair_range_def)
  let ?v = "draw gen (fills st + k) mod (hi - lo) + lo"
  have "randomInt n gen (ANum lo) (ANum hi) None st = Some (Inr (Some ?v), st\<lparr>fills := fills st + k + 1\<rparr>)"
    using randomInt_loop_returns [OF assms(2,3,4), of "buffer_alloc 6" lo] assms(1)
    by (simp add: randomInt_loop_eq buffer_alloc_def)
  moreover have "lo \<le> ?v" "?v < hi" using pos_mod_sign [OF f(1)] pos_mod_bound [OF f(1)] by (simp_all add: less_diff_eq [symmetric])
  ultimately show ?thesis using randLimit_half [OF f] by blast
qed

text \<open>A die whose second draw decides: the first is above the limit.\<close>

theorem random_int_returns_witness:
  "let gen = (\<lambda>k i. if k = 0 then 255 else if i = 5 then 10 else 0) in
   fair_range 1 7 \<and> draw gen 1 < randLimit 6 \<and> \<not> draw gen 0 < randLimit 6 \<and>
   (\<exists>v. randomInt 5 gen (ANum 1) (ANum 7) None rand_init = Some (Inr (Some v), rand_init\<lparr>fills := 2\<rparr>) \<and> 1 \<le> v \<and> v < 7)"
proof -
  define gen :: generator where "gen = (\<lambda>k i. if k = 0 then 255 else if i = 5 then 10 else 0)"
  have six: "[0 ..< 6] = [0, 1, 2, 3, 4, 5 :: nat]" by (simp add: upt_rec)
  have d: "draw gen 1 < randLimit 6" "\<not> draw gen 0 < randLimit 6"
    unfolding draw_def six by (simp_all add: gen_def readUIntBE_def randLimit_def RAND_MAX_def)
  have f: "fair_range 1 7" by (simp add: fair_range_def RAND_MAX_def)
  have "\<exists>v. randomInt 5 gen (ANum 1) (ANum 7) None rand_init = Some (Inr (Some v), rand_init\<lparr>fills := 2\<rparr>) \<and> 1 \<le> v \<and> v < 7"
    using random_int_returns [of 1 7 gen rand_init 1 5] f d by (simp add: rand_init_def numeral_2_eq_2)
  then show ?thesis using f d unfolding gen_def Let_def by blast
qed

section \<open>Uniformity\<close>

lemma randomInt_one_draw:
  assumes "fair_range lo hi" "length b = 6"
  shows "randomInt 1 (\<lambda>_ i. b ! i) (ANum lo) (ANum hi) None st =
    (if readUIntBE b < randLimit (hi - lo) then Some (Inr (Some (readUIntBE b mod (hi - lo) + lo)), st\<lparr>fills := fills st + 1\<rparr>) else None)"
proof -
  have "map (\<lambda>i. b ! i) [0 ..< 6] = b" using assms(2) map_nth [of b] by simp
  then show ?thesis using assms by (simp add: randomInt_loop_eq fill_all buffer_alloc_def Let_def)
qed

lemma residue_count:
  assumes "0 < r" "0 \<le> c" "c < r"
  shows "card {x. 0 \<le> x \<and> x < r * q \<and> x mod r = (c :: int)} = nat q"
proof (cases "0 \<le> q")
  case True
  have "bij_betw (\<lambda>i. r * i + c) {0 ..< q} {x. 0 \<le> x \<and> x < r * q \<and> x mod r = c}"
  proof (rule bij_betw_byWitness [where f' = "\<lambda>x. x div r"])
    show "(\<lambda>i. r * i + c) ` {0 ..< q} \<subseteq> {x. 0 \<le> x \<and> x < r * q \<and> x mod r = c}"
    proof (clarsimp, intro conjI)
      fix i assume i: "0 \<le> i" "i < q"
      then have "r * (i + 1) \<le> r * q" using assms by (intro mult_left_mono) auto
      then show "r * i + c < r * q" using assms by (simp add: distrib_left)
    qed (use assms in \<open>auto simp: mod_add_left_eq [symmetric]\<close>)
    show "(\<lambda>x. x div r) ` {x. 0 \<le> x \<and> x < r * q \<and> x mod r = c} \<subseteq> {0 ..< q}"
    proof (clarsimp simp: pos_imp_zdiv_nonneg_iff assms)
      fix x assume x: "0 \<le> x" "x < r * q"
      have "r * (x div r) \<le> x" using mult_div_mod_eq [of r x] pos_mod_sign [OF assms(1), of x] by linarith
      then have "r * (x div r) < r * q" using x(2) by simp
      then show "x div r < q" using assms(1) by simp
    qed
  qed (use assms in \<open>auto simp: div_add1_eq\<close>)
  then show ?thesis using bij_betw_same_card by fastforce
next
  case False
  then have e: "{x. 0 \<le> x \<and> x < r * q \<and> x mod r = c} = {}"
    using assms mult_pos_neg [of r q] by auto
  show ?thesis unfolding e using False by simp
qed

text \<open>C38: \<open>randomInt(min, max)\<close> is uniform: of the \<open>2^48\<close> draws of six bytes, the same number decides for each value of the
  range, namely \<open>(2^48 - 1) div (max - min)\<close>; no value is favoured, although the range need not divide the number of
  draws.\<close>

theorem random_int_uniform:
  assumes "fair_range lo hi" "lo \<le> v" "v < hi"
  shows "card {b. length b = 6 \<and> (\<exists>st'. randomInt 1 (\<lambda>_ i. b ! i) (ANum lo) (ANum hi) None st = Some (Inr (Some v), st'))}
    = nat (RAND_MAX div (hi - lo))"
proof -
  let ?r = "hi - lo" and ?B = "{b. length b = 6 \<and> readUIntBE b < randLimit (hi - lo) \<and> readUIntBE b mod (hi - lo) = v - lo}"
  let ?X = "{x. 0 \<le> x \<and> x < ?r * (RAND_MAX div ?r) \<and> x mod ?r = v - lo}"
  have r: "0 < ?r" "?r \<le> RAND_MAX" using assms(1) by (simp_all add: fair_range_def)
  have "{b. length b = 6 \<and> (\<exists>st'. randomInt 1 (\<lambda>_ i. b ! i) (ANum lo) (ANum hi) None st = Some (Inr (Some v), st'))} = ?B"
    using randomInt_one_draw [OF assms(1)] by (auto split: if_splits)
  moreover have "bij_betw readUIntBE ?B ?X"
  proof (rule bij_betw_imageI)
    show "inj_on readUIntBE ?B" by (auto simp: inj_on_def intro: readUIntBE_inj)
    have "\<exists>b. length b = 6 \<and> readUIntBE b = x" if x: "0 \<le> x" "x < randLimit ?r" for x
    proof -
      have "x \<in> {0 ..< 2 ^ 48}" using x pos_mod_sign [OF r(1), of RAND_MAX] by (simp add: randLimit_def RAND_MAX_def)
      then show ?thesis using six_bytes_bij unfolding bij_betw_def by (metis (mono_tags, lifting) imageE mem_Collect_eq)
    qed
    then show "readUIntBE ` ?B = ?X" using readUIntBE_bounds by (fastforce simp: randLimit_eq [symmetric])
  qed
  ultimately show ?thesis using bij_betw_same_card [of readUIntBE ?B ?X] residue_count [OF r(1), of "v - lo" "RAND_MAX div ?r"] assms
    by simp
qed

theorem random_int_uniform_witness:
  "fair_range 1 7 \<and> card {b. length b = 6 \<and> (\<exists>st'. randomInt 1 (\<lambda>_ i. b ! i) (ANum 1) (ANum 7) None rand_init = Some (Inr (Some 3), st'))}
    = 46912496118442"
proof -
  have f: "fair_range 1 7" by (simp add: fair_range_def RAND_MAX_def)
  show ?thesis using random_int_uniform [OF f, of 3 rand_init] f by (simp add: RAND_MAX_def)
qed

section \<open>The form of a UUID\<close>

lemma kHexBytes_eq: "kHexBytes b = [hexDigits ! (unat b div 16), hexDigits ! (unat b mod 16)]"
proof -
  have b: "unat b < 256" using unsigned_less [of b, where 'a = nat] by simp
  then have "getHexBytes ! unat b = hex_byte (unat b)" by (simp add: getHexBytes_def)
  moreover have "hexDigits ! 0 = CHR ''0''" by (simp add: hexDigits_def)
  ultimately show ?thesis by (simp add: kHexBytes_def hex_byte_def)
qed

lemma nibble_bounds: "unat (b :: 8 word) div 16 < 16" "unat (b :: 8 word) mod 16 < 16"
  using unsigned_less [of b, where 'a = nat] by auto

lemma hexDigits_nth: "i < 16 \<Longrightarrow> hexDigits ! i \<in> set hexDigits" "i < 16 \<Longrightarrow> j < 16 \<Longrightarrow> hexDigits ! i = hexDigits ! j \<longleftrightarrow> i = j"
proof -
  have l: "length hexDigits = 16" "distinct hexDigits" by (simp_all add: hexDigits_def)
  show "i < 16 \<Longrightarrow> hexDigits ! i \<in> set hexDigits" using l by simp
  show "i < 16 \<Longrightarrow> j < 16 \<Longrightarrow> hexDigits ! i = hexDigits ! j \<longleftrightarrow> i = j" using l by (simp add: nth_eq_iff_index_eq)
qed

lemma kHexBytes_inj: "kHexBytes b = kHexBytes c \<longleftrightarrow> b = c"
proof
  assume "kHexBytes b = kHexBytes c"
  then have "unat b div 16 = unat c div 16" "unat b mod 16 = unat c mod 16"
    using nibble_bounds by (auto simp: kHexBytes_eq hexDigits_nth)
  then have "unat b = unat c" by (metis div_mult_mod_eq)
  then show "b = c" by (simp add: word_eq_iff_unsigned [where 'a = nat])
qed simp

text \<open>The two bytes the standard fixes bits of.\<close>

lemma fixed_bits:
  assumes "m AND h = (0 :: nat)" shows "(n AND m) OR h = h + (n AND m)"
proof -
  have "(n AND m) AND h = 0" using assms by (simp add: and.assoc)
  then show ?thesis using disjunctive_add_eq_or [of "n AND m" h] by (simp add: add.commute)
qed

lemma low_bits: "n AND 15 = n mod 16" "n AND 63 = n mod 64" for n :: nat
  using take_bit_eq_mask [of 4 n] take_bit_eq_mask [of 6 n] by (simp_all add: mask_eq_exp_minus_1 take_bit_eq_mod)

lemma version_byte: "unat ((x AND 0x0f :: 8 word) OR 0x40) = 64 + unat x mod 16"
  using fixed_bits [of 15 64 "unat x"] by (simp add: unsigned_or_eq unsigned_and_eq low_bits)

lemma variant_byte: "unat ((x AND 0x3f :: 8 word) OR 0x80) = 128 + unat x mod 64"
  using fixed_bits [of 63 128 "unat x"] by (simp add: unsigned_or_eq unsigned_and_eq low_bits)

lemma version_inj: "(x AND 0x0f) OR 0x40 = (y AND 0x0f) OR 0x40 \<longleftrightarrow> x AND 0x0f = y AND 0x0f" for x y :: "8 word"
  by (simp add: word_eq_iff_unsigned [where 'a = nat] version_byte) (simp add: unsigned_and_eq low_bits)

lemma variant_inj: "(x AND 0x3f) OR 0x80 = (y AND 0x3f) OR 0x80 \<longleftrightarrow> x AND 0x3f = y AND 0x3f" for x y :: "8 word"
  by (simp add: word_eq_iff_unsigned [where 'a = nat] variant_byte) (simp add: unsigned_and_eq low_bits)

lemma kHexBytes_length: "length (kHexBytes b) = 2"
  by (simp add: kHexBytes_eq)

definition uuid_form :: "string \<Rightarrow> bool" where
  "uuid_form u \<longleftrightarrow> length u = 36 \<and> u ! 14 = CHR ''4'' \<and> u ! 19 \<in> set ''89ab'' \<and>
     (\<forall>i < 36. if i \<in> {8, 13, 18, 23} then u ! i = CHR ''-'' else u ! i \<in> set hexDigits)"

lemma variant_digit: "hexDigits ! ((128 + n mod 64) div 16) \<in> set ''89ab''"
proof -
  have "n mod 64 div 16 < 4" by (simp add: less_mult_imp_div_less)
  moreover have "(128 + n mod 64) div 16 = 8 + n mod 64 div 16" by simp
  ultimately have "(128 + n mod 64) div 16 \<in> {8, 9, 10, 11}" by auto
  then show ?thesis by (auto simp: hexDigits_def)
qed

text \<open>Groups of characters one after the other: a statement on all characters splits along them.\<close>

definition at_all :: "(nat \<Rightarrow> char \<Rightarrow> bool) \<Rightarrow> nat \<Rightarrow> string \<Rightarrow> bool" where
  "at_all P k u \<longleftrightarrow> (\<forall>i < length u. P (k + i) (u ! i))"

lemma at_all_Cons: "at_all P k (c # u) \<longleftrightarrow> P k c \<and> at_all P (Suc k) u"
  by (auto simp: at_all_def nth_Cons' less_Suc_eq_0_disj)

lemma at_all_Nil: "at_all P k []"
  by (simp add: at_all_def)

text \<open>A UUID has the form \<open>xxxxxxxx-xxxx-4xxx-Nxxx-xxxxxxxxxxxx\<close> of RFC 4122: 36 characters, hyphens at the four places,
  the version digit 4, the variant digit one of \<open>89ab\<close>, and lower-case hexadecimal digits everywhere else.\<close>

theorem uuid_has_form:
  assumes "offset + 16 \<le> length buf"
  shows "uuid_form (serializeUUID buf offset)"
proof -
  let ?u = "serializeUUID buf offset"
  let ?P = "\<lambda>i c. if i \<in> {8, 13, 18, 23 :: nat} then c = CHR ''-'' else c \<in> set hexDigits"
  have hex: "hexDigits ! (unat b div 16) \<in> set hexDigits" "hexDigits ! (unat b mod 16) \<in> set hexDigits" for b :: "8 word"
    by (simp_all add: hexDigits_nth nibble_bounds)
  have l: "length ?u = 36" by (simp add: serializeUUID_def kHexBytes_length)
  have "at_all ?P 0 ?u"
    unfolding serializeUUID_def kHexBytes_eq by (simp only: append.simps) (simp add: at_all_Cons at_all_Nil hex)
  then have "\<forall>i < 36. ?P i (?u ! i)" by (simp add: at_all_def l)
  moreover have "?u ! 14 = CHR ''4''"
    unfolding serializeUUID_def kHexBytes_eq by (simp only: append.simps) (simp add: version_byte, simp add: hexDigits_def)
  moreover have "?u ! 19 \<in> set ''89ab''"
    using variant_digit [of "unat (buf ! (offset + 8))"]
    unfolding serializeUUID_def kHexBytes_eq by (simp only: append.simps) (simp add: variant_byte)
  ultimately show ?thesis using l by (simp add: uuid_form_def)
qed

theorem uuid_has_form_witness: "uuid_form (serializeUUID (replicate 16 0xAB) 0)"
  using uuid_has_form [of 0 "replicate 16 0xAB"] by simp

text \<open>A UUID keeps all the entropy the form leaves: two of them are equal only if the sixteen bytes they are made from
  agree except for the four bits of the version and the two bits of the variant.\<close>

theorem uuid_keeps_entropy:
  assumes "offset + 16 \<le> length buf" "offset' + 16 \<le> length buf'"
    and "serializeUUID buf offset = serializeUUID buf' offset'"
  shows "\<forall>i < 16. buf ! (offset + i) AND (if i = 6 then 0x0f else if i = 8 then 0x3f else 0xff)
    = buf' ! (offset' + i) AND (if i = 6 then 0x0f else if i = 8 then 0x3f else 0xff)"
proof -
  have l: "length (kHexBytes b) = length (kHexBytes c)" for b c by (simp add: kHexBytes_length)
  have up: "[0 ..< 16] = [0, 1, 2, 3, 4, 5, 6, 7, 8, 9, 10, 11, 12, 13, 14, 15 :: nat]" by (simp add: upt_rec)
  have all: "(\<forall>i < 16. P i) \<longleftrightarrow> (\<forall>i \<in> set [0 ..< 16]. P i)" for P :: "nat \<Rightarrow> bool" by auto
  show ?thesis using assms(3) unfolding serializeUUID_def all up
    by (simp add: append_eq_append_conv [OF disjI1 [OF l]] kHexBytes_inj version_inj variant_inj)
qed

theorem uuid_keeps_entropy_witness:
  "serializeUUID ((replicate 16 1)[6 := 0x5A]) 0 = serializeUUID ((replicate 16 1)[6 := 0xFA]) 0 \<and>
   (0x5A AND 0x0f :: 8 word) = 0xFA AND 0x0f"
proof -
  have "serializeUUID ((replicate 16 1)[6 := 0x5A]) 0 = serializeUUID ((replicate 16 1)[6 := 0xFA]) 0"
    by (simp add: serializeUUID_def)
  then show ?thesis using uuid_keeps_entropy [of 0 "(replicate 16 1)[6 := 0x5A]" 0 "(replicate 16 1)[6 := 0xFA]"]
    by (auto dest: spec [of _ 6])
qed

section \<open>The batch\<close>

text \<open>What the generator put into the buffer of the batch at its \<open>f\<close>-th fill.\<close>

definition batch_of :: "generator \<Rightarrow> nat \<Rightarrow> bytes" where
  "batch_of gen f = map (gen f) [0 ..< 16 * kBatchSize]"

text \<open>A process that draws UUIDs from the batch, and random bytes, integers and other UUIDs in between, and fills buffers of its own.\<close>

inductive uuid_run :: "generator \<Rightarrow> string list \<Rightarrow> rand_state \<Rightarrow> bool" for gen where
  run_init: "uuid_run gen [] rand_init"
| run_uuid: "uuid_run gen us st \<Longrightarrow> opts \<in> {NoOptions, Options None, Options (Some (Some False))} \<Longrightarrow>
    randomUUID gen opts st = (Inr u, st') \<Longrightarrow> uuid_run gen (us @ [u]) st'"
| run_unbuffered: "uuid_run gen us st \<Longrightarrow> randomUUID gen (Options (Some (Some True))) st = (r, st') \<Longrightarrow> uuid_run gen us st'"
| run_bytes: "uuid_run gen us st \<Longrightarrow> randomBytes gen n cb st = (r, st') \<Longrightarrow> uuid_run gen us st'"
| run_fill: "uuid_run gen us st \<Longrightarrow> randomFillSync gen buf offset sz st = (r, st') \<Longrightarrow> uuid_run gen us st'"
| run_int: "uuid_run gen us st \<Longrightarrow> randomInt fuel gen lo hi cb st = Some (r, st') \<Longrightarrow> uuid_run gen us st'"

definition keeps_batch :: "rand_state \<Rightarrow> rand_state \<Rightarrow> bool" where
  "keeps_batch st st' \<longleftrightarrow> uuidData st' = uuidData st \<and> uuidBatch st' = uuidBatch st \<and> fills st \<le> fills st'"

lemma keeps_batch_refl: "keeps_batch st st"
  by (simp add: keeps_batch_def)

lemma keeps_batch_trans: "keeps_batch st st' \<Longrightarrow> keeps_batch st' st'' \<Longrightarrow> keeps_batch st st''"
  by (auto simp: keeps_batch_def)

lemma fill_keeps_batch: "randomFillSync gen b i n st = (r, st') \<Longrightarrow> keeps_batch st st'"
  by (auto simp: randomFillSync_def native_fill_def keeps_batch_def Let_def split: option.splits if_splits)

lemma tick_keeps_batch: "keeps_batch st st' \<Longrightarrow> keeps_batch st (next_tick cb v st')"
  by (simp add: keeps_batch_def next_tick_def)

lemma unbuffered_keeps_batch: "getUnbufferedUUID gen st = (r, st') \<Longrightarrow> keeps_batch st st'"
  using fill_keeps_batch
  by (fastforce simp: getUnbufferedUUID_def keeps_batch_def Let_def split: prod.splits sum.splits)

lemma bytes_keeps_batch: "randomBytes gen n cb st = (r, st') \<Longrightarrow> keeps_batch st st'"
  using fill_keeps_batch keeps_batch_refl tick_keeps_batch
  by (fastforce simp: randomBytes_def Let_def split: rand_arg.splits prod.splits sum.splits if_splits)

lemma int_loop_keeps_batch: "randomInt_loop n gen buf lo rng st = Some (r, st') \<Longrightarrow> keeps_batch st st'"
proof (induction n arbitrary: buf st)
  case (Suc n)
  obtain q s where f: "randomFillSync gen (Some buf) None None st = (q, s)" by fastforce
  from Suc.prems consider "st' = s" | b where "randomInt_loop n gen b lo rng s = Some (r, st')"
    by (auto simp: f Let_def split: sum.splits if_splits)
  then show ?case using fill_keeps_batch [OF f] Suc.IH keeps_batch_trans by cases blast+
qed simp

lemma int_keeps_batch: "randomInt fuel gen lo hi cb st = Some (r, st') \<Longrightarrow> keeps_batch st st'"
  by (auto simp: randomInt_def keeps_batch_refl split: prod.splits rand_arg.splits option.splits sum.splits if_splits
      intro: int_loop_keeps_batch tick_keeps_batch)

text \<open>The slices served so far, as pairs of a fill and a position.\<close>

definition batch_inv :: "generator \<Rightarrow> (nat \<times> nat) list \<Rightarrow> rand_state \<Rightarrow> bool" where
  "batch_inv gen ps st \<longleftrightarrow> distinct ps \<and> (\<forall>p \<in> set ps. fst p < fills st \<and> snd p < kBatchSize) \<and> uuidBatch st < kBatchSize \<and>
     (case uuidData st of None \<Rightarrow> uuidBatch st = 0 | Some d \<Rightarrow> length d = 16 * kBatchSize) \<and>
     (uuidBatch st \<noteq> 0 \<longrightarrow> (\<exists>f < fills st. uuidData st = Some (batch_of gen f) \<and> (\<forall>i. (f, i) \<in> set ps \<longrightarrow> 1 \<le> i \<and> i \<le> uuidBatch st)))"

lemma batch_inv_keeps:
  assumes "batch_inv gen ps st" "keeps_batch st st'" shows "batch_inv gen ps st'"
proof -
  have k: "uuidData st' = uuidData st" "uuidBatch st' = uuidBatch st" "f < fills st \<Longrightarrow> f < fills st'" for f
    using assms(2) by (auto simp: keeps_batch_def)
  show ?thesis using assms(1) k(3) unfolding batch_inv_def k(1,2) by blast
qed

lemma buffered_serves_fresh:
  assumes inv: "batch_inv gen ps st" and u: "getBufferedUUID gen st = (Inr u, st')"
  shows "\<exists>f i. u = serializeUUID (batch_of gen f) (16 * i) \<and> batch_inv gen (ps @ [(f, i)]) st'"
proof (cases "uuidBatch st = 0")
  case True
  let ?f = "fills st"
  have len: "length (case uuidData st of None \<Rightarrow> buffer_alloc (16 * kBatchSize) | Some d \<Rightarrow> d) = 16 * kBatchSize"
    using inv by (auto simp: batch_inv_def buffer_alloc_def split: option.splits)
  then have ne: "(case uuidData st of None \<Rightarrow> buffer_alloc (16 * kBatchSize) | Some d \<Rightarrow> d) \<noteq> []"
    by (auto simp: kBatchSize_def)
  have "u = serializeUUID (batch_of gen ?f) (16 * 1)" "st' = st\<lparr>uuidData := Some (batch_of gen ?f), uuidBatch := 1, fills := ?f + 1\<rparr>"
    using u True ne by (auto simp: getBufferedUUID_def fill_all len batch_of_def kBatchSize_def Let_def)
  moreover have "batch_inv gen (ps @ [(?f, 1)]) (st\<lparr>uuidData := Some (batch_of gen ?f), uuidBatch := 1, fills := ?f + 1\<rparr>)"
    using inv by (fastforce simp: batch_inv_def kBatchSize_def batch_of_def)
  ultimately show ?thesis by blast
next
  case False
  then obtain f where f: "f < fills st" "uuidData st = Some (batch_of gen f)"
    "\<forall>i. (f, i) \<in> set ps \<longrightarrow> 1 \<le> i \<and> i \<le> uuidBatch st" using inv by (auto simp: batch_inv_def)
  let ?i = "(uuidBatch st + 1) mod kBatchSize"
  have lt: "uuidBatch st < kBatchSize" using inv by (simp add: batch_inv_def)
  have st': "u = serializeUUID (batch_of gen f) (16 * ?i)" "st' = st\<lparr>uuidBatch := ?i\<rparr>"
    using u False f(2) by (auto simp: getBufferedUUID_def Let_def mult.commute)
  have i: "?i = 0 \<or> ?i = uuidBatch st + 1" using lt by (cases "uuidBatch st + 1 = kBatchSize") auto
  then have "(f, ?i) \<notin> set ps" using f(3) by auto
  moreover have "?i \<noteq> 0 \<Longrightarrow> \<forall>j. (f, j) \<in> set (ps @ [(f, ?i)]) \<longrightarrow> 1 \<le> j \<and> j \<le> ?i" using f(3) i by auto
  moreover have "?i < kBatchSize" by (simp add: kBatchSize_def)
  ultimately have "batch_inv gen (ps @ [(f, ?i)]) (st\<lparr>uuidBatch := ?i\<rparr>)"
    using inv f(1,2) by (auto simp: batch_inv_def)
  then show ?thesis using st' by blast
qed

lemma buffered_returns: "\<exists>u st'. getBufferedUUID gen st = (Inr u, st')"
  by (cases "uuidBatch st = 0") (simp_all add: getBufferedUUID_def fill_all Let_def)

lemma uuid_run_inv:
  "uuid_run gen us st \<Longrightarrow> \<exists>ps. batch_inv gen ps st \<and> us = map (\<lambda>(f, i). serializeUUID (batch_of gen f) (16 * i)) ps"
proof (induction rule: uuid_run.induct)
  case run_init
  have "batch_inv gen [] rand_init" by (simp add: batch_inv_def rand_init_def kBatchSize_def)
  then show ?case by (intro exI [of _ "[]"]) simp
next
  case (run_uuid us st opts u st')
  then obtain ps where ps: "batch_inv gen ps st" "us = map (\<lambda>(f, i). serializeUUID (batch_of gen f) (16 * i)) ps" by blast
  have "getBufferedUUID gen st = (Inr u, st')" using run_uuid by (auto simp: randomUUID_def)
  then obtain f i where "u = serializeUUID (batch_of gen f) (16 * i)" "batch_inv gen (ps @ [(f, i)]) st'"
    using buffered_serves_fresh [OF ps(1)] by blast
  then show ?case using ps(2) by (intro exI [of _ "ps @ [(f, i)]"]) simp
next
  case (run_unbuffered us st r st')
  then show ?case using batch_inv_keeps unbuffered_keeps_batch by (fastforce simp: randomUUID_def)
next
  case (run_bytes us st n cb r st') then show ?case using batch_inv_keeps bytes_keeps_batch by blast
next
  case (run_fill us st buf offset sz r st') then show ?case using batch_inv_keeps fill_keeps_batch by blast
next
  case (run_int us st fuel lo hi cb r st') then show ?case using batch_inv_keeps int_keeps_batch by blast
qed

text \<open>C39: No entropy is served twice: the UUIDs a process draws from the batch, whatever other random values it draws in between,
  are made from distinct slices of the fills of the generator, each fill giving at most \<open>kBatchSize\<close> slices of sixteen bytes.\<close>

theorem uuid_slices_distinct:
  assumes "uuid_run gen us st"
  shows "\<exists>ps. us = map (\<lambda>(f, i). serializeUUID (batch_of gen f) (16 * i)) ps \<and> distinct ps \<and>
    (\<forall>(f, i) \<in> set ps. f < fills st \<and> i < kBatchSize)"
proof -
  obtain ps where "batch_inv gen ps st" "us = map (\<lambda>(f, i). serializeUUID (batch_of gen f) (16 * i)) ps"
    using uuid_run_inv [OF assms] by blast
  then show ?thesis by (intro exI [of _ ps]) (auto simp: batch_inv_def)
qed

theorem uuid_slices_distinct_witness:
  "\<exists>u st. uuid_run (\<lambda>_ _. 7) [u] st \<and> (\<exists>ps. [u] = map (\<lambda>(f, i). serializeUUID (batch_of (\<lambda>_ _. 7) f) (16 * i)) ps \<and> distinct ps \<and>
    (\<forall>(f, i) \<in> set ps. f < fills st \<and> i < kBatchSize))"
proof -
  obtain u st where "randomUUID (\<lambda>_ _. 7) NoOptions rand_init = (Inr u, st)"
    using buffered_returns [of "\<lambda>_ _. 7" rand_init] by (auto simp: randomUUID_def)
  then have r: "uuid_run (\<lambda>_ _. 7) [u] st" using run_uuid [OF run_init, of NoOptions "\<lambda>_ _. 7" u st] by simp
  show ?thesis by (rule exI [of _ u], rule exI [of _ st], rule conjI [OF r uuid_slices_distinct [OF r]])
qed

section \<open>Hashing\<close>

text \<open>A stream of chunks piped into a hash object.\<close>

fun pipe_chunks :: "'s crypto_env \<Rightarrow> bytes list \<Rightarrow> 's hash_obj \<Rightarrow> unit result \<times> 's hash_obj" where
  "pipe_chunks env [] h = (Inr (), h)"
| "pipe_chunks env (c # cs) h =
     (case Hash_transform env (Bytes c) None h of (Inl e, h) \<Rightarrow> (Inl e, h) | (Inr _, h) \<Rightarrow> pipe_chunks env cs h)"

text \<open>What the binding documents: updating twice is updating with the concatenation.\<close>

definition streaming_hash :: "'s crypto_env \<Rightarrow> bool" where
  "streaming_hash env \<longleftrightarrow> (\<forall>s. native_update env [] s = s) \<and>
     (\<forall>a b s. native_update env b (native_update env a s) = native_update env (a @ b) s)"

lemma pipe_chunks_open:
  assumes "streaming_hash env"
  shows "\<not> finalized h \<Longrightarrow> pipe_chunks env cs h = (Inr (), h\<lparr>hctx := native_update env (concat cs) (hctx h)\<rparr>)"
  using assms by (induction cs arbitrary: h) (auto simp: Hash_transform_def Hash_update_def data_bytes_def streaming_hash_def)

text \<open>Piping a stream into a hash object is hashing its whole contents at once, however the contents are cut into chunks:
  what \<open>_flush\<close> pushes is what the one-shot \<open>hash\<close> answers for the concatenation, and afterwards the object is spent:
  \<open>update\<close>, \<open>digest\<close> and \<open>copy\<close> throw and change nothing.\<close>

theorem hash_stream_is_oneshot:
  assumes "streaming_hash env" "new_Hash env algorithm = Inr h" "pipe_chunks env cs h = (r, h')" "Hash_flush env h' = (out, h'')"
  shows "r = Inr () \<and> out = hash_once env algorithm (Bytes (concat cs)) (Some ''buffer'') \<and>
    Hash_update env d enc h'' = (Inl digest_called, h'') \<and> Hash_digest env oenc h'' = (Inl digest_called, h'') \<and>
    Hash_copy env h'' = Inl digest_called"
proof -
  have h: "\<not> finalized h" using assms(2) by (auto simp: new_Hash_def split: sum.splits)
  then show ?thesis using assms(2-4) pipe_chunks_open [OF assms(1) h, of cs]
    by (auto simp: Hash_flush_def Hash_digest_def hash_once_def data_bytes_def Hash_update_def Hash_copy_def encode_out_def)
qed

text \<open>The native hash that keeps the bytes it is given.\<close>

definition plain_hash :: "bytes crypto_env" where
  "plain_hash = \<lparr>native_new = (\<lambda>_. Inr []), native_update = (\<lambda>b s. s @ b), native_digest = (\<lambda>s. s),
     hmac_init = (\<lambda>_ k. Inr k), hmac_update = (\<lambda>b s. s @ b), hmac_digest = (\<lambda>s. s),
     buffer_from = (\<lambda>t _. Inr (map (\<lambda>c. of_nat (of_char c)) t)), buffer_toString = (\<lambda>_ b. Inr (map (\<lambda>x. char_of (unat x)) b))\<rparr>"

theorem hash_stream_is_oneshot_witness:
  "streaming_hash plain_hash \<and>
   fst (Hash_flush plain_hash (snd (pipe_chunks plain_hash [[1, 2], [3]] \<lparr>hctx = [], finalized = False\<rparr>)))
     = hash_once plain_hash ''sha1'' (Bytes [1, 2, 3]) (Some ''buffer'')"
proof -
  let ?h = "\<lparr>hctx = [], finalized = False\<rparr>"
  have s: "streaming_hash plain_hash" by (simp add: streaming_hash_def plain_hash_def)
  have h: "new_Hash plain_hash ''sha1'' = Inr ?h" by (simp add: new_Hash_def plain_hash_def)
  show ?thesis using hash_stream_is_oneshot [OF s h surjective_pairing surjective_pairing, where cs = "[[1, 2], [3]]"] s by simp
qed

end
