(* ===== verification/InspectorServer.thy ===== *)
theory InspectorServer
  imports UriCodec
begin

text \<open>
  The inspector's server (\<open>libjs/shims/inspector-server.js\<close>), which connects one debugger to the main runtime: the HTTP
  endpoints, the WebSocket connection with its replay buffer, and the rewriting of the protocol's messages.  Strings are lists of
  UTF-16 code units.  The sockets, the bridge to the main runtime and the file system are the environment; what
  the server tells them is recorded in the state.  \<open>JSON.parse\<close>, \<open>RegExp\<close> and reading a file are parameters;
  \<open>JSON.stringify\<close> is written out.
\<close>

definition ascii :: "string \<Rightarrow> ustring" where
  "ascii s = map of_char s"

section \<open>JSON\<close>

text \<open>A number is kept as its text.\<close>

datatype json = JsonNull | JsonBool bool | JsonNum ustring | JsonStr ustring | JsonArr "json list" | JsonObj "(ustring \<times> json) list"

definition unicode_escape :: "nat \<Rightarrow> ustring" where
  "unicode_escape c = ascii [CHR 0x5C, CHR ''u''] @ map (\<lambda>d. if d < 10 then 48 + d else 87 + d)
     [c div 4096, c div 256 mod 16, c div 16 mod 16, c mod 16]"

definition json_escape :: "nat \<Rightarrow> ustring" where
  "json_escape c =
     (if c = 0x22 \<or> c = 0x5C then [0x5C, c]
      else if c = 8 then ascii [CHR 0x5C, CHR ''b'']
      else if c = 9 then ascii [CHR 0x5C, CHR ''t'']
      else if c = 10 then ascii [CHR 0x5C, CHR ''n'']
      else if c = 12 then ascii [CHR 0x5C, CHR ''f'']
      else if c = 13 then ascii [CHR 0x5C, CHR ''r'']
      else if c < 32 then unicode_escape c
      else [c])"

text \<open>A surrogate without its partner is escaped, a pair is not.\<close>

fun quote_units :: "ustring \<Rightarrow> ustring" where
  "quote_units [] = []"
| "quote_units (c # cs) =
     (if is_high c then
        (case cs of
           d # ds \<Rightarrow> if is_low d then c # d # quote_units ds else unicode_escape c @ quote_units cs
         | [] \<Rightarrow> unicode_escape c)
      else if is_low c then unicode_escape c @ quote_units cs
      else json_escape c @ quote_units cs)"

definition json_quote :: "ustring \<Rightarrow> ustring" where
  "json_quote s = [0x22] @ quote_units s @ [0x22]"

fun stringify :: "json \<Rightarrow> ustring" where
  "stringify JsonNull = ascii ''null''"
| "stringify (JsonBool b) = ascii (if b then ''true'' else ''false'')"
| "stringify (JsonNum t) = t"
| "stringify (JsonStr s) = json_quote s"
| "stringify (JsonArr xs) = ascii ''['' @ js_join (ascii '','') (map stringify xs) @ ascii '']''"
| "stringify (JsonObj ps) = ascii ''{'' @ js_join (ascii '','') (map (\<lambda>(k, v). json_quote k @ ascii '':'' @ stringify v) ps) @ ascii ''}''"

text \<open>Property access, truthiness and conversion to a property key.\<close>

definition json_get :: "string \<Rightarrow> json \<Rightarrow> json option" where
  "json_get k v = (case v of JsonObj ps \<Rightarrow> map_of ps (ascii k) | _ \<Rightarrow> None)"

definition json_truthy :: "json option \<Rightarrow> bool" where
  "json_truthy v =
     (case v of
        None \<Rightarrow> False
      | Some JsonNull \<Rightarrow> False
      | Some (JsonBool b) \<Rightarrow> b
      | Some (JsonNum t) \<Rightarrow> t \<noteq> ascii ''0''
      | Some (JsonStr s) \<Rightarrow> s \<noteq> []
      | Some _ \<Rightarrow> True)"

fun json_key :: "json \<Rightarrow> ustring" where
  "json_key JsonNull = ascii ''null''"
| "json_key (JsonBool b) = ascii (if b then ''true'' else ''false'')"
| "json_key (JsonNum t) = t"
| "json_key (JsonStr s) = s"
| "json_key (JsonArr xs) = js_join (ascii '','') (map (\<lambda>x. if x = JsonNull then [] else json_key x) xs)"
| "json_key (JsonObj ps) = ascii ''[object Object]''"

definition json_set :: "string \<Rightarrow> json \<Rightarrow> (ustring \<times> json) list \<Rightarrow> (ustring \<times> json) list" where
  "json_set k v ps =
     (if map_of ps (ascii k) = None then ps @ [(ascii k, v)]
      else map (\<lambda>(k', w). if k' = ascii k then (k', v) else (k', w)) ps)"

definition json_delete :: "string \<Rightarrow> (ustring \<times> json) list \<Rightarrow> (ustring \<times> json) list" where
  "json_delete k ps = filter (\<lambda>p. fst p \<noteq> ascii k) ps"

section \<open>The HTTP endpoints\<close>

record insp_config =
  cfg_host :: ustring
  cfg_port :: ustring
  cfg_session :: ustring
  cfg_script :: ustring

record http_response =
  status :: nat
  contentType :: string
  payload :: ustring

definition response :: "nat \<Rightarrow> string \<Rightarrow> ustring \<Rightarrow> http_response" where
  "response s t b = \<lparr>status = s, contentType = t, payload = b\<rparr>"

definition session_address :: "insp_config \<Rightarrow> ustring" where
  "session_address cfg = cfg_host cfg @ ascii '':'' @ cfg_port cfg @ ascii ''/'' @ cfg_session cfg"

definition json_target :: "insp_config \<Rightarrow> json" where
  "json_target cfg =
     JsonArr [JsonObj
       [(ascii ''description'', JsonStr (ascii ''hermes-node instance'')),
        (ascii ''id'', JsonStr (cfg_session cfg)),
        (ascii ''title'', JsonStr (if cfg_script cfg \<noteq> [] then cfg_script cfg else ascii ''hermes-node'')),
        (ascii ''type'', JsonStr (ascii ''node'')),
        (ascii ''url'', JsonStr (if cfg_script cfg \<noteq> [] then ascii ''file://'' @ cfg_script cfg else [])),
        (ascii ''webSocketDebuggerUrl'', JsonStr (ascii ''ws://'' @ session_address cfg)),
        (ascii ''devtoolsFrontendUrl'',
          JsonStr (ascii ''http://'' @ cfg_host cfg @ ascii '':'' @ cfg_port cfg @ ascii ''/devtools/inspector.html?ws='' @ session_address cfg))]]"

definition version_info :: json where
  "version_info = JsonObj [(ascii ''Browser'', JsonStr (ascii ''hermes-node/0.1.0'')), (ascii ''Protocol-Version'', JsonStr (ascii ''1.1''))]"

text \<open>\<open>(url.match(/[?&]ws=([^&]+)/) || [])[1]\<close>.\<close>

fun ws_param :: "ustring \<Rightarrow> ustring option" where
  "ws_param [] = None"
| "ws_param (c # cs) =
     (let v = takeWhile (\<lambda>x. x \<noteq> 0x26) (drop 3 cs)
      in if (c = 0x3F \<or> c = 0x26) \<and> take 3 cs = ascii ''ws='' \<and> v \<noteq> [] then Some v else ws_param cs)"

definition cdnBase :: ustring where
  "cdnBase = ascii (''https://chrome-devtools-frontend.appspot.com/serve_file/'' @ ''@60127beb442528082b3f6eff7392267e145262c3/js_app.html'')"

definition devtools_page :: "ustring \<Rightarrow> ustring" where
  "devtools_page ws =
     ascii ''<!DOCTYPE html><html><head><script>location = '' @ stringify (JsonStr cdnBase) @
     ascii ('' + '' @ [CHR 0x22] @ ''?ws='' @ [CHR 0x22] @ '' + '') @ stringify (JsonStr ws) @ ascii '';'' @
     ascii ''</script></head><body>Opening DevTools...</body></html>''"

definition pathname_of :: "ustring \<Rightarrow> ustring" where
  "pathname_of url = (if index_of url 0x3F \<ge> 0 then js_slice url 0 (index_of url 0x3F) else url)"

text \<open>The request handler; an error is an exception nobody catches.\<close>

definition http_handler :: "insp_config \<Rightarrow> ustring \<Rightarrow> http_response result" where
  "http_handler cfg reqUrl =
     (let url = (if reqUrl = [] then ascii ''/'' else reqUrl); pathname = pathname_of url in
      if pathname = ascii ''/json'' \<or> pathname = ascii ''/json/list''
      then Inr (response 200 ''application/json'' (stringify (json_target cfg)))
      else if pathname = ascii ''/json/version'' then Inr (response 200 ''application/json'' (stringify version_info))
      else if starts_with pathname (ascii ''/devtools/'') then
        (case (case ws_param url of Some m \<Rightarrow> decodeURIComponent m | None \<Rightarrow> Inr (session_address cfg)) of
           Inl e \<Rightarrow> Inl e
         | Inr ws \<Rightarrow> Inr (response 200 ''text/html'' (devtools_page ws)))
      else Inr (response 404 ''text/plain'' (ascii ''Not Found'')))"

section \<open>The connection\<close>

record insp_env =
  parse_json :: "ustring \<Rightarrow> json result"
  compile_regexp :: "ustring \<Rightarrow> (ustring \<Rightarrow> bool) option"
  read_file :: "json \<Rightarrow> ustring result"

record insp_state =
  activeWs :: "nat option"
  pendingMessages :: "ustring list"
  scriptUrls :: "(ustring \<times> json) list"
  accepted :: "nat list"
  wsOpen :: "nat list"
  sentToClient :: "(nat \<times> ustring) list"
  replies :: "(nat \<times> ustring) list"
  sentToMain :: "ustring list"
  closedBy :: "(nat \<times> nat) list"
  serverClosed :: bool

definition insp_init :: insp_state where
  "insp_init = \<lparr>activeWs = None, pendingMessages = [], scriptUrls = [], accepted = [], wsOpen = [], sentToClient = [], replies = [],
     sentToMain = [], closedBy = [], serverClosed = False\<rparr>"

text \<open>\<open>str.indexOf(word) !== -1\<close>.\<close>

fun contains :: "ustring \<Rightarrow> ustring \<Rightarrow> bool" where
  "contains [] w \<longleftrightarrow> w = []"
| "contains (c # cs) w \<longleftrightarrow> starts_with (c # cs) w \<or> contains cs w"

text \<open>The order of \<open>for (var sid in scriptUrls)\<close>: array indices in ascending order, then the other keys as they were added.\<close>

definition digit_value :: "ustring \<Rightarrow> nat" where
  "digit_value k = foldl (\<lambda>n d. 10 * n + (d - 48)) 0 k"

definition is_array_index :: "ustring \<Rightarrow> bool" where
  "is_array_index k \<longleftrightarrow> k \<noteq> [] \<and> (\<forall>d \<in> set k. 48 \<le> d \<and> d \<le> 57) \<and> (hd k = 48 \<longrightarrow> k = [48]) \<and> digit_value k < 2 ^ 32 - 1"

definition for_in :: "(ustring \<times> json) list \<Rightarrow> json list" where
  "for_in ps = map snd (sort_key (\<lambda>p. digit_value (fst p)) (filter (\<lambda>p. is_array_index (fst p)) ps) @ filter (\<lambda>p. \<not> is_array_index (fst p)) ps)"

text \<open>\<open>a.replace(/\\\\(.)/g, '$1')\<close>; the dot does not match the end of a line.\<close>

fun undo_escapes :: "ustring \<Rightarrow> ustring" where
  "undo_escapes [] = []"
| "undo_escapes [c] = [c]"
| "undo_escapes (c # d # cs) =
     (if c = 0x5C \<and> d \<notin> {0x0A, 0x0D, 0x2028, 0x2029} then d # undo_escapes cs else c # undo_escapes (d # cs))"

definition not_a_function :: js_error where
  "not_a_function = JsError None ''urlRegex.split is not a function''"

definition pickUrlForRegex :: "insp_env \<Rightarrow> json \<Rightarrow> insp_state \<Rightarrow> json option result" where
  "pickUrlForRegex env urlRegex st =
     (case compile_regexp env (json_key urlRegex) of
        None \<Rightarrow> Inr None
      | Some matches \<Rightarrow>
          (case filter (\<lambda>u. matches (json_key u)) (for_in (scriptUrls st)) of
             u # _ \<Rightarrow> Inr (Some u)
           | [] \<Rightarrow>
               (case urlRegex of
                  JsonStr r \<Rightarrow>
                    (let alts = map undo_escapes (js_split r 0x7C) in
                     case filter (\<lambda>a. \<not> starts_with a (ascii ''file://'')) alts of
                       a # _ \<Rightarrow> Inr (Some (JsonStr a))
                     | [] \<Rightarrow> Inr (if hd alts = [] then None else Some (JsonStr (hd alts))))
                | _ \<Rightarrow> Inl not_a_function)))"

text \<open>A new connection.\<close>

definition on_connection :: "nat \<Rightarrow> insp_state \<Rightarrow> insp_state" where
  "on_connection ws st =
     (let st = st\<lparr>wsOpen := ws # wsOpen st\<rparr> in
      if activeWs st \<noteq> None then st\<lparr>closedBy := closedBy st @ [(ws, 1013)], wsOpen := removeAll ws (wsOpen st)\<rparr>
      else st\<lparr>activeWs := Some ws, accepted := ws # accepted st,
              sentToClient := sentToClient st @ map (Pair ws) (pendingMessages st), pendingMessages := []\<rparr>)"

text \<open>The source of a script, if the message asks for one the server can read.\<close>

definition script_source :: "insp_env \<Rightarrow> ustring \<Rightarrow> insp_state \<Rightarrow> ustring option" where
  "script_source env str st =
     (if contains str (ascii ''getScriptSource'') then
        (case parse_json env str of
           Inl _ \<Rightarrow> None
         | Inr msg \<Rightarrow>
             if json_get ''method'' msg = Some (JsonStr (ascii ''Debugger.getScriptSource'')) then
               (case json_get ''params'' msg of
                  None \<Rightarrow> None
                | Some params \<Rightarrow>
                    (case json_get ''scriptId'' params of
                       None \<Rightarrow> None
                     | Some scriptId \<Rightarrow>
                         (let url = map_of (scriptUrls st) (json_key scriptId) in
                          if json_truthy (Some scriptId) \<and> json_truthy url then
                            (case read_file env (the url) of
                               Inl _ \<Rightarrow> None
                             | Inr source \<Rightarrow>
                                 Some (stringify (JsonObj ((case json_get ''id'' msg of None \<Rightarrow> [] | Some i \<Rightarrow> [(ascii ''id'', i)]) @
                                   [(ascii ''result'', JsonObj [(ascii ''scriptSource'', JsonStr source)])]))))
                          else None)))
             else None)
      else None)"

text \<open>The message with a breakpoint by regular expression turned into one by URL.\<close>

definition rewrite_breakpoint :: "insp_env \<Rightarrow> ustring \<Rightarrow> insp_state \<Rightarrow> ustring" where
  "rewrite_breakpoint env str st =
     (if contains str (ascii ''setBreakpointByUrl'') then
        (case parse_json env str of
           Inl _ \<Rightarrow> str
         | Inr (JsonObj ps) \<Rightarrow>
             (case map_of ps (ascii ''params'') of
                Some (JsonObj qs) \<Rightarrow>
                  if map_of ps (ascii ''method'') = Some (JsonStr (ascii ''Debugger.setBreakpointByUrl'')) \<and>
                     json_truthy (map_of qs (ascii ''urlRegex'')) \<and> \<not> json_truthy (map_of qs (ascii ''url'')) then
                    (case pickUrlForRegex env (the (map_of qs (ascii ''urlRegex''))) st of
                       Inl _ \<Rightarrow> str
                     | Inr u \<Rightarrow>
                         if json_truthy u
                         then stringify (JsonObj (json_set ''params'' (JsonObj (json_delete ''urlRegex'' (json_set ''url'' (the u) qs))) ps))
                         else str)
                  else str
              | _ \<Rightarrow> str)
         | _ \<Rightarrow> str)
      else str)"

definition on_message :: "insp_env \<Rightarrow> nat \<Rightarrow> ustring \<Rightarrow> insp_state \<Rightarrow> insp_state" where
  "on_message env ws str st =
     (if ws \<in> set (accepted st) then
        (case script_source env str st of
           Some reply \<Rightarrow> st\<lparr>replies := replies st @ [(ws, reply)]\<rparr>
         | None \<Rightarrow> st\<lparr>sentToMain := sentToMain st @ [rewrite_breakpoint env str st]\<rparr>)
      else st)"

text \<open>The \<open>close\<close> and the \<open>error\<close> events; a closed socket is no longer open.\<close>

definition on_close :: "nat \<Rightarrow> insp_state \<Rightarrow> insp_state" where
  "on_close ws st = (if ws \<in> set (accepted st) \<and> activeWs st = Some ws then st\<lparr>activeWs := None\<rparr> else st)"

definition on_outbound :: "insp_env \<Rightarrow> ustring \<Rightarrow> insp_state \<Rightarrow> insp_state" where
  "on_outbound env msg st =
     (let st = (if contains msg (ascii ''scriptParsed'') then
                  (case parse_json env msg of
                     Inl _ \<Rightarrow> st
                   | Inr parsed \<Rightarrow>
                       if json_get ''method'' parsed = Some (JsonStr (ascii ''Debugger.scriptParsed'')) then
                         (case json_get ''params'' parsed of
                            None \<Rightarrow> st
                          | Some p \<Rightarrow>
                              if json_truthy (json_get ''scriptId'' p) \<and> json_truthy (json_get ''url'' p)
                              then st\<lparr>scriptUrls := (let k = json_key (the (json_get ''scriptId'' p)); u = the (json_get ''url'' p) in
                                if map_of (scriptUrls st) k = None then scriptUrls st @ [(k, u)]
                                else map (\<lambda>(k', w). if k' = k then (k', u) else (k', w)) (scriptUrls st))\<rparr>
                              else st)
                       else st)
                else st)
      in case activeWs st of
           Some ws \<Rightarrow>
             if ws \<in> set (wsOpen st) then st\<lparr>sentToClient := sentToClient st @ [(ws, msg)]\<rparr>
             else st\<lparr>pendingMessages := pendingMessages st @ [msg]\<rparr>
         | None \<Rightarrow> st\<lparr>pendingMessages := pendingMessages st @ [msg]\<rparr>)"

definition on_shutdown :: "insp_state \<Rightarrow> insp_state" where
  "on_shutdown st =
     (case activeWs st of
        Some ws \<Rightarrow> st\<lparr>closedBy := closedBy st @ [(ws, 1005)], wsOpen := removeAll ws (wsOpen st), activeWs := None, serverClosed := True\<rparr>
      | None \<Rightarrow> st\<lparr>serverClosed := True\<rparr>)"

section \<open>Runs\<close>

datatype insp_event =
    Connection nat
  | ClientMessage nat ustring
  | Closing nat
  | Closed nat
  | SocketError nat
  | Outbound ustring
  | Shutdown

fun insp_step :: "insp_env \<Rightarrow> insp_event \<Rightarrow> insp_state \<Rightarrow> insp_state" where
  "insp_step env (Connection ws) st = on_connection ws st"
| "insp_step env (ClientMessage ws str) st = on_message env ws str st"
| "insp_step env (Closing ws) st = st\<lparr>wsOpen := removeAll ws (wsOpen st)\<rparr>"
| "insp_step env (Closed ws) st = on_close ws (st\<lparr>wsOpen := removeAll ws (wsOpen st)\<rparr>)"
| "insp_step env (SocketError ws) st = on_close ws st"
| "insp_step env (Outbound msg) st = on_outbound env msg st"
| "insp_step env Shutdown st = on_shutdown st"

definition insp_run :: "insp_env \<Rightarrow> insp_event list \<Rightarrow> insp_state" where
  "insp_run env evs = fold (insp_step env) evs insp_init"

end
