(* ===== verification/InspectorServerProps.thy ===== *)
theory InspectorServerProps
  imports InspectorServer
begin

text \<open>
  The inspector's server delivers the messages of the main runtime to its debuggers in order and without loss, one debugger at
  a time, and forwards what a debugger sends; what its HTTP endpoints answer is escaped for JSON but not for HTML.
\<close>

section \<open>Delivery\<close>

definition outbound_of :: "insp_event list \<Rightarrow> ustring list" where
  "outbound_of evs = concat (map (\<lambda>e. case e of Outbound m \<Rightarrow> [m] | _ \<Rightarrow> []) evs)"

definition connections_of :: "insp_event list \<Rightarrow> nat list" where
  "connections_of evs = concat (map (\<lambda>e. case e of Connection ws \<Rightarrow> [ws] | _ \<Rightarrow> []) evs)"

text \<open>The invariant, for the messages \<open>ms\<close> and the connections \<open>cs\<close> so far: nothing is waiting while an open debugger is there,
  every message is with a debugger or waiting, and the active debugger is the last one that was served, or was not served yet.\<close>

definition delivery_inv :: "ustring list \<Rightarrow> nat list \<Rightarrow> insp_state \<Rightarrow> bool" where
  "delivery_inv ms cs st \<longleftrightarrow>
     (\<forall>ws. activeWs st = Some ws \<longrightarrow> ws \<in> set (wsOpen st) \<longrightarrow> pendingMessages st = []) \<and>
     map snd (sentToClient st) @ pendingMessages st = ms \<and>
     fst ` set (sentToClient st) \<subseteq> set cs \<and> distinct (remdups_adj (map fst (sentToClient st))) \<and>
     (\<forall>ws. activeWs st = Some ws \<longrightarrow> ws \<in> set cs \<and> (ws \<in> fst ` set (sentToClient st) \<longrightarrow> fst (last (sentToClient st)) = ws))"

lemma remdups_adj_snoc: "remdups_adj (xs @ [x]) = (if xs \<noteq> [] \<and> last xs = x then remdups_adj xs else remdups_adj xs @ [x])"
  by (induction xs rule: remdups_adj.induct) auto

lemma remdups_adj_block: "y \<notin> set xs \<Longrightarrow> distinct (remdups_adj xs) \<Longrightarrow> distinct (remdups_adj (xs @ replicate n y))"
proof (induction n)
  case (Suc n)
  let ?ys = "xs @ replicate n y"
  have e: "xs @ replicate (Suc n) y = ?ys @ [y]" by (simp add: replicate_append_same)
  have "y \<in> set ?ys \<Longrightarrow> last ?ys = y \<and> ?ys \<noteq> []" using Suc.prems(1) by (cases n) auto
  moreover have "distinct (remdups_adj ?ys)" using Suc by simp
  ultimately show ?case unfolding e remdups_adj_snoc by auto
qed simp

lemma on_outbound_fields:
  "activeWs (on_outbound env m st) = activeWs st" "wsOpen (on_outbound env m st) = wsOpen st"
  "sentToClient (on_outbound env m st) =
     (case activeWs st of Some ws \<Rightarrow> if ws \<in> set (wsOpen st) then sentToClient st @ [(ws, m)] else sentToClient st | None \<Rightarrow> sentToClient st)"
  "pendingMessages (on_outbound env m st) =
     (case activeWs st of Some ws \<Rightarrow> if ws \<in> set (wsOpen st) then pendingMessages st else pendingMessages st @ [m] | None \<Rightarrow> pendingMessages st @ [m])"
  by (auto simp: on_outbound_def Let_def split: option.split sum.split)

lemma outbound_delivery:
  assumes "delivery_inv ms cs st" shows "delivery_inv (ms @ [m]) cs (on_outbound env m st)"
proof (cases "\<exists>ws. activeWs st = Some ws \<and> ws \<in> set (wsOpen st)")
  case True
  then obtain ws where ws: "activeWs st = Some ws" "ws \<in> set (wsOpen st)" by blast
  have "distinct (remdups_adj (map fst (sentToClient st) @ [ws]))"
  proof (cases "ws \<in> fst ` set (sentToClient st)")
    case True
    then have "map fst (sentToClient st) \<noteq> [] \<and> last (map fst (sentToClient st)) = ws"
      using assms ws by (cases "sentToClient st") (auto simp: delivery_inv_def last_map)
    then show ?thesis using assms by (simp add: remdups_adj_snoc delivery_inv_def)
  next
    case False
    then show ?thesis using assms remdups_adj_block [of ws "map fst (sentToClient st)" 1] by (simp add: delivery_inv_def)
  qed
  then show ?thesis using assms ws by (auto simp: delivery_inv_def on_outbound_fields)
next
  case False
  then show ?thesis using assms by (auto simp: delivery_inv_def on_outbound_fields split: option.splits)
qed

lemma connection_delivery:
  assumes "delivery_inv ms cs st" "ws \<notin> set cs" shows "delivery_inv ms (cs @ [ws]) (on_connection ws st)"
proof (cases "activeWs st")
  case (Some w)
  then show ?thesis using assms by (auto simp: delivery_inv_def on_connection_def Let_def)
next
  case None
  have new: "ws \<notin> set (map fst (sentToClient st))" using assms by (auto simp: delivery_inv_def)
  have m: "map fst (map (Pair ws) ps) = replicate (length ps) ws" for ps :: "ustring list" by (induction ps) auto
  have "distinct (remdups_adj (map fst (sentToClient st @ map (Pair ws) (pendingMessages st))))"
    using remdups_adj_block [OF new, of "length (pendingMessages st)"] assms
    unfolding map_append m by (simp add: delivery_inv_def)
  moreover have "fst (last (sentToClient st @ map (Pair ws) ps)) = ws" if "ps \<noteq> []" for ps :: "ustring list"
    using that by (simp add: last_map)
  then have "x \<in> set (pendingMessages st) \<Longrightarrow> fst (last (sentToClient st @ map (Pair ws) (pendingMessages st))) = ws" for x
    by (metis empty_iff empty_set)
  moreover have "map snd (map (Pair ws) ps) = ps" for ps :: "ustring list" by (induction ps) auto
  ultimately show ?thesis using assms None new by (auto simp: delivery_inv_def on_connection_def Let_def simp del: map_map)
qed

lemma other_delivery:
  assumes "delivery_inv ms cs st" "\<forall>ws. e \<noteq> Connection ws" "\<forall>m. e \<noteq> Outbound m"
  shows "delivery_inv ms cs (insp_step env e st)"
  using assms by (cases e)
    (auto simp: delivery_inv_def on_message_def on_close_def on_shutdown_def split: option.splits)

lemma run_delivery:
  assumes "distinct (connections_of evs)"
  shows "delivery_inv (outbound_of evs) (connections_of evs) (insp_run env evs)"
  using assms
proof (induction evs rule: rev_induct)
  case Nil
  then show ?case by (simp add: delivery_inv_def insp_run_def insp_init_def outbound_of_def)
next
  case (snoc e evs)
  have d: "distinct (connections_of evs)" using snoc.prems by (simp add: connections_of_def)
  note IH = snoc.IH [OF d]
  have run: "insp_run env (evs @ [x]) = insp_step env x (insp_run env evs)" for x by (simp add: insp_run_def)
  show ?case
  proof (cases e)
    case (Connection ws)
    then have "connections_of (evs @ [e]) = connections_of evs @ [ws]" "outbound_of (evs @ [e]) = outbound_of evs"
      by (simp_all add: connections_of_def outbound_of_def)
    then show ?thesis using connection_delivery [OF IH, of ws] snoc.prems Connection unfolding run by simp
  next
    case (Outbound m)
    then have "connections_of (evs @ [e]) = connections_of evs" "outbound_of (evs @ [e]) = outbound_of evs @ [m]"
      by (simp_all add: connections_of_def outbound_of_def)
    then show ?thesis using outbound_delivery [OF IH] Outbound unfolding run by simp
  qed (use other_delivery [OF IH, of e env] in \<open>simp_all add: run connections_of_def outbound_of_def\<close>)
qed

text \<open>C40: The server delivers the messages of the main runtime in order, each once and none lost: whatever debuggers connect,
  fail, close and send, in any interleaving, the messages sent to debuggers so far followed by those waiting in the
  buffer are the messages that came from the main runtime; and debuggers are served one after the other: once
  another has been served, an earlier one never gets a message again.\<close>

theorem debugger_messages_in_order:
  assumes "distinct (connections_of evs)"
  shows "map snd (sentToClient (insp_run env evs)) @ pendingMessages (insp_run env evs) = outbound_of evs \<and>
    distinct (remdups_adj (map fst (sentToClient (insp_run env evs))))"
  using run_delivery [OF assms] by (simp add: delivery_inv_def)

text \<open>A pause before the first debugger, a second debugger that is refused, and a third that takes over.\<close>

definition no_json :: insp_env where
  "no_json = \<lparr>parse_json = (\<lambda>_. Inl (JsError None ''SyntaxError'')), compile_regexp = (\<lambda>_. None), read_file = (\<lambda>_. Inl (JsError None ''ENOENT''))\<rparr>"

theorem debugger_messages_in_order_witness:
  "let evs = [Outbound [1], Connection 0, Connection 1, Outbound [2], Closing 0, Outbound [3], Closed 0, Connection 2, Outbound [4]];
       st = insp_run no_json evs
   in distinct (connections_of evs) \<and> map snd (sentToClient st) @ pendingMessages st = [[1], [2], [3], [4]] \<and>
      distinct (remdups_adj (map fst (sentToClient st)))"
proof -
  let ?evs = "[Outbound [1], Connection 0, Connection 1, Outbound [2], Closing 0, Outbound [3], Closed 0, Connection 2, Outbound [4]]"
  have d: "distinct (connections_of ?evs)" by (simp add: connections_of_def)
  show ?thesis using debugger_messages_in_order [OF d, of no_json] d by (simp add: outbound_of_def Let_def)
qed

section \<open>The page\<close>

text \<open>Characters that JSON does not escape: no quote, backslash, control character or surrogate.\<close>

definition json_plain :: "ustring \<Rightarrow> bool" where
  "json_plain s \<longleftrightarrow> (\<forall>c \<in> set s. 32 \<le> c \<and> c \<noteq> 0x22 \<and> c \<noteq> 0x5C \<and> \<not> is_high c \<and> \<not> is_low c \<and> c < 0x10000)"

lemma quote_plain: "json_plain s \<Longrightarrow> quote_units s = s"
proof (induction s)
  case (Cons c s)
  then have "quote_units s = s" by (simp add: json_plain_def)
  then show ?case using Cons.prems by (auto simp: json_plain_def json_escape_def)
qed simp

lemma plain_well_formed: "json_plain s \<Longrightarrow> well_formed s"
  by (induction s) (auto simp: json_plain_def)

lemma encoded_no_ampersand: "encodeURIComponent s = Inr e \<Longrightarrow> 0x26 \<notin> set e"
proof (induction s arbitrary: e rule: encodeURIComponent.induct)
  case (2 c cs)
  have hex: "hex_digit n \<noteq> 0x26" for n by (simp add: hex_digit_def)
  then have pct: "0x26 \<notin> set (escape_point p)" for p by (auto simp: escape_point_def pct_def)
  have "unescaped c \<Longrightarrow> c \<noteq> 0x26" by (auto simp: unescaped_def)
  then show ?case using 2 pct by (fastforce simp: prefix_result_eq_Inr split: if_splits list.splits)
qed simp

lemma encoded_nonempty: "encodeURIComponent s = Inr e \<Longrightarrow> s \<noteq> [] \<Longrightarrow> e \<noteq> []"
proof -
  assume e: "encodeURIComponent s = Inr e" "s \<noteq> []"
  then obtain c cs where s: "s = c # cs" by (cases s) auto
  have "escape_point p \<noteq> []" for p using escape_point_head [of p] by auto
  then show ?thesis using e unfolding s by (auto simp: prefix_result_eq_Inr split: if_splits list.splits)
qed

lemma ws_param_devtools:
  assumes "0x26 \<notin> set e" "e \<noteq> []"
  shows "ws_param (ascii ''/devtools/?ws='' @ e) = Some e" "pathname_of (ascii ''/devtools/?ws='' @ e) = ascii ''/devtools/''"
proof -
  have t: "takeWhile (\<lambda>x. x \<noteq> 0x26) e = e" using assms(1) by (intro takeWhile_eq_all_conv [THEN iffD2]) auto
  have "ws_param (0x3F # ascii ''ws='' @ e) = Some e" using assms(2) by (simp add: ascii_def Let_def t)
  then show "ws_param (ascii ''/devtools/?ws='' @ e) = Some e" by (simp add: ascii_def Let_def)
  show "pathname_of (ascii ''/devtools/?ws='' @ e) = ascii ''/devtools/''"
    by (simp add: pathname_of_def index_of_def ascii_def js_slice_def slice_index_def Let_def)
qed

text \<open>The page behind \<open>/devtools/\<close> can be made to contain any text: whatever the (decoded) \<open>ws\<close> parameter of the request is, if
  it has no quotes, backslashes or control characters it appears in the page as it is, inside a \<open>script\<close> element; with a closing
  tag in it, the rest of the parameter is markup of the page.\<close>

theorem devtools_page_injection:
  assumes "json_plain p" "p \<noteq> []" "encodeURIComponent p = Inr e"
  shows "\<exists>a b. http_handler cfg (ascii ''/devtools/?ws='' @ e) = Inr (response 200 ''text/html'' (a @ p @ b))"
proof -
  have e: "0x26 \<notin> set e" "e \<noteq> []" using encoded_no_ampersand encoded_nonempty assms by blast+
  have "decodeURIComponent e = Inr p" using decode_encode_component plain_well_formed assms by metis
  then have h: "http_handler cfg (ascii ''/devtools/?ws='' @ e) = Inr (response 200 ''text/html'' (devtools_page p))"
    using ws_param_devtools [OF e] by (simp add: http_handler_def ascii_def starts_with_def Let_def)
  have page: "devtools_page p = (ascii ''<!DOCTYPE html><html><head><script>location = '' @ stringify (JsonStr cdnBase) @
      ascii ('' + '' @ [CHR 0x22] @ ''?ws='' @ [CHR 0x22] @ '' + '') @ [0x22]) @ p @
      ([0x22] @ ascii '';'' @ ascii ''</script></head><body>Opening DevTools...</body></html>'')"
    unfolding devtools_page_def stringify.simps json_quote_def quote_plain [OF assms(1)] by (simp only: append.assoc)
  show ?thesis using h unfolding page by blast
qed

definition local_config :: insp_config where
  "local_config = \<lparr>cfg_host = ascii ''127.0.0.1'', cfg_port = ascii ''9229'', cfg_session = ascii ''0'', cfg_script = []\<rparr>"

theorem devtools_page_injection_witness:
  "\<exists>e a b. encodeURIComponent (ascii ''</script><script>alert(1)</script>'') = Inr e \<and>
     http_handler local_config (ascii ''/devtools/?ws='' @ e) = Inr (response 200 ''text/html'' (a @ ascii ''</script><script>alert(1)</script>'' @ b))"
proof -
  let ?p = "ascii ''</script><script>alert(1)</script>''"
  have p: "json_plain ?p" "?p \<noteq> []" by (simp_all add: json_plain_def ascii_def is_high_def is_low_def)
  then obtain e where "encodeURIComponent ?p = Inr e" using encode_well_formed plain_well_formed by blast
  then show ?thesis using devtools_page_injection [OF p, of e local_config] by blast
qed

text \<open>A percent sign that starts no escape makes the request handler throw.\<close>

lemma devtools_bad_escape: "http_handler cfg (ascii ''/devtools/?ws=%'') = Inl uri_error"
  using ws_param_devtools [of "[0x25]"]
  by (simp add: http_handler_def ascii_def starts_with_def decode_bad_escape take_point_def Let_def)

end
