(* ===== verification/EventEmitter.thy ===== *)
theory EventEmitter
  imports Complex_Main JsPrelude
begin

text \<open>
  The event emitter (\<open>libjs-node/events.js\<close>): adding, removing and calling listeners.  The \<open>_events\<close> object, the arrays of
  listeners and the wrappers made by \<open>once\<close> are objects in a store, since a handler may change them while an
  operation still holds them.  A property holds a function, an array or \<open>undefined\<close>.  What a listener does with the emitter
  is a tree of actions; which tree a call runs is a parameter.  A result of \<open>None\<close> is a computation that does not return:
  \<open>emit_at\<close> has the nesting of calls of \<open>emit\<close> as its first argument.  Stack traces are left out, and functions of the program have no property \<open>listener\<close> of their own: only the
  wrappers of \<open>once\<close> have one.
\<close>

section \<open>Values and objects\<close>

datatype event_type = EName string | ESymbol nat

definition kErrorMonitor :: event_type where
  "kErrorMonitor = ESymbol 0"

abbreviation ev_error :: event_type where "ev_error \<equiv> EName ''error''"
abbreviation ev_newListener :: event_type where "ev_newListener \<equiv> EName ''newListener''"
abbreviation ev_removeListener :: event_type where "ev_removeListener \<equiv> EName ''removeListener''"

text \<open>A function of the program, or a wrapper of \<open>once\<close>.\<close>

datatype fn = Fn nat | Wrap nat

text \<open>\<open>VPromise\<close> is an object whose \<open>then\<close> is a function, \<open>VBadThen\<close> one whose \<open>then\<close> throws.\<close>

datatype ee_val =
    VUndefined
  | VNull
  | VFn fn
  | VType event_type
  | VError js_error
  | VUnhandled "ee_val option"
  | VPromise nat
  | VBadThen ee_val
  | VOther nat

definition invalid_listener :: ee_val where
  "invalid_listener = VError (JsError (Some ''ERR_INVALID_ARG_TYPE'') ''The listener argument must be of type function'')"

datatype ee_max = Max rat | MaxInfinity

definition exceeds :: "nat \<Rightarrow> ee_max \<Rightarrow> bool" where
  "exceeds n m = (case m of Max q \<Rightarrow> q > 0 \<and> of_nat n > q | MaxInfinity \<Rightarrow> False)"

record ee_array =
  items :: "fn list"
  warned :: bool

datatype ee_slot = One fn | Many nat

text \<open>The own properties of an \<open>_events\<close> object in the order they were made.\<close>

type_synonym ee_object = "(event_type \<times> ee_slot option) list"

record once_state =
  fired :: bool
  wtype :: event_type
  wlistener :: fn

datatype ee_event = Called nat "ee_val list" | CalledOnce nat "ee_val list"

record emitter =
  eventsObj :: "nat option"
  eventsCount :: int
  maxListeners :: "ee_max option"
  defaultMaxListeners :: ee_max
  kShapeMode :: bool
  kCapture :: bool
  evObjs :: "nat \<Rightarrow> ee_object"
  arrs :: "nat \<Rightarrow> ee_array"
  wraps :: "nat \<Rightarrow> once_state option"
  nextObj :: nat
  leaks :: "(event_type \<times> nat) list"
  catches :: "(nat \<times> event_type \<times> ee_val list) list"
  trace :: "ee_event list"

text \<open>Operations that call user code: they may not return, and may throw any value.\<close>

type_synonym 'a eff = "emitter \<Rightarrow> ((ee_val + 'a) \<times> emitter) option"

definition ebind :: "((ee_val + 'a) \<times> emitter) option \<Rightarrow> ('a \<Rightarrow> 'b eff) \<Rightarrow> ((ee_val + 'b) \<times> emitter) option" where
  "ebind m f = (case m of None \<Rightarrow> None | Some (Inl e, st) \<Rightarrow> Some (Inl e, st) | Some (Inr a, st) \<Rightarrow> f a st)"

definition obj_get :: "ee_object \<Rightarrow> event_type \<Rightarrow> ee_slot option" where
  "obj_get ob t = (case map_of ob t of Some s \<Rightarrow> s | None \<Rightarrow> None)"

definition obj_set :: "ee_object \<Rightarrow> event_type \<Rightarrow> ee_slot option \<Rightarrow> ee_object" where
  "obj_set ob t v =
     (if t \<in> fst ` set ob then map (\<lambda>(k, x). if k = t then (k, v) else (k, x)) ob else ob @ [(t, v)])"

definition obj_delete :: "ee_object \<Rightarrow> event_type \<Rightarrow> ee_object" where
  "obj_delete ob t = filter (\<lambda>(k, x). k \<noteq> t) ob"

text \<open>\<open>Reflect.ownKeys\<close>: array indices in ascending order, then the other names, then the symbols, in the order they were made.\<close>

definition array_index :: "string \<Rightarrow> nat option" where
  "array_index s =
     (if s \<noteq> [] \<and> list_all (\<lambda>c. (48 :: nat) \<le> of_char c \<and> of_char c \<le> (57 :: nat)) s \<and> (hd s \<noteq> CHR ''0'' \<or> s = ''0'')
      then (let n = foldl (\<lambda>a c. 10 * a + (of_char c - 48)) 0 s in if n < 2 ^ 32 - 1 then Some n else None)
      else None)"

definition own_keys :: "ee_object \<Rightarrow> event_type list" where
  "own_keys ob =
     (let ks = map fst ob;
          index = (\<lambda>k. case k of EName s \<Rightarrow> array_index s | ESymbol _ \<Rightarrow> None)
      in sort_key (\<lambda>k. the (index k)) (filter (\<lambda>k. index k \<noteq> None) ks)
         @ filter (\<lambda>k. case k of EName s \<Rightarrow> index k = None | ESymbol _ \<Rightarrow> False) ks
         @ filter (\<lambda>k. case k of EName s \<Rightarrow> False | ESymbol _ \<Rightarrow> True) ks)"

section \<open>The state between the calls\<close>

text \<open>The property of the current \<open>_events\<close> object.\<close>

definition handler_of :: "emitter \<Rightarrow> event_type \<Rightarrow> ee_slot option" where
  "handler_of st t = (case eventsObj st of None \<Rightarrow> None | Some e \<Rightarrow> obj_get (evObjs st e) t)"

definition set_slot :: "event_type \<Rightarrow> ee_slot option \<Rightarrow> emitter \<Rightarrow> emitter" where
  "set_slot t v st =
     (case eventsObj st of None \<Rightarrow> st | Some e \<Rightarrow> st\<lparr>evObjs := (evObjs st)(e := obj_set (evObjs st e) t v)\<rparr>)"

definition fresh_events :: "emitter \<Rightarrow> emitter" where
  "fresh_events st = st\<lparr>eventsObj := Some (nextObj st), evObjs := (evObjs st)(nextObj st := []), nextObj := nextObj st + 1\<rparr>"

definition ee_blank :: emitter where
  "ee_blank = \<lparr>eventsObj = None, eventsCount = 0, maxListeners = None, defaultMaxListeners = Max 10, kShapeMode = False, kCapture = False, evObjs = \<lambda>_. [],
     arrs = \<lambda>_. \<lparr>items = [], warned = False\<rparr>, wraps = Map.empty, nextObj = 0, leaks = [], catches = [], trace = []\<rparr>"

text \<open>\<open>EventEmitter.init\<close>: \<open>preset\<close> is an \<open>_events\<close> object that a subclass made before, whose properties are \<open>undefined\<close>.\<close>

definition ee_init :: "event_type list option \<Rightarrow> bool \<Rightarrow> emitter" where
  "ee_init preset capture =
     (case preset of
        None \<Rightarrow> (fresh_events ee_blank)\<lparr>eventsCount := 0, kShapeMode := False, kCapture := capture\<rparr>
      | Some ts \<Rightarrow>
          ee_blank\<lparr>eventsObj := Some 0, evObjs := (\<lambda>_. [])(0 := map (\<lambda>t. (t, None)) ts), nextObj := 1, kShapeMode := True, kCapture := capture\<rparr>)"

definition getMaxListeners :: "emitter \<Rightarrow> ee_max" where
  "getMaxListeners st = (case maxListeners st of None \<Rightarrow> defaultMaxListeners st | Some m \<Rightarrow> m)"

definition validate_max :: "string \<Rightarrow> ee_max \<Rightarrow> ee_val + unit" where
  "validate_max name n =
     (if (case n of Max q \<Rightarrow> q < 0 | MaxInfinity \<Rightarrow> False)
      then Inl (VError (JsError (Some ''ERR_OUT_OF_RANGE'') (''The value of '' @ name @ '' is out of range''))) else Inr ())"

definition setMaxListeners :: "ee_max \<Rightarrow> emitter \<Rightarrow> (ee_val + unit) \<times> emitter" where
  "setMaxListeners n st =
     (case validate_max ''setMaxListeners'' n of Inl e \<Rightarrow> (Inl e, st) | Inr _ \<Rightarrow> (Inr (), st\<lparr>maxListeners := Some n\<rparr>))"

text \<open>The setter of \<open>EventEmitter.defaultMaxListeners\<close>, a variable that all emitters share.\<close>

definition setDefaultMaxListeners :: "ee_max \<Rightarrow> emitter \<Rightarrow> (ee_val + unit) \<times> emitter" where
  "setDefaultMaxListeners n st =
     (case validate_max ''defaultMaxListeners'' n of Inl e \<Rightarrow> (Inl e, st) | Inr _ \<Rightarrow> (Inr (), st\<lparr>defaultMaxListeners := n\<rparr>))"

definition listener_prop :: "emitter \<Rightarrow> fn \<Rightarrow> fn option" where
  "listener_prop st f = (case f of Fn _ \<Rightarrow> None | Wrap w \<Rightarrow> map_option wlistener (wraps st w))"

text \<open>\<open>f.listener ?? f\<close>.\<close>

definition unwrap :: "emitter \<Rightarrow> fn \<Rightarrow> fn" where
  "unwrap st f = (case listener_prop st f of Some g \<Rightarrow> g | None \<Rightarrow> f)"

definition matches :: "emitter \<Rightarrow> fn \<Rightarrow> fn \<Rightarrow> bool" where
  "matches st f g \<longleftrightarrow> g = f \<or> listener_prop st g = Some f"

definition check_leak :: "event_type \<Rightarrow> nat \<Rightarrow> emitter \<Rightarrow> emitter" where
  "check_leak t a st =
     (if exceeds (length (items (arrs st a))) (getMaxListeners st) \<and> \<not> warned (arrs st a)
      then st\<lparr>arrs := (arrs st)(a := (arrs st a)\<lparr>warned := True\<rparr>), leaks := (t, length (items (arrs st a))) # leaks st\<rparr>
      else st)"

text \<open>The part of \<open>_addListener\<close> after \<open>newListener\<close> was emitted.\<close>

definition put_listener :: "event_type \<Rightarrow> fn \<Rightarrow> bool \<Rightarrow> emitter \<Rightarrow> emitter" where
  "put_listener t f prepend st =
     (case handler_of st t of
        None \<Rightarrow> (set_slot t (Some (One f)) st)\<lparr>eventsCount := eventsCount st + 1\<rparr>
      | Some (One g) \<Rightarrow>
          (let a = nextObj st;
               st = st\<lparr>arrs := (arrs st)(a := \<lparr>items = (if prepend then [f, g] else [g, f]), warned = False\<rparr>), nextObj := a + 1\<rparr>
           in check_leak t a (set_slot t (Some (Many a)) st))
      | Some (Many a) \<Rightarrow>
          check_leak t a
            (st\<lparr>arrs := (arrs st)(a := (arrs st a)\<lparr>items := (if prepend then f # items (arrs st a) else items (arrs st a) @ [f])\<rparr>)\<rparr>))"

text \<open>The last position of a matching listener.\<close>

definition last_match :: "emitter \<Rightarrow> fn \<Rightarrow> fn list \<Rightarrow> nat option" where
  "last_match st f fs =
     (case filter (\<lambda>i. matches st f (fs ! i)) (rev [0 ..< length fs]) of [] \<Rightarrow> None | i # _ \<Rightarrow> Some i)"

text \<open>\<open>shift\<close> for the first position, \<open>spliceOne\<close> for another: both take one element out.\<close>

definition splice_one :: "nat \<Rightarrow> 'a list \<Rightarrow> 'a list" where
  "splice_one i xs = take i xs @ drop (Suc i) xs"

text \<open>The part of \<open>removeListener\<close> before \<open>removeListener\<close> is emitted; the listener the event is emitted for, if it is.\<close>

definition take_listener :: "event_type \<Rightarrow> fn \<Rightarrow> emitter \<Rightarrow> fn option \<times> emitter" where
  "take_listener t f st =
     (case handler_of st t of
        None \<Rightarrow> (None, st)
      | Some (One g) \<Rightarrow>
          if matches st f g then
            (let st' = st\<lparr>eventsCount := eventsCount st - 1\<rparr>
             in if kShapeMode st then (None, set_slot t None st')
                else if eventsCount st' = 0 then (None, fresh_events st')
                else
                  (let st'' = (case eventsObj st' of None \<Rightarrow> st' | Some e \<Rightarrow> st'\<lparr>evObjs := (evObjs st')(e := obj_delete (evObjs st' e) t)\<rparr>)
                   in (if handler_of st'' ev_removeListener \<noteq> None
                       then Some (case listener_prop st g of Some x \<Rightarrow> x | None \<Rightarrow> f) else None, st'')))
          else (None, st)
      | Some (Many a) \<Rightarrow>
          (case last_match st f (items (arrs st a)) of
             None \<Rightarrow> (None, st)
           | Some i \<Rightarrow>
               (let fs = splice_one i (items (arrs st a));
                    st' = st\<lparr>arrs := (arrs st)(a := (arrs st a)\<lparr>items := fs\<rparr>)\<rparr>;
                    st'' = (if length fs = 1 then set_slot t (Some (One (hd fs))) st' else st')
                in (if handler_of st'' ev_removeListener \<noteq> None then Some f else None, st''))))"

text \<open>\<open>removeAllListeners\<close> when nobody listens to \<open>removeListener\<close>.\<close>

definition clear_listeners :: "event_type option \<Rightarrow> emitter \<Rightarrow> emitter" where
  "clear_listeners topt st =
     (let st' = (case topt of
                   None \<Rightarrow> (fresh_events st)\<lparr>eventsCount := 0\<rparr>
                 | Some t \<Rightarrow>
                     if handler_of st t \<noteq> None then
                       (let st = st\<lparr>eventsCount := eventsCount st - 1\<rparr>
                        in if eventsCount st = 0 then fresh_events st
                           else (case eventsObj st of None \<Rightarrow> st | Some e \<Rightarrow> st\<lparr>evObjs := (evObjs st)(e := obj_delete (evObjs st e) t)\<rparr>))
                     else st)
      in st'\<lparr>kShapeMode := False\<rparr>)"

definition onceWrap :: "event_type \<Rightarrow> fn \<Rightarrow> emitter \<Rightarrow> nat \<times> emitter" where
  "onceWrap t f st =
     (nextObj st, st\<lparr>wraps := (wraps st)(nextObj st \<mapsto> \<lparr>fired = False, wtype = t, wlistener = f\<rparr>), nextObj := nextObj st + 1\<rparr>)"

section \<open>Observers\<close>

definition arrayClone :: "nat \<Rightarrow> emitter \<Rightarrow> fn list" where
  "arrayClone a st = items (arrs st a)"

definition ee_listeners :: "event_type \<Rightarrow> bool \<Rightarrow> emitter \<Rightarrow> fn list" where
  "ee_listeners t unwrapped st =
     (case handler_of st t of
        None \<Rightarrow> []
      | Some (One f) \<Rightarrow> if unwrapped then [unwrap st f] else [f]
      | Some (Many a) \<Rightarrow> if unwrapped then map (unwrap st) (arrayClone a st) else arrayClone a st)"

definition listenerCount :: "event_type \<Rightarrow> fn option \<Rightarrow> emitter \<Rightarrow> nat" where
  "listenerCount t listener st =
     (case handler_of st t of
        None \<Rightarrow> 0
      | Some (One g) \<Rightarrow> (case listener of Some f \<Rightarrow> if matches st f g then 1 else 0 | None \<Rightarrow> 1)
      | Some (Many a) \<Rightarrow>
          (case listener of Some f \<Rightarrow> length (filter (matches st f) (items (arrs st a))) | None \<Rightarrow> length (items (arrs st a))))"

definition eventNames :: "emitter \<Rightarrow> event_type list" where
  "eventNames st = (if eventsCount st > 0 then (case eventsObj st of Some e \<Rightarrow> own_keys (evObjs st e) | None \<Rightarrow> []) else [])"

section \<open>Operations that emit\<close>

type_synonym emit_fn = "event_type \<Rightarrow> ee_val list \<Rightarrow> bool eff"

definition addListener :: "emit_fn \<Rightarrow> event_type \<Rightarrow> ee_val \<Rightarrow> bool \<Rightarrow> unit eff" where
  "addListener em t l prepend st =
     (case l of
        VFn f \<Rightarrow>
          (case eventsObj st of
             None \<Rightarrow> Some (Inr (), put_listener t f prepend ((fresh_events st)\<lparr>eventsCount := 0\<rparr>))
           | Some e \<Rightarrow>
               ebind (if handler_of st ev_newListener \<noteq> None then em ev_newListener [VType t, VFn (unwrap st f)] st else Some (Inr True, st))
                 (\<lambda>_ st. Some (Inr (), put_listener t f prepend st)))
      | _ \<Rightarrow> Some (Inl invalid_listener, st))"

definition addOnce :: "emit_fn \<Rightarrow> event_type \<Rightarrow> ee_val \<Rightarrow> bool \<Rightarrow> unit eff" where
  "addOnce em t l prepend st =
     (case l of
        VFn f \<Rightarrow> (case onceWrap t f st of (w, st) \<Rightarrow> addListener em t (VFn (Wrap w)) prepend st)
      | _ \<Rightarrow> Some (Inl invalid_listener, st))"

definition removeListener :: "emit_fn \<Rightarrow> event_type \<Rightarrow> ee_val \<Rightarrow> unit eff" where
  "removeListener em t l st =
     (case l of
        VFn f \<Rightarrow>
          (case take_listener t f st of
             (None, st) \<Rightarrow> Some (Inr (), st)
           | (Some g, st) \<Rightarrow> ebind (em ev_removeListener [VType t, VFn g] st) (\<lambda>_ st. Some (Inr (), st)))
      | _ \<Rightarrow> Some (Inl invalid_listener, st))"

text \<open>The loop over an array runs down from its length at the start and reads the array as it is then.\<close>

fun remove_down :: "emit_fn \<Rightarrow> event_type \<Rightarrow> nat \<Rightarrow> nat \<Rightarrow> unit eff" where
  "remove_down em t a 0 st = Some (Inr (), st)"
| "remove_down em t a (Suc i) st =
     ebind (removeListener em t (if i < length (items (arrs st a)) then VFn (items (arrs st a) ! i) else VUndefined) st)
       (\<lambda>_ st. remove_down em t a i st)"

definition remove_type :: "emit_fn \<Rightarrow> event_type \<Rightarrow> unit eff" where
  "remove_type em t st =
     (if eventsObj st = None then Some (Inr (), st)
      else if handler_of st ev_removeListener = None then Some (Inr (), clear_listeners (Some t) st)
      else (case handler_of st t of
              None \<Rightarrow> Some (Inr (), st)
            | Some (One f) \<Rightarrow> removeListener em t (VFn f) st
            | Some (Many a) \<Rightarrow> remove_down em t a (length (items (arrs st a))) st))"

fun remove_types :: "emit_fn \<Rightarrow> event_type list \<Rightarrow> unit eff" where
  "remove_types em [] st = Some (Inr (), st)"
| "remove_types em (t # ts) st =
     (if t = ev_removeListener then remove_types em ts st
      else ebind (remove_type em t st) (\<lambda>_ st. remove_types em ts st))"

definition removeAllListeners :: "emit_fn \<Rightarrow> event_type option \<Rightarrow> unit eff" where
  "removeAllListeners em topt st =
     (case topt of
        Some t \<Rightarrow> remove_type em t st
      | None \<Rightarrow>
          (case eventsObj st of
             None \<Rightarrow> Some (Inr (), st)
           | Some e \<Rightarrow>
               if handler_of st ev_removeListener = None then Some (Inr (), clear_listeners None st)
               else
                 ebind (remove_types em (own_keys (evObjs st e)) st)
                   (\<lambda>_ st. ebind (remove_type em ev_removeListener st)
                     (\<lambda>_ st. Some (Inr (), (fresh_events st)\<lparr>eventsCount := 0, kShapeMode := False\<rparr>)))))"

section \<open>What a listener does\<close>

datatype ee_prog =
    EReturn ee_val
  | EThrow ee_val
  | EEmit event_type "ee_val list" "ee_val + bool \<Rightarrow> ee_prog"
  | EAdd event_type ee_val bool "ee_val + unit \<Rightarrow> ee_prog"
  | EOnce event_type ee_val bool "ee_val + unit \<Rightarrow> ee_prog"
  | ERemove event_type ee_val "ee_val + unit \<Rightarrow> ee_prog"
  | ERemoveAll "event_type option" "ee_val + unit \<Rightarrow> ee_prog"
  | ESetMax ee_max "ee_val + unit \<Rightarrow> ee_prog"
  | ESetDefaultMax ee_max "ee_val + unit \<Rightarrow> ee_prog"
  | EListeners event_type bool "fn list \<Rightarrow> ee_prog"
  | ECount event_type "fn option" "nat \<Rightarrow> ee_prog"
  | ENames "event_type list \<Rightarrow> ee_prog"

text \<open>A call with its continuation, which receives what was returned or thrown.\<close>

definition econt :: "((ee_val + 'a) \<times> emitter) option \<Rightarrow> (ee_val + 'a \<Rightarrow> 'b eff) \<Rightarrow> ((ee_val + 'b) \<times> emitter) option" where
  "econt m k = (case m of None \<Rightarrow> None | Some (r, st) \<Rightarrow> k r st)"

primrec exec_ee :: "emit_fn \<Rightarrow> ee_prog \<Rightarrow> ee_val eff" where
  "exec_ee em (EReturn v) st = Some (Inr v, st)"
| "exec_ee em (EThrow v) st = Some (Inl v, st)"
| "exec_ee em (EEmit t args k) st = econt (em t args st) (\<lambda>r st. exec_ee em (k r) st)"
| "exec_ee em (EAdd t l pre k) st = econt (addListener em t l pre st) (\<lambda>r st. exec_ee em (k r) st)"
| "exec_ee em (EOnce t l pre k) st = econt (addOnce em t l pre st) (\<lambda>r st. exec_ee em (k r) st)"
| "exec_ee em (ERemove t l k) st = econt (removeListener em t l st) (\<lambda>r st. exec_ee em (k r) st)"
| "exec_ee em (ERemoveAll topt k) st = econt (removeAllListeners em topt st) (\<lambda>r st. exec_ee em (k r) st)"
| "exec_ee em (ESetMax n k) st = (case setMaxListeners n st of (r, st) \<Rightarrow> exec_ee em (k r) st)"
| "exec_ee em (ESetDefaultMax n k) st = (case setDefaultMaxListeners n st of (r, st) \<Rightarrow> exec_ee em (k r) st)"
| "exec_ee em (EListeners t u k) st = exec_ee em (k (ee_listeners t u st)) st"
| "exec_ee em (ECount t l k) st = exec_ee em (k (listenerCount t l st)) st"
| "exec_ee em (ENames k) st = exec_ee em (k (eventNames st)) st"

section \<open>emit\<close>

text \<open>The program of a function, by its name, the calls made so far and the arguments.\<close>

type_synonym ee_env = "nat \<Rightarrow> ee_event list \<Rightarrow> ee_val list \<Rightarrow> ee_prog"

text \<open>Calling a listener; \<open>k\<close> bounds the nesting of wrappers.\<close>

primrec call_fn :: "ee_env \<Rightarrow> emit_fn \<Rightarrow> nat \<Rightarrow> fn \<Rightarrow> ee_val list \<Rightarrow> ee_val eff" where
  "call_fn env em 0 f args st = None"
| "call_fn env em (Suc k) f args st =
     (case f of
        Fn i \<Rightarrow> exec_ee em (env i (trace st) args) (st\<lparr>trace := Called i args # trace st\<rparr>)
      | Wrap w \<Rightarrow>
          (case wraps st w of
             None \<Rightarrow> Some (Inr VUndefined, st)
           | Some x \<Rightarrow>
               if fired x then Some (Inr VUndefined, st)
               else
                 ebind (removeListener em (wtype x) (VFn (Wrap w)) st)
                   (\<lambda>_ st. call_fn env em k (wlistener x) args
                      (st\<lparr>wraps := (wraps st)(w \<mapsto> x\<lparr>fired := True\<rparr>), trace := CalledOnce w args # trace st\<rparr>))))"

definition addCatch :: "emit_fn \<Rightarrow> ee_val \<Rightarrow> event_type \<Rightarrow> ee_val list \<Rightarrow> unit eff" where
  "addCatch em promise t args st =
     (if \<not> kCapture st then Some (Inr (), st)
      else (case promise of
              VPromise p \<Rightarrow> Some (Inr (), st\<lparr>catches := (p, t, args) # catches st\<rparr>)
            | VBadThen err \<Rightarrow> ebind (em ev_error [err] st) (\<lambda>_ st. Some (Inr (), st))
            | _ \<Rightarrow> Some (Inr (), st)))"

definition call_listener :: "ee_env \<Rightarrow> emit_fn \<Rightarrow> nat \<Rightarrow> event_type \<Rightarrow> ee_val list \<Rightarrow> fn \<Rightarrow> unit eff" where
  "call_listener env em k t args f st =
     ebind (call_fn env em k f args st)
       (\<lambda>r st. if r \<noteq> VUndefined \<and> r \<noteq> VNull then addCatch em r t args st else Some (Inr (), st))"

fun call_listeners :: "ee_env \<Rightarrow> emit_fn \<Rightarrow> nat \<Rightarrow> event_type \<Rightarrow> ee_val list \<Rightarrow> fn list \<Rightarrow> unit eff" where
  "call_listeners env em k t args [] st = Some (Inr (), st)"
| "call_listeners env em k t args (f # fs) st =
     ebind (call_listener env em k t args f st) (\<lambda>_ st. call_listeners env em k t args fs st)"

definition unhandled_error :: "ee_val list \<Rightarrow> ee_val" where
  "unhandled_error args =
     (case args of
        [] \<Rightarrow> VUnhandled None
      | VError e # _ \<Rightarrow> VError e
      | VUnhandled x # _ \<Rightarrow> VUnhandled x
      | er # _ \<Rightarrow> VUnhandled (Some er))"

definition emit_body :: "ee_env \<Rightarrow> emit_fn \<Rightarrow> nat \<Rightarrow> event_type \<Rightarrow> ee_val list \<Rightarrow> bool eff" where
  "emit_body env em k t args st =
     (case eventsObj st of
        None \<Rightarrow> if t = ev_error then Some (Inl (unhandled_error args), st) else Some (Inr False, st)
      | Some e \<Rightarrow>
          ebind (if t = ev_error \<and> obj_get (evObjs st e) kErrorMonitor \<noteq> None then em kErrorMonitor args st else Some (Inr True, st))
            (\<lambda>_ st.
               case obj_get (evObjs st e) t of
                 None \<Rightarrow> if t = ev_error then Some (Inl (unhandled_error args), st) else Some (Inr False, st)
               | Some (One f) \<Rightarrow> ebind (call_listener env em k t args f st) (\<lambda>_ st. Some (Inr True, st))
               | Some (Many a) \<Rightarrow> ebind (call_listeners env em k t args (arrayClone a st) st) (\<lambda>_ st. Some (Inr True, st))))"

primrec emit_at :: "ee_env \<Rightarrow> nat \<Rightarrow> emit_fn" where
  "emit_at env 0 = (\<lambda>t args st. None)"
| "emit_at env (Suc n) = emit_body env (emit_at env n) (Suc n)"

text \<open>A captured promise is rejected; the callback runs on the tick queue.  \<open>kRejection\<close> is the method of that name, where the emitter has one.\<close>

definition emitUnhandledRejectionOrErr ::
    "(ee_val \<Rightarrow> event_type \<Rightarrow> ee_val list \<Rightarrow> unit eff) option \<Rightarrow> emit_fn \<Rightarrow> ee_val \<Rightarrow> event_type \<Rightarrow> ee_val list \<Rightarrow> unit eff" where
  "emitUnhandledRejectionOrErr kRejection em err t args st =
     (case kRejection of
        Some rejection \<Rightarrow> rejection err t args st
      | None \<Rightarrow>
          (let prev = kCapture st in
           case em ev_error [err] (st\<lparr>kCapture := False\<rparr>) of
             None \<Rightarrow> None
           | Some (Inl e, st) \<Rightarrow> Some (Inl e, st\<lparr>kCapture := prev\<rparr>)
           | Some (Inr _, st) \<Rightarrow> Some (Inr (), st\<lparr>kCapture := prev\<rparr>)))"

end
