(* ===== verification/EventEmitterProps.thy ===== *)
theory EventEmitterProps
  imports EventEmitter "HOL-Library.Multiset"
begin

text \<open>
  What the event emitter promises, whatever its listeners do while it calls them.  The locale \<open>emitter_ops\<close> is the interface
  between the changes of the state and the code built from them: an invariant and a preorder that every change keeps are kept
  by every program and by \<open>emit\<close> at every depth.  Its sublocale \<open>emitter_prims\<close> needs the primitive changes only.
\<close>

section \<open>Whatever listeners do\<close>

definition keeps :: "(emitter \<Rightarrow> bool) \<Rightarrow> (emitter \<Rightarrow> emitter \<Rightarrow> bool) \<Rightarrow> emitter \<Rightarrow> ('a \<times> emitter) option \<Rightarrow> bool" where
  "keeps P Q st m \<longleftrightarrow> (P st \<longrightarrow> (\<forall>r st'. m = Some (r, st') \<longrightarrow> P st' \<and> Q st st'))"

abbreviation emit_keeps :: "(emitter \<Rightarrow> bool) \<Rightarrow> (emitter \<Rightarrow> emitter \<Rightarrow> bool) \<Rightarrow> emit_fn \<Rightarrow> bool" where
  "emit_keeps P Q em \<equiv> \<forall>t args st. keeps P Q st (em t args st)"

text \<open>The listeners a property holds.\<close>

definition slot_fns :: "emitter \<Rightarrow> ee_slot option \<Rightarrow> fn list" where
  "slot_fns st s = (case s of None \<Rightarrow> [] | Some (One f) \<Rightarrow> [f] | Some (Many a) \<Rightarrow> items (arrs st a))"

definition lst :: "emitter \<Rightarrow> event_type \<Rightarrow> fn list" where
  "lst st t = slot_fns st (handler_of st t)"

text \<open>The programs that add only functions satisfying \<open>A\<close>.\<close>

definition val_ok :: "(fn \<Rightarrow> bool) \<Rightarrow> ee_val \<Rightarrow> bool" where
  "val_ok A v \<longleftrightarrow> (case v of VFn f \<Rightarrow> A f | _ \<Rightarrow> True)"

primrec prog_ok :: "(fn \<Rightarrow> bool) \<Rightarrow> ee_prog \<Rightarrow> bool" where
  "prog_ok A (EReturn v) = True"
| "prog_ok A (EThrow v) = True"
| "prog_ok A (EEmit t args k) = (\<forall>r. prog_ok A (k r))"
| "prog_ok A (EAdd t l pre k) = (val_ok A l \<and> (\<forall>r. prog_ok A (k r)))"
| "prog_ok A (EOnce t l pre k) = (val_ok A l \<and> (\<forall>r. prog_ok A (k r)))"
| "prog_ok A (ERemove t l k) = (\<forall>r. prog_ok A (k r))"
| "prog_ok A (ERemoveAll topt k) = (\<forall>r. prog_ok A (k r))"
| "prog_ok A (ESetMax n k) = (\<forall>r. prog_ok A (k r))"
| "prog_ok A (ESetDefaultMax n k) = (\<forall>r. prog_ok A (k r))"
| "prog_ok A (EListeners t u k) = (\<forall>r. prog_ok A (k r))"
| "prog_ok A (ECount t l k) = (\<forall>r. prog_ok A (k r))"
| "prog_ok A (ENames k) = (\<forall>r. prog_ok A (k r))"

definition env_adds :: "(fn \<Rightarrow> bool) \<Rightarrow> ee_env \<Rightarrow> bool" where
  "env_adds A env \<longleftrightarrow> (\<forall>i tr args. prog_ok A (env i tr args))"

lemma adds_any: "prog_ok (\<lambda>_. True) p" "env_adds (\<lambda>_. True) env"
proof -
  show "prog_ok (\<lambda>_. True) p" for p by (induction p) (auto simp: val_ok_def split: ee_val.split)
  then show "env_adds (\<lambda>_. True) env" by (simp add: env_adds_def)
qed

locale emitter_base =
  fixes P :: "emitter \<Rightarrow> bool"
    and Q :: "emitter \<Rightarrow> emitter \<Rightarrow> bool"
  assumes Q_refl: "Q st st"
    and Q_trans: "Q st st' \<Longrightarrow> Q st' st'' \<Longrightarrow> Q st st''"
    and P_obj: "P st \<Longrightarrow> eventsObj st \<noteq> None"
begin

lemma keeps_none: "keeps P Q st None"
  by (simp add: keeps_def)

lemma keeps_some: "(P st \<Longrightarrow> P st' \<and> Q st st') \<Longrightarrow> keeps P Q st (Some (r, st'))"
  by (auto simp: keeps_def)

lemma keeps_refl: "keeps P Q st (Some (r, st))"
  by (simp add: keeps_def Q_refl)

lemma keeps_ebind:
  assumes "keeps P Q st m" "\<And>a st'. m = Some (Inr a, st') \<Longrightarrow> P st \<Longrightarrow> P st' \<Longrightarrow> Q st st' \<Longrightarrow> keeps P Q st' (f a st')"
  shows "keeps P Q st (ebind m f)"
proof (cases m)
  case (Some p)
  obtain r st' where p: "p = (r, st')" by (cases p)
  show ?thesis
  proof (cases r)
    case (Inr a)
    then show ?thesis using assms Some p by (auto simp: keeps_def ebind_def intro: Q_trans)
  qed (use assms Some p in \<open>simp add: keeps_def ebind_def\<close>)
qed (simp add: ebind_def keeps_none)

lemma keeps_from:
  assumes "P st \<Longrightarrow> P st' \<and> Q st st'" "keeps P Q st' m" shows "keeps P Q st m"
  unfolding keeps_def
proof (intro impI allI)
  fix r s assume "P st" "m = Some (r, s)"
  then have "P st'" "Q st st'" "P s \<and> Q st' s" using assms by (simp_all add: keeps_def)
  then show "P s \<and> Q st s" using Q_trans by blast
qed

lemma keeps_econt:
  assumes "keeps P Q st m" "\<And>r st'. keeps P Q st' (k r st')"
  shows "keeps P Q st (econt m k)"
proof (cases m)
  case (Some p)
  obtain r st' where p: "p = (r, st')" by (cases p)
  have "P st \<Longrightarrow> P st' \<and> Q st st'" using assms(1) Some p by (simp add: keeps_def)
  from keeps_from [OF this assms(2)] show ?thesis using Some p by (simp add: econt_def)
qed (simp add: econt_def keeps_none)

lemma keeps_setting:
  assumes "P st \<Longrightarrow> P (snd m) \<and> Q st (snd m)" "\<And>r s. keeps P Q s (k r s)"
  shows "keeps P Q st (case m of (r, s) \<Rightarrow> k r s)"
proof (cases m)
  case (Pair r s)
  then have "P st \<Longrightarrow> P s \<and> Q st s" using assms(1) by simp
  from keeps_from [OF this assms(2)] show ?thesis using Pair by simp
qed

lemma keeps_adding:
  assumes "emit_keeps P Q em" "\<And>s. P st \<Longrightarrow> P s \<Longrightarrow> Q st s \<Longrightarrow> P (put_listener t f pre s) \<and> Q s (put_listener t f pre s)"
  shows "keeps P Q st (addListener em t (VFn f) pre st)"
proof (cases "eventsObj st")
  case None
  then show ?thesis using P_obj [of st] by (auto simp: keeps_def)
next
  case (Some e)
  have "keeps P Q st (if handler_of st ev_newListener \<noteq> None then em ev_newListener [VType t, VFn (unwrap st f)] st else Some (Inr True, st))"
    using assms(1) by (simp add: keeps_refl)
  then show ?thesis unfolding addListener_def Some ee_val.case option.case
    by (rule keeps_ebind) (use assms(2) in \<open>auto intro: keeps_some\<close>)
qed

lemma keeps_removing:
  assumes "emit_keeps P Q em" "P st \<Longrightarrow> P (snd (take_listener t f st)) \<and> Q st (snd (take_listener t f st))"
  shows "keeps P Q st (removeListener em t (VFn f) st)"
proof -
  obtain g s where t: "take_listener t f st = (g, s)" by fastforce
  have s: "P st \<Longrightarrow> P s \<and> Q st s" using assms(2) t by simp
  show ?thesis
  proof (cases g)
    case None
    then show ?thesis using s t by (auto simp: removeListener_def intro: keeps_some)
  next
    case (Some g')
    have "keeps P Q s (ebind (em ev_removeListener [VType t, VFn g'] s) (\<lambda>_ st. Some (Inr (), st)))"
      using assms(1) by (intro keeps_ebind) (auto simp: keeps_refl)
    then show ?thesis using keeps_from [OF s] t Some by (simp add: removeListener_def)
  qed
qed

end

text \<open>The operations of the code.\<close>

locale emitter_ops = emitter_base P Q
  for P :: "emitter \<Rightarrow> bool" and Q :: "emitter \<Rightarrow> emitter \<Rightarrow> bool" +
  fixes A :: "fn \<Rightarrow> bool"
    and C :: "fn \<Rightarrow> bool"
    and E :: "emit_fn \<Rightarrow> bool"
  assumes P_put: "P st \<Longrightarrow> A f \<Longrightarrow> P (put_listener t f pre st) \<and> Q st (put_listener t f pre st)"
    and P_take: "P st \<Longrightarrow> P (snd (take_listener t g st)) \<and> Q st (snd (take_listener t g st))"
    and P_clear: "P st \<Longrightarrow> P (clear_listeners topt st) \<and> Q st (clear_listeners topt st)"
    and P_max: "P st \<Longrightarrow> P (st\<lparr>maxListeners := m, defaultMaxListeners := d\<rparr>) \<and> Q st (st\<lparr>maxListeners := m, defaultMaxListeners := d\<rparr>)"
    and P_capture: "P st \<Longrightarrow> P (st\<lparr>kCapture := b\<rparr>) \<and> Q st (st\<lparr>kCapture := b\<rparr>)"
    and P_catch: "P st \<Longrightarrow> P (st\<lparr>catches := c\<rparr>) \<and> Q st (st\<lparr>catches := c\<rparr>)"
    and P_called: "P st \<Longrightarrow> P (st\<lparr>trace := Called i args # trace st\<rparr>) \<and> Q st (st\<lparr>trace := Called i args # trace st\<rparr>)"
    and C_snapshot: "P st \<Longrightarrow> eventsObj st = Some e \<Longrightarrow> P st' \<Longrightarrow> Q st st' \<Longrightarrow> f \<in> set (slot_fns st' (obj_get (evObjs st' e) t)) \<Longrightarrow> C f"
    and C_listener: "P st \<Longrightarrow> wraps st w = Some x \<Longrightarrow> C (wlistener x)"
    and P_once: "P st \<Longrightarrow> A f \<Longrightarrow> E em \<Longrightarrow> emit_keeps P Q em \<Longrightarrow> keeps P Q st (addOnce em t (VFn f) pre st)"
    and P_fire: "P st \<Longrightarrow> C (Wrap w) \<Longrightarrow> wraps st w = Some x \<Longrightarrow> \<not> fired x \<Longrightarrow> E em \<Longrightarrow> emit_keeps P Q em \<Longrightarrow>
      removeListener em (wtype x) (VFn (Wrap w)) st = Some (Inr u, st') \<Longrightarrow>
      P (st'\<lparr>wraps := (wraps st')(w \<mapsto> x\<lparr>fired := True\<rparr>), trace := CalledOnce w args # trace st'\<rparr>) \<and>
      Q st (st'\<lparr>wraps := (wraps st')(w \<mapsto> x\<lparr>fired := True\<rparr>), trace := CalledOnce w args # trace st'\<rparr>)"
begin

lemma keeps_addListener:
  assumes "emit_keeps P Q em" "val_ok A l" shows "keeps P Q st (addListener em t l pre st)"
proof (cases l)
  case (VFn f)
  then show ?thesis using keeps_adding [OF assms(1) P_put] assms(2) by (simp add: val_ok_def)
qed (simp_all add: addListener_def keeps_refl)

lemma keeps_addOnce:
  assumes "emit_keeps P Q em" "E em" "val_ok A l" shows "keeps P Q st (addOnce em t l pre st)"
proof (cases l)
  case (VFn f)
  have "keeps P Q st (addOnce em t (VFn f) pre st)" if "P st" using P_once [OF that _ assms(2,1)] assms(3) VFn by (simp add: val_ok_def)
  then show ?thesis unfolding VFn by (simp add: keeps_def)
qed (simp_all add: addOnce_def keeps_refl)

lemma keeps_removeListener: "emit_keeps P Q em \<Longrightarrow> keeps P Q st (removeListener em t l st)"
  using keeps_removing [OF _ P_take] by (cases l) (simp_all add: removeListener_def keeps_refl)

lemma keeps_remove_down: "emit_keeps P Q em \<Longrightarrow> keeps P Q st (remove_down em t a i st)"
  by (induction i arbitrary: st) (auto simp: keeps_refl intro!: keeps_ebind keeps_removeListener)

lemma keeps_remove_type: "emit_keeps P Q em \<Longrightarrow> keeps P Q st (remove_type em t st)"
  unfolding remove_type_def using P_clear
  by (auto simp: keeps_refl keeps_removeListener keeps_remove_down intro: keeps_some split: option.split ee_slot.split)

lemma keeps_remove_types: "emit_keeps P Q em \<Longrightarrow> keeps P Q st (remove_types em ts st)"
  by (induction ts arbitrary: st) (auto simp: keeps_refl intro!: keeps_ebind keeps_remove_type)

lemma reset_clear: "(fresh_events st)\<lparr>eventsCount := 0, kShapeMode := False\<rparr> = clear_listeners None st"
  by (simp add: clear_listeners_def)

lemma keeps_removeAllListeners:
  assumes "emit_keeps P Q em" shows "keeps P Q st (removeAllListeners em topt st)"
proof (cases topt)
  case None
  have "keeps P Q st (ebind (remove_types em ks st) (\<lambda>_ st. ebind (remove_type em ev_removeListener st)
      (\<lambda>_ st. Some (Inr (), (fresh_events st)\<lparr>eventsCount := 0, kShapeMode := False\<rparr>))))" for ks
    unfolding reset_clear using P_clear
    by (intro keeps_ebind keeps_remove_types keeps_remove_type assms keeps_some) auto
  then show ?thesis using P_clear unfolding removeAllListeners_def None
    by (auto simp: keeps_refl intro: keeps_some split: option.split)
qed (simp add: removeAllListeners_def keeps_remove_type assms)

lemma keeps_exec:
  assumes "emit_keeps P Q em" "E em" shows "prog_ok A p \<Longrightarrow> keeps P Q st (exec_ee em p st)"
proof (induction p arbitrary: st)
  case (EEmit t args k) then show ?case using assms by (auto intro: keeps_econt)
next
  case (EAdd t l pre k) then show ?case using assms by (auto intro!: keeps_econt keeps_addListener)
next
  case (EOnce t l pre k) then show ?case using assms by (auto intro!: keeps_econt keeps_addOnce)
next
  case (ERemove t l k) then show ?case using assms by (auto intro!: keeps_econt keeps_removeListener)
next
  case (ERemoveAll topt k) then show ?case using assms by (auto intro!: keeps_econt keeps_removeAllListeners)
next
  case (ESetMax n k)
  have "P st \<Longrightarrow> P (snd (setMaxListeners n st)) \<and> Q st (snd (setMaxListeners n st))"
    using P_max [where st = st and m = "Some n" and d = "defaultMaxListeners st"] Q_refl by (simp add: setMaxListeners_def split: sum.split)
  moreover have "keeps P Q s (exec_ee em (k r) s)" for r s using ESetMax by simp
  ultimately show ?case unfolding exec_ee.simps by (rule keeps_setting)
next
  case (ESetDefaultMax n k)
  have "P st \<Longrightarrow> P (snd (setDefaultMaxListeners n st)) \<and> Q st (snd (setDefaultMaxListeners n st))"
    using P_max [where st = st and m = "maxListeners st" and d = n] Q_refl by (simp add: setDefaultMaxListeners_def split: sum.split)
  moreover have "keeps P Q s (exec_ee em (k r) s)" for r s using ESetDefaultMax by simp
  ultimately show ?case unfolding exec_ee.simps by (rule keeps_setting)
qed (simp_all add: keeps_refl)

lemma keeps_call:
  assumes env_ok: "env_adds A env" and em: "emit_keeps P Q em" "E em" shows "C f \<Longrightarrow> keeps P Q st (call_fn env em k f args st)"
proof (induction k arbitrary: f st)
  case (Suc k)
  show ?case
  proof (cases f)
    case (Fn i)
    have "keeps P Q (st\<lparr>trace := Called i args # trace st\<rparr>) (exec_ee em (env i (trace st) args) (st\<lparr>trace := Called i args # trace st\<rparr>))"
      by (rule keeps_exec [OF em]) (use env_ok in \<open>simp add: env_adds_def\<close>)
    then show ?thesis using keeps_from [OF P_called] Fn by simp
  next
    case (Wrap w)
    show ?thesis
    proof (cases "\<exists>x. wraps st w = Some x \<and> \<not> fired x")
      case True
      then obtain x where x: "wraps st w = Some x" "\<not> fired x" by blast
      have "keeps P Q st (case removeListener em (wtype x) (VFn (Wrap w)) st of None \<Rightarrow> None | Some (Inl e, st) \<Rightarrow> Some (Inl e, st)
        | Some (Inr _, st) \<Rightarrow> call_fn env em k (wlistener x) args
                      (st\<lparr>wraps := (wraps st)(w \<mapsto> x\<lparr>fired := True\<rparr>), trace := CalledOnce w args # trace st\<rparr>))"
      proof (cases "removeListener em (wtype x) (VFn (Wrap w)) st")
        case (Some p)
        obtain r s where p: "p = (r, s)" by (cases p)
        show ?thesis
        proof (cases r)
          case (Inl e)
          then show ?thesis using keeps_removeListener [OF em(1), of st "wtype x" "VFn (Wrap w)"] Some p by (simp add: keeps_def)
        next
          case (Inr u)
          let ?s = "s\<lparr>wraps := (wraps s)(w \<mapsto> x\<lparr>fired := True\<rparr>), trace := CalledOnce w args # trace s\<rparr>"
          have "P st \<Longrightarrow> P ?s \<and> Q st ?s" using P_fire [OF _ _ x em(2,1)] Suc.prems Wrap Some p Inr by simp
          moreover have "P st \<Longrightarrow> keeps P Q ?s (call_fn env em k (wlistener x) args ?s)" using Suc.IH C_listener x(1) by blast
          ultimately show ?thesis using Some p Inr Q_trans by (fastforce simp: keeps_def)
        qed
      qed (simp add: keeps_none)
      then show ?thesis using Wrap x by (simp add: ebind_def)
    next
      case False
      then show ?thesis using Wrap by (auto simp: keeps_refl split: option.split)
    qed
  qed
qed (simp add: keeps_none)

lemma keeps_addCatch: "emit_keeps P Q em \<Longrightarrow> keeps P Q st (addCatch em v t args st)"
  using P_catch by (auto simp: addCatch_def keeps_refl intro!: keeps_some [of st "st\<lparr>catches := c\<rparr>" for c] keeps_ebind split: ee_val.split)

lemma keeps_call_listener:
  assumes "env_adds A env" "emit_keeps P Q em" "E em" "C f" shows "keeps P Q st (call_listener env em k t args f st)"
  unfolding call_listener_def using assms
  by (intro keeps_ebind keeps_call) (auto simp: keeps_addCatch keeps_refl)

lemma keeps_call_listeners:
  assumes "env_adds A env" "emit_keeps P Q em" "E em" shows "(\<forall>f \<in> set fs. C f) \<Longrightarrow> keeps P Q st (call_listeners env em k t args fs st)"
  by (induction fs arbitrary: st) (auto simp: keeps_refl intro!: keeps_ebind keeps_call_listener assms)

lemma keeps_emit_body:
  assumes env: "env_adds A env" and em: "emit_keeps P Q em" "E em" shows "keeps P Q st (emit_body env em k t args st)"
proof (cases "eventsObj st")
  case None
  then show ?thesis by (simp add: emit_body_def keeps_refl)
next
  case (Some e)
  have m: "keeps P Q st (if t = ev_error \<and> obj_get (evObjs st e) kErrorMonitor \<noteq> None then em kErrorMonitor args st else Some (Inr True, st))"
    using em(1) by (simp add: keeps_refl)
  show ?thesis unfolding emit_body_def Some option.case
  proof (rule keeps_ebind [OF m], goal_cases)
    case (1 a s)
    then have C: "\<forall>f \<in> set (slot_fns s (obj_get (evObjs s e) t)). C f" using C_snapshot [OF _ Some] by blast
    then show ?case using env em
      by (auto simp: keeps_refl slot_fns_def arrayClone_def intro!: keeps_ebind keeps_call_listener keeps_call_listeners split: option.split ee_slot.split)
  qed
qed

lemma keeps_emit:
  assumes "env_adds A env" "\<And>n. E (emit_at env n)" shows "emit_keeps P Q (emit_at env n)"
proof (induction n)
  case 0 show ?case by (simp add: keeps_none)
next
  case (Suc n) then show ?case using keeps_emit_body assms by simp
qed

lemma keeps_rejection:
  assumes "env_adds A env" "\<And>n. E (emit_at env n)" shows "keeps P Q st (emitUnhandledRejectionOrErr None (emit_at env n) err t args st)"
proof (cases "emit_at env n ev_error [err] (st\<lparr>kCapture := False\<rparr>)")
  case (Some p)
  obtain r s where p: "p = (r, s)" by (cases p)
  have "keeps P Q (st\<lparr>kCapture := False\<rparr>) (Some (r, s))" using keeps_emit [OF assms, of n] Some p by metis
  from keeps_from [OF P_capture this] have "P st \<Longrightarrow> P s \<and> Q st s" by (simp add: keeps_def)
  then have "P st \<Longrightarrow> P (s\<lparr>kCapture := c\<rparr>) \<and> Q st (s\<lparr>kCapture := c\<rparr>)" for c using P_capture Q_trans by blast
  then show ?thesis using Some p by (cases r) (auto simp: emitUnhandledRejectionOrErr_def Let_def keeps_def)
qed (simp add: emitUnhandledRejectionOrErr_def keeps_none)

lemma keeps_program:
  "env_adds A env \<Longrightarrow> (\<And>n. E (emit_at env n)) \<Longrightarrow> prog_ok A p \<Longrightarrow> keeps P Q st (exec_ee (emit_at env n) p st)"
  by (rule keeps_exec [OF keeps_emit])

end

text \<open>It is enough to look at the primitive changes.\<close>

locale emitter_prims = emitter_base P Q
  for P :: "emitter \<Rightarrow> bool" and Q :: "emitter \<Rightarrow> emitter \<Rightarrow> bool" +
  fixes A :: "fn \<Rightarrow> bool"
    and C :: "fn \<Rightarrow> bool"
  assumes A_C: "A f \<Longrightarrow> C f"
    and P_put: "P st \<Longrightarrow> C f \<Longrightarrow> P (put_listener t f pre st) \<and> Q st (put_listener t f pre st)"
    and P_take: "P st \<Longrightarrow> P (snd (take_listener t g st)) \<and> Q st (snd (take_listener t g st))"
    and P_clear: "P st \<Longrightarrow> P (clear_listeners topt st) \<and> Q st (clear_listeners topt st)"
    and P_max: "P st \<Longrightarrow> P (st\<lparr>maxListeners := m, defaultMaxListeners := d\<rparr>) \<and> Q st (st\<lparr>maxListeners := m, defaultMaxListeners := d\<rparr>)"
    and P_capture: "P st \<Longrightarrow> P (st\<lparr>kCapture := b\<rparr>) \<and> Q st (st\<lparr>kCapture := b\<rparr>)"
    and P_catch: "P st \<Longrightarrow> P (st\<lparr>catches := c\<rparr>) \<and> Q st (st\<lparr>catches := c\<rparr>)"
    and P_called: "P st \<Longrightarrow> P (st\<lparr>trace := Called i args # trace st\<rparr>) \<and> Q st (st\<lparr>trace := Called i args # trace st\<rparr>)"
    and P_wrap: "P st \<Longrightarrow> A f \<Longrightarrow> P (snd (onceWrap t f st)) \<and> Q st (snd (onceWrap t f st)) \<and> C (Wrap (nextObj st))"
    and C_snapshot: "P st \<Longrightarrow> eventsObj st = Some e \<Longrightarrow> P st' \<Longrightarrow> Q st st' \<Longrightarrow> f \<in> set (slot_fns st' (obj_get (evObjs st' e) t)) \<Longrightarrow> C f"
    and C_listener: "P st \<Longrightarrow> wraps st w = Some x \<Longrightarrow> C (wlistener x)"
    and P_fired: "P st \<Longrightarrow> wraps st w = Some x \<Longrightarrow> C (Wrap w) \<Longrightarrow> P st' \<Longrightarrow> Q st st' \<Longrightarrow>
      P (st'\<lparr>wraps := (wraps st')(w \<mapsto> x\<lparr>fired := True\<rparr>), trace := CalledOnce w args # trace st'\<rparr>) \<and>
      Q st' (st'\<lparr>wraps := (wraps st')(w \<mapsto> x\<lparr>fired := True\<rparr>), trace := CalledOnce w args # trace st'\<rparr>)"
begin

lemma once_keeps:
  assumes "P st" "A f" "emit_keeps P Q em" shows "keeps P Q st (addOnce em t (VFn f) pre st)"
proof -
  have w: "P (snd (onceWrap t f st)) \<and> Q st (snd (onceWrap t f st))" "C (Wrap (nextObj st))" using P_wrap assms by auto
  have "keeps P Q (snd (onceWrap t f st)) (addListener em t (VFn (Wrap (nextObj st))) pre (snd (onceWrap t f st)))"
    by (rule keeps_adding [OF assms(3)]) (use P_put w in blast)
  then show ?thesis using keeps_from w(1) by (simp add: addOnce_def onceWrap_def)
qed

lemma fire_keeps:
  assumes "P st" "C (Wrap w)" "wraps st w = Some x" "emit_keeps P Q em" "removeListener em (wtype x) (VFn (Wrap w)) st = Some (Inr u, st')"
  shows "P (st'\<lparr>wraps := (wraps st')(w \<mapsto> x\<lparr>fired := True\<rparr>), trace := CalledOnce w args # trace st'\<rparr>) \<and>
      Q st (st'\<lparr>wraps := (wraps st')(w \<mapsto> x\<lparr>fired := True\<rparr>), trace := CalledOnce w args # trace st'\<rparr>)"
proof -
  have "keeps P Q st (removeListener em (wtype x) (VFn (Wrap w)) st)" by (rule keeps_removing [OF assms(4) P_take])
  then have s: "P st'" "Q st st'" using assms(1,5) by (auto simp: keeps_def)
  then show ?thesis using P_fired [OF assms(1,3,2) s] Q_trans by blast
qed

end

sublocale emitter_prims \<subseteq> ops: emitter_ops P Q A C "\<lambda>_. True"
proof (unfold_locales, goal_cases)
  case 1 then show ?case by (intro P_put A_C)
next
  case 2 then show ?case by (rule P_take)
next
  case 3 then show ?case by (rule P_clear)
next
  case 4 then show ?case by (rule P_max)
next
  case 5 then show ?case by (rule P_capture)
next
  case 6 then show ?case by (rule P_catch)
next
  case 7 then show ?case by (rule P_called)
next
  case 8 then show ?case by (rule C_snapshot)
next
  case 9 then show ?case by (rule C_listener)
next
  case 10 then show ?case by (intro once_keeps)
next
  case 11 then show ?case by (intro fire_keeps)
qed

section \<open>The representation\<close>

lemma obj_get_set [simp]: "obj_get (obj_set ob t v) = (obj_get ob)(t := v)"
proof
  fix u
  let ?ob = "map (\<lambda>(k, x). if k = t then (k, v) else (k, x)) ob"
  have "u \<noteq> t \<Longrightarrow> map_of ?ob u = map_of ob u" by (induction ob) auto
  moreover have "t \<in> fst ` set ob \<Longrightarrow> map_of ?ob t = Some v" by (induction ob) auto
  moreover have "t \<notin> fst ` set ob \<Longrightarrow> map_of ob t = None" by (simp add: map_of_eq_None_iff)
  ultimately show "obj_get (obj_set ob t v) u = ((obj_get ob)(t := v)) u"
    by (cases "t \<in> fst ` set ob"; cases "u = t") (simp_all add: obj_get_def obj_set_def map_add_def split: option.split)
qed

lemma obj_get_delete [simp]: "obj_get (obj_delete ob t) = (obj_get ob)(t := None)"
proof
  fix u
  have "map_of (filter (\<lambda>(k, x). k \<noteq> t) ob) u = (if u = t then None else map_of ob u)" by (induction ob) auto
  then show "obj_get (obj_delete ob t) u = ((obj_get ob)(t := None)) u" by (simp add: obj_get_def obj_delete_def)
qed

lemma finite_obj: "finite {t. obj_get ob t \<noteq> None}"
  by (rule finite_subset [OF _ finite_dom_map_of [of ob]]) (auto simp: obj_get_def dom_def split: option.splits)

lemma finite_handlers: "finite {t. handler_of st t \<noteq> None}"
  using finite_obj by (cases "eventsObj st") (simp_all add: handler_of_def)

lemma handler_set: "eventsObj st \<noteq> None \<Longrightarrow> handler_of (set_slot t v st) = (handler_of st)(t := v)"
  by (auto simp: handler_of_def set_slot_def fun_eq_iff)

lemma handler_fresh: "handler_of (fresh_events st) = (\<lambda>_. None)"
  by (auto simp: handler_of_def fresh_events_def obj_get_def fun_eq_iff)

lemma handler_upd [simp]:
  "handler_of (st\<lparr>eventsCount := c\<rparr>) = handler_of st" "handler_of (st\<lparr>arrs := b\<rparr>) = handler_of st"
  "handler_of (st\<lparr>nextObj := n\<rparr>) = handler_of st" "handler_of (st\<lparr>kShapeMode := m\<rparr>) = handler_of st"
  "handler_of (st\<lparr>trace := tr\<rparr>) = handler_of st" "handler_of (st\<lparr>wraps := ws\<rparr>) = handler_of st"
  "handler_of (st\<lparr>catches := cs\<rparr>) = handler_of st" "handler_of (st\<lparr>maxListeners := x\<rparr>) = handler_of st"
  "handler_of (st\<lparr>defaultMaxListeners := z\<rparr>) = handler_of st"
  "handler_of (st\<lparr>leaks := y\<rparr>) = handler_of st" "handler_of (st\<lparr>kCapture := d\<rparr>) = handler_of st"
  by (simp_all add: handler_of_def fun_eq_iff split: option.split)

lemma handler_leak [simp]: "handler_of (check_leak t a st) = handler_of st"
  by (simp add: check_leak_def)

lemma set_slot_fields [simp]:
  "eventsObj (set_slot t v st) = eventsObj st" "eventsCount (set_slot t v st) = eventsCount st" "arrs (set_slot t v st) = arrs st"
  "nextObj (set_slot t v st) = nextObj st" "wraps (set_slot t v st) = wraps st" "trace (set_slot t v st) = trace st"
  "kShapeMode (set_slot t v st) = kShapeMode st"
  by (auto simp: set_slot_def split: option.split)

lemma fresh_fields [simp]:
  "eventsObj (fresh_events st) = Some (nextObj st)" "eventsCount (fresh_events st) = eventsCount st" "arrs (fresh_events st) = arrs st"
  "nextObj (fresh_events st) = Suc (nextObj st)" "wraps (fresh_events st) = wraps st" "trace (fresh_events st) = trace st"
  by (auto simp: fresh_events_def)

lemma check_leak_fields [simp]:
  "eventsObj (check_leak t a st) = eventsObj st" "eventsCount (check_leak t a st) = eventsCount st" "evObjs (check_leak t a st) = evObjs st"
  "nextObj (check_leak t a st) = nextObj st" "wraps (check_leak t a st) = wraps st" "trace (check_leak t a st) = trace st"
  "items (arrs (check_leak t a st) b) = items (arrs st b)" "kShapeMode (check_leak t a st) = kShapeMode st"
  by (auto simp: check_leak_def)

definition live_events :: "emitter \<Rightarrow> nat" where
  "live_events st = card {t. handler_of st t \<noteq> None}"

text \<open>The number of events is right, arrays hold at least two listeners and belong to one event.\<close>

definition ee_ok :: "emitter \<Rightarrow> bool" where
  "ee_ok st \<longleftrightarrow> (\<exists>e. eventsObj st = Some e \<and> e < nextObj st) \<and> eventsCount st = int (live_events st) \<and>
     (\<forall>t a. handler_of st t = Some (Many a) \<longrightarrow> a < nextObj st \<and> 2 \<le> length (items (arrs st a))) \<and>
     (\<forall>t u a. handler_of st t = Some (Many a) \<longrightarrow> handler_of st u = Some (Many a) \<longrightarrow> t = u)"

lemma ee_okD:
  assumes "ee_ok st"
  shows "eventsObj st \<noteq> None" "eventsCount st = int (live_events st)"
    "handler_of st t = Some (Many a) \<Longrightarrow> a < nextObj st \<and> 2 \<le> length (items (arrs st a))"
    "handler_of st t = Some (Many a) \<Longrightarrow> handler_of st u = Some (Many a) \<Longrightarrow> t = u"
  using assms unfolding ee_ok_def by blast+

text \<open>Both depend on the handlers and the contents of the arrays only.\<close>

lemma ee_cong:
  assumes "eventsObj st' = eventsObj st" "handler_of st' = handler_of st" "eventsCount st' = eventsCount st" "nextObj st \<le> nextObj st'"
    "\<And>a. items (arrs st' a) = items (arrs st a)"
  shows "ee_ok st \<Longrightarrow> ee_ok st'" "lst st' = lst st"
  using assms by (force simp: ee_ok_def live_events_def, auto simp: lst_def slot_fns_def fun_eq_iff split: option.split ee_slot.split)

lemma card_handlers:
  assumes "handler_of st' = (handler_of st)(u := v)"
  shows "live_events st' + (if handler_of st u = None then 0 else 1) = live_events st + (if v = None then 0 else 1)"
proof -
  define B where "B = {t. handler_of st t \<noteq> None} - {u}"
  have B: "finite B" "u \<notin> B" using finite_handlers by (simp_all add: B_def)
  have 1: "{t. handler_of st t \<noteq> None} = (if handler_of st u = None then B else insert u B)"
    and 2: "{t. handler_of st' t \<noteq> None} = (if v = None then B else insert u B)" using assms by (auto simp: B_def)
  show ?thesis unfolding live_events_def 1 2 using B by simp
qed

text \<open>One event is changed.\<close>

lemma ee_change:
  assumes ok: "ee_ok st" and h: "handler_of st' = (handler_of st)(t := v)"
    and e: "eventsObj st' = Some e" "e < nextObj st'" "nextObj st \<le> nextObj st'"
    and c: "eventsCount st' = eventsCount st + (if v = None then 0 else 1) - (if handler_of st t = None then 0 else 1)"
    and arr: "\<And>u b. u \<noteq> t \<Longrightarrow> handler_of st u = Some (Many b) \<Longrightarrow> items (arrs st' b) = items (arrs st b)"
    and v: "\<And>b. v = Some (Many b) \<Longrightarrow> b < nextObj st' \<and> 2 \<le> length (items (arrs st' b)) \<and> (\<forall>u. u \<noteq> t \<longrightarrow> handler_of st u \<noteq> Some (Many b))"
  shows "ee_ok st'" "lst st' = (lst st)(t := slot_fns st' v)"
proof -
  note D = ee_okD [OF ok]
  have "eventsCount st' = int (live_events st')" using card_handlers [OF h] D(2) c by (auto split: if_splits)
  moreover have "b < nextObj st' \<and> 2 \<le> length (items (arrs st' b))" if "handler_of st' u = Some (Many b)" for u b
    using that v [of b] D(3) [of u b] arr [of u b] e(3) by (cases "u = t") (simp_all add: h)
  moreover have "u = u'" if "handler_of st' u = Some (Many b)" "handler_of st' u' = Some (Many b)" for u u' b
    using that v [of b] D(4) [of u b u'] by (cases "u = t"; cases "u' = t") (simp_all add: h)
  ultimately show "ee_ok st'" using e unfolding ee_ok_def by blast
  have "slot_fns st' (handler_of st u) = slot_fns st (handler_of st u)" if "u \<noteq> t" for u
    using arr [OF that] by (simp add: slot_fns_def split: option.split ee_slot.split)
  then show "lst st' = (lst st)(t := slot_fns st' v)" by (simp add: fun_eq_iff lst_def h)
qed

lemma put_listener_ok:
  assumes ok: "ee_ok st"
  shows "ee_ok (put_listener t f pre st)" "lst (put_listener t f pre st) = (lst st)(t := (if pre then f # lst st t else lst st t @ [f]))"
proof -
  let ?st = "put_listener t f pre st"
  note D = ee_okD [OF ok]
  obtain e where e: "eventsObj st = Some e" "e < nextObj st" using ok by (auto simp: ee_ok_def)
  have "ee_ok ?st \<and> lst ?st = (lst st)(t := (if pre then f # lst st t else lst st t @ [f]))"
  proof (cases "handler_of st t")
    case None
    then have p: "?st = (set_slot t (Some (One f)) st)\<lparr>eventsCount := eventsCount st + 1\<rparr>" by (simp add: put_listener_def)
    have h: "handler_of ?st = (handler_of st)(t := Some (One f))" using handler_set [OF D(1)] p by simp
    have "ee_ok ?st" "lst ?st = (lst st)(t := slot_fns ?st (Some (One f)))"
      by (rule ee_change [OF ok h, where e = e]; use e None in \<open>simp add: p\<close>)+
    then show ?thesis using None by (simp add: lst_def slot_fns_def)
  next
    case (Some s)
    show ?thesis
    proof (cases s)
      case (One g)
      let ?a = "nextObj st"
      let ?s1 = "st\<lparr>arrs := (arrs st)(?a := \<lparr>items = (if pre then [f, g] else [g, f]), warned = False\<rparr>), nextObj := ?a + 1\<rparr>"
      have p: "?st = check_leak t ?a (set_slot t (Some (Many ?a)) ?s1)" using Some One by (simp add: put_listener_def Let_def)
      have h: "handler_of ?st = (handler_of st)(t := Some (Many ?a))" using handler_set [of ?s1] D(1) p by simp
      have fr: "handler_of st u \<noteq> Some (Many ?a)" for u using D(3) [of u ?a] by auto
      have "ee_ok ?st" "lst ?st = (lst st)(t := slot_fns ?st (Some (Many ?a)))"
        by (rule ee_change [OF ok h, where e = e]; use e Some One fr in \<open>auto simp: p\<close>)+
      then show ?thesis using Some One by (simp add: lst_def slot_fns_def p)
    next
      case (Many a)
      let ?s1 = "st\<lparr>arrs := (arrs st)(a := (arrs st a)\<lparr>items := (if pre then f # items (arrs st a) else items (arrs st a) @ [f])\<rparr>)\<rparr>"
      have p: "?st = check_leak t a ?s1" using Some Many by (simp add: put_listener_def)
      have h: "handler_of ?st = (handler_of st)(t := Some (Many a))" using p Some Many by (simp add: fun_upd_idem)
      have o: "u \<noteq> t \<Longrightarrow> handler_of st u \<noteq> Some (Many a)" for u using D(4) [of u a t] Some Many by blast
      have a: "a < nextObj st" "2 \<le> length (items (arrs st a))" using D(3) Some Many by blast+
      have "ee_ok ?st" "lst ?st = (lst st)(t := slot_fns ?st (Some (Many a)))"
        by (rule ee_change [OF ok h, where e = e]; use e Some Many o a in \<open>auto simp: p\<close>)+
      then show ?thesis using Some Many by (simp add: lst_def slot_fns_def p)
    qed
  qed
  then show "ee_ok ?st" "lst ?st = (lst st)(t := (if pre then f # lst st t else lst st t @ [f]))" by auto
qed

text \<open>Removing the last element with a property.\<close>

fun remove_last :: "('a \<Rightarrow> bool) \<Rightarrow> 'a list \<Rightarrow> 'a list" where
  "remove_last p [] = []"
| "remove_last p (x # xs) = (if list_ex p xs then x # remove_last p xs else if p x then xs else x # xs)"

lemma remove_last_none: "\<not> list_ex p xs \<Longrightarrow> remove_last p xs = xs"
  by (cases xs) auto

lemma remove_last_split: "p y \<Longrightarrow> \<not> list_ex p zs \<Longrightarrow> remove_last p (ys @ y # zs) = ys @ zs"
  by (induction ys) (auto simp: remove_last_none)

lemma last_match_cases:
  "case last_match st f fs of None \<Rightarrow> \<not> list_ex (matches st f) fs
   | Some i \<Rightarrow> i < length fs \<and> splice_one i fs = remove_last (matches st f) fs \<and> matches st f (fs ! i)"
proof (cases "last_match st f fs")
  case None
  then have "filter (\<lambda>i. matches st f (fs ! i)) (rev [0 ..< length fs]) = []" by (auto simp: last_match_def split: list.splits)
  then show ?thesis using None by (auto simp: filter_empty_conv list_ex_iff in_set_conv_nth)
next
  case (Some i)
  then obtain js where "filter (\<lambda>i. matches st f (fs ! i)) (rev [0 ..< length fs]) = i # js" by (auto simp: last_match_def split: list.splits)
  then obtain us vs where u: "rev [0 ..< length fs] = us @ i # vs" "\<forall>k \<in> set us. \<not> matches st f (fs ! k)" "matches st f (fs ! i)"
    by (auto simp: filter_eq_Cons_iff)
  have up: "[0 ..< length fs] = rev vs @ i # rev us" using arg_cong [OF u(1), of rev] by simp
  then have i: "i < length fs" by (metis atLeast_upt in_set_conv_decomp lessThan_iff)
  have "k \<in> set us" if "i < k" "k < length fs" for k
  proof -
    have "sorted_wrt (<) (rev vs @ i # rev us)" using up [symmetric] by simp
    moreover have "k \<in> set (rev vs @ i # rev us)" using that up [symmetric] by simp
    ultimately show ?thesis using that by (auto simp: sorted_wrt_append)
  qed
  then have "\<not> list_ex (matches st f) (drop (Suc i) fs)" using u(2) by (auto simp: list_ex_iff in_set_conv_nth)
  moreover have "fs = take i fs @ fs ! i # drop (Suc i) fs" using i by (simp add: id_take_nth_drop)
  ultimately have "remove_last (matches st f) fs = splice_one i fs" using remove_last_split [of "matches st f" "fs ! i" "drop (Suc i) fs" "take i fs"] u(3) by (simp add: splice_one_def)
  then show ?thesis using Some i u(3) by simp
qed

lemma length_splice: "i < length fs \<Longrightarrow> length (splice_one i fs) = length fs - 1"
  by (simp add: splice_one_def)

text \<open>The last event leaves nothing.\<close>

lemma handlers_last:
  assumes ok: "ee_ok st" and "handler_of st t \<noteq> None" "eventsCount st = 1"
  shows "(handler_of st)(t := None) = (\<lambda>_. None)"
proof -
  have "handler_of (set_slot t None st) = (handler_of st)(t := None)" using handler_set [OF ee_okD(1) [OF ok]] .
  moreover from card_handlers [OF this] have "live_events (set_slot t None st) = 0" using assms(2,3) ee_okD(2) [OF ok] by simp
  then have "\<forall>u. handler_of (set_slot t None st) u = None" using finite_handlers by (simp add: live_events_def)
  ultimately show ?thesis by auto
qed

lemma take_listener_ok:
  assumes ok: "ee_ok st"
  shows "ee_ok (snd (take_listener t f st))" "lst (snd (take_listener t f st)) = (lst st)(t := remove_last (matches st f) (lst st t))"
    "wraps (snd (take_listener t f st)) = wraps st" "trace (snd (take_listener t f st)) = trace st"
    "nextObj st \<le> nextObj (snd (take_listener t f st))"
proof -
  note D = ee_okD [OF ok]
  have "ee_ok (snd (take_listener t f st)) \<and> lst (snd (take_listener t f st)) = (lst st)(t := remove_last (matches st f) (lst st t)) \<and>
    wraps (snd (take_listener t f st)) = wraps st \<and> trace (snd (take_listener t f st)) = trace st \<and> nextObj st \<le> nextObj (snd (take_listener t f st))"
  proof (cases "handler_of st t")
    case None
    then have "lst st t = []" by (simp add: lst_def slot_fns_def)
    then show ?thesis using None ok by (simp add: take_listener_def fun_upd_idem)
  next
    case (Some s)
    show ?thesis
    proof (cases s)
      case (One g)
      then have l: "lst st t = [g]" using Some by (simp add: lst_def slot_fns_def)
      have new: "ee_ok st' \<and> lst st' = (lst st)(t := [])"
        if "handler_of st' = (handler_of st)(t := None)" "eventsObj st' = Some e'" "e' < nextObj st'" "nextObj st \<le> nextObj st'"
          "eventsCount st' = eventsCount st - 1" "arrs st' = arrs st" for st' e'
        using ee_change [OF ok that(1-4)] that(5,6) Some by (simp add: slot_fns_def)
      obtain e where e: "eventsObj st = Some e" "e < nextObj st" using ok by (auto simp: ee_ok_def)
      have z: "(handler_of st)(t := None) = (\<lambda>_. None)" if "eventsCount st = 1"
        using handlers_last [OF ok, of t] Some that by simp
      let ?st' = "st\<lparr>eventsCount := eventsCount st - 1\<rparr>"
      let ?del = "?st'\<lparr>evObjs := (evObjs st)(e := obj_delete (evObjs st e) t)\<rparr>"
      have h: "handler_of (set_slot t None ?st') = (handler_of st)(t := None)" "handler_of ?del = (handler_of st)(t := None)"
        using handler_set [of ?st'] e by (simp_all add: handler_of_def fun_eq_iff)
      have n1: "ee_ok (set_slot t None ?st') \<and> lst (set_slot t None ?st') = (lst st)(t := [])" using new [OF h(1)] e by simp
      have n2: "ee_ok ?del \<and> lst ?del = (lst st)(t := [])" using new [OF h(2)] e by simp
      have n3: "eventsCount st = 1 \<Longrightarrow> ee_ok (fresh_events ?st') \<and> lst (fresh_events ?st') = (lst st)(t := [])"
        using new [of "fresh_events ?st'"] handler_fresh [of ?st'] z by simp
      show ?thesis
      proof (cases "matches st f g")
        case True
        then show ?thesis using n1 n2 n3 Some One l e by (simp add: take_listener_def Let_def)
      next
        case False
        then show ?thesis using Some One l ok by (simp add: take_listener_def fun_upd_idem)
      qed
    next
      case (Many a)
      let ?fs = "items (arrs st a)"
      have l: "lst st t = ?fs" using Some Many by (simp add: lst_def slot_fns_def)
      have len: "2 \<le> length ?fs" using D(3) Some Many by blast
      show ?thesis
      proof (cases "last_match st f ?fs")
        case None
        then have "remove_last (matches st f) ?fs = ?fs" using last_match_cases [of st f ?fs] remove_last_none by fastforce
        then show ?thesis using Some Many None ok l by (simp add: take_listener_def fun_upd_idem)
      next
        case i: (Some i)
        then have i': "i < length ?fs" "splice_one i ?fs = remove_last (matches st f) ?fs" using last_match_cases [of st f ?fs] by auto
        let ?fs' = "splice_one i ?fs"
        let ?st' = "st\<lparr>arrs := (arrs st)(a := (arrs st a)\<lparr>items := ?fs'\<rparr>)\<rparr>"
        let ?st'' = "if length ?fs' = 1 then set_slot t (Some (One (hd ?fs'))) ?st' else ?st'"
        have e: "snd (take_listener t f st) = ?st''" using Some Many i by (simp add: take_listener_def Let_def)
        have h: "handler_of ?st'' = (handler_of st)(t := (if length ?fs' = 1 then Some (One (hd ?fs')) else Some (Many a)))"
          using handler_set [of ?st'] D(1) Some Many by (auto simp: fun_upd_idem)
        have lf: "length ?fs' = length ?fs - 1" using length_splice [OF i'(1)] .
        have other: "handler_of st u = Some (Many a) \<Longrightarrow> u = t" for u using D(4) [of u a t] Some Many by blast
        obtain e' where e': "eventsObj st = Some e'" "e' < nextObj st" using ok by (auto simp: ee_ok_def)
        have a: "a < nextObj st" using D(3) Some Many by blast
        have "ee_ok ?st''" "lst ?st'' = (lst st)(t := slot_fns ?st'' (if length ?fs' = 1 then Some (One (hd ?fs')) else Some (Many a)))"
          by (rule ee_change [OF ok h, where e = e']; use e' a other lf len Some in \<open>auto split: if_splits\<close>)+
        moreover have "slot_fns ?st'' (if length ?fs' = 1 then Some (One (hd ?fs')) else Some (Many a)) = ?fs'"
          by (cases ?fs') (auto simp: slot_fns_def)
        ultimately show ?thesis unfolding e using i' l by simp
      qed
    qed
  qed
  then show "ee_ok (snd (take_listener t f st))" "lst (snd (take_listener t f st)) = (lst st)(t := remove_last (matches st f) (lst st t))"
    "wraps (snd (take_listener t f st)) = wraps st" "trace (snd (take_listener t f st)) = trace st"
    "nextObj st \<le> nextObj (snd (take_listener t f st))" by auto
qed

lemma clear_listeners_ok:
  assumes ok: "ee_ok st"
  shows "ee_ok (clear_listeners topt st)" "lst (clear_listeners topt st) = (case topt of None \<Rightarrow> (\<lambda>_. []) | Some t \<Rightarrow> (lst st)(t := []))"
    "wraps (clear_listeners topt st) = wraps st" "trace (clear_listeners topt st) = trace st"
proof -
  note D = ee_okD [OF ok]
  obtain e where e: "eventsObj st = Some e" "e < nextObj st" using ok by (auto simp: ee_ok_def)
  have nil: "lst (fresh_events s) = (\<lambda>_. [])" for s by (simp add: fun_eq_iff lst_def handler_fresh slot_fns_def)
  have none: "live_events (fresh_events s) = 0" for s by (simp add: live_events_def handler_fresh)
  have "ee_ok (clear_listeners topt st) \<and> lst (clear_listeners topt st) = (case topt of None \<Rightarrow> (\<lambda>_. []) | Some t \<Rightarrow> (lst st)(t := [])) \<and>
    wraps (clear_listeners topt st) = wraps st \<and> trace (clear_listeners topt st) = trace st"
  proof (cases topt)
    case None
    let ?st = "(fresh_events st)\<lparr>eventsCount := 0, kShapeMode := False\<rparr>"
    have h: "handler_of ?st = (\<lambda>_. None)" by (simp add: handler_fresh)
    have "ee_ok ?st" unfolding ee_ok_def h by (simp add: live_events_def h handler_fresh)
    moreover have "lst ?st = (\<lambda>_. [])" unfolding lst_def h by (simp add: slot_fns_def)
    ultimately show ?thesis using None by (simp add: clear_listeners_def)
  next
    case (Some t)
    show ?thesis
    proof (cases "handler_of st t")
      case None
      have "ee_ok (st\<lparr>kShapeMode := False\<rparr>)" "lst (st\<lparr>kShapeMode := False\<rparr>) = lst st" using ok by (auto intro: ee_cong(1) [of _ st] ee_cong(2))
      moreover have "lst st t = []" using None by (simp add: lst_def slot_fns_def)
      ultimately show ?thesis using Some None by (simp add: clear_listeners_def fun_upd_idem)
    next
      case (Some s)
      have "ee_ok st' \<and> lst st' = (lst st)(t := [])"
        if "handler_of st' = (handler_of st)(t := None)" "eventsObj st' = Some e'" "e' < nextObj st'" "nextObj st \<le> nextObj st'"
          "eventsCount st' = eventsCount st - 1" "arrs st' = arrs st" for st' e'
        using ee_change [OF ok that(1-4)] that(5,6) Some by (simp add: slot_fns_def)
      note new = this
      let ?st' = "st\<lparr>eventsCount := eventsCount st - 1\<rparr>"
      let ?del = "st\<lparr>eventsCount := eventsCount st - 1, evObjs := (evObjs st)(e := obj_delete (evObjs st e) t), kShapeMode := False\<rparr>"
      have "handler_of ?del = (handler_of st)(t := None)" using e by (simp add: handler_of_def fun_eq_iff)
      from new [OF this] have n2: "ee_ok ?del \<and> lst ?del = (lst st)(t := [])" using e by simp
      have "(handler_of st)(t := None) = (\<lambda>_. None)" if "eventsCount st = 1"
        using handlers_last [OF ok, of t] Some that by simp
      then have n3: "eventsCount st = 1 \<Longrightarrow> ee_ok ((fresh_events ?st')\<lparr>kShapeMode := False\<rparr>) \<and> lst ((fresh_events ?st')\<lparr>kShapeMode := False\<rparr>) = (lst st)(t := [])"
        using new [of "(fresh_events ?st')\<lparr>kShapeMode := False\<rparr>"] handler_fresh [of ?st'] by simp
      show ?thesis using Some \<open>topt = Some t\<close> n2 n3 e by (simp add: clear_listeners_def Let_def)
    qed
  qed
  then show "ee_ok (clear_listeners topt st)" "lst (clear_listeners topt st) = (case topt of None \<Rightarrow> (\<lambda>_. []) | Some t \<Rightarrow> (lst st)(t := []))"
    "wraps (clear_listeners topt st) = wraps st" "trace (clear_listeners topt st) = trace st" by auto
qed

lemma onceWrap_ok:
  "ee_ok st \<Longrightarrow> ee_ok (snd (onceWrap t f st))" "lst (snd (onceWrap t f st)) = lst st"
  "wraps (snd (onceWrap t f st)) = (wraps st)(nextObj st \<mapsto> \<lparr>fired = False, wtype = t, wlistener = f\<rparr>)"
  "nextObj (snd (onceWrap t f st)) = Suc (nextObj st)" "trace (snd (onceWrap t f st)) = trace st"
  by (auto simp: onceWrap_def intro: ee_cong intro!: ee_cong(2))

lemma put_listener_fields [simp]:
  "wraps (put_listener t f pre st) = wraps st" "trace (put_listener t f pre st) = trace st" "nextObj st \<le> nextObj (put_listener t f pre st)"
  by (auto simp: put_listener_def Let_def split: option.split ee_slot.split)

interpretation rep: emitter_prims ee_ok "\<lambda>_ _. True" "\<lambda>_. True" "\<lambda>_. True"
proof (unfold_locales, goal_cases)
  case (4 st) then show ?case by (simp add: ee_ok_def)
qed (auto simp: put_listener_ok take_listener_ok clear_listeners_ok onceWrap_ok ee_okD(1) intro: ee_cong(1))

section \<open>Objects that are no longer current\<close>

text \<open>An operation may still hold an \<open>_events\<close> object that has been replaced.  Such objects only lose listeners, except for those
  in \<open>F\<close>.\<close>

definition stale_ok :: "emitter \<Rightarrow> bool" where
  "stale_ok st \<longleftrightarrow> (\<forall>e t a. obj_get (evObjs st e) t = Some (Many a) \<longrightarrow> a < nextObj st)"

definition grow :: "fn set \<Rightarrow> emitter \<Rightarrow> emitter \<Rightarrow> bool" where
  "grow F st st' \<longleftrightarrow> nextObj st \<le> nextObj st' \<and>
     (\<forall>e t. e < nextObj st \<longrightarrow> set (slot_fns st' (obj_get (evObjs st' e) t)) \<subseteq> set (slot_fns st (obj_get (evObjs st e) t)) \<union> F)"

lemma grow_refl: "grow F st st"
  by (simp add: grow_def)

lemma grow_trans: "grow F st st' \<Longrightarrow> grow F st' st'' \<Longrightarrow> grow F st st''"
  unfolding grow_def by (meson Un_least Un_upper2 order_trans order.strict_trans2 subset_Un_eq subset_trans)

text \<open>One property of the current object is changed, perhaps with its array.\<close>

lemma grow_change:
  assumes st: "stale_ok st" and n: "nextObj st \<le> nextObj st'" and e: "eventsObj st = Some e"
    and obj: "\<And>k u. obj_get (evObjs st' k) u = (if k = e \<and> u = t then v else obj_get (evObjs st k) u)"
    and arr: "\<And>a. a < nextObj st \<Longrightarrow> set (items (arrs st' a)) \<subseteq> set (items (arrs st a)) \<union> F"
    and v: "set (slot_fns st' v) \<subseteq> set (lst st t) \<union> F" "\<And>a. v = Some (Many a) \<Longrightarrow> a < nextObj st'"
  shows "grow F st st' \<and> stale_ok st'"
proof -
  have "a < nextObj st'" if "obj_get (evObjs st k) u = Some (Many a)" for k u a
    using st n that unfolding stale_ok_def by (meson order.strict_trans2)
  then have "stale_ok st'" unfolding stale_ok_def obj using v(2) by simp
  moreover have "set (slot_fns st' (obj_get (evObjs st' k) u)) \<subseteq> set (slot_fns st (obj_get (evObjs st k) u)) \<union> F" for k u
  proof (cases "k = e \<and> u = t")
    case True
    then show ?thesis using v(1) e obj [of k u] by (simp add: lst_def handler_of_def)
  next
    case False
    then have "obj_get (evObjs st' k) u = obj_get (evObjs st k) u" using obj by auto
    moreover have "a < nextObj st" if "obj_get (evObjs st k) u = Some (Many a)" for a using st that by (auto simp: stale_ok_def)
    ultimately show ?thesis using arr
      by (cases "obj_get (evObjs st k) u" rule: option.exhaust; cases "the (obj_get (evObjs st k) u)") (auto simp: slot_fns_def)
  qed
  ultimately show ?thesis using n by (simp add: grow_def)
qed

lemma set_slot_obj: "obj_get (evObjs (set_slot t v st) k) u = (if eventsObj st = Some k \<and> u = t then v else obj_get (evObjs st k) u)"
  by (simp add: set_slot_def split: option.split)

lemma grow_fresh:
  assumes "stale_ok st" shows "grow F st (fresh_events st) \<and> stale_ok (fresh_events st)"
proof -
  have o: "obj_get (evObjs (fresh_events st) e) t = (if e = nextObj st then None else obj_get (evObjs st e) t)" for e t
    by (simp add: fresh_events_def obj_get_def)
  have "slot_fns (fresh_events st) x = slot_fns st x" for x by (simp add: slot_fns_def split: option.split ee_slot.split)
  then show ?thesis using assms by (auto simp: grow_def stale_ok_def o less_Suc_eq split: if_splits)
qed

lemma grow_same:
  assumes "stale_ok st" "evObjs st' = evObjs st" "\<And>a. items (arrs st' a) = items (arrs st a)" "nextObj st \<le> nextObj st'"
  shows "grow F st st' \<and> stale_ok st'"
proof -
  have "slot_fns st' x = slot_fns st x" for x using assms(3) by (simp add: slot_fns_def split: option.split ee_slot.split)
  then show ?thesis using assms by (auto simp: grow_def stale_ok_def) (meson order.strict_trans2)
qed

lemma grow_put:
  assumes ok: "ee_ok st" and st: "stale_ok st" shows "grow {f} st (put_listener t f pre st) \<and> stale_ok (put_listener t f pre st)"
proof -
  let ?st = "put_listener t f pre st"
  note D = ee_okD [OF ok]
  obtain e where e: "eventsObj st = Some e" using ok by (auto simp: ee_ok_def)
  show ?thesis
  proof (cases "handler_of st t")
    case None
    then have p: "?st = (set_slot t (Some (One f)) st)\<lparr>eventsCount := eventsCount st + 1\<rparr>" by (simp add: put_listener_def)
    show ?thesis by (rule grow_change [OF st _ e, where t = t and v = "Some (One f)"]) (use e in \<open>auto simp: p set_slot_obj slot_fns_def\<close>)
  next
    case (Some s)
    show ?thesis
    proof (cases s)
      case (One g)
      let ?a = "nextObj st"
      let ?s1 = "st\<lparr>arrs := (arrs st)(?a := \<lparr>items = (if pre then [f, g] else [g, f]), warned = False\<rparr>), nextObj := ?a + 1\<rparr>"
      have p: "?st = check_leak t ?a (set_slot t (Some (Many ?a)) ?s1)" using Some One by (simp add: put_listener_def Let_def)
      show ?thesis by (rule grow_change [OF st _ e, where t = t and v = "Some (Many ?a)"])
        (use Some One e in \<open>auto simp: p set_slot_obj slot_fns_def lst_def\<close>)
    next
      case (Many a)
      let ?s1 = "st\<lparr>arrs := (arrs st)(a := (arrs st a)\<lparr>items := (if pre then f # items (arrs st a) else items (arrs st a) @ [f])\<rparr>)\<rparr>"
      have p: "?st = check_leak t a ?s1" using Some Many by (simp add: put_listener_def)
      have a: "a < nextObj st" using D(3) Some Many by blast
      show ?thesis by (rule grow_change [OF st _ e, where t = t and v = "Some (Many a)"])
        (use Some Many e a in \<open>auto simp: p slot_fns_def lst_def handler_of_def\<close>)
    qed
  qed
qed

lemma set_remove_last: "set (remove_last p xs) \<subseteq> set xs"
  by (induction xs) auto

lemma grow_take:
  assumes ok: "ee_ok st" and st: "stale_ok st"
  shows "grow F st (snd (take_listener t f st)) \<and> stale_ok (snd (take_listener t f st))"
proof -
  note D = ee_okD [OF ok]
  obtain e where e: "eventsObj st = Some e" using ok by (auto simp: ee_ok_def)
  show ?thesis
  proof (cases "handler_of st t")
    case None
    then show ?thesis using st by (simp add: take_listener_def grow_refl)
  next
    case (Some s)
    show ?thesis
    proof (cases s)
      case (One g)
      let ?st' = "st\<lparr>eventsCount := eventsCount st - 1\<rparr>"
      let ?del = "?st'\<lparr>evObjs := (evObjs st)(e := obj_delete (evObjs st e) t)\<rparr>"
      have "grow F st (set_slot t None ?st') \<and> stale_ok (set_slot t None ?st')"
        by (rule grow_change [OF st _ e, where t = t and v = None]) (use e in \<open>auto simp: set_slot_obj slot_fns_def\<close>)
      moreover have "grow F st ?del \<and> stale_ok ?del"
        by (rule grow_change [OF st _ e, where t = t and v = None]) (use e in \<open>auto simp: slot_fns_def\<close>)
      moreover have "grow F st (st\<lparr>eventsCount := c\<rparr>) \<and> stale_ok (st\<lparr>eventsCount := c\<rparr>)" for c by (rule grow_same [OF st]) auto
      then have "grow F st (fresh_events (st\<lparr>eventsCount := c\<rparr>)) \<and> stale_ok (fresh_events (st\<lparr>eventsCount := c\<rparr>))" for c
        using grow_fresh grow_trans by blast
      ultimately show ?thesis using Some One e st grow_refl by (simp add: take_listener_def Let_def)
    next
      case (Many a)
      let ?fs = "items (arrs st a)"
      show ?thesis
      proof (cases "last_match st f ?fs")
        case None
        then show ?thesis using Some Many st by (simp add: take_listener_def grow_refl)
      next
        case i: (Some i)
        let ?fs' = "splice_one i ?fs"
        let ?st' = "st\<lparr>arrs := (arrs st)(a := (arrs st a)\<lparr>items := ?fs'\<rparr>)\<rparr>"
        let ?v = "if length ?fs' = 1 then Some (One (hd ?fs')) else Some (Many a)"
        have sub: "set ?fs' \<subseteq> set ?fs" using last_match_cases [of st f ?fs] i set_remove_last by fastforce
        have hd: "length ?fs' = 1 \<Longrightarrow> hd ?fs' \<in> set ?fs" using sub by (cases ?fs') auto
        have a: "a < nextObj st" using D(3) Some Many by blast
        have "grow F st (if length ?fs' = 1 then set_slot t (Some (One (hd ?fs'))) ?st' else ?st') \<and>
          stale_ok (if length ?fs' = 1 then set_slot t (Some (One (hd ?fs'))) ?st' else ?st')"
          by (rule grow_change [OF st _ e, where t = t and v = ?v])
            (use Some Many e a sub hd in \<open>auto simp: set_slot_obj slot_fns_def lst_def handler_of_def split: if_splits\<close>)
        then show ?thesis using Some Many i by (simp add: take_listener_def Let_def)
      qed
    qed
  qed
qed

lemma grow_clear:
  assumes st: "stale_ok st" and e: "eventsObj st = Some e"
  shows "grow F st (clear_listeners topt st) \<and> stale_ok (clear_listeners topt st)"
proof -
  let ?st' = "st\<lparr>eventsCount := eventsCount st - 1\<rparr>"
  have upd: "grow F s (s\<lparr>eventsCount := c, kShapeMode := m\<rparr>) \<and> stale_ok (s\<lparr>eventsCount := c, kShapeMode := m\<rparr>)"
    "grow F s (s\<lparr>kShapeMode := m\<rparr>) \<and> stale_ok (s\<lparr>kShapeMode := m\<rparr>)" "grow F s (s\<lparr>eventsCount := c\<rparr>) \<and> stale_ok (s\<lparr>eventsCount := c\<rparr>)"
    if "stale_ok s" for s c m by (rule grow_same [OF that]; simp)+
  have "grow F st ((fresh_events st)\<lparr>eventsCount := 0, kShapeMode := False\<rparr>) \<and> stale_ok ((fresh_events st)\<lparr>eventsCount := 0, kShapeMode := False\<rparr>)"
    using grow_fresh [OF st] upd(1) grow_trans by blast
  moreover have "grow F st (?st'\<lparr>evObjs := (evObjs st)(e := obj_delete (evObjs st e) t), kShapeMode := False\<rparr>) \<and>
    stale_ok (?st'\<lparr>evObjs := (evObjs st)(e := obj_delete (evObjs st e) t), kShapeMode := False\<rparr>)" for t
    by (rule grow_change [OF st _ e, where t = t and v = None]) (use e in \<open>auto simp: slot_fns_def\<close>)
  moreover have "grow F st ((fresh_events (st\<lparr>eventsCount := c\<rparr>))\<lparr>kShapeMode := False\<rparr>) \<and> stale_ok ((fresh_events (st\<lparr>eventsCount := c\<rparr>))\<lparr>kShapeMode := False\<rparr>)" for c
    using upd(3) [OF st] grow_fresh upd(2) grow_trans by meson
  ultimately show ?thesis using upd(2) [OF st] e by (auto simp: clear_listeners_def Let_def split: option.split)
qed

end
