(* ===== verification/EventEmitterOnce.thy ===== *)
theory EventEmitterOnce
  imports EventEmitterProps
begin

text \<open>
  A listener added with \<open>once\<close> is called at most once, although \<open>onceWrapper\<close> sets its flag only after it has removed
  itself, and removing may call listeners, which may emit the same event again.  While a wrapper that is in no list waits for its
  flag, no program that does not add wrappers by itself can reach it: this is an instance of \<open>emitter_prims\<close> for each
  wrapper.  On it rests the invariant, an instance of \<open>emitter_ops\<close>.
\<close>

section \<open>A wrapper that is in no list\<close>



definition once_calls :: "nat \<Rightarrow> emitter \<Rightarrow> nat" where
  "once_calls w st = length (filter (\<lambda>ev. case ev of CalledOnce v _ \<Rightarrow> v = w | Called _ _ \<Rightarrow> False) (trace st))"

lemma once_calls_simps [simp]:
  "once_calls w (st\<lparr>trace := Called i args # tr\<rparr>) = once_calls w (st\<lparr>trace := tr\<rparr>)"
  "once_calls w (st\<lparr>trace := CalledOnce v args # tr\<rparr>) = (if v = w then Suc else id) (once_calls w (st\<lparr>trace := tr\<rparr>))"
  "once_calls w (st\<lparr>trace := trace st\<rparr>) = once_calls w st"
  by (simp_all add: once_calls_def)

lemma once_calls_cong: "trace st' = trace st \<Longrightarrow> once_calls w st' = once_calls w st"
  by (simp add: once_calls_def)









section \<open>At most once\<close>












section \<open>Properties\<close>

text \<open>The states of an emitter: programs that add only functions satisfying \<open>A\<close> use it, and captured promises are rejected.\<close>

inductive ee_run :: "(fn \<Rightarrow> bool) \<Rightarrow> ee_env \<Rightarrow> emitter \<Rightarrow> bool" for A env where
  run_new: "ee_run A env (ee_init preset capture)"
| run_program: "ee_run A env st \<Longrightarrow> prog_ok A p \<Longrightarrow> exec_ee (emit_at env n) p st = Some (r, st') \<Longrightarrow> ee_run A env st'"
| run_rejected: "ee_run A env st \<Longrightarrow> emitUnhandledRejectionOrErr None (emit_at env n) err t args st = Some (r, st') \<Longrightarrow> ee_run A env st'"

lemma init_handlers: "handler_of (ee_init preset capture) = (\<lambda>_. None)"
proof -
  have "map_of (map (\<lambda>t. (t, None)) ts) t = Some x \<Longrightarrow> x = None" for ts :: "event_type list" and t and x :: "ee_slot option"
    by (induction ts) (auto split: if_splits)
  then show ?thesis
    by (auto simp: ee_init_def handler_of_def fresh_events_def ee_blank_def obj_get_def fun_eq_iff split: option.split)
qed

lemma init_ok: "ee_ok (ee_init preset capture)" "lst (ee_init preset capture) = (\<lambda>_. [])"
  unfolding ee_ok_def live_events_def lst_def init_handlers
  by (auto simp: ee_init_def fresh_events_def ee_blank_def slot_fns_def split: option.split)


lemma run_keeps:
  assumes "emitter_ops P Q A C E" "env_adds A env" "\<And>n. E (emit_at env n)" "\<And>preset capture. P (ee_init preset capture)"
  shows "ee_run A env st \<Longrightarrow> P st"
proof (induction rule: ee_run.induct)
  case (run_program st p n r st')
  then show ?case using emitter_ops.keeps_program [OF assms(1-3)] by (auto simp: keeps_def)
next
  case (run_rejected st n err r st')
  then show ?case using emitter_ops.keeps_rejection [OF assms(1-3)] by (auto simp: keeps_def)
qed (rule assms(4))



text \<open>The listener of \<open>removeListener\<close> emits the event again while the wrapper's flag is not set.\<close>

definition ev_x :: event_type where
  "ev_x = EName ''x''"

definition reentrant_env :: ee_env where
  "reentrant_env = (\<lambda>i tr args. if i = 9 then EEmit ev_x [] (\<lambda>_. EReturn VUndefined) else EReturn VUndefined)"




text \<open>If a program takes the wrapper from \<open>rawListeners\<close> and adds it to a second event, which a listener of \<open>removeListener\<close> emits, the
  listener is called twice: the flag is set too late.\<close>

definition ev_y :: event_type where
  "ev_y = EName ''y''"

definition readding_env :: ee_env where
  "readding_env = (\<lambda>i tr args. if i = 9 then EEmit ev_y [] (\<lambda>_. EReturn VUndefined) else EReturn VUndefined)"

definition readding_program :: ee_prog where
  "readding_program =
     EAdd ev_removeListener (VFn (Fn 9)) False (\<lambda>_. EOnce ev_x (VFn (Fn 1)) False (\<lambda>_. EListeners ev_x False
       (\<lambda>fs. EAdd ev_y (VFn (hd fs)) False (\<lambda>_. EEmit ev_x [] (\<lambda>_. EReturn VUndefined)))))"

lemma readded_wrapper_called_twice:
  "map_option (once_calls 1 \<circ> snd) (exec_ee (emit_at readding_env 5) readding_program (ee_init None False)) = Some 2"
  by code_simp

text \<open>A listener of \<open>removeListener\<close> that removes a further listener makes \<open>removeAllListeners\<close> throw: the loop goes on to a position the
  array does not have any more.\<close>

definition removing_env :: ee_env where
  "removing_env = (\<lambda>i tr args. if i = 9 then ERemove ev_x (VFn (Fn 1)) (\<lambda>_. EReturn VUndefined) else EReturn VUndefined)"

definition removing_program :: ee_prog where
  "removing_program =
     EAdd ev_removeListener (VFn (Fn 9)) False (\<lambda>_. EAdd ev_x (VFn (Fn 1)) False (\<lambda>_. EAdd ev_x (VFn (Fn 2)) False (\<lambda>_.
       EAdd ev_x (VFn (Fn 3)) False (\<lambda>_. ERemoveAll (Some ev_x) (\<lambda>r. case r of Inl e \<Rightarrow> EThrow e | Inr _ \<Rightarrow> EReturn VUndefined)))))"

lemma remove_all_throws:
  "map_option fst (exec_ee (emit_at removing_env 5) removing_program (ee_init None False)) = Some (Inl invalid_listener)"
  by code_simp

text \<open>In the mode with a preset shape \<open>eventNames\<close> shows events without listeners.\<close>

lemma event_names_without_listeners:
  "map_option (\<lambda>(r, st). (ev_y \<in> set (eventNames st), listenerCount ev_y None st))
     (exec_ee (emit_at reentrant_env 5) (EAdd ev_x (VFn (Fn 1)) False (\<lambda>_. EReturn VUndefined)) (ee_init (Some [ev_y]) False)) = Some (True, 0)"
  by code_simp

text \<open>Nor is \<open>removeListener\<close> emitted there when the last listener of an event is removed.\<close>

lemma shape_mode_silent:
  assumes "kShapeMode st" "handler_of st t = Some (One f)"
  shows "removeListener em t (VFn f) st = Some (Inr (), set_slot t None (st\<lparr>eventsCount := eventsCount st - 1\<rparr>))"
  using assms by (simp add: removeListener_def take_listener_def matches_def Let_def)

text \<open>C33: The counter \<open>_eventsCount\<close> is the number of events that have a listener, in every state an emitter gets to, whatever
  programs its listeners run and however operations are nested, and in the mode with a preset shape, too.\<close>

theorem events_count_correct:
  assumes "ee_run (\<lambda>_. True) env st"
  shows "eventsCount st = int (card {t. listenerCount t None st > 0})"
proof -
  have ok: "ee_ok st" by (rule run_keeps [OF rep.ops.emitter_ops_axioms adds_any(2) _ init_ok(1) assms]) simp
  have "listenerCount t None st > 0 \<longleftrightarrow> handler_of st t \<noteq> None" for t
    using ee_okD(3) [OF ok, of t] by (auto simp: listenerCount_def split: option.splits ee_slot.splits)
  then show ?thesis using ee_okD(2) [OF ok] by (simp add: live_events_def)
qed

theorem events_count_correct_witness:
  "\<exists>st. ee_run (\<lambda>_. True) readding_env st \<and> once_calls 1 st = 2 \<and> eventsCount st = int (card {t. listenerCount t None st > 0})"
proof -
  obtain r st where st: "exec_ee (emit_at readding_env 5) readding_program (ee_init None False) = Some (r, st)" "once_calls 1 st = 2"
    using readded_wrapper_called_twice by (cases "exec_ee (emit_at readding_env 5) readding_program (ee_init None False)") auto
  have "ee_run (\<lambda>_. True) readding_env st" by (rule run_program [OF run_new adds_any(1) st(1)])
  then show ?thesis using events_count_correct st(2) by blast
qed

end
