(* ===== verification/EventEmitterEmit.thy ===== *)
theory EventEmitterEmit
  imports EventEmitterOnce
begin

text \<open>
  An emitter whose \<open>newListener\<close> and \<open>removeListener\<close> events have no listeners: it is a list of functions for each event,
  and \<open>emit\<close> calls the list as it was when the event was emitted.
\<close>

section \<open>Operations that nobody observes\<close>

definition calm :: "emitter \<Rightarrow> bool" where
  "calm st \<longleftrightarrow> ee_ok st \<and> lst st ev_newListener = [] \<and> lst st ev_removeListener = []"

lemma lst_empty: "ee_ok st \<Longrightarrow> lst st t = [] \<longleftrightarrow> handler_of st t = None"
  using ee_okD(3) [of st t] by (auto simp: lst_def slot_fns_def split: option.splits ee_slot.splits)

lemma calmD:
  assumes "calm st" shows "ee_ok st" "handler_of st ev_newListener = None" "handler_of st ev_removeListener = None" "\<exists>e. eventsObj st = Some e"
  using assms lst_empty [of st] ee_okD(1) [of st] by (auto simp: calm_def ee_ok_def)

lemma calm_add: "calm st \<Longrightarrow> addListener em t (VFn f) pre st = Some (Inr (), put_listener t f pre st)"
  using calmD [of st] by (auto simp: addListener_def ebind_def)

lemma calm_put: "calm st \<Longrightarrow> t \<notin> {ev_newListener, ev_removeListener} \<Longrightarrow> calm (put_listener t f pre st)"
  using put_listener_ok [of st t f pre] by (auto simp: calm_def)

lemma calm_take: "calm st \<Longrightarrow> calm (snd (take_listener t f st))"
  using take_listener_ok [of st t f] by (auto simp: calm_def)

lemma calm_remove:
  assumes "calm st" shows "removeListener em t (VFn f) st = Some (Inr (), snd (take_listener t f st))"
proof -
  obtain g s where t: "take_listener t f st = (g, s)" by fastforce
  have "handler_of s ev_removeListener = None" using calmD(3) [OF calm_take [OF assms, of t f]] t by simp
  then have "g = None" using t by (auto simp: take_listener_def Let_def split: option.splits ee_slot.splits if_splits)
  then show ?thesis using t by (simp add: removeListener_def)
qed

lemma calm_clear: "calm st \<Longrightarrow> calm (clear_listeners topt st)"
  using clear_listeners_ok [of st topt] by (auto simp: calm_def split: option.splits)

lemma calm_remove_all: "calm st \<Longrightarrow> removeAllListeners em topt st = Some (Inr (), clear_listeners topt st)"
  using calmD [of st] by (auto simp: removeAllListeners_def remove_type_def split: option.split)

section \<open>emit calls the listeners the event had\<close>

text \<open>A program that adds and removes listeners and then returns or throws, but neither emits nor observes the changes.\<close>

primrec quiet :: "ee_prog \<Rightarrow> bool" where
  "quiet (EReturn v) = (case v of VBadThen _ \<Rightarrow> False | _ \<Rightarrow> True)"
| "quiet (EThrow v) = True"
| "quiet (EEmit t args k) = False"
| "quiet (EAdd t l pre k) = (t \<notin> {ev_newListener, ev_removeListener} \<and> (\<forall>r. quiet (k r)))"
| "quiet (EOnce t l pre k) = (t \<notin> {ev_newListener, ev_removeListener} \<and> (\<forall>r. quiet (k r)))"
| "quiet (ERemove t l k) = (\<forall>r. quiet (k r))"
| "quiet (ERemoveAll topt k) = (\<forall>r. quiet (k r))"
| "quiet (ESetMax n k) = (\<forall>r. quiet (k r))"
| "quiet (ESetDefaultMax n k) = (\<forall>r. quiet (k r))"
| "quiet (EListeners t u k) = (\<forall>r. quiet (k r))"
| "quiet (ECount t l k) = (\<forall>r. quiet (k r))"
| "quiet (ENames k) = (\<forall>r. quiet (k r))"

definition quiet_env :: "ee_env \<Rightarrow> ee_val list \<Rightarrow> bool" where
  "quiet_env env args \<longleftrightarrow> (\<forall>i tr. quiet (env i tr args))"

definition calm_step :: "emitter \<Rightarrow> ('a \<times> emitter) option \<Rightarrow> bool" where
  "calm_step st m \<longleftrightarrow> (\<exists>r st'. m = Some (r, st') \<and> calm st' \<and> trace st' = trace st)"

lemma calm_adding:
  assumes "calm st" "t \<notin> {ev_newListener, ev_removeListener}" shows "calm_step st (addListener em t l pre st)"
  using assms calm_add [OF assms(1)] calm_put [OF assms] by (cases l) (auto simp: calm_step_def addListener_def)

lemma calm_once: "calm st \<Longrightarrow> calm (snd (onceWrap t f st)) \<and> trace (snd (onceWrap t f st)) = trace st"
  using onceWrap_ok [where t = t and f = f and st = st] by (auto simp: calm_def)

lemma calm_adding_once:
  assumes "calm st" "t \<notin> {ev_newListener, ev_removeListener}" shows "calm_step st (addOnce em t l pre st)"
proof (cases l)
  case (VFn f)
  obtain w s where o: "onceWrap t f st = (w, s)" by fastforce
  have "calm s" "trace s = trace st" using calm_once [OF assms(1), of t f] o by auto
  then show ?thesis using calm_adding [OF _ assms(2), of s] o VFn by (auto simp: addOnce_def calm_step_def)
qed (use assms in \<open>auto simp: addOnce_def calm_step_def\<close>)

lemma calm_removing: "calm st \<Longrightarrow> calm_step st (removeListener em t l st)"
  using calm_remove [of st em t] calm_take [of st t] take_listener_ok [of st t]
  by (cases l) (auto simp: calm_step_def removeListener_def calm_def)

lemma calm_fields:
  assumes "calm st"
  shows calm_max: "calm (st\<lparr>maxListeners := m, defaultMaxListeners := d\<rparr>)" and calm_called: "calm (st\<lparr>trace := tr\<rparr>)" and calm_catch: "calm (st\<lparr>catches := cs\<rparr>)"
  using assms ee_cong [of "st\<lparr>maxListeners := m, defaultMaxListeners := d\<rparr>" st] ee_cong [of "st\<lparr>trace := tr\<rparr>" st] ee_cong [of "st\<lparr>catches := cs\<rparr>" st]
  by (auto simp: calm_def)

lemma calm_setMax:
  assumes "calm st"
  shows "calm (snd (setMaxListeners n st)) \<and> trace (snd (setMaxListeners n st)) = trace st"
    and "calm (snd (setDefaultMaxListeners n st)) \<and> trace (snd (setDefaultMaxListeners n st)) = trace st"
  using assms calm_max [OF assms, where m = "Some n" and d = "defaultMaxListeners st"] calm_max [OF assms, where m = "maxListeners st" and d = n]
  by (simp_all add: setMaxListeners_def setDefaultMaxListeners_def split: sum.split)

definition harmless :: "ee_val \<Rightarrow> bool" where
  "harmless v \<longleftrightarrow> (case v of VBadThen _ \<Rightarrow> False | _ \<Rightarrow> True)"

definition calm_result :: "emitter \<Rightarrow> ((ee_val + ee_val) \<times> emitter) option \<Rightarrow> bool" where
  "calm_result st m \<longleftrightarrow> (\<exists>r st'. m = Some (r, st') \<and> calm st' \<and> trace st' = trace st \<and> (\<forall>v. r = Inr v \<longrightarrow> harmless v))"

lemma calm_econt: "calm_step st m \<Longrightarrow> (\<And>r st'. calm st' \<Longrightarrow> calm_result st' (k r st')) \<Longrightarrow> calm_result st (econt m k)"
  by (fastforce simp: calm_step_def econt_def calm_result_def)

lemma quiet_program:
  "quiet p \<Longrightarrow> calm st \<Longrightarrow> calm_result st (exec_ee em p st)"
proof (induction p arbitrary: st)
  case (EReturn v) then show ?case by (simp add: calm_result_def harmless_def)
next
  case (EThrow v) then show ?case by (simp add: calm_result_def)
next
  case (EAdd t l pre k) then show ?case by (auto intro!: calm_econt calm_adding)
next
  case (EOnce t l pre k) then show ?case by (auto intro!: calm_econt calm_adding_once)
next
  case (ERemove t l k) then show ?case by (auto intro!: calm_econt calm_removing)
next
  case (ERemoveAll topt k)
  have "calm_step st (removeAllListeners em topt st)"
    using calm_remove_all calm_clear clear_listeners_ok ERemoveAll.prems by (auto simp: calm_step_def calm_def)
  then show ?case using ERemoveAll by (auto intro!: calm_econt)
next
  case (ESetMax n k)
  obtain r s where s: "setMaxListeners n st = (r, s)" by fastforce
  then show ?case using ESetMax.IH [of "k r" s] calm_setMax(1) [OF ESetMax.prems(2), of n] ESetMax.prems(1) by (auto simp: calm_result_def)
next
  case (ESetDefaultMax n k)
  obtain r s where s: "setDefaultMaxListeners n st = (r, s)" by fastforce
  then show ?case using ESetDefaultMax.IH [of "k r" s] calm_setMax(2) [OF ESetDefaultMax.prems(2), of n] ESetDefaultMax.prems(1) by (auto simp: calm_result_def)
qed auto

text \<open>The last of the functions that were called, after the others, threw the value.\<close>

definition thrown_by :: "ee_env \<Rightarrow> emit_fn \<Rightarrow> ee_val list \<Rightarrow> nat list \<Rightarrow> emitter \<Rightarrow> ee_val \<Rightarrow> bool" where
  "thrown_by env em args is st e \<longleftrightarrow> is \<noteq> [] \<and>
     (\<exists>s s'. trace s = rev (map (\<lambda>i. Called i args) (butlast is)) @ trace st \<and>
        exec_ee em (env (last is) (trace s) args) (s\<lparr>trace := Called (last is) args # trace s\<rparr>) = Some (Inl e, s'))"

lemma thrown_by_Cons: "trace s = Called i args # trace st \<Longrightarrow> thrown_by env em args is s e \<Longrightarrow> thrown_by env em args (i # is) st e"
  by (simp add: thrown_by_def)

lemma calm_call_listener:
  assumes "calm st" "quiet_env env args"
  shows "\<exists>r st'. call_listener env em (Suc k) t args (Fn i) st = Some (r, st') \<and> calm st' \<and> trace st' = Called i args # trace st \<and>
    (\<forall>e. r = Inl e \<longrightarrow> thrown_by env em args [i] st e)"
proof -
  obtain v s where s: "exec_ee em (env i (trace st) args) (st\<lparr>trace := Called i args # trace st\<rparr>) = Some (v, s)"
      "calm s" "trace s = Called i args # trace st" "\<forall>x. v = Inr x \<longrightarrow> harmless x"
    using quiet_program [OF _ calm_called [OF assms(1)]] assms(2) unfolding quiet_env_def calm_result_def by fastforce
  show ?thesis
  proof (cases v)
    case (Inl e)
    then have "thrown_by env em args [i] st e" using s(1) by (auto simp: thrown_by_def)
    then show ?thesis using s Inl by (auto simp: call_listener_def ebind_def)
  next
    case (Inr x)
    have "\<exists>s'. addCatch em x t args s = Some (Inr (), s') \<and> calm s' \<and> trace s' = trace s"
      using s(2,4) Inr calm_catch by (cases x) (auto simp: addCatch_def harmless_def)
    then show ?thesis using s Inr by (auto simp: call_listener_def ebind_def)
  qed
qed

text \<open>The functions called are all of them, or those up to one that throws.\<close>

definition calls_made :: "ee_env \<Rightarrow> emit_fn \<Rightarrow> ee_val list \<Rightarrow> nat list \<Rightarrow> emitter \<Rightarrow> ee_val + unit \<Rightarrow> emitter \<Rightarrow> nat list \<Rightarrow> nat list \<Rightarrow> bool" where
  "calls_made env em args is st r st' called rest \<longleftrightarrow> is = called @ rest \<and> trace st' = rev (map (\<lambda>i. Called i args) called) @ trace st \<and>
     (case r of Inr _ \<Rightarrow> rest = [] | Inl e \<Rightarrow> thrown_by env em args called st e)"

lemma calm_call_listeners:
  assumes "quiet_env env args"
  shows "calm st \<Longrightarrow> \<exists>r st' called rest. call_listeners env em (Suc k) t args (map Fn is) st = Some (r, st') \<and> calls_made env em args is st r st' called rest"
proof (induction "is" arbitrary: st)
  case Nil then show ?case by (simp add: calls_made_def)
next
  case (Cons i js)
  obtain r s where s: "call_listener env em (Suc k) t args (Fn i) st = Some (r, s)" "calm s" "trace s = Called i args # trace st"
      "\<forall>e. r = Inl e \<longrightarrow> thrown_by env em args [i] st e"
    using calm_call_listener [OF Cons.prems assms] by blast
  show ?case
  proof (cases r)
    case (Inl e)
    then have "calls_made env em args (i # js) st (Inl e) s [i] js" using s by (simp add: calls_made_def)
    then show ?thesis using s(1) Inl by (auto simp: ebind_def)
  next
    case (Inr x)
    obtain r' s' called rest where c: "call_listeners env em (Suc k) t args (map Fn js) s = Some (r', s')" "calls_made env em args js s r' s' called rest"
      using Cons.IH [OF s(2)] by blast
    then have "calls_made env em args (i # js) st r' s' (i # called) rest"
      using s(3) thrown_by_Cons [OF s(3)] by (auto simp: calls_made_def split: sum.splits)
    then show ?thesis using s(1) c(1) Inr by (auto simp: ebind_def)
  qed
qed

text \<open>C31: \<open>emit\<close> calls the listeners the event had when it was emitted, each once, in their order and with the arguments of the
  event, and answers whether there were any, also when these listeners add and remove listeners of the same event while they
  run.  When one of them throws, the ones before it and itself were called and no other, and \<open>emit\<close> throws what it threw.  An \<open>error\<close> event without listeners is thrown, as
  it is when it is an error.  The listeners are functions and not the wrappers of \<open>once\<close>; they do not emit themselves and return no promise whose \<open>then\<close> throws; and nobody listens to
  \<open>newListener\<close>, \<open>removeListener\<close> or, for \<open>error\<close>, the error monitor.\<close>

theorem emit_calls_snapshot:
  assumes st: "calm st" and env: "quiet_env env args" and fs: "lst st t = map Fn fs"
    and mon: "t = ev_error \<Longrightarrow> lst st kErrorMonitor = []"
  shows "\<exists>r st' called rest. emit_at env (Suc n) t args st = Some (r, st') \<and>
    fs = called @ rest \<and> trace st' = rev (map (\<lambda>i. Called i args) called) @ trace st \<and>
    (case r of
       Inr b \<Rightarrow> rest = [] \<and> b = (fs \<noteq> []) \<and> (t = ev_error \<longrightarrow> fs \<noteq> [])
     | Inl e \<Rightarrow> if fs = [] then t = ev_error \<and> e = unhandled_error args else thrown_by env (emit_at env n) args called st e)"
proof -
  obtain e where e: "eventsObj st = Some e" using calmD(4) [OF st] by blast
  have h: "obj_get (evObjs st e) u = handler_of st u" for u using e by (simp add: handler_of_def)
  have nomon: "t = ev_error \<Longrightarrow> handler_of st kErrorMonitor = None" using mon lst_empty [OF calmD(1) [OF st]] by blast
  obtain r st' called rest where run: "call_listeners env (emit_at env n) (Suc n) t args (map Fn fs) st = Some (r, st')"
      and c: "calls_made env (emit_at env n) args fs st r st' called rest"
    using calm_call_listeners [OF env st] by blast
  show ?thesis
  proof (cases "handler_of st t")
    case None
    then have "fs = []" using fs by (simp add: lst_def slot_fns_def)
    then show ?thesis using e nomon None by (auto simp: emit_body_def ebind_def h)
  next
    case (Some s)
    have ne: "fs \<noteq> []" using Some fs lst_empty [OF calmD(1) [OF st], of t] by auto
    have "emit_at env (Suc n) t args st = Some (map_sum id (\<lambda>_. True) r, st')"
    proof (cases s)
      case (One f)
      have "map Fn fs = [f]" using fs Some One by (simp add: lst_def slot_fns_def)
      then show ?thesis using run e nomon Some One ne by (auto simp: emit_body_def ebind_def h split: option.splits sum.splits prod.splits)
    next
      case (Many a)
      have "arrayClone a st = map Fn fs" using fs Some Many by (simp add: lst_def slot_fns_def arrayClone_def)
      then show ?thesis using run e nomon Some Many ne by (auto simp: emit_body_def ebind_def h split: sum.splits)
    qed
    then show ?thesis using c ne by (cases r) (auto simp: calls_made_def)
  qed
qed

text \<open>The first of two listeners removes the second and adds itself again.\<close>

definition meddling_env :: ee_env where
  "meddling_env i tr args = (if i = 1 then ERemoveAll (Some ev_x) (\<lambda>_. EAdd ev_x (VFn (Fn 1)) False (\<lambda>_. EReturn VUndefined)) else EReturn VUndefined)"

definition meddled :: emitter where
  "meddled = put_listener ev_x (Fn 2) False (put_listener ev_x (Fn 1) False (ee_init None False))"

lemma meddled_calm: "calm meddled" "lst meddled ev_x = [Fn 1, Fn 2]"
proof -
  have "calm (ee_init None False)" using init_ok by (simp add: calm_def)
  then show "calm meddled" unfolding meddled_def by (intro calm_put) (auto simp: ev_x_def)
  show "lst meddled ev_x = [Fn 1, Fn 2]" by code_simp
qed

lemma meddled_returns: "map_option fst (emit_at meddling_env 1 ev_x [] meddled) = Some (Inr True)"
  by code_simp

text \<open>A listener that throws: the one after it is not called.\<close>

lemma throwing_listener_stops_emit:
  "map_option (\<lambda>(r, st). (r, trace st)) (emit_at (\<lambda>i tr args. if i = 1 then EThrow VNull else EReturn VUndefined) 1 ev_x [] meddled) = Some (Inl VNull, [Called 1 []])"
  by code_simp

theorem emit_calls_snapshot_witness:
  "calm meddled \<and> quiet_env meddling_env [] \<and>
   (\<exists>st'. emit_at meddling_env 1 ev_x [] meddled = Some (Inr True, st') \<and> trace st' = [Called 2 [], Called 1 []])"
proof -
  have q: "quiet_env meddling_env []" by (simp add: quiet_env_def meddling_env_def ev_x_def)
  have t: "trace meddled = []" by code_simp
  obtain st' where r: "emit_at meddling_env 1 ev_x [] meddled = Some (Inr True, st')"
    using meddled_returns by (auto split: option.splits)
  then show ?thesis
    using emit_calls_snapshot [OF meddled_calm(1) q, of ev_x "[1, 2]" 0] meddled_calm q t by (auto simp: ev_x_def)
qed

section \<open>An emitter is a list of listeners for each event\<close>

text \<open>The calls of a client that no listener of \<open>newListener\<close> or \<open>removeListener\<close> observes, and what they answer.\<close>

datatype ee_op =
    CallOn event_type nat
  | CallPrepend event_type nat
  | CallOff event_type nat
  | CallOffAll "event_type option"
  | CallCount event_type
  | CallListeners event_type

datatype ee_answer = ADone | ACount nat | AFns "fn list"

fun ee_call :: "emit_fn \<Rightarrow> ee_op \<Rightarrow> ee_answer eff" where
  "ee_call em (CallOn t i) st = ebind (addListener em t (VFn (Fn i)) False st) (\<lambda>_ st. Some (Inr ADone, st))"
| "ee_call em (CallPrepend t i) st = ebind (addListener em t (VFn (Fn i)) True st) (\<lambda>_ st. Some (Inr ADone, st))"
| "ee_call em (CallOff t i) st = ebind (removeListener em t (VFn (Fn i)) st) (\<lambda>_ st. Some (Inr ADone, st))"
| "ee_call em (CallOffAll topt) st = ebind (removeAllListeners em topt st) (\<lambda>_ st. Some (Inr ADone, st))"
| "ee_call em (CallCount t) st = Some (Inr (ACount (listenerCount t None st)), st)"
| "ee_call em (CallListeners t) st = Some (Inr (AFns (ee_listeners t True st)), st)"

fun ee_calls :: "emit_fn \<Rightarrow> ee_op list \<Rightarrow> ee_answer list eff" where
  "ee_calls em [] st = Some (Inr [], st)"
| "ee_calls em (c # cs) st = ebind (ee_call em c st) (\<lambda>a st. ebind (ee_calls em cs st) (\<lambda>as st. Some (Inr (a # as), st)))"

text \<open>The specification.\<close>

fun spec_call :: "ee_op \<Rightarrow> (event_type \<Rightarrow> nat list) \<Rightarrow> ee_answer \<times> (event_type \<Rightarrow> nat list)" where
  "spec_call (CallOn t i) L = (ADone, L(t := L t @ [i]))"
| "spec_call (CallPrepend t i) L = (ADone, L(t := i # L t))"
| "spec_call (CallOff t i) L = (ADone, L(t := remove_last ((=) i) (L t)))"
| "spec_call (CallOffAll None) L = (ADone, \<lambda>_. [])"
| "spec_call (CallOffAll (Some t)) L = (ADone, L(t := []))"
| "spec_call (CallCount t) L = (ACount (length (L t)), L)"
| "spec_call (CallListeners t) L = (AFns (map Fn (L t)), L)"

fun spec_calls :: "ee_op list \<Rightarrow> (event_type \<Rightarrow> nat list) \<Rightarrow> ee_answer list" where
  "spec_calls [] L = []"
| "spec_calls (c # cs) L = (case spec_call c L of (a, L) \<Rightarrow> a # spec_calls cs L)"

definition unobserved :: "ee_op \<Rightarrow> bool" where
  "unobserved c \<longleftrightarrow> (case c of CallOn t i \<Rightarrow> t \<noteq> ev_newListener \<and> t \<noteq> ev_removeListener
     | CallPrepend t i \<Rightarrow> t \<noteq> ev_newListener \<and> t \<noteq> ev_removeListener | _ \<Rightarrow> True)"

definition represents :: "emitter \<Rightarrow> (event_type \<Rightarrow> nat list) \<Rightarrow> bool" where
  "represents st L \<longleftrightarrow> ee_ok st \<and> (\<forall>t. lst st t = map Fn (L t)) \<and> L ev_newListener = [] \<and> L ev_removeListener = []"

lemma remove_last_map: "remove_last p (map f xs) = map f (remove_last (p \<circ> f) xs)"
  by (induction xs) (auto simp: list_ex_iff)

lemma remove_last_cong: "(\<And>x. x \<in> set xs \<Longrightarrow> p x = q x) \<Longrightarrow> remove_last p xs = remove_last q xs"
  by (induction xs) (auto simp: list_ex_iff)

lemma ee_call_simulates:
  assumes rep: "represents st L" and c: "unobserved c"
  shows "\<exists>st'. ee_call em c st = Some (Inr (fst (spec_call c L)), st') \<and> represents st' (snd (spec_call c L))"
proof -
  have ok: "ee_ok st" and l: "\<And>t. lst st t = map Fn (L t)" and nl: "L ev_newListener = []" "L ev_removeListener = []"
    using rep by (auto simp: represents_def)
  have calm: "calm st" using ok l nl by (simp add: calm_def)
  have put: "represents (put_listener t (Fn i) pre st) (L(t := if pre then i # L t else L t @ [i]))"
    if "t \<noteq> ev_newListener" "t \<noteq> ev_removeListener" for t i pre
    using put_listener_ok [OF ok, of t "Fn i" pre] l nl that by (auto simp: represents_def)
  have m: "matches st (Fn i) (Fn j) \<longleftrightarrow> i = j" for i j by (auto simp: matches_def listener_prop_def)
  have "remove_last (matches st (Fn i)) (map Fn (L t)) = map Fn (remove_last ((=) i) (L t))" for t i
    unfolding remove_last_map by (simp add: m comp_def)
  then have rm: "represents (snd (take_listener t (Fn i) st)) (L(t := remove_last ((=) i) (L t)))" for t i
    using take_listener_ok [OF ok, of t "Fn i"] l nl by (auto simp: represents_def)
  have clear: "represents (clear_listeners topt st) (case topt of None \<Rightarrow> (\<lambda>_. []) | Some t \<Rightarrow> L(t := []))" for topt
    using clear_listeners_ok [OF ok, of topt] l nl by (auto simp: represents_def split: option.split)
  have count: "listenerCount t None st = length (L t)" for t
    using l [of t] by (auto simp: listenerCount_def lst_def slot_fns_def map_eq_Cons_conv split: option.splits ee_slot.splits dest: arg_cong [of _ _ length])
  have ls: "ee_listeners t True st = map Fn (L t)" for t
    using l [of t] by (auto simp: ee_listeners_def lst_def slot_fns_def arrayClone_def unwrap_def listener_prop_def split: option.splits ee_slot.splits)
  show ?thesis
  proof (cases c)
    case (CallOn t i) then show ?thesis using calm_add [OF calm] put [of t i False] c by (simp add: ebind_def unobserved_def)
  next
    case (CallPrepend t i) then show ?thesis using calm_add [OF calm] put [of t i True] c by (simp add: ebind_def unobserved_def)
  next
    case (CallOff t i) then show ?thesis using calm_remove [OF calm] rm [of t i] by (simp add: ebind_def)
  next
    case (CallOffAll topt) then show ?thesis using calm_remove_all [OF calm] clear [of topt] by (cases topt) (simp_all add: ebind_def)
  qed (use rep count ls in simp_all)
qed

text \<open>C30: Whatever representation an event's listeners have inside (a function, an array, nothing, a deleted property), an emitter
  behaves as a list of functions for each event: \<open>on\<close> appends, \<open>prependListener\<close> puts in front, \<open>off\<close> takes the last occurrence out,
  \<open>removeAllListeners\<close> empties one list or all, \<open>listenerCount\<close> and \<open>listeners\<close> show the list, for every sequence of calls on a
  new emitter, with or without a preset shape, as long as nobody listens to \<open>newListener\<close> or \<open>removeListener\<close>.\<close>

theorem emitter_is_listener_lists:
  assumes "list_all unobserved cs"
  shows "\<exists>st. ee_calls em cs (ee_init preset capture) = Some (Inr (spec_calls cs (\<lambda>_. [])), st)"
proof -
  have "represents st L \<Longrightarrow> list_all unobserved cs \<Longrightarrow> \<exists>st'. ee_calls em cs st = Some (Inr (spec_calls cs L), st')" for st L
  proof (induction cs arbitrary: st L)
    case (Cons c cs)
    obtain s where s: "ee_call em c st = Some (Inr (fst (spec_call c L)), s)" "represents s (snd (spec_call c L))"
      using ee_call_simulates [OF Cons.prems(1)] Cons.prems(2) by auto
    obtain s' where "ee_calls em cs s = Some (Inr (spec_calls cs (snd (spec_call c L))), s')" using Cons.IH [OF s(2)] Cons.prems(2) by auto
    then show ?case using s(1) by (auto simp: ebind_def split: prod.split)
  qed simp
  moreover have "represents (ee_init preset capture) (\<lambda>_. [])" using init_ok by (simp add: represents_def)
  ultimately show ?thesis using assms by blast
qed

theorem emitter_is_listener_lists_witness:
  "\<exists>st. ee_calls (\<lambda>_ _ _. None) [CallOn ev_x 1, CallOn ev_x 2, CallPrepend ev_x 1, CallOff ev_x 1, CallListeners ev_x]
     (ee_init None False) = Some (Inr [ADone, ADone, ADone, ADone, AFns [Fn 1, Fn 2]], st)"
  using emitter_is_listener_lists [of "[CallOn ev_x 1, CallOn ev_x 2, CallPrepend ev_x 1, CallOff ev_x 1, CallListeners ev_x]" "\<lambda>_ _ _. None" None False]
  by (simp add: unobserved_def ev_x_def)

end
