(* ===== verification/TaskQueue.thy ===== *)
theory TaskQueue
  imports FixedQueue "HOL-Library.AList"
begin

text \<open>
  Ticks, microtasks and rejected promises (\<open>libjs-node/internal/process/task_queues.js\<close> and
  \<open>internal/process/promises.js\<close>), over the queue of \<open>FixedQueue\<close>.  Functions of the program are numbers; what one does when
  it is called is a tree of actions given by the environment.  The engine reports a rejected promise, and one that is
  handled late, by calling \<open>promiseRejectHandler\<close>.  Async hooks are off, so no promise has an async id.  A result of \<open>None\<close> is a
  loop that does not end within its fuel.
\<close>

section \<open>Values and state\<close>

text \<open>\<open>TError\<close> is an object with a \<open>stack\<close> of its own, \<open>TRejectionError\<close> an \<open>UnhandledPromiseRejection\<close>; the last four are
  what \<open>emitWarning\<close> hands to its listeners.\<close>

datatype tval =
    TUndefined
  | TPlain nat
  | TError nat
  | TPromise nat
  | TText string
  | TInvalidArg
  | TUnhandledError tval
  | TRejectionError tval
  | TTextWarning tval bool
  | TRejectionWarning nat
  | THandledWarning nat
  | TDeprecationWarning

datatype tstop = TThrown tval | TExited

datatype tcallback = TFunction nat | TMultipleResolves bool nat tval

record tick =
  asyncId :: nat
  tickFrame :: "nat option"
  callback :: tcallback
  targs :: "tval list"

record promise_info =
  reason :: tval
  uid :: nat
  warned :: bool
  pdomain :: "nat option"
  pframe :: "nat option"

datatype ttarget = TProcess | TDomain nat

datatype tlog_entry =
    Queued tick
  | Ran nat "nat option" tcallback "tval list"
  | Rejected nat nat
  | HandledEarly nat nat
  | Reported nat nat
  | Called nat "tval list"

record tq_state =
  queue :: "tick fixed_queue"
  hasTickScheduled :: bool
  hasRejectionToWarn :: bool
  pendingUnhandledRejections :: "(nat \<times> promise_info) list"
  maybeUnhandledPromises :: "nat \<rightharpoonup> promise_info"
  asyncHandledRejections :: "(nat \<times> nat) list"
  lastPromiseId :: nat
  hasMultipleResolvesListener :: bool
  deprecationWarned :: bool
  microtasks :: "(nat \<times> nat option) list"
  listeners :: "ttarget \<Rightarrow> string \<rightharpoonup> nat list"
  exiting :: bool
  exitCode :: nat
  currentDomain :: "nat option"
  contextFrame :: "nat option"
  lastAsyncId :: nat
  tlog :: "tlog_entry list"

definition tq_init :: tq_state where
  "tq_init = \<lparr>queue = new_queue, hasTickScheduled = False, hasRejectionToWarn = False, pendingUnhandledRejections = [],
     maybeUnhandledPromises = Map.empty, asyncHandledRejections = [], lastPromiseId = 0, hasMultipleResolvesListener = False,
     deprecationWarned = False, microtasks = [], listeners = (\<lambda>_. Map.empty), exiting = False, exitCode = 0, currentDomain = None, contextFrame = None,
     lastAsyncId = 0, tlog = []\<rparr>"

section \<open>AsyncContextFrame\<close>

text \<open>The frames are used when the option \<open>--async-context-frame\<close> is on, the argument \<open>on\<close>; otherwise the class does nothing.\<close>

definition acf_current :: "bool \<Rightarrow> tq_state \<Rightarrow> nat option" where
  "acf_current on st = (if on then contextFrame st else None)"

definition acf_set :: "bool \<Rightarrow> nat option \<Rightarrow> tq_state \<Rightarrow> tq_state" where
  "acf_set on frame st = (if on then st\<lparr>contextFrame := frame\<rparr> else st)"

definition acf_exchange :: "bool \<Rightarrow> nat option \<Rightarrow> tq_state \<Rightarrow> nat option \<times> tq_state" where
  "acf_exchange on frame st = (acf_current on st, acf_set on frame st)"

section \<open>nextTick and queueMicrotask\<close>

definition push_tick :: "bool \<Rightarrow> tcallback \<Rightarrow> tval list \<Rightarrow> tq_state \<Rightarrow> tq_state" where
  "push_tick on cb args st =
     (if exiting st then st
      else
        (let st = (if fq_isEmpty (queue st) then st\<lparr>hasTickScheduled := True\<rparr> else st);
             n = lastAsyncId st + 1;
             tickObject = \<lparr>asyncId = n, tickFrame = acf_current on st, callback = cb, targs = args\<rparr>
         in st\<lparr>lastAsyncId := n, queue := fq_push (Some tickObject) (queue st), tlog := Queued tickObject # tlog st\<rparr>))"

text \<open>\<open>None\<close> is a value that is not a function.\<close>

definition nextTick :: "bool \<Rightarrow> nat option \<Rightarrow> tval list \<Rightarrow> tq_state \<Rightarrow> tval option \<times> tq_state" where
  "nextTick on f args st =
     (case f of None \<Rightarrow> (Some TInvalidArg, st) | Some n \<Rightarrow> (None, push_tick on (TFunction n) args st))"

definition queueMicrotask :: "bool \<Rightarrow> nat option \<Rightarrow> tq_state \<Rightarrow> tval option \<times> tq_state" where
  "queueMicrotask on f st =
     (case f of
        None \<Rightarrow> (Some TInvalidArg, st)
      | Some n \<Rightarrow> (None, st\<lparr>lastAsyncId := lastAsyncId st + 1, microtasks := microtasks st @ [(n, acf_current on st)]\<rparr>))"

section \<open>promiseRejectHandler\<close>

datatype reject_event = RejectWithNoHandler | HandlerAddedAfterReject | RejectAfterResolved | ResolveAfterResolved

definition unhandledRejection :: "bool \<Rightarrow> nat \<Rightarrow> tval \<Rightarrow> tq_state \<Rightarrow> tq_state" where
  "unhandledRejection on p r st =
     (let n = lastPromiseId st + 1 in
      st\<lparr>lastPromiseId := n,
         pendingUnhandledRejections :=
           AList.update p \<lparr>reason = r, uid = n, warned = False, pdomain = currentDomain st, pframe = acf_current on st\<rparr>
             (pendingUnhandledRejections st),
         hasRejectionToWarn := True, tlog := Rejected p n # tlog st\<rparr>)"

definition handledRejection :: "nat \<Rightarrow> tq_state \<Rightarrow> tq_state" where
  "handledRejection p st =
     (case map_of (pendingUnhandledRejections st) p of
        Some info \<Rightarrow>
          st\<lparr>pendingUnhandledRejections := AList.delete p (pendingUnhandledRejections st), tlog := HandledEarly p (uid info) # tlog st\<rparr>
      | None \<Rightarrow>
          (case maybeUnhandledPromises st p of
             None \<Rightarrow> st
           | Some info \<Rightarrow>
               (let st = st\<lparr>maybeUnhandledPromises := (maybeUnhandledPromises st)(p := None)\<rparr>
                in if warned info
                   then st\<lparr>asyncHandledRejections := asyncHandledRejections st @ [(p, uid info)], hasRejectionToWarn := True\<rparr>
                   else st)))"

definition resolveErrorResolve :: "bool \<Rightarrow> nat \<Rightarrow> tval \<Rightarrow> tq_state \<Rightarrow> tq_state" where
  "resolveErrorResolve on p r st = push_tick on (TMultipleResolves False p r) [] st"

definition resolveErrorReject :: "bool \<Rightarrow> nat \<Rightarrow> tval \<Rightarrow> tq_state \<Rightarrow> tq_state" where
  "resolveErrorReject on p r st = push_tick on (TMultipleResolves True p r) [] st"

definition promiseRejectHandler :: "bool \<Rightarrow> reject_event \<Rightarrow> nat \<Rightarrow> tval \<Rightarrow> tq_state \<Rightarrow> tq_state" where
  "promiseRejectHandler on ty p r st =
     (case ty of
        RejectWithNoHandler \<Rightarrow> unhandledRejection on p r st
      | HandlerAddedAfterReject \<Rightarrow> handledRejection p st
      | RejectAfterResolved \<Rightarrow> if hasMultipleResolvesListener st then resolveErrorReject on p r st else st
      | ResolveAfterResolved \<Rightarrow> if hasMultipleResolvesListener st then resolveErrorResolve on p r st else st)"

section \<open>What a function does\<close>

datatype tprog =
    TReturn
  | TThrow tval
  | TExit
  | TNextTick "nat option" "tval list" "tval option \<Rightarrow> tprog"
  | TMicrotask "nat option" "tval option \<Rightarrow> tprog"
  | TPromiseEvent reject_event nat tval tprog
  | TOn ttarget string nat tprog
  | TOff ttarget string nat tprog
  | TFrame "nat option" tprog
  | TEnter "nat option" tprog
  | TExiting tprog

text \<open>\<open>on\<close> and \<open>off\<close> of \<open>process\<close> or of a domain; the listener that \<open>promises.js\<close> has on \<open>newListener\<close> looks for
  \<open>multipleResolves\<close>.  \<open>removeListener\<close> is not emitted by \<open>process\<close>.\<close>

definition add_fn :: "ttarget \<Rightarrow> string \<Rightarrow> nat \<Rightarrow> tq_state \<Rightarrow> tq_state" where
  "add_fn tgt ev f st =
     st\<lparr>listeners := (listeners st)(tgt := (listeners st tgt)(ev \<mapsto> (case listeners st tgt ev of Some fs \<Rightarrow> fs @ [f] | None \<Rightarrow> [f]))),
        hasMultipleResolvesListener := (hasMultipleResolvesListener st \<or> tgt = TProcess \<and> ev = ''multipleResolves'')\<rparr>"

definition remove_fn :: "ttarget \<Rightarrow> string \<Rightarrow> nat \<Rightarrow> tq_state \<Rightarrow> tq_state" where
  "remove_fn tgt ev f st =
     (case listeners st tgt ev of
        None \<Rightarrow> st
      | Some fs \<Rightarrow> st\<lparr>listeners := (listeners st)(tgt := (listeners st tgt)(ev \<mapsto> remove1 f fs))\<rparr>)"

primrec exec_tq :: "bool \<Rightarrow> tprog \<Rightarrow> tq_state \<Rightarrow> (tstop + unit) \<times> tq_state" where
  "exec_tq on TReturn st = (Inr (), st)"
| "exec_tq on (TThrow e) st = (Inl (TThrown e), st)"
| "exec_tq on TExit st = (Inl TExited, st)"
| "exec_tq on (TNextTick f args k) st = (case nextTick on f args st of (r, st) \<Rightarrow> exec_tq on (k r) st)"
| "exec_tq on (TMicrotask f k) st = (case queueMicrotask on f st of (r, st) \<Rightarrow> exec_tq on (k r) st)"
| "exec_tq on (TPromiseEvent ty p r k) st = exec_tq on k (promiseRejectHandler on ty p r st)"
| "exec_tq on (TOn tgt ev f k) st = exec_tq on k (add_fn tgt ev f st)"
| "exec_tq on (TOff tgt ev f k) st = exec_tq on k (remove_fn tgt ev f st)"
| "exec_tq on (TFrame frame k) st = exec_tq on k (acf_set on frame st)"
| "exec_tq on (TEnter d k) st = exec_tq on k (st\<lparr>currentDomain := d\<rparr>)"
| "exec_tq on (TExiting k) st = exec_tq on k (st\<lparr>exiting := True\<rparr>)"

text \<open>The environment: the options, the program of a function by its number, the history and the arguments, and what the native
  \<open>triggerUncaughtException\<close> runs for an error.\<close>

record tq_env =
  frames :: bool
  unhandledOption :: string
  fn_body :: "nat \<Rightarrow> tlog_entry list \<Rightarrow> tval list \<Rightarrow> tprog"
  uncaught :: "tval \<Rightarrow> tlog_entry list \<Rightarrow> tprog"

definition call_fn :: "tq_env \<Rightarrow> nat \<Rightarrow> tval list \<Rightarrow> tq_state \<Rightarrow> (tstop + unit) \<times> tq_state" where
  "call_fn env f args st = exec_tq (frames env) (fn_body env f (tlog st) args) (st\<lparr>tlog := Called f args # tlog st\<rparr>)"

definition tbind :: "(tstop + 'a) \<times> tq_state \<Rightarrow> ('a \<Rightarrow> tq_state \<Rightarrow> (tstop + 'b) \<times> tq_state) \<Rightarrow> (tstop + 'b) \<times> tq_state" where
  "tbind m f = (case m of (Inl e, st) \<Rightarrow> (Inl e, st) | (Inr a, st) \<Rightarrow> f a st)"

fun call_fns :: "tq_env \<Rightarrow> nat list \<Rightarrow> tval list \<Rightarrow> tq_state \<Rightarrow> (tstop + unit) \<times> tq_state" where
  "call_fns env [] args st = (Inr (), st)"
| "call_fns env (f # fs) args st = tbind (call_fn env f args st) (\<lambda>_ st. call_fns env fs args st)"

text \<open>\<open>process.emit\<close>, and \<open>emit\<close> of a domain for \<open>error\<close>, which throws when nobody listens.\<close>

definition process_emit :: "tq_env \<Rightarrow> string \<Rightarrow> tval list \<Rightarrow> tq_state \<Rightarrow> (tstop + bool) \<times> tq_state" where
  "process_emit env ev args st =
     (case listeners st TProcess ev of
        None \<Rightarrow> (Inr False, st)
      | Some fs \<Rightarrow> tbind (call_fns env fs args st) (\<lambda>_ st. (Inr True, st)))"

definition domain_emit_error :: "tq_env \<Rightarrow> nat \<Rightarrow> tval \<Rightarrow> tq_state \<Rightarrow> (tstop + bool) \<times> tq_state" where
  "domain_emit_error env d er st =
     (case listeners st (TDomain d) ''error'' of
        Some (f # fs) \<Rightarrow> tbind (call_fns env (f # fs) [er] st) (\<lambda>_ st. (Inr True, st))
      | _ \<Rightarrow> (Inl (TThrown (case er of TError n \<Rightarrow> er | TRejectionError x \<Rightarrow> er | _ \<Rightarrow> TUnhandledError er)), st))"

section \<open>The modes\<close>

definition isErrorLike :: "tval \<Rightarrow> bool" where
  "isErrorLike v = (case v of TError _ \<Rightarrow> True | TRejectionError _ \<Rightarrow> True | TUnhandledError _ \<Rightarrow> True | TInvalidArg \<Rightarrow> True | _ \<Rightarrow> False)"

definition emitUnhandledRejection :: "tq_env \<Rightarrow> nat \<Rightarrow> promise_info \<Rightarrow> tq_state \<Rightarrow> (tstop + bool) \<times> tq_state" where
  "emitUnhandledRejection env p info st =
     (case pdomain info of
        Some d \<Rightarrow> domain_emit_error env d (reason info) st
      | None \<Rightarrow> process_emit env ''unhandledRejection'' [reason info, TPromise p] st)"

definition emitWarning :: "tq_env \<Rightarrow> tval \<Rightarrow> tq_state \<Rightarrow> (tstop + unit) \<times> tq_state" where
  "emitWarning env w st = tbind (process_emit env ''warning'' [w] st) (\<lambda>_ st. (Inr (), st))"

text \<open>\<open>try\<close> with a handler; leaving the process cannot be caught.\<close>

definition tcatch :: "(tstop + 'a) \<times> tq_state \<Rightarrow> (tq_state \<Rightarrow> (tstop + 'a) \<times> tq_state) \<Rightarrow> (tstop + 'a) \<times> tq_state" where
  "tcatch m h = (case m of (Inl (TThrown _), st) \<Rightarrow> h st | _ \<Rightarrow> m)"

definition emitUnhandledRejectionWarning :: "tq_env \<Rightarrow> promise_info \<Rightarrow> tq_state \<Rightarrow> (tstop + unit) \<times> tq_state" where
  "emitUnhandledRejectionWarning env info st =
     tbind
       (tcatch (emitWarning env (TTextWarning (reason info) (isErrorLike (reason info))) st)
          (\<lambda>st. tcatch (emitWarning env (TTextWarning (reason info) False) st) (\<lambda>st. (Inr (), st))))
       (\<lambda>_ st. emitWarning env (TRejectionWarning (uid info)) st)"

definition triggerUncaughtException :: "tq_env \<Rightarrow> tval \<Rightarrow> tq_state \<Rightarrow> (tstop + unit) \<times> tq_state" where
  "triggerUncaughtException env err st = exec_tq (frames env) (uncaught env err (tlog st)) st"

definition rejection_error :: "tval \<Rightarrow> tval" where
  "rejection_error r = (if isErrorLike r then r else TRejectionError r)"

type_synonym mode = "tq_env \<Rightarrow> nat \<Rightarrow> promise_info \<Rightarrow> tq_state \<Rightarrow> (tstop + unit) \<times> tq_state"

definition strictUnhandledRejectionsMode :: mode where
  "strictUnhandledRejectionsMode env p info st =
     tbind (triggerUncaughtException env (rejection_error (reason info)) st)
       (\<lambda>_ st. tbind (emitUnhandledRejection env p info st)
         (\<lambda>handled st. if \<not> handled then emitUnhandledRejectionWarning env info st else (Inr (), st)))"

definition ignoreUnhandledRejectionsMode :: mode where
  "ignoreUnhandledRejectionsMode env p info st = tbind (emitUnhandledRejection env p info st) (\<lambda>_ st. (Inr (), st))"

definition alwaysWarnUnhandledRejectionsMode :: mode where
  "alwaysWarnUnhandledRejectionsMode env p info st =
     tbind (emitUnhandledRejection env p info st) (\<lambda>_ st. emitUnhandledRejectionWarning env info st)"

definition throwUnhandledRejectionsMode :: mode where
  "throwUnhandledRejectionsMode env p info st =
     tbind (emitUnhandledRejection env p info st)
       (\<lambda>handled st. if \<not> handled then triggerUncaughtException env (rejection_error (reason info)) st else (Inr (), st))"

definition kGenericUserError :: nat where
  "kGenericUserError = 1"

definition warnWithErrorCodeUnhandledRejectionsMode :: mode where
  "warnWithErrorCodeUnhandledRejectionsMode env p info st =
     tbind (emitUnhandledRejection env p info st)
       (\<lambda>handled st.
          if \<not> handled
          then tbind (emitUnhandledRejectionWarning env info st) (\<lambda>_ st. (Inr (), st\<lparr>exitCode := kGenericUserError\<rparr>))
          else (Inr (), st))"

definition getUnhandledRejectionsMode :: "tq_env \<Rightarrow> mode" where
  "getUnhandledRejectionsMode env =
     (if unhandledOption env = ''none'' then ignoreUnhandledRejectionsMode
      else if unhandledOption env = ''warn'' then alwaysWarnUnhandledRejectionsMode
      else if unhandledOption env = ''strict'' then strictUnhandledRejectionsMode
      else if unhandledOption env = ''throw'' then throwUnhandledRejectionsMode
      else if unhandledOption env = ''warn-with-error-code'' then warnWithErrorCodeUnhandledRejectionsMode
      else throwUnhandledRejectionsMode)"

section \<open>processPromiseRejections\<close>

type_synonym 'a tloop = "((tstop + 'a) \<times> tq_state) option"

definition tloop_bind :: "'a tloop \<Rightarrow> ('a \<Rightarrow> tq_state \<Rightarrow> 'b tloop) \<Rightarrow> 'b tloop" where
  "tloop_bind m f = (case m of None \<Rightarrow> None | Some (Inl e, st) \<Rightarrow> Some (Inl e, st) | Some (Inr a, st) \<Rightarrow> f a st)"

primrec warn_handled :: "tq_env \<Rightarrow> nat \<Rightarrow> tq_state \<Rightarrow> unit tloop" where
  "warn_handled env 0 st = None"
| "warn_handled env (Suc k) st =
     (case asyncHandledRejections st of
        [] \<Rightarrow> Some (Inr (), st)
      | (p, n) # rest \<Rightarrow>
          tloop_bind
            (Some (tbind (process_emit env ''rejectionHandled'' [TPromise p] (st\<lparr>asyncHandledRejections := rest\<rparr>))
              (\<lambda>heard st. if \<not> heard then emitWarning env (THandledWarning n) st else (Inr (), st))))
            (\<lambda>_ st. warn_handled env k st))"

definition report_one :: "tq_env \<Rightarrow> nat \<Rightarrow> promise_info \<Rightarrow> tq_state \<Rightarrow> (tstop + unit) \<times> tq_state" where
  "report_one env p info st =
     (let info = info\<lparr>warned := True\<rparr>;
          st = st\<lparr>maybeUnhandledPromises := (maybeUnhandledPromises st)(p \<mapsto> info), tlog := Reported p (uid info) # tlog st\<rparr>
      in case acf_exchange (frames env) (pframe info) st of
           (prior, st) \<Rightarrow>
             (case getUnhandledRejectionsMode env env p info st of
                (Inl TExited, st) \<Rightarrow> (Inl TExited, st)
              | (r, st) \<Rightarrow> (r, acf_set (frames env) prior st)))"

text \<open>The loop over the entries that were pending at the start.\<close>

fun report_all :: "tq_env \<Rightarrow> (nat \<times> promise_info) list \<Rightarrow> tq_state \<Rightarrow> (tstop + unit) \<times> tq_state" where
  "report_all env [] st = (Inr (), st)"
| "report_all env ((p, info) # ps) st = tbind (report_one env p info st) (\<lambda>_ st. report_all env ps st)"

definition processPromiseRejections :: "tq_env \<Rightarrow> nat \<Rightarrow> tq_state \<Rightarrow> bool tloop" where
  "processPromiseRejections env k st =
     (let some = asyncHandledRejections st \<noteq> [] in
      tloop_bind (warn_handled env k st)
        (\<lambda>_ st.
           let pending = pendingUnhandledRejections st in
           Some (tbind (report_all env pending (st\<lparr>pendingUnhandledRejections := []\<rparr>))
             (\<lambda>_ st. (Inr (some \<or> pending \<noteq> [] \<or> pendingUnhandledRejections st \<noteq> []), st)))))"

section \<open>processTicksAndRejections\<close>

text \<open>The engine drains its microtasks; a microtask that throws rejects a promise nobody has, which the engine reports at some later
  time.\<close>

definition runMicrotask :: "tq_env \<Rightarrow> nat \<Rightarrow> nat option \<Rightarrow> tq_state \<Rightarrow> (tstop + unit) \<times> tq_state" where
  "runMicrotask env f frame st =
     (case acf_exchange (frames env) frame st of
        (prior, st) \<Rightarrow>
          (case call_fn env f [] st of
             (Inl TExited, st) \<Rightarrow> (Inl TExited, st)
           | (r, st) \<Rightarrow> (r, acf_set (frames env) prior st)))"

primrec runMicrotasks :: "tq_env \<Rightarrow> nat \<Rightarrow> tq_state \<Rightarrow> unit tloop" where
  "runMicrotasks env 0 st = None"
| "runMicrotasks env (Suc k) st =
     (case microtasks st of
        [] \<Rightarrow> Some (Inr (), st)
      | (f, frame) # fs \<Rightarrow>
          tloop_bind (Some (tcatch (runMicrotask env f frame (st\<lparr>microtasks := fs\<rparr>)) (\<lambda>st. (Inr (), st))))
            (\<lambda>_ st. runMicrotasks env k st))"

text \<open>The callback of a tick: a function, or one of the two closures of \<open>promises.js\<close>, which warn once that the event is deprecated.\<close>

definition multipleResolvesDeprecate :: "tq_env \<Rightarrow> tq_state \<Rightarrow> (tstop + unit) \<times> tq_state" where
  "multipleResolvesDeprecate env st =
     (if deprecationWarned st then (Inr (), st) else emitWarning env TDeprecationWarning (st\<lparr>deprecationWarned := True\<rparr>))"

definition run_callback :: "tq_env \<Rightarrow> tcallback \<Rightarrow> tval list \<Rightarrow> tq_state \<Rightarrow> (tstop + unit) \<times> tq_state" where
  "run_callback env cb args st =
     (case cb of
        TFunction f \<Rightarrow> call_fn env f args st
      | TMultipleResolves reject p r \<Rightarrow>
          tbind (process_emit env ''multipleResolves'' [TText (if reject then ''reject'' else ''resolve''), TPromise p, r] st)
            (\<lambda>heard st. if heard then multipleResolvesDeprecate env st else (Inr (), st)))"

definition run_tick :: "tq_env \<Rightarrow> tick \<Rightarrow> tq_state \<Rightarrow> (tstop + unit) \<times> tq_state" where
  "run_tick env tock st =
     (case acf_exchange (frames env) (tickFrame tock) st of
        (prior, st) \<Rightarrow>
          tbind
            (run_callback env (callback tock) (targs tock)
              (st\<lparr>tlog := Ran (asyncId tock) (acf_current (frames env) st) (callback tock) (targs tock) # tlog st\<rparr>))
            (\<lambda>_ st. (Inr (), acf_set (frames env) prior st)))"

primrec run_ticks :: "tq_env \<Rightarrow> nat \<Rightarrow> tq_state \<Rightarrow> unit tloop" where
  "run_ticks env 0 st = None"
| "run_ticks env (Suc k) st =
     (case fq_shift (queue st) of
        (None, q) \<Rightarrow> Some (Inr (), st\<lparr>queue := q\<rparr>)
      | (Some tock, q) \<Rightarrow> tloop_bind (Some (run_tick env tock (st\<lparr>queue := q\<rparr>))) (\<lambda>_ st. run_ticks env k st))"

primrec process_rounds :: "tq_env \<Rightarrow> nat \<Rightarrow> nat \<Rightarrow> tq_state \<Rightarrow> unit tloop" where
  "process_rounds env k 0 st = None"
| "process_rounds env k (Suc n) st =
     tloop_bind (run_ticks env k st)
       (\<lambda>_ st. tloop_bind (runMicrotasks env k st)
         (\<lambda>_ st. if \<not> fq_isEmpty (queue st) then process_rounds env k n st
                 else tloop_bind (processPromiseRejections env k st)
                   (\<lambda>again st. if again then process_rounds env k n st else Some (Inr (), st))))"

definition processTicksAndRejections :: "tq_env \<Rightarrow> nat \<Rightarrow> tq_state \<Rightarrow> unit tloop" where
  "processTicksAndRejections env k st =
     tloop_bind (process_rounds env k k st) (\<lambda>_ st. Some (Inr (), st\<lparr>hasTickScheduled := False, hasRejectionToWarn := False\<rparr>))"

definition runNextTicks :: "tq_env \<Rightarrow> nat \<Rightarrow> tq_state \<Rightarrow> unit tloop" where
  "runNextTicks env k st =
     tloop_bind (if \<not> hasTickScheduled st \<and> \<not> hasRejectionToWarn st then runMicrotasks env k st else Some (Inr (), st))
       (\<lambda>_ st. if \<not> hasTickScheduled st \<and> \<not> hasRejectionToWarn st then Some (Inr (), st) else processTicksAndRejections env k st)"

end
