(* ===== verification/TaskQueueProps.thy ===== *)
theory TaskQueueProps
  imports TaskQueue
begin

text \<open>
  What holds of the task queues whatever functions do.  The locale \<open>tq_user\<close> lifts a predicate from the primitive changes of the state to
  functions, listeners, the modes and the loops; the loop over the pending rejections is its hypothesis, since a
  listener that throws ends it early.
\<close>

section \<open>Lifting a predicate\<close>

definition relevant :: "tlog_entry \<Rightarrow> bool" where
  "relevant e = (case e of Called _ _ \<Rightarrow> False | _ \<Rightarrow> True)"

definition core where
  "core st = (queue st, hasTickScheduled st, hasRejectionToWarn st, pendingUnhandledRejections st, asyncHandledRejections st,
     lastPromiseId st, filter relevant (tlog st))"

definition drained :: "tq_state \<Rightarrow> bool" where
  "drained st \<longleftrightarrow> fq_isEmpty (queue st) \<and> pendingUnhandledRejections st = [] \<and> asyncHandledRejections st = []"

lemma loop_bindE:
  assumes "tloop_bind m f = Some (r, st')"
  obtains (stop) e where "m = Some (Inl e, st')" "r = Inl e" | (go) a st where "m = Some (Inr a, st)" "f a st = Some (r, st')"
  using assms by (auto simp: tloop_bind_def split: option.splits prod.splits sum.splits)

text \<open>A run of the rounds that returns leaves nothing to do.\<close>

lemma microtasks_end: "runMicrotasks env k st = Some (Inr (), st') \<Longrightarrow> microtasks st' = []"
  by (induction k arbitrary: st) (auto elim!: loop_bindE split: list.splits)

lemma rejections_none:
  assumes "processPromiseRejections env k st = Some (Inr False, st')"
  shows "st' = st \<and> pendingUnhandledRejections st = [] \<and> asyncHandledRejections st = []"
proof -
  from assms obtain s where w: "warn_handled env k st = Some (Inr (), s)" and none: "asyncHandledRejections st = []"
      and t: "tbind (report_all env (pendingUnhandledRejections s) (s\<lparr>pendingUnhandledRejections := []\<rparr>))
        (\<lambda>_ st. (Inr (pendingUnhandledRejections s \<noteq> [] \<or> pendingUnhandledRejections st \<noteq> []), st)) = (Inr False, st')"
    by (auto simp: processPromiseRejections_def Let_def tbind_def elim!: loop_bindE split: prod.splits sum.splits)
  have "s = st" using w none by (cases k) auto
  then show ?thesis using t none by (auto simp: tbind_def split: prod.splits sum.splits)
qed

lemma rounds_drained: "process_rounds env k n st = Some (Inr (), st') \<Longrightarrow> drained st' \<and> microtasks st' = []"
proof (induction n arbitrary: st)
  case (Suc n)
  from Suc.prems obtain s1 s2 where s: "runMicrotasks env k s1 = Some (Inr (), s2)"
      "(if \<not> fq_isEmpty (queue s2) then process_rounds env k n s2
        else tloop_bind (processPromiseRejections env k s2)
          (\<lambda>again st. if again then process_rounds env k n st else Some (Inr (), st))) = Some (Inr (), st')"
    by (auto elim!: loop_bindE)
  show ?case
  proof (cases "fq_isEmpty (queue s2)")
    case True
    with s(2) obtain c s3 where c: "processPromiseRejections env k s2 = Some (Inr c, s3)"
        "(if c then process_rounds env k n s3 else Some (Inr (), s3)) = Some (Inr (), st')" by (auto elim!: loop_bindE)
    then show ?thesis using Suc.IH rejections_none [of env k s2 s3] microtasks_end [OF s(1)] True by (cases c) (auto simp: drained_def)
  qed (use s Suc.IH in simp)
qed simp

locale tq_user =
  fixes env :: tq_env
    and P :: "tq_state \<Rightarrow> bool"
  assumes P_aside: "P st \<Longrightarrow> core st' = core st \<Longrightarrow> P st'"
    and P_push: "P st \<Longrightarrow> P (push_tick (frames env) cb args st)"
    and P_reject: "P st \<Longrightarrow> P (unhandledRejection (frames env) p r st)"
    and P_handled: "P st \<Longrightarrow> P (handledRejection p st)"
    and P_shift: "P st \<Longrightarrow> asyncHandledRejections st = h # hs \<Longrightarrow> P (st\<lparr>asyncHandledRejections := hs\<rparr>)"
    and P_tick: "P st \<Longrightarrow> fq_shift (queue st) = (Some t, q) \<Longrightarrow>
      P (st\<lparr>queue := q, tlog := Ran (asyncId t) (if frames env then tickFrame t else None) (callback t) (targs t) # tlog st\<rparr>)"
    and P_no_tick: "P st \<Longrightarrow> fq_shift (queue st) = (None, q) \<Longrightarrow> P (st\<lparr>queue := q\<rparr>)"
    and P_done: "P st \<Longrightarrow> drained st \<Longrightarrow> P (st\<lparr>hasTickScheduled := False, hasRejectionToWarn := False\<rparr>)"
begin

lemma P_fields:
  assumes "P st"
  shows "P (st\<lparr>contextFrame := fr\<rparr>)" "P (st\<lparr>tlog := Called f args # tlog st\<rparr>)" "P (st\<lparr>lastAsyncId := n, microtasks := ms\<rparr>)"
    "P (st\<lparr>microtasks := ms\<rparr>)" "P (st\<lparr>currentDomain := d\<rparr>)" "P (st\<lparr>exiting := b\<rparr>)" "P (st\<lparr>exitCode := c\<rparr>)" "P (st\<lparr>deprecationWarned := b\<rparr>)"
    "P (st\<lparr>listeners := l, hasMultipleResolvesListener := b\<rparr>)" "P (st\<lparr>listeners := l\<rparr>)"
  using assms by (auto intro: P_aside simp: core_def relevant_def)

lemma P_set: "P st \<Longrightarrow> P (acf_set (frames env) fr st)"
  by (simp add: acf_set_def P_fields)

lemma P_event: "P st \<Longrightarrow> P (promiseRejectHandler (frames env) ty p r st)"
  by (cases ty) (simp_all add: promiseRejectHandler_def P_reject P_handled P_push resolveErrorReject_def resolveErrorResolve_def)

lemma P_exec: "P st \<Longrightarrow> P (snd (exec_tq (frames env) p st))"
proof (induction p arbitrary: st)
  case (TNextTick f args k)
  then have "P (snd (nextTick (frames env) f args st))" by (simp add: nextTick_def P_push split: option.split)
  then show ?case using TNextTick.IH by (auto split: prod.split)
next
  case (TMicrotask f k)
  then have "P (snd (queueMicrotask (frames env) f st))" by (simp add: queueMicrotask_def P_fields split: option.split)
  then show ?case using TMicrotask.IH by (auto split: prod.split)
qed (simp_all add: P_event P_fields P_set add_fn_def remove_fn_def split: option.split)

lemma P_bind: "P (snd m) \<Longrightarrow> (\<And>a st. P st \<Longrightarrow> P (snd (f a st))) \<Longrightarrow> P (snd (tbind m f))"
  by (auto simp: tbind_def split: prod.split sum.split)

lemma P_catch: "P (snd m) \<Longrightarrow> (\<And>st. P st \<Longrightarrow> P (snd (h st))) \<Longrightarrow> P (snd (tcatch m h))"
  by (auto simp: tcatch_def split: prod.split sum.split tstop.split)

lemma P_call: "P st \<Longrightarrow> P (snd (call_fn env f args st))"
  by (simp add: call_fn_def P_exec P_fields)

lemma P_calls: "P st \<Longrightarrow> P (snd (call_fns env fs args st))"
  by (induction fs arbitrary: st) (simp_all add: P_bind P_call)

lemma P_emit: "P st \<Longrightarrow> P (snd (process_emit env ev args st))"
  by (auto simp: process_emit_def P_calls intro!: P_bind split: option.split)

lemma P_domain: "P st \<Longrightarrow> P (snd (domain_emit_error env d er st))"
  by (auto simp: domain_emit_error_def simp del: call_fns.simps intro!: P_bind P_calls split: option.split list.split)

lemma P_warning: "P st \<Longrightarrow> P (snd (emitWarning env w st))"
  by (auto simp: emitWarning_def intro!: P_bind P_emit)

lemma P_emit_rejection: "P st \<Longrightarrow> P (snd (emitUnhandledRejection env p info st))"
  by (simp add: emitUnhandledRejection_def P_emit P_domain split: option.split)

lemma P_rejection_warning: "P st \<Longrightarrow> P (snd (emitUnhandledRejectionWarning env info st))"
  by (auto simp: emitUnhandledRejectionWarning_def intro!: P_bind P_catch P_warning)

lemma P_trigger: "P st \<Longrightarrow> P (snd (triggerUncaughtException env err st))"
  by (simp add: triggerUncaughtException_def P_exec)

lemma P_mode: "P st \<Longrightarrow> P (snd (getUnhandledRejectionsMode env env p info st))"
  by (auto simp: getUnhandledRejectionsMode_def ignoreUnhandledRejectionsMode_def alwaysWarnUnhandledRejectionsMode_def
      strictUnhandledRejectionsMode_def throwUnhandledRejectionsMode_def warnWithErrorCodeUnhandledRejectionsMode_def
      intro!: P_bind P_emit_rejection P_rejection_warning P_trigger P_fields)

lemma P_callback: "P st \<Longrightarrow> P (snd (run_callback env cb args st))"
  by (cases cb) (auto simp: run_callback_def multipleResolvesDeprecate_def intro!: P_bind P_emit P_call P_warning P_fields)

lemma P_microtask: "P st \<Longrightarrow> P (snd (runMicrotask env f fr st))"
  using P_call [OF P_set] by (auto simp: runMicrotask_def acf_exchange_def P_set split: prod.split sum.split tstop.split) (metis snd_conv P_set)+

lemma P_run_tick:
  assumes "P st" "fq_shift (queue st) = (Some t, q)"
  shows "P (snd (run_tick env t (st\<lparr>queue := q\<rparr>)))"
proof -
  let ?s = "acf_set (frames env) (tickFrame t) (st\<lparr>queue := q\<rparr>)"
  have "P (?s\<lparr>tlog := Ran (asyncId t) (acf_current (frames env) ?s) (callback t) (targs t) # tlog ?s\<rparr>)"
    by (rule P_aside [OF P_tick [OF assms]]) (simp add: core_def acf_set_def acf_current_def)
  then show ?thesis by (auto simp: run_tick_def acf_exchange_def intro!: P_bind P_callback P_set)
qed

text \<open>Loops.\<close>

lemma P_loop_bind:
  assumes "tloop_bind m f = Some (r, st')" "\<And>r st. m = Some (r, st) \<Longrightarrow> P st" "\<And>a st. P st \<Longrightarrow> f a st = Some (r, st') \<Longrightarrow> P st'"
  shows "P st'"
  using assms by (auto simp: tloop_bind_def split: option.splits prod.splits sum.splits)

lemma P_loop_some:
  "tloop_bind (Some m) f = Some (r, st') \<Longrightarrow> P (snd m) \<Longrightarrow> (\<And>a st. P st \<Longrightarrow> f a st = Some (r, st') \<Longrightarrow> P st') \<Longrightarrow> P st'"
  by (rule P_loop_bind) auto

lemma P_warn_handled: "P st \<Longrightarrow> warn_handled env k st = Some (r, st') \<Longrightarrow> P st'"
proof (induction k arbitrary: st)
  case (Suc k)
  show ?case
  proof (cases "asyncHandledRejections st")
    case (Cons h hs)
    obtain p n where h: "h = (p, n)" by (cases h)
    let ?m = "tbind (process_emit env ''rejectionHandled'' [TPromise p] (st\<lparr>asyncHandledRejections := hs\<rparr>))
              (\<lambda>heard st. if \<not> heard then emitWarning env (THandledWarning n) st else (Inr (), st))"
    have "P (snd ?m)" using P_shift [OF Suc.prems(1) Cons] by (auto intro!: P_bind P_emit P_warning)
    then show ?thesis using Suc.prems(2) Suc.IH Cons h by (auto elim!: P_loop_some)
  qed (use Suc.prems in simp)
qed simp

lemma P_microtasks: "P st \<Longrightarrow> runMicrotasks env k st = Some (r, st') \<Longrightarrow> P st'"
proof (induction k arbitrary: st)
  case (Suc k)
  show ?case
  proof (cases "microtasks st")
    case (Cons m ms)
    obtain f fr where m: "m = (f, fr)" by (cases m)
    have "P (snd (tcatch (runMicrotask env f fr (st\<lparr>microtasks := ms\<rparr>)) (\<lambda>st. (Inr (), st))))"
      using Suc.prems(1) by (auto intro!: P_catch P_microtask P_fields)
    then show ?thesis using Suc.prems(2) Suc.IH Cons m by (auto elim!: P_loop_some)
  qed (use Suc.prems in simp)
qed simp

lemma P_run_ticks: "P st \<Longrightarrow> run_ticks env k st = Some (r, st') \<Longrightarrow> P st'"
proof (induction k arbitrary: st)
  case (Suc k)
  obtain t q where s: "fq_shift (queue st) = (t, q)" by fastforce
  show ?case
  proof (cases t)
    case None
    then show ?thesis using Suc.prems s P_no_tick by auto
  next
    case (Some tock)
    then have "P (snd (run_tick env tock (st\<lparr>queue := q\<rparr>)))" using P_run_tick Suc.prems(1) s by simp
    then show ?thesis using Suc.prems(2) Suc.IH Some s by (auto elim!: P_loop_some)
  qed
qed simp

text \<open>The rounds, when the loop over the pending rejections keeps \<open>P\<close> as long as it returns, and \<open>W\<close> when it is left by a throw.\<close>

definition rejections_keep :: "(tq_state \<Rightarrow> bool) \<Rightarrow> bool" where
  "rejections_keep W \<longleftrightarrow> (\<forall>st. P st \<longrightarrow> W st) \<and>
     (\<forall>k st r st'. P st \<longrightarrow> processPromiseRejections env k st = Some (r, st') \<longrightarrow> (case r of Inl _ \<Rightarrow> W st' | Inr _ \<Rightarrow> P st'))"

lemma P_rounds:
  assumes W: "rejections_keep W"
  shows "P st \<Longrightarrow> process_rounds env k n st = Some (r, st') \<Longrightarrow> (case r of Inl _ \<Rightarrow> W st' | Inr _ \<Rightarrow> P st')"
proof (induction n arbitrary: st)
  case (Suc n)
  have pw: "P s \<Longrightarrow> W s" for s using W by (simp add: rejections_keep_def)
  have pr: "P s \<Longrightarrow> processPromiseRejections env k s = Some (x, s') \<Longrightarrow> (case x of Inl _ \<Rightarrow> W s' | Inr _ \<Rightarrow> P s')" for s x s'
    using W unfolding rejections_keep_def by blast
  from Suc.prems(2) show ?case unfolding process_rounds.simps
  proof (cases rule: loop_bindE)
    case stop then show ?thesis using P_run_ticks Suc.prems(1) pw by auto
  next
    case (go a s1)
    then have s1: "P s1" using P_run_ticks Suc.prems(1) by blast
    from go(2) show ?thesis
    proof (cases rule: loop_bindE)
      case stop then show ?thesis using P_microtasks s1 pw by auto
    next
      case (go b s2)
      then have s2: "P s2" using P_microtasks s1 by blast
      show ?thesis
      proof (cases "fq_isEmpty (queue s2)")
        case False then show ?thesis using go(2) Suc.IH [OF s2] by simp
      next
        case True
        with go(2) have "tloop_bind (processPromiseRejections env k s2)
           (\<lambda>again st. if again then process_rounds env k n st else Some (Inr (), st)) = Some (r, st')" by simp
        then show ?thesis
        proof (cases rule: loop_bindE)
          case stop then show ?thesis using pr [OF s2] by force
        next
          case (go c s3)
          then have "P s3" using pr [OF s2] by force
          then show ?thesis using go(2) Suc.IH by (auto split: if_splits)
        qed
      qed
    qed
  qed
qed simp

lemma P_process:
  assumes W: "rejections_keep W" and st: "P st" "processTicksAndRejections env k st = Some (r, st')"
  shows "case r of Inl _ \<Rightarrow> W st' | Inr _ \<Rightarrow> P st'"
proof -
  from st(2) show ?thesis unfolding processTicksAndRejections_def
  proof (cases rule: loop_bindE)
    case stop then show ?thesis using P_rounds [OF W st(1) stop(1)] by simp
  next
    case (go a s)
    then have "P s" "drained s" using P_rounds [OF W st(1)] rounds_drained by fastforce+
    then show ?thesis using go(2) P_done by auto
  qed
qed

lemma P_next:
  assumes W: "rejections_keep W" and st: "P st" "runNextTicks env k st = Some (r, st')"
  shows "case r of Inl _ \<Rightarrow> W st' | Inr _ \<Rightarrow> P st'"
proof -
  have pw: "P s \<Longrightarrow> W s" for s using W by (simp add: rejections_keep_def)
  let ?m = "if \<not> hasTickScheduled st \<and> \<not> hasRejectionToWarn st then runMicrotasks env k st else Some (Inr (), st)"
  have m: "?m = Some (x, s) \<Longrightarrow> P s" for x s using st(1) P_microtasks by (auto split: if_splits)
  from st(2) show ?thesis unfolding runNextTicks_def
  proof (cases rule: loop_bindE)
    case stop then show ?thesis using m pw by auto
  next
    case (go a s)
    then show ?thesis using m P_process [OF W] by (auto split: if_splits)
  qed
qed

end

text \<open>When the predicate does not speak about the pending rejections the loop over them keeps it, too.\<close>

locale tq_loops = tq_user +
  assumes P_take: "P st \<Longrightarrow> P (st\<lparr>pendingUnhandledRejections := []\<rparr>)"
    and P_report: "P st \<Longrightarrow> P (st\<lparr>tlog := Reported p n # tlog st\<rparr>)"
begin

lemma P_report_one:
  assumes "P st" shows "P (snd (report_one env p info st))"
proof -
  let ?i = "info\<lparr>warned := True\<rparr>"
  let ?s = "acf_set (frames env) (pframe info) (st\<lparr>maybeUnhandledPromises := (maybeUnhandledPromises st)(p \<mapsto> ?i), tlog := Reported p (uid info) # tlog st\<rparr>)"
  have "P ?s" by (rule P_aside [OF P_report [OF assms]]) (simp add: core_def acf_set_def)
  then have m: "P (snd (getUnhandledRejectionsMode env env p ?i ?s))" by (rule P_mode)
  then show ?thesis
    by (cases "getUnhandledRejectionsMode env env p ?i ?s")
      (auto simp: report_one_def acf_exchange_def Let_def P_set split: sum.split tstop.split)
qed

lemma P_report_all: "P st \<Longrightarrow> P (snd (report_all env ps st))"
  by (induction ps arbitrary: st) (auto intro!: P_bind P_report_one)

lemma keeps_rejections: "rejections_keep P"
proof -
  have "processPromiseRejections env k st = Some (r, st') \<Longrightarrow> P st \<Longrightarrow> P st'" for k st r st'
    unfolding processPromiseRejections_def Let_def
    by (erule P_loop_bind) (auto elim: P_warn_handled intro!: P_bind P_report_all P_take dest!: arg_cong [of _ "(_, st')" snd])
  then show ?thesis by (auto simp: rejections_keep_def split: sum.split)
qed

lemma P_run: "P st \<Longrightarrow> runNextTicks env k st = Some (r, st') \<Longrightarrow> P st'"
  using P_next [OF keeps_rejections, of st k r st'] by (cases r) auto

end

section \<open>Ticks are run in the order they were queued\<close>

definition queued_ticks :: "tlog_entry list \<Rightarrow> (nat \<times> nat option \<times> tcallback \<times> tval list) list" where
  "queued_ticks l = rev (concat (map (\<lambda>e. case e of Queued t \<Rightarrow> [(asyncId t, tickFrame t, callback t, targs t)] | _ \<Rightarrow> []) l))"

definition ran_ticks :: "tlog_entry list \<Rightarrow> (nat \<times> nat option \<times> tcallback \<times> tval list) list" where
  "ran_ticks l = rev (concat (map (\<lambda>e. case e of Ran n fr cb args \<Rightarrow> [(n, fr, cb, args)] | _ \<Rightarrow> []) l))"

definition waiting_ticks :: "tq_state \<Rightarrow> (nat \<times> nat option \<times> tcallback \<times> tval list) list" where
  "waiting_ticks st = map (\<lambda>t. (asyncId t, tickFrame t, callback t, targs t)) (fq_items (queue st))"

definition tick_ok :: "tq_env \<Rightarrow> tq_state \<Rightarrow> bool" where
  "tick_ok env st \<longleftrightarrow> fq_inv (queue st) \<and> (fq_items (queue st) \<noteq> [] \<longrightarrow> hasTickScheduled st) \<and>
     (pendingUnhandledRejections st \<noteq> [] \<or> asyncHandledRejections st \<noteq> [] \<longrightarrow> hasRejectionToWarn st) \<and>
     queued_ticks (tlog st) = ran_ticks (tlog st) @ waiting_ticks st \<and>
     (\<forall>t \<in> set (fq_items (queue st)). \<not> frames env \<longrightarrow> tickFrame t = None)"

lemma ticks_simps [simp]:
  "queued_ticks [] = []" "ran_ticks [] = []"
  "queued_ticks (Queued t # l) = queued_ticks l @ [(asyncId t, tickFrame t, callback t, targs t)]"
  "ran_ticks (Ran n fr cb args # l) = ran_ticks l @ [(n, fr, cb, args)]"
  "queued_ticks (Ran n fr cb args # l) = queued_ticks l" "ran_ticks (Queued t # l) = ran_ticks l"
  "queued_ticks (Rejected p n # l) = queued_ticks l" "ran_ticks (Rejected p n # l) = ran_ticks l"
  "queued_ticks (HandledEarly p n # l) = queued_ticks l" "ran_ticks (HandledEarly p n # l) = ran_ticks l"
  "queued_ticks (Reported p n # l) = queued_ticks l" "ran_ticks (Reported p n # l) = ran_ticks l"
  by (simp_all add: queued_ticks_def ran_ticks_def)

lemma ticks_relevant: "queued_ticks (filter relevant l) = queued_ticks l" "ran_ticks (filter relevant l) = ran_ticks l"
  unfolding queued_ticks_def ran_ticks_def by (induction l) (auto simp: relevant_def split: tlog_entry.split)

lemma fq_empty: "fq_inv q \<Longrightarrow> fq_isEmpty q \<longleftrightarrow> fq_items q = []"
  using chain_isEmpty chain_items by (fastforce simp: fq_inv_def)

lemma fq_shift_cases:
  assumes "fq_inv q" "fq_shift q = (t, q')"
  shows "fq_inv q'" "t = None \<Longrightarrow> fq_items q = [] \<and> fq_items q' = []" "t = Some x \<Longrightarrow> fq_items q = x # fq_items q'"
  using fq.shift_inv [OF assms(1)] fq.shift_empty [OF assms(1)] fq.shift_item [OF assms(1)] assms(2) by (cases "fq_items q"; auto)+

interpretation ticks: tq_loops env "tick_ok env" for env
proof (unfold_locales, goal_cases)
  case (1 st st')
  then show ?case using ticks_relevant [of "tlog st"] ticks_relevant [of "tlog st'"] by (auto simp: core_def tick_ok_def waiting_ticks_def)
next
  case (2 st cb args)
  then show ?case using fq.push_contents [of "queue st"] fq.push_inv [of "queue st"] fq_empty [of "queue st"]
    by (auto simp: tick_ok_def push_tick_def Let_def waiting_ticks_def acf_current_def)
next
  case (3 st p r)
  then show ?case by (auto simp: tick_ok_def unhandledRejection_def Let_def waiting_ticks_def)
next
  case (4 st p)
  then show ?case by (auto simp: tick_ok_def handledRejection_def Let_def waiting_ticks_def split: option.splits)
next
  case (5 st h hs)
  then show ?case by (auto simp: tick_ok_def waiting_ticks_def)
next
  case (6 st t q)
  then show ?case using fq_shift_cases(1,3) [of "queue st" "Some t" q] by (auto simp: tick_ok_def waiting_ticks_def)
next
  case (7 st q)
  then show ?case using fq_shift_cases(1,2) [of "queue st" None q] by (auto simp: tick_ok_def waiting_ticks_def)
next
  case (8 st)
  then show ?case using fq_empty [of "queue st"] by (auto simp: tick_ok_def drained_def waiting_ticks_def)
next
  case (9 st)
  then show ?case by (auto simp: tick_ok_def waiting_ticks_def)
next
  case (10 st p n)
  then show ?case by (auto simp: tick_ok_def waiting_ticks_def)
qed

section \<open>Rejections are reported once\<close>

abbreviation uids :: "(nat \<times> promise_info) list \<Rightarrow> nat list" where
  "uids ps \<equiv> map (\<lambda>x. uid (snd x)) ps"

definition reported :: "tlog_entry list \<Rightarrow> nat list" where
  "reported l = concat (map (\<lambda>e. case e of Reported p n \<Rightarrow> [n] | _ \<Rightarrow> []) l)"

text \<open>Besides the pending ones there may be rejections \<open>rem\<close> that a running loop still has to report.\<close>

definition once_reported :: "(nat \<times> promise_info) list \<Rightarrow> tq_state \<Rightarrow> bool" where
  "once_reported rem st \<longleftrightarrow>
     (let ns = uids rem @ uids (pendingUnhandledRejections st) @ reported (tlog st) in distinct ns \<and> (\<forall>n \<in> set ns. n \<le> lastPromiseId st))"

definition settled :: "nat \<Rightarrow> tq_state \<Rightarrow> bool" where
  "settled p st \<longleftrightarrow> (\<exists>n. Reported p n \<in> set (tlog st) \<or> HandledEarly p n \<in> set (tlog st))"

definition accounted :: "(nat \<times> promise_info) list \<Rightarrow> tq_state \<Rightarrow> bool" where
  "accounted rem st \<longleftrightarrow>
     (\<forall>p n. Rejected p n \<in> set (tlog st) \<longrightarrow> p \<in> fst ` set (rem @ pendingUnhandledRejections st) \<or> settled p st)"

definition rej_ok :: "bool \<Rightarrow> (nat \<times> promise_info) list \<Rightarrow> tq_state \<Rightarrow> bool" where
  "rej_ok strong rem st \<longleftrightarrow> once_reported rem st \<and> (strong \<longrightarrow> accounted rem st)"

lemma reported_simps [simp]:
  "reported [] = []" "reported (Reported p n # l) = n # reported l" "reported (Queued t # l) = reported l"
  "reported (Ran n fr cb args # l) = reported l" "reported (Rejected p n # l) = reported l" "reported (HandledEarly p n # l) = reported l"
  by (simp_all add: reported_def)

lemma reported_relevant: "reported (filter relevant l) = reported l"
  unfolding reported_def by (induction l) (auto simp: relevant_def split: tlog_entry.split)

lemma uids_update: "set (uids (AList.update p i ps)) \<subseteq> insert (uid i) (set (uids ps))"
  by (induction ps) auto

lemma distinct_update: "distinct (uids ps) \<Longrightarrow> uid i \<notin> set (uids ps) \<Longrightarrow> distinct (uids (AList.update p i ps))"
proof (induction ps)
  case (Cons a ps)
  then show ?case using uids_update [of p i ps] by (cases "fst a = p") (auto simp: image_iff)
qed simp

lemma keys_update: "fst ` set (AList.update p i ps) = insert p (fst ` set ps)"
  by (induction ps) auto

lemma uids_delete: "set (uids (AList.delete p ps)) \<subseteq> set (uids ps)" "distinct (uids ps) \<Longrightarrow> distinct (uids (AList.delete p ps))"
  by (auto simp: AList.delete_eq distinct_map_filter)

lemma settled_mono: "settled p st \<Longrightarrow> set (tlog st) \<subseteq> set (tlog st') \<Longrightarrow> settled p st'"
  by (auto simp: settled_def)

lemma in_relevant: "filter relevant l' = filter relevant l \<Longrightarrow> relevant e \<Longrightarrow> e \<in> set l' \<longleftrightarrow> e \<in> set l"
  by (metis (no_types, lifting) filter_set mem_Collect_eq set_filter)

lemma rej_aside:
  assumes "rej_ok strong rem st" "core st' = core st" shows "rej_ok strong rem st'"
proof -
  have l: "filter relevant (tlog st') = filter relevant (tlog st)" using assms(2) by (simp add: core_def)
  have "Rejected p n \<in> set (tlog st') \<longleftrightarrow> Rejected p n \<in> set (tlog st)" "settled p st' \<longleftrightarrow> settled p st" for p n
    using in_relevant [OF l] by (auto simp: settled_def relevant_def)
  moreover have "reported (tlog st') = reported (tlog st)" using l reported_relevant by metis
  ultimately show ?thesis using assms by (auto simp: rej_ok_def once_reported_def accounted_def core_def Let_def)
qed

lemma once_reported_iff:
  "once_reported rem st \<longleftrightarrow> distinct (uids rem) \<and> distinct (uids (pendingUnhandledRejections st)) \<and> distinct (reported (tlog st)) \<and>
     set (uids rem) \<inter> set (uids (pendingUnhandledRejections st)) = {} \<and> set (uids rem) \<inter> set (reported (tlog st)) = {} \<and>
     set (uids (pendingUnhandledRejections st)) \<inter> set (reported (tlog st)) = {} \<and>
     set (uids rem) \<union> set (uids (pendingUnhandledRejections st)) \<union> set (reported (tlog st)) \<subseteq> {..lastPromiseId st}"
  unfolding once_reported_def Let_def by auto

lemma rej_reject:
  assumes "rej_ok strong rem st" shows "rej_ok strong rem (unhandledRejection on p r st)"
proof -
  let ?n = "lastPromiseId st + 1" and ?ps = "pendingUnhandledRejections st"
  let ?i = "\<lparr>reason = r, uid = ?n, warned = False, pdomain = currentDomain st, pframe = acf_current on st\<rparr>"
  have o: "once_reported rem st" using assms by (simp add: rej_ok_def)
  then have new: "?n \<notin> set (uids rem)" "?n \<notin> set (uids ?ps)" "?n \<notin> set (reported (tlog st))" unfolding once_reported_iff by auto
  have d: "distinct (uids (AList.update p ?i ?ps))" using distinct_update [of ?ps ?i p] o new(2) unfolding once_reported_iff by simp
  have sub: "set (uids (AList.update p ?i ?ps)) \<subseteq> insert ?n (set (uids ?ps))" using uids_update [of p ?i ?ps] by simp
  have "pendingUnhandledRejections (unhandledRejection on p r st) = AList.update p ?i ?ps"
    "reported (tlog (unhandledRejection on p r st)) = reported (tlog st)" "lastPromiseId (unhandledRejection on p r st) = ?n"
    by (simp_all add: unhandledRejection_def Let_def)
  then have "once_reported rem (unhandledRejection on p r st)"
    using o new d sub unfolding once_reported_iff by (simp del: set_map) (blast intro: le_SucI)
  moreover have "accounted rem (unhandledRejection on p r st)" if "accounted rem st"
    using that by (auto simp: accounted_def unhandledRejection_def Let_def keys_update settled_def image_Un)
  ultimately show ?thesis using assms by (simp add: rej_ok_def)
qed

lemma rej_handled:
  assumes "rej_ok strong rem st" shows "rej_ok strong rem (handledRejection p st)"
proof -
  let ?ps = "pendingUnhandledRejections st"
  have f: "pendingUnhandledRejections (handledRejection p st) \<in> {?ps, AList.delete p ?ps}"
    "reported (tlog (handledRejection p st)) = reported (tlog st)" "lastPromiseId (handledRejection p st) = lastPromiseId st"
    by (auto simp: handledRejection_def Let_def split: option.split)
  have o: "once_reported rem st" using assms by (simp add: rej_ok_def)
  then have "distinct (uids ?ps)" unfolding once_reported_iff by simp
  with f(1) have "set (uids (pendingUnhandledRejections (handledRejection p st))) \<subseteq> set (uids ?ps)"
    "distinct (uids (pendingUnhandledRejections (handledRejection p st)))" using uids_delete [where p = p and ps = ?ps] by (auto simp del: set_map)
  then have "once_reported rem (handledRejection p st)" using o f(2,3) unfolding once_reported_iff by (simp del: set_map) blast
  moreover have "accounted rem (handledRejection p st)" if "accounted rem st"
    using that unfolding accounted_def settled_def handledRejection_def AList.delete_eq Let_def
    by (auto split: option.split) force+
  ultimately show ?thesis using assms by (simp add: rej_ok_def)
qed

interpretation rejs: tq_user env "rej_ok strong rem" for env strong rem
proof (unfold_locales, goal_cases)
  case (1 st st') then show ?case by (rule rej_aside)
next
  case (2 st cb args)
  have "reported (tlog (push_tick (frames env) cb args st)) = reported (tlog st)"
    "pendingUnhandledRejections (push_tick (frames env) cb args st) = pendingUnhandledRejections st"
    "lastPromiseId (push_tick (frames env) cb args st) = lastPromiseId st"
    "Rejected p n \<in> set (tlog (push_tick (frames env) cb args st)) \<longleftrightarrow> Rejected p n \<in> set (tlog st)"
    "settled p (push_tick (frames env) cb args st) \<longleftrightarrow> settled p st" for p n
    by (auto simp: push_tick_def Let_def settled_def)
  then show ?case using 2 by (auto simp: rej_ok_def once_reported_iff accounted_def)
next
  case (3 st p r) then show ?case by (rule rej_reject)
next
  case (4 st p) then show ?case by (rule rej_handled)
next
  case (5 st h hs) then show ?case by (simp add: rej_ok_def once_reported_iff accounted_def settled_def)
next
  case (6 st t q) then show ?case by (simp add: rej_ok_def once_reported_iff accounted_def settled_def)
next
  case (7 st q) then show ?case by (simp add: rej_ok_def once_reported_iff accounted_def settled_def)
next
  case (8 st) then show ?case by (simp add: rej_ok_def once_reported_iff accounted_def settled_def)
qed

text \<open>The loop over the pending rejections: each is reported and no longer waits; a throw drops the rest.\<close>

lemma rej_report:
  assumes "rej_ok strong ((p, info) # ps) st"
  shows "rej_ok strong ps (st\<lparr>maybeUnhandledPromises := m, tlog := Reported p (uid info) # tlog st\<rparr>)"
  using assms by (auto simp: rej_ok_def once_reported_iff accounted_def settled_def image_iff)

lemma rej_weaken: "rej_ok strong ps st \<Longrightarrow> rej_ok False [] st"
  by (auto simp: rej_ok_def once_reported_iff)

lemma rej_report_one:
  assumes "rej_ok strong ((p, info) # ps) st"
  shows "rej_ok strong ps (snd (report_one env p info st))"
proof -
  let ?i = "info\<lparr>warned := True\<rparr>"
  let ?s = "acf_set (frames env) (pframe info) (st\<lparr>maybeUnhandledPromises := (maybeUnhandledPromises st)(p \<mapsto> ?i), tlog := Reported p (uid info) # tlog st\<rparr>)"
  have "rej_ok strong ps ?s" by (rule rejs.P_set [OF rej_report [OF assms]])
  then have "rej_ok strong ps (snd (getUnhandledRejectionsMode env env p ?i ?s))" by (rule rejs.P_mode)
  then show ?thesis
    by (cases "getUnhandledRejectionsMode env env p ?i ?s")
      (auto simp: report_one_def acf_exchange_def Let_def rejs.P_set split: sum.split tstop.split)
qed

lemma rej_report_all:
  "rej_ok strong ps st \<Longrightarrow> report_all env ps st = (r, st') \<Longrightarrow> (case r of Inl _ \<Rightarrow> rej_ok False [] st' | Inr _ \<Rightarrow> rej_ok strong [] st')"
proof (induction ps arbitrary: st)
  case (Cons x ps)
  obtain p info where x: "x = (p, info)" by (cases x)
  obtain y s where y: "report_one env p info st = (y, s)" by fastforce
  have "rej_ok strong ps s" using rej_report_one [of strong p info ps st env] Cons.prems(1) x y by simp
  then show ?case using Cons.IH [of s] Cons.prems(2) x y rej_weaken by (cases y) (auto simp: tbind_def)
qed auto

lemma rejs_keep: "tq_user.rejections_keep env (rej_ok strong []) (rej_ok False [])"
proof -
  have "case r of Inl _ \<Rightarrow> rej_ok False [] st' | Inr _ \<Rightarrow> rej_ok strong [] st'"
    if st: "rej_ok strong [] st" and r: "processPromiseRejections env k st = Some (r, st')" for k st r st'
    using r unfolding processPromiseRejections_def Let_def
  proof (cases rule: loop_bindE)
    case stop
    then show ?thesis using rej_weaken [OF rejs.P_warn_handled [OF st stop(1)]] by simp
  next
    case (go a s)
    let ?ps = "pendingUnhandledRejections s" and ?s = "s\<lparr>pendingUnhandledRejections := []\<rparr>"
    have "rej_ok strong [] s" using rejs.P_warn_handled [OF st go(1)] .
    then have "rej_ok strong ?ps ?s" by (simp add: rej_ok_def once_reported_iff accounted_def settled_def)
    then show ?thesis using rej_report_all [of strong ?ps ?s env] go(2)
      by (cases "report_all env ?ps ?s") (auto simp: tbind_def split: sum.splits)
  qed
  then show ?thesis using rej_weaken unfolding rejs.rejections_keep_def by blast
qed

section \<open>Runs\<close>

text \<open>The states the program gets to: functions run from the outside (the main script, callbacks of the event loop) and the native side
  calls \<open>runNextTicks\<close>.  With \<open>quiet\<close> no run of \<open>runNextTicks\<close> was left by a throw.\<close>

inductive tq_run :: "tq_env \<Rightarrow> bool \<Rightarrow> tq_state \<Rightarrow> bool" for env quiet where
  run_start: "tq_run env quiet tq_init"
| run_outside: "tq_run env quiet st \<Longrightarrow> exec_tq (frames env) p st = (r, st') \<Longrightarrow> tq_run env quiet st'"
| run_ticks: "tq_run env quiet st \<Longrightarrow> runNextTicks env k st = Some (r, st') \<Longrightarrow> quiet \<longrightarrow> r = Inr () \<Longrightarrow> tq_run env quiet st'"

lemma fq_new: "fq_inv new_queue" "fq_items new_queue = []"
  using chain_new chain_items by (force simp: fq_inv_def)+

lemma run_tick_ok: "tq_run env quiet st \<Longrightarrow> tick_ok env st"
proof (induction rule: tq_run.induct)
  case run_start
  show ?case by (simp add: tick_ok_def tq_init_def waiting_ticks_def fq_new)
next
  case (run_outside st p r st')
  then show ?case using ticks.P_exec [of env st p] by simp
next
  case (run_ticks st k r st')
  then show ?case using ticks.P_run by blast
qed

lemma run_rej_ok: "tq_run env quiet st \<Longrightarrow> rej_ok quiet [] st"
proof (induction rule: tq_run.induct)
  case run_start
  show ?case by (simp add: rej_ok_def once_reported_iff accounted_def tq_init_def)
next
  case (run_outside st p r st')
  then show ?case using rejs.P_exec [of quiet "[]" st env p] by simp
next
  case (run_ticks st k r st')
  then show ?case using rejs.P_next [OF rejs_keep, of quiet st env k r st'] rej_weaken
    by (cases r; cases quiet) auto
qed

lemma next_drained:
  assumes "tq_run env quiet st" "runNextTicks env k st = Some (Inr (), st')"
  shows "drained st' \<and> microtasks st' = []"
  using assms(2) unfolding runNextTicks_def
proof (cases rule: loop_bindE)
  case (go a s)
  have ok: "tick_ok env s" using go(1) ticks.P_microtasks run_tick_ok [OF assms(1)] by (auto split: if_splits)
  show ?thesis
  proof (cases "\<not> hasTickScheduled s \<and> \<not> hasRejectionToWarn s")
    case True
    then have "st' = s" "microtasks s = []" using go microtasks_end by (auto split: if_splits)
    then show ?thesis using True ok fq_empty [of "queue s"] by (auto simp: tick_ok_def drained_def)
  next
    case False
    then obtain s2 where "process_rounds env k k s = Some (Inr (), s2)"
        "st' = s2\<lparr>hasTickScheduled := False, hasRejectionToWarn := False\<rparr>"
      using go(2) by (auto simp: processTicksAndRejections_def elim!: loop_bindE)
    then show ?thesis using rounds_drained by (force simp: drained_def)
  qed
qed simp

end
