(* ===== verification/TaskQueueEnd.thy ===== *)
theory TaskQueueEnd
  imports TaskQueueProps
begin

text \<open>
  When \<open>processTicksAndRejections\<close> returns: every function has a weight, and schedules only functions that are lighter in sum.  Then
  concrete runs, and what goes wrong when listeners interfere with the loop over the rejections.
\<close>

section \<open>Weights\<close>

text \<open>The program schedules functions of weight at most \<open>n\<close> in all, and does not touch promises.\<close>

primrec weighs :: "(nat \<Rightarrow> nat) \<Rightarrow> tprog \<Rightarrow> nat \<Rightarrow> bool" where
  "weighs w TReturn n = True"
| "weighs w (TThrow e) n = True"
| "weighs w TExit n = True"
| "weighs w (TNextTick f args k) n =
     (case f of Some i \<Rightarrow> w i \<le> n \<and> (\<forall>r. weighs w (k r) (n - w i)) | None \<Rightarrow> \<forall>r. weighs w (k r) n)"
| "weighs w (TMicrotask f k) n =
     (case f of Some i \<Rightarrow> w i \<le> n \<and> (\<forall>r. weighs w (k r) (n - w i)) | None \<Rightarrow> \<forall>r. weighs w (k r) n)"
| "weighs w (TPromiseEvent ty p r k) n = False"
| "weighs w (TOn tgt ev f k) n = weighs w k n"
| "weighs w (TOff tgt ev f k) n = weighs w k n"
| "weighs w (TFrame fr k) n = weighs w k n"
| "weighs w (TEnter d k) n = weighs w k n"
| "weighs w (TExiting k) n = weighs w k n"

definition light :: "tq_env \<Rightarrow> (nat \<Rightarrow> nat) \<Rightarrow> bool" where
  "light env w \<longleftrightarrow> (\<forall>f l args. 0 < w f \<and> weighs w (fn_body env f l args) (w f - 1))"

definition tick_weight :: "(nat \<Rightarrow> nat) \<Rightarrow> tick \<Rightarrow> nat" where
  "tick_weight w t = (case callback t of TFunction f \<Rightarrow> w f | TMultipleResolves _ _ _ \<Rightarrow> 0)"

definition load :: "(nat \<Rightarrow> nat) \<Rightarrow> tq_state \<Rightarrow> nat" where
  "load w st = sum_list (map (tick_weight w) (fq_items (queue st))) + sum_list (map (\<lambda>m. w (fst m)) (microtasks st))"

text \<open>Only functions wait.\<close>

definition plain :: "tq_state \<Rightarrow> bool" where
  "plain st \<longleftrightarrow> fq_inv (queue st) \<and> pendingUnhandledRejections st = [] \<and> asyncHandledRejections st = [] \<and>
     (\<forall>t \<in> set (fq_items (queue st)). \<exists>f. callback t = TFunction f)"

lemma load_upd [simp]:
  "load w (st\<lparr>tlog := l\<rparr>) = load w st" "load w (st\<lparr>contextFrame := c\<rparr>) = load w st" "load w (st\<lparr>exiting := b\<rparr>) = load w st"
  "load w (st\<lparr>currentDomain := d\<rparr>) = load w st" "load w (st\<lparr>listeners := ls\<rparr>) = load w st"
  "load w (st\<lparr>hasMultipleResolvesListener := b\<rparr>) = load w st" "load w (acf_set on fr st) = load w st"
  by (simp_all add: load_def acf_set_def)

lemma plain_upd [simp]:
  "plain (st\<lparr>tlog := l\<rparr>) = plain st" "plain (st\<lparr>contextFrame := c\<rparr>) = plain st" "plain (st\<lparr>exiting := b\<rparr>) = plain st"
  "plain (st\<lparr>currentDomain := d\<rparr>) = plain st" "plain (st\<lparr>listeners := ls\<rparr>) = plain st" "plain (st\<lparr>microtasks := ms\<rparr>) = plain st"
  "plain (st\<lparr>hasMultipleResolvesListener := b\<rparr>) = plain st" "plain (acf_set on fr st) = plain st" "plain (st\<lparr>lastAsyncId := i\<rparr>) = plain st"
  by (simp_all add: plain_def acf_set_def)

lemma fn_upd [simp]:
  "load w (add_fn tgt ev f st) = load w st" "plain (add_fn tgt ev f st) = plain st"
  "load w (remove_fn tgt ev f st) = load w st" "plain (remove_fn tgt ev f st) = plain st"
  by (simp_all add: add_fn_def remove_fn_def load_def plain_def split: option.split)

lemma push_load:
  assumes "plain st" shows "plain (push_tick on (TFunction f) args st) \<and> load w (push_tick on (TFunction f) args st) \<le> load w st + w f"
  using assms fq.push_contents [of "queue st"] fq.push_inv [of "queue st"]
  by (auto simp: plain_def load_def push_tick_def Let_def tick_weight_def)

lemma micro_load: "load w (snd (queueMicrotask on (Some f) st)) = load w st + w f"
  by (simp add: queueMicrotask_def load_def)

lemma exec_load: "weighs w p n \<Longrightarrow> plain st \<Longrightarrow> plain (snd (exec_tq on p st)) \<and> load w (snd (exec_tq on p st)) \<le> load w st + n"
proof (induction p arbitrary: n st)
  case (TNextTick f args k)
  show ?case
  proof (cases f)
    case (Some i)
    let ?s = "push_tick on (TFunction i) args st"
    have s: "plain ?s" "load w ?s \<le> load w st + w i" using push_load TNextTick.prems(2) by blast+
    then show ?thesis using TNextTick.IH [of "k None" "n - w i" ?s] TNextTick.prems(1) Some by (auto simp: nextTick_def)
  next
    case None
    then show ?thesis using TNextTick.IH [of "k (Some TInvalidArg)" n st] TNextTick.prems by (simp add: nextTick_def)
  qed
next
  case (TMicrotask f k)
  show ?case
  proof (cases f)
    case (Some i)
    let ?s = "snd (queueMicrotask on (Some i) st)"
    have "plain ?s" using TMicrotask.prems(2) by (simp add: queueMicrotask_def)
    then show ?thesis using TMicrotask.IH [of "k None" "n - w i" ?s] TMicrotask.prems(1) micro_load [of w on i st] Some
      by (auto simp: queueMicrotask_def)
  next
    case None
    then show ?thesis using TMicrotask.IH [of "k (Some TInvalidArg)" n st] TMicrotask.prems by (simp add: queueMicrotask_def)
  qed
next
  case (TOn tgt ev f p) then show ?case using TOn.IH [of n "add_fn tgt ev f st"] by simp
next
  case (TOff tgt ev f p) then show ?case using TOff.IH [of n "remove_fn tgt ev f st"] by simp
next
  case (TFrame fr p) then show ?case using TFrame.IH [of n "acf_set on fr st"] by simp
next
  case (TEnter d p) then show ?case using TEnter.IH [of n "st\<lparr>currentDomain := d\<rparr>"] by simp
next
  case (TExiting p) then show ?case using TExiting.IH [of n "st\<lparr>exiting := True\<rparr>"] by simp
qed simp_all

lemma call_load:
  assumes "light env w" "plain st"
  shows "plain (snd (call_fn env f args st)) \<and> load w (snd (call_fn env f args st)) < load w st + w f"
proof -
  have "weighs w (fn_body env f (tlog st) args) (w f - 1)" "0 < w f" using assms(1) by (auto simp: light_def)
  then show ?thesis
    using exec_load [of w "fn_body env f (tlog st) args" "w f - 1" "st\<lparr>tlog := Called f args # tlog st\<rparr>" "frames env"] assms(2)
    by (auto simp: call_fn_def)
qed

section \<open>The loops end\<close>

lemma tick_step:
  assumes "light env w" "plain st" "fq_shift (queue st) = (Some t, q)"
  shows "plain (snd (run_tick env t (st\<lparr>queue := q\<rparr>))) \<and> load w (snd (run_tick env t (st\<lparr>queue := q\<rparr>))) < load w st"
proof -
  have q: "fq_inv q" "fq_items (queue st) = t # fq_items q" using fq_shift_cases(1,3) [OF _ assms(3)] assms(2) by (auto simp: plain_def)
  then obtain f where f: "callback t = TFunction f" using assms(2) by (auto simp: plain_def)
  let ?s = "acf_set (frames env) (tickFrame t) (st\<lparr>queue := q\<rparr>)"
  let ?s' = "?s\<lparr>tlog := Ran (asyncId t) (acf_current (frames env) ?s) (callback t) (targs t) # tlog ?s\<rparr>"
  have "plain (st\<lparr>queue := q\<rparr>)" "load w (st\<lparr>queue := q\<rparr>) + w f = load w st" using assms(2) q f by (auto simp: plain_def load_def tick_weight_def)
  then have "plain ?s'" "load w ?s' + w f = load w st" by simp_all
  then have "plain (snd (call_fn env f (targs t) ?s')) \<and> load w (snd (call_fn env f (targs t) ?s')) < load w st"
    using call_load [OF assms(1), of ?s' f "targs t"] by simp
  then show ?thesis
    by (auto simp: run_tick_def acf_exchange_def run_callback_def f tbind_def split: prod.split sum.split)
qed

lemma micro_step:
  assumes "light env w" "plain st" "microtasks st = (f, fr) # ms"
  shows "plain (snd (tcatch (runMicrotask env f fr (st\<lparr>microtasks := ms\<rparr>)) (\<lambda>st. (Inr (), st)))) \<and>
    load w (snd (tcatch (runMicrotask env f fr (st\<lparr>microtasks := ms\<rparr>)) (\<lambda>st. (Inr (), st)))) < load w st"
proof -
  let ?s = "acf_set (frames env) fr (st\<lparr>microtasks := ms\<rparr>)"
  have "load w (st\<lparr>microtasks := ms\<rparr>) + w f = load w st" using assms(3) by (simp add: load_def)
  then have "plain ?s" "load w ?s + w f = load w st" using assms(2) by simp_all
  then have "plain (snd (call_fn env f [] ?s)) \<and> load w (snd (call_fn env f [] ?s)) < load w st" using call_load [OF assms(1), of ?s f "[]"] by simp
  then show ?thesis
    by (auto simp: runMicrotask_def acf_exchange_def tcatch_def split: prod.splits sum.splits tstop.splits)
qed

lemma run_ticks_ends:
  assumes "light env w"
  shows "plain st \<Longrightarrow> load w st < k \<Longrightarrow>
    \<exists>r st'. run_ticks env k st = Some (r, st') \<and> plain st' \<and> load w st' \<le> load w st \<and> (r = Inr () \<longrightarrow> fq_items (queue st') = [])"
proof (induction k arbitrary: st)
  case (Suc k)
  obtain t q where s: "fq_shift (queue st) = (t, q)" by fastforce
  show ?case
  proof (cases t)
    case None
    then have "fq_inv q" "fq_items q = []" "fq_items (queue st) = []"
      using fq_shift_cases(1,2) [OF _ s] Suc.prems(1) by (auto simp: plain_def)
    then show ?thesis using s None Suc.prems(1) by (auto simp: plain_def load_def)
  next
    case (Some tock)
    obtain x s' where x: "run_tick env tock (st\<lparr>queue := q\<rparr>) = (x, s')" by fastforce
    have "plain s'" "load w s' < load w st" using tick_step [OF assms Suc.prems(1), of tock q] s Some x by auto
    then show ?thesis using Suc.IH [of s'] Suc.prems(2) s Some x by (cases x) (fastforce simp: tloop_bind_def)+
  qed
qed simp

lemma microtasks_ends:
  assumes "light env w"
  shows "plain st \<Longrightarrow> load w st < k \<Longrightarrow>
    \<exists>r st'. runMicrotasks env k st = Some (r, st') \<and> plain st' \<and> load w st' \<le> load w st \<and> (load w st' < load w st \<or> r = Inr () \<and> st' = st)"
proof (induction k arbitrary: st)
  case (Suc k)
  show ?case
  proof (cases "microtasks st")
    case (Cons m ms)
    obtain f fr where m: "m = (f, fr)" by (cases m)
    obtain x s' where x: "tcatch (runMicrotask env f fr (st\<lparr>microtasks := ms\<rparr>)) (\<lambda>st. (Inr (), st)) = (x, s')" by fastforce
    have "plain s'" "load w s' < load w st" using micro_step [OF assms Suc.prems(1), of f fr ms] Cons m x by auto
    then show ?thesis using Suc.IH [of s'] Suc.prems(2) Cons m x by (cases x) (fastforce simp: tloop_bind_def)+
  qed (use Suc.prems in simp)
qed simp

lemma rounds_end:
  assumes "light env w"
  shows "plain st \<Longrightarrow> load w st < k \<Longrightarrow> load w st < n \<Longrightarrow> \<exists>r st'. process_rounds env k n st = Some (r, st')"
proof (induction n arbitrary: st)
  case (Suc n)
  obtain r1 s1 where s1: "run_ticks env k st = Some (r1, s1)" "plain s1" "load w s1 \<le> load w st" "r1 = Inr () \<longrightarrow> fq_items (queue s1) = []"
    using run_ticks_ends [OF assms Suc.prems(1,2)] by blast
  obtain r2 s2 where s2: "runMicrotasks env k s1 = Some (r2, s2)" "plain s2" "load w s2 \<le> load w s1"
      "load w s2 < load w s1 \<or> r2 = Inr () \<and> s2 = s1"
    using microtasks_ends [OF assms s1(2), of k] s1(3) Suc.prems(2) by (metis le_less_trans)
  show ?case
  proof (cases "r1 = Inr () \<and> r2 = Inr ()")
    case True
    show ?thesis
    proof (cases "fq_isEmpty (queue s2)")
      case False
      then have "fq_items (queue s2) \<noteq> []" using fq_empty s2(2) by (auto simp: plain_def)
      then have "load w s2 < load w s1" using s2(4) s1(4) True by auto
      then have "\<exists>r st'. process_rounds env k n s2 = Some (r, st')" using Suc.IH [OF s2(2)] s1(3) Suc.prems(2,3) by simp
      then show ?thesis using s1(1) s2(1) True False by (simp add: tloop_bind_def)
    next
      case True': True
      obtain k' where k: "k = Suc k'" using Suc.prems(2) by (cases k) auto
      have "processPromiseRejections env k s2 = Some (Inr False, s2)"
        using s2(2) by (simp add: processPromiseRejections_def k plain_def tloop_bind_def tbind_def)
      then show ?thesis using s1(1) s2(1) True True' by (simp add: tloop_bind_def)
    qed
  next
    case False
    then show ?thesis using s1(1) s2(1) by (cases r1; cases r2) (auto simp: tloop_bind_def)
  qed
qed simp

text \<open>\<open>processTicksAndRejections\<close> returns when every function schedules only functions that weigh less than itself in sum, and no
  promise is rejected: as many iterations as the weight of what waits are enough.\<close>

theorem processTicks_terminates:
  assumes "light env w" "plain st" "load w st < k"
  shows "\<exists>r st'. processTicksAndRejections env k st = Some (r, st')"
proof -
  obtain r s where r: "process_rounds env k k st = Some (r, s)" using rounds_end [OF assms assms(3)] by blast
  then show ?thesis by (cases r) (auto simp: processTicksAndRejections_def tloop_bind_def)
qed

section \<open>Concrete runs\<close>

text \<open>Function 1 queues function 2, which returns; 8 throws; 9 handles promise 2.\<close>

definition demo_env :: tq_env where
  "demo_env = \<lparr>frames = False, unhandledOption = ''throw-or-warn'',
     fn_body = (\<lambda>f l args.
       if f = 1 then TNextTick (Some 2) [] (\<lambda>_. TReturn)
       else if f = 8 then TThrow (TPlain 0)
       else if f = 9 then TPromiseEvent HandlerAddedAfterReject 2 TUndefined TReturn
       else TReturn),
     uncaught = (\<lambda>_ _. TExit)\<rparr>"

text \<open>A listener for \<open>unhandledRejection\<close>, and two promises that are rejected.\<close>

definition demo_rejections :: "nat \<Rightarrow> tprog" where
  "demo_rejections f = TOn TProcess ''unhandledRejection'' f (TPromiseEvent RejectWithNoHandler 1 (TError 1)
     (TPromiseEvent RejectWithNoHandler 2 (TError 2) TReturn))"

definition demo_run :: "tprog \<Rightarrow> ((tstop + unit) \<times> tq_state) option" where
  "demo_run p = runNextTicks demo_env 4 (snd (exec_tq False p tq_init))"

text \<open>The listener for the first rejection adds a handler to the second promise, which is reported nevertheless: it is in neither of
  the maps that \<open>handledRejection\<close> looks into.\<close>

lemma handled_meanwhile_reported:
  "map_option (\<lambda>(r, st). (r, reported (tlog st))) (demo_run (demo_rejections 9)) = Some (Inr (), [2, 1])"
  by code_simp

text \<open>A listener that throws at the first rejection makes the second one vanish.\<close>

lemma throwing_listener_drops_rejections:
  "map_option (\<lambda>(r, st). (r, reported (tlog st), pendingUnhandledRejections st)) (demo_run (demo_rejections 8)) =
     Some (Inl (TThrown (TPlain 0)), [1], [])"
  by code_simp

lemma demo_run_reachable: "demo_run p = Some (r, st) \<Longrightarrow> quiet \<longrightarrow> r = Inr () \<Longrightarrow> tq_run demo_env quiet st"
  unfolding demo_run_def
  by (rule tq_run.run_ticks [OF tq_run.run_outside [OF tq_run.run_start, where p = p]]) (auto simp: demo_env_def prod_eq_iff)

lemma fq_new_empty: "fq_isEmpty new_queue"
  using fq_empty [OF fq_new(1)] fq_new(2) by blast

lemma one_tick: "\<exists>q1 q2. fq_shift (fq_push (Some t) new_queue) = (Some t, q1) \<and> fq_shift q1 = (None, q2) \<and> fq_isEmpty q2"
proof -
  let ?q = "fq_push (Some t) new_queue"
  have q: "fq_inv ?q" "fq_items ?q = [t]" using fq.push_inv [OF fq_new(1), of t] fq.push_contents [OF fq_new(1), of t] fq_new(2) by auto
  obtain q1 where q1: "fq_shift ?q = (Some t, q1)" "fq_items q1 = []" "fq_inv q1"
    using fq.shift_item [OF q] fq.shift_inv [OF q(1)] by (cases "fq_shift ?q") auto
  obtain q2 where q2: "fq_shift q1 = (None, q2)" "fq_items q2 = []" "fq_inv q2"
    using fq.shift_empty [OF q1(3,2)] fq.shift_inv [OF q1(3)] by (cases "fq_shift q1") auto
  then show ?thesis using q1(1) fq_empty by auto
qed

lemma demo_tick: "\<exists>st. demo_run (TNextTick (Some 2) [TPlain 5] (\<lambda>_. TReturn)) = Some (Inr (), st) \<and>
    ran_ticks (tlog st) = [(1, None, TFunction 2, [TPlain 5])]"
proof -
  define t where "t = \<lparr>asyncId = 1, tickFrame = None, callback = TFunction 2, targs = [TPlain 5]\<rparr>"
  obtain q1 q2 where q: "fq_shift (fq_push (Some t) new_queue) = (Some t, q1)" "fq_shift q1 = (None, q2)" "fq_isEmpty q2"
    using one_tick [of t] by metis
  define s0 where "s0 = tq_init\<lparr>hasTickScheduled := True, lastAsyncId := 1, queue := fq_push (Some t) new_queue, tlog := [Queued t]\<rparr>"
  define s1 where "s1 = s0\<lparr>queue := q2, tlog := [Called 2 [TPlain 5], Ran 1 None (TFunction 2) [TPlain 5], Queued t]\<rparr>"
  have exec: "snd (exec_tq False (TNextTick (Some 2) [TPlain 5] (\<lambda>_. TReturn)) tq_init) = s0"
    by (simp add: nextTick_def push_tick_def fq_new_empty tq_init_def acf_current_def s0_def t_def Let_def)
  have tick: "run_tick demo_env t s = (Inr (), s\<lparr>tlog := Called 2 [TPlain 5] # Ran 1 None (TFunction 2) [TPlain 5] # tlog s\<rparr>)" for s
    by (simp add: run_tick_def acf_exchange_def acf_set_def acf_current_def run_callback_def call_fn_def demo_env_def t_def tbind_def)
  have ticks: "run_ticks demo_env 4 s0 = Some (Inr (), s1)"
    using q(1,2) by (simp add: numeral_eq_Suc tick tloop_bind_def s0_def s1_def)
  have "runMicrotasks demo_env 4 s1 = Some (Inr (), s1)" by (simp add: numeral_eq_Suc s1_def s0_def tq_init_def)
  moreover have "processPromiseRejections demo_env 4 s1 = Some (Inr False, s1)"
    by (simp add: numeral_eq_Suc processPromiseRejections_def tloop_bind_def tbind_def s1_def s0_def tq_init_def)
  moreover have "fq_isEmpty (queue s1)" "hasTickScheduled s0" using q(3) by (simp_all add: s1_def s0_def)
  ultimately have "demo_run (TNextTick (Some 2) [TPlain 5] (\<lambda>_. TReturn)) = Some (Inr (), s1\<lparr>hasTickScheduled := False, hasRejectionToWarn := False\<rparr>)"
    unfolding demo_run_def exec runNextTicks_def processTicksAndRejections_def
    by (simp add: tloop_bind_def ticks process_rounds.simps(2) [of demo_env 4 3, simplified])
  then show ?thesis by (simp add: s1_def ran_ticks_def)
qed

text \<open>C27: Ticks are run in the order in which \<open>nextTick\<close> queued them, each once, with the arguments it was given and in the async context
  in which it was queued; what has not run yet is what the queue holds.  This holds although functions queue ticks while ticks
  run and a tick that throws interrupts the run.\<close>

theorem ticks_in_order:
  assumes "tq_run env quiet st"
  shows "queued_ticks (tlog st) = ran_ticks (tlog st) @ waiting_ticks st"
  using run_tick_ok [OF assms] by (simp add: tick_ok_def)

theorem ticks_in_order_witness:
  "\<exists>st. tq_run demo_env False st \<and> ran_ticks (tlog st) = [(1, None, TFunction 2, [TPlain 5])] \<and>
     queued_ticks (tlog st) = ran_ticks (tlog st) @ waiting_ticks st"
proof -
  obtain st where st: "demo_run (TNextTick (Some 2) [TPlain 5] (\<lambda>_. TReturn)) = Some (Inr (), st)"
      "ran_ticks (tlog st) = [(1, None, TFunction 2, [TPlain 5])]" using demo_tick by blast
  then show ?thesis using ticks_in_order [OF demo_run_reachable [OF st(1)]] demo_run_reachable [OF st(1)] by blast
qed

lemma demo_exec_reachable: "tq_run demo_env quiet (snd (exec_tq False p tq_init))"
  by (rule tq_run.run_outside [OF tq_run.run_start, where p = p]) (auto simp: demo_env_def prod_eq_iff)

text \<open>Nothing that waits is forgotten: while ticks, unhandled rejections or late handlers wait, the flags that make the next call of
  \<open>runNextTicks\<close> process them are set.\<close>

theorem waiting_work_flagged:
  assumes "tq_run env quiet st"
  shows "(waiting_ticks st \<noteq> [] \<longrightarrow> hasTickScheduled st) \<and>
    (pendingUnhandledRejections st \<noteq> [] \<or> asyncHandledRejections st \<noteq> [] \<longrightarrow> hasRejectionToWarn st)"
  using run_tick_ok [OF assms] by (auto simp: tick_ok_def waiting_ticks_def)

theorem waiting_work_flagged_witness:
  "tq_run demo_env False (snd (exec_tq False (demo_rejections 9) tq_init)) \<and>
   pendingUnhandledRejections (snd (exec_tq False (demo_rejections 9) tq_init)) \<noteq> [] \<and>
   hasRejectionToWarn (snd (exec_tq False (demo_rejections 9) tq_init))"
proof -
  have "pendingUnhandledRejections (snd (exec_tq False (demo_rejections 9) tq_init)) \<noteq> []" by code_simp
  then show ?thesis using waiting_work_flagged [OF demo_exec_reachable [where p = "demo_rejections 9"]] demo_exec_reachable by blast
qed

lemma demo_settled_run:
  obtains st where "demo_run (demo_rejections 9) = Some (Inr (), st)" "reported (tlog st) = [2, 1]"
  using handled_meanwhile_reported by (cases "demo_run (demo_rejections 9)") auto

text \<open>C28: When \<open>runNextTicks\<close> returns, every promise that was rejected without a handler has been reported by the mode for unhandled
  rejections, or was handled while it was pending; no ticks, microtasks, pending rejections or late handlers are left.  No
  earlier call was left by a throw.\<close>

theorem rejections_settled:
  assumes "tq_run env True st" "runNextTicks env k st = Some (Inr (), st')"
  shows "(\<forall>p n. Rejected p n \<in> set (tlog st') \<longrightarrow> settled p st') \<and> waiting_ticks st' = [] \<and> microtasks st' = [] \<and>
    pendingUnhandledRejections st' = [] \<and> asyncHandledRejections st' = []"
proof -
  have run: "tq_run env True st'" using tq_run.run_ticks [OF assms] by simp
  have d: "drained st'" "microtasks st' = []" using next_drained [OF assms] by auto
  then have "waiting_ticks st' = []" using fq_empty [of "queue st'"] run_tick_ok [OF run] by (simp add: drained_def tick_ok_def waiting_ticks_def)
  moreover have "Rejected p n \<in> set (tlog st') \<Longrightarrow> settled p st'" for p n
    using run_rej_ok [OF run] d(1) unfolding rej_ok_def accounted_def drained_def by auto
  ultimately show ?thesis using d by (auto simp: drained_def)
qed

theorem rejections_settled_witness:
  "\<exists>st st'. tq_run demo_env True st \<and> runNextTicks demo_env 4 st = Some (Inr (), st') \<and> Rejected 1 1 \<in> set (tlog st') \<and> settled 1 st'"
proof -
  let ?st = "snd (exec_tq False (demo_rejections 9) tq_init)"
  have "map_option (\<lambda>(r, st). (r, Rejected 1 1 \<in> set (tlog st))) (runNextTicks demo_env 4 ?st) = Some (Inr (), True)" by code_simp
  then obtain st' where st': "runNextTicks demo_env 4 ?st = Some (Inr (), st')" "Rejected 1 1 \<in> set (tlog st')"
    by (cases "runNextTicks demo_env 4 ?st") auto
  then show ?thesis using rejections_settled [OF demo_exec_reachable st'(1)] demo_exec_reachable by blast
qed

text \<open>C29: No rejection is reported twice, whatever listeners do and throw.\<close>

theorem rejection_reported_once:
  assumes "tq_run env quiet st"
  shows "distinct (reported (tlog st))"
  using run_rej_ok [OF assms] by (simp add: rej_ok_def once_reported_iff)

theorem rejection_reported_once_witness:
  "\<exists>st. tq_run demo_env False st \<and> length (reported (tlog st)) = 2 \<and> distinct (reported (tlog st))"
proof -
  obtain st where st: "demo_run (demo_rejections 9) = Some (Inr (), st)" "reported (tlog st) = [2, 1]" by (rule demo_settled_run)
  have "tq_run demo_env False st" using demo_run_reachable [OF st(1)] by simp
  then show ?thesis using rejection_reported_once st(2) by (metis length_Cons list.size(3) numeral_2_eq_2)
qed

definition ticking_env :: tq_env where
  "ticking_env = demo_env\<lparr>fn_body := (\<lambda>f l args. if f = 1 then TNextTick (Some 2) [] (\<lambda>_. TReturn) else TReturn)\<rparr>"

definition ticking_weight :: "nat \<Rightarrow> nat" where
  "ticking_weight f = (if f = 1 then 2 else 1)"

theorem processTicks_terminates_witness:
  "light ticking_env ticking_weight \<and> plain (push_tick False (TFunction 1) [] tq_init) \<and>
   load ticking_weight (push_tick False (TFunction 1) [] tq_init) < 3 \<and>
   (\<exists>r st'. processTicksAndRejections ticking_env 3 (push_tick False (TFunction 1) [] tq_init) = Some (r, st'))"
proof -
  have "light ticking_env ticking_weight" by (simp add: light_def ticking_env_def ticking_weight_def)
  moreover have "plain tq_init" "load ticking_weight tq_init = 0" by (simp_all add: plain_def load_def tq_init_def fq_new)
  then have "plain (push_tick False (TFunction 1) [] tq_init)" "load ticking_weight (push_tick False (TFunction 1) [] tq_init) < 3"
    using push_load [of tq_init False 1 "[]" ticking_weight] by (auto simp: ticking_weight_def)
  ultimately show ?thesis using processTicks_terminates [of ticking_env ticking_weight "push_tick False (TFunction 1) [] tq_init" 3] by blast
qed

end
