(* ===== verification/Immediates.thy ===== *)
theory Immediates
  imports JsPrelude
begin

text \<open>
  \<open>setImmediate\<close>, \<open>clearImmediate\<close> and \<open>processImmediate\<close> (\<open>libjs-node/internal/timers.js\<close> and \<open>timers.js\<close>).  An
  immediate is an object in a store with its links; \<open>immediateQueue\<close> and \<open>outstandingQueue\<close> hold the ends of two chains of them, of the
  latter only the head is used.  Functions are numbers, what one does is a tree of actions given by the environment, as is
  what the ticks between two immediates do.  Async hooks and context frames are left out.  The counters are integers without bounds; the array behind them has 32 bits, which differ
  from them only with \<open>2^32\<close> immediates alive at once.
\<close>

section \<open>State\<close>

text \<open>\<open>irefed\<close> is the property \<open>kRefed\<close>: true, false or null.\<close>

record immediate =
  idleNext :: "nat option"
  idlePrev :: "nat option"
  onImmediate :: "nat option"
  iargv :: "nat list"
  destroyed :: bool
  irefed :: "bool option"

text \<open>The log, newest first, holds what was made, run and cleared.\<close>

datatype ilog_entry = IMade nat nat "nat list" | IRan nat nat "nat list" | ICleared nat

datatype ierror = IUser nat | IInvalidArg | ITypeError

record imm_state =
  imms :: "nat \<rightharpoonup> immediate"
  nextImm :: nat
  qHead :: "nat option"
  qTail :: "nat option"
  outHead :: "nat option"
  kCount :: int
  kRefCount :: int
  kHasOutstanding :: bool
  immediateRef :: bool
  ilog :: "ilog_entry list"

definition imm_init :: imm_state where
  "imm_init = \<lparr>imms = Map.empty, nextImm = 0, qHead = None, qTail = None, outHead = None, kCount = 0, kRefCount = 0,
     kHasOutstanding = False, immediateRef = False, ilog = []\<rparr>"

definition upd_imm :: "nat \<Rightarrow> (immediate \<Rightarrow> immediate) \<Rightarrow> imm_state \<Rightarrow> imm_state" where
  "upd_imm i f st = st\<lparr>imms := (imms st)(i := map_option f (imms st i))\<rparr>"

definition set_next :: "nat \<Rightarrow> nat option \<Rightarrow> imm_state \<Rightarrow> imm_state" where
  "set_next i v st = upd_imm i (\<lambda>x. x\<lparr>idleNext := v\<rparr>) st"

definition set_prev :: "nat \<Rightarrow> nat option \<Rightarrow> imm_state \<Rightarrow> imm_state" where
  "set_prev i v st = upd_imm i (\<lambda>x. x\<lparr>idlePrev := v\<rparr>) st"

definition next_of :: "imm_state \<Rightarrow> nat \<Rightarrow> nat option" where
  "next_of st i = (case imms st i of Some x \<Rightarrow> idleNext x | None \<Rightarrow> None)"

definition prev_of :: "imm_state \<Rightarrow> nat \<Rightarrow> nat option" where
  "prev_of st i = (case imms st i of Some x \<Rightarrow> idlePrev x | None \<Rightarrow> None)"

section \<open>ImmediateList\<close>

definition il_append :: "nat \<Rightarrow> imm_state \<Rightarrow> imm_state" where
  "il_append item st =
     (let st = (case qTail st of
                  Some tail \<Rightarrow> set_prev item (Some tail) (set_next tail (Some item) st)
                | None \<Rightarrow> st\<lparr>qHead := Some item\<rparr>)
      in st\<lparr>qTail := Some item\<rparr>)"

definition il_remove :: "nat \<Rightarrow> imm_state \<Rightarrow> imm_state" where
  "il_remove item st =
     (let n = next_of st item; p = prev_of st item;
          st = (case n of Some m \<Rightarrow> set_prev m p st | None \<Rightarrow> st);
          st = (case p of Some m \<Rightarrow> set_next m (next_of st item) st | None \<Rightarrow> st);
          st = (if Some item = qHead st then st\<lparr>qHead := next_of st item\<rparr> else st);
          st = (if Some item = qTail st then st\<lparr>qTail := prev_of st item\<rparr> else st)
      in set_prev item None (set_next item None st))"

section \<open>Immediate\<close>

definition imm_ref :: "nat \<Rightarrow> imm_state \<Rightarrow> imm_state" where
  "imm_ref i st =
     (case imms st i of
        None \<Rightarrow> st
      | Some x \<Rightarrow>
          if irefed x = Some False then
            (let st' = upd_imm i (\<lambda>x. x\<lparr>irefed := Some True\<rparr>) st
             in st'\<lparr>kRefCount := kRefCount st + 1, immediateRef := (immediateRef st \<or> kRefCount st = 0)\<rparr>)
          else st)"

definition imm_unref :: "nat \<Rightarrow> imm_state \<Rightarrow> imm_state" where
  "imm_unref i st =
     (case imms st i of
        None \<Rightarrow> st
      | Some x \<Rightarrow>
          if irefed x = Some True then
            (let st' = upd_imm i (\<lambda>x. x\<lparr>irefed := Some False\<rparr>) st
             in st'\<lparr>kRefCount := kRefCount st - 1, immediateRef := (immediateRef st \<and> kRefCount st \<noteq> 1)\<rparr>)
          else st)"

definition imm_hasRef :: "nat \<Rightarrow> imm_state \<Rightarrow> bool" where
  "imm_hasRef i st = (case imms st i of Some x \<Rightarrow> irefed x = Some True | None \<Rightarrow> False)"

definition new_Immediate :: "nat \<Rightarrow> nat list \<Rightarrow> imm_state \<Rightarrow> nat \<times> imm_state" where
  "new_Immediate f args st =
     (let i = nextImm st;
          st = st\<lparr>nextImm := i + 1, imms := (imms st)(i \<mapsto>
            \<lparr>idleNext = None, idlePrev = None, onImmediate = Some f, iargv = args, destroyed = False, irefed = Some False\<rparr>)\<rparr>;
          st = imm_ref i st;
          st = st\<lparr>kCount := kCount st + 1, ilog := IMade i f args # ilog st\<rparr>
      in (i, il_append i st))"

definition setImmediate :: "nat option \<Rightarrow> nat list \<Rightarrow> imm_state \<Rightarrow> (ierror + nat) \<times> imm_state" where
  "setImmediate callback args st =
     (case callback of
        None \<Rightarrow> (Inl IInvalidArg, st)
      | Some f \<Rightarrow> (case new_Immediate f args st of (i, st) \<Rightarrow> (Inr i, st)))"

definition clearImmediate :: "nat \<Rightarrow> imm_state \<Rightarrow> imm_state" where
  "clearImmediate i st =
     (case imms st i of
        None \<Rightarrow> st
      | Some x \<Rightarrow>
          if onImmediate x = None \<or> destroyed x then st
          else
            (let st = st\<lparr>kCount := kCount st - 1, ilog := ICleared i # ilog st\<rparr>;
                 st = upd_imm i (\<lambda>x. x\<lparr>destroyed := True\<rparr>) st;
                 st = (if irefed x = Some True
                       then st\<lparr>kRefCount := kRefCount st - 1, immediateRef := (immediateRef st \<and> kRefCount st \<noteq> 1)\<rparr> else st);
                 st = upd_imm i (\<lambda>x. x\<lparr>irefed := None, onImmediate := None\<rparr>) st
             in il_remove i st))"

section \<open>What a function does\<close>

datatype iprog =
    IReturn
  | IThrow ierror
  | ISet "nat option" "nat list" "ierror + nat \<Rightarrow> iprog"
  | IClear nat iprog
  | IRef nat iprog
  | IUnref nat iprog
  | IHasRef nat "bool \<Rightarrow> iprog"

primrec exec_imm :: "iprog \<Rightarrow> imm_state \<Rightarrow> (ierror + unit) \<times> imm_state" where
  "exec_imm IReturn st = (Inr (), st)"
| "exec_imm (IThrow e) st = (Inl e, st)"
| "exec_imm (ISet f args k) st = (case setImmediate f args st of (r, st) \<Rightarrow> exec_imm (k r) st)"
| "exec_imm (IClear i k) st = exec_imm k (clearImmediate i st)"
| "exec_imm (IRef i k) st = exec_imm k (imm_ref i st)"
| "exec_imm (IUnref i k) st = exec_imm k (imm_unref i st)"
| "exec_imm (IHasRef i k) st = exec_imm (k (imm_hasRef i st)) st"

text \<open>The environment: what a function does, by its number, the history and the arguments, and what the ticks do.\<close>

record imm_env =
  imm_body :: "nat \<Rightarrow> ilog_entry list \<Rightarrow> nat list \<Rightarrow> iprog"
  imm_ticks :: "ilog_entry list \<Rightarrow> iprog"

section \<open>processImmediate\<close>

definition imm_runNextTicks :: "imm_env \<Rightarrow> imm_state \<Rightarrow> (ierror + unit) \<times> imm_state" where
  "imm_runNextTicks env st = exec_imm (imm_ticks env (ilog st)) st"

text \<open>Running one immediate, with the \<open>finally\<close> that moves on to the next.\<close>

definition run_immediate :: "imm_env \<Rightarrow> nat \<Rightarrow> immediate \<Rightarrow> imm_state \<Rightarrow> (ierror + unit) \<times> imm_state" where
  "run_immediate env i x st =
     (let st = upd_imm i (\<lambda>x. x\<lparr>destroyed := True\<rparr>) st;
          st = st\<lparr>kCount := kCount st - 1, kRefCount := (if irefed x = Some True then kRefCount st - 1 else kRefCount st)\<rparr>;
          st = upd_imm i (\<lambda>x. x\<lparr>irefed := None\<rparr>) st
      in case (case onImmediate x of
                 None \<Rightarrow> (Inl ITypeError, st)
               | Some f \<Rightarrow> exec_imm (imm_body env f (ilog st) (iargv x)) (st\<lparr>ilog := IRan i f (iargv x) # ilog st\<rparr>)) of
           (r, st) \<Rightarrow>
             (let st = upd_imm i (\<lambda>x. x\<lparr>onImmediate := None\<rparr>) st
              in (r, st\<lparr>outHead := next_of st i\<rparr>)))"

primrec immediate_loop :: "imm_env \<Rightarrow> nat \<Rightarrow> nat option \<Rightarrow> nat option \<Rightarrow> bool \<Rightarrow> imm_state \<Rightarrow> ((ierror + unit) \<times> imm_state) option" where
  "immediate_loop env 0 immediate prevImmediate ranAtLeastOne st = None"
| "immediate_loop env (Suc k) immediate prevImmediate ranAtLeastOne st =
     (case immediate of
        None \<Rightarrow> Some (Inr (), st)
      | Some i \<Rightarrow>
          (case (if ranAtLeastOne then imm_runNextTicks env st else (Inr (), st)) of
             (Inl e, st) \<Rightarrow> Some (Inl e, st)
           | (Inr _, st) \<Rightarrow>
               (case imms st i of
                  None \<Rightarrow> Some (Inl ITypeError, st)
                | Some x \<Rightarrow>
                    if destroyed x then
                      (case prevImmediate of
                         None \<Rightarrow> Some (Inl ITypeError, st)
                       | Some p \<Rightarrow> immediate_loop env k (next_of st p) prevImmediate True (st\<lparr>outHead := next_of st p\<rparr>))
                    else
                      (case run_immediate env i x st of
                         (Inl e, st) \<Rightarrow> Some (Inl e, st)
                       | (Inr _, st) \<Rightarrow> immediate_loop env k (outHead st) (Some i) True st))))"

definition processImmediate :: "imm_env \<Rightarrow> nat \<Rightarrow> imm_state \<Rightarrow> ((ierror + unit) \<times> imm_state) option" where
  "processImmediate env k st =
     (let outstanding = outHead st \<noteq> None;
          immediate = (if outstanding then outHead st else qHead st);
          st = (if outstanding then st else st\<lparr>qHead := None, qTail := None, kHasOutstanding := True\<rparr>)
      in case immediate_loop env k immediate None False st of
           None \<Rightarrow> None
         | Some (Inl e, st) \<Rightarrow> Some (Inl e, st)
         | Some (Inr _, st) \<Rightarrow> Some (Inr (), st\<lparr>outHead := (if outstanding then None else outHead st), kHasOutstanding := False\<rparr>))"

end
