(* ===== verification/ImmediatesProps.thy ===== *)
theory ImmediatesProps
  imports Immediates
begin

text \<open>
  The chains of immediates as lists: \<open>xs\<close> is what \<open>immediateQueue\<close> holds, \<open>ys\<close> what is left of the batch that runs, after its
  predecessor \<open>p\<close>, the immediate that ran last.
\<close>

section \<open>Chains\<close>

fun seg :: "(nat \<Rightarrow> nat option) \<Rightarrow> (nat \<Rightarrow> nat option) \<Rightarrow> nat option \<Rightarrow> nat list \<Rightarrow> bool" where
  "seg nx pv p [] \<longleftrightarrow> (case p of None \<Rightarrow> True | Some a \<Rightarrow> nx a = None)"
| "seg nx pv p (x # xs) \<longleftrightarrow> (case p of None \<Rightarrow> True | Some a \<Rightarrow> nx a = Some x) \<and> pv x = p \<and> seg nx pv (Some x) xs"

definition nodes :: "nat option \<Rightarrow> nat list \<Rightarrow> nat list" where
  "nodes p xs = (case p of None \<Rightarrow> xs | Some a \<Rightarrow> a # xs)"

lemma nodes_simps [simp]: "nodes None xs = xs" "nodes (Some a) xs = a # xs"
  by (simp_all add: nodes_def)

lemma seg_cong: "(\<And>a. a \<in> set (nodes p xs) \<Longrightarrow> nx' a = nx a) \<Longrightarrow> (\<And>a. a \<in> set xs \<Longrightarrow> pv' a = pv a) \<Longrightarrow> seg nx' pv' p xs = seg nx pv p xs"
proof (induction xs arbitrary: p)
  case Nil then show ?case by (cases p) auto
next
  case (Cons x xs)
  have "seg nx' pv' (Some x) xs = seg nx pv (Some x) xs" by (rule Cons.IH) (use Cons.prems in \<open>cases p; auto\<close>)+
  then show ?case using Cons.prems by (cases p) auto
qed

text \<open>The links after an element was appended or taken out.\<close>

lemma seg_append:
  assumes "seg nx pv p xs" "x \<notin> set (nodes p xs)" "distinct (nodes p xs)"
    and "\<And>a. a \<in> set (nodes p xs) \<Longrightarrow> nx' a = (if a = last (nodes p xs) then Some x else nx a)" "nx' x = None"
    and "\<And>a. a \<in> set xs \<Longrightarrow> pv' a = pv a" "pv' x = (if nodes p xs = [] then None else Some (last (nodes p xs)))"
  shows "seg nx' pv' p (xs @ [x])"
  using assms
proof (induction xs arbitrary: p)
  case Nil then show ?case by (cases p) auto
next
  case (Cons y ys)
  have l: "last (nodes p (y # ys)) = last (y # ys)" by (cases p) auto
  have "seg nx' pv' (Some y) (ys @ [x])"
    by (rule Cons.IH) (use Cons.prems l in \<open>cases p; simp\<close>)+
  moreover have "case p of None \<Rightarrow> True | Some a \<Rightarrow> nx' a = Some y"
    using Cons.prems l by (cases p) (auto split: if_splits)
  ultimately show ?case using Cons.prems by simp
qed

lemma seg_remove:
  assumes "seg nx pv p (us @ x # vs)" "distinct (nodes p (us @ x # vs))"
    and nx': "\<And>a. a \<noteq> x \<Longrightarrow> nx' a = (if Some a = pv x then nx x else nx a)"
    and pv': "\<And>a. a \<noteq> x \<Longrightarrow> pv' a = (if Some a = nx x then pv x else pv a)"
  shows "seg nx' pv' p (us @ vs)"
  using assms(1,2)
proof (induction us arbitrary: p)
  case Nil
  have pvx: "pv x = p" and s: "seg nx pv (Some x) vs" using Nil.prems(1) by auto
  show ?case
  proof (cases vs)
    case Nil': Nil
    then have "nx x = None" using s by simp
    then show ?thesis using nx' pvx Nil' Nil.prems(2) by (cases p) auto
  next
    case (Cons v ws)
    have nxx: "nx x = Some v" and sv: "seg nx pv (Some v) ws" using s Cons by auto
    have d: "distinct (nodes p (x # v # ws))" using Nil.prems(2) Cons by simp
    have "seg nx' pv' (Some v) ws = seg nx pv (Some v) ws"
    proof (rule seg_cong)
      fix a assume "a \<in> set (nodes (Some v) ws)"
      then have "a \<noteq> x" "Some a \<noteq> p" using d by (cases p; auto)+
      then show "nx' a = nx a" using nx' pvx by simp
    next
      fix a assume "a \<in> set ws"
      then have "a \<noteq> x" "Some a \<noteq> nx x" using d nxx by (cases p; auto)+
      then show "pv' a = pv a" using pv' by simp
    qed
    moreover have "pv' v = p" using pv' [of v] nxx pvx d by (cases p) auto
    moreover have "case p of None \<Rightarrow> True | Some a \<Rightarrow> nx' a = Some v" using nx' pvx nxx d by (cases p) auto
    ultimately show ?thesis using sv Cons by simp
  qed
next
  case (Cons u us)
  have d: "distinct (nodes p (u # us @ x # vs))" using Cons.prems(2) by simp
  have "seg nx' pv' (Some u) (us @ vs)" using Cons.IH [of "Some u"] Cons.prems by (cases p) auto
  moreover have pu: "pv u = p" "case p of None \<Rightarrow> True | Some a \<Rightarrow> nx a = Some u" using Cons.prems(1) by auto
  have sx: "seg nx pv (Some u) (us @ x # vs)" using Cons.prems(1) by simp
  have "\<exists>b. pv x = Some b \<and> b \<in> set (u # us)"
    using sx by (induction us arbitrary: u) auto
  then obtain b where b: "pv x = Some b" "b \<in> set (u # us)" by blast
  have "case p of None \<Rightarrow> True | Some a \<Rightarrow> nx' a = Some u"
    using pu(2) nx' b d by (cases p) auto
  moreover have "nx x \<noteq> Some u"
  proof -
    have "seg nx pv (Some x) vs" using sx by (induction us arbitrary: u) auto
    then have "nx x = None \<or> (\<exists>v \<in> set vs. nx x = Some v)" by (cases vs) auto
    then show ?thesis using d by (cases p) auto
  qed
  then have "pv' u = p" using pv' [of u] pu(1) d by (cases p) auto
  ultimately show ?case by simp
qed

lemma seg_next: "seg nx pv p (us @ x # vs) \<Longrightarrow> nx x = (case vs of [] \<Rightarrow> None | v # _ \<Rightarrow> Some v)"
proof (induction us arbitrary: p)
  case Nil then show ?case by (cases vs) auto
next
  case (Cons u us) then show ?case using Cons.IH [of "Some u"] by simp
qed

lemma seg_prev: "seg nx pv p (us @ x # vs) \<Longrightarrow> pv x = (if nodes p us = [] then None else Some (last (nodes p us)))"
proof (induction us arbitrary: p)
  case Nil then show ?case by (cases p) auto
next
  case (Cons u us)
  then have "pv x = Some (last (u # us))" using Cons.IH [of "Some u"] by simp
  then show ?case by (cases p) auto
qed

section \<open>Reading the log\<close>

text \<open>What was run and made, oldest first.\<close>

definition ran_ids :: "ilog_entry list \<Rightarrow> nat list" where
  "ran_ids l = List.map_filter (\<lambda>e. case e of IRan i f args \<Rightarrow> Some i | _ \<Rightarrow> None) (rev l)"

definition made_ids :: "ilog_entry list \<Rightarrow> nat list" where
  "made_ids l = List.map_filter (\<lambda>e. case e of IMade i f args \<Rightarrow> Some i | _ \<Rightarrow> None) (rev l)"

definition uncleared :: "ilog_entry list \<Rightarrow> nat \<Rightarrow> bool" where
  "uncleared l i \<longleftrightarrow> ICleared i \<notin> set l"

lemma map_filter_app: "List.map_filter f (xs @ ys) = List.map_filter f xs @ List.map_filter f ys"
  by (simp add: List.map_filter_def)

lemma ids_simps [simp]:
  "ran_ids [] = []" "made_ids [] = []" "ran_ids (l @ m) = ran_ids m @ ran_ids l" "made_ids (l @ m) = made_ids m @ made_ids l"
  "ran_ids (IRan i f args # l) = ran_ids l @ [i]" "ran_ids (IMade i f args # l) = ran_ids l" "ran_ids (ICleared i # l) = ran_ids l"
  "made_ids (IRan i f args # l) = made_ids l" "made_ids (IMade i f args # l) = made_ids l @ [i]" "made_ids (ICleared i # l) = made_ids l"
  by (simp_all add: ran_ids_def made_ids_def map_filter_app map_filter_simps)

lemma uncleared_simps [simp]:
  "uncleared (IRan i f args # l) = uncleared l" "uncleared (IMade i f args # l) = uncleared l"
  "uncleared (ICleared i # l) j \<longleftrightarrow> j \<noteq> i \<and> uncleared l j" "uncleared (l @ m) j \<longleftrightarrow> uncleared l j \<and> uncleared m j"
  by (auto simp: uncleared_def fun_eq_iff)

lemma ran_ids_set: "i \<in> set (ran_ids l) \<longleftrightarrow> (\<exists>f args. IRan i f args \<in> set l)"
proof (induction l)
  case (Cons e l) then show ?case by (cases e) auto
qed simp

lemma made_ids_set: "i \<in> set (made_ids l) \<longleftrightarrow> (\<exists>f args. IMade i f args \<in> set l)"
proof (induction l)
  case (Cons e l) then show ?case by (cases e) auto
qed simp

text \<open>What was made, and neither run nor cleared, oldest first.\<close>

definition pending_ids :: "ilog_entry list \<Rightarrow> nat list" where
  "pending_ids l = filter (\<lambda>i. uncleared l i \<and> i \<notin> set (ran_ids l)) (made_ids l)"

lemma pending_simps [simp]:
  "pending_ids (IRan i f args # l) = filter (\<lambda>j. j \<noteq> i) (pending_ids l)" "pending_ids (ICleared i # l) = filter (\<lambda>j. j \<noteq> i) (pending_ids l)"
  "uncleared l i \<Longrightarrow> i \<notin> set (ran_ids l) \<Longrightarrow> pending_ids (IMade i f args # l) = pending_ids l @ [i]"
  by (auto simp: pending_ids_def intro: filter_cong)

section \<open>The store\<close>

text \<open>What the links do not touch.\<close>

definition attr :: "imm_state \<Rightarrow> nat \<Rightarrow> (bool \<times> nat option \<times> bool option \<times> nat list) option" where
  "attr st i = map_option (\<lambda>x. (destroyed x, onImmediate x, irefed x, iargv x)) (imms st i)"

definition rest where
  "rest st = (nextImm st, outHead st, kCount st, kRefCount st, kHasOutstanding st, immediateRef st, ilog st)"

lemma set_links [simp]:
  "attr (set_next i v st) = attr st" "attr (set_prev i v st) = attr st" "rest (set_next i v st) = rest st" "rest (set_prev i v st) = rest st"
  "qHead (set_next i v st) = qHead st" "qHead (set_prev i v st) = qHead st" "qTail (set_next i v st) = qTail st" "qTail (set_prev i v st) = qTail st"
  "prev_of (set_next i v st) = prev_of st" "next_of (set_prev i v st) = next_of st"
  "next_of (set_next i v st) = (next_of st)(i := if imms st i = None then None else v)"
  "prev_of (set_prev i v st) = (prev_of st)(i := if imms st i = None then None else v)"
  "imms (set_next i v st) j = None \<longleftrightarrow> imms st j = None" "imms (set_prev i v st) j = None \<longleftrightarrow> imms st j = None"
  by (auto simp: set_next_def set_prev_def upd_imm_def attr_def rest_def next_of_def prev_of_def fun_eq_iff option.map_comp comp_def
      split: option.split)

lemma ends_upd [simp]:
  "attr (st\<lparr>qHead := h\<rparr>) = attr st" "attr (st\<lparr>qTail := t\<rparr>) = attr st" "rest (st\<lparr>qHead := h\<rparr>) = rest st" "rest (st\<lparr>qTail := t\<rparr>) = rest st"
  "next_of (st\<lparr>qHead := h\<rparr>) = next_of st" "next_of (st\<lparr>qTail := t\<rparr>) = next_of st"
  "prev_of (st\<lparr>qHead := h\<rparr>) = prev_of st" "prev_of (st\<lparr>qTail := t\<rparr>) = prev_of st"
  by (auto simp: attr_def rest_def next_of_def prev_of_def fun_eq_iff)

lemma il_append_links:
  assumes "imms st x \<noteq> None" "\<And>t. qTail st = Some t \<Longrightarrow> imms st t \<noteq> None \<and> t \<noteq> x"
  shows "attr (il_append x st) = attr st" "rest (il_append x st) = rest st"
    "qHead (il_append x st) = (if qTail st = None then Some x else qHead st)" "qTail (il_append x st) = Some x"
    "next_of (il_append x st) = (case qTail st of Some t \<Rightarrow> (next_of st)(t := Some x) | None \<Rightarrow> next_of st)"
    "prev_of (il_append x st) = (case qTail st of Some t \<Rightarrow> (prev_of st)(x := Some t) | None \<Rightarrow> prev_of st)"
  using assms by (auto simp: il_append_def Let_def split: option.split)

lemma il_remove_links:
  assumes x: "imms st x \<noteq> None" and n: "\<And>m. next_of st x = Some m \<Longrightarrow> imms st m \<noteq> None \<and> m \<noteq> x"
    and p: "\<And>m. prev_of st x = Some m \<Longrightarrow> imms st m \<noteq> None \<and> m \<noteq> x"
  shows "attr (il_remove x st) = attr st" "rest (il_remove x st) = rest st"
    "qHead (il_remove x st) = (if qHead st = Some x then next_of st x else qHead st)"
    "qTail (il_remove x st) = (if qTail st = Some x then prev_of st x else qTail st)"
    "a \<noteq> x \<Longrightarrow> next_of (il_remove x st) a = (if Some a = prev_of st x then next_of st x else next_of st a)"
    "a \<noteq> x \<Longrightarrow> prev_of (il_remove x st) a = (if Some a = next_of st x then prev_of st x else prev_of st a)"
  using assms by (auto simp: il_remove_def Let_def split: option.split)

text \<open>The invariant: the counters, and the two chains.\<close>

definition live :: "imm_state \<Rightarrow> nat set" where
  "live st = {i. \<exists>f b args. attr st i = Some (False, f, b, args)}"

definition refed :: "imm_state \<Rightarrow> nat set" where
  "refed st = {i. \<exists>d f args. attr st i = Some (d, f, Some True, args)}"

definition past :: "imm_state \<Rightarrow> nat set" where
  "past st = {i. ICleared i \<in> set (ilog st)} \<union> {i. \<exists>f args. IRan i f args \<in> set (ilog st)}"

definition counted :: "imm_state \<Rightarrow> bool" where
  "counted st \<longleftrightarrow>
     (\<forall>i. attr st i = None \<longleftrightarrow> nextImm st \<le> i) \<and>
     (\<forall>i d f b args. attr st i = Some (d, f, b, args) \<longrightarrow> (if d then b = None else f \<noteq> None \<and> b \<noteq> None)) \<and>
     (\<forall>i d f b args. attr st i = Some (d, Some f, b, args) \<longrightarrow> IMade i f args \<in> set (ilog st)) \<and>
     (\<forall>i f args. IRan i f args \<in> set (ilog st) \<longrightarrow> IMade i f args \<in> set (ilog st)) \<and>
     (\<forall>i f args. IRan i f args \<in> set (ilog st) \<longrightarrow> ICleared i \<notin> set (ilog st)) \<and>
     distinct (ran_ids (ilog st)) \<and> past st \<subseteq> {..<nextImm st} - live st \<and> kCount st = int (card (live st)) \<and> kRefCount st = int (card (refed st))"

definition linked :: "nat option \<Rightarrow> nat list \<Rightarrow> nat list \<Rightarrow> imm_state \<Rightarrow> bool" where
  "linked p ys xs st \<longleftrightarrow>
     seg (next_of st) (prev_of st) None xs \<and> seg (next_of st) (prev_of st) p ys \<and> distinct (nodes p ys @ xs) \<and>
     qHead st = (if xs = [] then None else Some (hd xs)) \<and> qTail st = (if xs = [] then None else Some (last xs)) \<and>
     (\<forall>i \<in> set (nodes p ys @ xs). imms st i \<noteq> None)"

definition imm_inv :: "nat option \<Rightarrow> nat list \<Rightarrow> nat list \<Rightarrow> imm_state \<Rightarrow> bool" where
  "imm_inv p ys xs st \<longleftrightarrow> counted st \<and> linked p ys xs st \<and> live st = set (ys @ xs) \<and> pending_ids (ilog st) = ys @ xs"

lemma attr_none: "attr st i = None \<longleftrightarrow> imms st i = None"
  by (simp add: attr_def)

lemma counted_cong: "attr st' = attr st \<Longrightarrow> rest st' = rest st \<Longrightarrow> counted st' = counted st"
  by (simp add: counted_def live_def refed_def past_def rest_def)

lemma live_finite: "counted st \<Longrightarrow> finite (live st)" "counted st \<Longrightarrow> finite (refed st)"
proof -
  assume "counted st"
  then have "attr st i \<noteq> None \<Longrightarrow> i < nextImm st" for i unfolding counted_def by (metis not_le)
  then have "live st \<subseteq> {..<nextImm st}" "refed st \<subseteq> {..<nextImm st}" by (force simp: live_def refed_def)+
  then show "finite (live st)" "finite (refed st)" using finite_subset by blast+
qed

lemma linked_cong:
  "next_of st' = next_of st \<Longrightarrow> prev_of st' = prev_of st \<Longrightarrow> qHead st' = qHead st \<Longrightarrow> qTail st' = qTail st \<Longrightarrow>
   (\<And>i. imms st i \<noteq> None \<Longrightarrow> imms st' i \<noteq> None) \<Longrightarrow> linked p ys xs st \<Longrightarrow> linked p ys xs st'"
  unfolding linked_def by (simp del: not_None_eq)

lemma imms_known: "attr st' = attr st \<Longrightarrow> imms st' i = None \<longleftrightarrow> imms st i = None"
  using attr_none by metis

text \<open>Adding an immediate, and taking one out.\<close>

lemma append_linked:
  assumes l: "linked p ys xs st" and x: "imms st x \<noteq> None" "x \<notin> set (nodes p ys @ xs)" "next_of st x = None" "prev_of st x = None"
  shows "linked p ys (xs @ [x]) (il_append x st)"
proof -
  have t: "qTail st = Some t \<Longrightarrow> xs \<noteq> [] \<and> t = last xs" "qTail st = None \<longleftrightarrow> xs = []" for t using l by (auto simp: linked_def split: if_splits)
  have tail: "imms st t \<noteq> None \<and> t \<noteq> x" if "qTail st = Some t" for t
    using t(1) [OF that] l x(2) unfolding linked_def by (metis UnI2 last_in_set set_append)
  note a = il_append_links [OF x(1) tail]
  have d: "distinct (nodes p ys @ xs)" using l by (simp add: linked_def)
  have nx: "next_of (il_append x st) b = (if xs \<noteq> [] \<and> b = last xs then Some x else next_of st b)" for b
    using a(5) t by (cases "qTail st") auto
  have pv: "prev_of (il_append x st) b = (if xs \<noteq> [] \<and> b = x then Some (last xs) else prev_of st b)" for b
    using a(6) t by (cases "qTail st") auto
  have "seg (next_of (il_append x st)) (prev_of (il_append x st)) None (xs @ [x])"
    by (rule seg_append [of "next_of st" "prev_of st"]) (use l x d nx pv in \<open>auto simp: linked_def\<close>)
  moreover have "seg (next_of (il_append x st)) (prev_of (il_append x st)) p ys = seg (next_of st) (prev_of st) p ys"
  proof (rule seg_cong)
    show "next_of (il_append x st) b = next_of st b" if "b \<in> set (nodes p ys)" for b
      using that d nx last_in_set [of xs] by auto
    show "prev_of (il_append x st) b = prev_of st b" if "b \<in> set ys" for b
      using that x(2) pv by (cases p) auto
  qed
  ultimately show ?thesis using l x a(3,4) t(2) imms_known [OF a(1)] unfolding linked_def by (cases p) (auto simp del: not_None_eq)
qed

lemma remove_seg:
  assumes l: "linked p ys xs st" and s: "seg (next_of st) (prev_of st) q zs" "x \<in> set zs" "set (nodes q zs) \<subseteq> set (nodes p ys @ xs)" "distinct (nodes q zs)"
  shows "imms st x \<noteq> None" "\<And>m. next_of st x = Some m \<Longrightarrow> m \<in> set (nodes q zs) \<and> imms st m \<noteq> None \<and> m \<noteq> x"
    "\<And>m. prev_of st x = Some m \<Longrightarrow> m \<in> set (nodes q zs) \<and> imms st m \<noteq> None \<and> m \<noteq> x"
proof -
  obtain us vs where zs: "zs = us @ x # vs" using s(2) by (metis split_list)
  have k: "m \<in> set (nodes q zs) \<Longrightarrow> imms st m \<noteq> None" for m using l s(3) unfolding linked_def by blast
  then show "imms st x \<noteq> None" using zs by (cases q) auto
  show "m \<in> set (nodes q zs) \<and> imms st m \<noteq> None \<and> m \<noteq> x" if "next_of st x = Some m" for m
  proof -
    have "m \<in> set vs" using seg_next [OF s(1) [unfolded zs]] that by (auto split: list.splits)
    then have "m \<in> set (nodes q zs)" "m \<noteq> x" using s(4) zs by (cases q; auto)+
    then show ?thesis using k by blast
  qed
  show "m \<in> set (nodes q zs) \<and> imms st m \<noteq> None \<and> m \<noteq> x" if "prev_of st x = Some m" for m
  proof -
    have "m \<in> set (nodes q us)" using seg_prev [OF s(1) [unfolded zs]] that by (auto split: if_splits)
    then have "m \<in> set (nodes q zs)" "m \<noteq> x" using s(4) zs by (cases q; auto)+
    then show ?thesis using k by blast
  qed
qed

lemma remove_linked:
  assumes l: "linked p ys xs st" and x: "x \<in> set (ys @ xs)"
  shows "linked p (remove1 x ys) (remove1 x xs) (il_remove x st)" "attr (il_remove x st) = attr st" "rest (il_remove x st) = rest st"
proof -
  have d: "distinct (nodes p ys @ xs)" and sx: "seg (next_of st) (prev_of st) None xs" and sy: "seg (next_of st) (prev_of st) p ys"
    using l by (auto simp: linked_def)
  obtain q zs where z: "seg (next_of st) (prev_of st) q zs" "x \<in> set zs" "set (nodes q zs) \<subseteq> set (nodes p ys @ xs)" "distinct (nodes q zs)"
      "q = None \<and> zs = xs \<and> x \<notin> set (nodes p ys) \<or> q = p \<and> zs = ys \<and> x \<notin> set xs"
  proof (cases "x \<in> set xs")
    case True then show ?thesis using that [of None xs] sx d by auto
  next
    case False then show ?thesis using that [of p ys] sy d x by auto
  qed
  note m = remove_seg [OF l z(1-4)]
  have mn: "imms st m \<noteq> None \<and> m \<noteq> x" if "next_of st x = Some m" for m using m(2) [OF that] by blast
  have mp: "imms st m \<noteq> None \<and> m \<noteq> x" if "prev_of st x = Some m" for m using m(3) [OF that] by blast
  note a = il_remove_links [OF m(1) mn mp]
  show "attr (il_remove x st) = attr st" "rest (il_remove x st) = rest st" using a(1,2) by simp_all
  obtain us vs where zs: "zs = us @ x # vs" using z(2) by (metis split_list)
  have r: "remove1 x zs = us @ vs" using z(4) zs by (cases q) (auto simp: remove1_append)
  have seg': "seg (next_of (il_remove x st)) (prev_of (il_remove x st)) q (remove1 x zs)"
    unfolding r by (rule seg_remove [of "next_of st" "prev_of st"]) (use z zs a(5,6) in auto)
  have other: "seg (next_of (il_remove x st)) (prev_of (il_remove x st)) q' zs' = seg (next_of st) (prev_of st) q' zs'"
    if "set (nodes q zs) \<inter> set (nodes q' zs') = {}" "x \<notin> set (nodes q' zs')" for q' zs'
  proof (rule seg_cong)
    fix b assume b: "b \<in> set (nodes q' zs')"
    then have "b \<noteq> x" "prev_of st x \<noteq> Some b" using that m(3) by auto
    then show "next_of (il_remove x st) b = next_of st b" using a(5) by auto
  next
    fix b assume "b \<in> set zs'"
    then have "b \<in> set (nodes q' zs')" by (cases q') auto
    then have "b \<noteq> x" "next_of st x \<noteq> Some b" using that m(2) by auto
    then show "prev_of (il_remove x st) b = prev_of st b" using a(6) by auto
  qed
  have k: "imms (il_remove x st) i = None \<longleftrightarrow> imms st i = None" for i using imms_known [OF a(1)] .
  have dd: "distinct (nodes p (remove1 x ys) @ remove1 x xs)"
    using d set_remove1_subset [of x ys] set_remove1_subset [of x xs] by (cases p) auto
  have kk: "\<forall>i \<in> set (nodes p (remove1 x ys) @ remove1 x xs). imms (il_remove x st) i \<noteq> None"
    using l k set_remove1_subset [of x ys] set_remove1_subset [of x xs] unfolding linked_def by (cases p) (auto simp del: not_None_eq)
  show "linked p (remove1 x ys) (remove1 x xs) (il_remove x st)" using z(5)
  proof
    assume c: "q = None \<and> zs = xs \<and> x \<notin> set (nodes p ys)"
    have nx: "next_of st x = (case vs of [] \<Rightarrow> None | v # _ \<Rightarrow> Some v)" and pv: "prev_of st x = (if us = [] then None else Some (last us))"
      using seg_next [OF z(1) [unfolded zs]] seg_prev [OF z(1) [unfolded zs]] c by auto
    have "seg (next_of (il_remove x st)) (prev_of (il_remove x st)) p ys" using other [of p ys] sy d c by auto
    moreover have "remove1 x ys = ys" using c by (cases p) (auto simp: remove1_idem)
    moreover have "qHead (il_remove x st) = (if us @ vs = [] then None else Some (hd (us @ vs)))"
      using a(3) l c zs nx d by (cases us; cases vs) (auto simp: linked_def)
    moreover have "qTail (il_remove x st) = (if us @ vs = [] then None else Some (last (us @ vs)))"
      using a(4) l c zs pv d by (cases vs rule: rev_cases; cases us) (auto simp: linked_def)
    ultimately show ?thesis using c seg' r dd kk unfolding linked_def by simp
  next
    assume c: "q = p \<and> zs = ys \<and> x \<notin> set xs"
    have "seg (next_of (il_remove x st)) (prev_of (il_remove x st)) None xs" using other [of None xs] sx d c by auto
    moreover have "remove1 x xs = xs" using c by (simp add: remove1_idem)
    moreover have "qHead st \<noteq> Some x" "qTail st \<noteq> Some x" using l c by (auto simp: linked_def split: if_splits)
    ultimately show ?thesis using l c seg' a(3,4) dd kk unfolding linked_def by simp
  qed
qed

section \<open>What the operations keep\<close>

lemma upd_links [simp]:
  assumes "\<And>x. idleNext (g x) = idleNext x" "\<And>x. idlePrev (g x) = idlePrev x"
  shows "next_of (upd_imm i g st) = next_of st" "prev_of (upd_imm i g st) = prev_of st"
  using assms by (auto simp: upd_imm_def next_of_def prev_of_def fun_eq_iff split: option.split)

lemma upd_fields [simp]:
  "rest (upd_imm i g st) = rest st" "qHead (upd_imm i g st) = qHead st" "qTail (upd_imm i g st) = qTail st"
  "imms (upd_imm i g st) j = None \<longleftrightarrow> imms st j = None"
  by (auto simp: upd_imm_def rest_def)

text \<open>A state whose links are the same and whose attributes differ at \<open>i\<close> only.\<close>

lemma linked_same:
  assumes "imm_inv p ys xs st" "next_of st' = next_of st" "prev_of st' = prev_of st" "qHead st' = qHead st" "qTail st' = qTail st"
    "\<And>j. imms st' j = None \<longleftrightarrow> imms st j = None"
  shows "linked p ys xs st'"
  using assms linked_cong [of st' st p ys xs] by (simp add: imm_inv_def)

lemma counted_attr: "counted st \<Longrightarrow> attr st i = Some (d, f, b, args) \<Longrightarrow> if d then b = None else f \<noteq> None \<and> b \<noteq> None"
  unfolding counted_def by blast

lemma counted_made: "counted st \<Longrightarrow> attr st i = Some (d, Some f, b, args) \<Longrightarrow> IMade i f args \<in> set (ilog st)"
  unfolding counted_def by blast

lemma counted_ran: "counted st \<Longrightarrow> IRan i f args \<in> set (ilog st) \<Longrightarrow> IMade i f args \<in> set (ilog st)"
  unfolding counted_def by blast

lemma counted_apart: "counted st \<Longrightarrow> IRan i f args \<in> set (ilog st) \<Longrightarrow> ICleared i \<notin> set (ilog st)"
  unfolding counted_def by blast

lemma counted_live: "counted st \<Longrightarrow> i \<in> live st \<Longrightarrow> ICleared i \<notin> set (ilog st) \<and> IRan i f args \<notin> set (ilog st) \<and> i \<notin> set (ran_ids (ilog st))"
  unfolding counted_def past_def ran_ids_set by blast

lemma counted_once: "counted st \<Longrightarrow> distinct (ran_ids (ilog st))"
  unfolding counted_def by blast

lemma counted_upd:
  assumes c: "counted st" and at: "attr st i = Some (d, f, b, args)" "attr st' = (attr st)(i := Some (d', f', b', args))"
    and ok: "if d' then b' = None else f' \<noteq> None \<and> b' \<noteq> None" "d \<Longrightarrow> d'" "f' = f \<or> f' = None"
    and lg: "set (ilog st) \<subseteq> set (ilog st')" "\<And>j g as. IRan j g as \<in> set (ilog st') \<Longrightarrow> IRan j g as \<in> set (ilog st) \<or> IMade j g as \<in> set (ilog st)"
      "\<And>j g as. IRan j g as \<in> set (ilog st') \<Longrightarrow> ICleared j \<notin> set (ilog st')" "distinct (ran_ids (ilog st'))"
    and st': "nextImm st' = nextImm st" "past st' \<subseteq> past st \<union> (if d' then {i} else {})"
      "kCount st' = kCount st - (if d' \<and> \<not> d then 1 else 0)"
      "kRefCount st' = kRefCount st + of_bool (b' = Some True) - of_bool (b = Some True)"
  shows "counted st' \<and> live st' = live st - (if d' then {i} else {})"
proof -
  have lv: "live st' = live st - (if d' then {i} else {})" using at ok(2) by (auto simp: live_def)
  have li: "i \<in> live st \<longleftrightarrow> \<not> d" using at(1) by (simp add: live_def)
  have rf: "refed st' = (if b' = Some True then insert i (refed st) else refed st - {i})" "i \<in> refed st \<longleftrightarrow> b = Some True"
    using at by (auto simp: refed_def)
  have "kCount st' = int (card (live st'))"
    using c st'(3) lv li live_finite(1) [OF c] ok(2) card_gt_0_iff [of "live st"] by (auto simp: counted_def card_Diff_singleton_if)
  moreover have "kRefCount st' = int (card (refed st'))"
    using c st'(4) rf live_finite(2) [OF c] card_gt_0_iff [of "refed st"]
    by (auto simp: counted_def card_Diff_singleton_if insert_absorb)
  moreover have "i < nextImm st" using c at(1) unfolding counted_def by (metis not_le option.distinct(1))
  then have "past st' \<subseteq> {..<nextImm st'} - live st'" using c st'(1,2) lv unfolding counted_def by (auto split: if_splits)
  moreover have "attr st' j = None \<longleftrightarrow> nextImm st' \<le> j" for j using c at st'(1) unfolding counted_def by (metis fun_upd_apply option.distinct(1))
  moreover have "attr st' j = Some (d2, f2, b2, a2) \<Longrightarrow> if d2 then b2 = None else f2 \<noteq> None \<and> b2 \<noteq> None" for j d2 f2 b2 a2
    using counted_attr [OF c, of j d2 f2 b2 a2] at(2) ok(1) by (cases "j = i") auto
  moreover have "attr st' j = Some (d2, Some f2, b2, a2) \<Longrightarrow> IMade j f2 a2 \<in> set (ilog st')" for j d2 f2 b2 a2
    using counted_made [OF c, of j] at ok(3) lg(1) by (cases "j = i") auto
  moreover have "IRan j g as \<in> set (ilog st') \<Longrightarrow> IMade j g as \<in> set (ilog st')" for j g as
    using lg(1,2) counted_ran [OF c, of j g as] by blast
  ultimately show ?thesis using lv lg(3,4) unfolding counted_def by blast
qed

lemma attr_upd: "imms st i = Some x \<Longrightarrow> attr (upd_imm i g st) = (attr st)(i := Some (destroyed (g x), onImmediate (g x), irefed (g x), iargv (g x)))"
  by (auto simp: attr_def upd_imm_def)

lemma refed_change:
  fixes b b' r :: bool
  assumes inv: "imm_inv p ys xs st" and x: "imms st i = Some x" "irefed x = Some b"
  defines "s \<equiv> (upd_imm i (\<lambda>x. x\<lparr>irefed := Some b'\<rparr>) st)\<lparr>kRefCount := kRefCount st + of_bool b' - of_bool b, immediateRef := r\<rparr>"
  shows "imm_inv p ys xs s \<and> outHead s = outHead st \<and> ilog s = ilog st"
proof -
  have at: "attr st i = Some (destroyed x, onImmediate x, Some b, iargv x)" using x by (simp add: attr_def)
  then have d: "\<not> destroyed x" "onImmediate x \<noteq> None" using counted_attr [of st i] inv by (auto simp: imm_inv_def split: if_splits)
  have at': "attr s = (attr st)(i := Some (destroyed x, onImmediate x, Some b', iargv x))"
    using attr_upd [OF x(1), of "\<lambda>x. x\<lparr>irefed := Some b'\<rparr>"] by (simp add: s_def attr_def fun_eq_iff)
  have rs: "nextImm s = nextImm st" "kCount s = kCount st" "ilog s = ilog st" "outHead s = outHead st" by (simp_all add: s_def upd_imm_def)
  have "counted s \<and> live s = live st - (if destroyed x then {i} else {})"
    by (rule counted_upd [OF _ at at']) (use inv d rs counted_apart [of st] counted_once [of st] in \<open>auto simp: imm_inv_def s_def past_def\<close>)
  moreover have "linked p ys xs s"
    by (rule linked_same [OF inv]) (auto simp: s_def next_of_def prev_of_def upd_imm_def fun_eq_iff split: option.split)
  ultimately show ?thesis using inv d(1) rs by (simp add: imm_inv_def)
qed

lemma ref_inv: "imm_inv p ys xs st \<Longrightarrow> imm_inv p ys xs (imm_ref i st) \<and> outHead (imm_ref i st) = outHead st \<and> ilog (imm_ref i st) = ilog st"
  using refed_change [where p = p and ys = ys and xs = xs and st = st and i = i and b = False and b' = True and
      r = "immediateRef st \<or> kRefCount st = 0"] by (auto simp: imm_ref_def Let_def split: option.split)

lemma unref_inv: "imm_inv p ys xs st \<Longrightarrow> imm_inv p ys xs (imm_unref i st) \<and> outHead (imm_unref i st) = outHead st \<and> ilog (imm_unref i st) = ilog st"
  using refed_change [where p = p and ys = ys and xs = xs and st = st and i = i and b = True and b' = False and
      r = "immediateRef st \<and> kRefCount st \<noteq> 1"] by (auto simp: imm_unref_def Let_def split: option.split)

lemma new_inv:
  assumes inv: "imm_inv p ys xs st" and n: "new_Immediate f args st = (i, st')"
  shows "imm_inv p ys (xs @ [i]) st' \<and> outHead st' = outHead st \<and> ilog st' = IMade i f args # ilog st"
proof -
  define x where "x = \<lparr>idleNext = None, idlePrev = None, onImmediate = Some f, iargv = args, destroyed = False, irefed = Some True\<rparr>"
  define s where "s = st\<lparr>nextImm := i + 1, imms := (imms st)(i \<mapsto> x), kRefCount := kRefCount st + 1,
     immediateRef := (immediateRef st \<or> kRefCount st = 0), kCount := kCount st + 1, ilog := IMade i f args # ilog st\<rparr>"
  have i: "i = nextImm st" and st': "st' = il_append i s"
    using n by (auto simp: new_Immediate_def Let_def imm_ref_def upd_imm_def s_def x_def)
  have fresh: "imms st i = None" "attr st i = None" using inv unfolding imm_inv_def counted_def i by (auto simp: attr_none)
  have c: "counted st" and l: "linked p ys xs st" and lv: "live st = set (ys @ xs)" using inv by (auto simp: imm_inv_def)
  have at: "attr s = (attr st)(i \<mapsto> (False, Some f, Some True, args))" by (auto simp: s_def attr_def x_def)
  have ls: "live s = insert i (live st)" "refed s = insert i (refed st)" "i \<notin> live st" "i \<notin> refed st"
    using fresh by (auto simp: live_def refed_def at)
  have "attr s j = None \<longleftrightarrow> nextImm s \<le> j" for j
    using c fresh(2) unfolding at counted_def i by (auto simp: s_def i)
  moreover have "attr s j = Some (d, f', b, a) \<Longrightarrow> if d then b = None else f' \<noteq> None \<and> b \<noteq> None" for j d f' b a
    using counted_attr [OF c, of j d f' b a] unfolding at by (cases "j = i") auto
  moreover have "attr s j = Some (d, Some f', b, a) \<Longrightarrow> IMade j f' a \<in> set (ilog s)" for j d f' b a
    using counted_made [OF c, of j] unfolding at by (cases "j = i") (auto simp: s_def)
  moreover have "IRan j g a \<in> set (ilog s) \<Longrightarrow> IMade j g a \<in> set (ilog s)" for j g a
    using counted_ran [OF c, of j g a] by (simp add: s_def)
  moreover have "IRan j g a \<in> set (ilog s) \<Longrightarrow> ICleared j \<notin> set (ilog s)" for j g a
    using counted_apart [OF c, of j g a] by (simp add: s_def)
  moreover have "past s = past st" "past st \<subseteq> {..<nextImm st} - live st" using c by (simp_all add: past_def s_def counted_def)
  then have "past s \<subseteq> {..<nextImm s} - live s" unfolding ls by (auto simp: s_def i)
  moreover have "kCount s = int (card (live s))" "kRefCount s = int (card (refed s))"
    using c live_finite [OF c] unfolding ls(1,2) counted_def by (simp_all add: ls(3,4) s_def)
  moreover have "distinct (ran_ids (ilog s))" using counted_once [OF c] by (simp add: s_def)
  ultimately have cs: "counted s" unfolding counted_def by blast
  have nx: "next_of s j = (if j = i then None else next_of st j)" "prev_of s j = (if j = i then None else prev_of st j)" for j
    by (auto simp: next_of_def prev_of_def s_def x_def)
  then have "next_of s = next_of st" "prev_of s = prev_of st" using fresh(1) by (auto simp: fun_eq_iff next_of_def prev_of_def)
  then have ks: "linked p ys xs s" by (rule linked_cong [OF _ _ _ _ _ l]) (auto simp: s_def)
  moreover have ni: "i \<notin> set (nodes p ys @ xs)" using l fresh(1) unfolding linked_def by blast
  ultimately have "linked p ys (xs @ [i]) st'" unfolding st' using nx by (intro append_linked) (auto simp: s_def)
  moreover have t: "imms s t \<noteq> None \<and> t \<noteq> i" if "qTail s = Some t" for t
    using that ks ni last_in_set [of xs] unfolding linked_def by (auto simp del: not_None_eq split: if_splits)
  have r: "attr st' = attr s" "rest st' = rest s"
    unfolding st' by (rule il_append_links [OF _ t]; simp add: s_def)+
  moreover have "i \<notin> past st" using c unfolding counted_def i by auto
  then have pend: "pending_ids (IMade i f args # ilog st) = pending_ids (ilog st) @ [i]"
    by (intro pending_simps(3)) (auto simp: past_def uncleared_def ran_ids_set)
  ultimately show ?thesis using cs counted_cong [OF r] ls(1) lv r(2) inv
    pend by (auto simp: imm_inv_def live_def r(1) rest_def s_def)
qed

lemma clear_inv:
  assumes inv: "imm_inv p ys xs st"
  shows "imm_inv p (remove1 i ys) (remove1 i xs) (clearImmediate i st) \<and> outHead (clearImmediate i st) = outHead st \<and>
    ilog (clearImmediate i st) = (if i \<in> live st then ICleared i # ilog st else ilog st)"
proof (cases "i \<in> live st")
  case False
  then have "clearImmediate i st = st" by (auto simp: live_def attr_def clearImmediate_def split: option.split)
  moreover have "i \<notin> set ys" "i \<notin> set xs" using False inv by (auto simp: imm_inv_def)
  ultimately show ?thesis using False inv by (simp add: remove1_idem)
next
  case True
  then obtain x where x: "imms st i = Some x" "\<not> destroyed x" by (auto simp: live_def attr_def)
  have at: "attr st i = Some (False, onImmediate x, irefed x, iargv x)" using x by (simp add: attr_def)
  then have f: "onImmediate x \<noteq> None" using counted_attr [of st i] inv by (auto simp: imm_inv_def)
  define t where "t = immediateRef (clearImmediate i st)"
  define s where "s = (upd_imm i (\<lambda>x. x\<lparr>irefed := None, onImmediate := None, destroyed := True\<rparr>) st)
    \<lparr>kCount := kCount st - 1, kRefCount := kRefCount st - of_bool (irefed x = Some True), ilog := ICleared i # ilog st, immediateRef := t\<rparr>"
  have rm: "immediateRef (il_remove j s') = immediateRef s'" for j s'
    by (auto simp: il_remove_def set_next_def set_prev_def upd_imm_def Let_def split: option.split)
  have cl: "clearImmediate i st = il_remove i s"
    unfolding s_def t_def using x f by (auto simp: clearImmediate_def upd_imm_def rm Let_def
        intro!: arg_cong [of _ _ "il_remove i"] imm_state.equality immediate.equality)
  have at': "attr s = (attr st)(i := Some (True, None, None, iargv x))"
    using attr_upd [OF x(1), of "\<lambda>x. x\<lparr>irefed := None, onImmediate := None, destroyed := True\<rparr>"] by (simp add: s_def attr_def fun_eq_iff)
  have rs: "nextImm s = nextImm st" "ilog s = ICleared i # ilog st" "outHead s = outHead st" by (simp_all add: s_def upd_imm_def)
  have c: "counted s \<and> live s = live st - (if True then {i} else {})"
    by (rule counted_upd [OF _ at at']) (use inv rs counted_apart [of st] counted_live [OF _ True] counted_once [of st] in \<open>auto simp: imm_inv_def s_def past_def\<close>)
  have "linked p ys xs s"
    by (rule linked_same [OF inv]) (auto simp: s_def next_of_def prev_of_def upd_imm_def fun_eq_iff split: option.split)
  moreover have "i \<in> set (ys @ xs)" using True inv by (simp add: imm_inv_def)
  ultimately have r: "linked p (remove1 i ys) (remove1 i xs) (il_remove i s)" "attr (il_remove i s) = attr s" "rest (il_remove i s) = rest s"
    using remove_linked by blast+
  have "distinct (ys @ xs)" using inv by (cases p) (auto simp: imm_inv_def linked_def)
  then have "live s = set (remove1 i ys @ remove1 i xs)" "pending_ids (ilog s) = remove1 i ys @ remove1 i xs"
    using c inv by (auto simp: imm_inv_def rs(2) distinct_remove1_removeAll removeAll_filter_not_eq intro!: arg_cong2 [of _ _ _ _ "(@)"] filter_cong)
  then show ?thesis using True c r counted_cong [OF r(2,3)] rs unfolding cl by (simp add: imm_inv_def live_def rest_def)
qed

end
