(* ===== verification/ImmediatesRun.thy ===== *)
theory ImmediatesRun
  imports ImmediatesProps
begin

text \<open>
  What a run of \<open>processImmediate\<close> does: the immediates of the batch that are not cleared before their turn run once each, in the order they
  were made, with their functions and arguments; what is made meanwhile waits for the next batch.
\<close>

section \<open>What a function does to the queues\<close>

lemma live_uncleared: "imm_inv p ys xs st \<Longrightarrow> i \<in> set (ys @ xs) \<Longrightarrow> uncleared (ilog st) i"
  unfolding imm_inv_def counted_def past_def uncleared_def by blast

lemma filter_uncleared: "imm_inv p ys xs st \<Longrightarrow> filter (uncleared (ilog st)) ys = ys \<and> filter (uncleared (ilog st)) xs = xs"
  using live_uncleared by (simp add: filter_id_conv)

lemma filter_later: "filter (uncleared (l @ m)) (filter (uncleared m) xs) = filter (uncleared (l @ m)) xs"
  by (auto intro: filter_cong)

text \<open>A stretch of the run in which nothing of the batch runs: \<open>st\<close> leads to \<open>st'\<close> with the log grown by \<open>l\<close>.\<close>

definition quiet :: "nat option \<Rightarrow> nat list \<Rightarrow> nat list \<Rightarrow> imm_state \<Rightarrow> imm_state \<Rightarrow> ilog_entry list \<Rightarrow> bool" where
  "quiet p ys xs st st' l \<longleftrightarrow>
     ilog st' = l @ ilog st \<and> ran_ids l = [] \<and> outHead st' = outHead st \<and>
     imm_inv p (filter (uncleared (ilog st')) ys) (filter (uncleared (ilog st')) (xs @ made_ids l)) st'"

lemma imm_quiet_refl: "imm_inv p ys xs st \<Longrightarrow> quiet p ys xs st st []"
  using filter_uncleared by (simp add: quiet_def)

lemma imm_quiet_trans:
  assumes "quiet p ys xs st st1 l1" "quiet p (filter (uncleared (ilog st1)) ys) (filter (uncleared (ilog st1)) (xs @ made_ids l1)) st1 st2 l2"
  shows "quiet p ys xs st st2 (l2 @ l1)"
proof -
  have "ilog st2 = l2 @ ilog st1" using assms(2) by (simp add: quiet_def)
  then have f: "filter (uncleared (ilog st2)) (filter (uncleared (ilog st1)) zs) = filter (uncleared (ilog st2)) zs" for zs
    using filter_later by simp
  have "imm_inv p (filter (uncleared (ilog st2)) ys) (filter (uncleared (ilog st2)) (xs @ made_ids (l2 @ l1))) st2"
    using assms(2) unfolding quiet_def filter_append f by auto
  then show ?thesis using assms by (auto simp: quiet_def)
qed

lemma quiet_step:
  assumes "quiet p ys xs st st1 l1" "\<And>ys xs. imm_inv p ys xs st1 \<Longrightarrow> \<exists>l. quiet p ys xs st1 st2 l"
  shows "\<exists>l. quiet p ys xs st st2 l"
  using assms(1) assms(2) imm_quiet_trans [OF assms(1)] unfolding quiet_def [of p ys xs st st1] by blast

lemma quiet_same:
  assumes "imm_inv p ys xs st" "imm_inv p ys xs st' \<and> outHead st' = outHead st \<and> ilog st' = ilog st"
  shows "quiet p ys xs st st' []"
  using assms filter_uncleared [of p ys xs st'] by (simp add: quiet_def)

lemma quiet_clear:
  assumes inv: "imm_inv p ys xs st"
  shows "\<exists>l. quiet p ys xs st (clearImmediate i st) l"
proof (cases "i \<in> live st")
  case True
  have d: "distinct ys" "distinct xs" using inv by (cases p; auto simp: imm_inv_def linked_def)+
  have f: "filter (uncleared (ICleared i # ilog st)) zs = remove1 i zs" if "set zs \<subseteq> set (ys @ xs)" "distinct zs" for zs
  proof -
    have "remove1 i zs = filter (\<lambda>j. j \<noteq> i) zs" using that(2) by (auto simp: distinct_remove1_removeAll removeAll_filter_not_eq intro: filter_cong)
    also have "\<dots> = filter (uncleared (ICleared i # ilog st)) zs" by (rule filter_cong) (use that(1) live_uncleared [OF inv] in auto)
    finally show ?thesis ..
  qed
  have "quiet p ys xs st (clearImmediate i st) [ICleared i]"
    using clear_inv [OF inv, of i] True f [of ys] f [of xs] d by (simp add: quiet_def)
  then show ?thesis by blast
next
  case False
  then have "i \<notin> set ys" "i \<notin> set xs" using inv by (auto simp: imm_inv_def)
  then show ?thesis using quiet_same [OF inv, of "clearImmediate i st"] clear_inv [OF inv, of i] False by (auto simp: remove1_idem)
qed

lemma quiet_set:
  assumes inv: "imm_inv p ys xs st" and s: "setImmediate g args st = (r, st')"
  shows "\<exists>l. quiet p ys xs st st' l"
proof (cases g)
  case None then show ?thesis using s imm_quiet_refl [OF inv] by (auto simp: setImmediate_def)
next
  case (Some f)
  then obtain i where n: "new_Immediate f args st = (i, st')" using s by (auto simp: setImmediate_def split: prod.splits)
  have "quiet p ys xs st st' [IMade i f args]"
    using new_inv [OF inv n] filter_uncleared [of p ys "xs @ [i]" st'] by (simp add: quiet_def)
  then show ?thesis by blast
qed

lemma exec_quiet:
  assumes "imm_inv p ys xs st" "exec_imm pr st = (r, st')"
  shows "\<exists>l. quiet p ys xs st st' l"
  using assms
proof (induction pr arbitrary: ys xs st)
  case (ISet g args k)
  obtain r1 st1 where s: "setImmediate g args st = (r1, st1)" by fastforce
  obtain l1 where l1: "quiet p ys xs st st1 l1" using quiet_set [OF ISet.prems(1) s] by blast
  have "exec_imm (k r1) st1 = (r, st')" using ISet.prems(2) s by simp
  then show ?case by (intro quiet_step [OF l1] ISet.IH [OF rangeI [of k r1]])
next
  case (IClear i k)
  obtain l1 where l1: "quiet p ys xs st (clearImmediate i st) l1" using quiet_clear [OF IClear.prems(1)] by blast
  show ?case by (rule quiet_step [OF l1]) (use IClear in simp)
next
  case (IRef i k)
  show ?case by (rule quiet_step [OF quiet_same [OF IRef.prems(1) ref_inv [OF IRef.prems(1)], of i]]) (use IRef in simp)
next
  case (IUnref i k)
  show ?case by (rule quiet_step [OF quiet_same [OF IUnref.prems(1) unref_inv [OF IUnref.prems(1)], of i]]) (use IUnref in simp)
qed (use imm_quiet_refl in \<open>force+\<close>)

section \<open>Running one immediate\<close>

definition hdo :: "'a list \<Rightarrow> 'a option" where
  "hdo xs = (case xs of [] \<Rightarrow> None | x # _ \<Rightarrow> Some x)"

lemma hdo_simps [simp]: "hdo [] = None" "hdo (x # xs) = Some x" "hdo xs = None \<longleftrightarrow> xs = []"
  by (auto simp: hdo_def split: list.split)

lemma seg_hdo: "seg nx pv (Some i) ys \<Longrightarrow> nx i = hdo ys"
  by (cases ys) auto

lemma begin_inv:
  assumes inv: "imm_inv p (i # ys) xs st" and x: "imms st i = Some x" "onImmediate x = Some f"
    and s: "s = (upd_imm i (\<lambda>x. x\<lparr>destroyed := True, irefed := None\<rparr>) st)\<lparr>kCount := kCount st - 1,
      kRefCount := kRefCount st - of_bool (irefed x = Some True), ilog := IRan i f (iargv x) # ilog st\<rparr>"
  shows "imm_inv (Some i) ys xs s"
proof -
  have lv: "i \<in> live st" using inv by (simp add: imm_inv_def)
  then have at: "attr st i = Some (False, Some f, irefed x, iargv x)" using x by (auto simp: live_def attr_def)
  have at': "attr s = (attr st)(i := Some (True, Some f, None, iargv x))"
    using attr_upd [OF x(1), of "\<lambda>x. x\<lparr>destroyed := True, irefed := None\<rparr>"] x(2) by (simp add: s attr_def fun_eq_iff)
  have c: "counted st" using inv by (simp add: imm_inv_def)
  have "counted s \<and> live s = live st - (if True then {i} else {})"
    by (rule counted_upd [OF c at at']) (use counted_made [OF c at] counted_apart [OF c] counted_live [OF c lv] counted_once [OF c] in \<open>auto simp: s past_def upd_imm_def\<close>)
  moreover have "linked p (i # ys) xs s"
    by (rule linked_same [OF inv]) (auto simp: s next_of_def prev_of_def upd_imm_def fun_eq_iff split: option.split)
  then have "linked (Some i) ys xs s" unfolding linked_def by (cases p) auto
  moreover have d: "distinct (i # ys @ xs)" using inv by (cases p) (simp_all add: imm_inv_def linked_def)
  then have "filter (\<lambda>j. j \<noteq> i) (ys @ xs) = ys @ xs" by (intro filter_True) auto
  then have "pending_ids (ilog s) = ys @ xs" using inv by (simp add: s imm_inv_def)
  ultimately show ?thesis using inv d by (auto simp: imm_inv_def)
qed

lemma finish_inv:
  assumes inv: "imm_inv (Some i) ys xs st" and s: "s = (upd_imm i (\<lambda>x. x\<lparr>onImmediate := None\<rparr>) st)\<lparr>outHead := h\<rparr>"
  shows "imm_inv (Some i) ys xs s"
proof -
  have c: "counted st" and l: "linked (Some i) ys xs st" using inv by (auto simp: imm_inv_def)
  obtain x where x: "imms st i = Some x" using l by (auto simp: linked_def)
  have "i \<notin> live st" using inv by (auto simp: imm_inv_def linked_def)
  then have "destroyed x" using x by (auto simp: live_def attr_def)
  then have at: "attr st i = Some (True, onImmediate x, None, iargv x)" using x counted_attr [OF c, of i] by (auto simp: attr_def)
  have at': "attr s = (attr st)(i := Some (True, None, None, iargv x))"
    using attr_upd [OF x, of "\<lambda>x. x\<lparr>onImmediate := None\<rparr>"] at x by (simp add: s attr_def fun_eq_iff)
  have "counted s \<and> live s = live st - (if True then {i} else {})"
    by (rule counted_upd [OF c at at']) (use counted_apart [OF c] counted_once [OF c] in \<open>auto simp: s past_def upd_imm_def\<close>)
  moreover have "linked (Some i) ys xs s"
    by (rule linked_same [OF inv]) (auto simp: s next_of_def prev_of_def upd_imm_def fun_eq_iff split: option.split)
  ultimately show ?thesis using inv \<open>i \<notin> live st\<close> by (simp add: imm_inv_def s upd_imm_def)
qed

lemma run_immediate_inv:
  assumes inv: "imm_inv p (i # ys) xs st" and x: "imms st i = Some x" and run: "run_immediate env i x st = (r, st')"
  shows "\<exists>l f. ilog st' = l @ IRan i f (iargv x) # ilog st \<and> ran_ids l = [] \<and> outHead st' = hdo (filter (uncleared (ilog st')) ys) \<and>
    imm_inv (Some i) (filter (uncleared (ilog st')) ys) (filter (uncleared (ilog st')) (xs @ made_ids l)) st'"
proof -
  have "i \<in> live st" and c: "counted st" using inv by (auto simp: imm_inv_def)
  then obtain f where f: "onImmediate x = Some f" using x counted_attr [OF c, of i] by (auto simp: live_def attr_def)
  define s where "s = (upd_imm i (\<lambda>x. x\<lparr>destroyed := True, irefed := None\<rparr>) st)\<lparr>kCount := kCount st - 1,
      kRefCount := kRefCount st - of_bool (irefed x = Some True), ilog := IRan i f (iargv x) # ilog st\<rparr>"
  have si: "imm_inv (Some i) ys xs s" using begin_inv [OF inv x f s_def] .
  obtain r1 st1 where e: "exec_imm (imm_body env f (ilog st) (iargv x)) s = (r1, st1)" by fastforce
  have st': "r1 = r" "st' = (upd_imm i (\<lambda>x. x\<lparr>onImmediate := None\<rparr>) st1)\<lparr>outHead := next_of st1 i\<rparr>"
  proof -
    define s0 where "s0 = (let st = upd_imm i (\<lambda>x. x\<lparr>destroyed := True\<rparr>) st;
      st = st\<lparr>kCount := kCount st - 1, kRefCount := (if irefed x = Some True then kRefCount st - 1 else kRefCount st)\<rparr>
      in upd_imm i (\<lambda>x. x\<lparr>irefed := None\<rparr>) st)"
    have "s0\<lparr>ilog := IRan i f (iargv x) # ilog s0\<rparr> = s" "ilog s0 = ilog st"
      using x unfolding s_def s0_def by (auto simp: upd_imm_def Let_def intro!: imm_state.equality)
    then have "run_immediate env i x st = (case (r1, st1) of (r, st) \<Rightarrow> (let st = upd_imm i (\<lambda>x. x\<lparr>onImmediate := None\<rparr>) st
              in (r, st\<lparr>outHead := next_of st i\<rparr>)))"
      unfolding e [symmetric] by (simp add: run_immediate_def Let_def f s0_def)
    then show "r1 = r" "st' = (upd_imm i (\<lambda>x. x\<lparr>onImmediate := None\<rparr>) st1)\<lparr>outHead := next_of st1 i\<rparr>"
      using run by (auto simp: Let_def)
  qed
  obtain l where l: "quiet (Some i) ys xs s st1 l" using exec_quiet [OF si e] by blast
  have lg: "ilog st' = ilog st1" by (simp add: st' upd_imm_def)
  have "next_of st1 i = hdo (filter (uncleared (ilog st1)) ys)" using l by (intro seg_hdo) (auto simp: quiet_def imm_inv_def linked_def)
  then have "outHead st' = hdo (filter (uncleared (ilog st')) ys)" using lg by (simp add: st')
  moreover have "ilog st' = l @ IRan i f (iargv x) # ilog st" "ran_ids l = []" using l lg by (simp_all add: quiet_def s_def)
  moreover have "imm_inv (Some i) (filter (uncleared (ilog st')) ys) (filter (uncleared (ilog st')) (xs @ made_ids l)) st'"
    using l unfolding lg quiet_def by (intro finish_inv [OF _ st'(2)]) blast
  ultimately show ?thesis by blast
qed

section \<open>Running a batch\<close>

definition batch :: "nat list \<Rightarrow> nat list \<Rightarrow> imm_state \<Rightarrow> ierror + unit \<Rightarrow> imm_state \<Rightarrow> ilog_entry list \<Rightarrow> bool" where
  "batch ys xs st r st' l \<longleftrightarrow>
     ilog st' = l @ ilog st \<and>
     (\<exists>p ys'. filter (uncleared (ilog st')) ys = ran_ids l @ ys' \<and> imm_inv p ys' (filter (uncleared (ilog st')) (xs @ made_ids l)) st' \<and>
        (case r of
           Inr _ \<Rightarrow> ys' = [] \<and> outHead st' = None
         | Inl e \<Rightarrow> outHead st' = hdo ys' \<or> (\<exists>i. outHead st' = Some i \<and> \<not> uncleared (ilog st') i)))"

lemma batch_quiet:
  assumes q: "quiet p ys xs st st1 l1" and b: "batch (filter (uncleared (ilog st1)) ys) (filter (uncleared (ilog st1)) (xs @ made_ids l1)) s1 r st' l" "ilog s1 = ilog st1"
  shows "batch ys xs st r st' (l @ l1)"
proof -
  have "ilog st' = l @ ilog st1" using b by (simp add: batch_def)
  then have f: "filter (uncleared (ilog st')) (filter (uncleared (ilog st1)) zs) = filter (uncleared (ilog st')) zs" for zs
    using filter_later by simp
  have "ran_ids (l @ l1) = ran_ids l" using q by (simp add: quiet_def)
  then show ?thesis using b q unfolding batch_def f filter_append by (auto simp: quiet_def)
qed

lemma batch_run:
  assumes lg: "ilog st2 = l2 @ IRan i f args # ilog st1" "ran_ids l2 = []"
    and b: "batch (filter (uncleared (ilog st2)) ys) (filter (uncleared (ilog st2)) (xs @ made_ids l2)) st2 r st' l"
  shows "batch (i # ys) xs st1 r st' (l @ l2 @ [IRan i f args])"
proof -
  have lg': "ilog st' = l @ ilog st2" using b by (simp add: batch_def)
  then have fl: "filter (uncleared (ilog st')) (filter (uncleared (ilog st2)) zs) = filter (uncleared (ilog st')) zs" for zs
    using filter_later by simp
  obtain p ys' where p: "filter (uncleared (ilog st')) (filter (uncleared (ilog st2)) ys) = ran_ids l @ ys'"
      "imm_inv p ys' (filter (uncleared (ilog st')) (filter (uncleared (ilog st2)) (xs @ made_ids l2) @ made_ids l)) st'"
      "case r of Inr _ \<Rightarrow> ys' = [] \<and> outHead st' = None
         | Inl e \<Rightarrow> outHead st' = hdo ys' \<or> (\<exists>i. outHead st' = Some i \<and> \<not> uncleared (ilog st') i)"
    using b unfolding batch_def by blast
  have "IRan i f args \<in> set (ilog st')" using lg lg' by simp
  then have u: "uncleared (ilog st') i" using p(2) counted_apart [of st' i] by (auto simp: imm_inv_def uncleared_def)
  have "filter (uncleared (ilog st')) (i # ys) = ran_ids (l @ l2 @ [IRan i f args]) @ ys'" using p(1) u lg(2) unfolding fl by simp
  moreover have "imm_inv p ys' (filter (uncleared (ilog st')) (xs @ made_ids (l @ l2 @ [IRan i f args]))) st'"
    using p(2) unfolding filter_append fl by simp
  moreover have "ilog st' = (l @ l2 @ [IRan i f args]) @ ilog st1" using lg lg' by simp
  ultimately show ?thesis using p(3) unfolding batch_def by blast
qed

lemma inv_outHead: "imm_inv p ys xs (st\<lparr>outHead := h\<rparr>) = imm_inv p ys xs st"
proof -
  have "attr (st\<lparr>outHead := h\<rparr>) = attr st" "next_of (st\<lparr>outHead := h\<rparr>) = next_of st" "prev_of (st\<lparr>outHead := h\<rparr>) = prev_of st"
    by (simp_all add: fun_eq_iff attr_def next_of_def prev_of_def)
  then show ?thesis by (simp add: imm_inv_def counted_def live_def refed_def past_def linked_def)
qed

lemma inv_head: "imm_inv p (i # ys) xs st \<Longrightarrow> \<exists>x. imms st i = Some x \<and> \<not> destroyed x"
  by (auto simp: imm_inv_def live_def attr_def)

lemma inv_cleared: "imm_inv p ys xs st \<Longrightarrow> \<not> uncleared (ilog st) i \<Longrightarrow> \<exists>x. imms st i = Some x \<and> destroyed x"
proof -
  assume inv: "imm_inv p ys xs st" and u: "\<not> uncleared (ilog st) i"
  then have "i \<in> past st" "counted st" by (auto simp: past_def uncleared_def imm_inv_def)
  then have "i < nextImm st" "i \<notin> live st" unfolding counted_def by blast+
  then have "attr st i \<noteq> None" using \<open>counted st\<close> unfolding counted_def by (metis not_le)
  then show ?thesis using \<open>i \<notin> live st\<close> by (auto simp: live_def attr_def)
qed

text \<open>What holds of the loop with fuel \<open>k\<close>: \<open>rn\<close> says whether an immediate ran already.\<close>

definition loop_ok :: "imm_env \<Rightarrow> nat \<Rightarrow> bool" where
  "loop_ok env k \<longleftrightarrow> (\<forall>p ys xs st pr rn.
     imm_inv p ys xs st \<longrightarrow> (rn \<longrightarrow> pr = p \<and> p \<noteq> None \<and> outHead st = hdo ys) \<longrightarrow> (ys = [] \<longrightarrow> outHead st = None) \<longrightarrow> length ys < k \<longrightarrow>
     (\<exists>r st' l. immediate_loop env k (hdo ys) pr rn st = Some (r, st') \<and> batch ys xs st r st' l))"

lemma loop_okD:
  assumes "loop_ok env k" "imm_inv p ys xs st" "outHead st = hdo ys" "length ys < k"
  shows "\<exists>r st' l. immediate_loop env k (hdo ys) p (p \<noteq> None) st = Some (r, st') \<and> batch ys xs st r st' l"
  using assms unfolding loop_ok_def by simp

lemma loop_skip:
  assumes ok: "loop_ok env k" and inv: "imm_inv (Some a) ys xs st" and len: "length ys < k"
  shows "\<exists>r st' l. immediate_loop env k (next_of st a) (Some a) True (st\<lparr>outHead := next_of st a\<rparr>) = Some (r, st') \<and> batch ys xs st r st' l"
proof -
  have nx: "next_of st a = hdo ys" using inv by (intro seg_hdo) (auto simp: imm_inv_def linked_def)
  have "\<exists>r st' l. immediate_loop env k (hdo ys) (Some a) (Some a \<noteq> None) (st\<lparr>outHead := hdo ys\<rparr>) = Some (r, st') \<and>
      batch ys xs (st\<lparr>outHead := hdo ys\<rparr>) r st' l"
    by (rule loop_okD [OF ok]) (use inv len in \<open>simp_all add: inv_outHead\<close>)
  then show ?thesis unfolding nx by (simp add: batch_def)
qed

lemma loop_run:
  assumes ok: "loop_ok env k" and inv: "imm_inv p (i # ys) xs st" and len: "length ys < k"
    and x: "imms st i = Some x" and rr: "run_immediate env i x st = (rr, st2)"
  shows "\<exists>r st' l. (case rr of Inl e \<Rightarrow> Some (Inl e, st2) | Inr _ \<Rightarrow> immediate_loop env k (outHead st2) (Some i) True st2) = Some (r, st') \<and>
    batch (i # ys) xs st r st' l"
proof -
  obtain l2 f where l2: "ilog st2 = l2 @ IRan i f (iargv x) # ilog st" "ran_ids l2 = []" "outHead st2 = hdo (filter (uncleared (ilog st2)) ys)"
      "imm_inv (Some i) (filter (uncleared (ilog st2)) ys) (filter (uncleared (ilog st2)) (xs @ made_ids l2)) st2"
    using run_immediate_inv [OF inv x rr] by blast
  let ?ys = "filter (uncleared (ilog st2)) ys" and ?xs = "filter (uncleared (ilog st2)) (xs @ made_ids l2)"
  have "\<exists>r st' l. (case rr of Inl e \<Rightarrow> Some (Inl e, st2) | Inr _ \<Rightarrow> immediate_loop env k (outHead st2) (Some i) True st2) = Some (r, st') \<and>
      batch ?ys ?xs st2 r st' l"
  proof (cases rr)
    case (Inl e)
    have "batch ?ys ?xs st2 (Inl e) st2 []" unfolding batch_def using l2(3,4) filter_uncleared [OF l2(4)] by auto
    then show ?thesis using Inl by auto
  next
    case (Inr v)
    have "length ?ys < k" using len by (simp add: le_less_trans [OF length_filter_le])
    then show ?thesis unfolding Inr sum.case l2(3) using loop_okD [OF ok l2(4,3)] by simp
  qed
  then show ?thesis using batch_run [OF l2(1,2)] by blast
qed

lemma loop_step:
  assumes ok: "loop_ok env k" and inv: "imm_inv p ys xs st" and rn: "rn \<Longrightarrow> pr = p \<and> p \<noteq> None \<and> outHead st = hdo ys"
    and ys: "ys = i # ys0" and len: "length ys < Suc k"
  shows "\<exists>r st' l. immediate_loop env (Suc k) (hdo ys) pr rn st = Some (r, st') \<and> batch ys xs st r st' l"
proof -
  obtain rt st1 where t: "(if rn then imm_runNextTicks env st else (Inr (), st)) = (rt, st1)" by fastforce
  obtain l1 where l1: "quiet p ys xs st st1 l1"
    using t exec_quiet [OF inv] imm_quiet_refl [OF inv] by (auto simp: imm_runNextTicks_def split: if_splits)
  let ?ys = "filter (uncleared (ilog st1)) ys" and ?xs = "filter (uncleared (ilog st1)) (xs @ made_ids l1)"
  have inv1: "imm_inv p ?ys ?xs st1" using l1 unfolding quiet_def by blast
  have after: ?thesis if "\<exists>r st' l. immediate_loop env (Suc k) (hdo ys) pr rn st = Some (r, st') \<and> batch ?ys ?xs st1 r st' l"
    using that batch_quiet [OF l1 _ refl] by blast
  have len1: "length (filter (uncleared (ilog st1)) ys0) < k" using len ys by (simp add: le_less_trans [OF length_filter_le])
  consider e where "rt = Inl e" | "rt = Inr ()" "uncleared (ilog st1) i" | "rt = Inr ()" "\<not> uncleared (ilog st1) i" by (cases rt) auto
  then show ?thesis
  proof cases
    case 1
    then have "outHead st1 = Some i" using l1 t rn ys by (auto simp: quiet_def split: if_splits)
    then have "batch ys xs st (Inl e) st1 l1" using l1 inv1 ys by (cases "uncleared (ilog st1) i") (auto simp: batch_def quiet_def)
    then show ?thesis using t 1 ys by auto
  next
    case 2
    have inv2: "imm_inv p (i # filter (uncleared (ilog st1)) ys0) ?xs st1" using inv1 ys 2 by simp
    obtain x where x: "imms st1 i = Some x" "\<not> destroyed x" using inv_head [OF inv2] by blast
    obtain rr st2 where rr: "run_immediate env i x st1 = (rr, st2)" by fastforce
    have "immediate_loop env (Suc k) (hdo ys) pr rn st =
        (case rr of Inl e \<Rightarrow> Some (Inl e, st2) | Inr _ \<Rightarrow> immediate_loop env k (outHead st2) (Some i) True st2)"
      using t ys 2 x rr by (cases rr) simp_all
    then show ?thesis using loop_run [OF ok inv2 len1 x(1) rr] after ys 2 by simp
  next
    case 3
    obtain x where x: "imms st1 i = Some x" "destroyed x" using inv_cleared [OF inv1 3(2)] by blast
    have "rn" using 3(2) t live_uncleared [OF inv, of i] ys by (auto split: if_splits)
    then obtain a where a: "pr = Some a" "p = Some a" using rn by auto
    have "immediate_loop env (Suc k) (hdo ys) pr rn st = immediate_loop env k (next_of st1 a) (Some a) True (st1\<lparr>outHead := next_of st1 a\<rparr>)"
      using t ys 3 x a by simp
    moreover have "length ?ys < k" using len1 ys 3(2) by simp
    ultimately show ?thesis using loop_skip [OF ok inv1 [unfolded a(2)]] after by (simp del: filter.simps filter_append)
  qed
qed

lemma loop_batch: "loop_ok env k"
proof (induction k)
  case 0 then show ?case by (simp add: loop_ok_def)
next
  case (Suc k)
  show ?case unfolding loop_ok_def
  proof (intro allI impI)
    fix p ys xs st pr rn
    assume a: "imm_inv p ys xs st" "rn \<longrightarrow> pr = p \<and> p \<noteq> None \<and> outHead st = hdo ys" "ys = [] \<longrightarrow> outHead st = None" "length ys < Suc k"
    show "\<exists>r st' l. immediate_loop env (Suc k) (hdo ys) pr rn st = Some (r, st') \<and> batch ys xs st r st' l"
    proof (cases ys)
      case Nil
      then have "batch ys xs st (Inr ()) st []" using a(1,3) filter_uncleared [OF a(1)] by (auto simp: batch_def)
      then show ?thesis using Nil by auto
    next
      case (Cons i ys0) then show ?thesis using loop_step [OF Suc a(1) _ Cons a(4)] a(2) by blast
    qed
  qed
qed

end
