(* ===== verification/ImmediatesReach.thy ===== *)
theory ImmediatesReach
  imports ImmediatesRun
begin

text \<open>
  The states a program reaches by \<open>setImmediate\<close>, \<open>clearImmediate\<close>, \<open>ref\<close>, \<open>unref\<close> and \<open>processImmediate\<close>, in any order, and what holds in them.
\<close>

section \<open>One round\<close>

lemma inv_flags: "imm_inv p ys xs (st\<lparr>outHead := h, kHasOutstanding := b\<rparr>) = imm_inv p ys xs st"
proof -
  let ?s = "st\<lparr>outHead := h, kHasOutstanding := b\<rparr>"
  have "attr ?s = attr st" "next_of ?s = next_of st" "prev_of ?s = prev_of st"
    by (simp_all add: fun_eq_iff attr_def next_of_def prev_of_def)
  then show ?thesis by (simp add: imm_inv_def counted_def live_def refed_def past_def linked_def)
qed

lemma inv_take:
  assumes "imm_inv p [] xs st"
  shows "imm_inv None xs [] (st\<lparr>qHead := None, qTail := None, kHasOutstanding := True\<rparr>)"
proof -
  let ?s = "st\<lparr>qHead := None, qTail := None, kHasOutstanding := True\<rparr>"
  have s: "attr ?s = attr st" "next_of ?s = next_of st" "prev_of ?s = prev_of st"
    by (simp_all add: fun_eq_iff attr_def next_of_def prev_of_def)
  then have "counted ?s = counted st" "live ?s = live st" by (simp_all add: counted_def live_def refed_def past_def)
  moreover have "linked p [] xs st \<Longrightarrow> linked None xs [] ?s" by (cases p) (auto simp: linked_def s)
  ultimately show ?thesis using assms by (simp add: imm_inv_def)
qed

lemma batch_flags: "batch ys xs st (Inr ()) st' l \<Longrightarrow> batch ys xs st (Inr ()) (st'\<lparr>outHead := None, kHasOutstanding := False\<rparr>) l"
  by (auto simp: batch_def inv_flags)

lemma batch_start: "ilog s = ilog st \<Longrightarrow> batch ys xs s = batch ys xs st"
  by (simp add: batch_def fun_eq_iff)

text \<open>A call runs the rest of the batch that was interrupted, if there is one, and else everything queued.\<close>

lemma process_batch:
  assumes inv: "imm_inv p ys xs st" and out: "outHead st = hdo ys" and k: "length (ys @ xs) < k"
  shows "\<exists>r st' l. processImmediate env k st = Some (r, st') \<and> (if ys = [] then batch xs [] st r st' l else batch ys xs st r st' l)"
proof (cases ys)
  case Nil
  let ?s = "st\<lparr>qHead := None, qTail := None, kHasOutstanding := True\<rparr>"
  have i: "imm_inv None xs [] ?s" using inv_take inv Nil by blast
  have q: "qHead st = hdo xs" using inv by (cases xs) (auto simp: imm_inv_def linked_def)
  obtain r st' l where l: "immediate_loop env k (hdo xs) None False ?s = Some (r, st')" "batch xs [] ?s r st' l"
    using loop_batch [of env k, unfolded loop_ok_def, rule_format, of None xs "[]" ?s False None] i out Nil k by auto
  have b: "batch xs [] st r st' l" using l(2) batch_start [of ?s st] by simp
  show ?thesis
  proof (cases r)
    case (Inl e) then show ?thesis using l(1) b q out Nil by (auto simp: processImmediate_def Let_def)
  next
    case (Inr u)
    then have "outHead st' = None" using b by (auto simp: batch_def)
    moreover from this have "st'\<lparr>outHead := None, kHasOutstanding := False\<rparr> = st'\<lparr>kHasOutstanding := False\<rparr>" by (cases st') simp
    then have "batch xs [] st (Inr ()) (st'\<lparr>kHasOutstanding := False\<rparr>) l" using b Inr batch_flags [of xs "[]" st st' l] by simp
    ultimately show ?thesis using l(1) Inr q out Nil by (auto simp: processImmediate_def Let_def)
  qed
next
  case (Cons i ys0)
  obtain r st' l where l: "immediate_loop env k (hdo ys) None False st = Some (r, st')" "batch ys xs st r st' l"
    using loop_batch [of env k, unfolded loop_ok_def, rule_format, of p ys xs st False None] inv Cons k by auto
  show ?thesis
  proof (cases r)
    case (Inl e) then show ?thesis using l out Cons by (auto simp: processImmediate_def Let_def)
  next
    case (Inr u)
    then have "batch ys xs st (Inr ()) (st'\<lparr>outHead := None, kHasOutstanding := False\<rparr>) l" using l(2) batch_flags by simp
    then show ?thesis using l(1) Inr out Cons by (auto simp: processImmediate_def Let_def)
  qed
qed

text \<open>More fuel gives the same answer.\<close>

lemma loop_fuel: "immediate_loop env k im pr rn st = Some res \<Longrightarrow> k \<le> m \<Longrightarrow> immediate_loop env m im pr rn st = Some res"
proof (induction k arbitrary: im pr rn st m)
  case (Suc k)
  then obtain m' where m: "m = Suc m'" "k \<le> m'" by (cases m) auto
  show ?case using Suc.prems(1) Suc.IH [OF _ m(2)] unfolding m(1)
    by (auto split: option.splits prod.splits sum.splits if_splits)
qed simp

lemma process_fuel: "processImmediate env k st = Some res \<Longrightarrow> k \<le> m \<Longrightarrow> processImmediate env m st = Some res"
  using loop_fuel [of env k _ _ _ _ _ m] by (cases "outHead st") (auto simp: processImmediate_def Let_def split: option.splits sum.splits)

section \<open>Reachable states\<close>

inductive imm_reach :: "imm_env \<Rightarrow> imm_state \<Rightarrow> bool" for env where
  imm_start: "imm_reach env imm_init"
| imm_code: "imm_reach env st \<Longrightarrow> exec_imm pr st = (r, st') \<Longrightarrow> imm_reach env st'"
| imm_round: "imm_reach env st \<Longrightarrow> processImmediate env k st = Some (r, st') \<Longrightarrow> imm_reach env st'"

text \<open>The head of \<open>outstandingQueue\<close> is the first of the interrupted batch, or was cleared since.\<close>

definition resumable :: "nat list \<Rightarrow> imm_state \<Rightarrow> bool" where
  "resumable ys st \<longleftrightarrow> outHead st = hdo ys \<or> (\<exists>i. outHead st = Some i \<and> \<not> uncleared (ilog st) i)"

lemma init_inv: "imm_inv None [] [] imm_init"
  by (simp add: imm_inv_def counted_def linked_def imm_init_def attr_def live_def refed_def past_def pending_ids_def)

lemma quiet_resumable: "quiet p ys xs st st' l \<Longrightarrow> resumable ys st \<Longrightarrow> resumable (filter (uncleared (ilog st')) ys) st'"
  by (cases ys) (auto simp: quiet_def resumable_def)

lemma stuck:
  assumes "imm_inv p ys xs st" "outHead st = Some i" "\<not> uncleared (ilog st) i"
  shows "processImmediate env (Suc k) st = Some (Inl ITypeError, st)"
proof -
  obtain x where "imms st i = Some x" "destroyed x" using inv_cleared [OF assms(1,3)] by blast
  then show ?thesis using assms(2) by (simp add: processImmediate_def)
qed

lemma batch_resumable: "batch ys xs st r st' l \<Longrightarrow> \<exists>p ys xs. imm_inv p ys xs st' \<and> resumable ys st'"
  unfolding batch_def resumable_def by (cases r) fastforce+

lemma reach_inv: "imm_reach env st \<Longrightarrow> \<exists>p ys xs. imm_inv p ys xs st \<and> resumable ys st"
proof (induction rule: imm_reach.induct)
  case imm_start
  have "resumable [] imm_init" by (simp add: resumable_def imm_init_def)
  then show ?case using init_inv by blast
next
  case (imm_code st pr r st')
  then show ?case using exec_quiet quiet_resumable unfolding quiet_def by (metis (no_types, lifting))
next
  case (imm_round st k r st')
  then obtain p ys xs where i: "imm_inv p ys xs st" "resumable ys st" by blast
  define m where "m = Suc (max k (length (ys @ xs)))"
  have m: "processImmediate env m st = Some (r, st')" using process_fuel [OF imm_round.hyps(2)] by (simp add: m_def)
  have len: "length (ys @ xs) < m" by (simp add: m_def)
  show ?case
  proof (cases "outHead st = hdo ys")
    case True
    then obtain l where "if ys = [] then batch xs [] st r st' l else batch ys xs st r st' l"
      using process_batch [OF i(1) True, of m env] m len by auto
    then show ?thesis using batch_resumable by (metis (full_types))
  next
    case False
    then have "st' = st" using i stuck [OF i(1)] m by (auto simp: resumable_def m_def)
    then show ?thesis using i by blast
  qed
qed

lemma reach_code: "imm_reach env st \<Longrightarrow> imm_reach env (snd (exec_imm pr st))"
  by (metis imm_code prod.collapse)

lemma reach_round: "imm_reach env st \<Longrightarrow> processImmediate env k st \<noteq> None \<Longrightarrow> imm_reach env (snd (the (processImmediate env k st)))"
  by (metis imm_round option.collapse prod.collapse)

section \<open>What holds of every run\<close>

text \<open>C22: in every state a program reaches, with no interrupted batch waiting, \<open>processImmediate\<close> returns, and it runs the immediates that
  are pending, oldest first, less those cleared before their turn. It stops early only with an exception, having run a beginning of them; and after
  a normal return what was set meanwhile, and not cleared, is pending, no more and no less.\<close>

theorem immediates_in_order:
  assumes "imm_reach env st" "outHead st = None" "length (pending_ids (ilog st)) < k"
  shows "\<exists>r st' l later. processImmediate env k st = Some (r, st') \<and> ilog st' = l @ ilog st \<and>
    filter (uncleared (ilog st')) (pending_ids (ilog st)) = ran_ids l @ later \<and>
    pending_ids (ilog st') = later @ filter (uncleared (ilog st')) (made_ids l) \<and> (r = Inr () \<longrightarrow> later = [] \<and> outHead st' = None)"
proof -
  obtain p ys xs where i: "imm_inv p ys xs st" "resumable ys st" using reach_inv [OF assms(1)] by blast
  have ys: "ys = []" using i(2) assms(2) hdo_simps(3) [of ys] by (auto simp: resumable_def simp del: hdo_simps)
  have pend: "pending_ids (ilog st) = xs" using i(1) ys by (simp add: imm_inv_def)
  obtain r st' l where l: "processImmediate env k st = Some (r, st')" "batch xs [] st r st' l"
    using process_batch [OF i(1), of k env] assms(2,3) ys pend by auto
  obtain later q where b: "ilog st' = l @ ilog st" "filter (uncleared (ilog st')) xs = ran_ids l @ later"
      "imm_inv q later (filter (uncleared (ilog st')) (made_ids l)) st'" "r = Inr () \<longrightarrow> later = [] \<and> outHead st' = None"
    using l(2) unfolding batch_def by (cases r) auto
  have "pending_ids (ilog st') = later @ filter (uncleared (ilog st')) (made_ids l)" using b(3) by (simp add: imm_inv_def)
  then show ?thesis using l(1) b pend by blast
qed

text \<open>C23: whatever a program does, \<open>kCount\<close> is the number of pending immediates and \<open>kRefCount\<close> the number of those that are referenced;
  an immediate runs at most once, with the function and arguments it was made with, and never once it is cleared.\<close>

theorem immediate_counts:
  assumes "imm_reach env st"
  shows "kCount st = int (length (pending_ids (ilog st))) \<and>
    kRefCount st = int (length (filter (\<lambda>i. imm_hasRef i st) (pending_ids (ilog st)))) \<and> distinct (ran_ids (ilog st)) \<and>
    (\<forall>i f args. IRan i f args \<in> set (ilog st) \<longrightarrow> IMade i f args \<in> set (ilog st) \<and> uncleared (ilog st) i)"
proof -
  obtain p ys xs where i: "imm_inv p ys xs st" using reach_inv [OF assms] by blast
  then have c: "counted st" and lv: "live st = set (pending_ids (ilog st))" and d: "distinct (pending_ids (ilog st))"
    by (cases p; auto simp: imm_inv_def linked_def)+
  have "refed st \<subseteq> live st"
  proof
    fix j assume "j \<in> refed st"
    then obtain d f a where "attr st j = Some (d, f, Some True, a)" by (auto simp: refed_def)
    then show "j \<in> live st" using counted_attr [OF c, of j d f "Some True" a] by (auto simp: live_def split: if_splits)
  qed
  moreover have "j \<in> refed st \<longleftrightarrow> imm_hasRef j st" for j by (auto simp: refed_def attr_def imm_hasRef_def split: option.split)
  ultimately have "refed st = set (filter (\<lambda>j. imm_hasRef j st) (pending_ids (ilog st)))" using lv by auto
  then have "card (refed st) = length (filter (\<lambda>j. imm_hasRef j st) (pending_ids (ilog st)))" using distinct_card [OF distinct_filter [OF d]] by metis
  moreover have "card (live st) = length (pending_ids (ilog st))" unfolding lv using d by (rule distinct_card)
  moreover have "kCount st = int (card (live st))" "kRefCount st = int (card (refed st))" using c unfolding counted_def by blast+
  ultimately show ?thesis using counted_ran [OF c] counted_apart [OF c] counted_once [OF c] by (simp add: uncleared_def)
qed

text \<open>C24: when an exception interrupted a batch and the immediate that would run next is then cleared, every further call of
  \<open>processImmediate\<close> throws a \<open>TypeError\<close> (it reads \<open>_idleNext\<close> of \<open>prevImmediate\<close>, which is undefined) and changes nothing:
  what is left of the batch, and all that is queued, never runs.\<close>

theorem cleared_outstanding_is_stuck:
  assumes "imm_reach env st" "outHead st = Some i" "\<not> uncleared (ilog st) i"
  shows "processImmediate env (Suc k) st = Some (Inl ITypeError, st)"
  using stuck [OF _ assms(2,3)] reach_inv [OF assms(1)] by blast

section \<open>Witnesses\<close>

text \<open>Three immediates of which the second is cleared by the first, and the third sets a fourth.\<close>

definition imm_demo :: imm_env where
  "imm_demo = \<lparr>imm_body = (\<lambda>f l args. case args of [] \<Rightarrow> IClear 1 IReturn | [a] \<Rightarrow> ISet (Some f) [a, a] (\<lambda>r. IReturn) | _ \<Rightarrow> IThrow (IUser f)),
     imm_ticks = (\<lambda>l. IReturn)\<rparr>"

definition imm_demo_state :: imm_state where
  "imm_demo_state = snd (exec_imm (ISet (Some 7) [] (\<lambda>r. ISet (Some 7) [] (\<lambda>r. ISet (Some 7) [5] (\<lambda>r. IUnref 2 IReturn)))) imm_init)"

lemma imm_demo_reach: "imm_reach imm_demo imm_demo_state"
  unfolding imm_demo_state_def by (rule reach_code [OF imm_start])

lemma imm_demo_facts: "outHead imm_demo_state = None" "length (pending_ids (ilog imm_demo_state)) < 4"
  by code_simp+

theorem immediates_in_order_witness:
  "\<exists>r st' l later. processImmediate imm_demo 4 imm_demo_state = Some (r, st') \<and> ilog st' = l @ ilog imm_demo_state \<and>
    filter (uncleared (ilog st')) (pending_ids (ilog imm_demo_state)) = ran_ids l @ later \<and>
    pending_ids (ilog st') = later @ filter (uncleared (ilog st')) (made_ids l) \<and> (r = Inr () \<longrightarrow> later = [] \<and> outHead st' = None)"
  by (rule immediates_in_order [OF imm_demo_reach imm_demo_facts])

theorem immediate_counts_witness: "kCount imm_demo_state = int (length (pending_ids (ilog imm_demo_state))) \<and> kCount imm_demo_state = 3 \<and> kRefCount imm_demo_state = 2"
proof -
  have "kCount imm_demo_state = 3" "kRefCount imm_demo_state = 2" by code_simp+
  then show ?thesis using immediate_counts [OF imm_demo_reach] by simp
qed

lemma imm_demo_run: "map_option (\<lambda>(r, st). (r, ran_ids (ilog st), pending_ids (ilog st))) (processImmediate imm_demo 4 imm_demo_state) = Some (Inr (), [0, 2], [3])"
  by code_simp

text \<open>The first throws; then the second is cleared, as a handler of \<open>uncaughtException\<close> may do.\<close>

definition imm_thrown :: imm_state where
  "imm_thrown = snd (exec_imm (ISet (Some 7) [1, 1] (\<lambda>r. ISet (Some 7) [] (\<lambda>r. ISet (Some 7) [] (\<lambda>r. IReturn)))) imm_init)"

definition imm_stuck :: imm_state where
  "imm_stuck = snd (exec_imm (IClear 1 IReturn) (snd (the (processImmediate imm_demo 4 imm_thrown))))"

lemma imm_stuck_reach: "imm_reach imm_demo imm_stuck"
proof -
  have "map_option fst (processImmediate imm_demo 4 imm_thrown) = Some (Inl (IUser 7))" by code_simp
  then have "processImmediate imm_demo 4 imm_thrown \<noteq> None" by auto
  then show ?thesis unfolding imm_stuck_def imm_thrown_def by (intro reach_code reach_round imm_start)
qed

theorem cleared_outstanding_is_stuck_witness:
  "processImmediate imm_demo (Suc 9) imm_stuck = Some (Inl ITypeError, imm_stuck) \<and> pending_ids (ilog imm_stuck) = [2]"
proof -
  have "outHead imm_stuck = Some 1" "\<not> uncleared (ilog imm_stuck) 1" "pending_ids (ilog imm_stuck) = [2]" by code_simp+
  then show ?thesis using cleared_outstanding_is_stuck [OF imm_stuck_reach] by blast
qed

end
