(* ===== verification/QueryString.thy ===== *)
theory QueryString
  imports UrlShim
begin

text \<open>
  \<open>libjs-node/querystring.js\<close> and the \<open>encodeStr\<close> of \<open>internal/querystring.js\<close>, on strings as lists of UTF-16 code units.
  The decoder and the encoder a caller may pass are parameters, as is the native conversion of a buffer to a string.
  A decoder of the caller returns strings or throws, and \<open>maxKeys\<close> is an integer or absent.
\<close>

section \<open>encodeStr\<close>

definition err_invalid_uri :: js_error where
  "err_invalid_uri = JsError (Some ''ERR_INVALID_URI'') ''URI malformed''"

definition isHexTable :: "nat \<Rightarrow> bool" where
  "isHexTable c \<longleftrightarrow> 48 \<le> c \<and> c \<le> 57 \<or> 65 \<le> c \<and> c \<le> 70 \<or> 97 \<le> c \<and> c \<le> 102"

function qs_encode_loop ::
  "(nat \<Rightarrow> bool) \<Rightarrow> (nat \<Rightarrow> ustring) \<Rightarrow> ustring \<Rightarrow> nat \<Rightarrow> nat \<Rightarrow> ustring \<Rightarrow> (nat \<times> ustring) result" where
  "qs_encode_loop noEscapeTable hex str i lastPos out =
     (if i \<ge> length str then Inr (lastPos, out)
      else
        (let c = str ! i in
         if c < 0x80 then
           (if noEscapeTable c then qs_encode_loop noEscapeTable hex str (i + 1) lastPos out
            else qs_encode_loop noEscapeTable hex str (i + 1) (i + 1)
                   (out @ (if lastPos < i then take (i - lastPos) (drop lastPos str) else []) @ hex c))
         else
           (let out = out @ (if lastPos < i then take (i - lastPos) (drop lastPos str) else []) in
            if c < 0x800 then
              qs_encode_loop noEscapeTable hex str (i + 1) (i + 1) (out @ hex (0xC0 OR drop_bit 6 c) @ hex (0x80 OR (c AND 0x3F)))
            else if c < 0xD800 \<or> c \<ge> 0xE000 then
              qs_encode_loop noEscapeTable hex str (i + 1) (i + 1)
                (out @ hex (0xE0 OR drop_bit 12 c) @ hex (0x80 OR (drop_bit 6 c AND 0x3F)) @ hex (0x80 OR (c AND 0x3F)))
            else if i + 1 \<ge> length str then Inl err_invalid_uri
            else
              (let c2 = str ! (i + 1) AND 0x3FF;
                   c = 0x10000 + (push_bit 10 (c AND 0x3FF) OR c2)
               in qs_encode_loop noEscapeTable hex str (i + 2) (i + 2)
                    (out @ hex (0xF0 OR drop_bit 18 c) @ hex (0x80 OR (drop_bit 12 c AND 0x3F))
                         @ hex (0x80 OR (drop_bit 6 c AND 0x3F)) @ hex (0x80 OR (c AND 0x3F)))))))"
  by pat_completeness auto
termination by (relation "measure (\<lambda>(_, _, str, i, _). length str - i)") auto

declare qs_encode_loop.simps [simp del]

definition qs_encodeStr :: "ustring \<Rightarrow> (nat \<Rightarrow> bool) \<Rightarrow> (nat \<Rightarrow> ustring) \<Rightarrow> ustring result" where
  "qs_encodeStr str noEscapeTable hex =
     (if length str = 0 then Inr []
      else
        (case qs_encode_loop noEscapeTable hex str 0 0 [] of
           Inl e \<Rightarrow> Inl e
         | Inr (lastPos, out) \<Rightarrow>
             Inr (if lastPos = 0 then str else if lastPos < length str then out @ drop lastPos str else out)))"

section \<open>Escaping\<close>

definition noEscape_table :: "nat list" where
  "noEscape_table =
    [0, 0, 0, 0, 0, 0, 0, 0, 0, 0, 0, 0, 0, 0, 0, 0,
     0, 0, 0, 0, 0, 0, 0, 0, 0, 0, 0, 0, 0, 0, 0, 0,
     0, 1, 0, 0, 0, 0, 0, 1, 1, 1, 1, 0, 0, 1, 1, 0,
     1, 1, 1, 1, 1, 1, 1, 1, 1, 1, 0, 0, 0, 0, 0, 0,
     0, 1, 1, 1, 1, 1, 1, 1, 1, 1, 1, 1, 1, 1, 1, 1,
     1, 1, 1, 1, 1, 1, 1, 1, 1, 1, 1, 0, 0, 0, 0, 1,
     0, 1, 1, 1, 1, 1, 1, 1, 1, 1, 1, 1, 1, 1, 1, 1,
     1, 1, 1, 1, 1, 1, 1, 1, 1, 1, 1, 0, 0, 0, 1, 0]"

definition noEscape :: "nat \<Rightarrow> bool" where
  "noEscape c \<longleftrightarrow> c < 128 \<and> noEscape_table ! c = 1"

definition qsEscape :: "ustring \<Rightarrow> ustring result" where
  "qsEscape str = qs_encodeStr str noEscape hexTable"

section \<open>Unescaping\<close>

definition unhexTable :: "nat \<Rightarrow> int" where
  "unhexTable c = (case hex_value c of Some n \<Rightarrow> int n | None \<Rightarrow> -1)"

text \<open>The buffer is allocated without being cleared: \<open>None\<close> is a byte that was never written.\<close>

function unescape_loop :: "ustring \<Rightarrow> bool \<Rightarrow> nat \<Rightarrow> nat \<Rightarrow> bool \<Rightarrow> nat option list \<Rightarrow> nat \<times> bool \<times> nat option list" where
  "unescape_loop s decodeSpaces index outIndex hasHex out =
     (if index < length s then
        (let currentChar = s ! index in
         if currentChar = 43 \<and> decodeSpaces then
           unescape_loop s decodeSpaces (index + 1) (outIndex + 1) hasHex (out[outIndex := Some 32])
         else if currentChar = 37 \<and> index + 2 < length s then
           (if unhexTable (s ! (index + 1)) < 0 then
              unescape_loop s decodeSpaces (index + 1) (outIndex + 1) hasHex (out[outIndex := Some 37])
            else if unhexTable (s ! (index + 2)) < 0 then
              unescape_loop s decodeSpaces (index + 2) (outIndex + 2) hasHex
                (out[outIndex := Some 37, outIndex + 1 := Some (s ! (index + 1) mod 256)])
            else
              unescape_loop s decodeSpaces (index + 3) (outIndex + 1) True
                (out[outIndex := Some (nat (unhexTable (s ! (index + 1)) * 16 + unhexTable (s ! (index + 2))) mod 256)]))
         else
           unescape_loop s decodeSpaces (index + 1) (outIndex + 1) hasHex (out[outIndex := Some (currentChar mod 256)]))
      else (outIndex, hasHex, out))"
  by pat_completeness auto
termination by (relation "measure (\<lambda>(s, _, index, _). length s - index)") auto

declare unescape_loop.simps [simp del]

definition unescapeBuffer :: "ustring \<Rightarrow> bool \<Rightarrow> nat option list" where
  "unescapeBuffer s decodeSpaces =
     (case unescape_loop s decodeSpaces 0 0 False (replicate (length s) None) of
        (outIndex, hasHex, out) \<Rightarrow> if hasHex then take outIndex out else out)"

text \<open>\<open>toStr\<close> is \<open>Buffer.prototype.toString\<close>.\<close>

definition qsUnescape :: "(nat option list \<Rightarrow> ustring) \<Rightarrow> ustring \<Rightarrow> bool \<Rightarrow> ustring" where
  "qsUnescape toStr s decodeSpaces =
     (case decodeURIComponent s of Inr t \<Rightarrow> t | Inl _ \<Rightarrow> toStr (unescapeBuffer s decodeSpaces))"

section \<open>stringify\<close>

text \<open>A number is what the code reads of it: whether it is finite, whether its magnitude is below 1e21, and its text.\<close>

datatype qs_prim = QString ustring | QNumber bool bool ustring | QBigint ustring | QBoolean bool | QOther

datatype qs_value = QPrim qs_prim | QArray "qs_prim list"

definition stringifyPrimitive :: "qs_prim \<Rightarrow> ustring" where
  "stringifyPrimitive v =
     (case v of
        QString s \<Rightarrow> s
      | QNumber isFinite small t \<Rightarrow> if isFinite then t else []
      | QBigint t \<Rightarrow> t
      | QBoolean b \<Rightarrow> if b then ascii ''true'' else ascii ''false''
      | QOther \<Rightarrow> [])"

definition encodeStringified :: "qs_prim \<Rightarrow> (ustring \<Rightarrow> ustring result) \<Rightarrow> ustring result" where
  "encodeStringified v encode =
     (case v of
        QString s \<Rightarrow> if length s > 0 then encode s else Inr []
      | QNumber isFinite small t \<Rightarrow> if isFinite then (if small then Inr t else encode t) else Inr []
      | QBigint t \<Rightarrow> Inr t
      | QBoolean b \<Rightarrow> Inr (if b then ascii ''true'' else ascii ''false'')
      | QOther \<Rightarrow> Inr [])"

definition encodeStringifiedCustom :: "qs_prim \<Rightarrow> (ustring \<Rightarrow> ustring result) \<Rightarrow> ustring result" where
  "encodeStringifiedCustom v encode = encode (stringifyPrimitive v)"

text \<open>The inner loop, from element \<open>j\<close> on.\<close>

fun stringify_array :: "(qs_prim \<Rightarrow> ustring result) \<Rightarrow> ustring \<Rightarrow> ustring \<Rightarrow> nat \<Rightarrow> qs_prim list \<Rightarrow> ustring \<Rightarrow> ustring result" where
  "stringify_array conv sep ks j [] flds = Inr flds"
| "stringify_array conv sep ks j (v # vs) flds =
     (let flds = (if j > 0 then flds @ sep else flds) @ ks in
      case conv v of Inl e \<Rightarrow> Inl e | Inr t \<Rightarrow> stringify_array conv sep ks (j + 1) vs (flds @ t))"

fun stringify_keys :: "(qs_prim \<Rightarrow> ustring result) \<Rightarrow> ustring \<Rightarrow> ustring \<Rightarrow> (ustring \<times> qs_value) list \<Rightarrow> ustring \<Rightarrow> ustring result" where
  "stringify_keys conv sep eq [] flds = Inr flds"
| "stringify_keys conv sep eq ((k, v) # kvs) flds =
     (case conv (QString k) of
        Inl e \<Rightarrow> Inl e
      | Inr ks \<Rightarrow>
          (case v of
             QArray vs \<Rightarrow>
               if length vs = 0 then stringify_keys conv sep eq kvs flds
               else
                 (case stringify_array conv sep (ks @ eq) 0 vs (if flds \<noteq> [] then flds @ sep else flds) of
                    Inl e \<Rightarrow> Inl e
                  | Inr flds \<Rightarrow> stringify_keys conv sep eq kvs flds)
           | QPrim p \<Rightarrow>
               (case conv p of
                  Inl e \<Rightarrow> Inl e
                | Inr t \<Rightarrow> stringify_keys conv sep eq kvs ((if flds \<noteq> [] then flds @ sep else flds) @ (ks @ eq) @ t))))"

definition or_default :: "ustring \<Rightarrow> ustring option \<Rightarrow> ustring" where
  "or_default d s = (case s of None \<Rightarrow> d | Some t \<Rightarrow> if t = [] then d else t)"

text \<open>The object is the list of its own properties in the order of \<open>Object.keys\<close>, \<open>None\<close> if it is no object.\<close>

definition stringify ::
  "(ustring \<times> qs_value) list option \<Rightarrow> ustring option \<Rightarrow> ustring option \<Rightarrow> (ustring \<Rightarrow> ustring result) option \<Rightarrow> ustring result" where
  "stringify obj sep eq custom =
     (let conv = (case custom of
                    None \<Rightarrow> (\<lambda>v. encodeStringified v qsEscape)
                  | Some encode \<Rightarrow> (\<lambda>v. encodeStringifiedCustom v encode))
      in case obj of
           None \<Rightarrow> Inr []
         | Some kvs \<Rightarrow> stringify_keys conv (or_default [38] sep) (or_default [61] eq) kvs [])"

section \<open>parse\<close>

datatype qs_field = One ustring | Many "ustring list"

text \<open>The object that is built, in the order its keys were first set.\<close>

type_synonym qs_obj = "(ustring \<times> qs_field) list"

record qs_config =
  sepCodes :: ustring
  eqCodes :: ustring
  customDecode :: "(ustring \<Rightarrow> ustring result) option"
  bufToString :: "nat option list \<Rightarrow> ustring"

definition decodeStr :: "qs_config \<Rightarrow> ustring \<Rightarrow> ustring" where
  "decodeStr cfg s =
     (case customDecode cfg of
        None \<Rightarrow> qsUnescape (bufToString cfg) s False
      | Some d \<Rightarrow> (case d s of Inr t \<Rightarrow> t | Inl _ \<Rightarrow> qsUnescape (bufToString cfg) s True))"

definition put_key :: "qs_obj \<Rightarrow> ustring \<Rightarrow> ustring \<Rightarrow> qs_obj" where
  "put_key obj key value =
     (case map_of obj key of
        None \<Rightarrow> obj @ [(key, One value)]
      | Some (Many vs) \<Rightarrow> map (\<lambda>(k, f). if k = key then (k, Many (vs @ [value])) else (k, f)) obj
      | Some (One v) \<Rightarrow> map (\<lambda>(k, f). if k = key then (k, Many [v, value]) else (k, f)) obj)"

definition addKeyVal :: "qs_config \<Rightarrow> qs_obj \<Rightarrow> ustring \<Rightarrow> ustring \<Rightarrow> bool \<Rightarrow> bool \<Rightarrow> qs_obj" where
  "addKeyVal cfg obj key value keyEncoded valEncoded =
     (let key = (if length key > 0 \<and> keyEncoded then decodeStr cfg key else key);
          value = (if length value > 0 \<and> valEncoded then decodeStr cfg value else value)
      in put_key obj key value)"

record qs_state =
  qLast :: nat
  qSepIdx :: nat
  qEqIdx :: nat
  qKey :: ustring
  qValue :: ustring
  qKeyEnc :: bool
  qValEnc :: bool
  qCheck :: nat
  qPairs :: int
  qObj :: qs_obj

definition is_custom :: "qs_config \<Rightarrow> bool" where
  "is_custom cfg \<longleftrightarrow> customDecode cfg \<noteq> None"

definition plusChar :: "qs_config \<Rightarrow> ustring" where
  "plusChar cfg = (if is_custom cfg then ascii ''%20'' else [32])"

definition qs_cut :: "ustring \<Rightarrow> nat \<Rightarrow> nat \<Rightarrow> ustring" where
  "qs_cut qs a b = (if a < b then take (b - a) (drop a qs) else [])"

text \<open>A separator was matched completely at \<open>i\<close>; the flag says that the loop returns the object.\<close>

definition on_separator :: "qs_config \<Rightarrow> ustring \<Rightarrow> nat \<Rightarrow> qs_state \<Rightarrow> bool \<times> qs_state" where
  "on_separator cfg qs i s =
     (let fin = i + 1 - qSepIdx s in
      if qEqIdx s < length (eqCodes cfg) \<and> \<not> qLast s < fin \<and> length (qKey s) = 0 then
        (let s = s\<lparr>qPairs := qPairs s - 1\<rparr> in
         if qPairs s = 0 then (True, s) else (False, s\<lparr>qLast := i + 1, qSepIdx := 0, qEqIdx := 0\<rparr>))
      else
        (let s = (if qEqIdx s < length (eqCodes cfg) then s\<lparr>qKey := qKey s @ qs_cut qs (qLast s) fin\<rparr>
                  else s\<lparr>qValue := qValue s @ qs_cut qs (qLast s) fin\<rparr>);
             s = s\<lparr>qObj := addKeyVal cfg (qObj s) (qKey s) (qValue s) (qKeyEnc s) (qValEnc s), qPairs := qPairs s - 1\<rparr>
         in if qPairs s = 0 then (True, s)
            else (False, s\<lparr>qKeyEnc := is_custom cfg, qValEnc := is_custom cfg, qKey := [], qValue := [], qCheck := 0,
                          qLast := i + 1, qSepIdx := 0, qEqIdx := 0\<rparr>)))"

text \<open>Looking for an escape in the key: the flag says that the code \<open>continue\<close>s.\<close>

definition key_escape :: "nat \<Rightarrow> qs_state \<Rightarrow> bool \<times> qs_state" where
  "key_escape code s =
     (if qKeyEnc s then (False, s)
      else if code = 37 then (True, s\<lparr>qCheck := 1\<rparr>)
      else if qCheck s > 0 then
        (if isHexTable code then
           (True, s\<lparr>qCheck := qCheck s + 1, qKeyEnc := (if qCheck s + 1 = 3 then True else qKeyEnc s)\<rparr>)
         else (False, s\<lparr>qCheck := 0\<rparr>))
      else (False, s))"

definition value_char :: "qs_config \<Rightarrow> ustring \<Rightarrow> nat \<Rightarrow> nat \<Rightarrow> qs_state \<Rightarrow> qs_state" where
  "value_char cfg qs i code s =
     (if code = 43 then s\<lparr>qValue := qValue s @ qs_cut qs (qLast s) i @ plusChar cfg, qLast := i + 1\<rparr>
      else if qValEnc s then s
      else if code = 37 then s\<lparr>qCheck := 1\<rparr>
      else if qCheck s > 0 then
        (if isHexTable code then s\<lparr>qCheck := qCheck s + 1, qValEnc := (if qCheck s + 1 = 3 then True else qValEnc s)\<rparr>
         else s\<lparr>qCheck := 0\<rparr>)
      else s)"

definition parse_body :: "qs_config \<Rightarrow> ustring \<Rightarrow> nat \<Rightarrow> qs_state \<Rightarrow> bool \<times> qs_state" where
  "parse_body cfg qs i s =
     (let code = qs ! i in
      if char_at (sepCodes cfg) (int (qSepIdx s)) = Some code then
        (let s = s\<lparr>qSepIdx := qSepIdx s + 1\<rparr> in
         if qSepIdx s = length (sepCodes cfg) then on_separator cfg qs i s else (False, s))
      else
        (let s = s\<lparr>qSepIdx := 0\<rparr> in
         if qEqIdx s < length (eqCodes cfg) then
           (if char_at (eqCodes cfg) (int (qEqIdx s)) = Some code then
              (let s = s\<lparr>qEqIdx := qEqIdx s + 1\<rparr> in
               if qEqIdx s = length (eqCodes cfg) then
                 (False, s\<lparr>qKey := qKey s @ qs_cut qs (qLast s) (i + 1 - qEqIdx s), qCheck := 0, qLast := i + 1\<rparr>)
               else (False, s))
            else
              (case key_escape code (s\<lparr>qEqIdx := 0\<rparr>) of
                 (True, s) \<Rightarrow> (False, s)
               | (False, s) \<Rightarrow>
                   if code = 43 then (False, s\<lparr>qKey := qKey s @ qs_cut qs (qLast s) i @ plusChar cfg, qLast := i + 1\<rparr>)
                   else (False, value_char cfg qs i code s)))
         else (False, value_char cfg qs i code s)))"

function parse_loop :: "qs_config \<Rightarrow> ustring \<Rightarrow> nat \<Rightarrow> qs_state \<Rightarrow> bool \<times> qs_state" where
  "parse_loop cfg qs i s =
     (if i < length qs then
        (case parse_body cfg qs i s of (True, s) \<Rightarrow> (True, s) | (False, s) \<Rightarrow> parse_loop cfg qs (i + 1) s)
      else (False, s))"
  by pat_completeness auto
termination by (relation "measure (\<lambda>(_, qs, i, _). length qs - i)") auto

declare parse_loop.simps [simp del]

definition parse_end :: "qs_config \<Rightarrow> ustring \<Rightarrow> qs_state \<Rightarrow> qs_obj" where
  "parse_end cfg qs s =
     (if qLast s < length qs then
        (let s = (if qEqIdx s < length (eqCodes cfg) then s\<lparr>qKey := qKey s @ drop (qLast s) qs\<rparr>
                  else if qSepIdx s < length (sepCodes cfg) then s\<lparr>qValue := qValue s @ drop (qLast s) qs\<rparr> else s)
         in addKeyVal cfg (qObj s) (qKey s) (qValue s) (qKeyEnc s) (qValEnc s))
      else if qEqIdx s = 0 \<and> length (qKey s) = 0 then qObj s
      else addKeyVal cfg (qObj s) (qKey s) (qValue s) (qKeyEnc s) (qValEnc s))"

definition parse_start :: "qs_config \<Rightarrow> int option \<Rightarrow> qs_state" where
  "parse_start cfg maxKeys =
     \<lparr>qLast = 0, qSepIdx = 0, qEqIdx = 0, qKey = [], qValue = [], qKeyEnc = is_custom cfg, qValEnc = is_custom cfg, qCheck = 0,
      qPairs = (case maxKeys of None \<Rightarrow> 1000 | Some n \<Rightarrow> if n > 0 then n else -1), qObj = []\<rparr>"

definition parse_cfg :: "ustring option \<Rightarrow> ustring option \<Rightarrow> (ustring \<Rightarrow> ustring result) option \<Rightarrow> (nat option list \<Rightarrow> ustring) \<Rightarrow> qs_config" where
  "parse_cfg sep eq custom toStr =
     \<lparr>sepCodes = or_default [38] sep, eqCodes = or_default [61] eq, customDecode = custom, bufToString = toStr\<rparr>"

text \<open>\<open>None\<close> is a query that is not a string.\<close>

definition qs_parse ::
  "(nat option list \<Rightarrow> ustring) \<Rightarrow> ustring option \<Rightarrow> ustring option \<Rightarrow> ustring option \<Rightarrow> int option \<Rightarrow> (ustring \<Rightarrow> ustring result) option \<Rightarrow> qs_obj" where
  "qs_parse toStr query sep eq maxKeys custom =
     (case query of
        None \<Rightarrow> []
      | Some qs \<Rightarrow>
          if length qs = 0 then []
          else
            (let cfg = parse_cfg sep eq custom toStr in
             case parse_loop cfg qs 0 (parse_start cfg maxKeys) of
               (True, s) \<Rightarrow> qObj s
             | (False, s) \<Rightarrow> parse_end cfg qs s))"

end
