(* ===== verification/QueryStringProps.thy ===== *)
theory QueryStringProps
  imports QueryString UrlShimProps
begin

text \<open>
  \<open>parse\<close> is a loop over the code units that cuts the query as it goes; with separators of one unit it is shown equal to
  splitting, replacing and decoding.  \<open>unescapeBuffer\<close> writes every byte it returns.
\<close>

section \<open>Looking for escapes\<close>

text \<open>A percent sign with two hexadecimal digits behind it.\<close>

fun has_escape :: "ustring \<Rightarrow> bool" where
  "has_escape (c # h # l # s) \<longleftrightarrow> c = 37 \<and> isHexTable h \<and> isHexTable l \<or> has_escape (h # l # s)"
| "has_escape _ \<longleftrightarrow> False"

fun after_escape :: "ustring \<Rightarrow> ustring" where
  "after_escape (c # h # l # s) = (if c = 37 \<and> isHexTable h \<and> isHexTable l then s else after_escape (h # l # s))"
| "after_escape _ = []"

text \<open>What the loop does with \<open>encodeCheck\<close>: the flag, the counter and what follows the first escape.\<close>

definition check_step :: "bool \<times> nat \<Rightarrow> nat \<Rightarrow> bool \<times> nat" where
  "check_step fn c =
     (if fst fn then fn else if c = 37 then (False, 1)
      else if snd fn > 0 then (if isHexTable c then (snd fn + 1 = 3, snd fn + 1) else (False, 0)) else fn)"

lemma not_hex_percent [simp]: "\<not> isHexTable 37"
  by (simp add: isHexTable_def)

lemma check_simps:
  "check_step (True, n) c = (True, n)" "check_step (False, n) 37 = (False, 1)"
  "c \<noteq> 37 \<Longrightarrow> check_step (False, 0) c = (False, 0)" "0 < n \<Longrightarrow> \<not> isHexTable c \<Longrightarrow> c \<noteq> 37 \<Longrightarrow> check_step (False, n) c = (False, 0)"
  "0 < n \<Longrightarrow> isHexTable c \<Longrightarrow> check_step (False, n) c = (n = 2, n + 1)"
  using not_hex_percent by (auto simp: check_step_def simp del: not_hex_percent)

lemma check_done [simp]: "foldl check_step (True, n) s = (True, n)"
  by (induction s) (simp_all add: check_simps)

lemma has_escape_Cons: "has_escape (c # s) \<longleftrightarrow> (\<exists>h l r. c = 37 \<and> s = h # l # r \<and> isHexTable h \<and> isHexTable l) \<or> has_escape s"
  by (cases "c # s" rule: has_escape.cases) auto

lemma after_escape_Cons: "after_escape (c # s) = (case s of h # l # r \<Rightarrow> if c = 37 \<and> isHexTable h \<and> isHexTable l then r else after_escape s | _ \<Rightarrow> [])"
  by (cases "c # s" rule: after_escape.cases) auto

text \<open>The flag is set exactly if there is an escape; a counter of 3 and more is as good as 0.\<close>

lemma check_found:
  "fst (foldl check_step (False, 0) s) \<longleftrightarrow> has_escape s" "3 \<le> n \<Longrightarrow> fst (foldl check_step (False, n) s) \<longleftrightarrow> has_escape s"
  "fst (foldl check_step (False, 1) s) \<longleftrightarrow> has_escape (37 # s)" "isHexTable h \<Longrightarrow> fst (foldl check_step (False, 2) s) \<longleftrightarrow> has_escape (37 # h # s)"
proof (induction s arbitrary: n h)
  case Nil { case 1 then show ?case by simp next case 2 then show ?case by simp next case 3 then show ?case by simp next case 4 then show ?case by simp }
next
  case (Cons c s)
  have hc: "isHexTable c \<Longrightarrow> c \<noteq> 37" using not_hex_percent by auto
  {
    case 1 show ?case using Cons.IH(1,3) by (cases "c = 37") (auto simp: check_simps has_escape_Cons [of c])
  next
    case 2 show ?case using 2 Cons.IH(1) Cons.IH(2) [of "Suc n"] Cons.IH(3) hc
      by (cases "c = 37"; cases "isHexTable c") (auto simp: check_simps has_escape_Cons [of c])
  next
    case 3 show ?case using Cons.IH(1,3) Cons.IH(4) [of c] hc
      by (cases "c = 37"; cases "isHexTable c") (auto simp: check_simps has_escape_Cons [of 37] has_escape_Cons [of c] numeral_2_eq_2)
  next
    case 4 show ?case using 4 Cons.IH(1,3) hc
      by (cases "c = 37"; cases "isHexTable c") (auto simp: check_simps has_escape_Cons [of 37] has_escape_Cons [of h] has_escape_Cons [of c])
  }
qed

text \<open>The loop over a key: when the key has its escape, a second one is taken for one of the value.\<close>

definition key_step :: "bool \<times> bool \<times> nat \<Rightarrow> nat \<Rightarrow> bool \<times> bool \<times> nat" where
  "key_step st c =
     (case st of (ke, ve, n) \<Rightarrow>
        if \<not> ke then (let f = check_step (False, n) c in (fst f, ve, snd f))
        else if c = 43 then st else (let f = check_step (ve, n) c in (ke, fst f, snd f)))"

lemma key_after: "foldl key_step (True, f) s = (True, foldl check_step f (filter (\<lambda>c. c \<noteq> 43) s))"
  by (induction s arbitrary: f) (auto simp: key_step_def Let_def split: prod.split)

definition key_found :: "bool \<times> bool \<times> nat \<Rightarrow> ustring \<Rightarrow> bool" where
  "key_found f s \<longleftrightarrow> fst f = has_escape s \<and> fst (snd f) = has_escape (filter (\<lambda>c. c \<noteq> 43) (after_escape s))"

lemma key_found_skip: "(\<And>h l r. c = 37 \<Longrightarrow> s = h # l # r \<Longrightarrow> \<not> (isHexTable h \<and> isHexTable l)) \<Longrightarrow> key_found f (c # s) = key_found f s"
  by (cases "c # s" rule: after_escape.cases) (auto simp: key_found_def)

lemma key_flags_found:
  "key_found (foldl key_step (False, False, 0) s) s" "key_found (foldl key_step (False, False, 1) s) (37 # s)"
  "isHexTable h \<Longrightarrow> key_found (foldl key_step (False, False, 2) s) (37 # h # s)"
proof (induction s arbitrary: h)
  case Nil { case 1 then show ?case by (simp add: key_found_def) next case 2 then show ?case by (simp add: key_found_def) next case 3 then show ?case by (simp add: key_found_def) }
next
  case (Cons c s)
  have hc: "isHexTable c \<Longrightarrow> c \<noteq> 37" using not_hex_percent by auto
  have st: "key_step (False, False, n) d = (let f = check_step (False, n) d in (fst f, False, snd f))" for n d by (simp add: key_step_def)
  {
    case 1 show ?case
      using Cons.IH(1,2) key_found_skip [of c s] by (cases "c = 37") (auto simp: st check_simps Let_def)
  next
    case 2 show ?case
    proof (cases "isHexTable c")
      case True then show ?thesis using Cons.IH(3) [of c] hc by (simp add: st check_simps Let_def numeral_2_eq_2)
    next
      case False
      then have "key_found f (37 # c # s) = key_found f (c # s)" for f by (intro key_found_skip) auto
      then show ?thesis using False Cons.IH(1,2) key_found_skip [of c s] by (cases "c = 37") (auto simp: st check_simps Let_def)
    qed
  next
    case 3 show ?case
    proof (cases "isHexTable c")
      case True
      then show ?thesis using 3 check_found(2) [of 3 "filter (\<lambda>c. c \<noteq> 43) s"]
        by (auto simp: st check_simps Let_def key_after key_found_def numeral_3_eq_3)
    next
      case False
      have "key_found f (37 # h # c # s) = key_found f (h # c # s)" for f using False by (intro key_found_skip) auto
      moreover have "key_found f (h # c # s) = key_found f (c # s)" for f using 3 by (intro key_found_skip) auto
      ultimately show ?thesis using False Cons.IH(1,2) key_found_skip [of c s] by (cases "c = 37") (auto simp: st check_simps Let_def)
    qed
  }
qed

section \<open>The reference\<close>

definition plusr :: "qs_config \<Rightarrow> ustring \<Rightarrow> ustring" where
  "plusr cfg s = concat (map (\<lambda>c. if c = 43 then plusChar cfg else [c]) s)"

definition key_of :: "nat \<Rightarrow> ustring \<Rightarrow> ustring" where
  "key_of e w = takeWhile (\<lambda>c. c \<noteq> e) w"

definition value_of :: "nat \<Rightarrow> ustring \<Rightarrow> ustring" where
  "value_of e w = tl (dropWhile (\<lambda>c. c \<noteq> e) w)"

definition decode_if :: "qs_config \<Rightarrow> bool \<Rightarrow> ustring \<Rightarrow> ustring" where
  "decode_if cfg b s = (if s \<noteq> [] \<and> b then decodeStr cfg s else s)"

text \<open>One pair: the key is decoded if it has an escape, the value if it has one or the key has two.\<close>

definition ref_pair :: "qs_config \<Rightarrow> nat \<Rightarrow> ustring \<Rightarrow> ustring \<times> ustring" where
  "ref_pair cfg e w =
     (let k = key_of e w; v = value_of e w in
      (decode_if cfg (is_custom cfg \<or> has_escape k) (plusr cfg k),
       decode_if cfg (is_custom cfg \<or> has_escape (filter (\<lambda>c. c \<noteq> 43) (after_escape k)) \<or> has_escape (filter (\<lambda>c. c \<noteq> 43) v)) (plusr cfg v)))"

definition ref_add :: "qs_config \<Rightarrow> nat \<Rightarrow> qs_obj \<Rightarrow> ustring \<Rightarrow> qs_obj" where
  "ref_add cfg e obj w = (if w = [] then obj else (case ref_pair cfg e w of (k, v) \<Rightarrow> put_key obj k v))"

definition limit :: "int \<Rightarrow> 'a list \<Rightarrow> 'a list" where
  "limit n xs = (if n > 0 then take (nat n) xs else xs)"

section \<open>Inside a pair\<close>

definition key_flags :: "qs_config \<Rightarrow> ustring \<Rightarrow> bool \<times> bool \<times> nat" where
  "key_flags cfg k = foldl key_step (is_custom cfg, is_custom cfg, 0) k"

definition value_flags :: "qs_config \<Rightarrow> ustring \<Rightarrow> ustring \<Rightarrow> bool \<times> nat" where
  "value_flags cfg k v = foldl check_step (fst (snd (key_flags cfg k)), 0) (filter (\<lambda>c. c \<noteq> 43) v)"

text \<open>The state when \<open>w\<close>, which starts at \<open>a\<close>, was read since the last separator.\<close>

definition within :: "qs_config \<Rightarrow> nat \<Rightarrow> ustring \<Rightarrow> nat \<Rightarrow> ustring \<Rightarrow> int \<Rightarrow> qs_obj \<Rightarrow> qs_state \<Rightarrow> bool" where
  "within cfg e qs i w pairs obj s \<longleftrightarrow>
     qSepIdx s = 0 \<and> qPairs s = pairs \<and> qObj s = obj \<and> qLast s \<le> i \<and>
     (if e \<notin> set w then
        qEqIdx s = 0 \<and> qValue s = [] \<and> (qKeyEnc s, qValEnc s, qCheck s) = key_flags cfg w \<and> qKey s @ qs_cut qs (qLast s) i = plusr cfg w
      else
        qEqIdx s = 1 \<and> qKey s = plusr cfg (key_of e w) \<and> qKeyEnc s = fst (key_flags cfg (key_of e w)) \<and>
        (qValEnc s, qCheck s) = value_flags cfg (key_of e w) (value_of e w) \<and> qValue s @ qs_cut qs (qLast s) i = plusr cfg (value_of e w))"

lemma cut_Suc: "l \<le> i \<Longrightarrow> i < length qs \<Longrightarrow> qs_cut qs l (Suc i) = qs_cut qs l i @ [qs ! i]"
  using take_slice_Suc [of l i qs] by (auto simp: qs_cut_def take_Suc_conv_app_nth Suc_diff_le)

lemma cut_empty [simp]: "qs_cut qs i i = []"
  by (simp add: qs_cut_def)

lemma key_of_snoc: "e \<in> set w \<Longrightarrow> key_of e (w @ u) = key_of e w" "e \<notin> set w \<Longrightarrow> key_of e (w @ e # u) = w" "e \<notin> set w \<Longrightarrow> key_of e w = w"
  by (auto simp: key_of_def takeWhile_append)

lemma value_of_snoc: "e \<in> set w \<Longrightarrow> value_of e (w @ u) = value_of e w @ u" "e \<notin> set w \<Longrightarrow> value_of e (w @ e # u) = u" "e \<notin> set w \<Longrightarrow> value_of e w = []"
proof -
  assume "e \<in> set w"
  then have "dropWhile (\<lambda>c. c \<noteq> e) w \<noteq> []" by (simp add: dropWhile_eq_Nil_conv)
  then show "value_of e (w @ u) = value_of e w @ u" using \<open>e \<in> set w\<close> by (simp add: value_of_def dropWhile_append1)
next
  assume e: "e \<notin> set w"
  then have d: "dropWhile (\<lambda>c. c \<noteq> e) w = []" by (auto simp: dropWhile_eq_Nil_conv)
  show "value_of e w = []" unfolding value_of_def d by simp
  have "dropWhile (\<lambda>c. c \<noteq> e) (w @ e # u) = e # u" using e by (subst dropWhile_append2) auto
  then show "value_of e (w @ e # u) = u" by (simp add: value_of_def)
qed

lemma plusr_snoc: "plusr cfg (w @ [c]) = plusr cfg w @ (if c = 43 then plusChar cfg else [c])"
  by (simp add: plusr_def)

lemma key_flags_snoc: "key_flags cfg (w @ [c]) = key_step (key_flags cfg w) c"
  by (simp add: key_flags_def)

lemma value_flags_snoc: "value_flags cfg k (v @ [c]) = (if c = 43 then value_flags cfg k v else check_step (value_flags cfg k v) c)"
  by (simp add: value_flags_def)

text \<open>One more unit that is not the separator.\<close>

lemma value_char_flags:
  "(qValEnc (value_char cfg qs i c s), qCheck (value_char cfg qs i c s)) = (if c = 43 then (qValEnc s, qCheck s) else check_step (qValEnc s, qCheck s) c)"
  "qSepIdx (value_char cfg qs i c s) = qSepIdx s" "qEqIdx (value_char cfg qs i c s) = qEqIdx s" "qKey (value_char cfg qs i c s) = qKey s"
  "qKeyEnc (value_char cfg qs i c s) = qKeyEnc s" "qPairs (value_char cfg qs i c s) = qPairs s" "qObj (value_char cfg qs i c s) = qObj s"
  "qValue (value_char cfg qs i c s) = (if c = 43 then qValue s @ qs_cut qs (qLast s) i @ plusChar cfg else qValue s)"
  "qLast (value_char cfg qs i c s) = (if c = 43 then i + 1 else qLast s)"
  by (auto simp: value_char_def check_step_def)

lemma within_value:
  assumes w: "within cfg e qs i w pairs obj s" and e: "e \<in> set w" and i: "i < length qs" "qs ! i = c"
  shows "within cfg e qs (Suc i) (w @ [c]) pairs obj (value_char cfg qs i c s)"
proof -
  have l: "qLast s \<le> i" and v: "qValue s @ qs_cut qs (qLast s) i = plusr cfg (value_of e w)" using w e by (auto simp: within_def)
  show ?thesis using w e i cut_Suc [OF l i(1)] v value_char_flags [of cfg qs i c s]
    by (auto simp: within_def key_of_snoc value_of_snoc plusr_snoc value_flags_snoc)
qed

lemma within_equals:
  assumes w: "within cfg e qs i w pairs obj s" and e: "e \<notin> set w" and i: "i < length qs"
  shows "within cfg e qs (Suc i) (w @ [e]) pairs obj (s\<lparr>qEqIdx := 1, qKey := qKey s @ qs_cut qs (qLast s) i, qCheck := 0, qLast := i + 1\<rparr>)"
proof -
  have "(qKeyEnc s, qValEnc s, qCheck s) = key_flags cfg w" using w e by (simp add: within_def)
  then have "qKeyEnc s = fst (key_flags cfg w)" "qValEnc s = fst (snd (key_flags cfg w))" by (metis fst_conv, metis fst_conv snd_conv)
  then show ?thesis using w e by (auto simp: within_def key_of_snoc value_of_snoc value_flags_def plusr_def)
qed

definition key_char :: "qs_config \<Rightarrow> ustring \<Rightarrow> nat \<Rightarrow> nat \<Rightarrow> qs_state \<Rightarrow> qs_state" where
  "key_char cfg qs i code s =
     (case key_escape code s of
        (True, s) \<Rightarrow> s
      | (False, s) \<Rightarrow>
          if code = 43 then s\<lparr>qKey := qKey s @ qs_cut qs (qLast s) i @ plusChar cfg, qLast := i + 1\<rparr> else value_char cfg qs i code s)"

lemma key_char_fields:
  assumes "qValEnc s \<Longrightarrow> qKeyEnc s"
  shows "(qKeyEnc (key_char cfg qs i c s), qValEnc (key_char cfg qs i c s), qCheck (key_char cfg qs i c s)) = key_step (qKeyEnc s, qValEnc s, qCheck s) c"
    "qSepIdx (key_char cfg qs i c s) = qSepIdx s" "qEqIdx (key_char cfg qs i c s) = qEqIdx s" "qValue (key_char cfg qs i c s) = qValue s"
    "qPairs (key_char cfg qs i c s) = qPairs s" "qObj (key_char cfg qs i c s) = qObj s"
    "qKey (key_char cfg qs i c s) = (if c = 43 then qKey s @ qs_cut qs (qLast s) i @ plusChar cfg else qKey s)"
    "qLast (key_char cfg qs i c s) = (if c = 43 then i + 1 else qLast s)"
  using assms by (auto simp: key_char_def key_escape_def value_char_def check_step_def key_step_def Let_def isHexTable_def)

lemma key_flags_order: "fst (snd (key_flags cfg k)) \<Longrightarrow> fst (key_flags cfg k)"
proof -
  have "fst (snd (foldl key_step f k)) \<Longrightarrow> (fst (snd f) \<longrightarrow> fst f) \<Longrightarrow> fst (foldl key_step f k)" for f
  proof (induction k arbitrary: f)
    case (Cons c k)
    have "fst (snd (key_step f c)) \<longrightarrow> fst (key_step f c)" using Cons.prems(2) by (auto simp: key_step_def Let_def split: prod.splits)
    then show ?case using Cons.IH [of "key_step f c"] Cons.prems(1) by simp
  qed simp
  then show "fst (snd (key_flags cfg k)) \<Longrightarrow> fst (key_flags cfg k)" by (simp add: key_flags_def)
qed

lemma within_key:
  assumes w: "within cfg e qs i w pairs obj s" and e: "e \<notin> set w" "c \<noteq> e" and i: "i < length qs" "qs ! i = c"
  shows "within cfg e qs (Suc i) (w @ [c]) pairs obj (key_char cfg qs i c s)"
proof -
  have f: "(qKeyEnc s, qValEnc s, qCheck s) = key_flags cfg w" and l: "qLast s \<le> i" and k: "qKey s @ qs_cut qs (qLast s) i = plusr cfg w"
    using w e by (auto simp: within_def)
  have o: "qValEnc s \<Longrightarrow> qKeyEnc s" using key_flags_order [of cfg w] unfolding f [symmetric] by simp
  have "e \<notin> set (w @ [c])" using e by simp
  then show ?thesis using w e i cut_Suc [OF l i(1)] k f key_char_fields [OF o, of cfg qs i c]
    by (auto simp: within_def plusr_snoc key_flags_snoc)
qed

lemma body_step:
  assumes w: "within cfg e qs i w pairs obj s" and i: "i < length qs" "qs ! i \<noteq> sp" and cfg: "sepCodes cfg = [sp]" "eqCodes cfg = [e]"
  shows "\<exists>s'. parse_body cfg qs i s = (False, s') \<and> within cfg e qs (Suc i) (w @ [qs ! i]) pairs obj s'"
proof -
  have s0: "s\<lparr>qSepIdx := 0\<rparr> = s" using w by (cases s) (simp add: within_def)
  have sp: "char_at (sepCodes cfg) (int (qSepIdx s)) \<noteq> Some (qs ! i)" using i(2) cfg w by (simp add: within_def)
  show ?thesis
  proof (cases "e \<in> set w")
    case True
    then have "qEqIdx s = 1" using w by (simp add: within_def)
    then have "parse_body cfg qs i s = (False, value_char cfg qs i (qs ! i) s)" using sp cfg s0 by (simp add: parse_body_def Let_def)
    then show ?thesis using within_value [OF w True i(1) refl] by blast
  next
    case False
    then have q: "qEqIdx s = 0" using w by (simp add: within_def)
    then have s1: "s\<lparr>qEqIdx := 0\<rparr> = s" by (cases s) simp
    show ?thesis
    proof (cases "qs ! i = e")
      case True
      then show ?thesis using within_equals [OF w False i(1)] sp cfg s0 q by (simp add: parse_body_def Let_def)
    next
      case ne: False
      then have "parse_body cfg qs i s = (False, key_char cfg qs i (qs ! i) s)"
        unfolding parse_body_def key_char_def Let_def s0 s1 using sp cfg q by (auto split: prod.splits bool.splits)
      then show ?thesis using within_key [OF w False ne i(1) refl] by blast
    qed
  qed
qed

section \<open>Pairs\<close>

definition fresh_state :: "qs_config \<Rightarrow> nat \<Rightarrow> int \<Rightarrow> qs_obj \<Rightarrow> qs_state" where
  "fresh_state cfg a pairs obj =
     \<lparr>qLast = a, qSepIdx = 0, qEqIdx = 0, qKey = [], qValue = [], qKeyEnc = is_custom cfg, qValEnc = is_custom cfg, qCheck = 0,
      qPairs = pairs, qObj = obj\<rparr>"

lemma within_fresh: "within cfg e qs a [] pairs obj s \<longleftrightarrow> s = fresh_state cfg (qLast s) pairs obj \<and> qLast s \<le> a \<and> qs_cut qs (qLast s) a = []"
  by (cases s) (auto simp: within_def fresh_state_def key_flags_def plusr_def)

text \<open>Reading a stretch without a separator.\<close>

lemma read_stretch:
  assumes w: "within cfg e qs i w pairs obj s" and cfg: "sepCodes cfg = [sp]" "eqCodes cfg = [e]"
    and u: "take (length u) (drop i qs) = u" "sp \<notin> set u" "i + length u \<le> length qs"
  shows "\<exists>s'. parse_loop cfg qs i s = parse_loop cfg qs (i + length u) s' \<and> within cfg e qs (i + length u) (w @ u) pairs obj s'"
  using w u
proof (induction u arbitrary: i w s)
  case (Cons c u)
  have i: "i < length qs" using Cons.prems(4) by simp
  have dr: "drop i qs = qs ! i # drop (Suc i) qs" using Cons_nth_drop_Suc [OF i] by simp
  have c: "qs ! i = c" "take (length u) (drop (Suc i) qs) = u" using Cons.prems(2) dr by auto
  obtain s1 where s1: "parse_body cfg qs i s = (False, s1)" "within cfg e qs (Suc i) (w @ [c]) pairs obj s1"
    using body_step [OF Cons.prems(1) i _ cfg] c Cons.prems(3) by auto
  have "parse_loop cfg qs i s = parse_loop cfg qs (Suc i) s1" using i s1(1) by (subst parse_loop.simps) simp
  then show ?case using Cons.IH [OF s1(2) c(2)] Cons.prems(3,4) by simp
qed auto

lemma plusr_empty: "plusr cfg w = [] \<longleftrightarrow> w = []"
  by (cases w) (auto simp: plusr_def plusChar_def ascii_def)

lemma flags_decode:
  "fst (key_flags cfg k) \<longleftrightarrow> is_custom cfg \<or> has_escape k"
  "fst (snd (key_flags cfg k)) \<longleftrightarrow> is_custom cfg \<or> has_escape (filter (\<lambda>c. c \<noteq> 43) (after_escape k))"
  "fst (value_flags cfg k v) \<longleftrightarrow> is_custom cfg \<or> has_escape (filter (\<lambda>c. c \<noteq> 43) (after_escape k)) \<or> has_escape (filter (\<lambda>c. c \<noteq> 43) v)"
proof -
  show a: "fst (key_flags cfg k) \<longleftrightarrow> is_custom cfg \<or> has_escape k"
      "fst (snd (key_flags cfg k)) \<longleftrightarrow> is_custom cfg \<or> has_escape (filter (\<lambda>c. c \<noteq> 43) (after_escape k))"
    using key_flags_found(1) [of k] by (cases "is_custom cfg"; auto simp: key_flags_def key_after key_found_def)+
  have "fst (foldl check_step (b, 0) s) \<longleftrightarrow> b \<or> has_escape s" for b s using check_found(1) by (cases b) auto
  then show "fst (value_flags cfg k v) \<longleftrightarrow> is_custom cfg \<or> has_escape (filter (\<lambda>c. c \<noteq> 43) (after_escape k)) \<or> has_escape (filter (\<lambda>c. c \<noteq> 43) v)"
    using a(2) by (auto simp: value_flags_def)
qed

text \<open>What the state of a finished pair adds to the object.\<close>

lemma add_pair:
  assumes w: "within cfg e qs i w pairs obj s" and ne: "w \<noteq> []"
  shows "addKeyVal cfg obj (if e \<in> set w then qKey s else qKey s @ qs_cut qs (qLast s) i) (if e \<in> set w then qValue s @ qs_cut qs (qLast s) i else qValue s)
    (qKeyEnc s) (qValEnc s) = ref_add cfg e obj w"
proof (cases "e \<in> set w")
  case True
  then have f: "qKeyEnc s = fst (key_flags cfg (key_of e w))" "qValEnc s = fst (value_flags cfg (key_of e w) (value_of e w))"
    "qKey s = plusr cfg (key_of e w)" "qValue s @ qs_cut qs (qLast s) i = plusr cfg (value_of e w)"
    using w by (auto simp: within_def) (metis fst_conv)+
  show ?thesis using True ne by (simp add: addKeyVal_def f flags_decode ref_add_def ref_pair_def decode_if_def Let_def)
next
  case False
  then have f: "qKeyEnc s = fst (key_flags cfg w)" "qValEnc s = fst (snd (key_flags cfg w))" "qValue s = []"
    "qKey s @ qs_cut qs (qLast s) i = plusr cfg w" "key_of e w = w" "value_of e w = []"
    using w key_of_snoc(3) value_of_snoc(3) by (auto simp: within_def) (metis fst_conv snd_conv)+
  show ?thesis using False ne by (simp add: addKeyVal_def f flags_decode ref_add_def ref_pair_def decode_if_def Let_def plusr_def)
qed

text \<open>A separator, and the end of the query.\<close>

lemma within_empty: "within cfg e qs i w pairs obj s \<Longrightarrow> i \<le> length qs \<Longrightarrow> e \<notin> set w \<Longrightarrow> \<not> qLast s < i \<and> qKey s = [] \<longleftrightarrow> w = []"
  using plusr_empty [of cfg w] by (auto simp: within_def qs_cut_def split: if_splits)

lemma separator_step:
  assumes w: "within cfg e qs i w pairs obj s" and i: "i < length qs" "qs ! i = sp" and cfg: "sepCodes cfg = [sp]" "eqCodes cfg = [e]"
  shows "parse_body cfg qs i s =
    (if pairs = 1 then (True, snd (parse_body cfg qs i s)) else (False, fresh_state cfg (Suc i) (pairs - 1) (ref_add cfg e obj w))) \<and>
    qObj (snd (parse_body cfg qs i s)) = ref_add cfg e obj w"
proof -
  have s: "qSepIdx s = 0" "qPairs s = pairs" "qObj s = obj" using w by (auto simp: within_def)
  have b: "parse_body cfg qs i s = on_separator cfg qs i (s\<lparr>qSepIdx := 1\<rparr>)" using i cfg s by (simp add: parse_body_def Let_def)
  show ?thesis
  proof (cases "w = []")
    case True
    then have "qEqIdx s = 0" "\<not> qLast s < i" "qKey s = []" "s = fresh_state cfg (qLast s) pairs obj"
      using w within_empty [OF w] i(1) by (auto simp: within_fresh fresh_state_def)
    then show ?thesis unfolding b using cfg s True
      by (cases s) (auto simp: on_separator_def Let_def fresh_state_def ref_add_def)
  next
    case False
    have q: "qEqIdx s = (if e \<in> set w then 1 else 0)" using w by (simp add: within_def)
    have ne: "e \<in> set w \<or> qLast s < i \<or> qKey s \<noteq> []" using within_empty [OF w] i(1) False by auto
    note a = add_pair [OF w False]
    show ?thesis
    proof (cases "e \<in> set w")
      case True
      then show ?thesis unfolding b using a cfg s q by (cases "pairs = 1") (simp_all add: on_separator_def Let_def fresh_state_def)
    next
      case False
      then have "on_separator cfg qs i (s\<lparr>qSepIdx := 1\<rparr>) =
          (let s = s\<lparr>qSepIdx := 1, qKey := qKey s @ qs_cut qs (qLast s) i, qObj := ref_add cfg e obj w, qPairs := pairs - 1\<rparr> in
           if pairs = 1 then (True, s)
           else (False, s\<lparr>qKeyEnc := is_custom cfg, qValEnc := is_custom cfg, qKey := [], qValue := [], qCheck := 0, qLast := i + 1, qSepIdx := 0, qEqIdx := 0\<rparr>))"
        using a cfg s q ne by (auto simp: on_separator_def Let_def)
      then show ?thesis unfolding b by (cases "pairs = 1") (simp_all add: Let_def fresh_state_def)
    qed
  qed
qed

lemma end_step:
  assumes w: "within cfg e qs (length qs) w pairs obj s" and cfg: "sepCodes cfg = [sp]" "eqCodes cfg = [e]"
  shows "parse_end cfg qs s = ref_add cfg e obj w"
proof (cases "w = []")
  case True
  then have "\<not> qLast s < length qs" "qEqIdx s = 0" "qKey s = []" "qObj s = obj" using w within_empty [OF w] by (auto simp: within_def)
  then show ?thesis using True by (simp add: parse_end_def ref_add_def)
next
  case False
  have s: "qSepIdx s = 0" "qObj s = obj" "qEqIdx s < 1 \<longleftrightarrow> e \<notin> set w" using w by (auto simp: within_def split: if_splits)
  have ne: "\<not> (qEqIdx s = 0 \<and> \<not> qLast s < length qs \<and> qKey s = [])" using within_empty [OF w] w False by (auto simp: within_def split: if_splits)
  have c: "qs_cut qs (qLast s) (length qs) = (if qLast s < length qs then drop (qLast s) qs else [])" by (simp add: qs_cut_def)
  show ?thesis using add_pair [OF w False] s ne cfg unfolding c by (auto simp: parse_end_def Let_def split: if_splits)
qed

section \<open>The whole query\<close>

lemma split_cons: "sp \<notin> set w \<Longrightarrow> js_split (w @ sp # u) sp = w # js_split u sp" "sp \<notin> set w \<Longrightarrow> js_split w sp = [w]"
proof -
  have "sp \<notin> set w \<Longrightarrow> split_acc (\<lambda>x. x = sp) cur (w @ sp # u) = (cur @ w) # split_acc (\<lambda>x. x = sp) [] u" for cur
    by (induction w arbitrary: cur) auto
  moreover have "sp \<notin> set w \<Longrightarrow> split_acc (\<lambda>x. x = sp) cur w = [cur @ w]" for cur by (induction w arbitrary: cur) auto
  ultimately show "sp \<notin> set w \<Longrightarrow> js_split (w @ sp # u) sp = w # js_split u sp" "sp \<notin> set w \<Longrightarrow> js_split w sp = [w]"
    by (simp_all add: js_split_def split_by_def)
qed

definition parse_from :: "qs_config \<Rightarrow> ustring \<Rightarrow> nat \<Rightarrow> qs_state \<Rightarrow> qs_obj" where
  "parse_from cfg qs i s = (case parse_loop cfg qs i s of (True, s) \<Rightarrow> qObj s | (False, s) \<Rightarrow> parse_end cfg qs s)"

lemma limit_Cons: "n \<noteq> 0 \<Longrightarrow> limit n (x # xs) = x # (if n = 1 then [] else limit (n - 1) xs)"
  by (cases "n > 0") (auto simp: limit_def take_Cons' nat_diff_distrib)

lemma parse_from_ref:
  assumes cfg: "sepCodes cfg = [sp]" "eqCodes cfg = [e]" and a: "a \<le> length qs" "pairs \<noteq> 0"
  shows "parse_from cfg qs a (fresh_state cfg a pairs obj) = foldl (ref_add cfg e) obj (limit pairs (js_split (drop a qs) sp))"
  using a
proof (induction "length qs - a" arbitrary: a pairs obj rule: less_induct)
  case less
  let ?w = "takeWhile (\<lambda>c. c \<noteq> sp) (drop a qs)" and ?s = "fresh_state cfg a pairs obj"
  define j where "j = a + length ?w"
  have w: "sp \<notin> set ?w" by (metis (mono_tags) set_takeWhileD)
  have dr: "drop a qs = ?w @ dropWhile (\<lambda>c. c \<noteq> sp) (drop a qs)" by simp
  have "length ?w \<le> length qs - a" using length_takeWhile_le [of "\<lambda>c. c \<noteq> sp" "drop a qs"] by simp
  then have j: "j \<le> length qs" using less.prems(1) by (simp add: j_def)
  have dj: "drop j qs = dropWhile (\<lambda>c. c \<noteq> sp) (drop a qs)"
    using dr unfolding j_def by (metis add.commute append_eq_conv_conj drop_drop)
  have f: "within cfg e qs a [] pairs obj ?s" by (simp add: within_fresh fresh_state_def)
  have "take (length ?w) (drop a qs) = ?w" by (metis append_eq_conv_conj takeWhile_dropWhile_id)
  then obtain s1 where s1: "parse_loop cfg qs a ?s = parse_loop cfg qs j s1" "within cfg e qs j ?w pairs obj s1"
    using read_stretch [OF f cfg, of ?w] w j unfolding j_def by auto
  show ?case
  proof (cases "j < length qs")
    case False
    then have "drop a qs = ?w" "j = length qs" using dj dr j by simp_all
    moreover have "parse_loop cfg qs j s1 = (False, s1)" using False by (subst parse_loop.simps) simp
    ultimately show ?thesis using s1 end_step [of cfg e qs ?w pairs obj s1, OF _ cfg] split_cons(2) [OF w] less.prems(2)
      by (simp add: parse_from_def limit_Cons) (simp add: limit_def)
  next
    case True
    then have "drop j qs \<noteq> []" by simp
    then have "hd (drop j qs) = sp" unfolding dj using hd_dropWhile [of "\<lambda>c. c \<noteq> sp" "drop a qs"] by blast
    then have "qs ! j = sp" using True by (simp add: hd_drop_conv_nth)
    note st = separator_step [OF s1(2) True this cfg]
    have "drop j qs = sp # drop (Suc j) qs" using Cons_nth_drop_Suc [OF True] \<open>qs ! j = sp\<close> by simp
    then have sp: "js_split (drop a qs) sp = ?w # js_split (drop (Suc j) qs) sp" using dr dj split_cons(1) [OF w] by metis
    have lp: "parse_loop cfg qs j s1 = (case parse_body cfg qs j s1 of (True, s) \<Rightarrow> (True, s) | (False, s) \<Rightarrow> parse_loop cfg qs (j + 1) s)"
      using True by (subst parse_loop.simps) simp
    show ?thesis
    proof (cases "pairs = 1")
      case 1: True
      then have "parse_from cfg qs a ?s = ref_add cfg e obj ?w" using st lp s1(1) by (auto simp: parse_from_def split: prod.splits bool.splits)
      then show ?thesis using 1 unfolding sp by (simp add: limit_Cons)
    next
      case False
      then have "parse_from cfg qs a ?s = parse_from cfg qs (Suc j) (fresh_state cfg (Suc j) (pairs - 1) (ref_add cfg e obj ?w))"
        using st lp s1(1) by (simp add: parse_from_def)
      also have "\<dots> = foldl (ref_add cfg e) (ref_add cfg e obj ?w) (limit (pairs - 1) (js_split (drop (Suc j) qs) sp))"
        using less.hyps [of "Suc j"] True False by (simp add: j_def)
      finally show ?thesis using False less.prems(2) unfolding sp by (simp add: limit_Cons)
    qed
  qed
qed

section \<open>unescapeBuffer\<close>

text \<open>The bytes it stands for.\<close>

fun unescape_ref :: "bool \<Rightarrow> ustring \<Rightarrow> nat list" where
  "unescape_ref sp [] = []"
| "unescape_ref sp (c # s) =
     (if c = 43 \<and> sp then 32 # unescape_ref sp s
      else
        (case (if c = 37 then take_escape (c # s) else None) of
           Some (b, r) \<Rightarrow> b # unescape_ref sp (drop 2 s)
         | None \<Rightarrow> (c mod 256) # unescape_ref sp s))"

lemma unhex: "unhexTable c < 0 \<longleftrightarrow> hex_value c = None" "hex_value c = Some n \<Longrightarrow> unhexTable c = int n"
  by (auto simp: unhexTable_def split: option.split)

lemma hex_value_less: "hex_value c = Some n \<Longrightarrow> n < 16 \<and> c \<noteq> 37 \<and> c \<noteq> 43"
  by (auto simp: hex_value_def split: if_splits)

text \<open>One turn of the loop writes \<open>bs\<close> and goes to \<open>j\<close>; \<open>h\<close> says that an escape was decoded.\<close>

definition unescape_turn :: "ustring \<Rightarrow> bool \<Rightarrow> nat \<Rightarrow> nat list \<Rightarrow> nat \<Rightarrow> bool \<Rightarrow> bool" where
  "unescape_turn s sp i bs j h \<longleftrightarrow>
     (\<forall>n hh out. unescape_loop s sp i n hh out =
        unescape_loop s sp j (n + length bs) (hh \<or> h) (fold (\<lambda>k out. out[n + k := Some (bs ! k)]) [0..<length bs] out)) \<and>
     unescape_ref sp (drop i s) = bs @ unescape_ref sp (drop j s) \<and> i < j \<and> j \<le> length s \<and> (h \<or> j = i + length bs) \<and> length bs \<le> j - i"

lemma unescape_percent:
  assumes c: "s ! i = 37" "i + 2 < length s"
  shows "\<exists>bs j h. unescape_turn s sp i bs j h"
proof -
  let ?h = "s ! Suc i" and ?l = "s ! Suc (Suc i)"
  have dr: "drop i s = 37 # drop (Suc i) s" using Cons_nth_drop_Suc [of i s] c by simp
  have dr2: "drop (Suc i) s = ?h # ?l # drop (i + 3) s"
    using c Cons_nth_drop_Suc [of "Suc i" s] Cons_nth_drop_Suc [of "Suc (Suc i)" s] by (simp add: numeral_3_eq_3)
  note lp = unescape_loop.simps [of s sp i]
  consider "hex_value ?h = None" | a where "hex_value ?h = Some a" "hex_value ?l = None" | a b where "hex_value ?h = Some a" "hex_value ?l = Some b" by fastforce
  then show ?thesis
  proof cases
    case 1
    then have "take_escape (drop i s) = None" unfolding dr dr2 by (simp add: hex_pair_def)
    then have "unescape_turn s sp i [37] (Suc i) False" using 1 c dr lp by (simp add: unescape_turn_def unhex)
    then show ?thesis by blast
  next
    case (2 a)
    then have t: "take_escape (drop i s) = None" unfolding dr dr2 by (simp add: hex_pair_def)
    have dr3: "drop (Suc i) s = ?h # drop (i + 2) s" using c Cons_nth_drop_Suc [of "Suc i" s] by (simp add: numeral_2_eq_2)
    have "unescape_ref sp (drop (Suc i) s) = ?h mod 256 # unescape_ref sp (drop (i + 2) s)"
      unfolding dr3 using hex_value_less [OF 2(1)] by simp
    then have "unescape_ref sp (drop i s) = [37, ?h mod 256] @ unescape_ref sp (drop (i + 2) s)" using t unfolding dr by simp
    then have "unescape_turn s sp i [37, ?h mod 256] (i + 2) False" using 2 c lp by (simp add: unescape_turn_def unhex numeral_2_eq_2)
    then show ?thesis by blast
  next
    case (3 a b)
    have "a * 16 + b < 256" using hex_value_less [OF 3(1)] hex_value_less [OF 3(2)] by simp
    then have v: "nat (unhexTable ?h * 16 + unhexTable ?l) mod 256 = 16 * a + b"
      using unhex(2) [OF 3(1)] unhex(2) [OF 3(2)] by (simp add: nat_add_distrib nat_mult_distrib)
    have "unescape_ref sp (drop i s) = [16 * a + b] @ unescape_ref sp (drop (i + 3) s)"
      unfolding dr by (simp add: dr2 hex_pair_def 3 numeral_2_eq_2)
    moreover have "\<not> unhexTable ?h < 0" "\<not> unhexTable ?l < 0" using 3 by (simp_all add: unhex)
    ultimately have "unescape_turn s sp i [16 * a + b] (i + 3) True" using v c lp by (simp add: unescape_turn_def numeral_2_eq_2)
    then show ?thesis by blast
  qed
qed

lemma unescape_step:
  assumes i: "i < length s"
  shows "\<exists>bs j h. unescape_turn s sp i bs j h"
proof -
  have dr: "drop i s = s ! i # drop (Suc i) s" using Cons_nth_drop_Suc [OF i] by simp
  note lp = unescape_loop.simps [of s sp i]
  consider "s ! i = 43 \<and> sp" | "s ! i = 37" "i + 2 < length s" | "\<not> (s ! i = 43 \<and> sp)" "\<not> (s ! i = 37 \<and> i + 2 < length s)" by blast
  then show ?thesis
  proof cases
    case 1
    then have "unescape_turn s sp i [32] (Suc i) False" using i dr lp by (simp add: unescape_turn_def)
    then show ?thesis by blast
  next
    case 2 then show ?thesis by (rule unescape_percent)
  next
    case 3
    have "s ! i = 37 \<Longrightarrow> take_escape (drop i s) = None"
      using 3 i by (cases "drop i s" rule: take_escape.cases) (auto dest!: arg_cong [of _ _ length])
    then have "unescape_turn s sp i [s ! i mod 256] (Suc i) False" using 3 i dr lp by (auto simp: unescape_turn_def)
    then show ?thesis by blast
  qed
qed

lemma fold_write:
  "n + length bs \<le> length out \<Longrightarrow>
   fold (\<lambda>k out. out[n + k := Some (bs ! k)]) [0..<length bs] out = take n out @ map Some bs @ drop (n + length bs) out"
proof (induction bs rule: rev_induct)
  case (snoc b bs)
  have "fold (\<lambda>k out. out[n + k := Some ((bs @ [b]) ! k)]) [0..<length bs] out = fold (\<lambda>k out. out[n + k := Some (bs ! k)]) [0..<length bs] out"
    by (rule fold_cong) (auto simp: nth_append)
  moreover have "drop (n + length bs) out = out ! (n + length bs) # drop (Suc (n + length bs)) out"
    using snoc.prems by (simp add: Cons_nth_drop_Suc)
  ultimately show ?case using snoc by (simp add: list_update_append)
qed simp

lemma unescape_loop_writes:
  assumes "take n out = map Some d" "n = length d" "n \<le> i" "hh \<or> n = i" "length out = length s" "i \<le> length s"
  shows "\<exists>m hh' out'. unescape_loop s sp i n hh out = (m, hh', out') \<and>
    take m out' = map Some (d @ unescape_ref sp (drop i s)) \<and> length out' = length s \<and> (hh' \<or> m = length s)"
  using assms
proof (induction "length s - i" arbitrary: i n hh out d rule: less_induct)
  case less
  show ?case
  proof (cases "i < length s")
    case False
    then show ?thesis using less.prems by (subst unescape_loop.simps) auto
  next
    case True
    then obtain bs j h where t: "unescape_turn s sp i bs j h" using unescape_step by blast
    then have j: "i < j" "j \<le> length s" "h \<or> j = i + length bs" "length bs \<le> j - i"
      "unescape_ref sp (drop i s) = bs @ unescape_ref sp (drop j s)" by (auto simp: unescape_turn_def)
    let ?out = "take n out @ map Some bs @ drop (n + length bs) out"
    have n: "n + length bs \<le> length out" using less.prems j by simp
    have "unescape_loop s sp i n hh out = unescape_loop s sp j (n + length bs) (hh \<or> h) ?out"
      using t fold_write [OF n] unfolding unescape_turn_def by simp
    moreover have "\<exists>m hh' out'. unescape_loop s sp j (n + length bs) (hh \<or> h) ?out = (m, hh', out') \<and>
        take m out' = map Some ((d @ bs) @ unescape_ref sp (drop j s)) \<and> length out' = length s \<and> (hh' \<or> m = length s)"
      by (rule less.hyps) (use less.prems j n True in auto)
    ultimately show ?thesis using j(5) by simp
  qed
qed

lemma unescapeBuffer_ref: "unescapeBuffer s sp = map Some (unescape_ref sp s)"
proof -
  obtain m hh out where u: "unescape_loop s sp 0 0 False (replicate (length s) None) = (m, hh, out)"
      "take m out = map Some (unescape_ref sp s)" "length out = length s" "hh \<or> m = length s"
    using unescape_loop_writes [of 0 "replicate (length s) None" "[]" 0 False s sp] by auto
  then show ?thesis by (auto simp: unescapeBuffer_def)
qed

end
