(* ===== verification/QueryStringRound.thy ===== *)
theory QueryStringRound
  imports QueryStringProps
begin

text \<open>
  The properties of the query string functions: \<open>parse\<close> against its reference, \<open>escape\<close> against \<open>encodeURIComponent\<close>, and \<open>parse\<close> after
  \<open>stringify\<close>.
\<close>

section \<open>escape\<close>

lemma noEscape_unescaped: "noEscape c \<longleftrightarrow> unescaped c"
proof (cases "c < 128")
  case True
  have "\<forall>c \<in> set [0..<128]. noEscape c \<longleftrightarrow> unescaped c" by code_simp
  then show ?thesis using True by simp
next
  case False then show ?thesis by (auto simp: noEscape_def unescaped_def)
qed

text \<open>The loop is that of the URL shim, but for a high surrogate at the end, at which it throws.\<close>

lemma qs_encode_loop_shim: "qs_encode_loop t hex str i lp out = Inr r \<Longrightarrow> encodeStr_loop t hex str i lp out = r"
proof (induction "length str - i" arbitrary: i lp out rule: less_induct)
  case less
  note q = less.prems [unfolded qs_encode_loop.simps [of t hex str i lp out] Let_def]
  show ?case
  proof (cases "i < length str")
    case False then show ?thesis using q by (subst encodeStr_loop.simps) simp
  next
    case True
    have IH: "encodeStr_loop t hex str j l out1 = r" if "i < j" "qs_encode_loop t hex str j l out1 = Inr r" for j l out1
      using less.hyps [OF _ that(2)] that(1) True by simp
    show ?thesis using q True by (subst encodeStr_loop.simps) (auto simp: Let_def intro!: IH split: if_splits)
  qed
qed

lemma qs_encode_loop_total:
  "well_formed (drop i str) \<Longrightarrow> \<exists>r. qs_encode_loop t hex str i lp out = Inr r"
proof (induction "length str - i" arbitrary: i lp out rule: less_induct)
  case less
  show ?case
  proof (cases "i < length str")
    case False then show ?thesis by (subst qs_encode_loop.simps) simp
  next
    case True
    have dr: "drop i str = str ! i # drop (Suc i) str" using Cons_nth_drop_Suc [OF True] by simp
    have IH: "\<exists>r. qs_encode_loop t hex str j l out1 = Inr r" if "i < j" "well_formed (drop j str)" for j l out1
      using less.hyps [OF _ that(2)] that(1) True by simp
    show ?thesis
    proof (cases "is_high (str ! i)")
      case high: True
      then obtain d ds where d: "drop (Suc i) str = d # ds" "well_formed ds" using less.prems unfolding dr by (auto split: list.splits)
      then have "Suc i < length str" "ds = drop (i + 2) str"
        by (metis drop_eq_Nil list.distinct(1) not_le, metis add_2_eq_Suc' drop_Suc list.sel(3) tl_drop)
      then show ?thesis using True high d(2) IH [of "i + 2"] by (subst qs_encode_loop.simps) (auto simp: Let_def is_high_def)
    next
      case False
      then have "well_formed (drop (Suc i) str)" "\<not> is_low (str ! i)" using less.prems unfolding dr by auto
      then show ?thesis using True False IH [of "Suc i"] by (subst qs_encode_loop.simps) (auto simp: Let_def is_high_def is_low_def)
    qed
  qed
qed

lemma well_formed_units: "well_formed s \<Longrightarrow> \<forall>c \<in> set s. c < 0x10000"
  by (induction s rule: well_formed.induct) (auto simp: is_high_def is_low_def split: if_splits list.splits)

lemma qsEscape_URI: "well_formed s \<Longrightarrow> qsEscape s = encodeURIComponent s"
proof -
  assume w: "well_formed s"
  have ne: "noEscape = unescaped" using noEscape_unescaped by blast
  obtain r where r: "qs_encode_loop noEscape hexTable s 0 0 [] = Inr r" using qs_encode_loop_total [of 0 s] w by (metis drop0)
  then have "qsEscape s = Inr (encodeStr s unescaped hexTable)"
    using qs_encode_loop_shim [OF r] by (auto simp: qsEscape_def qs_encodeStr_def encodeStr_def ne split: prod.split)
  then show ?thesis using encodeStr_eq_ref encode_ref_URI [OF w] w well_formed_units by metis
qed

text \<open>What an escaped string looks like: no separators, and every percent sign starts an escape.\<close>

definition shielded :: "ustring \<Rightarrow> bool" where
  "shielded e \<longleftrightarrow> (\<forall>c \<in> set e. c \<noteq> 38 \<and> c \<noteq> 61 \<and> c \<noteq> 43) \<and> (37 \<in> set e \<longrightarrow> has_escape e)"

lemma hex_digit_is_hex: "n < 16 \<Longrightarrow> isHexTable (hex_digit n) \<and> hex_digit n \<noteq> 38 \<and> hex_digit n \<noteq> 61 \<and> hex_digit n \<noteq> 43"
  by (auto simp: isHexTable_def hex_digit_def)

lemma shielded_pct: "b < 256 \<Longrightarrow> \<forall>c \<in> set r. c \<noteq> 38 \<and> c \<noteq> 61 \<and> c \<noteq> 43 \<Longrightarrow> shielded (pct b @ r)"
  using hex_digit_is_hex [of "b div 16"] hex_digit_is_hex [of "b mod 16"] by (simp add: shielded_def pct_def has_escape_Cons less_mult_imp_div_less)

lemma utf8_bytes_less: "c < 0x110000 \<Longrightarrow> b \<in> set (utf8_bytes c) \<Longrightarrow> b < 256"
  by (auto simp: utf8_bytes_def split: if_splits)

lemma shielded_escape:
  assumes c: "c < 0x110000" and r: "\<forall>x \<in> set r. x \<noteq> 38 \<and> x \<noteq> 61 \<and> x \<noteq> 43"
  shows "shielded (escape_point c @ r)"
proof -
  obtain b bs where b: "utf8_bytes c = b # bs" by (cases "utf8_bytes c") (auto simp: utf8_bytes_def split: if_splits)
  have "\<forall>x \<in> set (concat (map pct bs)). x \<noteq> 38 \<and> x \<noteq> 61 \<and> x \<noteq> 43"
  proof -
    have "\<forall>x \<in> set (pct b'). x \<noteq> 38 \<and> x \<noteq> 61 \<and> x \<noteq> 43" if "b' \<in> set bs" for b'
      using shielded_pct [of b' "[]"] utf8_bytes_less [OF c, of b'] that b by (simp add: shielded_def)
    then show ?thesis by auto
  qed
  then show ?thesis using shielded_pct [of b "concat (map pct bs) @ r"] utf8_bytes_less [OF c, of b] b r by (auto simp: escape_point_def)
qed

lemma encode_shielded: "well_formed s \<Longrightarrow> encodeURIComponent s = Inr e \<Longrightarrow> shielded e"
proof (induction s arbitrary: e rule: encodeURIComponent.induct)
  case 1 then show ?case by (simp add: shielded_def)
next
  case (2 c cs)
  consider "unescaped c" | "\<not> unescaped c" "\<not> is_high c" | "is_high c" "\<not> unescaped c" by blast
  then show ?case
  proof cases
    case 1
    then have "\<not> is_high c" by (auto simp: unescaped_def is_high_def)
    then obtain e' where e: "encodeURIComponent cs = Inr e'" "e = c # e'" "well_formed cs" using "2.prems" 1 by (auto simp: prefix_result_eq_Inr)
    have "c \<noteq> 38 \<and> c \<noteq> 61 \<and> c \<noteq> 43 \<and> c \<noteq> 37" using 1 by (auto simp: unescaped_def)
    then show ?thesis using "2.IH"(1) [OF 1 e(3,1)] e(2) by (auto simp: shielded_def has_escape_Cons)
  next
    case 2
    then obtain e' where e: "encodeURIComponent cs = Inr e'" "e = escape_point c @ e'" "\<not> is_low c" "well_formed cs" "c < 0x10000"
      using "2.prems" by (auto simp: prefix_result_eq_Inr split: if_splits)
    then show ?thesis using "2.IH"(2) [OF 2(1) e(3) 2(2) e(4,1)] shielded_escape [of c e'] by (simp add: shielded_def)
  next
    case 3
    then obtain d ds where cs: "cs = d # ds" "is_low d" "well_formed ds" using "2.prems"(1) by (auto split: list.splits)
    have nl: "\<not> is_low c" and nn: "\<not> \<not> is_high c" using 3 by (auto simp: is_high_def is_low_def)
    obtain e' where e: "encodeURIComponent ds = Inr e'" "e = escape_point (surrogate_pair c d) @ e'"
      using "2.prems"(2) 3 cs nl by (auto simp: prefix_result_eq_Inr)
    then show ?thesis using "2.IH"(3) [OF 3(2) nl nn cs e(1)] shielded_escape [OF surrogate_pair_props(1) [OF 3(1) cs(2)], of e'] by (simp add: shielded_def)
  qed
qed

section \<open>stringify\<close>

definition esc :: "ustring \<Rightarrow> ustring" where
  "esc s = (case encodeURIComponent s of Inr e \<Rightarrow> e | Inl _ \<Rightarrow> [])"

lemma esc_facts: "well_formed s \<Longrightarrow> encodeURIComponent s = Inr (esc s)" "well_formed s \<Longrightarrow> shielded (esc s)" "well_formed s \<Longrightarrow> decodeURIComponent (esc s) = Inr s"
  using encode_well_formed [of s] encode_shielded [of s] decode_encode_component [of s] by (auto simp: esc_def)

lemma convert_string: "well_formed s \<Longrightarrow> encodeStringified (QString s) qsEscape = Inr (esc s)"
  using esc_facts(1) [of s] qsEscape_URI [of s] by (auto simp: encodeStringified_def esc_def)

definition field_value :: "qs_field \<Rightarrow> qs_value" where
  "field_value f = (case f of One v \<Rightarrow> QPrim (QString v) | Many vs \<Rightarrow> QArray (map QString vs))"

definition field_list :: "qs_field \<Rightarrow> ustring list" where
  "field_list f = (case f of One v \<Rightarrow> [v] | Many vs \<Rightarrow> vs)"

definition pairs_of :: "qs_obj \<Rightarrow> (ustring \<times> ustring) list" where
  "pairs_of obj = concat (map (\<lambda>(k, f). map (Pair k) (field_list f)) obj)"

text \<open>Objects as \<open>parse\<close> builds them, of well-formed strings.\<close>

definition qs_ok :: "qs_obj \<Rightarrow> bool" where
  "qs_ok obj \<longleftrightarrow> distinct (map fst obj) \<and>
     list_all (\<lambda>(k, f). well_formed k \<and> list_all well_formed (field_list f) \<and> (case f of One v \<Rightarrow> True | Many vs \<Rightarrow> 2 \<le> length vs)) obj"

definition pair_text :: "ustring \<times> ustring \<Rightarrow> ustring" where
  "pair_text p = esc (fst p) @ 61 # esc (snd p)"

lemma stringify_array_text:
  assumes "list_all well_formed vs"
  shows "stringify_array (\<lambda>v. encodeStringified v qsEscape) sep ks j (map QString vs) flds =
    Inr (if vs = [] then flds else flds @ (if j > 0 then sep else []) @ js_join sep (map (\<lambda>v. ks @ esc v) vs))"
  using assms
proof (induction vs arbitrary: j flds)
  case (Cons v vs)
  then show ?case using convert_string [of v] by (cases "vs = []") (auto simp: Let_def js_join_Cons)
qed simp

definition join_on :: "ustring \<Rightarrow> ustring list \<Rightarrow> ustring" where
  "join_on flds ts = (if ts = [] then flds else (if flds \<noteq> [] then flds @ [38] else flds) @ js_join [38] ts)"

lemma join_on_append: "[] \<notin> set ts \<Longrightarrow> join_on (join_on flds ts) us = join_on flds (ts @ us)"
  using js_join_eq_Nil [of ts "[38]"] by (auto simp: join_on_def js_join_append list_all_iff)

lemma stringify_keys_text:
  assumes "list_all (\<lambda>(k, f). well_formed k \<and> list_all well_formed (field_list f)) obj"
  shows "stringify_keys (\<lambda>v. encodeStringified v qsEscape) [38] [61] (map (\<lambda>(k, f). (k, field_value f)) obj) flds =
    Inr (join_on flds (map pair_text (pairs_of obj)))"
  using assms
proof (induction obj arbitrary: flds)
  case Nil then show ?case by (simp add: pairs_of_def join_on_def)
next
  case (Cons kf obj)
  obtain k f where kf: "kf = (k, f)" by fastforce
  have w: "well_formed k" "list_all well_formed (field_list f)" using Cons.prems kf by simp_all
  have ne: "[] \<notin> set (map pair_text ps)" for ps by (auto simp: pair_text_def)
  have ps: "pairs_of (kf # obj) = map (Pair k) (field_list f) @ pairs_of obj" by (simp add: pairs_of_def kf)
  have "stringify_keys (\<lambda>v. encodeStringified v qsEscape) [38] [61] (map (\<lambda>(k, f). (k, field_value f)) (kf # obj)) flds =
      stringify_keys (\<lambda>v. encodeStringified v qsEscape) [38] [61] (map (\<lambda>(k, f). (k, field_value f)) obj)
        (join_on flds (map pair_text (map (Pair k) (field_list f))))"
  proof (cases f)
    case (One v)
    then show ?thesis using w convert_string [of k] convert_string [of v] by (simp add: kf field_value_def field_list_def join_on_def pair_text_def)
  next
    case (Many vs)
    then show ?thesis using w convert_string [of k] stringify_array_text [of vs "[38]" "esc k @ [61]" 0]
      by (simp add: kf field_value_def field_list_def join_on_def comp_def pair_text_def)
  qed
  then show ?case using Cons.IH Cons.prems join_on_append [OF ne, of flds "map (Pair k) (field_list f)" "map pair_text (pairs_of obj)"] unfolding ps by simp
qed

section \<open>parse after stringify\<close>

lemma plusr_id: "43 \<notin> set s \<Longrightarrow> plusr cfg s = s"
  by (induction s) (auto simp: plusr_def)

lemma decode_no_percent: "37 \<notin> set s \<Longrightarrow> decodeURIComponent s = Inr s"
  by (induction s) (simp_all add: decode_plain)

lemma decode_esc:
  assumes w: "well_formed s" and c: "customDecode cfg = None" and b: "has_escape (esc s) \<Longrightarrow> b"
  shows "decode_if cfg b (plusr cfg (esc s)) = s"
proof -
  have p: "plusr cfg (esc s) = esc s" using esc_facts(2) [OF w] by (intro plusr_id) (auto simp: shielded_def)
  have d: "decodeStr cfg (esc s) = s" using esc_facts(3) [OF w] c by (simp add: decodeStr_def qsUnescape_def)
  show ?thesis
  proof (cases b)
    case True then show ?thesis using d esc_facts(3) [OF w] unfolding p by (auto simp: decode_if_def)
  next
    case False
    then have "37 \<notin> set (esc s)" using b esc_facts(2) [OF w] by (auto simp: shielded_def)
    then show ?thesis using False decode_no_percent [of "esc s"] esc_facts(3) [OF w] unfolding p by (simp add: decode_if_def)
  qed
qed

lemma shielded_no_plus: "shielded e \<Longrightarrow> filter (\<lambda>c. c \<noteq> 43) e = e"
  by (simp add: shielded_def filter_id_conv)

lemma add_pair_text:
  assumes w: "well_formed k" "well_formed v" and c: "customDecode cfg = None"
  shows "ref_add cfg 61 obj (pair_text (k, v)) = put_key obj k v"
proof -
  have "61 \<notin> set (esc k)" using esc_facts(2) [OF w(1)] by (auto simp: shielded_def)
  then have kv: "key_of 61 (pair_text (k, v)) = esc k" "value_of 61 (pair_text (k, v)) = esc v"
    using key_of_snoc(2) value_of_snoc(2) by (simp_all add: pair_text_def)
  have ne: "pair_text (k, v) \<noteq> []" by (simp add: pair_text_def)
  show ?thesis using ne decode_esc [OF w(1) c] decode_esc [OF w(2) c] shielded_no_plus [OF esc_facts(2) [OF w(2)]]
    unfolding ref_add_def ref_pair_def kv Let_def by simp
qed

lemma put_many: "k \<notin> fst ` set obj \<Longrightarrow> foldl (\<lambda>o1 v. put_key o1 k v) (obj @ [(k, Many us)]) vs = obj @ [(k, Many (us @ vs))]"
proof (induction vs arbitrary: us)
  case (Cons v vs)
  have "map_of obj k = None" using Cons.prems by (simp add: map_of_eq_None_iff)
  then have m: "map_of (obj @ [(k, Many us)]) k = Some (Many us)" by (simp add: map_add_def)
  have "map (\<lambda>(k', f). if k' = k then (k', Many (us @ [v])) else (k', f)) obj = obj" using Cons.prems by (intro map_idI) (auto simp: image_iff)
  then have "put_key (obj @ [(k, Many us)]) k v = obj @ [(k, Many (us @ [v]))]" using m by (simp add: put_key_def)
  then show ?case using Cons by simp
qed simp

lemma put_field:
  assumes "k \<notin> fst ` set obj" "case f of One v \<Rightarrow> True | Many vs \<Rightarrow> 2 \<le> length vs"
  shows "foldl (\<lambda>o1 v. put_key o1 k v) obj (field_list f) = obj @ [(k, f)]"
proof -
  have n: "map_of obj k = None" using assms(1) by (simp add: map_of_eq_None_iff)
  then have one: "put_key obj k v = obj @ [(k, One v)]" for v by (simp add: put_key_def)
  show ?thesis
  proof (cases f)
    case (One v) then show ?thesis using one by (simp add: field_list_def)
  next
    case (Many vs)
    then obtain v1 v2 ws where vs: "vs = v1 # v2 # ws" using assms(2) by (cases vs rule: remdups_adj.cases) auto
    have m: "map_of (obj @ [(k, One v1)]) k = Some (One v1)" using n by (simp add: map_add_def)
    have "map (\<lambda>(k', f). if k' = k then (k', Many [v1, v2]) else (k', f)) obj = obj" using assms(1) by (intro map_idI) (auto simp: image_iff)
    then have "put_key (obj @ [(k, One v1)]) k v2 = obj @ [(k, Many [v1, v2])]" using m by (simp add: put_key_def)
    then show ?thesis using put_many [OF assms(1), of "[v1, v2]" ws] one by (simp add: Many vs field_list_def)
  qed
qed

lemma put_pairs:
  assumes "distinct (map fst (obj @ obj'))" "list_all (\<lambda>(k, f). case f of One v \<Rightarrow> True | Many vs \<Rightarrow> 2 \<le> length vs) obj'"
  shows "foldl (\<lambda>o1 (k, v). put_key o1 k v) obj (pairs_of obj') = obj @ obj'"
  using assms
proof (induction obj' arbitrary: obj)
  case (Cons kf obj')
  obtain k f where kf: "kf = (k, f)" by fastforce
  have "foldl (\<lambda>o1 (k, v). put_key o1 k v) obj (map (Pair k) vs) = foldl (\<lambda>o1 v. put_key o1 k v) obj vs" for vs
    by (induction vs arbitrary: obj) auto
  then have "foldl (\<lambda>o1 (k, v). put_key o1 k v) obj (pairs_of (kf # obj')) = foldl (\<lambda>o1 (k, v). put_key o1 k v) (obj @ [(k, f)]) (pairs_of obj')"
    using put_field [of k obj f] Cons.prems kf by (simp add: pairs_of_def)
  then show ?case using Cons.IH [of "obj @ [(k, f)]"] Cons.prems kf by simp
qed (simp add: pairs_of_def)

section \<open>The whole of parse\<close>

definition max_pairs :: "int option \<Rightarrow> int" where
  "max_pairs maxKeys = (case maxKeys of None \<Rightarrow> 1000 | Some n \<Rightarrow> if n > 0 then n else -1)"

lemma parse_splits:
  assumes "or_default [38] sep = [sp]" "or_default [61] eq = [e]"
  shows "qs_parse toStr (Some qs) sep eq maxKeys custom = foldl (ref_add (parse_cfg sep eq custom toStr) e) [] (limit (max_pairs maxKeys) (js_split qs sp))"
proof -
  let ?cfg = "parse_cfg sep eq custom toStr" and ?n = "max_pairs maxKeys"
  have cfg: "sepCodes ?cfg = [sp]" "eqCodes ?cfg = [e]" using assms by (simp_all add: parse_cfg_def)
  have start: "parse_start ?cfg maxKeys = fresh_state ?cfg 0 ?n []" by (simp add: parse_start_def fresh_state_def max_pairs_def)
  have n: "?n \<noteq> 0" by (simp add: max_pairs_def split: option.split)
  show ?thesis
  proof (cases "qs = []")
    case True
    then show ?thesis using limit_Cons [OF n, of "[]" "[]"] by (simp add: qs_parse_def js_split_def ref_add_def limit_def)
  next
    case False
    then have "qs_parse toStr (Some qs) sep eq maxKeys custom = parse_from ?cfg qs 0 (fresh_state ?cfg 0 ?n [])"
      by (simp add: qs_parse_def parse_from_def Let_def start)
    then show ?thesis using parse_from_ref [OF cfg le0 n, of qs "[]"] by simp
  qed
qed

text \<open>For ASCII queries it makes no difference what the flags say: everything is decoded.\<close>

definition is_ascii :: "ustring \<Rightarrow> bool" where
  "is_ascii s \<longleftrightarrow> list_all (\<lambda>c. c < 128) s"

lemma isHex_value: "isHexTable c \<longleftrightarrow> hex_value c \<noteq> None"
  by (auto simp: isHexTable_def hex_value_def)

lemma no_escape_take: "\<not> has_escape s \<Longrightarrow> take_escape s = None"
  by (cases s rule: take_escape.cases) (auto simp: isHex_value hex_pair_def split: option.splits if_splits)

lemma unescape_plain: "\<not> has_escape s \<Longrightarrow> is_ascii s \<Longrightarrow> unescape_ref False s = s"
proof (induction s)
  case (Cons c s)
  then have "\<not> has_escape s" "take_escape (c # s) = None" using no_escape_take has_escape_Cons by blast+
  then show ?case using Cons by (cases "c = 37") (simp_all add: is_ascii_def)
qed simp

lemma decode_plain_string: "\<not> has_escape s \<Longrightarrow> decodeURIComponent s = Inr t \<Longrightarrow> t = s"
proof (induction s arbitrary: t)
  case (Cons c s)
  show ?case
  proof (cases "c = 37")
    case True
    then have "decodeURIComponent (c # s) = Inl uri_error" using no_escape_take [OF Cons.prems(1)] decode_bad_escape [of s] by (simp add: take_point_def)
    then show ?thesis using Cons.prems(2) by simp
  next
    case False
    then show ?thesis using Cons has_escape_Cons by (auto simp: decode_plain prefix_result_eq_Inr)
  qed
qed simp

lemma unescape_no_escape:
  assumes "\<And>bs. is_ascii bs \<Longrightarrow> toStr (map Some bs) = bs" "\<not> has_escape s" "is_ascii s"
  shows "qsUnescape toStr s False = s"
  using assms decode_plain_string [OF assms(2)] unescapeBuffer_ref [of s False] unescape_plain [OF assms(2,3)]
  by (auto simp: qsUnescape_def split: sum.split)

lemma has_escape_map: "(\<And>c. f c = 37 \<longleftrightarrow> c = 37) \<Longrightarrow> (\<And>c. isHexTable (f c) \<longleftrightarrow> isHexTable c) \<Longrightarrow> has_escape (map f s) = has_escape s"
  by (induction s rule: has_escape.induct) auto

lemma has_escape_filter: "has_escape s \<Longrightarrow> has_escape (filter (\<lambda>c. c \<noteq> 43) s)"
proof (induction s)
  case (Cons c s)
  have h: "isHexTable h \<Longrightarrow> h \<noteq> 43" for h by (auto simp: isHexTable_def)
  show ?case
  proof (cases "has_escape s")
    case True then show ?thesis using Cons.IH by (auto simp: has_escape_Cons)
  next
    case False
    then obtain h l r where "c = 37" "s = h # l # r" "isHexTable h" "isHexTable l" using Cons.prems has_escape_Cons by blast
    then show ?thesis using h by simp
  qed
qed simp

definition ascii_pair :: "(nat option list \<Rightarrow> ustring) \<Rightarrow> nat \<Rightarrow> ustring \<Rightarrow> ustring \<times> ustring" where
  "ascii_pair toStr e w =
     (let dec = (\<lambda>s. qsUnescape toStr (map (\<lambda>c. if c = 43 then 32 else c) s) False) in (dec (key_of e w), dec (value_of e w)))"

lemma ref_pair_ascii:
  assumes toStr: "\<And>bs. is_ascii bs \<Longrightarrow> toStr (map Some bs) = bs" and w: "is_ascii w"
    and cfg: "customDecode cfg = None" "bufToString cfg = toStr"
  shows "ref_pair cfg e w = ascii_pair toStr e w"
proof -
  let ?p = "map (\<lambda>c. if c = 43 then 32 else c :: nat)"
  have pl: "plusr cfg s = ?p s" for s using cfg by (induction s) (auto simp: plusr_def plusChar_def is_custom_def)
  have he: "has_escape (?p s) = has_escape s" for s by (rule has_escape_map) (auto simp: isHexTable_def)
  have d: "decode_if cfg b (?p s) = qsUnescape toStr (?p s) False" if "is_ascii s" "has_escape s \<longrightarrow> b" for b s
  proof -
    have "is_ascii (?p s)" using that(1) by (auto simp: is_ascii_def list_all_iff)
    then have "\<not> b \<Longrightarrow> qsUnescape toStr (?p s) False = ?p s" using unescape_no_escape [OF toStr, of "?p s"] he that(2) by blast
    moreover have "qsUnescape toStr [] False = []" by (simp add: qsUnescape_def)
    ultimately show ?thesis using cfg by (auto simp: decode_if_def decodeStr_def)
  qed
  have "set (key_of e w) \<subseteq> set w" by (auto simp: key_of_def dest: set_takeWhileD)
  moreover have "set (value_of e w) \<subseteq> set w"
    unfolding value_of_def by (metis (no_types, lifting) dual_order.trans list.set_sel(2) set_dropWhileD subsetI tl_Nil)
  ultimately have "is_ascii (key_of e w)" "is_ascii (value_of e w)" using w by (auto simp: is_ascii_def list_all_iff)
  then show ?thesis using has_escape_filter [of "value_of e w"] unfolding ref_pair_def ascii_pair_def Let_def pl by (simp add: d)
qed

text \<open>Evaluating the reference.\<close>

lemmas query_eval = js_split_def split_by_def ascii_def ref_add_def ref_pair_def key_of_def value_of_def plusr_def plusChar_def is_custom_def
  parse_cfg_def decode_if_def decodeStr_def qsUnescape_def put_key_def limit_def max_pairs_def isHexTable_def or_default_def decode_eval

section \<open>The properties\<close>

text \<open>C9: with separators of one code unit (the default ones are), \<open>parse\<close> splits the query at the separator, takes at most \<open>maxKeys\<close> pieces,
  skips the empty ones, and splits each of the others at its first \<open>=\<close> into a key and a value, in which \<open>+\<close> is a space and escapes are decoded;
  values of one key become an array. A key is decoded if it has an escape, a value if it has one, not counting \<open>+\<close>, or if its key has two.\<close>

theorem query_parse_splits:
  assumes "or_default [38] sep = [sp]" "or_default [61] eq = [e]"
  shows "qs_parse toStr (Some qs) sep eq maxKeys custom = foldl (ref_add (parse_cfg sep eq custom toStr) e) [] (limit (max_pairs maxKeys) (js_split qs sp))"
  using assms by (rule parse_splits)

theorem query_parse_splits_witness:
  "qs_parse (map the) (Some (ascii ''a=1&b=%41+c&&a=2'')) None None (Some 4) None =
     foldl (ref_add (parse_cfg None None None (map the)) 61) [] (limit (max_pairs (Some 4)) (js_split (ascii ''a=1&b=%41+c&&a=2'') 38)) \<and>
   qs_parse (map the) (Some (ascii ''a=1&b=%41+c&&a=2'')) None None (Some 4) None = [(ascii ''a'', Many [ascii ''1'', ascii ''2'']), (ascii ''b'', One (ascii ''A c''))]"
proof
  show "qs_parse (map the) (Some (ascii ''a=1&b=%41+c&&a=2'')) None None (Some 4) None =
     foldl (ref_add (parse_cfg None None None (map the)) 61) [] (limit (max_pairs (Some 4)) (js_split (ascii ''a=1&b=%41+c&&a=2'') 38))"
    by (rule query_parse_splits) (simp_all add: or_default_def)
  show "qs_parse (map the) (Some (ascii ''a=1&b=%41+c&&a=2'')) None None (Some 4) None =
     [(ascii ''a'', Many [ascii ''1'', ascii ''2'']), (ascii ''b'', One (ascii ''A c''))]"
    by (simp add: parse_splits [of None 38 None 61] query_eval)
qed

text \<open>For ASCII queries, the decoder of the library and a \<open>toString\<close> that reads ASCII bytes as themselves, every piece is simply decoded.\<close>

lemma query_parse_ascii:
  assumes "or_default [38] sep = [sp]" "or_default [61] eq = [e]" "is_ascii qs" "\<And>bs. is_ascii bs \<Longrightarrow> toStr (map Some bs) = bs"
  shows "qs_parse toStr (Some qs) sep eq maxKeys None =
    foldl (\<lambda>obj w. case ascii_pair toStr e w of (k, v) \<Rightarrow> put_key obj k v) [] (filter (\<lambda>w. w \<noteq> []) (limit (max_pairs maxKeys) (js_split qs sp)))"
proof -
  let ?cfg = "parse_cfg sep eq None toStr" and ?ws = "limit (max_pairs maxKeys) (js_split qs sp)"
  have "set w \<subseteq> set qs" if "w \<in> set (js_split qs sp)" for w
  proof -
    have "set w \<subseteq> set cur \<union> set s" if "w \<in> set (split_acc (\<lambda>x. x = sp) cur s)" for cur s
      using that by (induction "\<lambda>x. x = sp" cur s rule: split_acc.induct) (auto split: if_splits)
    then show ?thesis using that unfolding js_split_def split_by_def by fastforce
  qed
  then have a: "is_ascii w" if "w \<in> set ?ws" for w
    using that assms(3) set_take_subset [of "nat (max_pairs maxKeys)" "js_split qs sp"] by (auto simp: is_ascii_def list_all_iff limit_def split: if_splits)
  have "foldl (ref_add ?cfg e) obj ws = foldl (\<lambda>obj w. case ascii_pair toStr e w of (k, v) \<Rightarrow> put_key obj k v) obj (filter (\<lambda>w. w \<noteq> []) ws)"
    if "set ws \<subseteq> set ?ws" for ws obj
    using that
  proof (induction ws arbitrary: obj)
    case (Cons w ws)
    then show ?case using ref_pair_ascii [OF assms(4) a, of w ?cfg e] by (auto simp: ref_add_def parse_cfg_def)
  qed simp
  then show ?thesis using parse_splits [OF assms(1,2)] by simp
qed

text \<open>The two cases in which a value that has no escape is decoded all the same. If it is not ASCII it comes out as the bytes of its code units,
  read as UTF-8, and not as it is.\<close>

lemma query_value_needlessly_decoded:
  "qs_parse toStr (Some (ascii ''%41%42='' @ [0xE9, 37])) None None None None = [(ascii ''AB'', One (toStr [Some 0xE9, Some 37]))]"
  "qs_parse toStr (Some (ascii ''%41='' @ [0xE9, 37])) None None None None = [(ascii ''A'', One [0xE9, 37])]"
  by (simp_all add: parse_splits [of None 38 None 61] query_eval unescapeBuffer_ref)

text \<open>C12: \<open>unescapeBuffer\<close> allocates its buffer without clearing it, but every byte it returns was written: the result is the decoded
  string, whatever the string holds.\<close>

theorem unescape_buffer_written: "unescapeBuffer s decodeSpaces = map Some (unescape_ref decodeSpaces s)"
  by (rule unescapeBuffer_ref)

text \<open>C10: \<open>parse\<close> of what \<open>stringify\<close> made of an object of strings and arrays of at least two strings, all of them well-formed, gives the object
  back, as long as the number of its values is within \<open>maxKeys\<close>.\<close>

theorem query_string_roundtrip:
  assumes "qs_ok obj" "max_pairs maxKeys = -1 \<or> int (length (pairs_of obj)) \<le> max_pairs maxKeys"
  shows "\<exists>q. stringify (Some (map (\<lambda>(k, f). (k, field_value f)) obj)) None None None = Inr q \<and>
    qs_parse toStr (Some q) None None maxKeys None = obj"
proof -
  let ?cfg = "parse_cfg None None None toStr" and ?n = "max_pairs maxKeys"
  let ?q = "js_join [38] (map pair_text (pairs_of obj))"
  have ok: "distinct (map fst obj)" "list_all (\<lambda>(k, f). well_formed k \<and> list_all well_formed (field_list f)) obj"
    "list_all (\<lambda>(k, f). case f of One v \<Rightarrow> True | Many vs \<Rightarrow> 2 \<le> length vs) obj"
    using assms(1) by (auto simp: qs_ok_def list_all_iff)
  have "stringify (Some (map (\<lambda>(k, f). (k, field_value f)) obj)) None None None = Inr ?q"
    using stringify_keys_text [OF ok(2), of "[]"] by (simp add: stringify_def or_default_def join_on_def)
  moreover have "qs_parse toStr (Some ?q) None None maxKeys None = obj"
  proof (cases "pairs_of obj = []")
    case True
    then have "obj = []" using ok(3) by (cases obj) (auto simp: pairs_of_def field_list_def split: qs_field.splits)
    then show ?thesis by (simp add: pairs_of_def qs_parse_def)
  next
    case False
    have w: "well_formed k \<and> well_formed v" if "(k, v) \<in> set (pairs_of obj)" for k v
      using that ok(2) by (auto simp: pairs_of_def list_all_iff)
    have "38 \<notin> set (pair_text p)" if "p \<in> set (pairs_of obj)" for p
      using that w [of "fst p" "snd p"] esc_facts(2) [of "fst p"] esc_facts(2) [of "snd p"] by (auto simp: pair_text_def shielded_def)
    then have "js_split ?q 38 = map pair_text (pairs_of obj)"
      unfolding js_split_def by (intro split_by_join) (use False in \<open>auto simp: list_all_iff\<close>)
    moreover have "limit ?n (map pair_text (pairs_of obj)) = map pair_text (pairs_of obj)"
      using assms(2) by (auto simp: limit_def)
    moreover have "foldl (ref_add ?cfg 61) o1 (map pair_text ps) = foldl (\<lambda>o1 (k, v). put_key o1 k v) o1 ps"
      if "set ps \<subseteq> set (pairs_of obj)" for ps o1
      using that
    proof (induction ps arbitrary: o1)
      case (Cons p ps)
      have "ref_add ?cfg 61 o1 (pair_text p) = (case p of (k, v) \<Rightarrow> put_key o1 k v)"
        using add_pair_text [of "fst p" "snd p" ?cfg o1] w [of "fst p" "snd p"] Cons.prems by (auto simp: parse_cfg_def split: prod.split)
      then show ?case using Cons by (simp add: split_beta)
    qed simp
    ultimately show ?thesis using put_pairs [of "[]" obj] ok(1,3) by (simp add: parse_splits [of None 38 None 61] or_default_def)
  qed
  ultimately show ?thesis by blast
qed

theorem query_string_roundtrip_witness:
  "\<exists>q. stringify (Some (map (\<lambda>(k, f). (k, field_value f)) [(ascii ''a b'', One (ascii ''x&y'')), (ascii ''c'', Many [[], [0x20AC], ascii ''+='']), ([], One [])])) None None None = Inr q \<and>
    qs_parse (map the) (Some q) None None None None = [(ascii ''a b'', One (ascii ''x&y'')), (ascii ''c'', Many [[], [0x20AC], ascii ''+='']), ([], One [])]"
  by (rule query_string_roundtrip) (simp_all add: qs_ok_def ascii_def field_list_def is_high_def is_low_def pairs_of_def max_pairs_def)

end
