(* ===== verification/CjsResolve.thy ===== *)
theory CjsResolve
  imports CjsLoader Realm
begin

text \<open>
  How Node's CommonJS loader finds the file of a request (\<open>libjs-node/internal/modules/cjs/loader.js\<close>), on POSIX.  The file system does not
  change in the model, so the cache of \<open>stat\<close>, which then answers as \<open>stat\<close> does, is left out; \<open>Module._pathCache\<close> is kept.  Parameters of the environment are the native \<open>stat\<close> and
  \<open>realpath\<close>, the reader of \<open>package.json\<close> files, the resolution of \<open>exports\<close> and \<open>imports\<close> maps (\<open>esm/resolve.js\<close>), and the option values.
  An empty string that the code tests for truth counts as no answer.
\<close>

section \<open>The environment\<close>

text \<open>A field of a \<open>package.json\<close> that the code only tests: undefined, null, or a value.\<close>

datatype pkg_field = Absent | Null | Present

record cjs_pkg =
  pkg_exists :: bool
  pkg_name :: "string option"
  pkg_main :: "string option"
  pkg_exports :: pkg_field
  pkg_imports :: pkg_field

record cjs_env =
  env_cwd :: string
  internalModuleStat :: "string \<Rightarrow> int"
  toRealPath :: "string \<Rightarrow> string result"
  packageJsonRead :: "string \<Rightarrow> cjs_pkg result"
  nearestParentPackage :: "string \<Rightarrow> (string \<times> cjs_pkg) option"
  packageExportsResolve :: "string \<Rightarrow> string \<Rightarrow> string option \<Rightarrow> string list \<Rightarrow> string result"
  packageImportsResolve :: "string \<Rightarrow> string \<Rightarrow> string list \<Rightarrow> string result"
  urlToPath :: "string \<Rightarrow> string result"
  preserve_symlinks :: bool
  preserve_symlinks_main :: bool
  module_extensions :: "string list"
  modulePaths :: "string list"

record cjs_rstate =
  pathCache :: "string \<Rightarrow> string option"
  cjs_warnings :: "string list"

type_synonym 'a cjs_step = "cjs_rstate \<Rightarrow> 'a result \<times> cjs_rstate"

definition cjs_resolve :: "cjs_env \<Rightarrow> string list \<Rightarrow> string" where
  "cjs_resolve env ps = posix_resolve (env_cwd env) ps"

definition cjs_stat :: "cjs_env \<Rightarrow> string \<Rightarrow> int" where
  "cjs_stat env filename = internalModuleStat env (posix_toNamespacedPath filename)"

definition truthy_path :: "string \<Rightarrow> string option" where
  "truthy_path f = (if f = [] then None else Some f)"

definition module_not_found_code :: string where
  "module_not_found_code = ''MODULE_NOT_FOUND''"

text \<open>A name in single quotes, as the messages show it.\<close>

definition quoted :: "string \<Rightarrow> string" where
  "quoted s = [CHR 0x27] @ s @ [CHR 0x27]"

section \<open>Files and directories\<close>

text \<open>The name a file is known by: its real path unless symbolic links are preserved.\<close>

definition tryFile :: "cjs_env \<Rightarrow> string \<Rightarrow> bool \<Rightarrow> string option result" where
  "tryFile env requestPath isMain =
     (if cjs_stat env requestPath \<noteq> 0 then Inr None
      else if (if isMain then preserve_symlinks_main env else preserve_symlinks env) then Inr (truthy_path (cjs_resolve env [requestPath]))
      else (case toRealPath env requestPath of Inl e \<Rightarrow> Inl e | Inr f \<Rightarrow> Inr (truthy_path f)))"

fun tryExtensions :: "cjs_env \<Rightarrow> string \<Rightarrow> string list \<Rightarrow> bool \<Rightarrow> string option result" where
  "tryExtensions env basePath [] isMain = Inr None"
| "tryExtensions env basePath (e # exts) isMain =
     (case tryFile env (basePath @ e) isMain of
        Inl er \<Rightarrow> Inl er
      | Inr (Some filename) \<Rightarrow> Inr (Some filename)
      | Inr None \<Rightarrow> tryExtensions env basePath exts isMain)"

text \<open>\<open>a || b\<close> on answers.\<close>

definition or_else :: "string option result \<Rightarrow> string option result \<Rightarrow> string option result" where
  "or_else a b = (case a of Inr None \<Rightarrow> b | _ \<Rightarrow> a)"

definition invalid_main_error :: "string \<Rightarrow> js_error" where
  "invalid_main_error filename =
     JsError (Some module_not_found_code)
       (''Cannot find module '' @ quoted filename @ ''. Please verify that the package.json has a valid '' @ [CHR 0x22] @ ''main'' @ [CHR 0x22] @ '' entry'')"

definition tryPackage :: "cjs_env \<Rightarrow> string \<Rightarrow> string list \<Rightarrow> bool \<Rightarrow> string option cjs_step" where
  "tryPackage env requestPath exts isMain st =
     (case packageJsonRead env (cjs_resolve env [requestPath, ''package.json'']) of
        Inl e \<Rightarrow> (Inl e, st)
      | Inr pkg \<Rightarrow>
          (case (case pkg_main pkg of None \<Rightarrow> None | Some m \<Rightarrow> truthy_path m) of
             None \<Rightarrow> (tryExtensions env (cjs_resolve env [requestPath, ''index'']) exts isMain, st)
           | Some m \<Rightarrow>
               (let filename = cjs_resolve env [requestPath, m] in
                case or_else (or_else (tryFile env filename isMain) (tryExtensions env filename exts isMain))
                       (tryExtensions env (cjs_resolve env [filename, ''index'']) exts isMain) of
                  Inl e \<Rightarrow> (Inl e, st)
                | Inr (Some actual) \<Rightarrow> (Inr (Some actual), st)
                | Inr None \<Rightarrow>
                    (case tryExtensions env (cjs_resolve env [requestPath, ''index'']) exts isMain of
                       Inl e \<Rightarrow> (Inl e, st)
                     | Inr None \<Rightarrow> (Inl (invalid_main_error filename), st)
                     | Inr (Some actual) \<Rightarrow>
                         (Inr (Some actual), st\<lparr>cjs_warnings := (''DEP0128 '' @ requestPath) # cjs_warnings st\<rparr>)))))"

section \<open>Extensions\<close>

text \<open>The longest suffix of the name, from a dot that is not its first character, that is registered.\<close>

function longest_extension :: "string list \<Rightarrow> string \<Rightarrow> nat \<Rightarrow> string" where
  "longest_extension exts name startIndex =
     (let index = index_of (drop startIndex name) CHR ''.'' in
      if index = -1 then ''.js''
      else
        (let i = startIndex + nat index in
         if i \<noteq> 0 \<and> drop i name \<in> set exts then drop i name else longest_extension exts name (i + 1)))"
  by pat_completeness auto
termination
proof (relation "measure (\<lambda>(exts, name, i). length name - i)", goal_cases)
  case (2 exts name s index i)
  have ex: "index_of_from j c xs = -1 \<or> xs \<noteq> []" for j c and xs :: string by (cases xs) auto
  have "drop s name \<noteq> []" using ex [of 0 "CHR ''.''" "drop s name"] 2 by (auto simp: index_of_def)
  then show ?case using 2 by simp
qed simp

declare longest_extension.simps [simp del]

definition findLongestRegisteredExtension :: "cjs_env \<Rightarrow> string \<Rightarrow> string" where
  "findLongestRegisteredExtension env filename = longest_extension (module_extensions env) (posix_basename filename None) 0"

section \<open>exports and imports\<close>

fun encoded_sep :: "string \<Rightarrow> bool" where
  "encoded_sep [] \<longleftrightarrow> False"
| "encoded_sep (c # cs) \<longleftrightarrow> take 3 (c # cs) \<in> set [''%2F'', ''%2f'', ''%5C'', ''%5c''] \<or> encoded_sep cs"

definition esm_not_found :: "string \<Rightarrow> js_error" where
  "esm_not_found request = JsError (Some module_not_found_code) (''Cannot find module '' @ quoted request)"

definition finalizeEsmResolution :: "cjs_env \<Rightarrow> string \<Rightarrow> string option result" where
  "finalizeEsmResolution env resolved =
     (if encoded_sep resolved then Inl (JsError (Some ''ERR_INVALID_MODULE_SPECIFIER'') resolved)
      else
        (case urlToPath env resolved of
           Inl e \<Rightarrow> Inl e
         | Inr filename \<Rightarrow>
             (case tryFile env filename False of
                Inl e \<Rightarrow> Inl e
              | Inr (Some actual) \<Rightarrow> Inr (Some actual)
              | Inr None \<Rightarrow> Inl (esm_not_found filename))))"

text \<open>The \<open>catch\<close> that both callers have.\<close>

definition esm_catch :: "string \<Rightarrow> string option result \<Rightarrow> string option result" where
  "esm_catch request r =
     (case r of
        Inl e \<Rightarrow> if err_code e = Some ''ERR_MODULE_NOT_FOUND'' then Inl (esm_not_found request) else Inl e
      | Inr v \<Rightarrow> Inr v)"

definition exports_finalize :: "cjs_env \<Rightarrow> string \<Rightarrow> string result \<Rightarrow> string option result" where
  "exports_finalize env request r = esm_catch request (case r of Inl e \<Rightarrow> Inl e | Inr url \<Rightarrow> finalizeEsmResolution env url)"

definition name_char :: "char \<Rightarrow> bool" where
  "name_char c \<longleftrightarrow> c \<noteq> CHR ''/'' \<and> c \<noteq> CHR 0x5C \<and> c \<noteq> CHR ''%''"

text \<open>\<open>EXPORTS_PATTERN\<close>: the package name, with its scope, and the rest.\<close>

definition exports_name :: "string \<Rightarrow> (string \<times> string) option" where
  "exports_name s =
     (case s of
        [] \<Rightarrow> None
      | c # cs \<Rightarrow>
          if \<not> name_char c \<or> c = CHR ''.'' then None
          else
            (let r = dropWhile name_char cs in
             if r = [] \<or> hd r = CHR ''/'' \<and> CHR 0x0A \<notin> set r \<and> CHR 0x0D \<notin> set r then Some (c # takeWhile name_char cs, r) else None))"

definition exports_scope :: "string \<Rightarrow> (string \<times> string) option" where
  "exports_scope s =
     (case s of
        [] \<Rightarrow> None
      | c # cs \<Rightarrow>
          (let r = dropWhile name_char cs in
           if c = CHR ''@'' \<and> takeWhile name_char cs \<noteq> [] \<and> r \<noteq> [] \<and> hd r = CHR ''/''
           then Some (c # takeWhile name_char cs @ ''/'', tl r) else None))"

definition exports_pattern :: "string \<Rightarrow> (string \<times> string) option" where
  "exports_pattern s =
     (case exports_scope s of
        None \<Rightarrow> exports_name s
      | Some (sc, r) \<Rightarrow> (case exports_name r of Some (n, e) \<Rightarrow> Some (sc @ n, e) | None \<Rightarrow> exports_name s))"

definition resolveExports :: "cjs_env \<Rightarrow> string \<Rightarrow> string \<Rightarrow> string list \<Rightarrow> string option result" where
  "resolveExports env nmPath request conditions =
     (case exports_pattern request of
        None \<Rightarrow> Inr None
      | Some (name, expansion) \<Rightarrow>
          (let pkgPath = cjs_resolve env [nmPath, name] in
           case packageJsonRead env (cjs_resolve env [pkgPath, ''package.json'']) of
             Inl e \<Rightarrow> Inl e
           | Inr pkg \<Rightarrow>
               if pkg_exists pkg \<and> pkg_exports pkg = Present then
                 exports_finalize env request (packageExportsResolve env (pkgPath @ ''/package.json'') (''.'' @ expansion) None conditions)
               else Inr None))"

section \<open>Module._findPath\<close>

definition path_slash :: char where
  "path_slash = CHR ''/''"

definition trailing_slash :: "string \<Rightarrow> bool" where
  "trailing_slash request \<longleftrightarrow>
     (let n = length request in
      n > 0 \<and>
      (request ! (n - 1) = path_slash \<or>
       request ! (n - 1) = CHR ''.'' \<and>
         (n = 1 \<or> request ! (n - 2) = path_slash \<or>
          request ! (n - 2) = CHR ''.'' \<and> (n = 2 \<or> request ! (n - 3) = path_slash))))"

definition isRelative :: "string \<Rightarrow> bool" where
  "isRelative p \<longleftrightarrow>
     char_at p 0 = Some CHR ''.'' \<and>
     (length p = 1 \<or> p = ''..'' \<or> starts_with p ''./'' \<or> starts_with p ''../'' \<or> starts_with p [CHR ''.'', CHR ''.'', CHR 0x5C])"

definition cacheKey :: "string \<Rightarrow> string list \<Rightarrow> string" where
  "cacheKey request paths = request @ CHR 0x00 # js_join [CHR 0x00] paths"

definition inside_path :: "string \<Rightarrow> bool" where
  "inside_path request \<longleftrightarrow> \<not> (isRelative request \<and> starts_with (posix_normalize request) ''..'')"

text \<open>What one path of the search answers.\<close>

definition find_in_path :: "cjs_env \<Rightarrow> string \<Rightarrow> bool \<Rightarrow> string \<Rightarrow> string option cjs_step" where
  "find_in_path env request isMain curPath st =
     (let basePath = cjs_resolve env [curPath, request];
          rc = cjs_stat env basePath;
          exts = module_extensions env;
          found = (if trailing_slash request then Inr None
                   else or_else (tryFile env basePath isMain) (tryExtensions env basePath exts isMain))
      in case found of
           Inl e \<Rightarrow> (Inl e, st)
         | Inr (Some filename) \<Rightarrow> (Inr (Some filename), st)
         | Inr None \<Rightarrow> if rc = 1 then tryPackage env basePath exts isMain st else (Inr None, st))"

fun find_in_paths :: "cjs_env \<Rightarrow> string \<Rightarrow> string \<Rightarrow> bool \<Rightarrow> bool \<Rightarrow> string list \<Rightarrow> string list \<Rightarrow> string option cjs_step" where
  "find_in_paths env key request absoluteRequest isMain conditions [] st = (Inr None, st)"
| "find_in_paths env key request absoluteRequest isMain conditions (curPath # paths) st =
     (if inside_path request \<and> curPath \<noteq> [] \<and> cjs_stat env curPath < 1 then
        find_in_paths env key request absoluteRequest isMain conditions paths st
      else
        (case (if absoluteRequest then Inr None else resolveExports env curPath request conditions) of
           Inl e \<Rightarrow> (Inl e, st)
         | Inr (Some exportsResolved) \<Rightarrow> (Inr (Some exportsResolved), st)
         | Inr None \<Rightarrow>
             (case find_in_path env request isMain curPath st of
                (Inl e, st) \<Rightarrow> (Inl e, st)
              | (Inr (Some filename), st) \<Rightarrow> (Inr (Some filename), st\<lparr>pathCache := (pathCache st)(key \<mapsto> filename)\<rparr>)
              | (Inr None, st) \<Rightarrow> find_in_paths env key request absoluteRequest isMain conditions paths st)))"

definition findPath :: "cjs_env \<Rightarrow> string \<Rightarrow> string list option \<Rightarrow> bool \<Rightarrow> string list \<Rightarrow> string option cjs_step" where
  "findPath env request paths isMain conditions st =
     (let absoluteRequest = posix_isAbsolute request;
          paths = (if absoluteRequest then [[]] else (case paths of None \<Rightarrow> [] | Some ps \<Rightarrow> ps))
      in if paths = [] then (Inr None, st)
         else
           (let key = cacheKey request paths in
            case (case pathCache st key of None \<Rightarrow> None | Some e \<Rightarrow> truthy_path e) of
              Some entry \<Rightarrow> (Inr (Some entry), st)
            | None \<Rightarrow> find_in_paths env key request absoluteRequest isMain conditions paths st))"

section \<open>Where to look\<close>

record cjs_parent =
  par_id :: string
  par_filename :: "string option"
  par_paths :: "string list"
  par_stack :: "string list"

definition truthy_name :: "string option \<Rightarrow> bool" where
  "truthy_name f \<longleftrightarrow> (case f of None \<Rightarrow> False | Some s \<Rightarrow> s \<noteq> [])"

definition resolveLookupPaths :: "cjs_env \<Rightarrow> string \<Rightarrow> cjs_parent option \<Rightarrow> string list option" where
  "resolveLookupPaths env request parent =
     (if normalizeRequirableId request \<noteq> None then None
      else if char_at request 0 \<noteq> Some CHR ''.'' \<or>
         (length request > 1 \<and> char_at request 1 \<noteq> Some CHR ''.'' \<and> char_at request 1 \<noteq> Some path_slash) then
        (let paths = (case parent of None \<Rightarrow> [] | Some p \<Rightarrow> par_paths p) @ modulePaths env
         in if paths \<noteq> [] then Some paths else None)
      else
        (case parent of
           None \<Rightarrow> Some [''.'']
         | Some p \<Rightarrow>
             if par_id p = [] \<or> \<not> truthy_name (par_filename p) then Some [''.'']
             else (case par_filename p of Some f \<Rightarrow> Some [posix_dirname f] | None \<Rightarrow> Some [''.''])))"

definition trySelfParentPath :: "cjs_env \<Rightarrow> cjs_parent option \<Rightarrow> string option" where
  "trySelfParentPath env parent =
     (case parent of
        None \<Rightarrow> None
      | Some p \<Rightarrow>
          if truthy_name (par_filename p) then par_filename p
          else if par_id p = ''<repl>'' \<or> par_id p = ''internal/preload'' then Some (env_cwd env @ ''/'')
          else None)"

definition trySelf :: "cjs_env \<Rightarrow> string option \<Rightarrow> string \<Rightarrow> string list \<Rightarrow> string option result" where
  "trySelf env parentPath request conditions =
     (case parentPath of
        None \<Rightarrow> Inr None
      | Some pp \<Rightarrow>
          (case nearestParentPackage env pp of
             None \<Rightarrow> Inr None
           | Some (pjson, pkg) \<Rightarrow>
               (case pkg_name pkg of
                  None \<Rightarrow> Inr None
                | Some name \<Rightarrow>
                    if pkg_exports pkg = Absent then Inr None
                    else if request = name then exports_finalize env request (packageExportsResolve env pjson ''.'' (Some pp) conditions)
                    else if starts_with request (name @ ''/'') then
                      exports_finalize env request (packageExportsResolve env pjson (''.'' @ drop (length name) request) (Some pp) conditions)
                    else Inr None)))"

section \<open>Module._resolveFilename\<close>

text \<open>The argument \<open>options\<close>: none, or an object whose \<open>paths\<close> is undefined, an array, or something else, and its \<open>conditions\<close>.\<close>

datatype resolve_options = NoOptions | Options "string list option" "string list option" | BadOption

definition cjs_conditions :: "string list" where
  "cjs_conditions = [''require'', ''node'']"

text \<open>The paths of \<open>options.paths\<close>, without duplicates. \<open>_resolveLookupPaths\<close> never answers null here.\<close>

definition add_missing :: "string list \<Rightarrow> string list \<Rightarrow> string list" where
  "add_missing paths new = foldl (\<lambda>ps x. if x \<in> set ps then ps else ps @ [x]) paths new"

definition option_paths :: "cjs_env \<Rightarrow> string \<Rightarrow> string list \<Rightarrow> string list" where
  "option_paths env request ps =
     foldl (\<lambda>paths p.
        let fakeParent = \<lparr>par_id = [], par_filename = None, par_paths = nodeModulePaths (env_cwd env) p, par_stack = []\<rparr>
        in add_missing paths (case resolveLookupPaths env request (Some fakeParent) of None \<Rightarrow> [] | Some l \<Rightarrow> l)) [] ps"

definition not_found_error :: "string \<Rightarrow> cjs_parent option \<Rightarrow> js_error" where
  "not_found_error request parent =
     (let requireStack = (case parent of None \<Rightarrow> [] | Some p \<Rightarrow> par_stack p) in
      JsError (Some module_not_found_code)
        (''Cannot find module '' @ quoted request @
         (if requireStack = [] then [] else [CHR 0x0A] @ ''Require stack:'' @ [CHR 0x0A] @ ''- '' @ js_join ([CHR 0x0A] @ ''- '') requireStack)))"

text \<open>\<open>None\<close> is the \<open>TypeError\<close> of reading \<open>paths.length\<close> of null after a self resolution.\<close>

definition remember_self :: "string \<Rightarrow> string list option \<Rightarrow> string \<Rightarrow> string cjs_step" where
  "remember_self request paths selfResolved st =
     (case paths of
        None \<Rightarrow> (Inl (JsError None ''TypeError''), st)
      | Some ps \<Rightarrow> (Inr selfResolved, st\<lparr>pathCache := (pathCache st)(cacheKey request ps \<mapsto> selfResolved)\<rparr>))"

definition resolve_paths :: "cjs_env \<Rightarrow> string \<Rightarrow> cjs_parent option \<Rightarrow> resolve_options \<Rightarrow> string list option result" where
  "resolve_paths env request parent options =
     (case options of
        NoOptions \<Rightarrow> Inr (resolveLookupPaths env request parent)
      | Options None _ \<Rightarrow> Inr (resolveLookupPaths env request parent)
      | Options (Some ps) _ \<Rightarrow> Inr (Some (if isRelative request then ps else option_paths env request ps))
      | BadOption \<Rightarrow> Inl (JsError (Some ''ERR_INVALID_ARG_VALUE'') ''options.paths''))"

text \<open>Requests that start with a hash go through the \<open>imports\<close> of the parent's package.\<close>

definition try_imports :: "cjs_env \<Rightarrow> string \<Rightarrow> cjs_parent option \<Rightarrow> string list \<Rightarrow> string option result" where
  "try_imports env request parent conditions =
     (case parent of
        None \<Rightarrow> Inr None
      | Some p \<Rightarrow>
          if char_at request 0 = Some CHR ''#'' \<and> (truthy_name (par_filename p) \<or> par_id p = ''<repl>'') then
            (let parentPath = (case par_filename p of Some f \<Rightarrow> f | None \<Rightarrow> env_cwd env @ ''/'') in
             case nearestParentPackage env parentPath of
               Some (pjson, pkg) \<Rightarrow>
                 if pkg_imports pkg = Present then exports_finalize env request (packageImportsResolve env request parentPath conditions)
                 else Inr None
             | None \<Rightarrow> Inr None)
          else Inr None)"

definition resolveFilename :: "cjs_env \<Rightarrow> string \<Rightarrow> cjs_parent option \<Rightarrow> bool \<Rightarrow> resolve_options \<Rightarrow> string cjs_step" where
  "resolveFilename env request parent isMain options st =
     (if normalizeRequirableId request \<noteq> None then (Inr request, st)
      else
        (let conditions = (case options of Options _ (Some c) \<Rightarrow> c | _ \<Rightarrow> cjs_conditions) in
         case resolve_paths env request parent options of
           Inl e \<Rightarrow> (Inl e, st)
         | Inr paths \<Rightarrow>
             (case try_imports env request parent conditions of
                Inl e \<Rightarrow> (Inl e, st)
              | Inr (Some f) \<Rightarrow> (Inr f, st)
              | Inr None \<Rightarrow>
                  (case trySelf env (trySelfParentPath env parent) request conditions of
                     Inl e \<Rightarrow> (Inl e, st)
                   | Inr (Some selfResolved) \<Rightarrow> remember_self request paths selfResolved st
                   | Inr None \<Rightarrow>
                       (case findPath env request paths isMain conditions st of
                          (Inl e, st) \<Rightarrow> (Inl e, st)
                        | (Inr (Some filename), st) \<Rightarrow> (Inr filename, st)
                        | (Inr None, st) \<Rightarrow> (Inl (not_found_error request parent), st))))))"

section \<open>Module._initPaths\<close>

definition initPaths :: "string \<Rightarrow> string \<Rightarrow> string option \<Rightarrow> string option \<Rightarrow> string list" where
  "initPaths cwd execPath home nodePath =
     (let prefixDir = posix_resolve cwd [execPath, ''..'', ''..''];
          paths = [posix_resolve cwd [prefixDir, ''lib'', ''node'']];
          paths = (if truthy_name home then [posix_resolve cwd [the home, ''.node_modules''], posix_resolve cwd [the home, ''.node_libraries'']] @ paths else paths)
      in if truthy_name nodePath then filter (\<lambda>p. p \<noteq> []) (js_split (the nodePath) CHR '':'') @ paths else paths)"

end
