(* ===== verification/CjsModule.thy ===== *)
theory CjsModule
  imports CjsResolve BootLoader
begin

text \<open>
  Loading with Node's CommonJS loader (\<open>libjs-node/internal/modules/cjs/loader.js\<close>), as \<open>libjs/loader.js\<close> sets it up for programs that are not packaged:
  \<open>Module._load\<close>, \<open>Module.prototype.load\<close>, \<open>_compile\<close> and the extension handlers, the wrapper that \<open>__initCJS\<close> puts around \<open>Module._load\<close>, and
  \<open>__loadUserScript\<close>.  The functions they call for resolution are those of \<open>CjsResolve\<close>, the bootstrap loader is that of \<open>BootLoader\<close>.

  Parameters, the fields of \<open>module_env\<close>, are the file system, the compiler, \<open>JSON.parse\<close>, \<open>process.dlopen\<close>, the loader of ES modules and the handlers of extensions that the
  user registers.  Hooks of \<open>module.registerHooks\<close> and watch mode are not modelled, nor are modules that an ES module put into the cache.  The code of a
  module is a tree of its actions, as in \<open>BootLoader\<close>.  A result of \<open>None\<close> is a computation that does not return.
\<close>

section \<open>Values and state\<close>

text \<open>\<open>MObj m\<close> is the \<open>exports\<close> object created with the module at address \<open>m\<close>, \<open>MHost v\<close> a value of the bootstrap loader, \<open>MPlain s\<close> any other value.\<close>

datatype mval = MObj nat | MHost jsval | MPlain string

datatype cjs_prog =
    PDone
  | PThrow js_error
  | PRequire string "mval result \<Rightarrow> cjs_prog"
  | PResolve string resolve_options "string result \<Rightarrow> cjs_prog"
  | PCreateRequire string "nat result \<Rightarrow> cjs_prog"
  | PRequireFrom nat string "mval result \<Rightarrow> cjs_prog"
  | PSetExports mval cjs_prog
  | PMarkEsModule nat cjs_prog
  | PDeleteCache string cjs_prog

record module_rec =
  m_id :: string
  m_path :: string
  m_exports :: mval
  m_parent :: "nat option"
  m_filename :: "string option"
  m_paths :: "string list option"
  m_loaded :: bool
  m_children :: "nat list"
  m_isMain :: bool

record module_env =
  me_fs :: cjs_env
  me_read :: "string \<Rightarrow> string result"
  me_compile :: "string \<Rightarrow> string \<Rightarrow> bool \<Rightarrow> cjs_prog option result"
  me_compile_ts :: "string \<Rightarrow> string \<Rightarrow> cjs_prog result"
  me_esm :: "string \<Rightarrow> string \<Rightarrow> bool \<Rightarrow> mval result"
  me_json :: "string \<Rightarrow> mval result"
  me_dlopen :: "string \<Rightarrow> mval result"
  me_handler :: "string \<Rightarrow> string \<Rightarrow> cjs_prog"
  me_type :: "string \<Rightarrow> string option"
  me_truthy :: "mval \<Rightarrow> bool"
  me_boot :: boot_env
  me_boot_depth :: nat

text \<open>The modules by address, \<open>Module._cache\<close>, \<open>relativeResolveCache\<close>, the state of resolution, \<open>process.mainModule\<close>, the objects whose prototype is the
  proxy that warns about cycles, those with \<open>__esModule\<close>, the \<open>BuiltinModule\<close> objects, the bootstrap loader, and the files whose code was run, newest first.\<close>

record cjs_state =
  cs_mods :: "module_rec list"
  cs_cache :: "string \<Rightarrow> nat option"
  cs_relative :: "string \<Rightarrow> string option"
  cs_resolve :: cjs_rstate
  cs_main :: "nat option"
  cs_proxied :: "nat list"
  cs_esModule :: "nat list"
  cs_builtins :: "string \<Rightarrow> jsval builtin_module"
  cs_boot :: boot_state
  cs_ran :: "string list"

type_synonym 'a cjs_run = "cjs_state \<Rightarrow> ('a result \<times> cjs_state) option"

type_synonym cjs_load_fn = "string \<Rightarrow> nat option \<Rightarrow> bool \<Rightarrow> mval cjs_run"

definition blank_module :: module_rec where
  "blank_module = \<lparr>m_id = [], m_path = ''.'', m_exports = MPlain [], m_parent = None, m_filename = None, m_paths = None, m_loaded = False, m_children = [], m_isMain = False\<rparr>"

definition module_at :: "cjs_state \<Rightarrow> nat \<Rightarrow> module_rec" where
  "module_at st m = (if m < length (cs_mods st) then cs_mods st ! m else blank_module)"

definition update_module :: "nat \<Rightarrow> (module_rec \<Rightarrow> module_rec) \<Rightarrow> cjs_state \<Rightarrow> cjs_state" where
  "update_module m f st = st\<lparr>cs_mods := (cs_mods st)[m := f (cs_mods st ! m)]\<rparr>"

definition type_error :: js_error where
  "type_error = JsError None ''TypeError''"

section \<open>Modules\<close>

text \<open>The constructor of \<open>Module\<close>: the record it makes and the parent's \<open>children\<close>.\<close>

definition add_child :: "nat option \<Rightarrow> nat \<Rightarrow> bool \<Rightarrow> cjs_state \<Rightarrow> cjs_state" where
  "add_child parent child scan st =
     (case parent of
        None \<Rightarrow> st
      | Some p \<Rightarrow> if scan \<and> child \<in> set (m_children (module_at st p)) then st else update_module p (\<lambda>r. r\<lparr>m_children := m_children r @ [child]\<rparr>) st)"

definition drop_child :: "nat option \<Rightarrow> nat \<Rightarrow> cjs_state \<Rightarrow> cjs_state" where
  "drop_child parent child st = (case parent of None \<Rightarrow> st | Some p \<Rightarrow> update_module p (\<lambda>r. r\<lparr>m_children := remove1 child (m_children r)\<rparr>) st)"

definition new_module :: "string \<Rightarrow> nat option \<Rightarrow> nat \<Rightarrow> module_rec" where
  "new_module i parent m =
     \<lparr>m_id = i, m_path = posix_dirname i, m_exports = MObj m, m_parent = parent, m_filename = None, m_paths = None, m_loaded = False, m_children = [], m_isMain = False\<rparr>"

text \<open>The chain of parents, for the error message.  A parent is older than its child, so the number of modules bounds the chain.\<close>

fun require_stack :: "nat \<Rightarrow> cjs_state \<Rightarrow> nat option \<Rightarrow> string list" where
  "require_stack 0 st cursor = []"
| "require_stack (Suc n) st None = []"
| "require_stack (Suc n) st (Some p) =
     (let r = module_at st p in
      (case m_filename r of None \<Rightarrow> m_id r | Some f \<Rightarrow> if f = [] then m_id r else f) # require_stack n st (m_parent r))"

definition parent_of :: "cjs_state \<Rightarrow> nat \<Rightarrow> cjs_parent" where
  "parent_of st p =
     (let r = module_at st p in
      \<lparr>par_id = m_id r, par_filename = m_filename r, par_paths = (case m_paths r of None \<Rightarrow> [] | Some ps \<Rightarrow> ps),
       par_stack = require_stack (length (cs_mods st)) st (Some p)\<rparr>)"

section \<open>Answers of modules that are being loaded\<close>

text \<open>Only the object made with a module is known to be a plain object.\<close>

definition getExportsForCircularRequire :: "nat \<Rightarrow> cjs_state \<Rightarrow> mval \<times> cjs_state" where
  "getExportsForCircularRequire m st =
     (let e = m_exports (module_at st m) in
      (e, (case e of
             MObj x \<Rightarrow> if x \<in> set (cs_proxied st) \<or> x \<in> set (cs_esModule st) then st else st\<lparr>cs_proxied := x # cs_proxied st\<rparr>
           | _ \<Rightarrow> st)))"

definition reset_prototype :: "nat \<Rightarrow> cjs_state \<Rightarrow> cjs_state" where
  "reset_prototype m st = (case m_exports (module_at st m) of MObj x \<Rightarrow> st\<lparr>cs_proxied := removeAll x (cs_proxied st)\<rparr> | _ \<Rightarrow> st)"

definition cached_answer :: "nat option \<Rightarrow> nat \<Rightarrow> cjs_state \<Rightarrow> mval result \<times> cjs_state" where
  "cached_answer parent m st =
     (let st = add_child parent m True st in
      if m_loaded (module_at st m) then (Inr (m_exports (module_at st m)), st)
      else (case getExportsForCircularRequire m st of (v, st) \<Rightarrow> (Inr v, st)))"

section \<open>Builtin modules\<close>

definition bootstrap_require :: "module_env \<Rightarrow> string \<Rightarrow> jsval cjs_run" where
  "bootstrap_require env i st =
     (case boot_require (me_boot_depth env) (me_boot env) i (cs_boot st) of
        None \<Rightarrow> None
      | Some (r, b) \<Rightarrow> Some (r, st\<lparr>cs_boot := b\<rparr>))"

text \<open>\<open>loadBuiltinModule\<close> answers undefined for an id that users cannot require.\<close>

definition loadBuiltinModule :: "module_env \<Rightarrow> string \<Rightarrow> jsval builtin_module option cjs_run" where
  "loadBuiltinModule env i st =
     (if \<not> canBeRequiredByUsers i then Some (Inr None, st)
      else if bmod_loaded (cs_builtins st i) then Some (Inr (Some (cs_builtins st i)), st)
      else
        (case bootstrap_require env i st of
           None \<Rightarrow> None
         | Some (r, st) \<Rightarrow>
             (case compileForPublicLoader (\<lambda>i. r) (cs_builtins st i) of
                (err, b) \<Rightarrow>
                  (let st = st\<lparr>cs_builtins := (cs_builtins st)(i := b)\<rparr>
                   in Some (case err of None \<Rightarrow> Inr (Some b) | Some e \<Rightarrow> Inl e, st)))))"

definition loadBuiltinWithHooks :: "module_env \<Rightarrow> string \<Rightarrow> mval cjs_run" where
  "loadBuiltinWithHooks env i st =
     (case loadBuiltinModule env i st of
        None \<Rightarrow> None
      | Some (Inl e, st) \<Rightarrow> Some (Inl e, st)
      | Some (Inr None, st) \<Rightarrow> Some (Inl type_error, st)
      | Some (Inr (Some b), st) \<Rightarrow> Some (Inr (MHost (bmod_exports b)), st))"

text \<open>\<open>if (result) return result\<close>.\<close>

definition try_builtin :: "bool \<Rightarrow> module_env \<Rightarrow> string \<Rightarrow> mval option cjs_run" where
  "try_builtin wanted env i st =
     (if wanted then
        (case loadBuiltinWithHooks env i st of
           None \<Rightarrow> None
         | Some (Inl e, st) \<Rightarrow> Some (Inl e, st)
         | Some (Inr v, st) \<Rightarrow> Some (Inr (if me_truthy env v then Some v else None), st))
      else Some (Inr None, st))"

section \<open>The code of a module\<close>

definition module_require_id :: "cjs_load_fn \<Rightarrow> nat \<Rightarrow> string \<Rightarrow> mval cjs_run" where
  "module_require_id load m i st =
     (if i = [] then Some (Inl (JsError (Some ''ERR_INVALID_ARG_VALUE'') ''id''), st) else load i (Some m) False st)"

definition require_resolve :: "module_env \<Rightarrow> nat \<Rightarrow> string \<Rightarrow> resolve_options \<Rightarrow> cjs_state \<Rightarrow> string result \<times> cjs_state" where
  "require_resolve env m request options st =
     (case resolveFilename (me_fs env) request (Some (parent_of st m)) False options (cs_resolve st) of
        (r, rs) \<Rightarrow> (r, st\<lparr>cs_resolve := rs\<rparr>))"

definition create_from_path :: "module_env \<Rightarrow> string \<Rightarrow> cjs_state \<Rightarrow> cjs_state" where
  "create_from_path env filename st =
     (let proxyPath = createRequire_proxyPath filename;
          r = new_module proxyPath None (length (cs_mods st))
      in st\<lparr>cs_mods := cs_mods st @ [r\<lparr>m_filename := Some proxyPath, m_paths := Some (nodeModulePaths (env_cwd (me_fs env)) (m_path r))\<rparr>]\<rparr>)"

text \<open>\<open>createRequire\<close> of a string: an absolute path or a file URL.\<close>

definition createRequire :: "module_env \<Rightarrow> string \<Rightarrow> cjs_state \<Rightarrow> nat result \<times> cjs_state" where
  "createRequire env filename st =
     (case (if posix_isAbsolute filename then Inr filename else urlToPath (me_fs env) filename) of
        Inl e \<Rightarrow> (Inl (JsError (Some ''ERR_INVALID_ARG_VALUE'') ''filename''), st)
      | Inr f \<Rightarrow> (Inr (length (cs_mods st)), create_from_path env f st))"

primrec exec_cjs :: "cjs_prog \<Rightarrow> cjs_load_fn \<Rightarrow> module_env \<Rightarrow> nat \<Rightarrow> unit cjs_run" where
  "exec_cjs PDone load env m st = Some (Inr (), st)"
| "exec_cjs (PThrow e) load env m st = Some (Inl e, st)"
| "exec_cjs (PRequire i k) load env m st =
     (case module_require_id load m i st of None \<Rightarrow> None | Some (r, st) \<Rightarrow> exec_cjs (k r) load env m st)"
| "exec_cjs (PResolve i options k) load env m st =
     (case require_resolve env m i options st of (r, st) \<Rightarrow> exec_cjs (k r) load env m st)"
| "exec_cjs (PCreateRequire f k) load env m st =
     (case createRequire env f st of (r, st) \<Rightarrow> exec_cjs (k r) load env m st)"
| "exec_cjs (PRequireFrom h i k) load env m st =
     (case (if h < length (cs_mods st) then module_require_id load h i st else Some (Inl type_error, st)) of
        None \<Rightarrow> None | Some (r, st) \<Rightarrow> exec_cjs (k r) load env m st)"
| "exec_cjs (PSetExports v p) load env m st = exec_cjs p load env m (update_module m (\<lambda>r. r\<lparr>m_exports := v\<rparr>) st)"
| "exec_cjs (PMarkEsModule x p) load env m st = exec_cjs p load env m (st\<lparr>cs_esModule := x # cs_esModule st\<rparr>)"
| "exec_cjs (PDeleteCache f p) load env m st = exec_cjs p load env m (st\<lparr>cs_cache := (cs_cache st)(f := None)\<rparr>)"

section \<open>Extension handlers\<close>

definition run_code :: "cjs_prog \<Rightarrow> cjs_load_fn \<Rightarrow> module_env \<Rightarrow> string \<Rightarrow> nat \<Rightarrow> unit cjs_run" where
  "run_code p load env filename m st = exec_cjs p load env m (st\<lparr>cs_ran := filename # cs_ran st\<rparr>)"

definition loadESMFromCJS :: "module_env \<Rightarrow> string \<Rightarrow> string \<Rightarrow> nat \<Rightarrow> cjs_state \<Rightarrow> unit result \<times> cjs_state" where
  "loadESMFromCJS env filename source m st =
     (case me_esm env filename source (m_isMain (module_at st m)) of
        Inl e \<Rightarrow> (Inl e, st)
      | Inr v \<Rightarrow> (Inr (), if m_isMain (module_at st m) then st\<lparr>cs_main := None\<rparr> else update_module m (\<lambda>r. r\<lparr>m_exports := v\<rparr>) st))"

text \<open>\<open>Module.prototype._compile\<close>; the wrapper is not patched and types are not stripped.  The compiler answers \<open>None\<close> for a source that is an ES module.\<close>

definition module_compile :: "cjs_load_fn \<Rightarrow> module_env \<Rightarrow> string \<Rightarrow> string \<Rightarrow> string option \<Rightarrow> nat \<Rightarrow> unit cjs_run" where
  "module_compile load env content filename format m st =
     (if format = Some ''module'' then Some (loadESMFromCJS env filename content m st)
      else
        (case me_compile env content filename (format \<noteq> Some ''commonjs'') of
           Inl e \<Rightarrow> Some (Inl e, st)
         | Inr None \<Rightarrow> Some (loadESMFromCJS env filename content m st)
         | Inr (Some p) \<Rightarrow> run_code p load env filename m st))"

definition js_format :: "module_env \<Rightarrow> string \<Rightarrow> string option" where
  "js_format env filename =
     (if ends_with filename ''.cjs'' then Some ''commonjs''
      else if ends_with filename ''.mjs'' then Some ''module''
      else if ends_with filename ''.js'' then
        (let typeFromPjson = me_type env filename in
         if typeFromPjson = Some ''module'' \<or> typeFromPjson = Some ''commonjs'' then typeFromPjson else None)
      else None)"

definition js_handler :: "cjs_load_fn \<Rightarrow> module_env \<Rightarrow> string \<Rightarrow> nat \<Rightarrow> unit cjs_run" where
  "js_handler load env filename m st =
     (case me_read env filename of
        Inl e \<Rightarrow> Some (Inl e, st)
      | Inr source \<Rightarrow> module_compile load env source filename (js_format env filename) m st)"

definition with_filename :: "string \<Rightarrow> js_error \<Rightarrow> js_error" where
  "with_filename filename e = (case e of JsError c message \<Rightarrow> JsError c (filename @ '': '' @ message))"

definition set_answer :: "nat \<Rightarrow> mval result \<Rightarrow> unit cjs_run" where
  "set_answer m r st = (case r of Inl e \<Rightarrow> Some (Inl e, st) | Inr v \<Rightarrow> Some (Inr (), update_module m (\<lambda>r. r\<lparr>m_exports := v\<rparr>) st))"

definition json_handler :: "module_env \<Rightarrow> string \<Rightarrow> nat \<Rightarrow> unit cjs_run" where
  "json_handler env filename m st =
     (case me_read env filename of
        Inl e \<Rightarrow> Some (Inl e, st)
      | Inr content \<Rightarrow> set_answer m (map_sum (with_filename filename) (\<lambda>v. v) (me_json env content)) st)"

definition node_handler :: "module_env \<Rightarrow> string \<Rightarrow> nat \<Rightarrow> unit cjs_run" where
  "node_handler env filename m st = set_answer m (me_dlopen env (posix_toNamespacedPath filename)) st"

definition cjs_wrap :: "string \<Rightarrow> string" where
  "cjs_wrap script = ''(function (exports, require, module, __filename, __dirname) { '' @ script @ [CHR 0x0A] @ ''});''"

definition ts_handler :: "cjs_load_fn \<Rightarrow> module_env \<Rightarrow> string \<Rightarrow> nat \<Rightarrow> unit cjs_run" where
  "ts_handler load env filename m st =
     (case me_read env filename of
        Inl e \<Rightarrow> Some (Inl e, st)
      | Inr content \<Rightarrow>
          (case me_compile_ts env (cjs_wrap content) filename of
             Inl e \<Rightarrow> Some (Inl e, st)
           | Inr p \<Rightarrow> run_code p load env filename m st))"

definition run_handler :: "cjs_load_fn \<Rightarrow> module_env \<Rightarrow> string \<Rightarrow> string \<Rightarrow> nat \<Rightarrow> unit cjs_run" where
  "run_handler load env extension filename m st =
     (if extension = ''.js'' then js_handler load env filename m st
      else if extension = ''.json'' then json_handler env filename m st
      else if extension = ''.node'' then node_handler env filename m st
      else if extension = ''.ts'' then ts_handler load env filename m st
      else run_code (me_handler env extension filename) load env filename m st)"

text \<open>\<open>Module.prototype.load\<close>.\<close>

definition module_load :: "cjs_load_fn \<Rightarrow> module_env \<Rightarrow> string \<Rightarrow> nat \<Rightarrow> unit cjs_run" where
  "module_load load env filename m st =
     (if m_loaded (module_at st m) then Some (Inl (JsError (Some ''ERR_ASSERTION'') []), st)
      else
        (let st = update_module m (\<lambda>r. r\<lparr>m_filename := (case m_filename r of None \<Rightarrow> Some filename | Some f \<Rightarrow> Some f),
                     m_paths := (case m_paths r of None \<Rightarrow> Some (nodeModulePaths (env_cwd (me_fs env)) (posix_dirname filename)) | Some ps \<Rightarrow> Some ps)\<rparr>) st;
             extension = findLongestRegisteredExtension (me_fs env) filename
         in case run_handler load env extension filename m st of
              None \<Rightarrow> None
            | Some (Inl e, st) \<Rightarrow> Some (Inl e, st)
            | Some (Inr _, st) \<Rightarrow> Some (Inr (), update_module m (\<lambda>r. r\<lparr>m_loaded := True\<rparr>) st)))"

section \<open>Module._load\<close>

definition resolveForCJS :: "module_env \<Rightarrow> string \<Rightarrow> nat option \<Rightarrow> bool \<Rightarrow> cjs_state \<Rightarrow> string result \<times> cjs_state" where
  "resolveForCJS env specifier parent isMain st =
     (if starts_with specifier node_scheme then
        (case normalizeRequirableId specifier of
           None \<Rightarrow> (Inl (JsError (Some ''ERR_UNKNOWN_BUILTIN_MODULE'') specifier), st)
         | Some normalized \<Rightarrow> (Inr normalized, st))
      else
        (case resolveFilename (me_fs env) specifier (map_option (parent_of st) parent) isMain NoOptions (cs_resolve st) of
           (r, rs) \<Rightarrow> (r, st\<lparr>cs_resolve := rs\<rparr>)))"

text \<open>\<open>relResolveCacheIdentifier\<close>; without a parent it is undefined, and used as a key nevertheless.\<close>

definition relative_key :: "cjs_state \<Rightarrow> nat option \<Rightarrow> string \<Rightarrow> string" where
  "relative_key st parent request = (case parent of None \<Rightarrow> ''undefined'' | Some p \<Rightarrow> m_path (module_at st p) @ CHR 0x00 # request)"

definition publish_module :: "string \<Rightarrow> nat option \<Rightarrow> bool \<Rightarrow> string \<Rightarrow> cjs_state \<Rightarrow> cjs_state" where
  "publish_module filename parent isMain key st =
     (let m = length (cs_mods st);
          r = new_module filename parent m;
          st = add_child parent m False (st\<lparr>cs_mods := cs_mods st @ [if isMain then r\<lparr>m_id := ''.'', m_isMain := True\<rparr> else r]\<rparr>);
          st = (if isMain then st\<lparr>cs_main := Some m\<rparr> else st)
      in st\<lparr>cs_cache := (cs_cache st)(filename \<mapsto> m), cs_relative := (cs_relative st)(key \<mapsto> filename)\<rparr>)"

definition unpublish_module :: "string \<Rightarrow> nat option \<Rightarrow> string \<Rightarrow> nat \<Rightarrow> cjs_state \<Rightarrow> cjs_state" where
  "unpublish_module filename parent key m st =
     drop_child parent m (st\<lparr>cs_cache := (cs_cache st)(filename := None), cs_relative := (cs_relative st)(key := None)\<rparr>)"

definition load_new :: "cjs_load_fn \<Rightarrow> module_env \<Rightarrow> string \<Rightarrow> nat option \<Rightarrow> bool \<Rightarrow> string \<Rightarrow> mval cjs_run" where
  "load_new load env key parent isMain filename st =
     (let m = length (cs_mods st) in
      case module_load load env filename m (publish_module filename parent isMain key st) of
        None \<Rightarrow> None
      | Some (Inl e, st) \<Rightarrow> Some (Inl e, unpublish_module filename parent key m st)
      | Some (Inr _, st) \<Rightarrow> (let st = reset_prototype m st in Some (Inr (m_exports (module_at st m)), st)))"

definition load_resolved :: "cjs_load_fn \<Rightarrow> module_env \<Rightarrow> string \<Rightarrow> string \<Rightarrow> nat option \<Rightarrow> bool \<Rightarrow> string \<Rightarrow> mval cjs_run" where
  "load_resolved load env key request parent isMain filename st =
     (case try_builtin (starts_with request node_scheme) env filename st of
        None \<Rightarrow> None
      | Some (Inl e, st) \<Rightarrow> Some (Inl e, st)
      | Some (Inr (Some v), st) \<Rightarrow> Some (Inr v, st)
      | Some (Inr None, st) \<Rightarrow>
          (case cs_cache st filename of
             Some m \<Rightarrow> Some (cached_answer parent m st)
           | None \<Rightarrow>
               (case try_builtin (canBeRequiredWithoutScheme filename) env filename st of
                  None \<Rightarrow> None
                | Some (Inl e, st) \<Rightarrow> Some (Inl e, st)
                | Some (Inr (Some v), st) \<Rightarrow> Some (Inr v, st)
                | Some (Inr None, st) \<Rightarrow> load_new load env key parent isMain filename st)))"

text \<open>The fast path: the file the same request meant before in the same directory.\<close>

definition relative_hit :: "cjs_state \<Rightarrow> nat option \<Rightarrow> string \<Rightarrow> string option" where
  "relative_hit st parent request = (case parent of None \<Rightarrow> None | Some p \<Rightarrow> cs_relative st (relative_key st parent request))"

definition module_load_body :: "cjs_load_fn \<Rightarrow> module_env \<Rightarrow> cjs_load_fn" where
  "module_load_body load env request parent isMain st =
     (let key = relative_key st parent request;
          hit = relative_hit st parent request
      in case (case hit of None \<Rightarrow> None | Some filename \<Rightarrow> cs_cache st filename) of
           Some m \<Rightarrow> Some (cached_answer parent m st)
         | None \<Rightarrow>
             (case resolveForCJS env request parent isMain (if hit = None then st else st\<lparr>cs_relative := (cs_relative st)(key := None)\<rparr>) of
                (Inl e, st) \<Rightarrow> Some (Inl e, st)
              | (Inr filename, st) \<Rightarrow> load_resolved load env key request parent isMain filename st))"

section \<open>The wrapper of libjs/loader.js\<close>

definition boot_fallback :: "module_env \<Rightarrow> string \<Rightarrow> js_error \<Rightarrow> mval cjs_run" where
  "boot_fallback env request e st =
     (case cache (cs_boot st) request of
        Some b \<Rightarrow> Some (Inr (MHost (exports_of (cs_boot st) b)), st)
      | None \<Rightarrow>
          if loadBytecodeModule (me_boot env) request \<noteq> None \<or> truthy_name (vendoredPackages (me_boot env) request) then
            (case bootstrap_require env request st of
               None \<Rightarrow> None
             | Some (Inl e, st) \<Rightarrow> Some (Inl e, st)
             | Some (Inr v, st) \<Rightarrow> Some (Inr (MHost v), st))
          else Some (Inl e, st))"

definition initCJS_load :: "cjs_load_fn \<Rightarrow> module_env \<Rightarrow> cjs_load_fn" where
  "initCJS_load origLoad env request parent isMain st =
     (case origLoad request parent isMain st of
        None \<Rightarrow> None
      | Some (Inr v, st) \<Rightarrow> Some (Inr v, st)
      | Some (Inl e, st) \<Rightarrow> if err_code e = Some module_not_found_code then boot_fallback env request e st else Some (Inl e, st))"

text \<open>\<open>Module._load\<close> as the program sees it, with a bound on the nesting of loads.\<close>

primrec cjs_load :: "nat \<Rightarrow> module_env \<Rightarrow> cjs_load_fn" where
  "cjs_load 0 env = (\<lambda>request parent isMain st. None)"
| "cjs_load (Suc depth) env = initCJS_load (module_load_body (cjs_load depth env) env) env"

definition loadUserScript :: "nat \<Rightarrow> module_env \<Rightarrow> string \<Rightarrow> mval cjs_run" where
  "loadUserScript depth env filepath st = cjs_load depth env (cjs_resolve (me_fs env) [filepath]) None True st"

text \<open>\<open>__setupEvalContext\<close>: the module that \<open>-e\<close> code sees as \<open>module\<close>, and the one behind its \<open>require\<close>.\<close>

definition setupEvalContext :: "module_env \<Rightarrow> cjs_state \<Rightarrow> (nat \<times> nat) \<times> cjs_state" where
  "setupEvalContext env st =
     (let cwd = env_cwd (me_fs env);
          absolute = posix_join [cwd, ''[eval]''];
          m = length (cs_mods st);
          r = (new_module ''[eval]'' None m)\<lparr>m_filename := Some absolute, m_paths := Some (nodeModulePaths cwd cwd)\<rparr>
      in ((m, m + 1), create_from_path env absolute (st\<lparr>cs_mods := cs_mods st @ [r]\<rparr>)))"

text \<open>What a process does with the loader: it runs a script, and later code of a module that is called back.\<close>

datatype cjs_task = RunScript string | CallBack nat cjs_prog

definition run_task :: "nat \<Rightarrow> module_env \<Rightarrow> cjs_task \<Rightarrow> unit cjs_run" where
  "run_task depth env t st =
     (case t of
        RunScript f \<Rightarrow> (case loadUserScript depth env f st of None \<Rightarrow> None | Some (r, st) \<Rightarrow> Some (map_sum (\<lambda>e. e) (\<lambda>v. ()) r, st))
      | CallBack m p \<Rightarrow> if m < length (cs_mods st) then exec_cjs p (cjs_load depth env) env m st else Some (Inl type_error, st))"

fun run_tasks :: "nat \<Rightarrow> module_env \<Rightarrow> cjs_task list \<Rightarrow> cjs_state \<Rightarrow> cjs_state option" where
  "run_tasks depth env [] st = Some st"
| "run_tasks depth env (t # ts) st = (case run_task depth env t st of None \<Rightarrow> None | Some (r, st) \<Rightarrow> run_tasks depth env ts st)"

definition cjs_init :: "boot_state \<Rightarrow> (string \<Rightarrow> jsval builtin_module) \<Rightarrow> cjs_state" where
  "cjs_init boot builtins =
     \<lparr>cs_mods = [], cs_cache = Map.empty, cs_relative = Map.empty, cs_resolve = \<lparr>pathCache = Map.empty, cjs_warnings = []\<rparr>, cs_main = None,
      cs_proxied = [], cs_esModule = [], cs_builtins = builtins, cs_boot = boot, cs_ran = []\<rparr>"

end
