(* ===== verification/CjsResolveProps.thy ===== *)
theory CjsResolveProps
  imports CjsResolve
begin

text \<open>
  The search for a file as the first one of a list of candidates that exists, and what \<open>Module._pathCache\<close> does to it.
\<close>

section \<open>Candidates\<close>

definition is_file :: "cjs_env \<Rightarrow> string \<Rightarrow> bool" where
  "is_file env c \<longleftrightarrow> cjs_stat env c = 0"

text \<open>What is assumed of the file system: a file has a real path, and the current directory is an absolute path.\<close>

definition fs_ok :: "cjs_env \<Rightarrow> bool" where
  "fs_ok env \<longleftrightarrow>
     (\<forall>c. is_file env c \<longrightarrow> (\<exists>f. toRealPath env c = Inr f \<and> f \<noteq> [])) \<and> (\<exists>cs. env_cwd env = abs_path cs \<and> list_all is_name cs)"

text \<open>The name a file is loaded under.\<close>

definition name_of :: "cjs_env \<Rightarrow> bool \<Rightarrow> string \<Rightarrow> string" where
  "name_of env isMain c =
     (if (if isMain then preserve_symlinks_main env else preserve_symlinks env) then cjs_resolve env [c]
      else (case toRealPath env c of Inr f \<Rightarrow> f | Inl _ \<Rightarrow> []))"

definition main_of :: "cjs_pkg \<Rightarrow> string option" where
  "main_of pkg = (case pkg_main pkg of None \<Rightarrow> None | Some m \<Rightarrow> truthy_path m)"

text \<open>The files a request for \<open>base\<close> may mean, and those of a directory with the given \<open>main\<close>, best first.\<close>

definition file_candidates :: "cjs_env \<Rightarrow> string \<Rightarrow> string list" where
  "file_candidates env base = base # map (\<lambda>e. base @ e) (module_extensions env)"

definition index_candidates :: "cjs_env \<Rightarrow> string \<Rightarrow> string list" where
  "index_candidates env base = map (\<lambda>e. cjs_resolve env [base, ''index''] @ e) (module_extensions env)"

definition dir_candidates :: "cjs_env \<Rightarrow> string \<Rightarrow> string option \<Rightarrow> string list" where
  "dir_candidates env base main =
     (case main of
        None \<Rightarrow> []
      | Some m \<Rightarrow> file_candidates env (cjs_resolve env [base, m]) @ index_candidates env (cjs_resolve env [base, m])) @ index_candidates env base"

datatype found = Found string | Missing | Fails js_error

text \<open>The search, without the cache.\<close>

definition search_dir :: "cjs_env \<Rightarrow> bool \<Rightarrow> string \<Rightarrow> found" where
  "search_dir env isMain base =
     (case packageJsonRead env (cjs_resolve env [base, ''package.json'']) of
        Inl e \<Rightarrow> Fails e
      | Inr pkg \<Rightarrow>
          (case find (is_file env) (dir_candidates env base (main_of pkg)) of
             Some c \<Rightarrow> Found (name_of env isMain c)
           | None \<Rightarrow> (case main_of pkg of None \<Rightarrow> Missing | Some m \<Rightarrow> Fails (invalid_main_error (cjs_resolve env [base, m])))))"

definition search_path :: "cjs_env \<Rightarrow> string \<Rightarrow> bool \<Rightarrow> string \<Rightarrow> found" where
  "search_path env request isMain p =
     (let base = cjs_resolve env [p, request] in
      case (if trailing_slash request then None else find (is_file env) (file_candidates env base)) of
        Some c \<Rightarrow> Found (name_of env isMain c)
      | None \<Rightarrow> if cjs_stat env base = 1 then search_dir env isMain base else Missing)"

fun search :: "cjs_env \<Rightarrow> string \<Rightarrow> bool \<Rightarrow> string list \<Rightarrow> string list \<Rightarrow> found" where
  "search env request isMain conditions [] = Missing"
| "search env request isMain conditions (p # ps) =
     (if inside_path request \<and> p \<noteq> [] \<and> cjs_stat env p < 1 then search env request isMain conditions ps
      else
        (case (if posix_isAbsolute request then Inr None else resolveExports env p request conditions) of
           Inl e \<Rightarrow> Fails e
         | Inr (Some f) \<Rightarrow> Found f
         | Inr None \<Rightarrow>
             (case search_path env request isMain p of
                Missing \<Rightarrow> search env request isMain conditions ps
              | r \<Rightarrow> r)))"

definition to_found :: "string option result \<Rightarrow> found" where
  "to_found r = (case r of Inl e \<Rightarrow> Fails e | Inr None \<Rightarrow> Missing | Inr (Some f) \<Rightarrow> Found f)"

lemma to_found_simps [simp]: "to_found (Inl e) = Fails e" "to_found (Inr None) = Missing" "to_found (Inr (Some f)) = Found f"
  by (simp_all add: to_found_def)

lemma resolve_not_empty: "fs_ok env \<Longrightarrow> cjs_resolve env ps \<noteq> []"
proof -
  assume "fs_ok env"
  then obtain cs where cs: "env_cwd env = abs_path cs" "list_all is_name cs" by (auto simp: fs_ok_def)
  then obtain ss where "cjs_resolve env ps = abs_path ss" unfolding cjs_resolve_def using posix_resolve_absolute by metis
  then show ?thesis by simp
qed

lemma tryFile_name: "fs_ok env \<Longrightarrow> tryFile env c isMain = Inr (if is_file env c then Some (name_of env isMain c) else None)"
proof (cases "is_file env c")
  case True
  assume ok: "fs_ok env"
  then obtain f where "toRealPath env c = Inr f" "f \<noteq> []" using True by (auto simp: fs_ok_def)
  then show ?thesis using True resolve_not_empty [OF ok, of "[c]"] by (auto simp: tryFile_def name_of_def truthy_path_def is_file_def)
next
  case False then show ?thesis by (simp add: tryFile_def is_file_def)
qed

lemma tryExtensions_find:
  "fs_ok env \<Longrightarrow> tryExtensions env base exts isMain = Inr (map_option (name_of env isMain) (find (is_file env) (map (\<lambda>e. base @ e) exts)))"
  by (induction exts) (simp_all add: tryFile_name)

lemma or_else_find:
  "or_else (Inr (map_option f (find P xs))) (Inr (map_option f (find P ys))) = Inr (map_option f (find P (xs @ ys)))"
  by (induction xs) (simp_all add: or_else_def)

lemma file_find:
  "fs_ok env \<Longrightarrow> or_else (tryFile env base isMain) (tryExtensions env base (module_extensions env) isMain) =
     Inr (map_option (name_of env isMain) (find (is_file env) (file_candidates env base)))"
  by (simp add: tryFile_name tryExtensions_find file_candidates_def or_else_def)

lemma tryPackage_search:
  assumes ok: "fs_ok env"
  shows "to_found (fst (tryPackage env base (module_extensions env) isMain st)) = search_dir env isMain base"
    "pathCache (snd (tryPackage env base (module_extensions env) isMain st)) = pathCache st"
proof -
  note f = tryExtensions_find [OF ok] file_find [OF ok]
  have i: "tryExtensions env (cjs_resolve env [b, ''index'']) (module_extensions env) isMain =
      Inr (map_option (name_of env isMain) (find (is_file env) (index_candidates env b)))" for b
    by (simp add: tryExtensions_find [OF ok] index_candidates_def)
  have m: "or_else (or_else (tryFile env b isMain) (tryExtensions env b (module_extensions env) isMain))
        (tryExtensions env (cjs_resolve env [b, ''index'']) (module_extensions env) isMain) =
      Inr (map_option (name_of env isMain) (find (is_file env) (file_candidates env b @ index_candidates env b)))" for b
    unfolding f(2) i by (rule or_else_find)
  have app: "find P (xs @ ys) = (case find P xs of None \<Rightarrow> find P ys | Some c \<Rightarrow> Some c)" for P :: "string \<Rightarrow> bool" and xs ys
    by (induction xs) auto
  show "to_found (fst (tryPackage env base (module_extensions env) isMain st)) = search_dir env isMain base"
    "pathCache (snd (tryPackage env base (module_extensions env) isMain st)) = pathCache st"
    unfolding tryPackage_def Let_def m unfolding i search_dir_def main_of_def [symmetric] dir_candidates_def
    by (auto simp: app split: sum.split option.split)
qed

lemma find_in_path_search:
  assumes ok: "fs_ok env"
  shows "to_found (fst (find_in_path env request isMain p st)) = search_path env request isMain p" "pathCache (snd (find_in_path env request isMain p st)) = pathCache st"
proof -
  let ?b = "cjs_resolve env [p, request]"
  have f: "(if trailing_slash request then Inr None else or_else (tryFile env ?b isMain) (tryExtensions env ?b (module_extensions env) isMain)) =
      Inr (map_option (name_of env isMain) (if trailing_slash request then None else find (is_file env) (file_candidates env ?b)))"
    by (simp add: file_find [OF ok])
  show "to_found (fst (find_in_path env request isMain p st)) = search_path env request isMain p" "pathCache (snd (find_in_path env request isMain p st)) = pathCache st"
    unfolding find_in_path_def search_path_def Let_def f by (auto simp: tryPackage_search [OF ok] split: option.split)
qed

text \<open>The loop writes its answer into the cache unless an \<open>exports\<close> map gave it.\<close>

lemma find_in_paths_search:
  assumes ok: "fs_ok env"
  shows "to_found (fst (find_in_paths env key request (posix_isAbsolute request) isMain conditions ps st)) = search env request isMain conditions ps \<and>
    (\<exists>c. pathCache (snd (find_in_paths env key request (posix_isAbsolute request) isMain conditions ps st)) =
       (case c of None \<Rightarrow> pathCache st | Some f \<Rightarrow> (pathCache st)(key \<mapsto> f)) \<and> (\<forall>f. c = Some f \<longrightarrow> search env request isMain conditions ps = Found f))"
proof (induction ps arbitrary: st)
  case Nil then show ?case by (auto intro: exI [of _ None])
next
  case (Cons p ps)
  obtain r st1 where f: "find_in_path env request isMain p st = (r, st1)" by fastforce
  then have r: "to_found r = search_path env request isMain p" "pathCache st1 = pathCache st" using find_in_path_search [OF ok, of request isMain p st] by simp_all
  show ?case
  proof (cases "inside_path request \<and> p \<noteq> [] \<and> cjs_stat env p < 1")
    case True then show ?thesis using Cons by simp
  next
    case False
    show ?thesis
    proof (cases "if posix_isAbsolute request then Inr None else resolveExports env p request conditions")
      case (Inl e) then show ?thesis using False by (auto intro: exI [of _ None])
    next
      case (Inr x)
      show ?thesis
      proof (cases x)
        case (Some g) then show ?thesis using False Inr by (auto intro: exI [of _ None])
      next
        case None
        note n = Inr [unfolded None]
        show ?thesis using False n f r Cons.IH [of st1]
          by (cases r; cases "search_path env request isMain p") (auto simp: to_found_def split: option.splits)
      qed
    qed
  qed
qed

section \<open>The path cache\<close>

text \<open>Whether a package with \<open>exports\<close>, or an unreadable one, decides a request in a path; it does not depend on the conditions.\<close>

definition exports_decide :: "cjs_env \<Rightarrow> string \<Rightarrow> string \<Rightarrow> bool" where
  "exports_decide env p request \<longleftrightarrow>
     (case exports_pattern request of
        None \<Rightarrow> False
      | Some (name, expansion) \<Rightarrow>
          (case packageJsonRead env (cjs_resolve env [cjs_resolve env [p, name], ''package.json'']) of
             Inl e \<Rightarrow> True
           | Inr pkg \<Rightarrow> pkg_exists pkg \<and> pkg_exports pkg = Present))"

lemma exports_finalize_some: "exports_finalize env request r \<noteq> Inr None"
  by (auto simp: exports_finalize_def esm_catch_def finalizeEsmResolution_def split: sum.split option.split)

lemma resolveExports_None: "resolveExports env p request conditions = Inr None \<longleftrightarrow> \<not> exports_decide env p request"
  by (auto simp: resolveExports_def exports_decide_def Let_def exports_finalize_some split: option.split sum.split)

text \<open>The answers that are cached: found without the help of \<open>exports\<close>.\<close>

fun direct :: "cjs_env \<Rightarrow> string \<Rightarrow> bool \<Rightarrow> string list \<Rightarrow> string option" where
  "direct env request isMain [] = None"
| "direct env request isMain (p # ps) =
     (if inside_path request \<and> p \<noteq> [] \<and> cjs_stat env p < 1 then direct env request isMain ps
      else if \<not> posix_isAbsolute request \<and> exports_decide env p request then None
      else (case search_path env request isMain p of Found f \<Rightarrow> Some f | Missing \<Rightarrow> direct env request isMain ps | Fails e \<Rightarrow> None))"

lemma direct_search: "direct env request isMain ps = Some f \<Longrightarrow> search env request isMain conditions ps = Found f"
proof (induction ps)
  case (Cons p ps)
  have n: "\<not> exports_decide env p request \<Longrightarrow> resolveExports env p request conditions = Inr None" using resolveExports_None by blast
  show ?case using Cons n by (auto split: if_splits found.splits)
qed simp

lemma find_in_paths_cache:
  assumes ok: "fs_ok env"
  shows "pathCache (snd (find_in_paths env key request (posix_isAbsolute request) isMain conditions ps st)) =
    (case direct env request isMain ps of None \<Rightarrow> pathCache st | Some f \<Rightarrow> (pathCache st)(key \<mapsto> f))"
proof (induction ps arbitrary: st)
  case (Cons p ps)
  obtain r st1 where f: "find_in_path env request isMain p st = (r, st1)" by fastforce
  then have r: "to_found r = search_path env request isMain p" "pathCache st1 = pathCache st" using find_in_path_search [OF ok, of request isMain p st] by simp_all
  consider "inside_path request \<and> p \<noteq> [] \<and> cjs_stat env p < 1" | "\<not> (inside_path request \<and> p \<noteq> [] \<and> cjs_stat env p < 1)" "\<not> posix_isAbsolute request" "exports_decide env p request"
    | "\<not> (inside_path request \<and> p \<noteq> [] \<and> cjs_stat env p < 1)" "posix_isAbsolute request \<or> \<not> exports_decide env p request" by blast
  then show ?case
  proof cases
    case 1 then show ?thesis using Cons by simp
  next
    case 2
    then have "resolveExports env p request conditions \<noteq> Inr None" using resolveExports_None by blast
    then show ?thesis using 2 by (cases "resolveExports env p request conditions") (auto split: option.splits)
  next
    case 3
    then have "(if posix_isAbsolute request then Inr None else resolveExports env p request conditions) = Inr None" using resolveExports_None by auto
    then show ?thesis using 3 f r Cons [of st1] by (cases r; cases "search_path env request isMain p") (auto simp: to_found_def split: option.splits)
  qed
qed simp

lemma name_not_empty: "fs_ok env \<Longrightarrow> is_file env c \<Longrightarrow> name_of env isMain c \<noteq> []"
  using resolve_not_empty [of env "[c]"] by (auto simp: fs_ok_def name_of_def)

lemma find_is: "find P xs = Some x \<Longrightarrow> P x"
  by (induction xs) (auto split: if_splits)

lemma search_path_file: "search_path env request isMain p = Found f \<Longrightarrow> \<exists>c. is_file env c \<and> f = name_of env isMain c"
  by (auto simp: search_path_def search_dir_def Let_def split: option.splits if_splits sum.splits dest!: find_is)

lemma direct_file: "direct env request isMain ps = Some f \<Longrightarrow> \<exists>c. is_file env c \<and> f = name_of env isMain c"
  by (induction ps) (auto split: if_splits found.splits dest!: search_path_file)

text \<open>Two keys are equal only for the same request and paths, if none of them has a null character.\<close>

definition nul_free :: "string \<Rightarrow> bool" where
  "nul_free s \<longleftrightarrow> CHR 0x00 \<notin> set s"

lemma cacheKey_inj:
  assumes "nul_free r" "list_all nul_free ps" "ps \<noteq> []" "nul_free r'" "list_all nul_free ps'" "ps' \<noteq> []" "cacheKey r ps = cacheKey r' ps'"
  shows "r = r' \<and> ps = ps'"
proof -
  have k: "cacheKey q qs = js_join [CHR 0x00] (q # qs)" if "qs \<noteq> []" for q qs using that by (simp add: cacheKey_def js_join_Cons)
  have s: "split_by (\<lambda>x. x = CHR 0x00) (js_join [CHR 0x00] (q # qs)) = q # qs" if "nul_free q" "list_all nul_free qs" for q qs
    by (rule split_by_join) (use that in \<open>auto simp: nul_free_def list_all_iff\<close>)
  have "r # ps = r' # ps'" using s [OF assms(1,2)] s [OF assms(4,5)] k [OF assms(3)] k [OF assms(6)] assms(7) by metis
  then show ?thesis by simp
qed

definition same_links :: "cjs_env \<Rightarrow> bool" where
  "same_links env \<longleftrightarrow> preserve_symlinks env = preserve_symlinks_main env"

lemma name_main: "same_links env \<Longrightarrow> name_of env isMain = name_of env False"
  by (auto simp: name_of_def same_links_def fun_eq_iff)

lemma search_path_main: "same_links env \<Longrightarrow> search_path env request isMain p = search_path env request False p"
  unfolding search_path_def search_dir_def by (subst (1 2) name_main, assumption+) (rule refl)

lemma direct_main: "same_links env \<Longrightarrow> direct env request isMain ps = direct env request False ps"
  by (induction ps) (simp_all add: search_path_main [of env request isMain] split: found.split)

definition path_cache_ok :: "cjs_env \<Rightarrow> cjs_rstate \<Rightarrow> bool" where
  "path_cache_ok env st \<longleftrightarrow>
     (\<forall>key f. pathCache st key = Some f \<longrightarrow>
        (\<exists>request ps. key = cacheKey request ps \<and> ps \<noteq> [] \<and> nul_free request \<and> list_all nul_free ps \<and> direct env request False ps = Some f))"

definition searched :: "string \<Rightarrow> string list option \<Rightarrow> string list" where
  "searched request paths = (if posix_isAbsolute request then [[]] else (case paths of None \<Rightarrow> [] | Some ps \<Rightarrow> ps))"

lemma findPath_eq:
  "findPath env request paths isMain conditions st =
     (if searched request paths = [] then (Inr None, st)
      else case (case pathCache st (cacheKey request (searched request paths)) of None \<Rightarrow> None | Some e \<Rightarrow> truthy_path e) of
             Some entry \<Rightarrow> (Inr (Some entry), st)
           | None \<Rightarrow> find_in_paths env (cacheKey request (searched request paths)) request (posix_isAbsolute request) isMain conditions (searched request paths) st)"
  unfolding findPath_def Let_def searched_def by simp

lemma findPath_cached:
  assumes ok: "fs_ok env" "same_links env" and c: "path_cache_ok env st" and n: "nul_free request" "list_all nul_free (searched request paths)"
  shows "to_found (fst (findPath env request paths isMain conditions st)) = search env request isMain conditions (searched request paths) \<and>
    path_cache_ok env (snd (findPath env request paths isMain conditions st))"
proof -
  let ?ps = "searched request paths"
  let ?key = "cacheKey request ?ps"
  note d = findPath_eq [of env request paths isMain conditions st]
  show ?thesis
  proof (cases "?ps = []")
    case True then show ?thesis using c unfolding d by simp
  next
    case ne: False
    show ?thesis
    proof (cases "pathCache st ?key")
      case None
      have "to_found (fst (find_in_paths env ?key request (posix_isAbsolute request) isMain conditions ?ps st)) = search env request isMain conditions ?ps"
        using find_in_paths_search [OF ok(1)] by blast
      moreover have "path_cache_ok env (snd (find_in_paths env ?key request (posix_isAbsolute request) isMain conditions ?ps st))"
        unfolding path_cache_ok_def find_in_paths_cache [OF ok(1)] direct_main [OF ok(2), of request isMain]
        using c ne n unfolding path_cache_ok_def by (auto split: option.splits)
      ultimately show ?thesis using None ne unfolding d by simp
    next
      case (Some f)
      then obtain r ps where "?key = cacheKey r ps" "ps \<noteq> []" "nul_free r" "list_all nul_free ps" "direct env r False ps = Some f"
        using c unfolding path_cache_ok_def by blast
      then have f: "direct env request isMain ?ps = Some f" using cacheKey_inj [OF n ne] direct_main [OF ok(2), of request isMain] by metis
      then have "f \<noteq> []" using direct_file name_not_empty [OF ok(1)] by metis
      then show ?thesis using Some ne c direct_search [OF f, of conditions] unfolding d by (simp add: truthy_path_def)
    qed
  qed
qed

section \<open>Sequences of resolutions\<close>

record resolve_call =
  rc_request :: string
  rc_parent :: "cjs_parent option"
  rc_isMain :: bool
  rc_options :: resolve_options

definition resolve_one :: "cjs_env \<Rightarrow> resolve_call \<Rightarrow> string cjs_step" where
  "resolve_one env c = resolveFilename env (rc_request c) (rc_parent c) (rc_isMain c) (rc_options c)"

fun resolve_run :: "cjs_env \<Rightarrow> resolve_call list \<Rightarrow> cjs_rstate \<Rightarrow> string result list \<times> cjs_rstate" where
  "resolve_run env [] st = ([], st)"
| "resolve_run env (c # cs) st =
     (case resolve_one env c st of (r, st) \<Rightarrow> (case resolve_run env cs st of (rs, st) \<Rightarrow> (r # rs, st)))"

definition empty_cache :: cjs_rstate where
  "empty_cache = \<lparr>pathCache = Map.empty, cjs_warnings = []\<rparr>"

definition call_conditions :: "resolve_call \<Rightarrow> string list" where
  "call_conditions c = (case rc_options c of Options _ (Some cs) \<Rightarrow> cs | _ \<Rightarrow> cjs_conditions)"

definition call_paths :: "cjs_env \<Rightarrow> resolve_call \<Rightarrow> string list option" where
  "call_paths env c = (case resolve_paths env (rc_request c) (rc_parent c) (rc_options c) of Inr ps \<Rightarrow> ps | Inl e \<Rightarrow> None)"

text \<open>What a resolution means, without a cache: the request itself when it is builtin, else the \<open>imports\<close> map, else the search.\<close>

definition found_result :: "js_error \<Rightarrow> found \<Rightarrow> string result" where
  "found_result missing r = (case r of Found f \<Rightarrow> Inr f | Missing \<Rightarrow> Inl missing | Fails e \<Rightarrow> Inl e)"

definition resolve_spec :: "cjs_env \<Rightarrow> resolve_call \<Rightarrow> string result" where
  "resolve_spec env c =
     (if normalizeRequirableId (rc_request c) \<noteq> None then Inr (rc_request c)
      else if rc_options c = BadOption then Inl (JsError (Some ''ERR_INVALID_ARG_VALUE'') ''options.paths'')
      else
        (case try_imports env (rc_request c) (rc_parent c) (call_conditions c) of
           Inl e \<Rightarrow> Inl e
         | Inr (Some f) \<Rightarrow> Inr f
         | Inr None \<Rightarrow>
             found_result (not_found_error (rc_request c) (rc_parent c))
               (search env (rc_request c) (rc_isMain c) (call_conditions c) (searched (rc_request c) (call_paths env c)))))"

text \<open>A call from outside every package that has both a name and \<open>exports\<close>, with names free of null characters.\<close>

definition no_self :: "cjs_env \<Rightarrow> bool" where
  "no_self env \<longleftrightarrow> (\<forall>p pj pkg. nearestParentPackage env p = Some (pj, pkg) \<longrightarrow> pkg_name pkg = None \<or> pkg_exports pkg = Absent)"

definition plain_call :: "cjs_env \<Rightarrow> resolve_call \<Rightarrow> bool" where
  "plain_call env c \<longleftrightarrow> nul_free (rc_request c) \<and> list_all nul_free (searched (rc_request c) (call_paths env c))"

lemma trySelf_none: "no_self env \<Longrightarrow> trySelf env p request conditions = Inr None"
  by (fastforce simp: no_self_def trySelf_def split: option.split prod.split)

lemma resolve_paths_bad: "resolve_paths env request parent options = Inl e \<longleftrightarrow> options = BadOption \<and> e = JsError (Some ''ERR_INVALID_ARG_VALUE'') ''options.paths''"
  by (auto simp: resolve_paths_def split: resolve_options.split option.split)

lemma resolve_one_cached:
  assumes ok: "fs_ok env" "same_links env" "no_self env" and c: "path_cache_ok env st" and p: "plain_call env c"
  shows "fst (resolve_one env c st) = resolve_spec env c \<and> path_cache_ok env (snd (resolve_one env c st))"
proof (cases "normalizeRequirableId (rc_request c)")
  case (Some i) then show ?thesis using c by (simp add: resolve_one_def resolveFilename_def resolve_spec_def)
next
  case n: None
  show ?thesis
  proof (cases "resolve_paths env (rc_request c) (rc_parent c) (rc_options c)")
    case (Inl e)
    then show ?thesis using c n resolve_paths_bad [of env "rc_request c" "rc_parent c" "rc_options c" e] by (simp add: resolve_one_def resolveFilename_def resolve_spec_def Let_def)
  next
    case (Inr ps)
    then have b: "rc_options c \<noteq> BadOption" "call_paths env c = ps" by (auto simp: resolve_paths_def call_paths_def)
    obtain r st1 where f: "findPath env (rc_request c) ps (rc_isMain c) (call_conditions c) st = (r, st1)" by fastforce
    have "to_found r = search env (rc_request c) (rc_isMain c) (call_conditions c) (searched (rc_request c) ps)" "path_cache_ok env st1"
      using findPath_cached [OF ok(1,2) c, of "rc_request c" ps "rc_isMain c" "call_conditions c"] p b(2) unfolding f plain_call_def by simp_all
    moreover have "resolve_one env c st =
        (case try_imports env (rc_request c) (rc_parent c) (call_conditions c) of
           Inl e \<Rightarrow> (Inl e, st)
         | Inr (Some f) \<Rightarrow> (Inr f, st)
         | Inr None \<Rightarrow> (found_result (not_found_error (rc_request c) (rc_parent c)) (to_found r), st1))"
      using n Inr f by (auto simp: resolve_one_def resolveFilename_def Let_def call_conditions_def [symmetric] trySelf_none [OF ok(3)] found_result_def to_found_def
        split: sum.split option.split)
    ultimately show ?thesis using n b c unfolding resolve_spec_def by (simp split: sum.split option.split)
  qed
qed

lemma resolve_run_cached:
  assumes ok: "fs_ok env" "same_links env" "no_self env"
  shows "path_cache_ok env st \<Longrightarrow> list_all (plain_call env) cs \<Longrightarrow> fst (resolve_run env cs st) = map (resolve_spec env) cs"
proof (induction cs arbitrary: st)
  case (Cons c cs)
  obtain r st1 where o: "resolve_one env c st = (r, st1)" by fastforce
  then have "r = resolve_spec env c" "path_cache_ok env st1" using resolve_one_cached [OF ok Cons.prems(1), of c] Cons.prems(2) by simp_all
  then show ?case using Cons.IH [of st1] Cons.prems(2) o by (cases "resolve_run env cs st1") simp
qed simp

lemma path_cache_ok_empty: "path_cache_ok env empty_cache"
  by (simp add: path_cache_ok_def empty_cache_def)

text \<open>C13: From an empty cache, every resolution of a sequence answers what the uncached search answers, whatever was resolved before: the first candidate that
  is a file, in the order of the paths, extensions and \<open>main\<close> fields. It is assumed that files have real paths, that no
  package resolves itself, that both symbolic link options agree, and that no name has a null character.\<close>

theorem resolve_history_free:
  assumes "fs_ok env" "same_links env" "no_self env" "list_all (plain_call env) cs"
  shows "fst (resolve_run env cs empty_cache) = map (resolve_spec env) cs"
  by (rule resolve_run_cached [OF assms(1-3) path_cache_ok_empty assms(4)])

section \<open>Answers are files\<close>

definition file_name :: "cjs_env \<Rightarrow> string \<Rightarrow> bool" where
  "file_name env f \<longleftrightarrow> (\<exists>c isMain. is_file env c \<and> f = name_of env isMain c)"

definition cache_files :: "cjs_env \<Rightarrow> cjs_rstate \<Rightarrow> bool" where
  "cache_files env st \<longleftrightarrow> (\<forall>key f. pathCache st key = Some f \<longrightarrow> file_name env f)"

lemma exports_finalize_file: "fs_ok env \<Longrightarrow> exports_finalize env request r = Inr (Some f) \<Longrightarrow> file_name env f"
  by (auto simp: exports_finalize_def esm_catch_def finalizeEsmResolution_def tryFile_name file_name_def split: sum.splits if_splits option.splits)

lemma exports_file:
  assumes ok: "fs_ok env"
  shows "resolveExports env p request conditions = Inr (Some f) \<Longrightarrow> file_name env f"
    "trySelf env pp request conditions = Inr (Some f) \<Longrightarrow> file_name env f"
    "try_imports env request parent conditions = Inr (Some f) \<Longrightarrow> file_name env f"
  using exports_finalize_file [OF ok]
  by (auto simp: resolveExports_def trySelf_def try_imports_def Let_def split: option.splits sum.splits if_splits prod.splits)

lemma search_file: "fs_ok env \<Longrightarrow> search env request isMain conditions ps = Found f \<Longrightarrow> file_name env f"
  by (induction ps) (auto simp: exports_file split: if_splits sum.splits option.splits found.splits dest!: search_path_file intro: file_name_def [THEN iffD2])

lemma findPath_file:
  assumes ok: "fs_ok env" and c: "cache_files env st"
  shows "(fst (findPath env request paths isMain conditions st) = Inr (Some f) \<longrightarrow> file_name env f) \<and> cache_files env (snd (findPath env request paths isMain conditions st))"
proof -
  have t: "find_in_paths env key request (posix_isAbsolute request) isMain conditions ps st = (r, st1) \<Longrightarrow>
      (r = Inr (Some f) \<longrightarrow> file_name env f) \<and> cache_files env st1" for key ps r st1
    using find_in_paths_search [OF ok, of key request isMain conditions ps st] find_in_paths_cache [OF ok, of key request isMain conditions ps st]
      direct_file [of env request isMain ps] search_file [OF ok, of request isMain conditions ps f] c
    by (auto simp: cache_files_def file_name_def to_found_def split: option.splits sum.splits)
  show ?thesis unfolding findPath_eq
    using c t [of "cacheKey request (searched request paths)" "searched request paths"]
    by (cases "find_in_paths env (cacheKey request (searched request paths)) request (posix_isAbsolute request) isMain conditions (searched request paths) st")
      (auto simp: cache_files_def truthy_path_def split: option.split)
qed

lemma resolve_one_file:
  assumes ok: "fs_ok env" and c: "cache_files env st" and r: "resolve_one env c st = (r, st1)"
  shows "(\<forall>f. r = Inr f \<longrightarrow> normalizeRequirableId f \<noteq> None \<or> file_name env f) \<and> cache_files env st1"
proof -
  define find where "find ps = findPath env (rc_request c) ps (rc_isMain c) (call_conditions c) st" for ps
  have f: "find ps = (Inr (Some g), st2) \<Longrightarrow> file_name env g" "find ps = (q, st2) \<Longrightarrow> cache_files env st2" for ps g q st2
    using findPath_file [OF ok c, of "rc_request c" ps "rc_isMain c" "call_conditions c" g] unfolding find_def by auto
  have s: "cache_files env (st\<lparr>pathCache := (pathCache st)(k \<mapsto> g)\<rparr>)" if "file_name env g" for k g
    using c that by (simp add: cache_files_def)
  show ?thesis using r c f s exports_file [OF ok]
    unfolding resolve_one_def resolveFilename_def Let_def call_conditions_def [symmetric] remember_self_def find_def [symmetric]
    by (auto split: if_splits sum.splits option.splits prod.splits)
qed

lemma resolve_run_file:
  "fs_ok env \<Longrightarrow> cache_files env st \<Longrightarrow> Inr f \<in> set (fst (resolve_run env cs st)) \<Longrightarrow> normalizeRequirableId f \<noteq> None \<or> file_name env f"
proof (induction cs arbitrary: st)
  case (Cons c cs)
  obtain r st1 where o: "resolve_one env c st = (r, st1)" by fastforce
  note s = resolve_one_file [OF Cons.prems(1,2) o]
  show ?case using Cons.IH [of st1] Cons.prems s o by (cases "resolve_run env cs st1") auto
qed simp

text \<open>C14: Whatever is resolved before, with self resolution, \<open>imports\<close> and \<open>exports\<close> maps and any options, a resolution that returns gives the id of a builtin module
  or the name of a file that exists.\<close>

theorem resolve_answers_files:
  assumes "fs_ok env" "Inr f \<in> set (fst (resolve_run env cs empty_cache))"
  shows "normalizeRequirableId f \<noteq> None \<or> (\<exists>c isMain. is_file env c \<and> f = name_of env isMain c)"
  using resolve_run_file [OF assms(1) _ assms(2)] by (simp add: cache_files_def empty_cache_def file_name_def)

section \<open>Extensions\<close>

text \<open>The reference: the suffixes from a dot that is not the first character, longest first.\<close>

definition dot_suffixes :: "string \<Rightarrow> string list" where
  "dot_suffixes name = map (\<lambda>i. drop i name) (filter (\<lambda>i. i \<noteq> 0 \<and> name ! i = CHR ''.'') [0..<length name])"

definition first_registered :: "string list \<Rightarrow> string list \<Rightarrow> string" where
  "first_registered exts ss = (case find (\<lambda>s. s \<in> set exts) ss of Some s \<Rightarrow> s | None \<Rightarrow> ''.js'')"

lemma index_of_cases:
  obtains (absent) "c \<notin> set xs" "index_of xs c = -1" | (present) a b where "xs = a @ c # b" "c \<notin> set a" "index_of xs c = int (length a)"
proof -
  have f: "c \<notin> set ys \<Longrightarrow> index_of_from j c ys = -1" for j ys by (induction ys arbitrary: j) auto
  have g: "c \<notin> set a \<Longrightarrow> index_of_from j c (a @ c # b) = j + int (length a)" for j a b by (induction a arbitrary: j) auto
  show ?thesis using f [of xs 0] g [of _ 0] absent present by (metis add_0 index_of_def split_list_first)
qed

lemma longest_extension_suffixes:
  "longest_extension exts name s =
     first_registered exts (map (\<lambda>i. drop i name) (filter (\<lambda>i. i \<noteq> 0 \<and> name ! i = CHR ''.'') [s..<length name]))"
proof (induction exts name s rule: longest_extension.induct)
  case (1 exts name s)
  show ?case
  proof (cases rule: index_of_cases [where xs = "drop s name" and c = "CHR ''.''"])
    case absent
    have "name ! i \<noteq> CHR ''.''" if "s \<le> i" "i < length name" for i
      using absent(1) that nth_mem [of "i - s" "drop s name"] diff_less_mono [of i "length name" s] by auto
    then have "filter (\<lambda>i. i \<noteq> 0 \<and> name ! i = CHR ''.'') [s..<length name] = []" by (auto simp: filter_empty_conv)
    then show ?thesis using absent by (subst longest_extension.simps) (simp add: first_registered_def)
  next
    case (present a b)
    let ?i = "s + length a"
    have "length (drop s name) = length (a @ CHR ''.'' # b)" by (simp only: present(1))
    then have i: "?i < length name" by simp
    then have dot: "name ! ?i = CHR ''.''" by (metis le_add1 less_imp_le_nat nth_append_length nth_drop order_trans present(1))
    have n: "name ! k \<noteq> CHR ''.''" if "s \<le> k" "k < ?i" for k
    proof -
      have k: "k - s < length a" "s \<le> length name" using that i by auto
      then have "name ! k = drop s name ! (k - s)" using that by simp
      also have "\<dots> = a ! (k - s)" unfolding present(1) by (simp add: nth_append k)
      finally show ?thesis using present(2) nth_mem [OF k(1)] by auto
    qed
    have "[s..<length name] = [s..<?i] @ ?i # [?i + 1..<length name]"
      using i upt_add_eq_append [of s ?i "length name - ?i"] upt_conv_Cons [of ?i "length name"] by simp
    moreover have "filter (\<lambda>i. i \<noteq> 0 \<and> name ! i = CHR ''.'') [s..<?i] = []" using n by (auto simp: filter_empty_conv)
    ultimately have f: "filter (\<lambda>i. i \<noteq> 0 \<and> name ! i = CHR ''.'') [s..<length name] =
        (if ?i \<noteq> 0 then [?i] else []) @ filter (\<lambda>i. i \<noteq> 0 \<and> name ! i = CHR ''.'') [?i + 1..<length name]"
      using i dot by simp
    have ix: "index_of (drop s name) CHR ''.'' = int (length a)" by (rule present)
    show ?thesis
    proof (cases "?i \<noteq> 0 \<and> drop ?i name \<in> set exts")
      case True
      then show ?thesis unfolding f by (subst longest_extension.simps) (simp add: ix first_registered_def)
    next
      case False
      then have "longest_extension exts name s = longest_extension exts name (?i + 1)"
        by (subst longest_extension.simps) (auto simp: ix)
      moreover have "longest_extension exts name (?i + 1) =
          first_registered exts (map (\<lambda>i. drop i name) (filter (\<lambda>i. i \<noteq> 0 \<and> name ! i = CHR ''.'') [?i + 1..<length name]))"
        using 1 [OF refl _ refl] False by (simp add: ix)
      ultimately show ?thesis using False unfolding f by (auto simp: first_registered_def)
    qed
  qed
qed

text \<open>The extension that chooses the handler of a file is the longest registered one.\<close>

lemma findLongestRegisteredExtension_first:
  "findLongestRegisteredExtension env filename = first_registered (module_extensions env) (dot_suffixes (posix_basename filename None))"
  unfolding findLongestRegisteredExtension_def dot_suffixes_def by (rule longest_extension_suffixes)

section \<open>Examples\<close>

definition demo_files :: "string list" where
  "demo_files = [''/app/a.js'', ''/app/node_modules/p/lib.js'', ''/proj/self.js'']"

definition demo_dirs :: "string list" where
  "demo_dirs = [''/app'', ''/app/node_modules'', ''/app/node_modules/p'', ''/proj'']"

definition no_package :: cjs_pkg where
  "no_package = \<lparr>pkg_exists = False, pkg_name = None, pkg_main = None, pkg_exports = Absent, pkg_imports = Absent\<rparr>"

text \<open>A project \<open>/app\<close> with a dependency \<open>p\<close>, and a package \<open>/proj\<close> that exports itself.\<close>

definition resolve_demo :: "bool \<Rightarrow> cjs_env" where
  "resolve_demo self =
     \<lparr>env_cwd = ''/app'',
      internalModuleStat = (\<lambda>f. if f \<in> set demo_files then 0 else if f \<in> set demo_dirs then 1 else -2),
      toRealPath = Inr,
      packageJsonRead = (\<lambda>f. Inr (if f = ''/app/node_modules/p/package.json'' then no_package\<lparr>pkg_exists := True, pkg_main := Some ''lib''\<rparr> else no_package)),
      nearestParentPackage = (\<lambda>f. if self \<and> f = ''/proj/lib/x.js'' then
         Some (''/proj/package.json'', no_package\<lparr>pkg_exists := True, pkg_name := Some ''proj'', pkg_exports := Present\<rparr>) else None),
      packageExportsResolve = (\<lambda>pjson expansion base conditions. Inr ''file:///proj/self.js''),
      packageImportsResolve = (\<lambda>request base conditions. Inl (JsError None [])),
      urlToPath = (\<lambda>url. Inr (drop 7 url)),
      preserve_symlinks = False, preserve_symlinks_main = False,
      module_extensions = [''.js'', ''.json'', ''.node''], modulePaths = []\<rparr>"

definition demo_parent :: "string \<Rightarrow> string \<Rightarrow> cjs_parent" where
  "demo_parent f dir = \<lparr>par_id = f, par_filename = Some f, par_paths = nodeModulePaths ''/app'' dir, par_stack = [f]\<rparr>"

definition demo_call :: "string \<Rightarrow> string \<Rightarrow> resolve_call" where
  "demo_call request dir = \<lparr>rc_request = request, rc_parent = Some (demo_parent (dir @ ''/x.js'') dir), rc_isMain = False, rc_options = NoOptions\<rparr>"

definition demo_calls :: "resolve_call list" where
  "demo_calls = [demo_call ''./a'' ''/app'', demo_call ''p'' ''/app/sub'', demo_call ''./a'' ''/app'', demo_call ''q'' ''/app'', demo_call ''fs'' ''/app'']"

lemma demo_ok: "fs_ok (resolve_demo self)"
proof -
  have "''/app'' = abs_path [''app''] \<and> list_all is_name [''app'']" by code_simp
  moreover have "is_file (resolve_demo self) c \<Longrightarrow> c \<noteq> []" for c
    by (auto simp: is_file_def cjs_stat_def resolve_demo_def posix_toNamespacedPath_def demo_files_def split: if_splits)
  moreover have "toRealPath (resolve_demo self) = Inr" "env_cwd (resolve_demo self) = ''/app''" by (simp_all add: resolve_demo_def)
  ultimately show ?thesis unfolding fs_ok_def by metis
qed

lemma demo_links: "same_links (resolve_demo self)" "no_self (resolve_demo False)"
  by (simp_all add: same_links_def no_self_def resolve_demo_def)

lemma demo_plain: "list_all (plain_call (resolve_demo False)) demo_calls"
  by code_simp

lemma demo_answers:
  "map (resolve_spec (resolve_demo False)) demo_calls =
     [Inr ''/app/a.js'', Inr ''/app/node_modules/p/lib.js'', Inr ''/app/a.js'', Inl (not_found_error ''q'' (Some (demo_parent ''/app/x.js'' ''/app''))), Inr ''fs'']"
  by code_simp

theorem resolve_history_free_witness:
  "fst (resolve_run (resolve_demo False) demo_calls empty_cache) =
     [Inr ''/app/a.js'', Inr ''/app/node_modules/p/lib.js'', Inr ''/app/a.js'', Inl (not_found_error ''q'' (Some (demo_parent ''/app/x.js'' ''/app''))), Inr ''fs'']"
  using resolve_history_free [OF demo_ok demo_links demo_plain] demo_answers by simp

text \<open>The call \<open>require.resolve('proj', { paths: ['/proj/lib'] })\<close> of a file that is in no package.\<close>

definition foreign_call :: resolve_call where
  "foreign_call = \<lparr>rc_request = ''proj'', rc_parent = Some (demo_parent ''/app/x.js'' ''/app''), rc_isMain = False, rc_options = Options (Some [''/proj/lib'']) None\<rparr>"

theorem resolve_answers_files_witness:
  "\<exists>c isMain. is_file (resolve_demo True) c \<and> ''/proj/self.js'' = name_of (resolve_demo True) isMain c"
proof -
  have "Inr ''/proj/self.js'' \<in> set (fst (resolve_run (resolve_demo True) [demo_call ''proj'' ''/proj/lib''] empty_cache))" by code_simp
  moreover have "normalizeRequirableId ''/proj/self.js'' = None" by code_simp
  ultimately show ?thesis using resolve_answers_files [OF demo_ok] by blast
qed

text \<open>Self resolution is why the theorem on sequences excludes it: its answer is kept under a key that does not name the package that asked, so a file of no package
  fails to resolve \<open>proj\<close>, but resolves it once a file of that package has.\<close>

lemma self_resolution_leaks:
  "fst (resolve_run (resolve_demo True) [foreign_call] empty_cache) = [Inl (not_found_error ''proj'' (rc_parent foreign_call))]"
  "fst (resolve_run (resolve_demo True) [demo_call ''proj'' ''/proj/lib'', foreign_call] empty_cache) = [Inr ''/proj/self.js'', Inr ''/proj/self.js'']"
  by code_simp+

end
