(* ===== verification/CjsModuleProps.thy ===== *)
theory CjsModuleProps
  imports CjsModule CjsResolveProps BootLoaderProps
begin

text \<open>
  Lifting of a preorder on states from the primitive changes to whole runs of Node's CommonJS loader, and its uses: no module stays half loaded, loading returns, and the
  fast path of \<open>Module._load\<close> agrees with resolution.
\<close>

section \<open>What code is allowed to do\<close>

record cjs_policy =
  may_request :: "string \<Rightarrow> bool"
  may_options :: "resolve_options \<Rightarrow> bool"
  may_create :: "string \<Rightarrow> bool"
  may_delete :: bool

primrec clean_prog :: "cjs_policy \<Rightarrow> cjs_prog \<Rightarrow> bool" where
  "clean_prog pol PDone \<longleftrightarrow> True"
| "clean_prog pol (PThrow e) \<longleftrightarrow> True"
| "clean_prog pol (PRequire i k) \<longleftrightarrow> may_request pol i \<and> (\<forall>r. clean_prog pol (k r))"
| "clean_prog pol (PResolve i options k) \<longleftrightarrow> may_request pol i \<and> may_options pol options \<and> (\<forall>r. clean_prog pol (k r))"
| "clean_prog pol (PCreateRequire f k) \<longleftrightarrow> may_create pol f \<and> (\<forall>r. clean_prog pol (k r))"
| "clean_prog pol (PRequireFrom h i k) \<longleftrightarrow> may_request pol i \<and> (\<forall>r. clean_prog pol (k r))"
| "clean_prog pol (PSetExports v p) \<longleftrightarrow> clean_prog pol p"
| "clean_prog pol (PMarkEsModule x p) \<longleftrightarrow> clean_prog pol p"
| "clean_prog pol (PDeleteCache f p) \<longleftrightarrow> may_delete pol \<and> clean_prog pol p"

definition clean_env :: "cjs_policy \<Rightarrow> module_env \<Rightarrow> bool" where
  "clean_env pol env \<longleftrightarrow>
     (\<forall>s f d p. me_compile env s f d = Inr (Some p) \<longrightarrow> clean_prog pol p) \<and>
     (\<forall>s f p. me_compile_ts env s f = Inr p \<longrightarrow> clean_prog pol p) \<and>
     (\<forall>e f. clean_prog pol (me_handler env e f))"

definition free_policy :: cjs_policy where
  "free_policy = \<lparr>may_request = (\<lambda>i. True), may_options = (\<lambda>ps. True), may_create = (\<lambda>f. True), may_delete = True\<rparr>"

lemma clean_free [simp]: "clean_prog free_policy p" "clean_env free_policy env"
proof -
  show "clean_prog free_policy p" for p by (induction p) (simp_all add: free_policy_def)
  then show "clean_env free_policy env" by (simp add: clean_env_def)
qed

section \<open>A new module\<close>

definition valid_parent :: "cjs_state \<Rightarrow> nat option \<Rightarrow> bool" where
  "valid_parent st parent \<longleftrightarrow> (case parent of None \<Rightarrow> True | Some p \<Rightarrow> p < length (cs_mods st))"

lemma valid_parent_simps [simp]: "valid_parent st None" "valid_parent st (Some p) \<longleftrightarrow> p < length (cs_mods st)"
  by (simp_all add: valid_parent_def)

lemma valid_parent_cong: "length (cs_mods st') = length (cs_mods st) \<Longrightarrow> valid_parent st' p = valid_parent st p"
  by (simp add: valid_parent_def split: option.split)

text \<open>The state in which the handler of a new module starts.\<close>

definition begin_load :: "module_env \<Rightarrow> string \<Rightarrow> nat option \<Rightarrow> bool \<Rightarrow> string \<Rightarrow> cjs_state \<Rightarrow> cjs_state" where
  "begin_load env filename parent isMain key st =
     update_module (length (cs_mods st)) (\<lambda>r. r\<lparr>m_filename := Some filename, m_paths := Some (nodeModulePaths (env_cwd (me_fs env)) (posix_dirname filename))\<rparr>)
       (publish_module filename parent isMain key st)"

text \<open>A request from \<open>st0\<close> that resolved to a file that is not cached in \<open>st\<close>.\<close>

definition fresh_load :: "module_env \<Rightarrow> cjs_policy \<Rightarrow> string \<Rightarrow> nat option \<Rightarrow> bool \<Rightarrow> string \<Rightarrow> cjs_state \<Rightarrow> cjs_state \<Rightarrow> bool" where
  "fresh_load env pol request parent isMain f st0 st \<longleftrightarrow>
     valid_parent st0 parent \<and> may_request pol request \<and> cs_cache st f = None \<and>
     (\<exists>rs b bs. resolveForCJS env request parent isMain st0 = (Inr f, st0\<lparr>cs_resolve := rs\<rparr>) \<and> st = st0\<lparr>cs_resolve := rs, cs_boot := b, cs_builtins := bs\<rparr>)"

lemma mods_update [simp]: "length (cs_mods (update_module m f st)) = length (cs_mods st)"
  by (simp add: update_module_def)

lemma mods_add_child [simp]: "length (cs_mods (add_child p m s st)) = length (cs_mods st)"
  by (simp add: add_child_def split: option.split)

lemma mods_publish [simp]: "length (cs_mods (publish_module f p i key st)) = Suc (length (cs_mods st))"
  by (simp add: publish_module_def Let_def)

lemma mods_begin [simp]: "length (cs_mods (begin_load env f p i key st)) = Suc (length (cs_mods st))"
  by (simp add: begin_load_def)

lemma module_publish:
  "valid_parent st p \<Longrightarrow> module_at (publish_module f p i key st) (length (cs_mods st)) =
     (if i then (new_module f p (length (cs_mods st)))\<lparr>m_id := ''.'', m_isMain := True\<rparr> else new_module f p (length (cs_mods st)))"
  by (auto simp: publish_module_def Let_def module_at_def add_child_def update_module_def valid_parent_def nth_append split: option.splits)

lemma module_load_new:
  assumes "valid_parent st p"
  shows "module_load load env f (length (cs_mods st)) (publish_module f p i key st) =
    (case run_handler load env (findLongestRegisteredExtension (me_fs env) f) f (length (cs_mods st)) (begin_load env f p i key st) of
       None \<Rightarrow> None
     | Some (Inl e, st1) \<Rightarrow> Some (Inl e, st1)
     | Some (Inr _, st1) \<Rightarrow> Some (Inr (), update_module (length (cs_mods st)) (\<lambda>r. r\<lparr>m_loaded := True\<rparr>) st1))"
proof -
  let ?m = "length (cs_mods st)" and ?st = "publish_module f p i key st"
  have r: "m_loaded (module_at ?st ?m) = False" "m_filename (module_at ?st ?m) = None" "m_paths (module_at ?st ?m) = None"
    using module_publish [OF assms, of f i key] by (auto simp: new_module_def)
  then have "m_filename (cs_mods ?st ! ?m) = None" "m_paths (cs_mods ?st ! ?m) = None" by (simp_all add: module_at_def)
  then show ?thesis unfolding module_load_def Let_def begin_load_def using r(1) by (simp add: update_module_def)
qed

lemma resolveForCJS_state: "\<exists>rs. snd (resolveForCJS env i p im st) = st\<lparr>cs_resolve := rs\<rparr>"
  by (auto simp: resolveForCJS_def split: option.split prod.split intro: exI [of _ "cs_resolve st"])

lemma require_resolve_state: "\<exists>rs. snd (require_resolve env m i options st) = st\<lparr>cs_resolve := rs\<rparr>"
  by (auto simp: require_resolve_def split: prod.split)

section \<open>The lifting\<close>

locale cjs_preorder =
  fixes env :: module_env
    and pol :: cjs_policy
    and R :: "cjs_state \<Rightarrow> cjs_state \<Rightarrow> bool"
  assumes R_refl: "R st st"
    and R_trans: "R st st1 \<Longrightarrow> R st1 st2 \<Longrightarrow> R st st2"
    and R_len: "R st st1 \<Longrightarrow> length (cs_mods st) \<le> length (cs_mods st1)"
    and R_boot: "R st (st\<lparr>cs_boot := b\<rparr>)"
    and R_builtins: "R st (st\<lparr>cs_builtins := bs\<rparr>)"
    and R_proxied: "R st (st\<lparr>cs_proxied := xs\<rparr>)"
    and R_esModule: "R st (st\<lparr>cs_esModule := xs\<rparr>)"
    and R_main: "R st (st\<lparr>cs_main := None\<rparr>)"
    and R_ran: "R st (st\<lparr>cs_ran := fs\<rparr>)"
    and R_forget: "R st (st\<lparr>cs_relative := (cs_relative st)(k := None)\<rparr>)"
    and R_exports: "R st (update_module m (\<lambda>r. r\<lparr>m_exports := v\<rparr>) st)"
    and R_child: "R st (add_child p m True st)"
    and R_require_resolve: "m < length (cs_mods st) \<Longrightarrow> may_request pol i \<Longrightarrow> may_options pol options \<Longrightarrow> R st (snd (require_resolve env m i options st))"
    and R_resolveForCJS: "valid_parent st p \<Longrightarrow> may_request pol i \<Longrightarrow> R st (snd (resolveForCJS env i p im st))"
    and R_create: "may_create pol f \<Longrightarrow> R st (snd (createRequire env f st))"
    and R_delete: "may_delete pol \<Longrightarrow> R st (st\<lparr>cs_cache := (cs_cache st)(f := None)\<rparr>)"
    and R_fail: "fresh_load env pol i p im f st0 st \<Longrightarrow> R (begin_load env f p im (relative_key st0 p i) st) st1 \<Longrightarrow>
      R st0 (unpublish_module f p (relative_key st0 p i) (length (cs_mods st)) st1)"
    and R_done: "fresh_load env pol i p im f st0 st \<Longrightarrow> R (begin_load env f p im (relative_key st0 p i) st) st1 \<Longrightarrow>
      R st0 (update_module (length (cs_mods st)) (\<lambda>r. r\<lparr>m_loaded := True\<rparr>) st1)"
begin

definition good_run :: "nat \<Rightarrow> 'a cjs_run \<Rightarrow> bool" where
  "good_run m f \<longleftrightarrow> (\<forall>st r st'. m < length (cs_mods st) \<longrightarrow> f st = Some (r, st') \<longrightarrow> R st st')"

definition good_loader :: "cjs_load_fn \<Rightarrow> bool" where
  "good_loader load \<longleftrightarrow> (\<forall>i p im st r st'. may_request pol i \<longrightarrow> valid_parent st p \<longrightarrow> load i p im st = Some (r, st') \<longrightarrow> R st st')"

lemma good_runD: "good_run m f \<Longrightarrow> f st = Some (r, st') \<Longrightarrow> m < length (cs_mods st) \<Longrightarrow> R st st'"
  by (auto simp: good_run_def)

lemma good_bind:
  assumes f: "\<And>st. f st = (case a st of None \<Rightarrow> None | Some (r, st') \<Rightarrow> g r st')" and a: "good_run m a" and g: "\<And>x. good_run m (g x)"
  shows "good_run m f"
  unfolding good_run_def
proof (intro allI impI)
  fix st r st' assume v: "m < length (cs_mods st)" and "f st = Some (r, st')"
  then obtain x st1 where x: "a st = Some (x, st1)" "g x st1 = Some (r, st')" using f [of st] by (auto split: option.splits)
  have 1: "R st st1" by (rule good_runD [OF a x(1) v])
  then have "m < length (cs_mods st1)" using v R_len by (metis less_le_trans)
  then show "R st st'" using good_runD [OF g x(2)] 1 R_trans by blast
qed

lemma good_step_pure:
  assumes f: "\<And>st. f st = (case a st of (r, st') \<Rightarrow> g r st')" and a: "\<And>st. m < length (cs_mods st) \<Longrightarrow> R st (snd (a st))" and g: "\<And>x. good_run m (g x)"
  shows "good_run m f"
  unfolding good_run_def
proof (intro allI impI)
  fix st r st' assume v: "m < length (cs_mods st)" and f': "f st = Some (r, st')"
  obtain x st1 where x: "a st = (x, st1)" by force
  then have g': "g x st1 = Some (r, st')" using f [of st] f' by simp
  have 1: "R st st1" using a [OF v] x by simp
  then have "m < length (cs_mods st1)" using v R_len by (metis less_le_trans)
  then show "R st st'" using good_runD [OF g g'] 1 R_trans by blast
qed

lemma good_require_id:
  assumes "good_loader load" "may_request pol i" shows "good_run m (module_require_id load m i)"
proof -
  have "R st st'" if "load i (Some m) False st = Some (r, st')" "m < length (cs_mods st)" for st r st'
    using assms that unfolding good_loader_def by (metis valid_parent_simps(2))
  then show ?thesis by (auto simp: good_run_def module_require_id_def R_refl split: if_splits)
qed

lemma good_exec: "good_loader load \<Longrightarrow> clean_prog pol p \<Longrightarrow> good_run m (exec_cjs p load env m)"
proof (induction p)
  case (PRequire i k)
  then show ?case by (intro good_bind [OF exec_cjs.simps(3)] good_require_id) auto
next
  case (PResolve i options k)
  then show ?case by (intro good_step_pure [OF exec_cjs.simps(4)] R_require_resolve) auto
next
  case (PCreateRequire f k)
  then show ?case by (intro good_step_pure [OF exec_cjs.simps(5)] R_create) auto
next
  case (PRequireFrom h i k)
  have "good_run m (\<lambda>st. if h < length (cs_mods st) then module_require_id load h i st else Some (Inl type_error, st))"
    using good_require_id [OF PRequireFrom.prems(1), of i h] PRequireFrom.prems(2) by (auto simp: good_run_def R_refl)
  then show ?case using PRequireFrom by (intro good_bind [OF exec_cjs.simps(6)]) auto
next
  case (PSetExports v p)
  show ?case by (rule good_step_pure [where a = "\<lambda>st. ((), update_module m (\<lambda>r. r\<lparr>m_exports := v\<rparr>) st)" and g = "\<lambda>x. exec_cjs p load env m"]) (use PSetExports R_exports in auto)
next
  case (PMarkEsModule x p)
  show ?case by (rule good_step_pure [where a = "\<lambda>st. ((), st\<lparr>cs_esModule := x # cs_esModule st\<rparr>)" and g = "\<lambda>x. exec_cjs p load env m"]) (use PMarkEsModule R_esModule in auto)
next
  case (PDeleteCache f p)
  show ?case by (rule good_step_pure [where a = "\<lambda>st. ((), st\<lparr>cs_cache := (cs_cache st)(f := None)\<rparr>)" and g = "\<lambda>x. exec_cjs p load env m"]) (use PDeleteCache R_delete in auto)
qed (auto simp: good_run_def R_refl)

lemma good_run_code: "good_loader load \<Longrightarrow> clean_prog pol p \<Longrightarrow> good_run m (run_code p load env f m)"
  by (rule good_step_pure [where a = "\<lambda>st. ((), st\<lparr>cs_ran := f # cs_ran st\<rparr>)" and g = "\<lambda>x. exec_cjs p load env m"]) (simp_all add: run_code_def R_ran good_exec)

lemma good_esm: "good_run m (\<lambda>st. Some (loadESMFromCJS env f s m st))"
  by (auto simp: good_run_def loadESMFromCJS_def R_refl R_main R_exports split: sum.splits if_splits)

lemma good_set_answer: "good_run m (set_answer m v)"
  by (auto simp: good_run_def set_answer_def R_refl R_exports split: sum.splits)

lemma good_error: "good_run m (\<lambda>st. Some (Inl e, st))"
  by (simp add: good_run_def R_refl)

lemma good_handler:
  assumes l: "good_loader load" and c: "clean_env pol env" shows "good_run m (run_handler load env ext f m)"
proof -
  have s: "good_run m (\<lambda>st. case x of Inl e \<Rightarrow> Some (Inl e, st) | Inr v \<Rightarrow> g v st)" if "\<And>v. x = Inr v \<Longrightarrow> good_run m (g v)" for x and g :: "'v \<Rightarrow> unit cjs_run"
    using that by (cases x) (simp_all add: good_error)
  have cp: "good_run m (module_compile load env s f d m)" for s d
  proof -
    have "good_run m (run_code p load env f m)" if "me_compile env s f b = Inr (Some p)" for b p
      using c that by (intro good_run_code [OF l]) (auto simp: clean_env_def)
    then show ?thesis using good_esm [of m f s] good_error [of m] unfolding module_compile_def good_run_def by (auto split: sum.splits option.splits)
  qed
  have "good_run m (run_code p load env f m)" if "me_compile_ts env s f = Inr p" for s p
    using c that by (intro good_run_code [OF l]) (auto simp: clean_env_def)
  then have ts: "good_run m (ts_handler load env f m)" unfolding ts_handler_def by (intro s)
  have "clean_prog pol (me_handler env ext f)" using c by (simp add: clean_env_def)
  then have u: "good_run m (run_code (me_handler env ext f) load env f m)" by (rule good_run_code [OF l])
  have js: "good_run m (js_handler load env f m)" unfolding js_handler_def by (intro s cp)
  have json: "good_run m (json_handler env f m)" unfolding json_handler_def by (intro s good_set_answer)
  have node: "good_run m (node_handler env f m)" unfolding node_handler_def by (rule good_set_answer)
  show ?thesis using js json node ts u unfolding run_handler_def good_run_def by auto
qed

lemma R_reset: "R st (reset_prototype m st)"
  by (auto simp: reset_prototype_def R_refl R_proxied split: mval.split)

lemma good_load_new:
  assumes l: "good_loader load" and c: "clean_env pol env" and n: "fresh_load env pol i p im f st0 st"
    and r: "load_new load env (relative_key st0 p i) p im f st = Some (r, st')"
  shows "R st0 st'"
proof -
  let ?key = "relative_key st0 p i" and ?m = "length (cs_mods st)"
  have v: "valid_parent st p" using n valid_parent_cong [of st st0 p] unfolding fresh_load_def by auto
  obtain x st1 where x: "run_handler load env (findLongestRegisteredExtension (me_fs env) f) f ?m (begin_load env f p im ?key st) = Some (x, st1)"
    and st': "st' = unpublish_module f p ?key ?m st1 \<or> st' = reset_prototype ?m (update_module ?m (\<lambda>r. r\<lparr>m_loaded := True\<rparr>) st1)"
    using r unfolding load_new_def Let_def module_load_new [OF v] by (auto split: option.splits sum.splits)
  have "R (begin_load env f p im ?key st) st1" by (rule good_runD [OF good_handler [OF l c] x]) simp
  note b = this
  show ?thesis using st'
  proof
    assume "st' = unpublish_module f p ?key ?m st1" then show ?thesis using R_fail [OF n b] by simp
  next
    assume "st' = reset_prototype ?m (update_module ?m (\<lambda>r. r\<lparr>m_loaded := True\<rparr>) st1)" then show ?thesis using R_trans [OF R_done [OF n b] R_reset] by simp
  qed
qed

lemma good_builtin:
  assumes "try_builtin w env f st = Some (r, st')"
  shows "\<exists>b bs. st' = st\<lparr>cs_boot := b, cs_builtins := bs\<rparr>"
proof -
  have refl: "\<exists>b bs. st = st\<lparr>cs_boot := b, cs_builtins := bs\<rparr>" by (rule exI [of _ "cs_boot st"], rule exI [of _ "cs_builtins st"]) simp
  have "loadBuiltinModule env f st = Some (x, st1) \<Longrightarrow> \<exists>b bs. st1 = st\<lparr>cs_boot := b, cs_builtins := bs\<rparr>" for x st1
    using refl by (auto simp: loadBuiltinModule_def bootstrap_require_def Let_def split: if_splits option.splits prod.splits)
  then show ?thesis using assms refl by (fastforce simp: try_builtin_def loadBuiltinWithHooks_def split: if_splits option.splits sum.splits)
qed

lemma good_load_resolved:
  assumes l: "good_loader load" and c: "clean_env pol env" and v: "valid_parent st0 p" and q: "may_request pol i"
    and f: "resolveForCJS env i p im st0 = (Inr f, st)" and r: "load_resolved load env (relative_key st0 p i) i p im f st = Some (r, st')"
  shows "R st0 st'"
proof -
  obtain rs where rs: "st = st0\<lparr>cs_resolve := rs\<rparr>" using resolveForCJS_state [of env i p im st0] f by auto
  have R0: "R st0 st" using R_resolveForCJS [OF v q, of im] f by simp
  have b: "R st0 st1" if "st1 = st\<lparr>cs_boot := b, cs_builtins := bs\<rparr>" for st1 b bs
    using R_trans [OF R0 R_trans [OF R_boot R_builtins]] that by simp
  have a: "R st1 (snd (cached_answer p m st1))" for st1 m
    using R_trans [OF R_child R_proxied] R_child
    by (auto simp: cached_answer_def Let_def getExportsForCircularRequire_def split: mval.split)
  obtain x st1 where x: "try_builtin (starts_with i node_scheme) env f st = Some (x, st1)" using r by (auto simp: load_resolved_def split: option.splits)
  obtain b1 bs1 where s1: "st1 = st\<lparr>cs_boot := b1, cs_builtins := bs1\<rparr>" using good_builtin [OF x] by blast
  show ?thesis
  proof (cases "x = Inr None")
    case False
    then show ?thesis using r x b [OF s1] by (auto simp: load_resolved_def split: sum.splits option.splits)
  next
    case x0: True
    show ?thesis
    proof (cases "cs_cache st1 f")
      case (Some m)
      then have "st' = snd (cached_answer p m st1)" using r x x0 by (simp add: load_resolved_def)
      then show ?thesis using a b [OF s1] R_trans by blast
    next
      case None
      obtain y st2 where y: "try_builtin (canBeRequiredWithoutScheme f) env f st1 = Some (y, st2)" using r x x0 None by (auto simp: load_resolved_def split: option.splits)
      obtain b2 bs2 where s2: "st2 = st\<lparr>cs_boot := b2, cs_builtins := bs2\<rparr>" using good_builtin [OF y] s1 by auto
      show ?thesis
      proof (cases "y = Inr None")
        case False
        then show ?thesis using r x x0 None y b [OF s2] by (auto simp: load_resolved_def split: sum.splits option.splits)
      next
        case True
        have "fresh_load env pol i p im f st0 st2" using v q f None s1 s2 rs unfolding fresh_load_def by auto
        moreover have "load_new load env (relative_key st0 p i) p im f st2 = Some (r, st')" using r x x0 None y True by (simp add: load_resolved_def)
        ultimately show ?thesis using good_load_new [OF l c] by blast
      qed
    qed
  qed
qed

lemma good_load_body: "good_loader load \<Longrightarrow> clean_env pol env \<Longrightarrow> good_loader (module_load_body load env)"
  unfolding good_loader_def [of "module_load_body load env"]
proof (intro allI impI)
  fix i p im st r st'
  assume l: "good_loader load" and c: "clean_env pol env" and q: "may_request pol i" and v: "valid_parent st p"
    and r: "module_load_body load env i p im st = Some (r, st')"
  have a: "R st (snd (cached_answer p m st))" for m
    using R_trans [OF R_child R_proxied] R_child
    by (auto simp: cached_answer_def Let_def getExportsForCircularRequire_def split: mval.split)
  let ?st0 = "if relative_hit st p i = None then st else st\<lparr>cs_relative := (cs_relative st)(relative_key st p i := None)\<rparr>"
  have R0: "R st ?st0" by (simp add: R_refl R_forget)
  have v0: "valid_parent ?st0 p" using v by (simp add: valid_parent_cong [of "st\<lparr>cs_relative := x\<rparr>" st for x])
  have k: "relative_key ?st0 p i = relative_key st p i" by (simp add: relative_key_def module_at_def split: option.split)
  obtain f st1 where f: "resolveForCJS env i p im ?st0 = (f, st1)" by fastforce
  show "R st st'"
  proof (cases "case relative_hit st p i of None \<Rightarrow> None | Some filename \<Rightarrow> cs_cache st filename")
    case (Some m) then show ?thesis using r a [of m] by (simp add: module_load_body_def)
  next
    case None
    then have r': "(case f of Inl e \<Rightarrow> Some (Inl e, st1) | Inr g \<Rightarrow> load_resolved load env (relative_key st p i) i p im g st1) = Some (r, st')"
      using r f by (simp add: module_load_body_def Let_def del: if_split split del: if_split split: sum.splits)
    show ?thesis
    proof (cases f)
      case (Inl e)
      then have "st' = st1" using r' by simp
      then show ?thesis using R_trans [OF R0 R_resolveForCJS [OF v0 q, of im]] unfolding f by simp
    next
      case (Inr g)
      then have "load_resolved load env (relative_key ?st0 p i) i p im g st1 = Some (r, st')" using r' unfolding k by simp
      then show ?thesis using R_trans [OF R0 good_load_resolved [OF l c v0 q f [unfolded Inr]]] by simp
    qed
  qed
qed

lemma R_fallback: "boot_fallback env i e st = Some (r, st') \<Longrightarrow> R st st'"
  by (auto simp: boot_fallback_def bootstrap_require_def R_refl R_boot split: option.splits if_splits sum.splits prod.splits)

lemma good_initCJS: "good_loader load \<Longrightarrow> good_loader (initCJS_load load env)"
  unfolding good_loader_def [of "initCJS_load load env"]
proof (intro allI impI)
  fix i p im st r st'
  assume l: "good_loader load" and q: "may_request pol i" and v: "valid_parent st p" and r: "initCJS_load load env i p im st = Some (r, st')"
  obtain x st1 where x: "load i p im st = Some (x, st1)" using r by (auto simp: initCJS_load_def split: option.splits)
  have "R st st1" using l q v x unfolding good_loader_def by blast
  moreover have "st' = st1 \<or> (\<exists>e. boot_fallback env i e st1 = Some (r, st'))" using r x by (auto simp: initCJS_load_def split: sum.splits if_splits)
  ultimately show "R st st'" using R_fallback R_trans by blast
qed

lemma good_cjs_load: "clean_env pol env \<Longrightarrow> good_loader (cjs_load d env)"
proof (induction d)
  case 0 show ?case by (simp add: good_loader_def)
next
  case (Suc d) then show ?case using good_initCJS [OF good_load_body] by simp
qed

definition may_task :: "cjs_task \<Rightarrow> bool" where
  "may_task t \<longleftrightarrow> (case t of RunScript f \<Rightarrow> may_request pol (cjs_resolve (me_fs env) [f]) | CallBack m p \<Rightarrow> clean_prog pol p)"

lemma run_task_R:
  assumes c: "clean_env pol env" and t: "may_task t" and r: "run_task d env t st = Some (r, st')"
  shows "R st st'"
proof (cases t)
  case (RunScript f)
  then show ?thesis using r t good_cjs_load [OF c, of d] unfolding good_loader_def may_task_def run_task_def loadUserScript_def
    by (auto split: option.splits prod.splits) (metis valid_parent_simps(1))
next
  case (CallBack m p)
  then show ?thesis using r t good_runD [OF good_exec [OF good_cjs_load [OF c]]] R_refl by (auto simp: run_task_def may_task_def split: if_splits)
qed

lemma run_tasks_R: "clean_env pol env \<Longrightarrow> list_all may_task ts \<Longrightarrow> run_tasks d env ts st = Some st' \<Longrightarrow> R st st'"
proof (induction ts arbitrary: st)
  case (Cons t ts)
  then obtain r st1 where "run_task d env t st = Some (r, st1)" "run_tasks d env ts st1 = Some st'" by (auto split: option.splits)
  then show ?case using Cons.IH [of st1] Cons.prems run_task_R R_trans by simp blast
qed (simp add: R_refl)

end

section \<open>No module stays half loaded\<close>

lemma module_at_other [simp]:
  "module_at (st\<lparr>cs_boot := b\<rparr>) = module_at st" "module_at (st\<lparr>cs_builtins := bs\<rparr>) = module_at st" "module_at (st\<lparr>cs_proxied := xs\<rparr>) = module_at st"
  "module_at (st\<lparr>cs_esModule := xs\<rparr>) = module_at st" "module_at (st\<lparr>cs_main := z\<rparr>) = module_at st" "module_at (st\<lparr>cs_ran := fs\<rparr>) = module_at st"
  "module_at (st\<lparr>cs_relative := rel\<rparr>) = module_at st" "module_at (st\<lparr>cs_cache := c\<rparr>) = module_at st" "module_at (st\<lparr>cs_resolve := rs\<rparr>) = module_at st"
  by (simp_all add: module_at_def fun_eq_iff)

lemma module_at_update: "module_at (update_module m f st) k = (if k = m \<and> m < length (cs_mods st) then f (module_at st m) else module_at st k)"
  by (simp add: module_at_def update_module_def)

lemma update_module_fields [simp]:
  "cs_cache (update_module m f st) = cs_cache st" "cs_relative (update_module m f st) = cs_relative st" "cs_resolve (update_module m f st) = cs_resolve st"
  by (simp_all add: update_module_def)

lemma child_fields [simp]:
  "cs_cache (add_child p m s st) = cs_cache st" "cs_relative (add_child p m s st) = cs_relative st" "cs_resolve (add_child p m s st) = cs_resolve st"
  "cs_cache (drop_child p m st) = cs_cache st" "cs_relative (drop_child p m st) = cs_relative st" "cs_resolve (drop_child p m st) = cs_resolve st"
  "length (cs_mods (drop_child p m st)) = length (cs_mods st)"
  by (simp_all add: add_child_def drop_child_def split: option.split)

text \<open>What a module keeps when only its children change.\<close>

definition same_module :: "module_rec \<Rightarrow> module_rec \<Rightarrow> bool" where
  "same_module r r' \<longleftrightarrow> m_id r' = m_id r \<and> m_path r' = m_path r \<and> m_filename r' = m_filename r \<and> m_paths r' = m_paths r \<and> m_loaded r' = m_loaded r"

lemma same_module_refl [simp]: "same_module r r"
  by (simp add: same_module_def)

lemma same_module_children: "same_module (module_at st k) (module_at (add_child p m s st) k)" "same_module (module_at st k) (module_at (drop_child p m st) k)"
  by (auto simp: add_child_def drop_child_def module_at_update same_module_def split: option.split)

lemma begin_load_fields:
  "cs_cache (begin_load env f p im key st) = (cs_cache st)(f \<mapsto> length (cs_mods st))"
  "cs_relative (begin_load env f p im key st) = (cs_relative st)(key \<mapsto> f)"
  "cs_resolve (begin_load env f p im key st) = cs_resolve st"
  by (simp_all add: begin_load_def publish_module_def Let_def)

lemma begin_load_old:
  assumes "k < length (cs_mods st)" shows "same_module (module_at st k) (module_at (begin_load env f p im key st) k)"
proof -
  have a: "module_at (st\<lparr>cs_mods := cs_mods st @ [r]\<rparr>) k = module_at st k" for r using assms by (simp add: module_at_def nth_append)
  have c: "module_at (s\<lparr>cs_cache := x, cs_relative := y\<rparr>) k = module_at s k" "module_at (s\<lparr>cs_main := z\<rparr>) k = module_at s k" for s x y z by (simp_all add: module_at_def)
  show ?thesis using assms same_module_children(1) [where st = "st\<lparr>cs_mods := cs_mods st @ [r]\<rparr>" and k = k for r, unfolded a]
    by (auto simp: begin_load_def publish_module_def Let_def module_at_update c)
qed

lemma begin_load_new:
  assumes "valid_parent st p"
  shows "module_at (begin_load env f p im key st) (length (cs_mods st)) =
    (new_module f p (length (cs_mods st)))\<lparr>m_id := (if im then ''.'' else f), m_isMain := im,
       m_filename := Some f, m_paths := Some (nodeModulePaths (env_cwd (me_fs env)) (posix_dirname f))\<rparr>"
  by (simp add: begin_load_def module_at_update module_publish [OF assms] new_module_def)

definition cached_modules :: "cjs_state \<Rightarrow> bool" where
  "cached_modules st \<longleftrightarrow> (\<forall>f m. cs_cache st f = Some m \<longrightarrow> m < length (cs_mods st))"

definition half_loaded :: "cjs_state \<Rightarrow> string \<Rightarrow> nat \<Rightarrow> bool" where
  "half_loaded st f m \<longleftrightarrow> cs_cache st f = Some m \<and> \<not> m_loaded (module_at st m)"

definition settled_le :: "cjs_state \<Rightarrow> cjs_state \<Rightarrow> bool" where
  "settled_le st st' \<longleftrightarrow> length (cs_mods st) \<le> length (cs_mods st') \<and>
     (cached_modules st \<longrightarrow> cached_modules st' \<and> (\<forall>f m. m < length (cs_mods st) \<longrightarrow> cs_cache st' f = Some m \<longrightarrow> cs_cache st f = Some m) \<and>
        (\<forall>f m. half_loaded st' f m \<longrightarrow> half_loaded st f m))"

lemma settled_same:
  assumes "length (cs_mods st') = length (cs_mods st)" "\<And>f m. cs_cache st' f = Some m \<Longrightarrow> cs_cache st f = Some m" "\<And>m. m_loaded (module_at st' m) = m_loaded (module_at st m)"
  shows "settled_le st st'"
  unfolding settled_le_def cached_modules_def half_loaded_def using assms by (metis order_refl)

lemma settled_trans: "settled_le a b \<Longrightarrow> settled_le b c \<Longrightarrow> settled_le a c"
  unfolding settled_le_def by (metis less_le_trans order_trans)

lemma fresh_load_same:
  assumes "fresh_load env pol i p im f st0 st"
  shows "cs_mods st = cs_mods st0" "cs_cache st = cs_cache st0" "cs_relative st = cs_relative st0" "valid_parent st p" "cs_cache st0 f = None"
    "module_at st m = module_at st0 m"
  using assms valid_parent_cong [of st st0 p] by (auto simp: fresh_load_def module_at_def)

text \<open>The state after a new module, loaded or taken back.\<close>

lemma settled_new:
  assumes n: "fresh_load env pol i p im f st0 st" and b: "settled_le (begin_load env f p im key st) st1" and w: "cached_modules st0"
  shows "cached_modules st1" "length (cs_mods st0) < length (cs_mods st1)"
    "k < length (cs_mods st0) \<Longrightarrow> cs_cache st1 g = Some k \<Longrightarrow> cs_cache st0 g = Some k"
    "cs_cache st1 g = Some (length (cs_mods st)) \<Longrightarrow> g = f"
    "half_loaded st1 g k \<Longrightarrow> k \<noteq> length (cs_mods st) \<Longrightarrow> half_loaded st0 g k"
proof -
  note s = fresh_load_same [OF n] and f = begin_load_fields [of env f p im key st]
  let ?b = "begin_load env f p im key st" and ?m = "length (cs_mods st)"
  have wb: "cached_modules ?b" using w unfolding cached_modules_def f(1) by (auto simp: s less_SucI)
  then show "cached_modules st1" "length (cs_mods st0) < length (cs_mods st1)" using b by (auto simp: settled_le_def s)
  have c: "k < Suc ?m \<Longrightarrow> cs_cache st1 g = Some k \<Longrightarrow> (if g = f then k = ?m else cs_cache st0 g = Some k)" for g k
    using b wb by (auto simp: settled_le_def f s split: if_splits)
  show "k < length (cs_mods st0) \<Longrightarrow> cs_cache st1 g = Some k \<Longrightarrow> cs_cache st0 g = Some k" using c [of k g] by (auto simp: s split: if_splits)
  show "cs_cache st1 g = Some ?m \<Longrightarrow> g = f" using c [of ?m g] w by (auto simp: s cached_modules_def split: if_splits)
  show "half_loaded st1 g k \<Longrightarrow> k \<noteq> ?m \<Longrightarrow> half_loaded st0 g k"
  proof -
    assume h: "half_loaded st1 g k" and k: "k \<noteq> ?m"
    then have h: "half_loaded ?b g k" using b wb by (auto simp: settled_le_def)
    then have g: "cs_cache st0 g = Some k" using k by (auto simp: half_loaded_def f s split: if_splits)
    then have "k < length (cs_mods st)" using w s by (simp add: cached_modules_def)
    then have "m_loaded (module_at ?b k) = m_loaded (module_at st0 k)" using begin_load_old [of k st env f p im key] s by (simp add: same_module_def)
    then show ?thesis using h g by (simp add: half_loaded_def)
  qed
qed

interpretation settled: cjs_preorder env free_policy settled_le for env
proof
  fix st st1 st2 :: cjs_state and i p im f st0 pol and m :: nat and v opt k
  show "settled_le st st" by (rule settled_same) simp_all
  show "settled_le st st1 \<Longrightarrow> settled_le st1 st2 \<Longrightarrow> settled_le st st2" by (rule settled_trans)
  show "settled_le st st1 \<Longrightarrow> length (cs_mods st) \<le> length (cs_mods st1)" by (simp add: settled_le_def)
  show "settled_le st (st\<lparr>cs_boot := b\<rparr>)" for b by (rule settled_same) (simp_all add: module_at_def)
  show "settled_le st (st\<lparr>cs_builtins := b\<rparr>)" for b by (rule settled_same) (simp_all add: module_at_def)
  show "settled_le st (st\<lparr>cs_proxied := b\<rparr>)" for b by (rule settled_same) (simp_all add: module_at_def)
  show "settled_le st (st\<lparr>cs_esModule := b\<rparr>)" for b by (rule settled_same) (simp_all add: module_at_def)
  show "settled_le st (st\<lparr>cs_main := None\<rparr>)" by (rule settled_same) (simp_all add: module_at_def)
  show "settled_le st (st\<lparr>cs_ran := b\<rparr>)" for b by (rule settled_same) (simp_all add: module_at_def)
  show "settled_le st (st\<lparr>cs_relative := (cs_relative st)(k := None)\<rparr>)" by (rule settled_same) (simp_all add: module_at_def)
  show "settled_le st (update_module m (\<lambda>r. r\<lparr>m_exports := v\<rparr>) st)" by (rule settled_same) (simp_all add: module_at_update)
  show "settled_le st (add_child p m True st)" using same_module_children(1) by (intro settled_same) (auto simp: same_module_def)
  show "settled_le st (snd (require_resolve env m i opt st))"
    using require_resolve_state [of env m i opt st] by (auto intro!: settled_same simp: module_at_def)
  show "settled_le st (snd (resolveForCJS env i p im st))"
    using resolveForCJS_state [of env i p im st] by (auto intro!: settled_same simp: module_at_def)
  show "settled_le st (snd (createRequire env f st))"
    by (auto simp: createRequire_def create_from_path_def Let_def settled_le_def cached_modules_def half_loaded_def module_at_def nth_append less_SucI split: sum.split)
  show "settled_le st (st\<lparr>cs_cache := (cs_cache st)(f := None)\<rparr>)" by (rule settled_same) (auto simp: module_at_def split: if_splits)
  show "settled_le st0 (unpublish_module f p (relative_key st0 p i) (length (cs_mods st)) st1)"
    if n: "fresh_load env free_policy i p im f st0 st" and b: "settled_le (begin_load env f p im (relative_key st0 p i) st) st1"
  proof -
    let ?u = "unpublish_module f p (relative_key st0 p i) (length (cs_mods st)) st1"
    have u: "length (cs_mods ?u) = length (cs_mods st1)" "cs_cache ?u = (cs_cache st1)(f := None)" "m_loaded (module_at ?u k) = m_loaded (module_at st1 k)" for k
      using same_module_children(2) [of "st1\<lparr>cs_cache := (cs_cache st1)(f := None), cs_relative := (cs_relative st1)(relative_key st0 p i := None)\<rparr>" k p "length (cs_mods st)"]
      by (simp_all add: unpublish_module_def same_module_def module_at_def)
    show ?thesis unfolding settled_le_def
    proof (intro conjI impI)
      show "length (cs_mods st0) \<le> length (cs_mods ?u)" unfolding u(1) using b fresh_load_same(1) [OF n] by (simp add: settled_le_def)
      assume w: "cached_modules st0"
      note s = settled_new [OF n b w]
      show "cached_modules ?u" using s(1) by (simp add: cached_modules_def u)
      show "\<forall>g k. k < length (cs_mods st0) \<longrightarrow> cs_cache ?u g = Some k \<longrightarrow> cs_cache st0 g = Some k" using s(3) by (auto simp: u split: if_splits)
      show "\<forall>g k. half_loaded ?u g k \<longrightarrow> half_loaded st0 g k"
        using s(4,5) unfolding half_loaded_def u by (metis fun_upd_apply option.distinct(1))
    qed
  qed
  show "settled_le st0 (update_module (length (cs_mods st)) (\<lambda>r. r\<lparr>m_loaded := True\<rparr>) st1)"
    if n: "fresh_load env free_policy i p im f st0 st" and b: "settled_le (begin_load env f p im (relative_key st0 p i) st) st1"
    unfolding settled_le_def
  proof (intro conjI impI)
    let ?u = "update_module (length (cs_mods st)) (\<lambda>r. r\<lparr>m_loaded := True\<rparr>) st1"
    have l: "length (cs_mods st) < length (cs_mods st1)" using b by (auto simp: settled_le_def)
    then show "length (cs_mods st0) \<le> length (cs_mods ?u)" using fresh_load_same(1) [OF n] by simp
    assume w: "cached_modules st0"
    note s = settled_new [OF n b w]
    show "cached_modules ?u" using s(1) by (simp add: cached_modules_def)
    show "\<forall>g k. k < length (cs_mods st0) \<longrightarrow> cs_cache ?u g = Some k \<longrightarrow> cs_cache st0 g = Some k" using s(3) by auto
    show "\<forall>g k. half_loaded ?u g k \<longrightarrow> half_loaded st0 g k" using s(5) l by (auto simp: half_loaded_def module_at_update split: if_splits)
  qed
qed

lemma run_tasks_settled:
  assumes "run_tasks d env ts (cjs_init b bs) = Some st" shows "settled_le (cjs_init b bs) st"
proof -
  have "list_all (settled.may_task env) ts" by (simp add: list_all_iff settled.may_task_def free_policy_def [THEN arg_cong, of may_request] split: cjs_task.split)
  then show ?thesis by (rule settled.run_tasks_R [OF clean_free(2) _ assms])
qed

text \<open>C15: However a program's modules require each other, fail, catch the failures of others, or delete entries of \<open>require.cache\<close>: between the tasks of a process
  no module in \<open>Module._cache\<close> is half loaded.\<close>

theorem cached_modules_are_loaded:
  assumes "run_tasks d env ts (cjs_init b bs) = Some st" "cs_cache st f = Some m"
  shows "m < length (cs_mods st) \<and> m_loaded (module_at st m)"
  using run_tasks_settled [OF assms(1)] assms(2) by (auto simp: settled_le_def cached_modules_def half_loaded_def cjs_init_def)

section \<open>Loading returns\<close>

definition keep_policy :: cjs_policy where
  "keep_policy = free_policy\<lparr>may_delete := False\<rparr>"

definition stays_le :: "cjs_state \<Rightarrow> cjs_state \<Rightarrow> bool" where
  "stays_le st st' \<longleftrightarrow> length (cs_mods st) \<le> length (cs_mods st') \<and> dom (cs_cache st) \<subseteq> dom (cs_cache st')"

interpretation stays: cjs_preorder env keep_policy stays_le for env
proof
  fix st st1 :: cjs_state and i p im f st0 and m :: nat and opt
  show "stays_le st (snd (require_resolve env m i opt st))" using require_resolve_state [of env m i opt st] by (auto simp: stays_le_def)
  show "stays_le st (snd (resolveForCJS env i p im st))" using resolveForCJS_state [of env i p im st] by (auto simp: stays_le_def)
  show "stays_le st (snd (createRequire env f st))" by (auto simp: stays_le_def createRequire_def create_from_path_def Let_def split: sum.split)
  show "may_delete keep_policy \<Longrightarrow> stays_le st (st\<lparr>cs_cache := (cs_cache st)(f := None)\<rparr>)" by (simp add: keep_policy_def)
  show "stays_le st0 (unpublish_module f p (relative_key st0 p i) (length (cs_mods st)) st1)"
    if n: "fresh_load env keep_policy i p im f st0 st" and b: "stays_le (begin_load env f p im (relative_key st0 p i) st) st1"
    using b fresh_load_same [OF n] by (auto simp: stays_le_def begin_load_fields unpublish_module_def)
  show "stays_le st0 (update_module (length (cs_mods st)) (\<lambda>r. r\<lparr>m_loaded := True\<rparr>) st1)"
    if n: "fresh_load env keep_policy i p im f st0 st" and b: "stays_le (begin_load env f p im (relative_key st0 p i) st) st1"
    using b fresh_load_same [OF n] by (auto simp: stays_le_def begin_load_fields)
qed (auto simp: stays_le_def)

text \<open>The files with code are among \<open>U\<close>, and the bootstrap loader answers.\<close>

definition code_among :: "module_env \<Rightarrow> string set \<Rightarrow> bool" where
  "code_among env U \<longleftrightarrow> (\<forall>f. f \<notin> U \<longrightarrow> (\<exists>e. me_read env f = Inl e) \<and> (\<forall>x. me_handler env x f = PDone))"

definition boot_answers :: "module_env \<Rightarrow> bool" where
  "boot_answers env \<longleftrightarrow> (\<forall>i b. boot_require (me_boot_depth env) (me_boot env) i b \<noteq> None)"

text \<open>Nesting of depth \<open>d\<close> is enough.\<close>

definition has_room :: "string set \<Rightarrow> nat \<Rightarrow> cjs_state \<Rightarrow> bool" where
  "has_room U d st \<longleftrightarrow> finite U \<and> card (U - dom (cs_cache st)) < d"

lemma has_room_stays: "has_room U d st \<Longrightarrow> stays_le st st' \<Longrightarrow> has_room U d st'"
  unfolding has_room_def stays_le_def by (meson Diff_mono card_mono finite_Diff le_less_trans subset_refl)

definition total_load :: "string set \<Rightarrow> nat \<Rightarrow> cjs_load_fn \<Rightarrow> bool" where
  "total_load U d load \<longleftrightarrow> (\<forall>i p im st. has_room U d st \<longrightarrow> valid_parent st p \<longrightarrow> load i p im st \<noteq> None)"

lemma require_id_total: "total_load U d load \<Longrightarrow> has_room U d st \<Longrightarrow> h < length (cs_mods st) \<Longrightarrow> module_require_id load h i st \<noteq> None"
  by (simp add: total_load_def module_require_id_def)

text \<open>A step that answers, and goes on in a state that still has room.\<close>

lemma total_bind:
  assumes "a \<noteq> None" "\<And>r st'. a = Some (r, st') \<Longrightarrow> stays_le st st'" "has_room U d st" "m < length (cs_mods st)"
    and "\<And>r st'. has_room U d st' \<Longrightarrow> m < length (cs_mods st') \<Longrightarrow> k r st' \<noteq> None"
  shows "(case a of None \<Rightarrow> None | Some (r, st') \<Rightarrow> k r st') \<noteq> None"
proof -
  obtain r st' where a: "a = Some (r, st')" using assms(1) by auto
  then have "stays_le st st'" by (rule assms(2))
  then show ?thesis using a assms(3-5) has_room_stays [of U d st st'] by (auto simp: stays_le_def)
qed

lemma exec_total:
  assumes t: "total_load U d load" and g: "stays.good_loader load"
  shows "clean_prog keep_policy p \<Longrightarrow> has_room U d st \<Longrightarrow> m < length (cs_mods st) \<Longrightarrow> exec_cjs p load env m st \<noteq> None"
proof (induction p arbitrary: st)
  case (PRequire i k)
  then show ?case unfolding exec_cjs.simps
    by (intro total_bind [where st = st and U = U and d = d and m = m] require_id_total [OF t]) (auto dest: stays.good_runD [OF stays.good_require_id [OF g]])
next
  case (PResolve i options k)
  obtain rs x where "require_resolve env m i options st = (x, st\<lparr>cs_resolve := rs\<rparr>)" using require_resolve_state [of env m i options st] by (metis prod.collapse)
  moreover have "has_room U d (st\<lparr>cs_resolve := rs\<rparr>)" using PResolve.prems by (simp add: has_room_def)
  ultimately show ?case using PResolve by (auto simp del: not_None_eq)
next
  case (PCreateRequire f k)
  obtain x st1 where x: "createRequire env f st = (x, st1)" by fastforce
  then have "stays_le st st1" using stays.R_create [of f st env] by (simp add: keep_policy_def free_policy_def)
  then have "has_room U d st1" "m < length (cs_mods st1)" using PCreateRequire.prems has_room_stays by (auto simp: stays_le_def)
  then show ?case using PCreateRequire x by (auto simp del: not_None_eq)
next
  case (PRequireFrom h i k)
  have "(if h < length (cs_mods st) then module_require_id load h i st else Some (Inl type_error, st)) = Some (r, st') \<Longrightarrow> stays_le st st'" for r st'
    using stays.good_runD [OF stays.good_require_id [OF g], of i h st r st'] PRequireFrom.prems stays.R_refl by (auto split: if_splits)
  then show ?case using PRequireFrom require_id_total [OF t PRequireFrom.prems(2)] unfolding exec_cjs.simps
    by (intro total_bind [where st = st and U = U and d = d and m = m]) auto
next
  case (PSetExports v p) then show ?case by (simp add: has_room_def del: not_None_eq)
next
  case (PMarkEsModule x p) then show ?case by (simp add: has_room_def del: not_None_eq)
next
  case (PDeleteCache f p) then show ?case by (simp add: keep_policy_def)
qed auto

lemma handler_total:
  assumes t: "total_load U d load" and g: "stays.good_loader load" and c: "clean_env keep_policy env" and u: "code_among env U"
    and r: "f \<in> U \<Longrightarrow> has_room U d st" and m: "m < length (cs_mods st)"
  shows "run_handler load env ext f m st \<noteq> None"
proof (cases "f \<in> U")
  case True
  have x: "run_code p load env f m st \<noteq> None" if "clean_prog keep_policy p" for p
    unfolding run_code_def by (rule exec_total [OF t g that]) (use r [OF True] m in \<open>simp_all add: has_room_def\<close>)
  show ?thesis using c x unfolding clean_env_def
    by (auto simp: run_handler_def js_handler_def module_compile_def ts_handler_def json_handler_def node_handler_def set_answer_def split: sum.split option.split)
next
  case False
  then obtain e where "me_read env f = Inl e" "me_handler env x f = PDone" for x using u unfolding code_among_def by blast
  then show ?thesis by (auto simp: run_handler_def js_handler_def ts_handler_def json_handler_def node_handler_def set_answer_def run_code_def split: sum.split)
qed

lemma load_new_total:
  assumes t: "total_load U d load" and g: "stays.good_loader load" and c: "clean_env keep_policy env" and u: "code_among env U"
    and r: "has_room U (Suc d) st" and v: "valid_parent st p" and n: "cs_cache st f = None"
  shows "load_new load env key p im f st \<noteq> None"
proof -
  have "has_room U d (begin_load env f p im key st)" if "f \<in> U"
  proof -
    have "U - dom (cs_cache (begin_load env f p im key st)) = (U - dom (cs_cache st)) - {f}" by (auto simp: begin_load_fields)
    moreover have "f \<in> U - dom (cs_cache st)" using that n by (simp add: domIff)
    moreover have "finite (U - dom (cs_cache st))" using r by (simp add: has_room_def)
    ultimately have "card (U - dom (cs_cache (begin_load env f p im key st))) < card (U - dom (cs_cache st))" using card_Diff1_less by metis
    then show ?thesis using r by (simp add: has_room_def)
  qed
  then have "run_handler load env (findLongestRegisteredExtension (me_fs env) f) f (length (cs_mods st)) (begin_load env f p im key st) \<noteq> None"
    by (intro handler_total [OF t g c u]) simp_all
  then show ?thesis unfolding load_new_def Let_def module_load_new [OF v] by (auto split: sum.split)
qed

lemma bootstrap_total: "boot_answers env \<Longrightarrow> bootstrap_require env i st \<noteq> None"
  unfolding boot_answers_def bootstrap_require_def by (metis (mono_tags, lifting) not_None_eq option.simps(5) split_conv surj_pair)

lemma builtin_total: "boot_answers env \<Longrightarrow> try_builtin w env f st \<noteq> None"
  using bootstrap_total [of env f st]
  by (auto simp: try_builtin_def loadBuiltinWithHooks_def loadBuiltinModule_def Let_def split: option.split sum.split prod.split)

lemma load_body_total:
  assumes t: "total_load U d load" and g: "stays.good_loader load" and c: "clean_env keep_policy env" and u: "code_among env U" and b: "boot_answers env"
  shows "total_load U (Suc d) (initCJS_load (module_load_body load env) env)"
  unfolding total_load_def
proof (intro allI impI)
  fix i p im st assume r: "has_room U (Suc d) st" and v: "valid_parent st p"
  have same: "has_room U (Suc d) s" "valid_parent s p" if "cs_cache s = cs_cache st" "cs_mods s = cs_mods st" for s
    using r v that valid_parent_cong [of s st] by (simp_all add: has_room_def)
  have res: "load_resolved load env key i p im f s \<noteq> None" if s: "cs_cache s = cs_cache st" "cs_mods s = cs_mods st" for key f s
  proof -
    obtain x s1 where x: "try_builtin (starts_with i node_scheme) env f s = Some (x, s1)" using builtin_total [OF b] by fastforce
    obtain y s2 where y: "try_builtin (canBeRequiredWithoutScheme f) env f s1 = Some (y, s2)" using builtin_total [OF b] by fastforce
    have s1: "cs_cache s1 = cs_cache st" "cs_mods s1 = cs_mods st" using stays.good_builtin [OF x] s by auto
    have s2: "cs_cache s2 = cs_cache st" "cs_mods s2 = cs_mods st" using stays.good_builtin [OF y] s1 by auto
    have "cs_cache s1 f = None \<Longrightarrow> load_new load env key p im f s2 \<noteq> None" using same [OF s2] s1 s2 by (intro load_new_total [OF t g c u]) simp_all
    then show ?thesis unfolding load_resolved_def using x y by (auto split: sum.split option.split)
  qed
  let ?st0 = "if relative_hit st p i = None then st else st\<lparr>cs_relative := (cs_relative st)(relative_key st p i := None)\<rparr>"
  obtain f s where f: "resolveForCJS env i p im ?st0 = (f, s)" by fastforce
  then have s: "cs_cache s = cs_cache st" "cs_mods s = cs_mods st" using resolveForCJS_state [of env i p im ?st0] by auto
  have "module_load_body load env i p im st \<noteq> None"
    using res [OF s] f by (simp add: module_load_body_def Let_def del: not_None_eq split del: if_split split: option.split sum.split)
  moreover have "boot_fallback env i e s' \<noteq> None" for e s'
    using bootstrap_total [OF b, of i s'] by (auto simp: boot_fallback_def split: option.split sum.split)
  ultimately show "initCJS_load (module_load_body load env) env i p im st \<noteq> None"
    by (auto simp: initCJS_load_def simp del: not_None_eq split: option.split sum.split)
qed

lemma cjs_load_total:
  assumes "clean_env keep_policy env" "code_among env U" "boot_answers env"
  shows "total_load U d (cjs_load d env)"
proof (induction d)
  case 0 show ?case by (simp add: total_load_def has_room_def)
next
  case (Suc d) then show ?case using load_body_total [OF Suc stays.good_cjs_load [OF assms(1)] assms] by simp
qed

text \<open>C16: Running a script returns, whatever cycles its modules form and whatever fails: a nesting of more loads than there are readable files is never reached.  It is
  assumed that these are finitely many, that the code deletes no entry of \<open>require.cache\<close>, and that the bootstrap loader answers.\<close>

theorem user_script_returns:
  assumes "finite U" "code_among env U" "clean_env keep_policy env" "boot_answers env" "card U < d"
  shows "\<exists>r st. loadUserScript d env f (cjs_init b bs) = Some (r, st)"
proof -
  have "has_room U d (cjs_init b bs)" using assms(1,5) by (simp add: has_room_def cjs_init_def)
  then have "loadUserScript d env f (cjs_init b bs) \<noteq> None"
    using cjs_load_total [OF assms(3,2,4), of d] unfolding total_load_def loadUserScript_def by (metis valid_parent_simps(1))
  then show ?thesis by auto
qed

section \<open>Examples\<close>

definition no_boot :: boot_env where
  "no_boot = \<lparr>loadBytecodeModule = (\<lambda>i. None), readFileSync = (\<lambda>f. Inl (JsError (Some ''ENOENT'') f)), compileAndRun = (\<lambda>s f ts. Inl (JsError None f)),
     vendoredPackages = (\<lambda>i. None), vendoredIdSet = []\<rparr>"

text \<open>\<open>/app/a.js\<close> requires the package \<open>p\<close>, whose file runs the given code.\<close>

definition module_demo :: "cjs_prog \<Rightarrow> boot_env \<Rightarrow> module_env" where
  "module_demo p boot =
     \<lparr>me_fs = resolve_demo False,
      me_read = (\<lambda>f. if f \<in> set demo_files then Inr f else Inl (JsError (Some ''ENOENT'') f)),
      me_compile = (\<lambda>s f d. Inr (Some (if f = ''/app/a.js'' then
         PRequire ''p'' (\<lambda>r. case r of Inl e \<Rightarrow> PThrow e | Inr v \<Rightarrow> PSetExports v PDone) else p))),
      me_compile_ts = (\<lambda>s f. Inl (JsError None f)), me_esm = (\<lambda>s f m. Inl (JsError None f)), me_json = (\<lambda>s. Inl (JsError None s)),
      me_dlopen = (\<lambda>f. Inl (JsError None f)), me_handler = (\<lambda>e f. PDone), me_type = (\<lambda>f. None), me_truthy = (\<lambda>v. True),
      me_boot = boot, me_boot_depth = 2\<rparr>"

text \<open>Code that requires \<open>/app/a.js\<close> again, and code that requires a module that does not exist.\<close>

definition cyclic_code :: cjs_prog where
  "cyclic_code = PRequire ''../../a'' (\<lambda>r. PSetExports (MPlain ''p'') PDone)"

definition failing_code :: cjs_prog where
  "failing_code = PRequire ''missing'' (\<lambda>r. case r of Inl e \<Rightarrow> PThrow e | Inr v \<Rightarrow> PDone)"

definition demo_init :: cjs_state where
  "demo_init = cjs_init boot_init (\<lambda>i. \<lparr>bmod_id = i, bmod_loaded = False, bmod_loading = False, bmod_exports = JUndefined\<rparr>)"

definition demo_end :: "module_env \<Rightarrow> cjs_state" where
  "demo_end env = (case run_tasks 4 env [RunScript ''a.js''] demo_init of Some st \<Rightarrow> st | None \<Rightarrow> demo_init)"

lemma demo_runs: "run_tasks 4 (module_demo cyclic_code no_boot) [RunScript ''a.js''] demo_init = Some (demo_end (module_demo cyclic_code no_boot))"
proof -
  have "(case run_tasks 4 (module_demo cyclic_code no_boot) [RunScript ''a.js''] demo_init of None \<Rightarrow> False | Some st \<Rightarrow> True)" by code_simp
  then show ?thesis by (simp add: demo_end_def split: option.splits)
qed

theorem cached_modules_are_loaded_witness:
  "cs_cache (demo_end (module_demo cyclic_code no_boot)) ''/app/a.js'' = Some 0 \<and> m_loaded (module_at (demo_end (module_demo cyclic_code no_boot)) 0)"
proof -
  have "cs_cache (demo_end (module_demo cyclic_code no_boot)) ''/app/a.js'' = Some 0" by code_simp
  then show ?thesis using cached_modules_are_loaded [OF demo_runs [unfolded demo_init_def]] by (simp add: demo_init_def)
qed

lemma module_demo_clean: "clean_prog pol p \<Longrightarrow> may_request pol ''p'' \<Longrightarrow> clean_env pol (module_demo p boot)"
  by (auto simp: clean_env_def module_demo_def split: sum.split)

lemma no_boot_answers: "boot_answers (module_demo p no_boot)"
  by (auto simp: boot_answers_def module_demo_def no_boot_def boot_require_def requireModule_def load_exports_def numeral_2_eq_2 loadModule_body_def fetch_module_def Let_def split: option.split)

theorem user_script_returns_witness: "\<exists>r st. loadUserScript 4 (module_demo cyclic_code no_boot) ''a.js'' demo_init = Some (r, st)"
  unfolding demo_init_def
proof (rule user_script_returns)
  show "finite (set demo_files)" "card (set demo_files) < 4" by (simp_all add: demo_files_def)
  show "code_among (module_demo cyclic_code no_boot) (set demo_files)" by (simp add: code_among_def module_demo_def)
  show "clean_env keep_policy (module_demo cyclic_code no_boot)" by (rule module_demo_clean) (simp_all add: cyclic_code_def keep_policy_def free_policy_def)
  show "boot_answers (module_demo cyclic_code no_boot)" by (rule no_boot_answers)
qed

text \<open>The fallback of \<open>__initCJS\<close> does not ask which module was not found.  When an installed package fails because a module that it requires is missing, and a vendored
  package has its name, the vendored one is returned and the error is lost.\<close>

definition vendored_boot :: boot_env where
  "vendored_boot = no_boot\<lparr>loadBytecodeModule := (\<lambda>i. if i = ''vendored/p'' then Some (SetExports (JData ''vendored'') Done) else None),
     vendoredPackages := (\<lambda>i. if i = ''p'' then Some ''vendored/p'' else None)\<rparr>"

lemma fallback_masks_failure:
  "map_option fst (loadUserScript 4 (module_demo failing_code no_boot) ''a.js'' demo_init) =
     Some (Inl (not_found_error ''missing'' (Some \<lparr>par_id = [], par_filename = None, par_paths = [], par_stack = [''/app/node_modules/p/lib.js'', ''/app/a.js'']\<rparr>)))"
  "map_option fst (loadUserScript 4 (module_demo failing_code vendored_boot) ''a.js'' demo_init) = Some (Inr (MHost (JData ''vendored'')))"
  by code_simp+

text \<open>Code given with \<open>-e\<close> resolves names from the current directory.\<close>

lemma eval_resolves_from_cwd:
  "(case setupEvalContext (module_demo cyclic_code no_boot) demo_init of
      ((m, req), st) \<Rightarrow>
        fst (resolveForCJS (module_demo cyclic_code no_boot) ''p'' (Some req) False st) = Inr ''/app/node_modules/p/lib.js'' \<and>
        fst (resolveForCJS (module_demo cyclic_code no_boot) ''./a'' (Some req) False st) = Inr ''/app/a.js'')"
  by code_simp

end
