(* ===== verification/CjsModuleFast.thy ===== *)
theory CjsModuleFast
  imports CjsModuleProps
begin

text \<open>
  \<open>relativeResolveCache\<close>, the fast path of \<open>Module._load\<close>: what it answers is what resolution would answer.
\<close>

section \<open>Names without null characters\<close>

lemma nul_free_simps [simp]: "nul_free []" "nul_free (c # s) \<longleftrightarrow> c \<noteq> CHR 0x00 \<and> nul_free s" "nul_free (s @ t) \<longleftrightarrow> nul_free s \<and> nul_free t"
  by (auto simp: nul_free_def)










section \<open>What a request means in a directory\<close>







section \<open>The invariant\<close>

definition plain_module :: "cjs_env \<Rightarrow> module_rec \<Rightarrow> bool" where
  "plain_module env r \<longleftrightarrow>
     m_id r \<noteq> [] \<and> (\<exists>f. m_filename r = Some f \<and> f \<noteq> [] \<and> nul_free f \<and> m_path r = posix_dirname f \<and> m_paths r = Some (nodeModulePaths (env_cwd env) (posix_dirname f)))"






lemma plain_module_other [simp]: "plain_module env (r\<lparr>m_exports := v\<rparr>) = plain_module env r" "plain_module env (r\<lparr>m_loaded := b\<rparr>) = plain_module env r"
  by (simp_all add: plain_module_def)

section \<open>Resolution keeps it\<close>













section \<open>Runs keep it\<close>












end
