(* ===== verification/DomainShim.thy ===== *)
theory DomainShim
  imports JsPrelude
begin

text \<open>
  The domains of the REPL (\<open>libjs/shims/domain.js\<close>): the stack of active domains, the members of a domain, functions run in a domain, and the handling of
  errors.  Domains, emitters and errors are addresses; an error is an object, so it takes the fields \<open>domain\<close> and \<open>domainThrown\<close>.  A domain is an event emitter; what is kept of it is the list of its
  \<open>error\<close> listeners, called in order on a copy of the list as \<open>EventEmitterEmit\<close> shows.  The code that uses domains is a tree of its actions; the branch after a call receives the error
  it threw, if any.  A result of \<open>None\<close> is a computation that does not return.
\<close>

section \<open>State and code\<close>

text \<open>What a field that may hold a domain holds.  \<open>null\<close> and \<open>undefined\<close> are kept apart: \<open>active\<close> and \<open>process.domain\<close> are \<open>null\<close> at first and
  after the error handler, and \<open>undefined\<close> once \<open>exit\<close> has emptied the stack; the \<open>domain\<close> of an emitter is \<open>undefined\<close> at first and \<open>null\<close> after \<open>remove\<close>.\<close>

datatype domain_ref = DNull | DUndefined | DDomain nat

datatype domain_prog =
    DDone
  | DThrow nat
  | DEnter nat domain_prog
  | DExit nat domain_prog
  | DAdd nat nat domain_prog
  | DRemove nat nat domain_prog
  | DOnError nat domain_prog domain_prog
  | DRun nat domain_prog "nat option \<Rightarrow> domain_prog"
  | DIntercepted nat "nat option" domain_prog "nat option \<Rightarrow> domain_prog"
  | DErrorHandler nat nat "bool + nat \<Rightarrow> domain_prog"

text \<open>\<open>stack\<close> (oldest first), \<open>exports.active\<close>, \<open>process.domain\<close>, \<open>members\<close>, the \<open>domain\<close> of an emitter, the listeners, and the \<open>domain\<close> and \<open>domainThrown\<close> of an error.\<close>

record domain_state =
  dom_stack :: "nat list"
  dom_active :: domain_ref
  process_domain :: domain_ref
  members :: "nat \<Rightarrow> nat list"
  ee_domain :: "nat \<Rightarrow> domain_ref"
  error_listeners :: "nat \<Rightarrow> domain_prog list"
  er_domain :: "nat \<Rightarrow> nat option"
  er_thrown :: "nat \<Rightarrow> bool option"

text \<open>\<open>Inl\<close> is the value, \<open>Inr\<close> the error thrown.\<close>

type_synonym domain_emit = "nat \<Rightarrow> nat \<Rightarrow> domain_state \<Rightarrow> ((bool + nat) \<times> domain_state) option"

section \<open>The stack\<close>

definition domain_enter :: "nat \<Rightarrow> domain_state \<Rightarrow> domain_state" where
  "domain_enter d st = st\<lparr>dom_active := DDomain d, process_domain := DDomain d, dom_stack := dom_stack st @ [d]\<rparr>"

definition domain_exit :: "nat \<Rightarrow> domain_state \<Rightarrow> domain_state" where
  "domain_exit d st =
     (let index = last_index_of (dom_stack st) d in
      if index = -1 then st
      else
        (let stack = take (nat index) (dom_stack st);
             active = (if stack = [] then DUndefined else DDomain (stack ! (length stack - 1)))
         in st\<lparr>dom_stack := stack, dom_active := active, process_domain := active\<rparr>))"

section \<open>Members\<close>

definition domain_remove :: "nat \<Rightarrow> nat \<Rightarrow> domain_state \<Rightarrow> domain_state" where
  "domain_remove d ee st = st\<lparr>ee_domain := (ee_domain st)(ee := DNull), members := (members st)(d := remove1 ee (members st d))\<rparr>"

definition domain_add :: "nat \<Rightarrow> nat \<Rightarrow> domain_state \<Rightarrow> domain_state" where
  "domain_add d ee st =
     (if ee_domain st ee = DDomain d then st
      else
        (let st = (case ee_domain st ee of DDomain d' \<Rightarrow> domain_remove d' ee st | _ \<Rightarrow> st)
         in st\<lparr>ee_domain := (ee_domain st)(ee := DDomain d), members := (members st)(d := members st d @ [ee])\<rparr>))"

section \<open>Errors\<close>

text \<open>\<open>while (exports.active === this) this.exit();\<close>\<close>

primrec pop_active :: "nat \<Rightarrow> nat \<Rightarrow> domain_state \<Rightarrow> domain_state option" where
  "pop_active 0 d st = None"
| "pop_active (Suc n) d st = (if dom_active st = DDomain d then pop_active n d (domain_exit d st) else Some st)"

definition clear_stack :: "domain_state \<Rightarrow> domain_state" where
  "clear_stack st = st\<lparr>dom_stack := [], dom_active := DNull, process_domain := DNull\<rparr>"

definition domain_errorHandler :: "domain_emit \<Rightarrow> nat \<Rightarrow> nat \<Rightarrow> domain_state \<Rightarrow> ((bool + nat) \<times> domain_state) option" where
  "domain_errorHandler emit d er st =
     (let st = st\<lparr>er_domain := (er_domain st)(er \<mapsto> d), er_thrown := (er_thrown st)(er \<mapsto> True)\<rparr> in
      case pop_active (Suc (length (dom_stack st))) d st of
        None \<Rightarrow> None
      | Some st \<Rightarrow>
          if length (error_listeners st d) > 0 then
            (case emit d er st of
               None \<Rightarrow> None
             | Some (Inr er2, st) \<Rightarrow> Some (Inr er2, st)
             | Some (Inl caught, st) \<Rightarrow> Some (Inl caught, clear_stack st))
          else Some (Inl False, clear_stack st))"

section \<open>Code in domains\<close>

text \<open>\<open>run\<close> and the functions that \<open>bind\<close> and \<open>intercept\<close> make: enter, call, and exit in any case.\<close>

definition in_domain :: "nat \<Rightarrow> (domain_state \<Rightarrow> (nat option \<times> domain_state) option) \<Rightarrow> domain_state \<Rightarrow> (nat option \<times> domain_state) option" where
  "in_domain d f st = (case f (domain_enter d st) of None \<Rightarrow> None | Some (e, st) \<Rightarrow> Some (e, domain_exit d st))"

definition run_intercepted :: "domain_emit \<Rightarrow> nat \<Rightarrow> nat option \<Rightarrow> (domain_state \<Rightarrow> (nat option \<times> domain_state) option) \<Rightarrow> domain_state \<Rightarrow> (nat option \<times> domain_state) option" where
  "run_intercepted emit d arg f st =
     (case arg of
        Some er \<Rightarrow>
          (case emit d er (st\<lparr>er_domain := (er_domain st)(er \<mapsto> d), er_thrown := (er_thrown st)(er \<mapsto> False)\<rparr>) of
             None \<Rightarrow> None
           | Some (Inr e, st) \<Rightarrow> Some (Some e, st)
           | Some (Inl _, st) \<Rightarrow> Some (None, st))
      | None \<Rightarrow> in_domain d f st)"

primrec exec_domain :: "domain_prog \<Rightarrow> domain_emit \<Rightarrow> domain_state \<Rightarrow> (nat option \<times> domain_state) option" where
  "exec_domain DDone emit st = Some (None, st)"
| "exec_domain (DThrow e) emit st = Some (Some e, st)"
| "exec_domain (DEnter d p) emit st = exec_domain p emit (domain_enter d st)"
| "exec_domain (DExit d p) emit st = exec_domain p emit (domain_exit d st)"
| "exec_domain (DAdd d ee p) emit st = exec_domain p emit (domain_add d ee st)"
| "exec_domain (DRemove d ee p) emit st = exec_domain p emit (domain_remove d ee st)"
| "exec_domain (DOnError d h p) emit st = exec_domain p emit (st\<lparr>error_listeners := (error_listeners st)(d := error_listeners st d @ [h])\<rparr>)"
| "exec_domain (DRun d f k) emit st = (case in_domain d (exec_domain f emit) st of None \<Rightarrow> None | Some (e, st) \<Rightarrow> exec_domain (k e) emit st)"
| "exec_domain (DIntercepted d arg f k) emit st =
     (case run_intercepted emit d arg (exec_domain f emit) st of None \<Rightarrow> None | Some (e, st) \<Rightarrow> exec_domain (k e) emit st)"
| "exec_domain (DErrorHandler d er k) emit st =
     (case domain_errorHandler emit d er st of None \<Rightarrow> None | Some (r, st) \<Rightarrow> exec_domain (k r) emit st)"

fun call_listeners :: "domain_emit \<Rightarrow> domain_prog list \<Rightarrow> domain_state \<Rightarrow> ((bool + nat) \<times> domain_state) option" where
  "call_listeners emit [] st = Some (Inl True, st)"
| "call_listeners emit (h # hs) st =
     (case exec_domain h emit st of
        None \<Rightarrow> None
      | Some (Some e, st) \<Rightarrow> Some (Inr e, st)
      | Some (None, st) \<Rightarrow> call_listeners emit hs st)"

text \<open>\<open>emit('error', er)\<close>: without listeners it throws the error.  The nesting of \<open>emit\<close> is bounded by the first argument.\<close>

primrec emit_error :: "nat \<Rightarrow> domain_emit" where
  "emit_error 0 = (\<lambda>d er st. None)"
| "emit_error (Suc n) = (\<lambda>d er st. if error_listeners st d = [] then Some (Inr er, st) else call_listeners (emit_error n) (error_listeners st d) st)"

definition run_domain_code :: "nat \<Rightarrow> domain_prog \<Rightarrow> domain_state \<Rightarrow> (nat option \<times> domain_state) option" where
  "run_domain_code depth p st = exec_domain p (emit_error depth) st"

definition domain_init :: domain_state where
  "domain_init = \<lparr>dom_stack = [], dom_active = DNull, process_domain = DNull, members = (\<lambda>d. []), ee_domain = (\<lambda>ee. DUndefined),
     error_listeners = (\<lambda>d. []), er_domain = Map.empty, er_thrown = Map.empty\<rparr>"

section \<open>What every piece of code keeps\<close>

text \<open>A relation that the primitive changes respect holds from the beginning to the end of any code.\<close>

locale domain_preorder =
  fixes R :: "domain_state \<Rightarrow> domain_state \<Rightarrow> bool"
  assumes R_refl: "R st st"
    and R_trans: "R st st1 \<Longrightarrow> R st1 st2 \<Longrightarrow> R st st2"
    and R_enter: "R st (domain_enter d st)"
    and R_exit: "R st (domain_exit d st)"
    and R_add: "R st (domain_add d ee st)"
    and R_remove: "R st (domain_remove d ee st)"
    and R_listen: "R st (st\<lparr>error_listeners := ls\<rparr>)"
    and R_error: "R st (st\<lparr>er_domain := ed, er_thrown := et\<rparr>)"
    and R_clear: "R st (clear_stack st)"
begin

definition good_emit :: "domain_emit \<Rightarrow> bool" where
  "good_emit emit \<longleftrightarrow> (\<forall>d er st r st'. emit d er st = Some (r, st') \<longrightarrow> R st st')"

lemma good_emitD: "good_emit emit \<Longrightarrow> emit d er st = Some (r, st') \<Longrightarrow> R st st'"
  by (auto simp: good_emit_def)

lemma good_pop: "pop_active n d st = Some st' \<Longrightarrow> R st st'"
  by (induction n arbitrary: st) (auto split: if_splits intro: R_refl R_trans [OF R_exit])

lemma good_in_domain: "(\<And>st e st'. f st = Some (e, st') \<Longrightarrow> R st st') \<Longrightarrow> in_domain d f st = Some (e, st') \<Longrightarrow> R st st'"
proof -
  assume f: "\<And>st e st'. f st = Some (e, st') \<Longrightarrow> R st st'" and "in_domain d f st = Some (e, st')"
  then obtain st1 where "f (domain_enter d st) = Some (e, st1)" "st' = domain_exit d st1" by (auto simp: in_domain_def split: option.splits)
  then show "R st st'" using R_trans [OF R_enter R_trans [OF f R_exit]] by simp
qed

lemma good_errorHandler: "good_emit emit \<Longrightarrow> domain_errorHandler emit d er st = Some (r, st') \<Longrightarrow> R st st'"
proof -
  assume g: "good_emit emit" and r: "domain_errorHandler emit d er st = Some (r, st')"
  let ?st = "st\<lparr>er_domain := (er_domain st)(er \<mapsto> d), er_thrown := (er_thrown st)(er \<mapsto> True)\<rparr>"
  obtain st1 where p: "pop_active (Suc (length (dom_stack ?st))) d ?st = Some st1" using r by (auto simp: domain_errorHandler_def Let_def simp del: pop_active.simps split: option.splits)
  have 1: "R st st1" using R_trans [OF R_error good_pop [OF p]] .
  have "st' = clear_stack st1 \<or> (\<exists>x st2. emit d er st1 = Some (x, st2) \<and> (st' = st2 \<or> st' = clear_stack st2))"
    using r unfolding domain_errorHandler_def Let_def p by (auto split: if_splits option.splits sum.splits)
  then show ?thesis using 1 good_emitD [OF g] R_clear R_trans by blast
qed

lemma good_exec_domain: "good_emit emit \<Longrightarrow> exec_domain p emit st = Some (e, st') \<Longrightarrow> R st st'"
proof (induction p arbitrary: st e st')
  case (DRun d f k)
  obtain e1 st1 where 1: "in_domain d (exec_domain f emit) st = Some (e1, st1)" "exec_domain (k e1) emit st1 = Some (e, st')"
    using DRun.prems(2) by (auto split: option.splits)
  have "R st st1" by (rule good_in_domain [OF _ 1(1)]) (use DRun in blast)
  then show ?case using DRun.IH(2) [OF _ DRun.prems(1) 1(2)] R_trans by blast
next
  case (DIntercepted d arg f k)
  obtain e1 st1 where 1: "run_intercepted emit d arg (exec_domain f emit) st = Some (e1, st1)" "exec_domain (k e1) emit st1 = Some (e, st')"
    using DIntercepted.prems(2) by (auto split: option.splits)
  have "R st st1"
  proof (cases arg)
    case None
    then have "in_domain d (exec_domain f emit) st = Some (e1, st1)" using 1(1) by (simp add: run_intercepted_def)
    then show ?thesis by (rule good_in_domain [rotated]) (use DIntercepted in blast)
  next
    case (Some er)
    let ?st = "st\<lparr>er_domain := (er_domain st)(er \<mapsto> d), er_thrown := (er_thrown st)(er \<mapsto> False)\<rparr>"
    obtain x where "emit d er ?st = Some (x, st1)" using 1(1) Some by (auto simp: run_intercepted_def split: option.splits sum.splits)
    moreover have "R st ?st" by (rule R_error)
    ultimately show ?thesis using good_emitD [OF DIntercepted.prems(1)] R_trans by blast
  qed
  then show ?case using DIntercepted.IH(2) [OF _ DIntercepted.prems(1) 1(2)] R_trans by blast
next
  case (DErrorHandler d er k)
  obtain x st1 where 1: "domain_errorHandler emit d er st = Some (x, st1)" "exec_domain (k x) emit st1 = Some (e, st')"
    using DErrorHandler.prems(2) by (auto split: option.splits)
  then show ?case using good_errorHandler [OF DErrorHandler.prems(1) 1(1)] DErrorHandler.IH [OF _ DErrorHandler.prems(1) 1(2)] R_trans by blast
next
  case (DEnter d p) then show ?case using R_trans [OF R_enter] by fastforce
next
  case (DExit d p) then show ?case using R_trans [OF R_exit] by fastforce
next
  case (DAdd d ee p) then show ?case using R_trans [OF R_add] by fastforce
next
  case (DRemove d ee p) then show ?case using R_trans [OF R_remove] by fastforce
next
  case (DOnError d h p) then show ?case using R_trans [OF R_listen] by fastforce
qed (auto intro: R_refl)

lemma good_listeners: "good_emit emit \<Longrightarrow> call_listeners emit hs st = Some (r, st') \<Longrightarrow> R st st'"
proof (induction hs arbitrary: st)
  case (Cons h hs)
  obtain e st1 where 1: "exec_domain h emit st = Some (e, st1)" using Cons.prems(2) by (auto split: option.splits)
  have "R st st1" by (rule good_exec_domain [OF Cons.prems(1) 1])
  then show ?case using Cons 1 R_trans by (auto split: option.splits)
qed (auto intro: R_refl)

lemma good_emit_error: "good_emit (emit_error n)"
proof (induction n)
  case (Suc n) show ?case using good_listeners [OF Suc] unfolding good_emit_def emit_error.simps by (auto simp: R_refl split: if_splits)
qed (simp add: good_emit_def)

lemma run_domain_R: "run_domain_code n p st = Some (e, st') \<Longrightarrow> R st st'"
  unfolding run_domain_code_def by (rule good_exec_domain [OF good_emit_error])

end

section \<open>The active domain and the members\<close>

text \<open>The value that \<open>exit\<close> gives to \<open>active\<close> when it leaves this stack.\<close>

definition stack_top :: "nat list \<Rightarrow> domain_ref" where
  "stack_top s = (if s = [] then DUndefined else DDomain (last s))"

definition domain_inv :: "domain_state \<Rightarrow> bool" where
  "domain_inv st \<longleftrightarrow> (dom_active st = stack_top (dom_stack st) \<or> dom_stack st = [] \<and> dom_active st = DNull) \<and> process_domain st = dom_active st \<and>
     (\<forall>d ee. ee_domain st ee = DDomain d \<longrightarrow> ee \<in> set (members st d))"

lemma exit_split: "d \<notin> set b \<Longrightarrow> dom_stack st = a @ d # b \<Longrightarrow>
    domain_exit d st = st\<lparr>dom_stack := a, dom_active := stack_top a, process_domain := stack_top a\<rparr>"
  by (simp add: domain_exit_def last_index_of_split stack_top_def last_conv_nth Let_def)

lemma exit_absent: "d \<notin> set (dom_stack st) \<Longrightarrow> domain_exit d st = st"
  by (simp add: domain_exit_def last_index_of_absent)

lemma exit_inv: "domain_inv st \<Longrightarrow> domain_inv (domain_exit d st)"
proof (cases "d \<in> set (dom_stack st)")
  case True
  then obtain a b where "dom_stack st = a @ d # b" "d \<notin> set b" by (metis split_list_last)
  then show "domain_inv st \<Longrightarrow> ?thesis" by (simp add: exit_split domain_inv_def)
qed (simp add: exit_absent)

lemma remove_inv: "domain_inv st \<Longrightarrow> domain_inv (domain_remove d ee st)"
  by (auto simp: domain_inv_def domain_remove_def in_set_remove1)

lemma add_inv: "domain_inv st \<Longrightarrow> domain_inv (domain_add d ee st)"
  using remove_inv [of st _ ee] by (auto simp: domain_inv_def domain_add_def Let_def domain_remove_def in_set_remove1 split: domain_ref.split)

interpretation dinv: domain_preorder "\<lambda>st st'. domain_inv st \<longrightarrow> domain_inv st'"
proof
  fix st st1 st2 :: domain_state and d ee ls ed et
  show "domain_inv st \<longrightarrow> domain_inv (domain_exit d st)" using exit_inv by blast
  show "domain_inv st \<longrightarrow> domain_inv (domain_add d ee st)" using add_inv by blast
  show "domain_inv st \<longrightarrow> domain_inv (domain_remove d ee st)" using remove_inv by blast
qed (auto simp: domain_inv_def domain_enter_def clear_stack_def stack_top_def)

section \<open>Code that uses domains through run, bind and intercept\<close>

primrec scoped :: "domain_prog \<Rightarrow> bool" where
  "scoped DDone \<longleftrightarrow> True"
| "scoped (DThrow e) \<longleftrightarrow> True"
| "scoped (DEnter d p) \<longleftrightarrow> False"
| "scoped (DExit d p) \<longleftrightarrow> False"
| "scoped (DAdd d ee p) \<longleftrightarrow> scoped p"
| "scoped (DRemove d ee p) \<longleftrightarrow> scoped p"
| "scoped (DOnError d h p) \<longleftrightarrow> scoped h \<and> scoped p"
| "scoped (DRun d f k) \<longleftrightarrow> scoped f \<and> (\<forall>e. scoped (k e))"
| "scoped (DIntercepted d arg f k) \<longleftrightarrow> scoped f \<and> (\<forall>e. scoped (k e))"
| "scoped (DErrorHandler d er k) \<longleftrightarrow> False"

definition scoped_listeners :: "domain_state \<Rightarrow> bool" where
  "scoped_listeners st \<longleftrightarrow> (\<forall>d. list_all scoped (error_listeners st d))"

definition keeps_stack :: "domain_state \<Rightarrow> domain_state \<Rightarrow> bool" where
  "keeps_stack st st' \<longleftrightarrow> (scoped_listeners st \<longrightarrow> scoped_listeners st' \<and> dom_stack st' = dom_stack st \<and>
     (dom_active st' = dom_active st \<and> process_domain st' = process_domain st \<or>
      dom_active st' = stack_top (dom_stack st) \<and> process_domain st' = stack_top (dom_stack st)))"

lemma keeps_trans: "keeps_stack st st1 \<Longrightarrow> keeps_stack st1 st2 \<Longrightarrow> keeps_stack st st2"
  by (auto simp: keeps_stack_def)

lemma in_domain_keeps:
  assumes f: "\<And>st e st'. f st = Some (e, st') \<Longrightarrow> keeps_stack st st'" and r: "in_domain d f st = Some (e, st')"
  shows "keeps_stack st st'"
proof -
  obtain st1 where 1: "f (domain_enter d st) = Some (e, st1)" "st' = domain_exit d st1" using r by (auto simp: in_domain_def split: option.splits)
  have "keeps_stack (domain_enter d st) st1" by (rule f [OF 1(1)])
  then show ?thesis using exit_split [of d "[]" st1 "dom_stack st"] 1(2) by (auto simp: keeps_stack_def domain_enter_def scoped_listeners_def)
qed

lemma add_remove_keeps: "keeps_stack st (domain_add d ee st)" "keeps_stack st (domain_remove d ee st)"
  by (auto simp: keeps_stack_def domain_add_def domain_remove_def scoped_listeners_def Let_def split: domain_ref.split)

lemma exec_keeps:
  assumes g: "\<And>d er st r st'. emit d er st = Some (r, st') \<Longrightarrow> keeps_stack st st'"
  shows "scoped p \<Longrightarrow> exec_domain p emit st = Some (e, st') \<Longrightarrow> keeps_stack st st'"
proof (induction p arbitrary: st e st')
  case (DRun d f k)
  obtain e1 st1 where 1: "in_domain d (exec_domain f emit) st = Some (e1, st1)" "exec_domain (k e1) emit st1 = Some (e, st')"
    using DRun.prems(2) by (auto split: option.splits)
  have "keeps_stack st st1" by (rule in_domain_keeps [OF _ 1(1)]) (use DRun in auto)
  then show ?case using DRun.IH(2) [OF _ _ 1(2)] DRun.prems(1) keeps_trans by auto
next
  case (DIntercepted d arg f k)
  obtain e1 st1 where 1: "run_intercepted emit d arg (exec_domain f emit) st = Some (e1, st1)" "exec_domain (k e1) emit st1 = Some (e, st')"
    using DIntercepted.prems(2) by (auto split: option.splits)
  have "keeps_stack st st1"
  proof (cases arg)
    case None
    then have "in_domain d (exec_domain f emit) st = Some (e1, st1)" using 1(1) by (simp add: run_intercepted_def)
    then show ?thesis by (rule in_domain_keeps [rotated]) (use DIntercepted in auto)
  next
    case (Some er)
    let ?st = "st\<lparr>er_domain := (er_domain st)(er \<mapsto> d), er_thrown := (er_thrown st)(er \<mapsto> False)\<rparr>"
    obtain x where "emit d er ?st = Some (x, st1)" using 1(1) Some by (auto simp: run_intercepted_def split: option.splits sum.splits)
    then show ?thesis using g [of d er ?st x st1] by (simp add: keeps_stack_def scoped_listeners_def)
  qed
  then show ?case using DIntercepted.IH(2) [OF _ _ 1(2)] DIntercepted.prems(1) keeps_trans by auto
next
  case (DAdd d ee p) then show ?case using keeps_trans [OF add_remove_keeps(1)] by fastforce
next
  case (DRemove d ee p) then show ?case using keeps_trans [OF add_remove_keeps(2)] by fastforce
next
  case (DOnError d h p)
  have "keeps_stack st (st\<lparr>error_listeners := (error_listeners st)(d := error_listeners st d @ [h])\<rparr>)"
    using DOnError.prems(1) by (auto simp: keeps_stack_def scoped_listeners_def)
  then show ?case using DOnError keeps_trans by fastforce
qed (auto simp: keeps_stack_def)

lemma emit_keeps: "emit_error n d er st = Some (r, st') \<Longrightarrow> keeps_stack st st'"
proof (induction n arbitrary: d er st r st')
  case (Suc n)
  have "list_all scoped hs \<Longrightarrow> call_listeners (emit_error n) hs s = Some (x, s') \<Longrightarrow> keeps_stack s s'" for hs s x s'
  proof (induction hs arbitrary: s)
    case (Cons h hs)
    obtain e s1 where 1: "exec_domain h (emit_error n) s = Some (e, s1)" using Cons.prems(2) by (auto split: option.splits)
    have "keeps_stack s s1" by (rule exec_keeps [OF Suc.IH _ 1]) (use Cons.prems(1) in simp_all)
    then show ?case using Cons 1 keeps_trans by (auto split: option.splits)
  qed (auto simp: keeps_stack_def)
  note l = this
  show ?case
  proof (cases "error_listeners st d = [] \<or> \<not> scoped_listeners st")
    case True then show ?thesis using Suc.prems by (auto simp: keeps_stack_def)
  next
    case False
    then have "list_all scoped (error_listeners st d)" by (simp add: scoped_listeners_def)
    then show ?thesis using l Suc.prems False by simp
  qed
qed simp

text \<open>C34: Code that uses domains through \<open>run\<close>, \<open>bind\<close> and \<open>intercept\<close> (so not through \<open>enter\<close>, \<open>exit\<close> and the error handler, and the \<open>error\<close> listeners likewise) leaves
  the stack of domains as it was, also when it throws and when error listeners run in between.  Where a domain was active before, the same one is active again, in \<open>domain.active\<close> and in
  \<open>process.domain\<close>.  Where none was, the two fields are as before, or \<open>undefined\<close> where they were \<open>null\<close>, which is what \<open>exit\<close> sets on an empty stack.\<close>

theorem domain_code_restores:
  assumes "domain_inv st" "scoped_listeners st" "scoped p" "run_domain_code n p st = Some (e, st')"
  shows "dom_stack st' = dom_stack st \<and> process_domain st' = dom_active st' \<and>
    (if dom_stack st = [] then dom_active st' \<in> {dom_active st, DUndefined} else dom_active st' = DDomain (last (dom_stack st)) \<and> dom_active st = DDomain (last (dom_stack st)))"
proof -
  have "keeps_stack st st'" by (rule exec_keeps [OF emit_keeps assms(3) assms(4) [unfolded run_domain_code_def]])
  then show ?thesis using assms(1,2) by (auto simp: keeps_stack_def domain_inv_def stack_top_def)
qed

text \<open>A run from the top level is enough to turn \<open>null\<close> into \<open>undefined\<close>.\<close>

lemma top_level_run_leaves_undefined:
  "dom_active domain_init = DNull"
  "(case run_domain_code 1 (DRun 1 DDone (\<lambda>e. DDone)) domain_init of None \<Rightarrow> False | Some (e, st) \<Rightarrow> dom_stack st = [] \<and> dom_active st = DUndefined \<and> process_domain st = DUndefined)"
  by code_simp+

section \<open>The error handler\<close>

text \<open>The loop ends, and takes away the uppermost entries of the domain and nothing else.\<close>

lemma pop_active_returns:
  "domain_inv st \<Longrightarrow> length (dom_stack st) < n \<Longrightarrow>
     \<exists>st'. pop_active n d st = Some st' \<and> dom_active st' \<noteq> DDomain d \<and> error_listeners st' = error_listeners st \<and> (\<exists>k. dom_stack st = dom_stack st' @ replicate k d)"
proof (induction n arbitrary: st)
  case (Suc n)
  show ?case
  proof (cases "dom_active st = DDomain d")
    case True
    then obtain a where a: "dom_stack st = a @ [d]" using Suc.prems(1) by (cases "dom_stack st" rule: rev_cases) (auto simp: domain_inv_def stack_top_def)
    have e: "domain_exit d st = st\<lparr>dom_stack := a, dom_active := stack_top a, process_domain := stack_top a\<rparr>" using exit_split [of d "[]" st a] a by simp
    obtain st' k where "pop_active n d (domain_exit d st) = Some st'" "dom_active st' \<noteq> DDomain d" "error_listeners st' = error_listeners (domain_exit d st)"
        "dom_stack (domain_exit d st) = dom_stack st' @ replicate k d"
      using Suc.IH [of "domain_exit d st"] exit_inv [OF Suc.prems(1), of d] Suc.prems(2) a e by auto
    then show ?thesis using True a e by (auto intro!: exI [of _ "Suc k"] simp: replicate_append_same)
  next
    case False then show ?thesis by (auto intro: exI [of _ 0])
  qed
qed simp

text \<open>The handler clears the stack, unless a listener throws.\<close>

lemma errorHandler_result:
  assumes r: "domain_errorHandler emit d er st = Some (Inl caught, st')"
  shows "dom_stack st' = [] \<and> dom_active st' = DNull \<and> process_domain st' = DNull"
  using r by (auto simp: domain_errorHandler_def clear_stack_def Let_def simp del: pop_active.simps split: option.splits if_splits sum.splits)

lemma errorHandler_without_listeners:
  assumes "domain_inv st" "error_listeners st d = []"
  shows "\<exists>st'. domain_errorHandler emit d er st = Some (Inl False, st')"
proof -
  let ?st = "st\<lparr>er_domain := (er_domain st)(er \<mapsto> d), er_thrown := (er_thrown st)(er \<mapsto> True)\<rparr>"
  have "domain_inv ?st" using assms(1) by (simp add: domain_inv_def)
  then obtain st1 where "pop_active (Suc (length (dom_stack ?st))) d ?st = Some st1" "error_listeners st1 = error_listeners st"
    using pop_active_returns [of ?st "Suc (length (dom_stack ?st))" d] by auto
  then show ?thesis using assms(2) by (simp add: domain_errorHandler_def del: pop_active.simps)
qed

text \<open>\<open>remove\<close> does not ask whose member the emitter is: called on another domain it forgets the domain of the emitter, which stays a member of the first one, and
  is entered there twice when it is added again.\<close>

lemma remove_by_other_domain:
  "(case run_domain_code 1 (DAdd 1 7 (DRemove 2 7 DDone)) domain_init of
      None \<Rightarrow> False | Some (e, st) \<Rightarrow> ee_domain st 7 = DNull \<and> members st 1 = [7])"
  "(case run_domain_code 1 (DAdd 1 7 (DRemove 2 7 (DAdd 1 7 DDone))) domain_init of
      None \<Rightarrow> False | Some (e, st) \<Rightarrow> members st 1 = [7, 7])"
  by code_simp+

text \<open>A listener that runs code in another domain and an intercepted callback that gets an error.\<close>

definition domain_demo :: domain_prog where
  "domain_demo = DRun 1 (DOnError 2 (DRun 1 (DThrow 9) (\<lambda>e. DDone)) (DIntercepted 2 (Some 8) DDone (\<lambda>e. DRun 2 (DThrow 5) (\<lambda>e. case e of None \<Rightarrow> DDone | Some x \<Rightarrow> DThrow x)))) (\<lambda>e. DDone)"

theorem domain_code_restores_witness:
  "\<exists>e st. run_domain_code 3 domain_demo (domain_enter 4 domain_init) = Some (e, st) \<and> dom_stack st = [4] \<and> process_domain st = DDomain 4"
proof -
  have i: "domain_inv (domain_enter 4 domain_init)" "scoped_listeners (domain_enter 4 domain_init)"
    by (simp_all add: domain_inv_def scoped_listeners_def domain_enter_def domain_init_def stack_top_def)
  have "(case run_domain_code 3 domain_demo (domain_enter 4 domain_init) of None \<Rightarrow> False | Some x \<Rightarrow> True)" by code_simp
  then obtain e st where r: "run_domain_code 3 domain_demo (domain_enter 4 domain_init) = Some (e, st)" by (auto split: option.splits)
  have "scoped domain_demo" by (auto simp: domain_demo_def split: option.split)
  from domain_code_restores [OF i this r] r show ?thesis by (simp add: domain_enter_def domain_init_def)
qed

end
