(* ===== verification/AbortShim.thy ===== *)
theory AbortShim
  imports JsPrelude
begin

text \<open>
  \<open>AbortController\<close> and \<open>AbortSignal\<close> (\<open>libjs/shims/internal/abort_controller.js\<close>).  A signal is an event emitter with two fields; what is kept of the emitter is the list of
  its \<open>abort\<close> listeners, called in order on a copy of the list as \<open>EventEmitterEmit\<close> shows.  Signals are addresses, given out in order.  Code is a tree of its actions;
  the branch after a call receives what it threw, if anything.  Code may also dispatch an \<open>abort\<close> event itself and write the public fields \<open>aborted\<close> and \<open>reason\<close>, of
  which the truth value of the first is kept.  Events of other types, \<open>once\<close> and \<open>prependListener\<close> of the emitter are left out.  A result of \<open>None\<close> is a computation that does not return.
\<close>

section \<open>State and code\<close>

text \<open>A reason, which is also what code throws: \<open>undefined\<close>, another value of the user, or one of the two \<open>DOMException\<close>s.\<close>

datatype abort_reason = Undefined | UserReason nat | AbortError | TimeoutError

datatype abort_prog =
    ADone
  | AThrow abort_reason
  | ANew "nat \<Rightarrow> abort_prog"
  | AAbort nat "nat option" "abort_reason option \<Rightarrow> abort_prog"
  | AAborted "nat option" "nat \<Rightarrow> abort_prog"
  | ATimeout "nat \<Rightarrow> abort_prog"
  | AAny "nat list" "nat \<Rightarrow> abort_prog"
  | AListen nat nat abort_prog abort_prog
  | AUnlisten nat nat abort_prog
  | AOnAbort nat "abort_prog option" abort_prog
  | ARemoveAll nat abort_prog
  | ADispatch nat "abort_reason option \<Rightarrow> abort_prog"
  | AThrowIfAborted nat "abort_reason option \<Rightarrow> abort_prog"
  | AWriteAborted nat bool abort_prog
  | AWriteReason nat abort_reason abort_prog

text \<open>A listener: a function of the user with an identity, or the one by which \<open>AbortSignal.any\<close> follows a signal.\<close>

datatype abort_listener = LUser nat abort_prog | LFollow nat nat

text \<open>\<open>abort_emits\<close> records the signals that \<open>abort()\<close>, a timeout or a followed signal aborted, \<open>abort_dispatches\<close> those on which code dispatched the event itself, newest first.\<close>

record abort_state =
  sig_count :: nat
  sig_aborted :: "nat \<Rightarrow> bool"
  sig_reason :: "nat \<Rightarrow> abort_reason"
  sig_onabort :: "nat \<Rightarrow> abort_prog option"
  sig_listeners :: "nat \<Rightarrow> abort_listener list"
  abort_timers :: "nat list"
  abort_emits :: "nat list"
  abort_dispatches :: "nat list"

type_synonym abort_run = "abort_state \<Rightarrow> (abort_reason option \<times> abort_state) option"

text \<open>The two calls that run listeners: to abort a signal, and to dispatch an event on it.\<close>

datatype abort_request = ToAbort nat abort_reason | ToDispatch nat

section \<open>Operations\<close>

definition default_reason :: "nat option \<Rightarrow> abort_reason" where
  "default_reason reason = (case reason of None \<Rightarrow> AbortError | Some r \<Rightarrow> UserReason r)"

definition new_signal :: "abort_state \<Rightarrow> nat \<times> abort_state" where
  "new_signal st =
     (let s = sig_count st in
      (s, st\<lparr>sig_count := s + 1, sig_aborted := (sig_aborted st)(s := False), sig_reason := (sig_reason st)(s := Undefined),
             sig_onabort := (sig_onabort st)(s := None), sig_listeners := (sig_listeners st)(s := [])\<rparr>))"

definition mark_aborted :: "nat \<Rightarrow> abort_reason \<Rightarrow> abort_state \<Rightarrow> abort_state" where
  "mark_aborted s reason st = st\<lparr>sig_aborted := (sig_aborted st)(s := True), sig_reason := (sig_reason st)(s := reason)\<rparr>"

text \<open>\<open>AbortSignal.abort\<close>.\<close>

definition aborted_signal :: "nat option \<Rightarrow> abort_state \<Rightarrow> nat \<times> abort_state" where
  "aborted_signal reason st = (case new_signal st of (s, st) \<Rightarrow> (s, mark_aborted s (default_reason reason) st))"

definition timeout_signal :: "abort_state \<Rightarrow> nat \<times> abort_state" where
  "timeout_signal st = (case new_signal st of (s, st) \<Rightarrow> (s, st\<lparr>abort_timers := abort_timers st @ [s]\<rparr>))"

definition add_abort_listener :: "nat \<Rightarrow> abort_listener \<Rightarrow> abort_state \<Rightarrow> abort_state" where
  "add_abort_listener s l st = st\<lparr>sig_listeners := (sig_listeners st)(s := sig_listeners st s @ [l])\<rparr>"

text \<open>\<open>removeListener\<close> takes away the newest entry of the function.\<close>

definition remove_abort_listener :: "nat \<Rightarrow> nat \<Rightarrow> abort_state \<Rightarrow> abort_state" where
  "remove_abort_listener s i st =
     (let ls = sig_listeners st s;
          hits = filter (\<lambda>n. case ls ! n of LUser j p \<Rightarrow> j = i | LFollow t u \<Rightarrow> False) [0..<length ls]
      in if hits = [] then st else st\<lparr>sig_listeners := (sig_listeners st)(s := take (last hits) ls @ drop (last hits + 1) ls)\<rparr>)"

definition any_signal :: "nat list \<Rightarrow> abort_state \<Rightarrow> nat \<times> abort_state" where
  "any_signal signals st =
     (case new_signal st of
        (s, st) \<Rightarrow>
          (case find (sig_aborted st) signals of
             Some u \<Rightarrow> (s, mark_aborted s (sig_reason st u) st)
           | None \<Rightarrow> (s, foldl (\<lambda>st u. add_abort_listener u (LFollow s u) st) st signals)))"

fun call_abort_listeners :: "(abort_listener \<Rightarrow> abort_run) \<Rightarrow> abort_listener list \<Rightarrow> abort_run" where
  "call_abort_listeners call [] st = Some (None, st)"
| "call_abort_listeners call (l # ls) st =
     (case call l st of
        None \<Rightarrow> None
      | Some (Some e, st) \<Rightarrow> Some (Some e, st)
      | Some (None, st) \<Rightarrow> call_abort_listeners call ls st)"

text \<open>The common part of \<open>AbortController.prototype.abort\<close>, the callback of \<open>AbortSignal.timeout\<close> and the listener of \<open>AbortSignal.any\<close>.  An
  address that names no signal is ignored.\<close>

definition abort_signal :: "(abort_listener \<Rightarrow> abort_run) \<Rightarrow> (abort_prog \<Rightarrow> abort_run) \<Rightarrow> nat \<Rightarrow> abort_reason \<Rightarrow> abort_run" where
  "abort_signal call run s reason st =
     (if sig_count st \<le> s \<or> sig_aborted st s then Some (None, st)
      else
        (let st = (mark_aborted s reason st)\<lparr>abort_emits := s # abort_emits st\<rparr> in
         case call_abort_listeners call (sig_listeners st s) st of
           None \<Rightarrow> None
         | Some (Some e, st) \<Rightarrow> Some (Some e, st)
         | Some (None, st) \<Rightarrow> (case sig_onabort st s of None \<Rightarrow> Some (None, st) | Some p \<Rightarrow> run p st)))"

definition dispatchEvent :: "(abort_listener \<Rightarrow> abort_run) \<Rightarrow> nat \<Rightarrow> abort_run" where
  "dispatchEvent call s st =
     (if sig_count st \<le> s then Some (None, st)
      else (let st = st\<lparr>abort_dispatches := s # abort_dispatches st\<rparr> in call_abort_listeners call (sig_listeners st s) st))"

text \<open>The setter of \<open>onabort\<close>; a value that is not a function counts as none.\<close>

definition set_onabort :: "nat \<Rightarrow> abort_prog option \<Rightarrow> abort_state \<Rightarrow> abort_state" where
  "set_onabort s p st = st\<lparr>sig_onabort := (sig_onabort st)(s := p)\<rparr>"

definition throwIfAborted :: "nat \<Rightarrow> abort_run" where
  "throwIfAborted s st = Some (if sig_aborted st s then Some (sig_reason st s) else None, st)"

section \<open>Code\<close>

primrec exec_abort :: "abort_prog \<Rightarrow> (abort_request \<Rightarrow> abort_run) \<Rightarrow> abort_run" where
  "exec_abort ADone ab st = Some (None, st)"
| "exec_abort (AThrow e) ab st = Some (Some e, st)"
| "exec_abort (ANew k) ab st = (case new_signal st of (s, st) \<Rightarrow> exec_abort (k s) ab st)"
| "exec_abort (AAbort s reason k) ab st =
     (case ab (ToAbort s (default_reason reason)) st of None \<Rightarrow> None | Some (e, st) \<Rightarrow> exec_abort (k e) ab st)"
| "exec_abort (AAborted reason k) ab st = (case aborted_signal reason st of (s, st) \<Rightarrow> exec_abort (k s) ab st)"
| "exec_abort (ATimeout k) ab st = (case timeout_signal st of (s, st) \<Rightarrow> exec_abort (k s) ab st)"
| "exec_abort (AAny signals k) ab st = (case any_signal signals st of (s, st) \<Rightarrow> exec_abort (k s) ab st)"
| "exec_abort (AListen s i p k) ab st = exec_abort k ab (add_abort_listener s (LUser i p) st)"
| "exec_abort (AUnlisten s i k) ab st = exec_abort k ab (remove_abort_listener s i st)"
| "exec_abort (AOnAbort s p k) ab st = exec_abort k ab (set_onabort s p st)"
| "exec_abort (ARemoveAll s k) ab st = exec_abort k ab (st\<lparr>sig_listeners := (sig_listeners st)(s := [])\<rparr>)"
| "exec_abort (ADispatch s k) ab st = (case ab (ToDispatch s) st of None \<Rightarrow> None | Some (e, st) \<Rightarrow> exec_abort (k e) ab st)"
| "exec_abort (AWriteAborted s b k) ab st = exec_abort k ab (st\<lparr>sig_aborted := (sig_aborted st)(s := b)\<rparr>)"
| "exec_abort (AWriteReason s reason k) ab st = exec_abort k ab (st\<lparr>sig_reason := (sig_reason st)(s := reason)\<rparr>)"
| "exec_abort (AThrowIfAborted s k) ab st = (case throwIfAborted s st of None \<Rightarrow> None | Some (e, st) \<Rightarrow> exec_abort (k e) ab st)"

definition abort_call :: "(abort_request \<Rightarrow> abort_run) \<Rightarrow> abort_listener \<Rightarrow> abort_run" where
  "abort_call ab l st = (case l of LUser i p \<Rightarrow> exec_abort p ab st | LFollow t u \<Rightarrow> ab (ToAbort t (sig_reason st u)) st)"

definition serve_request :: "(abort_request \<Rightarrow> abort_run) \<Rightarrow> abort_request \<Rightarrow> abort_run" where
  "serve_request ab q =
     (case q of
        ToAbort s reason \<Rightarrow> abort_signal (abort_call ab) (\<lambda>p. exec_abort p ab) s reason
      | ToDispatch s \<Rightarrow> dispatchEvent (abort_call ab) s)"

text \<open>The nesting of aborts and dispatched events is bounded by the first argument.\<close>

primrec do_abort :: "nat \<Rightarrow> abort_request \<Rightarrow> abort_run" where
  "do_abort 0 = (\<lambda>q st. None)"
| "do_abort (Suc n) = serve_request (do_abort n)"

text \<open>What a process does: it runs code, and a timer of \<open>AbortSignal.timeout\<close> runs out.\<close>

datatype abort_task = RunCode abort_prog | TimerFires nat

definition run_abort_task :: "nat \<Rightarrow> abort_task \<Rightarrow> abort_run" where
  "run_abort_task depth t st =
     (case t of
        RunCode p \<Rightarrow> exec_abort p (do_abort depth) st
      | TimerFires s \<Rightarrow>
          if s \<in> set (abort_timers st) then do_abort depth (ToAbort s TimeoutError) (st\<lparr>abort_timers := remove1 s (abort_timers st)\<rparr>)
          else Some (None, st))"

fun run_abort_tasks :: "nat \<Rightarrow> abort_task list \<Rightarrow> abort_state \<Rightarrow> abort_state option" where
  "run_abort_tasks depth [] st = Some st"
| "run_abort_tasks depth (t # ts) st = (case run_abort_task depth t st of None \<Rightarrow> None | Some (e, st) \<Rightarrow> run_abort_tasks depth ts st)"

definition abort_init :: abort_state where
  "abort_init = \<lparr>sig_count = 0, sig_aborted = (\<lambda>s. False), sig_reason = (\<lambda>s. Undefined), sig_onabort = Map.empty, sig_listeners = (\<lambda>s. []), abort_timers = [], abort_emits = [], abort_dispatches = []\<rparr>"

section \<open>A signal is aborted once\<close>

text \<open>Code that does not write the fields of a signal, and neither do the functions it registers.\<close>

primrec reads_fields :: "abort_prog \<Rightarrow> bool" where
  "reads_fields ADone \<longleftrightarrow> True"
| "reads_fields (AThrow e) \<longleftrightarrow> True"
| "reads_fields (ANew k) \<longleftrightarrow> (\<forall>s. reads_fields (k s))"
| "reads_fields (AAbort s reason k) \<longleftrightarrow> (\<forall>e. reads_fields (k e))"
| "reads_fields (AAborted reason k) \<longleftrightarrow> (\<forall>s. reads_fields (k s))"
| "reads_fields (ATimeout k) \<longleftrightarrow> (\<forall>s. reads_fields (k s))"
| "reads_fields (AAny signals k) \<longleftrightarrow> (\<forall>s. reads_fields (k s))"
| "reads_fields (AListen s i p k) \<longleftrightarrow> reads_fields p \<and> reads_fields k"
| "reads_fields (AUnlisten s i k) \<longleftrightarrow> reads_fields k"
| "reads_fields (AOnAbort s p k) \<longleftrightarrow> pred_option id (map_option reads_fields p) \<and> reads_fields k"
| "reads_fields (ARemoveAll s k) \<longleftrightarrow> reads_fields k"
| "reads_fields (ADispatch s k) \<longleftrightarrow> (\<forall>e. reads_fields (k e))"
| "reads_fields (AThrowIfAborted s k) \<longleftrightarrow> (\<forall>e. reads_fields (k e))"
| "reads_fields (AWriteAborted s b k) \<longleftrightarrow> False"
| "reads_fields (AWriteReason s reason k) \<longleftrightarrow> False"

definition reader :: "abort_listener \<Rightarrow> bool" where
  "reader l = (case l of LUser i p \<Rightarrow> reads_fields p | LFollow t u \<Rightarrow> True)"

definition readers_only :: "abort_state \<Rightarrow> bool" where
  "readers_only st \<longleftrightarrow> (\<forall>s. list_all reader (sig_listeners st s) \<and> pred_option reads_fields (sig_onabort st s))"

definition emits_ok :: "abort_state \<Rightarrow> bool" where
  "emits_ok st \<longleftrightarrow> distinct (abort_emits st) \<and> (\<forall>s \<in> set (abort_emits st). s < sig_count st \<and> sig_aborted st s)"

text \<open>What a piece of such code does to the signals.\<close>

definition abort_le :: "abort_state \<Rightarrow> abort_state \<Rightarrow> bool" where
  "abort_le st st' \<longleftrightarrow> (readers_only st \<longrightarrow>
     readers_only st' \<and> sig_count st \<le> sig_count st' \<and> (emits_ok st \<longrightarrow> emits_ok st') \<and>
     (\<forall>s < sig_count st. sig_aborted st s \<longrightarrow>
        sig_aborted st' s \<and> sig_reason st' s = sig_reason st s \<and> (s \<in> set (abort_emits st') \<longleftrightarrow> s \<in> set (abort_emits st))))"

lemma abort_refl [simp]: "abort_le st st"
  by (simp add: abort_le_def)

lemma abort_trans: "abort_le st st1 \<Longrightarrow> abort_le st1 st2 \<Longrightarrow> abort_le st st2"
  by (auto simp: abort_le_def)

lemma abort_same:
  assumes "sig_count st' = sig_count st" "sig_aborted st' = sig_aborted st" "sig_reason st' = sig_reason st" "abort_emits st' = abort_emits st"
    and "readers_only st \<Longrightarrow> readers_only st'"
  shows "abort_le st st'"
  using assms by (simp add: abort_le_def emits_ok_def)

lemma listeners_le:
  "reader l \<Longrightarrow> abort_le st (add_abort_listener s l st)" "abort_le st (remove_abort_listener s i st)"
  "abort_le st (st\<lparr>sig_listeners := (sig_listeners st)(s := [])\<rparr>)" "pred_option reads_fields p \<Longrightarrow> abort_le st (set_onabort s p st)"
  by (rule abort_same; auto simp: add_abort_listener_def remove_abort_listener_def set_onabort_def readers_only_def list_all_iff Let_def dest: in_set_takeD in_set_dropD)+

lemma signals_le:
  "abort_le st (snd (new_signal st))" "abort_le st (snd (aborted_signal reason st))" "abort_le st (snd (timeout_signal st))" "abort_le st (snd (any_signal signals st))"
proof -
  have n: "abort_le st (snd (new_signal st))" by (auto simp: new_signal_def Let_def abort_le_def emits_ok_def readers_only_def less_SucI)
  have m: "abort_le st (mark_aborted (sig_count st) r (snd (new_signal st)))" for r
    by (auto simp: new_signal_def mark_aborted_def Let_def abort_le_def emits_ok_def readers_only_def less_SucI)
  have f: "abort_le st0 (foldl (\<lambda>st u. add_abort_listener u (LFollow s u) st) st0 us)" for s us st0
  proof (induction us arbitrary: st0)
    case (Cons u us)
    have "abort_le st0 (add_abort_listener u (LFollow s u) st0)" by (rule listeners_le(1)) (simp add: reader_def)
    then show ?case using Cons [of "add_abort_listener u (LFollow s u) st0"] abort_trans by auto
  qed simp
  have s: "fst (new_signal st) = sig_count st" by (simp add: new_signal_def Let_def)
  show "abort_le st (snd (new_signal st))" by (rule n)
  show "abort_le st (snd (aborted_signal reason st))" using m s by (simp add: aborted_signal_def split: prod.split) (metis fst_conv snd_conv)
  have "abort_le (snd (new_signal st)) ((snd (new_signal st))\<lparr>abort_timers := t\<rparr>)" for t by (rule abort_same) (simp_all add: readers_only_def)
  then show "abort_le st (snd (timeout_signal st))" using abort_trans [OF n] by (simp add: timeout_signal_def split: prod.split) (metis snd_conv)
  show "abort_le st (snd (any_signal signals st))" using m s abort_trans [OF n f] by (simp add: any_signal_def split: prod.split option.split) (metis fst_conv snd_conv)
qed

text \<open>A family of runs keeps the signals on the inputs that satisfy a predicate.\<close>

definition keeps_aborts :: "('a \<Rightarrow> bool) \<Rightarrow> ('a \<Rightarrow> abort_run) \<Rightarrow> bool" where
  "keeps_aborts P f \<longleftrightarrow> (\<forall>x st e st'. P x \<longrightarrow> f x st = Some (e, st') \<longrightarrow> abort_le st st')"

lemma keeps_abortsI: "(\<And>x st e st'. P x \<Longrightarrow> f x st = Some (e, st') \<Longrightarrow> abort_le st st') \<Longrightarrow> keeps_aborts P f"
  by (simp add: keeps_aborts_def)

lemma keeps_abortsD: "keeps_aborts P f \<Longrightarrow> f x st = Some (e, st') \<Longrightarrow> P x \<Longrightarrow> abort_le st st'"
  by (auto simp: keeps_aborts_def)

lemma exec_abort_le:
  assumes ab: "keeps_aborts (\<lambda>q. True) ab"
  shows "reads_fields p \<Longrightarrow> exec_abort p ab st = Some (e, st') \<Longrightarrow> abort_le st st'"
proof (induction p arbitrary: st)
  case (ANew k)
  obtain s st1 where "new_signal st = (s, st1)" by force
  then show ?case using ANew abort_trans [OF signals_le(1) [of st]] by auto
next
  case (AAborted reason k)
  obtain s st1 where "aborted_signal reason st = (s, st1)" by force
  then show ?case using AAborted abort_trans [OF signals_le(2) [of st reason]] by auto
next
  case (ATimeout k)
  obtain s st1 where "timeout_signal st = (s, st1)" by force
  then show ?case using ATimeout abort_trans [OF signals_le(3) [of st]] by auto
next
  case (AAny signals k)
  obtain s st1 where "any_signal signals st = (s, st1)" by force
  then show ?case using AAny abort_trans [OF signals_le(4) [of st signals]] by auto
next
  case (AAbort s reason k)
  then obtain e1 st1 where "ab (ToAbort s (default_reason reason)) st = Some (e1, st1)" "exec_abort (k e1) ab st1 = Some (e, st')" by (auto split: option.splits)
  then show ?case using keeps_abortsD [OF ab] AAbort.IH AAbort.prems(1) abort_trans by (metis TrueI rangeI reads_fields.simps(4))
next
  case (ADispatch s k)
  then obtain e1 st1 where "ab (ToDispatch s) st = Some (e1, st1)" "exec_abort (k e1) ab st1 = Some (e, st')" by (auto split: option.splits)
  then show ?case using keeps_abortsD [OF ab] ADispatch.IH ADispatch.prems(1) abort_trans by (metis TrueI rangeI reads_fields.simps(12))
next
  case (AListen s i p k)
  then show ?case using abort_trans [OF listeners_le(1) [of "LUser i p" st s]] by (auto simp: reader_def)
next
  case (AUnlisten s i k) then show ?case using abort_trans [OF listeners_le(2)] by fastforce
next
  case (ARemoveAll s k) then show ?case using abort_trans [OF listeners_le(3)] by fastforce
next
  case (AOnAbort s p k)
  have "pred_option reads_fields p" using AOnAbort.prems(1) by (cases p) auto
  then show ?case using AOnAbort.IH(2) AOnAbort.prems abort_trans [OF listeners_le(4)] by fastforce
qed (auto simp: throwIfAborted_def)

lemma call_abort_listeners_le:
  assumes call: "keeps_aborts reader call"
  shows "list_all reader ls \<Longrightarrow> call_abort_listeners call ls st = Some (x, st') \<Longrightarrow> abort_le st st'"
proof (induction ls arbitrary: st)
  case (Cons l ls)
  then obtain y st2 where "call l st = Some (y, st2)" by (auto split: option.splits)
  then show ?case using Cons keeps_abortsD [OF call, of l st y st2] abort_trans by (auto split: option.splits)
qed simp

lemma dispatchEvent_le:
  assumes call: "keeps_aborts reader call" and r: "dispatchEvent call s st = Some (e, st')"
  shows "abort_le st st'"
proof (cases "readers_only st \<and> s < sig_count st")
  case True
  let ?st = "st\<lparr>abort_dispatches := s # abort_dispatches st\<rparr>"
  have "call_abort_listeners call (sig_listeners st s) ?st = Some (e, st')" using r True by (simp add: dispatchEvent_def)
  then have "abort_le ?st st'" using call_abort_listeners_le [OF call, of "sig_listeners st s" ?st e st'] True by (simp add: readers_only_def)
  moreover have "abort_le st ?st" by (rule abort_same) (simp_all add: readers_only_def)
  ultimately show ?thesis using abort_trans by blast
next
  case False then show ?thesis using r by (auto simp: dispatchEvent_def abort_le_def)
qed

lemma abort_signal_le:
  assumes call: "keeps_aborts reader call"
    and run: "keeps_aborts reads_fields run"
    and r: "abort_signal call run s reason st = Some (e, st')"
  shows "abort_le st st'"
proof (cases "sig_count st \<le> s \<or> sig_aborted st s \<or> \<not> readers_only st")
  case True then show ?thesis using r by (auto simp: abort_signal_def abort_le_def split: if_splits)
next
  case False
  let ?st = "(mark_aborted s reason st)\<lparr>abort_emits := s # abort_emits st\<rparr>"
  have m: "abort_le st ?st" using False by (auto simp: abort_le_def emits_ok_def mark_aborted_def readers_only_def)
  obtain x st1 where x: "call_abort_listeners call (sig_listeners ?st s) ?st = Some (x, st1)" using r False by (auto simp: abort_signal_def Let_def split: option.splits)
  have "list_all reader (sig_listeners ?st s)" using False by (simp add: readers_only_def mark_aborted_def)
  then have 1: "abort_le st st1" using abort_trans [OF m call_abort_listeners_le [OF call _ x]] by blast
  have "st' = st1 \<or> (\<exists>p. sig_onabort st1 s = Some p \<and> run p st1 = Some (e, st'))" using r False x by (auto simp: abort_signal_def Let_def split: option.splits)
  moreover have "pred_option reads_fields (sig_onabort st1 s)" using 1 False by (simp add: abort_le_def readers_only_def)
  ultimately show ?thesis using 1 keeps_abortsD [OF run] abort_trans by fastforce
qed

lemma serve_request_le:
  assumes "keeps_aborts (\<lambda>q. True) ab"
  shows "keeps_aborts (\<lambda>q. True) (serve_request ab)"
proof (rule keeps_abortsI)
  fix q st e st'
  assume r: "serve_request ab q st = Some (e, st')"
  have run: "keeps_aborts reads_fields (\<lambda>p. exec_abort p ab)" by (rule keeps_abortsI) (rule exec_abort_le [OF assms])
  have call: "keeps_aborts reader (abort_call ab)"
    using keeps_abortsD [OF assms] keeps_abortsD [OF run] by (intro keeps_abortsI) (auto simp: abort_call_def reader_def split: abort_listener.splits)
  show "abort_le st st'" using r abort_signal_le [OF call run] dispatchEvent_le [OF call] by (auto simp: serve_request_def split: abort_request.splits)
qed

lemma do_abort_le: "keeps_aborts (\<lambda>q. True) (do_abort n)"
  by (induction n) (auto intro: serve_request_le simp: keeps_aborts_def [of _ "\<lambda>q st. None"])

definition reading_task :: "abort_task \<Rightarrow> bool" where
  "reading_task t = (case t of RunCode p \<Rightarrow> reads_fields p | TimerFires s \<Rightarrow> True)"

lemma run_abort_tasks_le: "list_all reading_task ts \<Longrightarrow> run_abort_tasks d ts st = Some st' \<Longrightarrow> abort_le st st'"
proof (induction ts arbitrary: st)
  case (Cons t ts)
  then obtain e st1 where 1: "run_abort_task d t st = Some (e, st1)" "run_abort_tasks d ts st1 = Some st'" by (auto split: option.splits)
  have "abort_le st st1"
  proof (cases t)
    case (RunCode p) then show ?thesis using 1(1) Cons.prems(1) exec_abort_le [OF do_abort_le, of p d st e st1] by (simp add: run_abort_task_def reading_task_def)
  next
    case (TimerFires s)
    have "abort_le st (st\<lparr>abort_timers := remove1 s (abort_timers st)\<rparr>)" by (rule abort_same) (simp_all add: readers_only_def)
    then show ?thesis using 1(1) TimerFires keeps_abortsD [OF do_abort_le] abort_trans by (auto simp: run_abort_task_def split: if_splits)
  qed
  then show ?case using Cons 1(2) abort_trans by auto
qed simp

text \<open>C35: While code and the listeners it registers read the fields \<open>aborted\<close> and \<open>reason\<close> but do not write them, \<open>abort()\<close>, timeouts and followed signals fire \<open>abort\<close> at most once
  for each signal, however listeners abort, compose, register and throw, and a signal that is aborted stays so with the same reason and is not fired again.  Events that code dispatches itself
  with \<open>dispatchEvent\<close> may occur in between and are not counted.\<close>

theorem abort_fires_once:
  assumes "list_all reading_task ts" "list_all reading_task ts'"
    and "run_abort_tasks d ts abort_init = Some st" "run_abort_tasks d' ts' st = Some st'"
  shows "distinct (abort_emits st') \<and>
    (\<forall>s < sig_count st. sig_aborted st s \<longrightarrow> sig_aborted st' s \<and> sig_reason st' s = sig_reason st s \<and> count_list (abort_emits st') s = count_list (abort_emits st) s)"
proof -
  have 1: "abort_le abort_init st" and 2: "abort_le st st'" using assms run_abort_tasks_le by blast+
  have o: "readers_only st" "emits_ok st" using 1 by (auto simp: abort_le_def emits_ok_def abort_init_def readers_only_def)
  have i: "emits_ok st'" using 2 o by (simp add: abort_le_def)
  have c: "count_list xs s = (if s \<in> set xs then 1 else 0)" if "distinct xs" for xs and s :: nat using that by (induction xs) auto
  show ?thesis using 2 o i c unfolding abort_le_def emits_ok_def by metis
qed

text \<open>Two signals, and one that follows both; a listener of the first aborts the second.  Then the code aborts the first one again, and dispatches the event on it.\<close>

definition abort_demo :: abort_prog where
  "abort_demo = ANew (\<lambda>a. ANew (\<lambda>b. AListen a 1 (AAbort b (Some 5) (\<lambda>e. ADone)) (AAny [a, b] (\<lambda>c. AAbort a None (\<lambda>e. AAbort a (Some 6) (\<lambda>e. ADispatch a (\<lambda>e. ADone)))))))"

definition abort_after :: abort_state where
  "abort_after = (case run_abort_tasks 4 [RunCode abort_demo] abort_init of Some st \<Rightarrow> st | None \<Rightarrow> abort_init)"

lemma abort_demo_runs:
  "run_abort_tasks 4 [RunCode abort_demo] abort_init = Some abort_after"
  "(case run_abort_tasks 4 [RunCode (AAbort 2 (Some 7) (\<lambda>e. ADone))] abort_after of None \<Rightarrow> False | Some st \<Rightarrow> True)"
  "sig_count abort_after = 3" "sig_aborted abort_after 2" "sig_reason abort_after 2 = UserReason 5" "abort_emits abort_after = [2, 1, 0]"
proof -
  have "(case run_abort_tasks 4 [RunCode abort_demo] abort_init of None \<Rightarrow> False | Some st \<Rightarrow> True)" by code_simp
  then show "run_abort_tasks 4 [RunCode abort_demo] abort_init = Some abort_after" by (simp add: abort_after_def split: option.splits)
  show "(case run_abort_tasks 4 [RunCode (AAbort 2 (Some 7) (\<lambda>e. ADone))] abort_after of None \<Rightarrow> False | Some st \<Rightarrow> True)" by code_simp
  show "sig_count abort_after = 3" "sig_aborted abort_after 2" "sig_reason abort_after 2 = UserReason 5" "abort_emits abort_after = [2, 1, 0]" by code_simp+
qed

theorem abort_fires_once_witness:
  "\<exists>st. run_abort_tasks 4 [RunCode (AAbort 2 (Some 7) (\<lambda>e. ADone))] abort_after = Some st \<and> sig_reason st 2 = UserReason 5 \<and> count_list (abort_emits st) 2 = 1"
proof -
  obtain st where r: "run_abort_tasks 4 [RunCode (AAbort 2 (Some 7) (\<lambda>e. ADone))] abort_after = Some st" using abort_demo_runs(2) by (auto split: option.splits)
  have "list_all reading_task [RunCode abort_demo]" "list_all reading_task [RunCode (AAbort 2 (Some 7) (\<lambda>e. ADone))]" by (simp_all add: reading_task_def abort_demo_def)
  from abort_fires_once [OF this abort_demo_runs(1) r] r show ?thesis using abort_demo_runs(3-6) by simp
qed

text \<open>A listener that throws keeps the later ones from running, also those by which \<open>AbortSignal.any\<close> follows the signal: the composed signal is not aborted, and
  never will be.\<close>

definition any_demo :: abort_prog where
  "any_demo = ANew (\<lambda>a. AListen a 1 (AThrow (UserReason 3)) (AAny [a] (\<lambda>c. AAbort a None (\<lambda>e. ADone))))"

lemma any_signal_missed:
  "(case run_abort_tasks 4 [RunCode any_demo, RunCode (AAbort 0 None (\<lambda>e. ADone))] abort_init of
      None \<Rightarrow> False | Some st \<Rightarrow> sig_aborted st 0 \<and> \<not> sig_aborted st 1)"
  by code_simp

text \<open>An event that code dispatches itself runs the listeners of the signal without aborting it; a signal that follows it is aborted, with the reason \<open>undefined\<close>.  It runs them again
  on a signal that was aborted before.\<close>

lemma dispatched_event_aborts_followers:
  "(case run_abort_tasks 4 [RunCode (ANew (\<lambda>a. AAny [a] (\<lambda>c. ADispatch a (\<lambda>e. ADone))))] abort_init of
      None \<Rightarrow> False | Some st \<Rightarrow> \<not> sig_aborted st 0 \<and> sig_aborted st 1 \<and> sig_reason st 1 = Undefined \<and> abort_emits st = [1] \<and> abort_dispatches st = [0])"
  by code_simp

text \<open>Code that writes \<open>aborted\<close> lets the controller fire again.\<close>

lemma written_field_fires_again:
  "(case run_abort_tasks 4 [RunCode (ANew (\<lambda>a. AAbort a None (\<lambda>e. AWriteAborted a False (AAbort a (Some 2) (\<lambda>e. ADone)))))] abort_init of
      None \<Rightarrow> False | Some st \<Rightarrow> abort_emits st = [0, 0] \<and> sig_reason st 0 = UserReason 2)"
  by code_simp

end
