(* ===== verification/Spec2Isabelle.thy ===== *)
theory Spec2Isabelle
  imports BundleLoaderProps NodePathProps NodePathWin32Props ProcessEvents UrlShimProps FixedQueue TimersRounds
    CryptoShimProps InspectorServerProps EventEmitterEmit TaskQueueEnd ImmediatesReach QueryStringRound CjsModuleFast
    DomainShim AbortShim
begin

text \<open>
  \<^bold>\<open>hermes-node\<close> runs Node.js programs on the Hermes JavaScript engine.  A C++ runtime
  provides native bindings; on top of it \<open>libjs/\<close> holds the project's own JavaScript (the
  bootstrap loader, the loader of packaged programs, the process events, shims for parts of
  Node's library), and \<open>libjs-node/\<close> the parts of Node's JavaScript library it runs.  This
  development models the JavaScript.

  \<^bold>\<open>How the parts interact.\<close>  \<open>libjs/loader.js\<close> starts first: it loads every other
  module from bytecode tables, vendored packages or the disk, and defines
  \<open>globalThis.require\<close>.  \<open>shims/internal/bootstrap/realm.js\<close> says which ids are builtin.
  For a packaged program \<open>libjs/bundle-loader.js\<close> closes the disk of the bootstrap loader and
  wraps the entry points of Node's CommonJS loader, so that modules come from the package
  only; any other program is loaded from the disk by Node's CommonJS loader, which \<open>loader.js\<close> wraps with a fallback to itself; names are resolved with \<open>path\<close>.  At run time the event loop
  calls \<open>processTimers\<close> of \<open>internal/timers.js\<close>, whose state is a priority queue of linked lists,
  and \<open>processImmediate\<close>, which runs a chain of immediates; between callbacks it runs the tick queue, a \<open>FixedQueue\<close>, and reports rejected promises (\<open>task_queues.js\<close>, \<open>promises.js\<close>); an exception nobody
  caught arrives at \<open>_fatalException\<close> of \<open>process-events.js\<close>.  Most objects of Node's library are
  event emitters (\<open>events.js\<close>).

  \<^bold>\<open>Conventions.\<close>  A JavaScript string is a list (of characters where the code only
  compares with ASCII, of UTF-16 code units in the codecs).  A throw is the left side of
  \<open>'a result\<close>.  Objects with identity are addresses of a store.  Code given by the
  user (a module body, a callback, a listener) is a tree of the actions it performs, whose branches
  receive what a call returned, so that it may catch, loop finitely and re-enter the code that
  runs it.  Native functions are parameters, most of them fields of an environment record.

  \<^bold>\<open>The theories.\<close>
  \<^item> \<open>JsPrelude\<close>: strings, arrays and errors of JavaScript, the loops of the sources as
    folds with early exit, generic lemmas, the collection \<open>js_defs\<close>.
  \<^item> \<open>NodePath\<close>, \<open>NodePathProps\<close>: \<open>libjs-node/path.js\<close>, \<open>normalizeString\<close> and
    \<open>path.posix\<close>.  The character loops equal segment-wise references; normalisation is
    idempotent, \<open>resolve\<close> is absolute, \<open>join\<close> inverts \<open>relative\<close>, \<open>format\<close> inverts \<open>parse\<close>.
  \<^item> \<open>NodePathWin32\<close>, \<open>NodePathWin32Props\<close>: \<open>path.win32\<close> with drives, UNC roots
    and reserved names; normalisation never changes the kind of a path.
  \<^item> \<open>Realm\<close>: \<open>shims/internal/bootstrap/realm.js\<close>, the tables of builtin ids.
  \<^item> \<open>BootLoader\<close>, \<open>BootLoaderProps\<close>: \<open>libjs/loader.js\<close>, \<open>requireModule\<close>,
    \<open>loadModule\<close>, \<open>makeRequire\<close>, \<open>resolveFilePath\<close> and the disk switch.  The locale
    \<open>boot_preorder\<close> lifts a preorder from the primitive steps to whole runs; its
    interpretations give containment, well-formedness of the cache, and how often a body runs.
  \<^item> \<open>CjsLoader\<close>: \<open>_nodeModulePaths\<close> and \<open>createRequire\<close> of Node's loader.
  \<^item> \<open>CjsResolve\<close>, \<open>CjsResolveProps\<close>: resolution of a request by Node's loader (\<open>internal/modules/cjs/loader.js\<close>, \<open>_resolveFilename\<close>, \<open>_findPath\<close> and what they
    call).  Behind its cache it is a search for the first candidate that is a file, and it answers only files and builtin ids.
  \<^item> \<open>CjsModule\<close>, \<open>CjsModuleProps\<close>, \<open>CjsModuleFast\<close>: loading with Node's loader as \<open>libjs/loader.js\<close> sets it up for programs that are not packaged (\<open>Module._load\<close>,
    the extension handlers, \<open>__initCJS\<close>, \<open>__loadUserScript\<close>, \<open>__setupEvalContext\<close>), over \<open>CjsResolve\<close> and \<open>BootLoader\<close>.  The locale \<open>cjs_preorder\<close> lifts a preorder from the primitive steps to
    whole runs; its interpretations show that no cached module stays half loaded, that a script returns, and that the fast path agrees with resolution.
  \<^item> \<open>BundleLoader\<close>, \<open>BundleLoaderProps\<close>: \<open>libjs/bundle-loader.js\<close>; a package is a
    closed world and failed loads leave no trace; while packaged code leaves \<open>require.cache\<close> alone, modules are singletons and a run returns.
  \<^item> \<open>ProcessEvents\<close>: \<open>libjs/process-events.js\<close>.
  \<^item> \<open>UriCodec\<close>, \<open>UrlShim\<close>, \<open>UrlShimProps\<close>: \<open>encodeURIComponent\<close> and its inverse over
    UTF-16, and \<open>shims/internal/url.js\<close>; the text of \<open>URLSearchParams\<close> parses back.
  \<^item> \<open>QueryString\<close>, \<open>QueryStringProps\<close>, \<open>QueryStringRound\<close>: \<open>libjs-node/querystring.js\<close>; \<open>parse\<close> equals splitting and
    decoding and inverts \<open>stringify\<close>, \<open>unescapeBuffer\<close> returns no byte it has not written.
  \<^item> \<open>FixedQueue\<close>: \<open>internal/fixed_queue.js\<close>, a refinement of lists.
  \<^item> \<open>TaskQueue\<close>, \<open>TaskQueueProps\<close>, \<open>TaskQueueEnd\<close>: \<open>internal/process/task_queues.js\<close> and
    \<open>internal/process/promises.js\<close>, clients of that queue through its contract.  The locale \<open>tq_user\<close> lifts a
    predicate from the primitive changes to functions, listeners and loops: ticks run in order, rejections are reported once and none
    is forgotten, the loops end when the work gets lighter.
  \<^item> \<open>PriorityQueue\<close>, \<open>LinkedList\<close>: \<open>internal/priority_queue.js\<close> and
    \<open>internal/linkedlist.js\<close>, the containers of the timers, with their contracts.
  \<^item> \<open>Timers\<close>, \<open>TimersProps\<close>: \<open>internal/timers.js\<close> and \<open>timers.js\<close>.  The locales \<open>timers_ops\<close>
    and \<open>timers_rounds\<close> lift what every operation keeps to callbacks, ticks and whole rounds: the reference count
    is right, and a cleared timer is never called.
  \<^item> \<open>TimersInv\<close>, \<open>TimersRounds\<close>: the invariant that ties map, queue, lists and links together, over the
    contracts of the two containers; a round ends, calls nothing early and answers the time of the next list.
  \<^item> \<open>Immediates\<close>, \<open>ImmediatesProps\<close>, \<open>ImmediatesRun\<close>, \<open>ImmediatesReach\<close>: \<open>setImmediate\<close>, \<open>clearImmediate\<close> and
    \<open>processImmediate\<close> of the same files, over the two linked chains; immediates run in order, once each, and the counts are right.
  \<^item> \<open>EventEmitter\<close>, \<open>EventEmitterProps\<close>, \<open>EventEmitterOnce\<close>, \<open>EventEmitterEmit\<close>: the class \<open>EventEmitter\<close> of
    \<open>libjs-node/events.js\<close>.  The locale \<open>emitter_ops\<close> lifts what the primitive changes keep to listeners, nested
    \<open>emit\<close>s and whole programs; its interpretations give the event count and that \<open>once\<close> listeners run at most once
    unless a program adds a wrapper again.  When nobody listens to \<open>newListener\<close> and \<open>removeListener\<close>, an emitter is a list of functions for each event, and \<open>emit\<close> calls that list up to the first function that throws.
  \<^item> \<open>DomainShim\<close>: \<open>shims/domain.js\<close>.  The locale \<open>domain_preorder\<close> lifts a relation from the primitive changes to all code; the active domain
    is the top of the stack, or \<open>null\<close> or \<open>undefined\<close>, which are kept apart, when it is empty; \<open>run\<close>, \<open>bind\<close> and \<open>intercept\<close> leave the stack as it was.
  \<^item> \<open>AbortShim\<close>: \<open>shims/internal/abort_controller.js\<close>; as long as code does not write its fields, a signal is aborted once, with one reason; events that code dispatches
    itself are part of the runs.
  \<^item> \<open>CryptoShim\<close>, \<open>CryptoShimProps\<close>: \<open>shims/crypto.js\<close>; uniformity of \<open>randomInt\<close>, entropy
    of UUIDs, hash objects.
  \<^item> \<open>InspectorServer\<close>, \<open>InspectorServerProps\<close>: \<open>shims/inspector-server.js\<close>; delivery of the
    debugger protocol in order and without loss.

  \<^bold>\<open>Bounds.\<close>  Where the code may not return the model has fuel or a depth and returns
  \<open>None\<close> when it is used up.  The nesting of loads of the bootstrap loader is bounded
  by the number of loadable ids that are not loaded (\<open>boot_require_terminates\<close>), and more depth does
  not change a result; that of the bundle loader by its number of code modules (\<open>bundle_run_returns\<close>), that of \<open>Module._load\<close> by the number of readable files (\<open>user_script_returns\<close>); both while no code removes entries of the cache.
  A round of the timers needs as many iterations as there are overdue lists and due timers (\<open>processTimers_terminates\<close>),
  one of the immediates as many as there are pending (\<open>immediates_in_order\<close>).
  \<open>randomInt\<close> draws until a value is below its limit; \<open>random_int_returns\<close> gives the
  draw at which it returns and that at least half of the draws qualify.

  \<^bold>\<open>Not modelled.\<close>  The C++ runtime and its bindings (\<open>lib/\<close>, \<open>include/\<close>), which are
  another language and appear as parameters; \<open>external/\<close> and \<open>vendored/\<close>, third-party
  code; the examples, tests and build scripts; \<open>libjs/primordials.js\<close>, which copies
  the engine's own functions into one object; \<open>shims/internal/options.js\<close>, a static
  table; \<open>setup-stdio.js\<close> and \<open>console-init.js\<close>, which connect streams to file descriptors;
  the shims that only export stubs; of Node's CommonJS loader the hooks of \<open>module.registerHooks\<close>, watch mode and ES modules,
  which hermes-node does not run; and the rest of Node's library under
  \<open>libjs-node/\<close> (streams, http, fs, crypto, the test runner and so on).
\<close>

end
